(* ===== verification/Prelude.thy ===== *)
theory Prelude
  imports Main "HOL-Library.Word" "HOL-Library.Signed_Division"
begin

text \<open>
  Shared vocabulary of the development: the collection of definitions the picker theories unfold
  together, fixed-width counters (C++ bit-fields) written out over \<^typ>\<open>nat\<close>, the vector
  operations several components use and the locale of state machines with an invariant.
\<close>

named_theorems block_queries \<open>the definitions of the queries on a block\<close>

section \<open>Fixed-width counters\<close>

text \<open>
  \<open>++x\<close> and \<open>--x\<close> on an unsigned bit-field of \<open>w\<close> bits.
\<close>

definition inc_bits :: "nat \<Rightarrow> nat \<Rightarrow> nat" where
  "inc_bits w x = (x + 1) mod 2 ^ w"

definition dec_bits :: "nat \<Rightarrow> nat \<Rightarrow> nat" where
  "dec_bits w x = (x + 2 ^ w - 1) mod 2 ^ w"

lemma inc_bits_lt [simp]: "inc_bits w x < 2 ^ w"
  by (simp add: inc_bits_def)

lemma dec_bits_lt [simp]: "dec_bits w x < 2 ^ w"
  by (simp add: dec_bits_def)

lemma inc_bits_eq: "x + 1 < 2 ^ w \<Longrightarrow> inc_bits w x = x + 1"
  by (simp add: inc_bits_def)

lemma dec_bits_eq:
  assumes "0 < x" "x < 2 ^ w"
  shows "dec_bits w x = x - 1"
proof -
  have "x + 2 ^ w - 1 = (x - 1) + 2 ^ w" using assms by simp
  then have "dec_bits w x = ((x - 1) + 2 ^ w) mod 2 ^ w" by (simp only: dec_bits_def)
  also have "\<dots> = (x - 1) mod 2 ^ w" by (rule mod_add_self2)
  also have "\<dots> = x - 1" using assms by simp
  finally show ?thesis .
qed

lemma dec_inc_bits:
  assumes "x < 2 ^ w"
  shows "dec_bits w (inc_bits w x) = x"
proof (cases "x + 1 < 2 ^ w")
  case True
  then show ?thesis by (simp add: inc_bits_eq dec_bits_eq)
next
  case False
  with assms have "x + 1 = 2 ^ w" by simp
  then have "inc_bits w x = 0" by (simp add: inc_bits_def)
  then have "dec_bits w (inc_bits w x) = (2 ^ w - 1) mod 2 ^ w" by (simp add: dec_bits_def)
  also have "\<dots> = 2 ^ w - 1" by simp
  finally show ?thesis using \<open>x + 1 = 2 ^ w\<close> by simp
qed

section \<open>Division of integers\<close>

text \<open>The division and remainder of C++, which round towards zero, on numbers that are not negative.\<close>

lemma nonneg_sdiv:
  assumes "0 \<le> a" "0 \<le> b"
  shows "a sdiv b = a div (b :: int)"
  using assms by (cases "a = 0"; cases "b = 0") (simp_all add: signed_divide_int_def)

lemma nonneg_smod:
  assumes "0 \<le> a" "0 \<le> b"
  shows "a smod b = a mod (b :: int)"
  using assms by (cases "a = 0") (simp_all add: signed_modulo_int_def)

section \<open>Conversion to int\<close>

text \<open>
  The value of a conversion to the 32 bit \<open>int\<close>, also of arithmetic on \<open>int\<close> operands, where it leaves
  the range (two's complement, as compiled; for the arithmetic the language gives no meaning).
\<close>

definition int32 :: "int \<Rightarrow> int" where
  "int32 x = (x + 2 ^ 31) mod 2 ^ 32 - 2 ^ 31"

lemma int32_id: "- (2 ^ 31) \<le> x \<Longrightarrow> x < 2 ^ 31 \<Longrightarrow> int32 x = x"
  by (simp add: int32_def)

section \<open>Vectors\<close>

text \<open>\<open>std::vector::resize(n, v)\<close>.\<close>

definition vec_resize :: "nat \<Rightarrow> 'a \<Rightarrow> 'a list \<Rightarrow> 'a list" where
  "vec_resize n v xs = take n xs @ replicate (n - length xs) v"

lemma length_vec_resize [simp]: "length (vec_resize n v xs) = n"
  by (simp add: vec_resize_def)

lemma nth_vec_resize: "i < n \<Longrightarrow> vec_resize n v xs ! i = (if i < length xs then xs ! i else v)"
  by (simp add: vec_resize_def nth_append)

lemma vec_resize_grow: "length xs \<le> n \<Longrightarrow> vec_resize n v xs = xs @ replicate (n - length xs) v"
  by (simp add: vec_resize_def)

text \<open>\<open>std::swap(xs[i], xs[j])\<close>.\<close>

definition vec_swap :: "'a list \<Rightarrow> nat \<Rightarrow> nat \<Rightarrow> 'a list" where
  "vec_swap xs i j = xs[i := xs ! j, j := xs ! i]"

lemma length_vec_swap [simp]: "length (vec_swap xs i j) = length xs"
  by (simp add: vec_swap_def)

section \<open>Transition systems with an invariant\<close>

text \<open>What a state machine promises: its initial states satisfy the invariant and its steps keep it.\<close>

locale guarded_steps =
  fixes init :: "'s \<Rightarrow> bool" and step :: "'s \<Rightarrow> 's \<Rightarrow> bool" and inv :: "'s \<Rightarrow> bool"
  assumes init_inv: "init s \<Longrightarrow> inv s" and step_inv: "inv s \<Longrightarrow> step s s' \<Longrightarrow> inv s'"
begin

lemma run_inv: "step\<^sup>*\<^sup>* s s' \<Longrightarrow> inv s \<Longrightarrow> inv s'"
  by (induction rule: rtranclp_induct) (auto intro: step_inv)

lemma reached_inv: "init s \<Longrightarrow> step\<^sup>*\<^sup>* s s' \<Longrightarrow> inv s'"
  using run_inv init_inv by blast

end

end
