(* ===== verification/Ip_Filter.thy ===== *)
theory Ip_Filter
  imports Prelude
begin

text \<open>
  The IP filter (src/ip_filter.cpp, include/libtorrent/ip_filter.hpp): a map from addresses to
  flags, kept as the sorted list of the starts of its ranges. \<open>filter_impl\<close> is a template over the
  address type; its operations are a record here, and what it relies on is the locale
  \<open>address_space\<close>, interpreted for addresses of four and of sixteen bytes and for ports. An iterator
  into the \<open>std::set\<close> is a position in the list.
\<close>

section \<open>Addresses\<close>

record 'a addr_ops =
  ao_less :: "'a \<Rightarrow> 'a \<Rightarrow> bool"
  ao_zero :: 'a
  ao_max :: 'a
  ao_plus_one :: "'a \<Rightarrow> 'a"
  ao_minus_one :: "'a \<Rightarrow> 'a"

text \<open>The bytes of an address, most significant first; \<open>operator<\<close> of \<open>std::array\<close>.\<close>

fun lex_less :: "8 word list \<Rightarrow> 8 word list \<Rightarrow> bool" where
  "lex_less [] ys = (ys \<noteq> [])"
| "lex_less (x # xs) [] = False"
| "lex_less (x # xs) (y # ys) = (x < y \<or> (\<not> y < x \<and> lex_less xs ys))"

text \<open>The loops run from the last byte to the first.\<close>

fun plus_one_rev :: "8 word list \<Rightarrow> 8 word list" where
  "plus_one_rev [] = []"
| "plus_one_rev (t # ts) = (if t < 0xff then (t + 1) # ts else 0 # plus_one_rev ts)"

definition plus_one :: "8 word list \<Rightarrow> 8 word list" where
  "plus_one a = rev (plus_one_rev (rev a))"

fun minus_one_rev :: "8 word list \<Rightarrow> 8 word list" where
  "minus_one_rev [] = []"
| "minus_one_rev (t # ts) = (if t > 0 then (t - 1) # ts else 0xff # minus_one_rev ts)"

definition minus_one :: "8 word list \<Rightarrow> 8 word list" where
  "minus_one a = rev (minus_one_rev (rev a))"

definition bytes_ops :: "nat \<Rightarrow> 8 word list addr_ops" where
  "bytes_ops n = \<lparr>ao_less = lex_less, ao_zero = replicate n 0, ao_max = replicate n 0xff,
     ao_plus_one = plus_one, ao_minus_one = minus_one\<rparr>"

definition port_ops :: "16 word addr_ops" where
  "port_ops = \<lparr>ao_less = (<), ao_zero = 0, ao_max = 0xffff, ao_plus_one = (\<lambda>v. v + 1), ao_minus_one = (\<lambda>v. v - 1)\<rparr>"

section \<open>filter_impl\<close>

record 'a filter_range =
  r_start :: 'a
  r_access :: "32 word"

type_synonym 'a access_list = "'a filter_range list"

definition new_filter :: "'a addr_ops \<Rightarrow> 'a access_list" where
  "new_filter ops = [\<lparr>r_start = ao_zero ops, r_access = 0\<rparr>]"

definition filter_empty :: "'a addr_ops \<Rightarrow> 'a access_list \<Rightarrow> bool" where
  "filter_empty ops l \<longleftrightarrow> l = [] \<or> length l = 1 \<and> l ! 0 = \<lparr>r_start = ao_zero ops, r_access = 0\<rparr>"

definition upper_bound :: "'a addr_ops \<Rightarrow> 'a \<Rightarrow> 'a access_list \<Rightarrow> nat" where
  "upper_bound ops a l = length (takeWhile (\<lambda>r. \<not> ao_less ops a (r_start r)) l)"

text \<open>
  \<open>std::set::insert\<close>: the position of the element, which is an old one if its start is present,
  and the new list.
\<close>

definition set_insert :: "'a addr_ops \<Rightarrow> 'a filter_range \<Rightarrow> 'a access_list \<Rightarrow> nat \<times> bool \<times> 'a access_list" where
  "set_insert ops r l =
     (let k = length (takeWhile (\<lambda>x. ao_less ops (r_start x) (r_start r)) l)
      in if k < length l \<and> \<not> ao_less ops (r_start r) (r_start (l ! k)) then (k, False, l)
         else (k, True, take k l @ r # drop k l))"

text \<open>The position of an element after an insertion.\<close>

definition shifted :: "nat \<Rightarrow> bool \<Rightarrow> nat \<Rightarrow> nat" where
  "shifted k inserted j = (if inserted \<and> k \<le> j then j + 1 else j)"

text \<open>The start of a rule: where it begins, the first range after it, the access before it.\<close>

definition rule_begin ::
    "'a addr_ops \<Rightarrow> 'a \<Rightarrow> 'a \<Rightarrow> 32 word \<Rightarrow> 'a access_list \<Rightarrow> nat \<times> nat \<times> 32 word \<times> 'a access_list" where
  "rule_begin ops first lst flags l =
     (let i0 = upper_bound ops first l;
          j = upper_bound ops lst l;
          i = (if i0 \<noteq> 0 then i0 - 1 else i0);
          first_access = r_access (l ! i)
      in if r_start (l ! i) \<noteq> first \<and> first_access \<noteq> flags then
           let (k, ins, l') = set_insert ops \<lparr>r_start = first, r_access = flags\<rparr> l
           in (k, shifted k ins j, first_access, l')
         else if i \<noteq> 0 \<and> r_access (l ! (i - 1)) = flags then (i - 1, j, r_access (l ! (i - 1)), l)
         else (i, j, first_access, l))"

text \<open>The ranges inside the rule go.\<close>

definition rule_clear ::
    "'a addr_ops \<Rightarrow> 'a \<Rightarrow> 32 word \<Rightarrow> nat \<times> nat \<times> 32 word \<times> 'a access_list \<Rightarrow> nat \<times> 'a access_list" where
  "rule_clear ops first flags st =
     (case st of (i, j, first_access, l) \<Rightarrow>
        let l' = (if i \<noteq> j then take (i + 1) l @ drop j l else l);
            j' = (if i \<noteq> j then i + 1 else j)
        in if r_start (l' ! i) = first then (j', l'[i := \<lparr>r_start = first, r_access = flags\<rparr>])
           else if first_access \<noteq> flags then
             let (k, ins, l'') = set_insert ops \<lparr>r_start = first, r_access = flags\<rparr> l'
             in (shifted k ins j', l'')
           else (j', l'))"

text \<open>The rest of the range the rule ends in, and the next range when it has the same flags.\<close>

definition rule_end ::
    "'a addr_ops \<Rightarrow> 'a \<Rightarrow> 32 word \<Rightarrow> 32 word \<Rightarrow> nat \<times> 'a access_list \<Rightarrow> 'a access_list" where
  "rule_end ops lst flags last_access st =
     (case st of (j, l) \<Rightarrow>
        let (j', l') =
              (if j < length l \<and> ao_minus_one ops (r_start (l ! j)) \<noteq> lst \<or> j = length l \<and> lst \<noteq> ao_max ops then
                 if last_access \<noteq> flags then
                   let (k, ins, l') = set_insert ops \<lparr>r_start = ao_plus_one ops lst, r_access = last_access\<rparr> l in (k, l')
                 else (j, l)
               else (j, l))
        in if j' < length l' \<and> r_access (l' ! j') = flags then take j' l' @ drop (j' + 1) l' else l')"

definition add_rule :: "'a addr_ops \<Rightarrow> 'a \<Rightarrow> 'a \<Rightarrow> 32 word \<Rightarrow> 'a access_list \<Rightarrow> 'a access_list" where
  "add_rule ops first lst flags l =
     (let last_access = r_access (l ! (upper_bound ops lst l - 1))
      in rule_end ops lst flags last_access (rule_clear ops first flags (rule_begin ops first lst flags l)))"

definition access :: "'a addr_ops \<Rightarrow> 'a access_list \<Rightarrow> 'a \<Rightarrow> 32 word" where
  "access ops l addr =
     (let i = upper_bound ops addr l in r_access (l ! (if i \<noteq> 0 then i - 1 else i)))"

record 'a ip_range =
  ir_first :: 'a
  ir_last :: 'a
  ir_flags :: "32 word"

fun export_filter :: "'a addr_ops \<Rightarrow> 'a access_list \<Rightarrow> 'a ip_range list" where
  "export_filter ops [] = []"
| "export_filter ops [r] = [\<lparr>ir_first = r_start r, ir_last = ao_max ops, ir_flags = r_access r\<rparr>]"
| "export_filter ops (r # q # rs) =
     \<lparr>ir_first = r_start r, ir_last = ao_minus_one ops (r_start q), ir_flags = r_access r\<rparr> # export_filter ops (q # rs)"

section \<open>ip_filter and port_filter\<close>

datatype address = V4 "8 word list" | V6 "8 word list"

record ip_filter =
  m_filter4 :: "8 word list access_list"
  m_filter6 :: "8 word list access_list"

definition new_ip_filter :: ip_filter where
  "new_ip_filter = \<lparr>m_filter4 = new_filter (bytes_ops 4), m_filter6 = new_filter (bytes_ops 16)\<rparr>"

definition ip_filter_empty :: "ip_filter \<Rightarrow> bool" where
  "ip_filter_empty f \<longleftrightarrow> filter_empty (bytes_ops 4) (m_filter4 f) \<and> filter_empty (bytes_ops 16) (m_filter6 f)"

text \<open>\<open>to_v4\<close> and \<open>to_v6\<close> of an address of the other kind throw, which is \<open>None\<close>.\<close>

definition ip_filter_add_rule :: "address \<Rightarrow> address \<Rightarrow> 32 word \<Rightarrow> ip_filter \<Rightarrow> ip_filter option" where
  "ip_filter_add_rule first lst flags f =
     (case (first, lst) of
        (V4 a, V4 b) \<Rightarrow> Some (f\<lparr>m_filter4 := add_rule (bytes_ops 4) a b flags (m_filter4 f)\<rparr>)
      | (V6 a, V6 b) \<Rightarrow> Some (f\<lparr>m_filter6 := add_rule (bytes_ops 16) a b flags (m_filter6 f)\<rparr>)
      | _ \<Rightarrow> None)"

definition ip_filter_access :: "ip_filter \<Rightarrow> address \<Rightarrow> 32 word" where
  "ip_filter_access f addr =
     (case addr of V4 a \<Rightarrow> access (bytes_ops 4) (m_filter4 f) a | V6 a \<Rightarrow> access (bytes_ops 16) (m_filter6 f) a)"

definition ip_filter_export :: "ip_filter \<Rightarrow> 8 word list ip_range list \<times> 8 word list ip_range list" where
  "ip_filter_export f = (export_filter (bytes_ops 4) (m_filter4 f), export_filter (bytes_ops 16) (m_filter6 f))"

definition port_filter_add_rule :: "16 word \<Rightarrow> 16 word \<Rightarrow> 32 word \<Rightarrow> 16 word access_list \<Rightarrow> 16 word access_list" where
  "port_filter_add_rule first lst flags f = add_rule port_ops first lst flags f"

definition port_filter_access :: "16 word access_list \<Rightarrow> 16 word \<Rightarrow> 32 word" where
  "port_filter_access f port = access port_ops f port"

section \<open>What the filter relies on\<close>

locale address_space =
  fixes ops :: "'a addr_ops" and valid :: "'a \<Rightarrow> bool" and val :: "'a \<Rightarrow> nat" and top :: nat
  assumes val_le: "valid a \<Longrightarrow> val a \<le> top"
    and val_inj: "valid a \<Longrightarrow> valid b \<Longrightarrow> val a = val b \<Longrightarrow> a = b"
    and less_val: "valid a \<Longrightarrow> valid b \<Longrightarrow> ao_less ops a b \<longleftrightarrow> val a < val b"
    and zero_law: "valid (ao_zero ops)" "val (ao_zero ops) = 0"
    and max_law: "valid (ao_max ops)" "val (ao_max ops) = top"
    and plus_law: "valid a \<Longrightarrow> val a < top \<Longrightarrow> valid (ao_plus_one ops a) \<and> val (ao_plus_one ops a) = val a + 1"
    and minus_law: "valid a \<Longrightarrow> 0 < val a \<Longrightarrow> valid (ao_minus_one ops a) \<and> val (ao_minus_one ops a) = val a - 1"

text \<open>
  The access list: its starts are addresses in increasing order from the lowest one, and
  neighbouring ranges have different flags, so that it has as few ranges as possible.
\<close>

definition list_ok :: "('a \<Rightarrow> bool) \<Rightarrow> ('a \<Rightarrow> nat) \<Rightarrow> 'a access_list \<Rightarrow> bool" where
  "list_ok valid val l \<longleftrightarrow> l \<noteq> [] \<and> (\<forall>r \<in> set l. valid (r_start r)) \<and> val (r_start (hd l)) = 0
     \<and> sorted_wrt (\<lambda>r q. val (r_start r) < val (r_start q)) l
     \<and> successively (\<lambda>r q. r_access r \<noteq> r_access q) l"

text \<open>The flags of the last range that starts at or before an address.\<close>

definition look :: "('a \<Rightarrow> nat) \<Rightarrow> 'a access_list \<Rightarrow> nat \<Rightarrow> 32 word" where
  "look val l a = r_access (last (takeWhile (\<lambda>r. val (r_start r) \<le> a) l))"

text \<open>The two halves of the list \<open>add_rule\<close> leaves: up to the start of the rule, and after its end.\<close>

definition rule_front :: "'a \<Rightarrow> 32 word \<Rightarrow> 'a access_list \<Rightarrow> 'a filter_range \<Rightarrow> 'a access_list" where
  "rule_front f flags P r =
     (if r_start r \<noteq> f \<and> r_access r \<noteq> flags then P @ [r, \<lparr>r_start = f, r_access = flags\<rparr>]
      else if P \<noteq> [] \<and> r_access (last P) = flags then P
      else if r_start r = f then P @ [\<lparr>r_start = f, r_access = flags\<rparr>] else P @ [r])"

definition rule_tail :: "'a addr_ops \<Rightarrow> 'a \<Rightarrow> 32 word \<Rightarrow> 32 word \<Rightarrow> 'a access_list \<Rightarrow> 'a access_list" where
  "rule_tail ops t flags la post =
     (if (post \<noteq> [] \<and> ao_minus_one ops (r_start (hd post)) \<noteq> t \<or> post = [] \<and> t \<noteq> ao_max ops) \<and> la \<noteq> flags
      then \<lparr>r_start = ao_plus_one ops t, r_access = la\<rparr> # post
      else if post \<noteq> [] \<and> r_access (hd post) = flags then tl post else post)"

lemma takeWhile_split:
  assumes "\<forall>x \<in> set A. Q x" "B = [] \<or> \<not> Q (hd B)"
  shows "takeWhile Q (A @ B) = A"
  using assms by (cases B) (auto simp: takeWhile_append)

lemma look_front: "B = [] \<or> a < val (r_start (hd B)) \<Longrightarrow> look val (A @ B) a = look val A a"
  by (cases B) (auto simp: look_def takeWhile_append takeWhile_eq_all_conv [THEN iffD2])

lemma look_back:
  assumes "\<forall>r \<in> set A. val (r_start r) \<le> a" "B \<noteq> []" "val (r_start (hd B)) \<le> a"
  shows "look val (A @ B) a = look val B a"
  using assms by (cases B) (auto simp: look_def takeWhile_append)

lemma look_all: "A \<noteq> [] \<Longrightarrow> \<forall>r \<in> set A. val (r_start r) \<le> a \<Longrightarrow> look val A a = r_access (last A)"
  by (simp add: look_def takeWhile_eq_all_conv [THEN iffD2])

text \<open>Splitting a sorted list around the rule \<open>[f, t]\<close>.\<close>

lemma split_sorted:
  assumes ok: "list_ok valid val l" and ft: "val f \<le> val t"
  obtains P r mid post where "l = P @ r # mid @ post" "\<forall>x \<in> set (P @ [r]). val (r_start x) \<le> val f"
    "\<forall>x \<in> set mid. val f < val (r_start x) \<and> val (r_start x) \<le> val t" "\<forall>x \<in> set post. val t < val (r_start x)"
proof -
  let ?pre = "takeWhile (\<lambda>x. val (r_start x) \<le> val f) l" and ?rest = "dropWhile (\<lambda>x. val (r_start x) \<le> val f) l"
  let ?mid = "takeWhile (\<lambda>x. val (r_start x) \<le> val t) ?rest" and ?post = "dropWhile (\<lambda>x. val (r_start x) \<le> val t) ?rest"
  have s: "sorted_wrt (\<lambda>r q. val (r_start r) < val (r_start q)) (?pre @ ?mid @ ?post)" using ok by (simp add: list_ok_def)
  have above: "\<forall>x \<in> set (dropWhile (\<lambda>x. val (r_start x) \<le> b) m). b < val (r_start x)"
    if "sorted_wrt (\<lambda>r q. val (r_start r) < val (r_start q)) m" for b m
    using that by (induction m) auto
  have "?pre \<noteq> []" using ok by (cases l) (auto simp: list_ok_def)
  then have p: "?pre = butlast ?pre @ [last ?pre]" by simp
  show thesis
  proof (rule that)
    show "l = butlast ?pre @ last ?pre # ?mid @ ?post" using p by (metis append.assoc append_Cons append_Nil takeWhile_dropWhile_id)
    show "\<forall>x \<in> set (butlast ?pre @ [last ?pre]). val (r_start x) \<le> val f" using p by (metis set_takeWhileD)
    show "\<forall>x \<in> set ?mid. val f < val (r_start x) \<and> val (r_start x) \<le> val t"
      using above [of l "val f"] ok by (auto simp: list_ok_def dest: set_takeWhileD)
    show "\<forall>x \<in> set ?post. val t < val (r_start x)"
      using above [of ?rest "val t"] s by (simp add: sorted_wrt_append)
  qed
qed

context address_space
begin

lemma upper_bound_split:
  assumes "\<forall>x \<in> set (A @ B). valid (r_start x)" "valid a" "\<forall>x \<in> set A. val (r_start x) \<le> val a" "\<forall>x \<in> set B. val a < val (r_start x)"
  shows "upper_bound ops a (A @ B) = length A"
proof -
  have "B \<noteq> [] \<Longrightarrow> ao_less ops a (r_start (hd B))" using assms by (cases B) (simp_all add: less_val)
  then have "B = [] \<or> \<not> \<not> ao_less ops a (r_start (hd B))" by blast
  then have "takeWhile (\<lambda>r. \<not> ao_less ops a (r_start r)) (A @ B) = A"
    using assms(1-3) by (intro takeWhile_split) (simp_all add: less_val leD)
  then show ?thesis by (simp add: upper_bound_def)
qed

lemma set_insert_split:
  assumes "\<forall>x \<in> set (A @ B). valid (r_start x)" "valid (r_start q)" "\<forall>x \<in> set A. val (r_start x) < val (r_start q)"
    "\<forall>x \<in> set B. val (r_start q) < val (r_start x)"
  shows "set_insert ops q (A @ B) = (length A, True, A @ q # B)"
proof -
  have "B \<noteq> [] \<Longrightarrow> \<not> ao_less ops (r_start (hd B)) (r_start q)" using assms by (cases B) (simp_all add: less_val)
  then have B: "B = [] \<or> \<not> ao_less ops (r_start (hd B)) (r_start q)" by blast
  have tw: "takeWhile (\<lambda>x. ao_less ops (r_start x) (r_start q)) (A @ B) = A"
    using assms(1-3) by (intro takeWhile_split B) (simp add: less_val)
  show ?thesis unfolding set_insert_def tw using assms by (cases B) (simp_all add: less_val)
qed

lemma access_look:
  assumes "list_ok valid val l" "valid a"
  shows "access ops l a = look val l (val a)"
proof -
  have "takeWhile (\<lambda>r. \<not> ao_less ops a (r_start r)) l = takeWhile (\<lambda>r. val (r_start r) \<le> val a) l"
    using assms by (intro takeWhile_cong refl) (auto simp: list_ok_def less_val)
  moreover have "takeWhile (\<lambda>r. val (r_start r) \<le> val a) l \<noteq> []"
    using assms(1) by (cases l) (auto simp: list_ok_def)
  ultimately show ?thesis
    by (auto simp: access_def look_def upper_bound_def Let_def last_conv_nth takeWhile_nth)
qed

lemma gap_start:
  assumes v: "\<forall>x \<in> set post. valid (r_start x)" "valid t"
    and s: "sorted_wrt (\<lambda>r q. val (r_start r) < val (r_start q)) post" and post: "\<forall>x \<in> set post. val t < val (r_start x)"
    and gap: "post \<noteq> [] \<and> ao_minus_one ops (r_start (hd post)) \<noteq> t \<or> post = [] \<and> t \<noteq> ao_max ops"
  shows "valid (ao_plus_one ops t)" "val (ao_plus_one ops t) = val t + 1"
    "x \<in> set post \<Longrightarrow> val (ao_plus_one ops t) < val (r_start x)"
proof -
  have "val t < top"
  proof (cases post)
    case Nil
    then show ?thesis using gap val_le [OF v(2)] val_inj [OF v(2) max_law(1)] max_law(2) by (auto simp: less_le)
  next
    case (Cons q qs)
    then show ?thesis using post v(1) val_le [of "r_start q"] by fastforce
  qed
  then show p: "valid (ao_plus_one ops t)" "val (ao_plus_one ops t) = val t + 1" using plus_law v(2) by auto
  assume x: "x \<in> set post"
  obtain q qs where q: "post = q # qs" using x by (cases post) simp_all
  have vq: "valid (r_start q)" "val t < val (r_start q)" using q v(1) post by auto
  then have "val (r_start q) \<noteq> val t + 1"
    using gap q minus_law [of "r_start q"] val_inj [OF _ v(2), of "ao_minus_one ops (r_start q)"] by auto
  moreover have "val (r_start q) \<le> val (r_start x)" using x s q by auto
  ultimately show "val (ao_plus_one ops t) < val (r_start x)" using vq p by simp
qed

lemma rule_end_shape:
  assumes v: "\<forall>x \<in> set (F @ post). valid (r_start x)" "valid t" and F: "\<forall>x \<in> set F. val (r_start x) \<le> val t"
    and s: "sorted_wrt (\<lambda>r q. val (r_start r) < val (r_start q)) post" and post: "\<forall>x \<in> set post. val t < val (r_start x)"
  shows "rule_end ops t flags la (length F, F @ post) = F @ rule_tail ops t flags la post"
proof (cases "(post \<noteq> [] \<and> ao_minus_one ops (r_start (hd post)) \<noteq> t \<or> post = [] \<and> t \<noteq> ao_max ops) \<and> la \<noteq> flags")
  case True
  have vp: "\<forall>x \<in> set post. valid (r_start x)" using v(1) by simp
  note g = gap_start [OF vp v(2) s post conjunct1 [OF True]]
  then have "set_insert ops \<lparr>r_start = ao_plus_one ops t, r_access = la\<rparr> (F @ post)
      = (length F, True, F @ \<lparr>r_start = ao_plus_one ops t, r_access = la\<rparr> # post)"
    using F v(1) by (intro set_insert_split) auto
  then show ?thesis using True by (cases post) (simp_all add: rule_end_def rule_tail_def nth_append)
next
  case False
  then show ?thesis by (cases post) (auto simp: rule_end_def rule_tail_def nth_append Let_def)
qed

lemma rule_begin_clear:
  assumes l: "l = P @ r # mid @ post" and v: "\<forall>x \<in> set l. valid (r_start x)" "valid f" "valid t" "val f \<le> val t"
    and s: "sorted_wrt (\<lambda>r q. val (r_start r) < val (r_start q)) l"
    and below: "\<forall>x \<in> set (P @ [r]). val (r_start x) \<le> val f"
    and mid: "\<forall>x \<in> set mid. val f < val (r_start x) \<and> val (r_start x) \<le> val t"
    and post: "\<forall>x \<in> set post. val t < val (r_start x)"
  shows "rule_clear ops f flags (rule_begin ops f t flags l) = (length (rule_front f flags P r), rule_front f flags P r @ post)"
    "r_access (l ! (upper_bound ops t l - 1)) = r_access (last (r # mid))"
proof -
  let ?new = "\<lparr>r_start = f, r_access = flags\<rparr>"
  have P: "\<forall>x \<in> set P. val (r_start x) < val (r_start r)" using s l by (auto simp: sorted_wrt_append)
  have u: "upper_bound ops f l = length P + 1" "upper_bound ops t l = length P + 1 + length mid"
  proof -
    have "\<forall>x \<in> set (mid @ post). val f < val (r_start x)" "\<forall>x \<in> set (P @ r # mid). val (r_start x) \<le> val t"
      using below mid post v(4) by fastforce+
    then show "upper_bound ops f l = length P + 1" "upper_bound ops t l = length P + 1 + length mid"
      using upper_bound_split [of "P @ [r]" "mid @ post" f] upper_bound_split [of "P @ r # mid" post t] v below post l by simp_all
  qed
  show "r_access (l ! (upper_bound ops t l - 1)) = r_access (last (r # mid))"
    using u(2) l by (auto simp: nth_append last_conv_nth nth_Cons' split: if_splits)
  have pv: "l ! length P = r" "P \<noteq> [] \<Longrightarrow> l ! (length P - 1) = last P" using l by (simp_all add: nth_append last_conv_nth)
  consider (new) "r_start r \<noteq> f" "r_access r \<noteq> flags" | (merge) "r_start r = f \<or> r_access r = flags" "P \<noteq> []" "r_access (last P) = flags"
    | (same) "r_start r = f \<or> r_access r = flags" "P = [] \<or> r_access (last P) \<noteq> flags" by blast
  then show "rule_clear ops f flags (rule_begin ops f t flags l) = (length (rule_front f flags P r), rule_front f flags P r @ post)"
  proof cases
    case new
    then have "val (r_start r) < val f" using below val_inj [of "r_start r" f] v l by (auto simp: less_le)
    then have "set_insert ops ?new ((P @ [r]) @ mid @ post) = (length (P @ [r]), True, (P @ [r]) @ ?new # mid @ post)"
      using v(1,2) l mid post P v(4) by (intro set_insert_split) auto
    then have "rule_begin ops f t flags l = (length P + 1, length P + 2 + length mid, r_access r, P @ [r, ?new] @ mid @ post)"
      using new u pv l by (simp add: rule_begin_def shifted_def Let_def)
    then show ?thesis using new by (simp add: rule_clear_def rule_front_def nth_append list_update_append)
  next
    case merge
    then have b: "rule_begin ops f t flags l = (length P - 1, length P + 1 + length mid, flags, l)"
      using u pv by (auto simp: rule_begin_def Let_def)
    have "r_start (last P) \<noteq> f" using merge(2) P below by (metis last_in_set leD list.set_intros(1) set_append Un_iff)
    moreover have "take (length P) l = P" "drop (length P + 1 + length mid) l = post" using l by auto
    moreover have "(P @ post) ! (length P - 1) = last P" using merge(2) by (simp add: nth_append last_conv_nth)
    ultimately show ?thesis using b merge by (auto simp: rule_clear_def rule_front_def Let_def)
  next
    case same
    then have "rule_begin ops f t flags l = (length P, length P + 1 + length mid, r_access r, l)"
      using u pv by (auto simp: rule_begin_def Let_def)
    moreover have "take (length P + 1) l = P @ [r]" "drop (length P + 1 + length mid) l = post" using l by auto
    ultimately show ?thesis using same by (auto simp: rule_clear_def rule_front_def Let_def nth_append)
  qed
qed

end

lemma successively_tl: "successively Q xs \<Longrightarrow> successively Q (tl xs)"
  by (cases xs) (auto simp: successively_Cons)

lemma look_append:
  assumes "A \<noteq> []" "\<forall>r \<in> set A. val (r_start r) \<le> a"
  shows "look val (A @ B) a = (if B = [] \<or> a < val (r_start (hd B)) then r_access (last A) else look val B a)"
  using assms look_front [of B a val A] look_all [of A val a] look_back [of A val a B] by (auto simp: not_less)

context address_space
begin

lemma rule_front_facts:
  assumes v: "\<forall>x \<in> set (P @ [r]). valid (r_start x)" "valid f"
    and s: "sorted_wrt (\<lambda>r q. val (r_start r) < val (r_start q)) (P @ [r])" and z: "val (r_start (hd (P @ [r]))) = 0"
    and below: "\<forall>x \<in> set (P @ [r]). val (r_start x) \<le> val f"
    and d: "successively (\<lambda>r q. r_access r \<noteq> r_access q) (P @ [r])"
  shows "list_ok valid val (rule_front f flags P r)" "r_access (last (rule_front f flags P r)) = flags"
    "\<forall>x \<in> set (rule_front f flags P r). val (r_start x) \<le> val f"
    "a < val f \<Longrightarrow> look val (rule_front f flags P r) a = look val (P @ [r]) a"
proof -
  have rf: "r_start r = f \<or> val (r_start r) < val f" using below v val_inj [of "r_start r" f] by (auto simp: less_le)
  show "list_ok valid val (rule_front f flags P r)" 
    using v s z d rf by (auto simp: list_ok_def rule_front_def sorted_wrt_append successively_append_iff hd_append split: if_splits)
  show "r_access (last (rule_front f flags P r)) = flags"
    by (auto simp: rule_front_def)
  show "\<forall>x \<in> set (rule_front f flags P r). val (r_start x) \<le> val f"
    using below by (auto simp: rule_front_def)
  show "look val (rule_front f flags P r) a = look val (P @ [r]) a" if a: "a < val f"
    using a d look_front [of "[r]" a val P] look_front [of "[\<lparr>r_start = f, r_access = flags\<rparr>]" a val P]
      look_front [of "[\<lparr>r_start = f, r_access = flags\<rparr>]" a val "P @ [r]"]
    by (auto simp: rule_front_def successively_append_iff)
qed

lemma rule_tail_facts:
  assumes v: "\<forall>x \<in> set post. valid (r_start x)" "valid t"
    and s: "sorted_wrt (\<lambda>r q. val (r_start r) < val (r_start q)) post"
    and above: "\<forall>x \<in> set post. val t < val (r_start x)"
    and d: "successively (\<lambda>r q. r_access r \<noteq> r_access q) (q # post)"
    and T_def: "T = rule_tail ops t flags (r_access q) post"
  shows "\<forall>x \<in> set T. valid (r_start x) \<and> val t < val (r_start x)"
    "sorted_wrt (\<lambda>r q. val (r_start r) < val (r_start q)) T" "successively (\<lambda>r q. r_access r \<noteq> r_access q) T"
    "T \<noteq> [] \<Longrightarrow> r_access (hd T) \<noteq> flags"
proof -
  note g = gap_start [OF v s above]
  show "\<forall>x \<in> set T. valid (r_start x) \<and> val t < val (r_start x)"
    using v above g(1,2) by (auto simp: T_def rule_tail_def dest: list.set_sel(2))
  show "sorted_wrt (\<lambda>r q. val (r_start r) < val (r_start q)) T"
    using s g(3) by (cases post) (auto simp: T_def rule_tail_def)
  show "successively (\<lambda>r q. r_access r \<noteq> r_access q) T"
    using d by (cases post) (auto simp: T_def rule_tail_def successively_Cons)
  show "r_access (hd T) \<noteq> flags" if "T \<noteq> []"
    using that d by (cases post) (auto simp: T_def rule_tail_def successively_Cons split: if_splits)
qed

lemma rule_tail_look:
  assumes v: "\<forall>x \<in> set post. valid (r_start x)" "valid t"
    and s: "sorted_wrt (\<lambda>r q. val (r_start r) < val (r_start q)) post"
    and above: "\<forall>x \<in> set post. val t < val (r_start x)"
    and d: "successively (\<lambda>r q. r_access r \<noteq> r_access q) (last A # post)"
    and A: "A \<noteq> []" "\<forall>x \<in> set A. val (r_start x) \<le> val t" and F: "F \<noteq> []" "\<forall>x \<in> set F. val (r_start x) \<le> val t" "r_access (last F) = flags"
    and a: "val t < a" "a \<le> top"
  shows "look val (F @ rule_tail ops t flags (r_access (last A)) post) a = look val (A @ post) a"
proof (cases "post \<noteq> [] \<and> ao_minus_one ops (r_start (hd post)) \<noteq> t \<or> post = [] \<and> t \<noteq> ao_max ops")
  case gap: True
  have FA: "\<forall>x \<in> set F. val (r_start x) \<le> a" "\<forall>x \<in> set A. val (r_start x) \<le> a" using F A a by fastforce+
  show ?thesis
  proof (cases "r_access (last A) = flags")
    case True
    then have "rule_tail ops t flags (r_access (last A)) post = post" using d by (cases post) (auto simp: rule_tail_def successively_Cons)
    then show ?thesis using True F look_append [OF F(1) FA(1)] look_append [OF A(1) FA(2)] by simp
  next
    case False
    let ?n = "\<lparr>r_start = ao_plus_one ops t, r_access = r_access (last A)\<rparr>"
    have "rule_tail ops t flags (r_access (last A)) post = ?n # post" using gap False by (simp add: rule_tail_def)
    moreover have "\<forall>x \<in> set (F @ [?n]). val (r_start x) \<le> a" using gap_start(2) [OF v s above gap] FA(1) a by auto
    ultimately show ?thesis using look_append [of "F @ [?n]" val a post] look_append [OF A(1) FA(2), of post] by simp
  qed
next
  case nogap: False
  have FA: "\<forall>x \<in> set F. val (r_start x) \<le> a" "\<forall>x \<in> set A. val (r_start x) \<le> a" using F A a by fastforce+
  show ?thesis
  proof (cases post)
    case Nil
    then show ?thesis using nogap a max_law by simp
  next
    case (Cons q qs)
    then have "val t = val (r_start q) - 1" "val t < val (r_start q)" using nogap minus_law [of "r_start q"] v above by auto
    then have q: "val (r_start q) \<le> a" using a by simp
    then have "look val (A @ post) a = (if qs = [] \<or> a < val (r_start (hd qs)) then r_access q else look val qs a)"
      using look_append [of "A @ [q]" val a qs] FA(2) Cons by simp
    moreover have "look val (F @ post) a = (if qs = [] \<or> a < val (r_start (hd qs)) then r_access q else look val qs a)"
      using look_append [of "F @ [q]" val a qs] FA(1) Cons q by simp
    ultimately show ?thesis using look_append [OF F(1) FA(1), of qs] F(3) nogap Cons by (auto simp: rule_tail_def)
  qed
qed

end

lemma look_nth:
  assumes "sorted_wrt (\<lambda>r q. val (r_start r) < val (r_start q)) l" "i < length l" "val (r_start (l ! i)) \<le> a"
    "i + 1 = length l \<or> a < val (r_start (l ! (i + 1)))"
  shows "look val l a = r_access (l ! i)"
proof -
  have "\<forall>r \<in> set (take (Suc i) l). val (r_start r) \<le> a"
    using assms(1-3) by (auto simp: in_set_conv_nth sorted_wrt_iff_nth_less less_Suc_eq) (meson le_trans less_imp_le)
  then have "look val (take (Suc i) l @ drop (Suc i) l) a = r_access (last (take (Suc i) l))"
    using assms(2,4) by (subst look_append) (auto simp: hd_drop_conv_nth)
  moreover have "last (take (Suc i) l) = l ! i" using assms(2) by (simp add: take_Suc_conv_app_nth)
  ultimately show ?thesis by (simp only: append_take_drop_id)
qed

lemma look_at:
  assumes "list_ok valid val l"
  obtains i where "i < length l" "val (r_start (l ! i)) \<le> a" "i + 1 = length l \<or> a < val (r_start (l ! (i + 1)))"
proof -
  let ?n = "length (takeWhile (\<lambda>r. val (r_start r) \<le> a) l)"
  have n: "0 < ?n" "?n \<le> length l" using assms by (cases l; auto simp: list_ok_def length_takeWhile_le)+
  show thesis
  proof (rule that)
    show "?n - 1 < length l" using n by linarith
    show "val (r_start (l ! (?n - 1))) \<le> a"
      using nth_mem [of "?n - 1" "takeWhile (\<lambda>r. val (r_start r) \<le> a) l"] n takeWhile_nth [of "?n - 1" "\<lambda>r. val (r_start r) \<le> a" l]
      by (metis (no_types, lifting) diff_less less_numeral_extra(1) set_takeWhileD)
    show "?n - 1 + 1 = length l \<or> a < val (r_start (l ! (?n - 1 + 1)))"
      using n nth_length_takeWhile [of "\<lambda>r. val (r_start r) \<le> a" l] by (cases "?n = length l") auto
  qed
qed

lemma export_filter_nth:
  "length (export_filter ops l) = length l"
  "i < length l \<Longrightarrow> export_filter ops l ! i = \<lparr>ir_first = r_start (l ! i),
     ir_last = (if i + 1 < length l then ao_minus_one ops (r_start (l ! (i + 1))) else ao_max ops), ir_flags = r_access (l ! i)\<rparr>"
  by (induction ops l arbitrary: i rule: export_filter.induct) (auto simp: nth_Cons' less_Suc_eq_0_disj)

context address_space
begin

lemma add_rule_ok:
  assumes ok: "list_ok valid val l" and ft: "valid f" "valid t" "val f \<le> val t"
  shows "list_ok valid val (add_rule ops f t flags l)"
    "valid a \<Longrightarrow> access ops (add_rule ops f t flags l) a = (if val f \<le> val a \<and> val a \<le> val t then flags else access ops l a)"
proof -
  obtain P r mid post where l: "l = P @ r # mid @ post" and below: "\<forall>x \<in> set (P @ [r]). val (r_start x) \<le> val f"
    and mid: "\<forall>x \<in> set mid. val f < val (r_start x) \<and> val (r_start x) \<le> val t" and post: "\<forall>x \<in> set post. val t < val (r_start x)"
    using split_sorted [OF ok ft(3)] .
  let ?F = "rule_front f flags P r" and ?la = "r_access (last (r # mid))"
  let ?T = "rule_tail ops t flags ?la post"
  have v: "\<forall>x \<in> set l. valid (r_start x)" and s: "sorted_wrt (\<lambda>r q. val (r_start r) < val (r_start q)) l"
    and d: "successively (\<lambda>r q. r_access r \<noteq> r_access q) l" using ok by (simp_all add: list_ok_def)
  have vp: "\<forall>x \<in> set post. valid (r_start x)" and sp: "sorted_wrt (\<lambda>r q. val (r_start r) < val (r_start q)) post"
    and dp: "successively (\<lambda>r q. r_access r \<noteq> r_access q) (last (P @ r # mid) # post)"
    using v s d l successively_append_iff [of _ "P @ r # mid" post] by (auto simp: sorted_wrt_append successively_Cons)
  have pr: "\<forall>x \<in> set (P @ [r]). valid (r_start x)" "sorted_wrt (\<lambda>r q. val (r_start r) < val (r_start q)) (P @ [r])"
      "val (r_start (hd (P @ [r]))) = 0" "successively (\<lambda>r q. r_access r \<noteq> r_access q) (P @ [r])"
    using v s d ok l by (auto simp: sorted_wrt_append successively_append_iff list_ok_def hd_append)
  note F = rule_front_facts [where flags = flags, OF pr(1) ft(1) pr(2,3) below pr(4)]
  have T: "\<forall>x \<in> set ?T. valid (r_start x) \<and> val t < val (r_start x)" "sorted_wrt (\<lambda>r q. val (r_start r) < val (r_start q)) ?T"
      "successively (\<lambda>r q. r_access r \<noteq> r_access q) ?T" "?T \<noteq> [] \<Longrightarrow> r_access (hd ?T) \<noteq> flags"
    using rule_tail_facts [OF vp ft(2) sp post, of "last (r # mid)" ?T flags] dp by simp_all
  have Ft: "?F \<noteq> []" "\<forall>x \<in> set ?F. valid (r_start x)" "\<forall>x \<in> set ?F. val (r_start x) \<le> val t"
    using F(1,3) ft(3) by (fastforce simp: list_ok_def)+
  have add: "add_rule ops f t flags l = ?F @ ?T"
  proof -
    have "\<forall>x \<in> set (?F @ post). valid (r_start x)" using Ft(2) vp by auto
    from rule_end_shape [OF this ft(2) Ft(3) sp post] show ?thesis
      unfolding add_rule_def Let_def rule_begin_clear [OF l v ft s below mid post] .
  qed
  show ok': "list_ok valid val (add_rule ops f t flags l)"
    unfolding add using F(1,2) T Ft by (fastforce simp: list_ok_def sorted_wrt_append successively_append_iff)
  assume a: "valid a"
  have "look val (?F @ ?T) (val a) = (if val f \<le> val a \<and> val a \<le> val t then flags else look val l (val a))"
  proof (cases "val a \<le> val t")
    case True
    have "look val (?F @ ?T) (val a) = look val ?F (val a)"
      using T(1) True by (intro look_front) (cases ?T; fastforce)
    moreover have "look val ?F (val a) = flags" if "val f \<le> val a"
      using F(2,3) Ft(1) that by (subst look_all) fastforce+
    moreover have "look val ?F (val a) = look val l (val a)" if fa: "\<not> val f \<le> val a"
    proof -
      have "mid @ post = [] \<or> val a < val (r_start (hd (mid @ post)))" using mid post fa True by (cases mid; cases post) auto
      then show ?thesis using look_front [of "mid @ post" "val a" val "P @ [r]"] F(4) [of "val a"] fa l by simp
    qed
    ultimately show ?thesis using True by simp
  next
    case False
    have "\<forall>x \<in> set (P @ r # mid). val (r_start x) \<le> val t" using below mid ft(3) by fastforce
    then show ?thesis using rule_tail_look [OF vp ft(2) sp post dp _ _ Ft(1,3) F(2) _ val_le [OF a]] False l by simp
  qed
  then show "access ops (add_rule ops f t flags l) a = (if val f \<le> val a \<and> val a \<le> val t then flags else access ops l a)"
    using access_look [OF ok' a] access_look [OF ok a] add by simp
qed

lemma new_filter_ok: "list_ok valid val (new_filter ops)" "valid a \<Longrightarrow> access ops (new_filter ops) a = 0"
proof -
  show "list_ok valid val (new_filter ops)" using zero_law by (simp add: list_ok_def new_filter_def)
  then show "access ops (new_filter ops) a = 0" if "valid a"
    using that zero_law by (simp add: access_look look_def new_filter_def)
qed

lemma access_start:
  assumes ok: "list_ok valid val l" and i: "i < length l"
  shows "access ops l (r_start (l ! i)) = r_access (l ! i)"
proof -
  have s: "sorted_wrt (\<lambda>r q. val (r_start r) < val (r_start q)) l" and v: "valid (r_start (l ! i))" using ok i by (auto simp: list_ok_def)
  have "i + 1 = length l \<or> val (r_start (l ! i)) < val (r_start (l ! (i + 1)))"
    using i sorted_wrt_nth_less [OF s, of i "i + 1"] by (cases "i + 1 = length l") auto
  then show ?thesis using access_look [OF ok v] look_nth [OF s i order_refl] by simp
qed

lemma neighbours_differ: "list_ok valid val l \<Longrightarrow> i + 1 < length l \<Longrightarrow> r_access (l ! i) \<noteq> r_access (l ! (i + 1))"
  by (simp add: list_ok_def successively_conv_nth)

lemma filter_empty_iff:
  assumes ok: "list_ok valid val l"
  shows "filter_empty ops l \<longleftrightarrow> (\<forall>a. valid a \<longrightarrow> access ops l a = 0)"
proof
  assume "filter_empty ops l"
  then have "l = new_filter ops" using ok by (cases l) (auto simp: filter_empty_def list_ok_def new_filter_def)
  then show "\<forall>a. valid a \<longrightarrow> access ops l a = 0" using new_filter_ok(2) by simp
next
  assume zero: "\<forall>a. valid a \<longrightarrow> access ops l a = 0"
  have l: "l \<noteq> []" "\<forall>r \<in> set l. valid (r_start r)" "val (r_start (l ! 0)) = 0" using ok by (auto simp: list_ok_def hd_conv_nth)
  have acc: "r_access (l ! i) = 0" if "i < length l" for i using access_start [OF ok that] zero l(2) that by simp
  then have "\<not> 1 < length l" using neighbours_differ [OF ok, of 0] by fastforce
  then have len: "length l = 1" using l(1) by (cases l) auto
  moreover have "r_start (l ! 0) = ao_zero ops" using val_inj [of "r_start (l ! 0)" "ao_zero ops"] l zero_law by simp
  ultimately have "length l = 1 \<and> l ! 0 = \<lparr>r_start = ao_zero ops, r_access = 0\<rparr>" using acc [of 0] by (cases "l ! 0") simp
  then show "filter_empty ops l" by (simp add: filter_empty_def)
qed

text \<open>A range of the export covers the addresses from its start up to the next start.\<close>

lemma export_range:
  assumes ok: "list_ok valid val l" and a: "valid a" and i: "i < length l"
  shows "val (ir_first (export_filter ops l ! i)) \<le> val a \<and> val a \<le> val (ir_last (export_filter ops l ! i))
    \<longleftrightarrow> val (r_start (l ! i)) \<le> val a \<and> (i + 1 = length l \<or> val a < val (r_start (l ! (i + 1))))"
proof (cases "i + 1 < length l")
  case True
  then have "valid (r_start (l ! (i + 1)))" "val (r_start (l ! i)) < val (r_start (l ! (i + 1)))"
    using ok by (auto simp: list_ok_def sorted_wrt_iff_nth_less)
  then show ?thesis using True i minus_law [of "r_start (l ! (i + 1))"] by (auto simp: export_filter_nth)
next
  case False
  then show ?thesis using i val_le [OF a] max_law by (auto simp: export_filter_nth)
qed

lemma export_ok:
  assumes ok: "list_ok valid val l" and a: "valid a"
  shows "\<exists>!r. r \<in> set (export_filter ops l) \<and> val (ir_first r) \<le> val a \<and> val a \<le> val (ir_last r)"
    "r \<in> set (export_filter ops l) \<Longrightarrow> val (ir_first r) \<le> val a \<Longrightarrow> val a \<le> val (ir_last r) \<Longrightarrow> ir_flags r = access ops l a"
proof -
  have s: "sorted_wrt (\<lambda>r q. val (r_start r) < val (r_start q)) l" using ok by (simp add: list_ok_def)
  obtain i where i: "i < length l" "val (r_start (l ! i)) \<le> val a" "i + 1 = length l \<or> val a < val (r_start (l ! (i + 1)))"
    using look_at [OF ok] by blast
  have only: "j = i" if j: "j < length l" "val (r_start (l ! j)) \<le> val a" "j + 1 = length l \<or> val a < val (r_start (l ! (j + 1)))" for j
  proof (rule ccontr)
    have below: "\<not> (p < q \<and> q < length l \<and> val (r_start (l ! q)) \<le> val a \<and> (p + 1 = length l \<or> val a < val (r_start (l ! (p + 1)))))" for p q
      using s sorted_wrt_nth_less [OF s, of "p + 1" q] by (cases "p + 1 = q") auto
    assume "j \<noteq> i"
    then show False using below [of i j] below [of j i] i j by linarith
  qed
  have hit: "r = export_filter ops l ! i"
    if "r \<in> set (export_filter ops l)" "val (ir_first r) \<le> val a" "val a \<le> val (ir_last r)" for r
  proof -
    obtain j where j: "j < length l" "r = export_filter ops l ! j" using \<open>r \<in> set (export_filter ops l)\<close> by (auto simp: in_set_conv_nth export_filter_nth(1))
    then show ?thesis using only [of j] that export_range [OF ok a j(1)] by blast
  qed
  show "\<exists>!r. r \<in> set (export_filter ops l) \<and> val (ir_first r) \<le> val a \<and> val a \<le> val (ir_last r)"
    using hit export_range [OF ok a i(1)] i nth_mem [of i "export_filter ops l"] by (metis export_filter_nth(1))
  show "ir_flags r = access ops l a"
    if "r \<in> set (export_filter ops l)" "val (ir_first r) \<le> val a" "val a \<le> val (ir_last r)"
    using hit [OF that] i look_nth [OF s i] access_look [OF ok a] by (simp add: export_filter_nth)
qed

lemma export_minimal:
  assumes ok: "list_ok valid val l" 
    and cover: "\<forall>a. valid a \<longrightarrow> (\<exists>r \<in> set rs. val (ir_first r) \<le> val a \<and> val a \<le> val (ir_last r))"
    and agree: "\<forall>r \<in> set rs. \<forall>a. valid a \<and> val (ir_first r) \<le> val a \<and> val a \<le> val (ir_last r) \<longrightarrow> ir_flags r = access ops l a"
  shows "length (export_filter ops l) \<le> length rs"
proof -
  have s: "sorted_wrt (\<lambda>r q. val (r_start r) < val (r_start q)) l" and v: "i < length l \<Longrightarrow> valid (r_start (l ! i))" for i
    using ok by (auto simp: list_ok_def)
  have "\<forall>i. \<exists>r. i < length l \<longrightarrow> r \<in> set rs \<and> val (ir_first r) \<le> val (r_start (l ! i)) \<and> val (r_start (l ! i)) \<le> val (ir_last r)"
    using cover v by blast
  then obtain c where c: "\<And>i. i < length l \<Longrightarrow> c i \<in> set rs \<and> val (ir_first (c i)) \<le> val (r_start (l ! i)) \<and> val (r_start (l ! i)) \<le> val (ir_last (c i))"
    by metis
  have diff: "c i \<noteq> c j" if ij: "i < j" "j < length l" for i j
  proof
    assume eq: "c i = c j"
    have n: "i + 1 < length l" "val (r_start (l ! i)) < val (r_start (l ! (i + 1)))" "val (r_start (l ! (i + 1))) \<le> val (r_start (l ! j))"
      using ij sorted_wrt_nth_less [OF s, of i "i + 1"] sorted_wrt_nth_less [OF s, of "i + 1" j] by (cases "i + 1 = j"; simp)+
    have "ir_flags (c i) = access ops l (r_start (l ! k))" if "k = i \<or> k = i + 1" for k
      using agree c [of i] c [of j] eq n ij v [of k] that by auto
    then show False using access_start [OF ok] neighbours_differ [OF ok n(1)] n(1) by (metis add_lessD1)
  qed
  then have "inj_on c {..< length l}" by (metis inj_onI lessThan_iff linorder_neqE_nat)
  moreover have "c ` {..< length l} \<subseteq> set rs" using c by blast
  ultimately have "length l \<le> card (set rs)" using card_inj_on_le [of c "{..< length l}" "set rs"] by simp
  then show ?thesis using card_length [of rs] by (simp add: export_filter_nth)
qed

end

section \<open>Addresses of bytes, and ports\<close>

text \<open>The number an address stands for, its first byte the most significant.\<close>

fun be_val :: "8 word list \<Rightarrow> nat" where
  "be_val [] = 0"
| "be_val (x # xs) = unat x * 256 ^ length xs + be_val xs"

fun le_val :: "8 word list \<Rightarrow> nat" where
  "le_val [] = 0"
| "le_val (t # ts) = unat t + 256 * le_val ts"

lemma le_val_append: "le_val (xs @ ys) = le_val xs + 256 ^ length xs * le_val ys"
  by (induction xs) (simp_all add: algebra_simps)

lemma be_val_rev: "be_val xs = le_val (rev xs)"
  by (induction xs) (simp_all add: le_val_append)

lemma byte_lt: "unat (x :: 8 word) < 256"
  using unsigned_less [of x] by simp

lemma byte_le: "unat (x :: 8 word) \<le> 255"
  using byte_lt [of x] by simp

lemma be_val_lt: "be_val xs < 256 ^ length xs"
proof (induction xs)
  case (Cons x xs)
  have "unat x * 256 ^ length xs \<le> 255 * 256 ^ length xs" using byte_le by (rule mult_le_mono1)
  then have "unat x * 256 ^ length xs + be_val xs < 255 * 256 ^ length xs + 256 ^ length xs" using Cons by linarith
  then show ?case by simp
qed simp

lemma lex_less_val: "length xs = length ys \<Longrightarrow> lex_less xs ys \<longleftrightarrow> be_val xs < be_val ys"
proof (induction xs ys rule: lex_less.induct)
  case (3 x xs y ys)
  have len: "length xs = length ys" using 3(2) by simp
  have step: "unat a * 256 ^ length ys + be_val as < unat b * 256 ^ length ys + be_val bs"
    if "a < b" "length as = length ys" for a b :: "8 word" and as bs
  proof -
    have "(unat a + 1) * 256 ^ length ys \<le> unat b * 256 ^ length ys"
      using that(1) by (intro mult_le_mono1) (simp add: word_less_nat_alt)
    then show ?thesis using be_val_lt [of as] that(2) by (simp add: algebra_simps)
  qed
  show ?case
  proof (cases "x = y")
    case True
    then show ?thesis using 3 len by simp
  next
    case False
    then show ?thesis using step [of x y xs ys] step [of y x ys xs] len by (auto simp: not_less_iff_gr_or_eq)
  qed
qed simp_all

lemma be_val_inj: "length xs = length ys \<Longrightarrow> be_val xs = be_val ys \<Longrightarrow> xs = ys"
proof (induction xs ys rule: list_induct2)
  case (Cons x xs y ys)
  have "unat x = be_val (x # xs) div 256 ^ length xs" "unat y = be_val (y # ys) div 256 ^ length ys"
    using be_val_lt [of xs] be_val_lt [of ys] by simp_all
  then have "x = y" using Cons by (metis word_unat_eq_iff)
  then show ?case using Cons by simp
qed simp

lemma plus_one_rev_val:
  "length (plus_one_rev ts) = length ts"
  "le_val ts + 1 < 256 ^ length ts \<Longrightarrow> le_val (plus_one_rev ts) = le_val ts + 1"
proof (induction ts)
  case (Cons t ts)
  { case 1 show ?case using Cons by simp }
  case 2
  show ?case
  proof (cases "t < 0xff")
    case True
    then have "unat (t + 1) = unat t + 1" by (simp add: word_less_nat_alt unat_word_ariths)
    then show ?thesis using True by simp
  next
    case False
    then have t: "unat t = 255" using byte_le [of t] by (simp add: word_less_nat_alt)
    then have "le_val ts + 1 < 256 ^ length ts" using 2 by simp
    then show ?thesis using False Cons t by simp
  qed
qed simp_all

lemma minus_one_rev_val:
  "length (minus_one_rev ts) = length ts"
  "0 < le_val ts \<Longrightarrow> le_val (minus_one_rev ts) = le_val ts - 1"
proof (induction ts)
  case (Cons t ts)
  { case 1 show ?case using Cons by simp }
  case 2
  show ?case
  proof (cases "t > 0")
    case True
    then have "unat (t - 1) = unat t - 1" "0 < unat t" by (simp_all add: unat_sub word_less_nat_alt word_le_nat_alt)
    then show ?thesis using True by simp
  next
    case False
    then have "0 < le_val ts" using 2 by (simp add: word_less_nat_alt)
    then show ?thesis using False Cons by (simp add: word_less_nat_alt)
  qed
qed simp_all

lemma be_val_replicate: "be_val (replicate n 0) = 0" "be_val (replicate n 0xff) + 1 = 256 ^ n"
  by (induction n) simp_all

lemma plus_one_val: "length (plus_one a) = length a" "be_val a + 1 < 256 ^ length a \<Longrightarrow> be_val (plus_one a) = be_val a + 1"
  using plus_one_rev_val [of "rev a"] by (simp_all add: plus_one_def be_val_rev)

lemma minus_one_val: "length (minus_one a) = length a" "0 < be_val a \<Longrightarrow> be_val (minus_one a) = be_val a - 1"
  using minus_one_rev_val [of "rev a"] by (simp_all add: minus_one_def be_val_rev)

lemma bytes_space: "address_space (bytes_ops n) (\<lambda>a. length a = n) be_val (256 ^ n - 1)"
proof
  fix a b :: "8 word list"
  show "length a = n \<Longrightarrow> be_val a \<le> 256 ^ n - 1" using be_val_lt [of a] by simp
  show "length a = n \<Longrightarrow> length b = n \<Longrightarrow> be_val a = be_val b \<Longrightarrow> a = b" by (rule be_val_inj) simp_all
  show "length a = n \<Longrightarrow> length b = n \<Longrightarrow> ao_less (bytes_ops n) a b \<longleftrightarrow> be_val a < be_val b"
    by (simp add: bytes_ops_def lex_less_val)
  show "length a = n \<Longrightarrow> be_val a < 256 ^ n - 1 \<Longrightarrow>
      length (ao_plus_one (bytes_ops n) a) = n \<and> be_val (ao_plus_one (bytes_ops n) a) = be_val a + 1"
    using plus_one_val [of a] by (simp add: bytes_ops_def less_diff_conv)
  show "length a = n \<Longrightarrow> 0 < be_val a \<Longrightarrow>
      length (ao_minus_one (bytes_ops n) a) = n \<and> be_val (ao_minus_one (bytes_ops n) a) = be_val a - 1"
    using minus_one_val [of a] by (simp add: bytes_ops_def)
qed (use be_val_replicate in \<open>simp_all add: bytes_ops_def flip: be_val_replicate(2)\<close>)

interpretation v4: address_space "bytes_ops 4" "\<lambda>a. length a = 4" be_val "256 ^ 4 - 1"
  by (rule bytes_space)

interpretation v6: address_space "bytes_ops 16" "\<lambda>a. length a = 16" be_val "256 ^ 16 - 1"
  by (rule bytes_space)

interpretation port: address_space port_ops "\<lambda>a. True" unat "2 ^ 16 - 1"
proof
  fix a b :: "16 word"
  have "unat a < 2 ^ 16" using unsigned_less [of a] by simp
  then show "unat a \<le> 2 ^ 16 - 1" by simp
  show "unat a < 2 ^ 16 - 1 \<Longrightarrow> True \<and> unat (ao_plus_one port_ops a) = unat a + 1"
    by (simp add: port_ops_def unat_word_ariths)
  show "0 < unat a \<Longrightarrow> True \<and> unat (ao_minus_one port_ops a) = unat a - 1"
    by (simp add: port_ops_def unat_sub word_le_nat_alt)
qed (simp_all add: port_ops_def word_less_nat_alt word_unat_eq_iff)


section \<open>The filters\<close>

fun address_ok :: "address \<Rightarrow> bool" where
  "address_ok (V4 a) = (length a = 4)"
| "address_ok (V6 a) = (length a = 16)"

fun address_in :: "address \<Rightarrow> address \<Rightarrow> address \<Rightarrow> bool" where
  "address_in (V4 f) (V4 t) (V4 a) = (be_val f \<le> be_val a \<and> be_val a \<le> be_val t)"
| "address_in (V6 f) (V6 t) (V6 a) = (be_val f \<le> be_val a \<and> be_val a \<le> be_val t)"
| "address_in _ _ _ = False"

text \<open>A rule the interface allows: two addresses of one kind, in order.\<close>

definition rule_ok :: "address \<times> address \<times> 32 word \<Rightarrow> bool" where
  "rule_ok r = (case r of (f, t, flags) \<Rightarrow> address_ok f \<and> address_ok t \<and> address_in f t f)"

definition ip_filter_ok :: "ip_filter \<Rightarrow> bool" where
  "ip_filter_ok f \<longleftrightarrow> list_ok (\<lambda>a. length a = 4) be_val (m_filter4 f) \<and> list_ok (\<lambda>a. length a = 16) be_val (m_filter6 f)"

text \<open>Rules applied one after the other, and what they say of an address: the last one that has it decides.\<close>

fun add_rules :: "(address \<times> address \<times> 32 word) list \<Rightarrow> ip_filter \<Rightarrow> ip_filter option" where
  "add_rules [] f = Some f"
| "add_rules ((a, b, flags) # rs) f = Option.bind (ip_filter_add_rule a b flags f) (add_rules rs)"

definition last_rule :: "(address \<times> address \<times> 32 word) list \<Rightarrow> address \<Rightarrow> 32 word option" where
  "last_rule rs a = map_option (\<lambda>(f, t, flags). flags) (List.find (\<lambda>(f, t, flags). address_in f t a) (rev rs))"

lemma new_ip_filter_ok: "ip_filter_ok new_ip_filter" "address_ok a \<Longrightarrow> ip_filter_access new_ip_filter a = 0"
  using v4.new_filter_ok v6.new_filter_ok
  by (simp_all add: ip_filter_ok_def new_ip_filter_def ip_filter_access_def split: address.splits) (cases a; simp)

lemma ip_filter_add_rule_ok:
  assumes ok: "ip_filter_ok f" and r: "rule_ok (x, y, flags)"
  obtains g where "ip_filter_add_rule x y flags f = Some g" "ip_filter_ok g"
    "\<And>a. address_ok a \<Longrightarrow> ip_filter_access g a = (if address_in x y a then flags else ip_filter_access f a)"
proof (cases x)
  case (V4 b)
  then obtain c where y: "y = V4 c" and bc: "length b = 4" "length c = 4" "be_val b \<le> be_val c"
    using r by (cases y) (auto simp: rule_ok_def)
  have l: "list_ok (\<lambda>a. length a = 4) be_val (m_filter4 f)" using ok by (simp add: ip_filter_ok_def)
  show thesis
  proof (rule that)
    show "ip_filter_add_rule x y flags f = Some (f\<lparr>m_filter4 := add_rule (bytes_ops 4) b c flags (m_filter4 f)\<rparr>)"
      using V4 y by (simp add: ip_filter_add_rule_def)
  qed (use v4.add_rule_ok [where flags = flags, OF l bc] ok V4 y in
      \<open>auto simp: ip_filter_ok_def ip_filter_access_def split: address.splits\<close>)
next
  case (V6 b)
  then obtain c where y: "y = V6 c" and bc: "length b = 16" "length c = 16" "be_val b \<le> be_val c"
    using r by (cases y) (auto simp: rule_ok_def)
  have l: "list_ok (\<lambda>a. length a = 16) be_val (m_filter6 f)" using ok by (simp add: ip_filter_ok_def)
  show thesis
  proof (rule that)
    show "ip_filter_add_rule x y flags f = Some (f\<lparr>m_filter6 := add_rule (bytes_ops 16) b c flags (m_filter6 f)\<rparr>)"
      using V6 y by (simp add: ip_filter_add_rule_def)
  qed (use v6.add_rule_ok [where flags = flags, OF l bc] ok V6 y in
      \<open>auto simp: ip_filter_ok_def ip_filter_access_def split: address.splits\<close>)
qed

lemma find_append: "List.find Q (xs @ ys) = (case List.find Q xs of None \<Rightarrow> List.find Q ys | Some x \<Rightarrow> Some x)"
  by (induction xs) simp_all

lemma last_rule_Cons:
  "last_rule ((x, y, flags) # rs) a = (case last_rule rs a of Some g \<Rightarrow> Some g | None \<Rightarrow> if address_in x y a then Some flags else None)"
  by (simp add: last_rule_def find_append split: option.splits)

lemma add_rules_ok:
  assumes "ip_filter_ok f" "\<forall>r \<in> set rs. rule_ok r"
  shows "\<exists>g. add_rules rs f = Some g \<and> ip_filter_ok g
    \<and> (\<forall>a. address_ok a \<longrightarrow> ip_filter_access g a = (case last_rule rs a of Some flags \<Rightarrow> flags | None \<Rightarrow> ip_filter_access f a))"
  using assms
proof (induction rs arbitrary: f)
  case Nil
  then show ?case by (simp add: last_rule_def)
next
  case (Cons r rs)
  obtain x y flags where r: "r = (x, y, flags)" by (cases r)
  obtain g where g: "ip_filter_add_rule x y flags f = Some g" "ip_filter_ok g"
      "\<And>a. address_ok a \<Longrightarrow> ip_filter_access g a = (if address_in x y a then flags else ip_filter_access f a)"
    using ip_filter_add_rule_ok [OF Cons.prems(1), of x y flags] Cons.prems(2) r by auto
  obtain h where h: "add_rules rs g = Some h" "ip_filter_ok h"
      "\<forall>a. address_ok a \<longrightarrow> ip_filter_access h a = (case last_rule rs a of Some flags \<Rightarrow> flags | None \<Rightarrow> ip_filter_access g a)"
    using Cons.IH [OF g(2)] Cons.prems(2) by auto
  show ?case using g h r by (auto simp: last_rule_Cons split: option.splits)
qed

lemma port_filter_add_rule_ok:
  assumes "list_ok (\<lambda>a. True) unat f" "first \<le> lst"
  shows "list_ok (\<lambda>a. True) unat (port_filter_add_rule first lst flags f)"
    "port_filter_access (port_filter_add_rule first lst flags f) p = (if first \<le> p \<and> p \<le> lst then flags else port_filter_access f p)"
proof -
  have le: "unat first \<le> unat lst" using assms(2) by (simp add: word_le_nat_alt)
  note r = port.add_rule_ok [where flags = flags, OF assms(1) TrueI TrueI le]
  show "list_ok (\<lambda>a. True) unat (port_filter_add_rule first lst flags f)" using r(1) by (simp add: port_filter_add_rule_def)
  show "port_filter_access (port_filter_add_rule first lst flags f) p = (if first \<le> p \<and> p \<le> lst then flags else port_filter_access f p)"
    using r(2) [of p] by (simp add: port_filter_add_rule_def port_filter_access_def word_le_nat_alt)
qed

end
