(* ===== verification/Tail_Queue.thy ===== *)
theory Tail_Queue
  imports Prelude
begin

text \<open>
  The intrusive queue of jobs (include/libtorrent/tailqueue.hpp): a chain of nodes through their
  \<open>next\<close> pointers with pointers to both ends. A node is its address, the pointers of all nodes are a
  heap. The operations are shown to be those of a list, and to leave the nodes of other queues alone.
\<close>

section \<open>The operations\<close>

type_synonym next_heap = "nat \<Rightarrow> nat option"

record tailqueue =
  m_first :: "nat option"
  m_last :: "nat option"
  m_size :: int

definition new_tailqueue :: tailqueue where
  "new_tailqueue = \<lparr>m_first = None, m_last = None, m_size = 0\<rparr>"

definition tq_empty :: "tailqueue \<Rightarrow> bool" where
  "tq_empty q \<longleftrightarrow> m_size q = 0"

text \<open>\<open>pop_front\<close> of an empty queue dereferences a null pointer, which is \<open>None\<close>.\<close>

definition pop_front :: "next_heap \<Rightarrow> tailqueue \<Rightarrow> (nat \<times> next_heap \<times> tailqueue) option" where
  "pop_front h q =
     (case m_first q of
        None \<Rightarrow> None
      | Some e \<Rightarrow>
          let q1 = q\<lparr>m_first := h e\<rparr>;
              q2 = (if Some e = m_last q1 then q1\<lparr>m_last := None\<rparr> else q1)
          in Some (e, h(e := None), q2\<lparr>m_size := m_size q2 - 1\<rparr>))"

definition push_front :: "nat \<Rightarrow> next_heap \<Rightarrow> tailqueue \<Rightarrow> next_heap \<times> tailqueue" where
  "push_front e h q =
     (let q1 = q\<lparr>m_first := Some e\<rparr>;
          q2 = (if m_last q1 = None then q1\<lparr>m_last := Some e\<rparr> else q1)
      in (h(e := m_first q), q2\<lparr>m_size := m_size q2 + 1\<rparr>))"

definition push_back :: "nat \<Rightarrow> next_heap \<Rightarrow> tailqueue \<Rightarrow> next_heap \<times> tailqueue" where
  "push_back e h q =
     (let (h1, q1) = (case m_last q of Some l \<Rightarrow> (h(l := Some e), q) | None \<Rightarrow> (h, q\<lparr>m_first := Some e\<rparr>))
      in (h1(e := None), q1\<lparr>m_last := Some e, m_size := m_size q1 + 1\<rparr>))"

text \<open>The queue and the other one after a call; the other one is the argument passed by value.\<close>

definition tq_append :: "tailqueue \<Rightarrow> next_heap \<Rightarrow> tailqueue \<Rightarrow> next_heap \<times> tailqueue" where
  "tq_append rhs h q =
     (if m_first rhs = None then (h, q)
      else if m_first q = None then (h, rhs)
      else (case m_last q of
              None \<Rightarrow> (h, q)
            | Some l \<Rightarrow> (h(l := m_first rhs), q\<lparr>m_last := m_last rhs, m_size := m_size q + m_size rhs\<rparr>)))"

definition tq_prepend :: "tailqueue \<Rightarrow> next_heap \<Rightarrow> tailqueue \<Rightarrow> next_heap \<times> tailqueue" where
  "tq_prepend rhs h q =
     (if m_first rhs = None then (h, q)
      else if m_first q = None then (h, rhs)
      else tq_append q h rhs)"

definition get_all :: "tailqueue \<Rightarrow> nat option \<times> tailqueue" where
  "get_all q = (m_first q, new_tailqueue)"

section \<open>Chains\<close>

fun chain :: "next_heap \<Rightarrow> nat option \<Rightarrow> nat list \<Rightarrow> bool" where
  "chain h p [] = (p = None)"
| "chain h p (x # xs) = (p = Some x \<and> chain h (h x) xs)"

definition tq_ok :: "next_heap \<Rightarrow> tailqueue \<Rightarrow> nat list \<Rightarrow> bool" where
  "tq_ok h q xs \<longleftrightarrow> distinct xs \<and> chain h (m_first q) xs \<and> m_last q = (if xs = [] then None else Some (last xs)) \<and> m_size q = int (length xs)"

lemma chain_frame: "e \<notin> set xs \<Longrightarrow> chain (h(e := v)) p xs = chain h p xs"
  by (induction xs arbitrary: p) auto

lemma chain_append:
  "xs \<noteq> [] \<Longrightarrow> distinct xs \<Longrightarrow> last xs \<notin> set ys \<Longrightarrow> chain h p xs \<Longrightarrow> chain h r ys \<Longrightarrow> chain (h(last xs := r)) p (xs @ ys)"
proof (induction xs arbitrary: p)
  case (Cons x xs)
  show ?case
  proof (cases "xs = []")
    case True
    then show ?thesis using Cons.prems by (simp add: chain_frame del: fun_upd_apply) simp
  next
    case False
    then have "x \<noteq> last xs" using Cons.prems(2) last_in_set by fastforce
    then show ?thesis using Cons False by simp
  qed
qed simp

lemma tq_ok_frame: "tq_ok h q xs \<Longrightarrow> e \<notin> set xs \<Longrightarrow> tq_ok (h(e := v)) q xs"
  by (simp add: tq_ok_def chain_frame)

lemma tq_ok_ends:
  assumes "tq_ok h q xs"
  shows "m_first q = None \<longleftrightarrow> xs = []" "m_last q = None \<longleftrightarrow> xs = []" "tq_empty q \<longleftrightarrow> xs = []"
  using assms by (cases xs; simp add: tq_ok_def tq_empty_def)+

lemma new_tailqueue_ok: "tq_ok h new_tailqueue []"
  by (simp add: tq_ok_def new_tailqueue_def)

lemma push_front_ok:
  assumes "tq_ok h q xs" "e \<notin> set xs"
  shows "tq_ok (fst (push_front e h q)) (snd (push_front e h q)) (e # xs)"
  using assms tq_ok_ends [OF assms(1)] by (cases "xs = []") (auto simp: push_front_def tq_ok_def chain_frame Let_def)

lemma push_back_ok:
  assumes "tq_ok h q xs" "e \<notin> set xs"
  shows "tq_ok (fst (push_back e h q)) (snd (push_back e h q)) (xs @ [e])"
proof (cases "xs = []")
  case True
  then show ?thesis using assms by (simp add: push_back_def tq_ok_def)
next
  case False
  then have l: "m_last q = Some (last xs)" using assms by (simp add: tq_ok_def)
  have "chain ((h(e := None))(last xs := Some e)) (m_first q) (xs @ [e])"
    using assms False by (intro chain_append) (auto simp: tq_ok_def chain_frame)
  moreover have "(h(last xs := Some e))(e := None) = (h(e := None))(last xs := Some e)" using assms(2) False by (intro fun_upd_twist) auto
  ultimately show ?thesis using assms l by (simp add: push_back_def tq_ok_def)
qed

lemma pop_front_ok:
  assumes "tq_ok h q (x # xs)"
  shows "\<exists>h' q'. pop_front h q = Some (x, h', q') \<and> h' = h(x := None) \<and> tq_ok h' q' xs"
  using assms by (cases "xs = []") (auto simp: pop_front_def tq_ok_def chain_frame Let_def)

lemma pop_front_empty: "tq_ok h q [] \<Longrightarrow> pop_front h q = None"
  by (simp add: pop_front_def tq_ok_def)

lemma tq_append_ok:
  assumes "tq_ok h q xs" "tq_ok h r ys" "set xs \<inter> set ys = {}"
  shows "tq_ok (fst (tq_append r h q)) (snd (tq_append r h q)) (xs @ ys)"
proof (cases "xs = [] \<or> ys = []")
  case True
  then show ?thesis using assms tq_ok_ends [OF assms(1)] tq_ok_ends [OF assms(2)] by (auto simp: tq_append_def)
next
  case False
  then have "last xs \<notin> set ys" using assms(3) last_in_set by blast
  then have "chain (h(last xs := m_first r)) (m_first q) (xs @ ys)"
    using assms False by (intro chain_append) (auto simp: tq_ok_def)
  then show ?thesis using assms False tq_ok_ends [OF assms(1)] tq_ok_ends [OF assms(2)] by (auto simp: tq_append_def tq_ok_def)
qed

lemma tq_prepend_ok:
  assumes "tq_ok h q xs" "tq_ok h r ys" "set xs \<inter> set ys = {}"
  shows "tq_ok (fst (tq_prepend r h q)) (snd (tq_prepend r h q)) (ys @ xs)"
  using assms tq_append_ok [OF assms(2,1)] tq_ok_ends [OF assms(1)] tq_ok_ends [OF assms(2)]
  by (cases "xs = [] \<or> ys = []") (auto simp: tq_prepend_def)

text \<open>What an operation writes: nodes of the queue, and the node added.\<close>

lemma tq_frame:
  assumes "tq_ok h q xs" "z \<notin> set xs" "z \<noteq> e"
  shows "fst (push_front e h q) z = h z" "fst (push_back e h q) z = h z" "fst (tq_append r h q) z = h z"
proof -
  have "m_last q \<noteq> Some z" using assms by (auto simp: tq_ok_def)
  then show "fst (push_front e h q) z = h z" "fst (push_back e h q) z = h z" "fst (tq_append r h q) z = h z"
    using assms(3) by (auto simp: push_front_def push_back_def tq_append_def Let_def split: option.splits)
qed

end
