(* ===== verification/Disk_Fence.thy ===== *)
theory Disk_Fence
  imports Prelude
begin

text \<open>
  The fence of a storage (src/disk_job_fence.cpp, include/libtorrent/aux_/disk_job_fence.hpp): a
  job that needs the storage for itself raises the fence; jobs that come later wait until it is done.
  A job is its address; its flags are in a store. The mutex makes each operation atomic. Blocked jobs
  are a list, which \<open>Tail_Queue\<close> shows the intrusive queue of the code to be.
\<close>

section \<open>The operations\<close>

record job_flags =
  jf_fence :: bool
  jf_in_progress :: bool

type_synonym job_store = "nat \<Rightarrow> job_flags"

record disk_job_fence =
  m_has_fence :: int
  m_blocked_jobs :: "nat list"
  m_outstanding_jobs :: int

definition new_fence :: disk_job_fence where
  "new_fence = \<lparr>m_has_fence = 0, m_blocked_jobs = [], m_outstanding_jobs = 0\<rparr>"

datatype fence_post = fence_post_fence | fence_post_none

definition set_progress :: "bool \<Rightarrow> nat \<Rightarrow> job_store \<Rightarrow> job_store" where
  "set_progress v j fl = fl(j := (fl j)\<lparr>jf_in_progress := v\<rparr>)"

definition is_blocked :: "nat \<Rightarrow> disk_job_fence \<Rightarrow> job_store \<Rightarrow> bool \<times> disk_job_fence \<times> job_store" where
  "is_blocked j d fl =
     (if m_has_fence d = 0 then (False, d\<lparr>m_outstanding_jobs := m_outstanding_jobs d + 1\<rparr>, set_progress True j fl)
      else (True, d\<lparr>m_blocked_jobs := m_blocked_jobs d @ [j]\<rparr>, fl))"

definition raise_fence :: "nat \<Rightarrow> disk_job_fence \<Rightarrow> job_store \<Rightarrow> fence_post \<times> disk_job_fence \<times> job_store" where
  "raise_fence j d fl =
     (let fl1 = fl(j := (fl j)\<lparr>jf_fence := True\<rparr>)
      in if m_has_fence d = 0 \<and> m_outstanding_jobs d = 0 then
           (fence_post_fence, d\<lparr>m_has_fence := m_has_fence d + 1, m_outstanding_jobs := m_outstanding_jobs d + 1\<rparr>,
            set_progress True j fl1)
         else (fence_post_none, d\<lparr>m_has_fence := m_has_fence d + 1, m_blocked_jobs := m_blocked_jobs d @ [j]\<rparr>, fl1))"

definition has_fence :: "disk_job_fence \<Rightarrow> bool" where
  "has_fence d \<longleftrightarrow> m_has_fence d \<noteq> 0"

definition num_blocked :: "disk_job_fence \<Rightarrow> nat" where
  "num_blocked d = length (m_blocked_jobs d)"

text \<open>The loop that posts the jobs queued behind a fence that was lowered, up to the next fence.\<close>

fun post_blocked ::
    "nat list \<Rightarrow> nat \<Rightarrow> nat list \<Rightarrow> disk_job_fence \<Rightarrow> job_store \<Rightarrow> nat \<times> nat list \<times> disk_job_fence \<times> job_store" where
  "post_blocked [] ret jobs d fl = (ret, jobs, d\<lparr>m_blocked_jobs := []\<rparr>, fl)"
| "post_blocked (bj # bs) ret jobs d fl =
     (if jf_fence (fl bj) then
        if m_outstanding_jobs d = 0 \<and> jobs = [] then
          (ret + 1, jobs @ [bj], d\<lparr>m_blocked_jobs := bs, m_outstanding_jobs := m_outstanding_jobs d + 1\<rparr>, set_progress True bj fl)
        else (ret, jobs, d\<lparr>m_blocked_jobs := bj # bs\<rparr>, fl)
      else post_blocked bs (ret + 1) (jobs @ [bj]) (d\<lparr>m_outstanding_jobs := m_outstanding_jobs d + 1\<rparr>) (set_progress True bj fl))"

text \<open>
  A job completes. With a fence up and nothing outstanding the code pops the first blocked job without
  looking whether there is one; the invariant below has one there.
\<close>

definition job_complete ::
    "nat \<Rightarrow> nat list \<Rightarrow> disk_job_fence \<Rightarrow> job_store \<Rightarrow> nat \<times> nat list \<times> disk_job_fence \<times> job_store" where
  "job_complete j jobs d fl =
     (let fl1 = set_progress False j fl;
          d1 = d\<lparr>m_outstanding_jobs := m_outstanding_jobs d - 1\<rparr>
      in if jf_fence (fl1 j) then
           post_blocked (m_blocked_jobs d1) 0 jobs (d1\<lparr>m_has_fence := m_has_fence d1 - 1\<rparr>) fl1
         else if m_outstanding_jobs d1 > 0 \<or> m_has_fence d1 = 0 then (0, jobs, d1, fl1)
         else (case m_blocked_jobs d1 of
                 [] \<Rightarrow> (0, jobs, d1, fl1)
               | bj # bs \<Rightarrow> (1, bj # jobs,
                   d1\<lparr>m_blocked_jobs := bs, m_outstanding_jobs := m_outstanding_jobs d1 + 1\<rparr>, set_progress True bj fl1)))"

section \<open>A storage and its jobs\<close>

text \<open>
  The jobs of a storage: those running, those done, and all of them in the order they came in.
\<close>

record fence_sys =
  fs_fence :: disk_job_fence
  fs_flags :: job_store
  fs_running :: "nat set"
  fs_done :: "nat set"
  fs_submitted :: "nat list"

definition fence_init :: "fence_sys \<Rightarrow> bool" where
  "fence_init s \<longleftrightarrow> fs_fence s = new_fence \<and> fs_running s = {} \<and> fs_done s = {} \<and> fs_submitted s = []"

definition submit :: "nat \<Rightarrow> fence_sys \<Rightarrow> fence_sys" where
  "submit j s = (case is_blocked j (fs_fence s) (fs_flags s) of (b, d, fl) \<Rightarrow>
     s\<lparr>fs_fence := d, fs_flags := fl, fs_running := (if b then fs_running s else insert j (fs_running s)),
       fs_submitted := fs_submitted s @ [j]\<rparr>)"

definition submit_fence :: "nat \<Rightarrow> fence_sys \<Rightarrow> fence_sys" where
  "submit_fence j s = (case raise_fence j (fs_fence s) (fs_flags s) of (p, d, fl) \<Rightarrow>
     s\<lparr>fs_fence := d, fs_flags := fl,
       fs_running := (if p = fence_post_fence then insert j (fs_running s) else fs_running s),
       fs_submitted := fs_submitted s @ [j]\<rparr>)"

text \<open>
  Completed jobs are handled in batches that may hold jobs of several storages
  (\<open>add_completed_jobs_impl\<close> of src/mmap_disk_io.cpp): \<open>js\<close> are the jobs that the completions before this
  one in its batch have unblocked. The others in the resulting queue start.
\<close>

definition complete :: "nat \<Rightarrow> nat list \<Rightarrow> fence_sys \<Rightarrow> fence_sys" where
  "complete j js s = (case job_complete j js (fs_fence s) (fs_flags s) of (ret, jobs, d, fl) \<Rightarrow>
     s\<lparr>fs_fence := d, fs_flags := fl, fs_running := (fs_running s - {j}) \<union> (set jobs - set js), fs_done := insert j (fs_done s)\<rparr>)"

inductive fence_step :: "fence_sys \<Rightarrow> fence_sys \<Rightarrow> bool" where
  submitted: "j \<notin> set (fs_submitted s) \<Longrightarrow> fs_flags s j = \<lparr>jf_fence = False, jf_in_progress = False\<rparr> \<Longrightarrow> fence_step s (submit j s)"
| raised: "j \<notin> set (fs_submitted s) \<Longrightarrow> fs_flags s j = \<lparr>jf_fence = False, jf_in_progress = False\<rparr> \<Longrightarrow> fence_step s (submit_fence j s)"
| completed: "j \<in> fs_running s \<Longrightarrow> set js \<inter> set (m_blocked_jobs (fs_fence s)) = {} \<Longrightarrow> fence_step s (complete j js s)"

section \<open>The invariant\<close>

definition fs_blocked :: "fence_sys \<Rightarrow> nat list" where
  "fs_blocked s = m_blocked_jobs (fs_fence s)"

definition fs_started :: "fence_sys \<Rightarrow> nat list" where
  "fs_started s = take (length (fs_submitted s) - length (fs_blocked s)) (fs_submitted s)"

definition is_fence :: "fence_sys \<Rightarrow> nat \<Rightarrow> bool" where
  "is_fence s j = jf_fence (fs_flags s j)"

definition fence_counts_ok :: "fence_sys \<Rightarrow> bool" where
  "fence_counts_ok s \<longleftrightarrow> m_outstanding_jobs (fs_fence s) = int (card (fs_running s))
     \<and> m_has_fence (fs_fence s) = int (length (filter (is_fence s) (fs_blocked s)) + card {j \<in> fs_running s. is_fence s j})"

definition lists_ok :: "fence_sys \<Rightarrow> bool" where
  "lists_ok s \<longleftrightarrow> distinct (fs_submitted s) \<and> fs_submitted s = fs_started s @ fs_blocked s
     \<and> set (fs_started s) = fs_running s \<union> fs_done s \<and> fs_running s \<inter> fs_done s = {}
     \<and> (\<forall>j \<in> set (fs_submitted s). jf_in_progress (fs_flags s j) \<longleftrightarrow> j \<in> fs_running s)"

definition fences_ok :: "fence_sys \<Rightarrow> bool" where
  "fences_ok s \<longleftrightarrow> (\<forall>j \<in> fs_running s. is_fence s j \<longrightarrow> fs_running s = {j})
     \<and> (fs_blocked s = [] \<or> (\<exists>j \<in> fs_running s. is_fence s j) \<or> is_fence s (hd (fs_blocked s)))
     \<and> sorted_wrt (\<lambda>i j. is_fence s i \<or> is_fence s j \<longrightarrow> i \<in> fs_done s) (fs_started s)"

definition fence_inv :: "fence_sys \<Rightarrow> bool" where
  "fence_inv s \<longleftrightarrow> fence_counts_ok s \<and> lists_ok s \<and> fences_ok s"

lemma started_eq: "fs_submitted s = A @ fs_blocked s \<Longrightarrow> fs_started s = A"
  by (simp add: fs_started_def)

lemma fence_invI:
  assumes "fs_submitted s = A @ fs_blocked s" "distinct (fs_submitted s)" "set A = fs_running s \<union> fs_done s"
    "fs_running s \<inter> fs_done s = {}" "\<And>j. j \<in> set (fs_submitted s) \<Longrightarrow> jf_in_progress (fs_flags s j) \<longleftrightarrow> j \<in> fs_running s"
    "m_outstanding_jobs (fs_fence s) = int (card (fs_running s))"
    "m_has_fence (fs_fence s) = int (length (filter (is_fence s) (fs_blocked s)) + card {j \<in> fs_running s. is_fence s j})"
    "\<And>j. j \<in> fs_running s \<Longrightarrow> is_fence s j \<Longrightarrow> fs_running s = {j}"
    "fs_blocked s = [] \<or> (\<exists>j \<in> fs_running s. is_fence s j) \<or> is_fence s (hd (fs_blocked s))"
    "sorted_wrt (\<lambda>i j. is_fence s i \<or> is_fence s j \<longrightarrow> i \<in> fs_done s) A"
  shows "fence_inv s"
  using assms started_eq [OF assms(1)] by (auto simp: fence_inv_def fence_counts_ok_def lists_ok_def fences_ok_def)

lemma fence_invD:
  assumes "fence_inv s"
  shows "fs_submitted s = fs_started s @ fs_blocked s" "distinct (fs_submitted s)" "set (fs_started s) = fs_running s \<union> fs_done s"
    "fs_running s \<inter> fs_done s = {}" "j \<in> set (fs_submitted s) \<Longrightarrow> jf_in_progress (fs_flags s j) \<longleftrightarrow> j \<in> fs_running s"
    "m_outstanding_jobs (fs_fence s) = int (card (fs_running s))"
    "m_has_fence (fs_fence s) = int (length (filter (is_fence s) (fs_blocked s)) + card {j \<in> fs_running s. is_fence s j})"
    "j \<in> fs_running s \<Longrightarrow> is_fence s j \<Longrightarrow> fs_running s = {j}"
    "fs_blocked s = [] \<or> (\<exists>j \<in> fs_running s. is_fence s j) \<or> is_fence s (hd (fs_blocked s))"
    "sorted_wrt (\<lambda>i j. is_fence s i \<or> is_fence s j \<longrightarrow> i \<in> fs_done s) (fs_started s)"
    "finite (fs_running s)"
proof -
  show "set (fs_started s) = fs_running s \<union> fs_done s" using assms by (simp add: fence_inv_def lists_ok_def)
  then show "finite (fs_running s)" by (metis List.finite_set finite_Un)
qed (use assms in \<open>auto simp: fence_inv_def fence_counts_ok_def lists_ok_def fences_ok_def\<close>)

text \<open>No fence: nothing waits, and no running job is a fence.\<close>

lemma no_fence:
  assumes "fence_inv s" "m_has_fence (fs_fence s) = 0"
  shows "fs_blocked s = []" "\<forall>j \<in> fs_running s. \<not> is_fence s j"
proof -
  note i = fence_invD [OF assms(1)]
  have "length (filter (is_fence s) (fs_blocked s)) = 0" "card {j \<in> fs_running s. is_fence s j} = 0" using i(7) assms(2) by linarith+
  then have f: "filter (is_fence s) (fs_blocked s) = []" and c: "{j \<in> fs_running s. is_fence s j} = {}" using i(11) by simp_all
  show r: "\<forall>j \<in> fs_running s. \<not> is_fence s j" using c by blast
  show "fs_blocked s = []" using i(9) r f by (cases "fs_blocked s") (auto split: if_splits)
qed

lemma has_fence_pos: "fence_inv s \<Longrightarrow> m_has_fence (fs_fence s) \<noteq> 0 \<Longrightarrow> 0 < m_has_fence (fs_fence s)"
  using fence_invD(7) [of s] by simp

lemma card_insert_if_new: "finite A \<Longrightarrow> x \<notin> A \<Longrightarrow> card {j \<in> insert x A. Q j} = (if Q x then Suc (card {j \<in> A. Q j}) else card {j \<in> A. Q j})"
proof -
  assume "finite A" "x \<notin> A"
  moreover have "{j \<in> insert x A. Q j} = (if Q x then insert x {j \<in> A. Q j} else {j \<in> A. Q j})" by auto
  ultimately show ?thesis by simp
qed

lemma submit_inv:
  assumes inv: "fence_inv s" and j: "j \<notin> set (fs_submitted s)" "fs_flags s j = \<lparr>jf_fence = False, jf_in_progress = False\<rparr>"
  shows "fence_inv (submit j s)"
proof -
  note i = fence_invD [OF inv]
  have fresh: "j \<notin> fs_running s" "j \<notin> fs_done s" using j(1) i(1,3) by auto
  have same: "is_fence (submit j s) = is_fence s"
    by (auto simp: submit_def is_blocked_def set_progress_def is_fence_def split: if_splits)
  show ?thesis
  proof (cases "m_has_fence (fs_fence s) = 0")
    case True
    note nf = no_fence [OF inv True]
    have s': "fs_running (submit j s) = insert j (fs_running s)" "fs_blocked (submit j s) = []" "fs_done (submit j s) = fs_done s"
        "fs_submitted (submit j s) = fs_submitted s @ [j]" "fs_flags (submit j s) = set_progress True j (fs_flags s)"
        "m_outstanding_jobs (fs_fence (submit j s)) = m_outstanding_jobs (fs_fence s) + 1" "m_has_fence (fs_fence (submit j s)) = 0"
      using True nf(1) by (auto simp: submit_def is_blocked_def fs_blocked_def)
    have nj: "\<not> is_fence s j" using j(2) by (simp add: is_fence_def)
    show ?thesis
      by (rule fence_invI [of _ "fs_started s @ [j]"], unfold same s')
        (use i j nf nj fresh in \<open>auto simp: set_progress_def card_insert_if_new sorted_wrt_append\<close>)
  next
    case False
    have s': "fs_running (submit j s) = fs_running s" "fs_blocked (submit j s) = fs_blocked s @ [j]" "fs_done (submit j s) = fs_done s"
        "fs_submitted (submit j s) = fs_submitted s @ [j]" "fs_flags (submit j s) = fs_flags s"
        "m_outstanding_jobs (fs_fence (submit j s)) = m_outstanding_jobs (fs_fence s)" "m_has_fence (fs_fence (submit j s)) = m_has_fence (fs_fence s)"
      using False by (auto simp: submit_def is_blocked_def fs_blocked_def)
    have nj: "\<not> is_fence s j" using j(2) by (simp add: is_fence_def)
    have q: "fs_blocked s = [] \<Longrightarrow> \<exists>j \<in> fs_running s. is_fence s j"
    proof (rule ccontr)
      assume "fs_blocked s = []" "\<not> (\<exists>j \<in> fs_running s. is_fence s j)"
      then have "{j \<in> fs_running s. is_fence s j} = {}" by blast
      then show False using i(7) False \<open>fs_blocked s = []\<close> by (simp del: Collect_empty_eq)
    qed
    show ?thesis
      by (rule fence_invI [of _ "fs_started s"], unfold same s')
        (use i j nj fresh q in \<open>auto simp: hd_append\<close>)
  qed
qed

lemma submit_fence_inv:
  assumes inv: "fence_inv s" and j: "j \<notin> set (fs_submitted s)" "fs_flags s j = \<lparr>jf_fence = False, jf_in_progress = False\<rparr>"
  shows "fence_inv (submit_fence j s)"
proof -
  note i = fence_invD [OF inv]
  have fresh: "j \<notin> fs_running s" "j \<notin> fs_done s" "j \<notin> set (fs_blocked s)" "j \<notin> set (fs_started s)" using j(1) i(1,3) by auto
  have same: "is_fence (submit_fence j s) = (is_fence s)(j := True)"
    by (auto simp: submit_fence_def raise_fence_def set_progress_def is_fence_def fun_eq_iff Let_def split: if_splits)
  have eq: "filter ((is_fence s)(j := True)) (fs_blocked s) = filter (is_fence s) (fs_blocked s)"
    by (rule filter_cong) (use fresh in auto)
  have eq': "{x \<in> fs_running s. ((is_fence s)(j := True)) x} = {x \<in> fs_running s. is_fence s x}"
    using fresh by auto
  have order: "sorted_wrt (\<lambda>x y. ((is_fence s)(j := True)) x \<or> ((is_fence s)(j := True)) y \<longrightarrow> x \<in> fs_done s) (fs_started s)"
    by (rule sorted_wrt_mono_rel [OF _ i(10)]) (use fresh(4) in auto)
  show ?thesis
  proof (cases "m_has_fence (fs_fence s) = 0 \<and> m_outstanding_jobs (fs_fence s) = 0")
    case True
    then have none: "fs_blocked s = []" "fs_running s = {}" using no_fence [OF inv] i(6,11) by auto
    have s': "fs_running (submit_fence j s) = {j}" "fs_blocked (submit_fence j s) = []" "fs_done (submit_fence j s) = fs_done s"
        "fs_submitted (submit_fence j s) = fs_submitted s @ [j]" 
        "m_outstanding_jobs (fs_fence (submit_fence j s)) = 1" "m_has_fence (fs_fence (submit_fence j s)) = 1"
        "jf_in_progress (fs_flags (submit_fence j s) x) = (x = j \<or> jf_in_progress (fs_flags s x))" for x
      using True none by (auto simp: submit_fence_def raise_fence_def fs_blocked_def set_progress_def Let_def)
    show ?thesis
      by (rule fence_invI [of _ "fs_started s @ [j]"], unfold same s')
        (use i j none fresh order in \<open>auto simp: sorted_wrt_append\<close>)
  next
    case False
    have s': "fs_running (submit_fence j s) = fs_running s" "fs_blocked (submit_fence j s) = fs_blocked s @ [j]" "fs_done (submit_fence j s) = fs_done s"
        "fs_submitted (submit_fence j s) = fs_submitted s @ [j]" "jf_in_progress (fs_flags (submit_fence j s) x) = jf_in_progress (fs_flags s x)"
        "m_outstanding_jobs (fs_fence (submit_fence j s)) = m_outstanding_jobs (fs_fence s)" "m_has_fence (fs_fence (submit_fence j s)) = m_has_fence (fs_fence s) + 1" for x
      using False by (auto simp: submit_fence_def raise_fence_def fs_blocked_def Let_def)
    have cnt: "m_has_fence (fs_fence s) + 1 = int (length (filter ((is_fence s)(j := True)) (fs_blocked s @ [j]))
        + card {x \<in> fs_running s. ((is_fence s)(j := True)) x})"
      unfolding filter_append eq eq' i(7) by simp
    have wait: "fs_blocked s @ [j] = [] \<or> (\<exists>x \<in> fs_running s. ((is_fence s)(j := True)) x)
        \<or> ((is_fence s)(j := True)) (hd (fs_blocked s @ [j]))"
      using i(9) by (auto simp: hd_append)
    show ?thesis
    proof (rule fence_invI [of _ "fs_started s"], unfold same s')
      show "distinct (fs_submitted s @ [j])" using i(2) j(1) by simp
      show "fs_submitted s @ [j] = fs_started s @ fs_blocked s @ [j]" by (metis append.assoc i(1))
      show "x \<in> set (fs_submitted s @ [j]) \<Longrightarrow> jf_in_progress (fs_flags s x) \<longleftrightarrow> x \<in> fs_running s" for x
        using i(5) [of x] j(2) fresh(1) by auto
      show "x \<in> fs_running s \<Longrightarrow> ((is_fence s)(j := True)) x \<Longrightarrow> fs_running s = {x}" for x
        using i(8) [of x] fresh(1) by (auto split: if_splits)
    qed (fact i(3) i(4) i(6) cnt wait order)+
  qed
qed

definition start_all :: "nat list \<Rightarrow> job_store \<Rightarrow> job_store" where
  "start_all ns fl = (\<lambda>j. if j \<in> set ns then (fl j)\<lparr>jf_in_progress := True\<rparr> else fl j)"

lemma post_blocked_eq:
  "post_blocked bs ret jobs d fl =
     (if bs \<noteq> [] \<and> jf_fence (fl (hd bs)) \<and> m_outstanding_jobs d = 0 \<and> jobs = [] then
        (ret + 1, [hd bs], d\<lparr>m_blocked_jobs := tl bs, m_outstanding_jobs := m_outstanding_jobs d + 1\<rparr>, start_all [hd bs] fl)
      else let ns = takeWhile (\<lambda>j. \<not> jf_fence (fl j)) bs in
        (ret + length ns, jobs @ ns,
         d\<lparr>m_blocked_jobs := dropWhile (\<lambda>j. \<not> jf_fence (fl j)) bs, m_outstanding_jobs := m_outstanding_jobs d + int (length ns)\<rparr>,
         start_all ns fl))"
proof (induction bs ret jobs d fl rule: post_blocked.induct)
  case (1 ret jobs d fl)
  then show ?case by (simp add: start_all_def)
next
  case (2 bj bs ret jobs d fl)
  have f: "jf_fence (set_progress True bj fl j) = jf_fence (fl j)" for j by (simp add: set_progress_def)
  have s: "start_all ns (set_progress True bj fl) = start_all (bj # ns) fl" for ns
    by (auto simp: start_all_def set_progress_def)
  show ?case
  proof (cases "jf_fence (fl bj)")
    case True
    then show ?thesis by (auto simp: start_all_def set_progress_def)
  next
    case False
    then show ?thesis using 2 by (simp add: f s Let_def)
  qed
qed

text \<open>When everything that started is done, jobs from the front of the queue may start.\<close>

lemma start_blocked_inv:
  assumes inv: "fence_inv s" and j: "j \<in> fs_running s" "fs_running s = {j}" and b: "fs_blocked s = ns @ rest"
    and ns: "(\<exists>f. ns = [f] \<and> is_fence s f) \<or> (\<forall>x \<in> set ns. \<not> is_fence s x) \<and> (rest = [] \<or> is_fence s (hd rest))"
    and t: "fs_running t = set ns" "fs_done t = insert j (fs_done s)" "fs_submitted t = fs_submitted s" "fs_blocked t = rest"
      "\<And>x. jf_in_progress (fs_flags t x) \<longleftrightarrow> (x \<in> set ns \<or> x \<noteq> j \<and> jf_in_progress (fs_flags s x))" "is_fence t = is_fence s"
      "m_outstanding_jobs (fs_fence t) = int (length ns)"
      "m_has_fence (fs_fence t) = (if is_fence s j then m_has_fence (fs_fence s) - 1 else m_has_fence (fs_fence s))"
  shows "fence_inv t"
proof -
  note i = fence_invD [OF inv]
  have d: "distinct ns" "set ns \<inter> set (fs_started s) = {}" "set rest \<inter> set ns = {}" using i(1,2) b by auto
  have all: "set (fs_started s) = insert j (fs_done s)" "j \<notin> fs_done s" using i(3,4) j by auto
  have "sorted_wrt (\<lambda>x y. is_fence s x \<or> is_fence s y \<longrightarrow> x \<in> insert j (fs_done s)) (fs_started s)"
    by (rule sorted_wrt_mono_rel [OF _ i(10)]) auto
  moreover have "sorted_wrt (\<lambda>x y. is_fence s x \<or> is_fence s y \<longrightarrow> x \<in> insert j (fs_done s)) ns"
  proof (cases "\<exists>f. ns = [f]")
    case False
    then have "\<forall>x \<in> set ns. \<not> is_fence s x" using ns by blast
    then show ?thesis by (induction ns) auto
  qed auto
  ultimately have order: "sorted_wrt (\<lambda>x y. is_fence s x \<or> is_fence s y \<longrightarrow> x \<in> insert j (fs_done s)) (fs_started s @ ns)"
    using all by (simp add: sorted_wrt_append)
  have run: "{x \<in> set ns. is_fence s x} = set (filter (is_fence s) ns)" "{x \<in> fs_running s. is_fence s x} = (if is_fence s j then {j} else {})"
    using j by auto
  have cnt: "m_has_fence (fs_fence t) = int (length (filter (is_fence s) rest) + card {x \<in> set ns. is_fence s x})"
    unfolding t(8) i(7) b run using distinct_card [OF distinct_filter [OF d(1), of "is_fence s"]] by simp
  show ?thesis
  proof (rule fence_invI [of _ "fs_started s @ ns"], unfold t(1-4,6,7) cnt)
    show "fs_submitted s = (fs_started s @ ns) @ rest" using i(1) b by simp
    show "set (fs_started s @ ns) = set ns \<union> insert j (fs_done s)" using all by auto
    show "set ns \<inter> insert j (fs_done s) = {}" using d(2) all by auto
    show "x \<in> set (fs_submitted s) \<Longrightarrow> jf_in_progress (fs_flags t x) \<longleftrightarrow> x \<in> set ns" for x
      using i(5) [of x] j(2) by (simp add: t(5))
    show "int (length ns) = int (card (set ns))" using distinct_card [OF d(1)] by simp
    show "x \<in> set ns \<Longrightarrow> is_fence s x \<Longrightarrow> set ns = {x}" for x using ns by auto
    show "rest = [] \<or> (\<exists>x \<in> set ns. is_fence s x) \<or> is_fence s (hd rest)" using ns by auto
  qed (fact i(2) order refl)+
qed

text \<open>The jobs that the completion of the last running job \<open>j\<close> starts, when a fence is up.\<close>

definition unblocked :: "nat \<Rightarrow> nat list \<Rightarrow> fence_sys \<Rightarrow> nat list" where
  "unblocked j js s =
     (if is_fence s j \<and> (fs_blocked s = [] \<or> \<not> is_fence s (hd (fs_blocked s)) \<or> js \<noteq> [])
      then takeWhile (\<lambda>x. \<not> is_fence s x) (fs_blocked s) else take 1 (fs_blocked s))"

lemma fence_waits:
  assumes inv: "fence_inv s" and j: "fs_running s = {j}" "\<not> is_fence s j" and h: "m_has_fence (fs_fence s) \<noteq> 0"
  shows "\<exists>b bs. fs_blocked s = b # bs \<and> is_fence s b"
proof -
  note i = fence_invD [OF inv]
  have none: "{x \<in> fs_running s. is_fence s x} = {}" using j by auto
  then have "fs_blocked s \<noteq> []" using i(7) h by (auto simp del: Collect_empty_eq)
  then show ?thesis using i(9) none by (cases "fs_blocked s") auto
qed

lemma complete_last:
  assumes inv: "fence_inv s" and j: "fs_running s = {j}" and h: "m_has_fence (fs_fence s) \<noteq> 0" and js: "set js \<inter> set (fs_blocked s) = {}"
  defines "ns \<equiv> unblocked j js s"
  shows "complete j js s = s\<lparr>fs_fence := \<lparr>m_has_fence = (if is_fence s j then m_has_fence (fs_fence s) - 1 else m_has_fence (fs_fence s)),
      m_blocked_jobs = drop (length ns) (fs_blocked s), m_outstanding_jobs = int (length ns)\<rparr>,
    fs_flags := start_all ns (set_progress False j (fs_flags s)), fs_running := set ns, fs_done := insert j (fs_done s)\<rparr>"
proof -
  let ?fl = "set_progress False j (fs_flags s)"
  have out: "m_outstanding_jobs (fs_fence s) = 1" using fence_invD(6) [OF inv] j by simp
  have f: "jf_fence (?fl x) = is_fence s x" for x by (simp add: set_progress_def is_fence_def)
  have d: "dropWhile P xs = drop (length (takeWhile P xs)) xs" for P and xs :: "nat list" by (simp add: dropWhile_eq_drop)
  have "set ns \<inter> set js = {}" using js by (auto simp: ns_def unblocked_def dest: set_takeWhileD in_set_takeD split: if_splits)
  then have "set js \<union> set ns - set js = set ns" by blast
  moreover have "\<exists>ret jobs. set jobs = set js \<union> set ns \<and> job_complete j js (fs_fence s) (fs_flags s) = (ret, jobs,
      \<lparr>m_has_fence = (if is_fence s j then m_has_fence (fs_fence s) - 1 else m_has_fence (fs_fence s)),
       m_blocked_jobs = drop (length ns) (fs_blocked s), m_outstanding_jobs = int (length ns)\<rparr>, start_all ns ?fl)"
  proof (cases "is_fence s j")
    case True
    then show ?thesis using out
      by (cases "fs_blocked s = [] \<or> \<not> is_fence s (hd (fs_blocked s)) \<or> js \<noteq> []")
        (auto simp: job_complete_def f post_blocked_eq Let_def ns_def unblocked_def d fs_blocked_def [symmetric] take_Suc drop_Suc)
  next
    case False
    obtain b bs where b: "fs_blocked s = b # bs" using fence_waits [OF inv j False h] by blast
    moreover have "set_progress True b ?fl = start_all [b] ?fl" by (simp add: set_progress_def start_all_def fun_eq_iff)
    ultimately have "job_complete j js (fs_fence s) (fs_flags s) = (1, b # js,
        \<lparr>m_has_fence = m_has_fence (fs_fence s), m_blocked_jobs = bs, m_outstanding_jobs = 1\<rparr>, start_all [b] ?fl)"
      using False out h by (simp add: job_complete_def f Let_def fs_blocked_def)
    moreover have "ns = [b]" using False b by (simp add: ns_def unblocked_def)
    ultimately show ?thesis using False b by auto
  qed
  ultimately show ?thesis using j by (auto simp: complete_def)
qed

lemma unblocked_split:
  fixes js :: "nat list"
  assumes inv: "fence_inv s" and j: "fs_running s = {j}" and h: "m_has_fence (fs_fence s) \<noteq> 0"
  defines "ns \<equiv> unblocked j js s"
  shows "fs_blocked s = ns @ drop (length ns) (fs_blocked s)"
    "(\<exists>f. ns = [f] \<and> is_fence s f) \<or> (\<forall>x \<in> set ns. \<not> is_fence s x)
       \<and> (drop (length ns) (fs_blocked s) = [] \<or> is_fence s (hd (drop (length ns) (fs_blocked s))))"
proof -
  let ?P = "\<lambda>x. \<not> is_fence s x"
  show "fs_blocked s = ns @ drop (length ns) (fs_blocked s)"
    by (auto simp: ns_def unblocked_def dropWhile_eq_drop [symmetric] min_def)
  show "(\<exists>f. ns = [f] \<and> is_fence s f) \<or> (\<forall>x \<in> set ns. \<not> is_fence s x)
       \<and> (drop (length ns) (fs_blocked s) = [] \<or> is_fence s (hd (drop (length ns) (fs_blocked s))))"
  proof (cases "is_fence s j \<and> (fs_blocked s = [] \<or> \<not> is_fence s (hd (fs_blocked s)) \<or> js \<noteq> [])")
    case True
    then have "ns = takeWhile ?P (fs_blocked s)" by (simp add: ns_def unblocked_def)
    then show ?thesis using hd_dropWhile [of ?P "fs_blocked s"] by (auto simp: dropWhile_eq_drop [symmetric] dest: set_takeWhileD)
  next
    case False
    then obtain b bs where "fs_blocked s = b # bs" "is_fence s b" using fence_waits [OF inv j _ h] by (cases "fs_blocked s") auto
    then show ?thesis using False by (auto simp: ns_def unblocked_def)
  qed
qed

lemma complete_last_inv:
  assumes inv: "fence_inv s" and j: "j \<in> fs_running s" "fs_running s = {j}" and h: "m_has_fence (fs_fence s) \<noteq> 0"
    and js: "set js \<inter> set (fs_blocked s) = {}"
  shows "fence_inv (complete j js s)"
proof -
  have jb: "j \<notin> set (fs_blocked s)" using fence_invD(1-3) [OF inv] j by auto
  note c = complete_last [OF inv j(2) h js] and u = unblocked_split [OF inv j(2) h, of js]
  have "set (unblocked j js s) \<subseteq> set (fs_blocked s)" using u(1) by (metis Un_upper1 set_append)
  then show ?thesis using jb
    by (intro start_blocked_inv [OF inv j u])
      (auto simp: c fs_blocked_def is_fence_def start_all_def set_progress_def fun_eq_iff)
qed

lemma complete_other_inv:
  assumes inv: "fence_inv s" and j: "j \<in> fs_running s" and h: "fs_running s \<noteq> {j} \<or> m_has_fence (fs_fence s) = 0"
  shows "fence_inv (complete j js s)" "fs_running (complete j js s) = fs_running s - {j}" "fs_blocked (complete j js s) = fs_blocked s"
proof -
  note i = fence_invD [OF inv]
  have nf: "\<not> is_fence s j" using i(8) [OF j] no_fence(2) [OF inv] h j by blast
  have more: "0 < m_outstanding_jobs (fs_fence s) - 1 \<or> m_has_fence (fs_fence s) = 0"
  proof -
    have "card (fs_running s) \<noteq> 1" if "fs_running s \<noteq> {j}" using that j by (auto simp: card_1_singleton_iff)
    moreover have "card (fs_running s) \<noteq> 0" using j i(11) by auto
    ultimately show ?thesis using h i(6) by linarith
  qed
  have c: "complete j js s = s\<lparr>fs_fence := (fs_fence s)\<lparr>m_outstanding_jobs := m_outstanding_jobs (fs_fence s) - 1\<rparr>,
      fs_flags := set_progress False j (fs_flags s), fs_running := fs_running s - {j}, fs_done := insert j (fs_done s)\<rparr>"
    using nf more by (auto simp: complete_def job_complete_def is_fence_def set_progress_def Let_def)
  then show s': "fs_running (complete j js s) = fs_running s - {j}" "fs_blocked (complete j js s) = fs_blocked s"
    by (simp_all add: fs_blocked_def)
  have same: "is_fence (complete j js s) = is_fence s" by (rule ext) (simp add: c is_fence_def set_progress_def)
  have cs: "{x \<in> fs_running s - {j}. is_fence s x} = {x \<in> fs_running s. is_fence s x}" using nf by auto
  have order: "sorted_wrt (\<lambda>x y. is_fence s x \<or> is_fence s y \<longrightarrow> x \<in> insert j (fs_done s)) (fs_started s)"
    by (rule sorted_wrt_mono_rel [OF _ i(10)]) auto
  have q: "fs_blocked s = [] \<or> (\<exists>x \<in> fs_running s - {j}. is_fence s x) \<or> is_fence s (hd (fs_blocked s))"
    using i(9) h no_fence(1) [OF inv] nf j by auto
  have none: "\<forall>x \<in> fs_running s. \<not> is_fence s x" using i(8) nf j by (metis singletonD)
  have card: "m_outstanding_jobs (fs_fence s) - 1 = int (card (fs_running s - {j}))"
    using card.remove [OF i(11) j] i(6) by simp
  show "fence_inv (complete j js s)"
    by (rule fence_invI [of _ "fs_started s"], unfold same s' cs)
      (use i(1-5,7) none card q order j in \<open>auto simp: c set_progress_def\<close>)
qed

lemma fence_step_inv:
  assumes "fence_inv s" "fence_step s t"
  shows "fence_inv t"
  using assms(2)
proof (cases rule: fence_step.cases)
  case (completed j js)
  then show ?thesis using complete_last_inv [OF assms(1)] complete_other_inv(1) [OF assms(1)] unfolding fs_blocked_def by metis
qed (auto intro: submit_inv [OF assms(1)] submit_fence_inv [OF assms(1)])

interpretation fence: guarded_steps fence_init fence_step fence_inv
proof
  fix s assume "fence_init s"
  then show "fence_inv s" by (intro fence_invI [of _ "[]"]) (auto simp: fence_init_def new_fence_def fs_blocked_def)
qed (rule fence_step_inv)

lemma submitted_count:
  assumes "fence_inv s"
  shows "length (fs_submitted s) = card (fs_running s) + card (fs_done s) + length (fs_blocked s)"
proof -
  note i = fence_invD [OF assms]
  have "distinct (fs_started s)" using i(1,2) by (metis distinct_append)
  then have "length (fs_started s) = card (fs_running s \<union> fs_done s)" using distinct_card i(3) by metis
  moreover have "finite (fs_done s)" using i(3) by (metis List.finite_set finite_Un)
  ultimately show ?thesis using i(1,4,11) by (metis card_Un_disjoint length_append)
qed

text \<open>Jobs wait and none is running: nothing will start them.\<close>

definition fs_stuck :: "fence_sys \<Rightarrow> bool" where
  "fs_stuck s \<longleftrightarrow> fs_running s = {} \<and> fs_blocked s \<noteq> []"

lemma nothing_running:
  assumes "fence_inv s" "fs_running s = {}" "\<not> fs_stuck s"
  shows "fs_done s = set (fs_submitted s)"
  using fence_invD(1,3) [OF assms(1)] assms(2,3) by (auto simp: fs_stuck_def)

lemma stuck_iff:
  assumes inv: "fence_inv s" and j: "j \<in> fs_running s" and js: "set js \<inter> set (fs_blocked s) = {}"
  shows "fs_stuck (complete j js s) \<longleftrightarrow> is_fence s j \<and> fs_blocked s \<noteq> [] \<and> is_fence s (hd (fs_blocked s)) \<and> js \<noteq> []"
proof (cases "fs_running s = {j} \<and> m_has_fence (fs_fence s) \<noteq> 0")
  case True
  then have c: "fs_running (complete j js s) = set (unblocked j js s)" "fs_blocked (complete j js s) = drop (length (unblocked j js s)) (fs_blocked s)"
    using complete_last [OF inv _ _ js] by (simp_all add: fs_blocked_def)
  then have "fs_stuck (complete j js s) \<longleftrightarrow> unblocked j js s = [] \<and> fs_blocked s \<noteq> []" by (auto simp: fs_stuck_def)
  then show ?thesis by (cases "fs_blocked s") (auto simp: unblocked_def)
next
  case False
  then have o: "fs_running (complete j js s) = fs_running s - {j}" "fs_blocked (complete j js s) = fs_blocked s"
    using complete_other_inv [OF inv j] by blast+
  have "\<not> is_fence s j" using False fence_invD(8) [OF inv j] no_fence(2) [OF inv] j by blast
  moreover have "fs_blocked s = []" if "fs_running s = {j}" using False that no_fence(1) [OF inv] by blast
  ultimately show ?thesis using o j by (auto simp: fs_stuck_def)
qed

lemma stuck_forever:
  assumes "fence_step\<^sup>*\<^sup>* s t" "fence_inv s" "fs_stuck s"
  shows "fs_stuck t"
  using assms
proof (induction rule: rtranclp_induct)
  case (step u v)
  have inv: "fence_inv u" using step.hyps(1) step.prems(1) fence_step_inv by (induction rule: rtranclp_induct) auto
  have u: "fs_running u = {}" "fs_blocked u \<noteq> []" using step.IH step.prems by (auto simp: fs_stuck_def)
  then have h: "m_has_fence (fs_fence u) \<noteq> 0" using no_fence(1) [OF inv] by blast
  from step.hyps(2) show ?case
    by cases (use h u in \<open>auto simp: fs_stuck_def submit_def submit_fence_def is_blocked_def raise_fence_def fs_blocked_def\<close>)
qed simp

text \<open>A running job completes and leaves no fence stuck; nothing new comes in.\<close>

definition completes :: "fence_sys \<Rightarrow> fence_sys \<Rightarrow> bool" where
  "completes s t \<longleftrightarrow> \<not> fs_stuck t \<and> (\<exists>j js. j \<in> fs_running s \<and> set js \<inter> set (m_blocked_jobs (fs_fence s)) = {} \<and> t = complete j js s)"

lemma complete_fields: "fs_done (complete j js s) = insert j (fs_done s)" "fs_submitted (complete j js s) = fs_submitted s"
  by (simp_all add: complete_def split: prod.splits)

lemma completes_inv: "completes s t \<Longrightarrow> fence_inv s \<Longrightarrow> fence_inv t"
  using fence_step_inv completed unfolding completes_def by blast

lemma completes_run: "completes\<^sup>*\<^sup>* s t \<Longrightarrow> fence_inv s \<Longrightarrow> \<not> fs_stuck s \<Longrightarrow> fence_inv t \<and> fs_submitted t = fs_submitted s \<and> \<not> fs_stuck t"
proof (induction rule: rtranclp_induct)
  case (step t u)
  then show ?case using completes_inv by (auto simp: completes_def complete_fields)
qed simp

lemma complete_shrinks:
  assumes "fence_inv s" "j \<in> fs_running s"
  shows "card (set (fs_submitted s) - fs_done (complete j js s)) < card (set (fs_submitted s) - fs_done s)"
proof (rule psubset_card_mono)
  have "j \<in> set (fs_submitted s)" "j \<notin> fs_done s" using fence_invD(1,3,4) [OF assms(1)] assms(2) by auto
  then show "set (fs_submitted s) - fs_done (complete j js s) \<subset> set (fs_submitted s) - fs_done s" by (auto simp: complete_fields)
qed simp

lemma drains:
  assumes "fence_inv s" "\<not> fs_stuck s"
  shows "\<exists>t. completes\<^sup>*\<^sup>* s t \<and> fs_done t = set (fs_submitted s)"
  using assms
proof (induction "card (set (fs_submitted s) - fs_done s)" arbitrary: s rule: less_induct)
  case less
  show ?case
  proof (cases "fs_running s = {}")
    case True
    then show ?thesis using nothing_running [OF less.prems(1) _ less.prems(2)] by blast
  next
    case False
    then obtain j where j: "j \<in> fs_running s" by blast
    have n: "\<not> fs_stuck (complete j [] s)" using stuck_iff [OF less.prems(1) j, of "[]"] by simp
    then have c: "completes s (complete j [] s)"
      unfolding completes_def using j by (intro conjI exI [of _ j] exI [of _ "[]"]) simp_all
    obtain t where "completes\<^sup>*\<^sup>* (complete j [] s) t" "fs_done t = set (fs_submitted s)"
      using less.hyps [of "complete j [] s"] complete_shrinks [OF less.prems(1) j] completes_inv [OF c less.prems(1)] n by (auto simp: complete_fields)
    then show ?thesis using c by (meson converse_rtranclp_into_rtranclp)
  qed
qed

text \<open>Of two jobs of which one is a fence, the earlier is done before the later starts.\<close>

lemma fence_order:
  assumes inv: "fence_inv s" and ij: "i < k" "k < length (fs_submitted s)"
    and f: "is_fence s (fs_submitted s ! i) \<or> is_fence s (fs_submitted s ! k)"
    and k: "fs_submitted s ! k \<in> fs_running s \<union> fs_done s"
  shows "fs_submitted s ! i \<in> fs_done s"
proof -
  note v = fence_invD [OF inv]
  have "k < length (fs_started s)"
  proof (rule ccontr)
    assume "\<not> k < length (fs_started s)"
    then have "fs_submitted s ! k \<in> set (fs_blocked s)" using ij v(1) by (simp add: nth_append)
    then show False using k v(1,2,3) by (metis disjoint_iff distinct_append)
  qed
  moreover have "fs_submitted s ! x = fs_started s ! x" if "x < length (fs_started s)" for x using v(1) that by (simp add: nth_append)
  ultimately show ?thesis using sorted_wrt_nth_less [OF v(10) ij(1)] f ij by auto
qed

lemma has_fence_iff:
  assumes inv: "fence_inv s"
  shows "has_fence (fs_fence s) \<longleftrightarrow> (\<exists>j \<in> fs_running s \<union> set (m_blocked_jobs (fs_fence s)). jf_fence (fs_flags s j))"
proof (cases "m_has_fence (fs_fence s) = 0")
  case True
  then show ?thesis using no_fence [OF inv True] by (auto simp: has_fence_def is_fence_def fs_blocked_def)
next
  case False
  have "\<exists>j \<in> fs_running s \<union> set (fs_blocked s). is_fence s j"
  proof (rule ccontr)
    assume "\<not> (\<exists>j \<in> fs_running s \<union> set (fs_blocked s). is_fence s j)"
    then have "{j \<in> fs_running s. is_fence s j} = {}" "filter (is_fence s) (fs_blocked s) = []" by (auto simp: filter_empty_conv)
    then show False using fence_invD(7) [OF inv] False by (simp del: Collect_empty_eq)
  qed
  then show ?thesis using False by (auto simp: has_fence_def is_fence_def fs_blocked_def)
qed

text \<open>A sequence of calls on an idle storage.\<close>

definition idle_storage :: fence_sys where
  "idle_storage = \<lparr>fs_fence = new_fence, fs_flags = (\<lambda>j. \<lparr>jf_fence = False, jf_in_progress = False\<rparr>), fs_running = {}, fs_done = {}, fs_submitted = []\<rparr>"

lemmas fence_ops = submit_def submit_fence_def complete_def is_blocked_def raise_fence_def job_complete_def set_progress_def
  new_fence_def idle_storage_def Let_def

definition busy_storage :: fence_sys where
  "busy_storage = submit 6 (submit_fence 5 (submit 4 idle_storage))"

lemma busy_storage_facts:
  "fs_submitted busy_storage = [4, 5, 6]" "fs_running busy_storage = {4}" "fs_running (complete 4 [] busy_storage) = {5}"
  "fs_flags busy_storage 5 = \<lparr>jf_fence = True, jf_in_progress = False\<rparr>" "fs_submitted (complete 4 [] busy_storage) = [4, 5, 6]"
  "jf_fence (fs_flags (complete 4 [] busy_storage) 5)"
  by (simp_all add: busy_storage_def fence_ops)

lemma busy_storage_reached: "fence_init idle_storage" "fence_step\<^sup>*\<^sup>* idle_storage busy_storage" "fence_step\<^sup>*\<^sup>* idle_storage (complete 4 [] busy_storage)"
proof -
  show "fence_init idle_storage" by (simp add: fence_init_def idle_storage_def)
  have s1: "fence_step idle_storage (submit 4 idle_storage)" by (rule submitted) (simp_all add: fence_ops)
  have s2: "fence_step (submit 4 idle_storage) (submit_fence 5 (submit 4 idle_storage))" by (rule raised) (simp_all add: fence_ops)
  have s3: "fence_step (submit_fence 5 (submit 4 idle_storage)) busy_storage"
    unfolding busy_storage_def by (rule submitted) (simp_all add: fence_ops)
  show r: "fence_step\<^sup>*\<^sup>* idle_storage busy_storage"
    by (rule converse_rtranclp_into_rtranclp [OF s1 converse_rtranclp_into_rtranclp [OF s2 r_into_rtranclp [of fence_step, OF s3]]])
  have "fence_step busy_storage (complete 4 [] busy_storage)" by (rule completed) (simp_all add: busy_storage_facts)
  with r show "fence_step\<^sup>*\<^sup>* idle_storage (complete 4 [] busy_storage)" by (rule rtranclp.rtrancl_into_rtrancl)
qed


text \<open>Two fences wait for a running job.\<close>

definition fenced_storage :: fence_sys where
  "fenced_storage = submit_fence 6 (submit_fence 5 idle_storage)"

lemma fenced_storage_facts:
  "fs_submitted fenced_storage = [5, 6]" "fs_running fenced_storage = {5}" "m_blocked_jobs (fs_fence fenced_storage) = [6]"
  "jf_fence (fs_flags fenced_storage 5)" "jf_fence (fs_flags fenced_storage 6)"
  by (simp_all add: fenced_storage_def fence_ops)

lemma fenced_storage_reached: "fence_step\<^sup>*\<^sup>* idle_storage fenced_storage"
proof -
  have "fence_step idle_storage (submit_fence 5 idle_storage)" by (rule raised) (simp_all add: fence_ops)
  moreover have "fence_step (submit_fence 5 idle_storage) fenced_storage"
    unfolding fenced_storage_def by (rule raised) (simp_all add: fence_ops)
  ultimately show ?thesis by simp
qed

end
