(* ===== verification/Packet_Buffer.thy ===== *)
theory Packet_Buffer
  imports Prelude
begin

text \<open>
  The circular buffer of uTP packets (src/packet_buffer.cpp, include/libtorrent/aux_/packet_buffer.hpp).
  Indices are 16 bit sequence numbers kept in \<open>std::uint32_t\<close>; the arithmetic on them is that of
  \<^typ>\<open>nat\<close> with the wrap-around at \<open>2^32\<close> written out. A slot holds a packet or null.
\<close>

unbundle bit_operations_syntax

definition add32 :: "nat \<Rightarrow> nat \<Rightarrow> nat" where
  "add32 a b = (a + b) mod 2 ^ 32"

definition sub32 :: "nat \<Rightarrow> nat \<Rightarrow> nat" where
  "sub32 a b = (a + 2 ^ 32 - b) mod 2 ^ 32"

text \<open>\<open>compare_less_wrap\<close> of src/utp_stream.cpp.\<close>

definition compare_less_wrap :: "nat \<Rightarrow> nat \<Rightarrow> nat \<Rightarrow> bool" where
  "compare_less_wrap lhs rhs msk =
     (let dist_down = sub32 lhs rhs AND msk; dist_up = sub32 rhs lhs AND msk in dist_up < dist_down)"

record 'a packet_buffer =
  pb_storage :: "'a option list"
  pb_capacity :: nat
  pb_size :: int
  pb_first :: nat
  pb_last :: nat

definition new_packet_buffer :: "'a packet_buffer" where
  "new_packet_buffer = \<lparr>pb_storage = [], pb_capacity = 0, pb_size = 0, pb_first = 0, pb_last = 0\<rparr>"

definition pb_span :: "'a packet_buffer \<Rightarrow> nat" where
  "pb_span b = sub32 (pb_last b) (pb_first b) AND 0xffff"

text \<open>The loop that doubles the capacity; it does not end for a size above \<open>2^31\<close>.\<close>

partial_function (option) grow :: "nat \<Rightarrow> nat \<Rightarrow> nat option" where
  "grow new_size sz = (if new_size < sz then grow ((2 * new_size) mod 2 ^ 32) sz else Some new_size)"

declare grow.simps [code]

text \<open>Moves the slots of the indices from \<open>i\<close>, \<open>n\<close> of them.\<close>

fun move_slots :: "nat \<Rightarrow> nat \<Rightarrow> nat \<Rightarrow> nat \<Rightarrow> 'a option list \<Rightarrow> 'a option list \<Rightarrow> 'a option list" where
  "move_slots 0 i cap new_size old new = new"
| "move_slots (Suc n) i cap new_size old new =
     move_slots n (i + 1) cap new_size old (new[i AND (new_size - 1) := old ! (i AND (cap - 1))])"

definition pb_reserve :: "nat \<Rightarrow> 'a packet_buffer \<Rightarrow> 'a packet_buffer option" where
  "pb_reserve sz b =
     (case grow (if pb_capacity b = 0 then 16 else pb_capacity b) sz of
        None \<Rightarrow> None
      | Some new_size \<Rightarrow>
          Some (b\<lparr>pb_storage := move_slots (pb_capacity b) (pb_first b) (pb_capacity b) new_size (pb_storage b) (replicate new_size None),
                  pb_capacity := new_size\<rparr>))"

text \<open>The empty slots before \<open>m_first\<close>: the loop visits at most the other slots of the buffer.\<close>

fun free_space :: "nat \<Rightarrow> nat \<Rightarrow> nat \<Rightarrow> 'a option list \<Rightarrow> nat" where
  "free_space 0 i cap st = 0"
| "free_space (Suc n) i cap st = (if st ! i \<noteq> None then 0 else 1 + free_space n (sub32 i 1 AND (cap - 1)) cap st)"

fun bump_first :: "nat \<Rightarrow> nat \<Rightarrow> nat \<Rightarrow> 'a option list \<Rightarrow> nat" where
  "bump_first 0 f cap st = f"
| "bump_first (Suc n) f cap st = (if st ! (f AND (cap - 1)) \<noteq> None then f else bump_first n (add32 f 1) cap st)"

fun bump_last :: "nat \<Rightarrow> nat \<Rightarrow> nat \<Rightarrow> 'a option list \<Rightarrow> nat" where
  "bump_last 0 l cap st = l"
| "bump_last (Suc n) l cap st = (if st ! (l AND (cap - 1)) \<noteq> None then l else bump_last n (sub32 l 1) cap st)"

definition pb_at :: "nat \<Rightarrow> 'a packet_buffer \<Rightarrow> 'a option" where
  "pb_at idx b =
     (if idx \<ge> add32 (pb_first b) (pb_capacity b) then None
      else if compare_less_wrap idx (pb_first b) 0xffff then None
      else pb_storage b ! (idx AND (pb_capacity b - 1)))"

text \<open>The ends after the packet at an index was removed.\<close>

definition pb_next_first :: "nat \<Rightarrow> 'a packet_buffer \<Rightarrow> 'a packet_buffer" where
  "pb_next_first idx b =
     (if idx = pb_first b \<and> pb_size b \<noteq> 0 then
        b\<lparr>pb_first := bump_first (pb_capacity b) (add32 (pb_first b) 1) (pb_capacity b) (pb_storage b) AND 0xffff\<rparr>
      else b)"

definition pb_next_last :: "nat \<Rightarrow> 'a packet_buffer \<Rightarrow> 'a packet_buffer" where
  "pb_next_last idx b =
     (if add32 idx 1 AND 0xffff = pb_last b \<and> pb_size b \<noteq> 0 then
        b\<lparr>pb_last := add32 (bump_last (pb_capacity b) (sub32 (pb_last b) 1) (pb_capacity b) (pb_storage b)) 1 AND 0xffff\<rparr>
      else b)"

definition pb_remove :: "nat \<Rightarrow> 'a packet_buffer \<Rightarrow> 'a option \<times> 'a packet_buffer" where
  "pb_remove idx b =
     (if idx \<ge> add32 (pb_first b) (pb_capacity b) then (None, b)
      else if compare_less_wrap idx (pb_first b) 0xffff then (None, b)
      else
        let k = idx AND (pb_capacity b - 1);
            old_value = pb_storage b ! k;
            b1 = b\<lparr>pb_storage := (pb_storage b)[k := None]\<rparr>;
            n = pb_size b1 - 1;
            b2 = (if old_value \<noteq> None then b1\<lparr>pb_size := n, pb_last := (if n = 0 then pb_first b1 else pb_last b1)\<rparr> else b1)
        in (old_value, pb_next_last idx (pb_next_first idx b2)))"

text \<open>The room \<open>insert\<close> makes for an index, and the ends it sets.\<close>

definition pb_make_room :: "nat \<Rightarrow> 'a packet_buffer \<Rightarrow> 'a packet_buffer option" where
  "pb_make_room idx b =
     (let f = pb_first b; cap = pb_capacity b
      in if compare_less_wrap idx f 0xffff then
           let dist = sub32 f idx AND 0xffff;
               free = free_space (cap - 1) (sub32 f 1 AND (cap - 1)) cap (pb_storage b)
           in map_option (\<lambda>b'. b'\<lparr>pb_first := idx\<rparr>)
                (if dist > free then pb_reserve (sub32 (add32 dist cap) free) b else Some b)
         else if idx \<ge> add32 f cap then pb_reserve (add32 (sub32 idx f) 1) b
         else if idx < f \<and> idx \<ge> add32 f cap AND 0xffff \<and> cap < 0xffff then
           pb_reserve (add32 cap (sub32 (add32 idx 1) (add32 f cap AND 0xffff))) b
         else Some b)"

text \<open>The packet goes into its slot; the result is what was there.\<close>

definition pb_put :: "nat \<Rightarrow> 'a option \<Rightarrow> 'a packet_buffer \<Rightarrow> ('a option \<times> 'a packet_buffer) option" where
  "pb_put idx value b =
     Option.bind (if pb_capacity b = 0 then pb_reserve 16 b else Some b) (\<lambda>b1.
       let k = idx AND (pb_capacity b1 - 1);
           old_value = pb_storage b1 ! k;
           b2 = b1\<lparr>pb_storage := (pb_storage b1)[k := value]\<rparr>;
           b3 = (if pb_size b2 = 0 then b2\<lparr>pb_first := idx\<rparr> else b2);
           b4 = (if old_value = None then b3\<lparr>pb_size := pb_size b3 + 1\<rparr> else b3)
       in Some (old_value, b4))"

definition pb_insert :: "nat \<Rightarrow> 'a option \<Rightarrow> 'a packet_buffer \<Rightarrow> ('a option \<times> 'a packet_buffer) option" where
  "pb_insert idx value b =
     (if value = None then Some (pb_remove idx b)
      else if pb_size b \<noteq> 0 then
        Option.bind (pb_make_room idx b) (\<lambda>b1.
          pb_put idx value (if compare_less_wrap (pb_last b1) (add32 idx 1 AND 0xffff) 0xffff
            then b1\<lparr>pb_last := add32 idx 1 AND 0xffff\<rparr> else b1))
      else pb_put idx value (b\<lparr>pb_first := idx, pb_last := add32 idx 1 AND 0xffff\<rparr>))"

section \<open>Arithmetic of sequence numbers\<close>

text \<open>The distance from one sequence number up to another.\<close>

definition off :: "nat \<Rightarrow> nat \<Rightarrow> nat" where
  "off f i = (i + 65536 - f) mod 65536"

lemma off_if: "f < 65536 \<Longrightarrow> i < 65536 \<Longrightarrow> off f i = (if f \<le> i then i - f else i + 65536 - f)"
  by (auto simp: off_def) (metis Nat.add_diff_assoc2 add.commute mod_add_self1 mod_less less_imp_diff_less)

lemma off_lt [simp]: "off f i < 65536"
  by (simp add: off_def)

lemma off_self [simp]: "off f f = 0"
  by (simp add: off_def)

lemma and_mask: "x AND (2 ^ k - 1) = x mod 2 ^ k" for x :: nat
  by (metis take_bit_eq_mask take_bit_eq_mod mask_eq_exp_minus_1)

lemma and_ffff: "x AND 65535 = x mod 65536" for x :: nat
  using and_mask [of x 16] by simp

lemma sub32_off: "a < 65536 \<Longrightarrow> b < 65536 \<Longrightarrow> sub32 a b AND 0xffff = off b a"
proof -
  assume "a < 65536" "b < 65536"
  have "(a + 4294967296 - b) mod 4294967296 mod 65536 = (a + 4294967296 - b) mod 65536" by (rule mod_mod_cancel) simp
  moreover have "a + 4294967296 - b = (a + 65536 - b) + 65535 * 65536" using \<open>b < 65536\<close> by simp
  then have "(a + 4294967296 - b) mod 65536 = (a + 65536 - b) mod 65536" by (metis mod_mult_self1)
  ultimately show ?thesis by (simp add: and_ffff sub32_def off_def)
qed

lemma less_wrap_off:
  assumes "a < 65536" "b < 65536"
  shows "compare_less_wrap a b 65535 \<longleftrightarrow> 32768 < off b a"
  using assms sub32_off [OF assms] sub32_off [OF assms(2,1)] unfolding compare_less_wrap_def Let_def by (auto simp: off_if)

lemma next_seq: "i < 65536 \<Longrightarrow> add32 i 1 AND 65535 = (i + 1) mod 65536"
  by (simp add: add32_def and_ffff)

lemma add32_lt: "a + b < 4294967296 \<Longrightarrow> add32 a b = a + b"
  by (simp add: add32_def)

lemma sub32_le: "b \<le> a \<Longrightarrow> a < 4294967296 \<Longrightarrow> sub32 a b = a - b"
proof -
  assume "b \<le> a" "a < 4294967296"
  then have "a + 2 ^ 32 - b = (a - b) + 2 ^ 32" by linarith
  moreover have "((a - b) + 2 ^ 32) mod 2 ^ 32 = (a - b) mod 2 ^ 32" by (rule mod_add_self2)
  moreover have "(a - b) mod 2 ^ 32 = a - b" using \<open>a < 4294967296\<close> by (intro mod_less) simp
  ultimately show ?thesis unfolding sub32_def by metis
qed

text \<open>The sequence number at a distance.\<close>

lemma off_add: "f < 65536 \<Longrightarrow> d < 65536 \<Longrightarrow> off f ((f + d) mod 65536) = d"
  by (cases "f + d < 65536") (auto simp: off_if mod_if)

lemma add_off: "f < 65536 \<Longrightarrow> i < 65536 \<Longrightarrow> (f + off f i) mod 65536 = i"
  by (simp add: off_if mod_if)

section \<open>Capacities\<close>

definition cap_ok :: "nat \<Rightarrow> bool" where
  "cap_ok c \<longleftrightarrow> c \<in> (\<lambda>k. 2 ^ k) ` {4..15}"

lemma cap_okE:
  assumes "cap_ok c"
  obtains k where "4 \<le> k" "k \<le> 15" "c = 2 ^ k"
  using assms by (auto simp: cap_ok_def)

lemma cap_ok_facts:
  assumes "cap_ok c"
  shows "0 < c" "c \<le> 32768" "16 \<le> c" "c dvd 65536" "c dvd 4294967296"
proof -
  obtain k where k: "4 \<le> k" "k \<le> 15" "c = 2 ^ k" using cap_okE [OF assms] .
  have p: "(2 :: nat) ^ a dvd 2 ^ b" if "a \<le> b" for a b using that by (rule le_imp_power_dvd)
  have q: "(2 :: nat) ^ a \<le> 2 ^ b" if "a \<le> b" for a b using that by simp
  show "0 < c" "c \<le> 32768" "16 \<le> c" "c dvd 65536" "c dvd 4294967296"
    using p [of k 16] p [of k 32] q [of k 15] q [of 4 k] k by simp_all
qed

lemma and_cap: "cap_ok c \<Longrightarrow> x AND (c - Suc 0) = x mod c"
  using and_mask by (auto elim!: cap_okE)

lemma grow_ok:
  assumes "cap_ok n" "sz \<le> 32768"
  obtains m where "grow n sz = Some m" "cap_ok m" "n \<le> m" "sz \<le> m"
proof -
  have "\<exists>m. grow n sz = Some m \<and> cap_ok m \<and> n \<le> m \<and> sz \<le> m"
    using assms(1)
  proof (induction "32768 - n" arbitrary: n rule: less_induct)
    case less
    show ?case
    proof (cases "n < sz")
      case True
      obtain k where k: "4 \<le> k" "k \<le> 15" "n = 2 ^ k" using cap_okE [OF less.prems] .
      have "k \<noteq> 15" using True assms(2) k(3) by auto
      then have c: "cap_ok (2 * n)" using k by (auto simp: cap_ok_def image_iff intro!: bexI [of _ "Suc k"])
      have "2 * n mod 2 ^ 32 = 2 * n" "32768 - 2 * n < 32768 - n" using cap_ok_facts(1,2) [OF c] cap_ok_facts(1) [OF less.prems] by auto
      moreover from this less.hyps [OF _ c] obtain m where "grow (2 * n) sz = Some m \<and> cap_ok m \<and> 2 * n \<le> m \<and> sz \<le> m" by blast
      ultimately show ?thesis using True grow.simps [of n sz] by auto
    next
      case False
      then show ?thesis using less.prems grow.simps [of n sz] by auto
    qed
  qed
  then show thesis using that by blast
qed

section \<open>The window\<close>

text \<open>The packets of a buffer by their index: those of the slots, seen from the first index.\<close>

definition win :: "nat \<Rightarrow> nat \<Rightarrow> 'a option list \<Rightarrow> nat \<Rightarrow> 'a option" where
  "win f c st i = (if i < 65536 \<and> off f i < c then st ! (i mod c) else None)"

definition packets :: "'a packet_buffer \<Rightarrow> nat \<Rightarrow> 'a option" where
  "packets b = win (pb_first b) (pb_capacity b) (pb_storage b)"

lemma slot_inj:
  assumes c: "cap_ok c" and f: "f < 65536" and i: "i < 65536" "j < 65536" "off f i < c" "off f j < c" and m: "i mod c = j mod c"
  shows "i = j"
proof -
  have "(f + off f x) mod c = x mod c" if "x < 65536" for x
    using add_off [OF f that] mod_mod_cancel [OF cap_ok_facts(4) [OF c], of "f + off f x"] by simp
  then have "(f + off f i) mod c = (f + off f j) mod c" using i m by simp
  then have "off f i = off f j"
  proof -
    have eq: "x = y" if "x \<le> y" "y < c" "(f + x) mod c = (f + y) mod c" for x y
    proof -
      have "c dvd y - x" using that(1,3) mod_eq_dvd_iff_nat [of "f + x" "f + y" c] by (metis add_diff_cancel_left add_left_mono)
      then show ?thesis using that(1,2) by (auto dest: dvd_imp_le)
    qed
    assume m: "(f + off f i) mod c = (f + off f j) mod c"
    show ?thesis using eq [OF _ i(4) m] eq [OF _ i(3) m [symmetric]] by linarith
  qed
  then show ?thesis using add_off [OF f] i by metis
qed

lemma slot_surj:
  assumes c: "cap_ok c" and f: "f < 65536"
  obtains j where "j < 65536" "off f j < c" "j mod c = i mod c"
proof
  let ?d = "(i + c - f mod c) mod c"
  have d: "?d < c" "?d < 65536" using cap_ok_facts(1,2) [OF c] by (simp_all add: less_le_trans [OF mod_less_divisor])
  show "(f + ?d) mod 65536 < 65536" by simp
  show "off f ((f + ?d) mod 65536) < c" using off_add [OF f d(2)] d(1) by simp
  have "(f + ?d) mod 65536 mod c = (f + ?d) mod c" by (rule mod_mod_cancel [OF cap_ok_facts(4) [OF c]])
  also have "\<dots> = (f mod c + (i + c - f mod c)) mod c" by (metis mod_add_eq mod_mod_trivial)
  also have "f mod c + (i + c - f mod c) = i + c" using mod_less_divisor [OF cap_ok_facts(1) [OF c], of f] by simp
  finally show "(f + ?d) mod 65536 mod c = i mod c" by simp
qed

text \<open>Another first index shows the same packets when they are all in its window.\<close>

lemma win_rebase:
  assumes c: "cap_ok c" and f: "f < 65536" "g < 65536" and d: "\<And>i. win f c st i \<noteq> None \<Longrightarrow> off g i < c"
  shows "win g c st = win f c st"
proof
  fix i
  show "win g c st i = win f c st i"
  proof (cases "i < 65536 \<and> off g i < c \<and> st ! (i mod c) \<noteq> None")
    case True
    obtain j where j: "j < 65536" "off f j < c" "j mod c = i mod c" using slot_surj [OF c f(1)] by blast
    then have "off g j < c" using d [of j] True by (simp add: win_def)
    then have "j = i" using slot_inj [OF c f(2) j(1) _ _ _ j(3)] True by blast
    then show ?thesis using True j by (simp add: win_def)
  next
    case False
    then show ?thesis using d [of i] by (cases "st ! (i mod c)") (auto simp: win_def split: if_splits)
  qed
qed

section \<open>Growing\<close>

lemma move_slots_length [simp]: "length (move_slots n i c c' old new) = length new"
  by (induction n arbitrary: i new) simp_all

lemma move_slots_other:
  assumes "cap_ok c'"
  shows "\<forall>d < n. (i + d) mod c' \<noteq> s \<Longrightarrow> move_slots n i c c' old new ! s = new ! s"
proof (induction n arbitrary: i new)
  case (Suc n)
  have "\<forall>d < n. (i + 1 + d) mod c' \<noteq> s" using Suc.prems by (auto dest: spec [of _ "Suc _"])
  moreover have "i mod c' \<noteq> s" using Suc.prems by (auto dest: spec [of _ 0])
  ultimately show ?case using Suc.IH [of "i + 1"] by (simp add: and_cap [OF assms])
qed simp

lemma near_mod_neq: "cap_ok c \<Longrightarrow> 0 < d \<Longrightarrow> d < c \<Longrightarrow> (i + d) mod c \<noteq> i mod c"
  using mod_eq_dvd_iff_nat [of i "i + d" c] by (auto dest: dvd_imp_le)

lemma move_slots_moved:
  assumes c: "cap_ok c" "cap_ok c'"
  shows "n \<le> c' \<Longrightarrow> length new = c' \<Longrightarrow> d < n \<Longrightarrow> move_slots n i c c' old new ! ((i + d) mod c') = old ! ((i + d) mod c)"
proof (induction n arbitrary: i new d)
  case (Suc n)
  show ?case
  proof (cases d)
    case 0
    have "\<forall>e < n. (i + 1 + e) mod c' \<noteq> i mod c'"
      using near_mod_neq [OF c(2), of "1 + _" i] Suc.prems(1) by (simp add: algebra_simps)
    then show ?thesis using 0 Suc.prems cap_ok_facts(1) [OF c(2)]
      by (simp add: and_cap [OF c(1)] and_cap [OF c(2)] move_slots_other [OF c(2)])
  next
    case (Suc e)
    then show ?thesis using Suc.IH [of _ e "i + 1"] Suc.prems by simp
  qed
qed simp

lemma reserve_win:
  assumes c: "cap_ok c" "cap_ok c'" "c \<le> c'" and f: "f < 65536" and st: "length st = c"
  shows "win f c' (move_slots c f c c' st (replicate c' None)) = win f c st"
proof
  fix i
  let ?new = "move_slots c f c c' st (replicate c' None)"
  show "win f c' ?new i = win f c st i"
  proof (cases "i < 65536 \<and> off f i < c'")
    case True
    then have i: "(f + off f i) mod c' = i mod c'" "(f + off f i) mod c = i mod c"
      using add_off [OF f, of i] mod_mod_cancel [OF cap_ok_facts(4) [OF c(2)], of "f + off f i"]
        mod_mod_cancel [OF cap_ok_facts(4) [OF c(1)], of "f + off f i"] by simp_all
    show ?thesis
    proof (cases "off f i < c")
      case in_old: True
      then show ?thesis using True i move_slots_moved [OF c(1,2,3) length_replicate in_old, of f st None] by (simp add: win_def)
    next
      case False
      have "\<forall>d < c. (f + d) mod c' \<noteq> i mod c'"
      proof (intro allI impI)
        fix d assume d: "d < c"
        have "(f + d + (off f i - d)) mod c' \<noteq> (f + d) mod c'" using False True d by (intro near_mod_neq [OF c(2)]) auto
        then show "(f + d) mod c' \<noteq> i mod c'" using i(1) False d by simp
      qed
      then show ?thesis using False True cap_ok_facts(1) [OF c(2)] by (simp add: win_def move_slots_other [OF c(2)])
    qed
  next
    case False
    then show ?thesis using c(3) by (auto simp: win_def)
  qed
qed

text \<open>What the operations leave of a buffer: its packets, its size and its ends.\<close>

definition same_packets :: "'a packet_buffer \<Rightarrow> 'a packet_buffer \<Rightarrow> bool" where
  "same_packets b b' \<longleftrightarrow> packets b' = packets b \<and> pb_size b' = pb_size b \<and> pb_last b' = pb_last b
     \<and> cap_ok (pb_capacity b') \<and> length (pb_storage b') = pb_capacity b'"

lemma reserve_ok:
  assumes c: "cap_ok (pb_capacity b)" "length (pb_storage b) = pb_capacity b" and f: "pb_first b < 65536" and sz: "sz \<le> 32768"
  obtains b' where "pb_reserve sz b = Some b'" "same_packets b b'" "pb_first b' = pb_first b" "pb_capacity b \<le> pb_capacity b'" "sz \<le> pb_capacity b'"
proof -
  obtain m where m: "grow (pb_capacity b) sz = Some m" "cap_ok m" "pb_capacity b \<le> m" "sz \<le> m" using grow_ok [OF c(1) sz] .
  show thesis
    by (rule that [of "b\<lparr>pb_storage := move_slots (pb_capacity b) (pb_first b) (pb_capacity b) m (pb_storage b) (replicate m None), pb_capacity := m\<rparr>"])
      (use m c f cap_ok_facts(1) [OF c(1)] in \<open>simp_all add: pb_reserve_def same_packets_def packets_def reserve_win\<close>)
qed

text \<open>The free slots before the first index hold no packet.\<close>

lemma free_space_le: "free_space n i c st \<le> n"
  by (induction n arbitrary: i) simp_all

lemma sub32_mod:
  assumes "cap_ok c"
  shows "sub32 x 1 mod c = (x + (c - 1)) mod c"
proof -
  obtain q where q: "4294967296 = c * q" using cap_ok_facts(5) [OF assms] by (rule dvdE)
  then have "0 < q" by (cases q) auto
  then have "4294967295 = c * (q - 1) + (c - 1)" using q cap_ok_facts(1) [OF assms] by (cases q) (auto simp: algebra_simps)
  then have "(x + 4294967295) mod c = (x + (c - 1)) mod c" by (metis add.left_commute mod_mult_self4 mult.commute)
  moreover have "sub32 x 1 mod c = (x + 4294967295) mod c"
    using mod_mod_cancel [OF cap_ok_facts(5) [OF assms], of "x + 4294967295"] by (simp add: sub32_def add.commute)
  ultimately show ?thesis by simp
qed

lemma sub32_slot:
  assumes "cap_ok c" "0 < y"
  shows "sub32 (y mod c) 1 AND (c - Suc 0) = (y - 1) mod c"
proof -
  have "sub32 (y mod c) 1 mod c = (y + (c - 1)) mod c" using sub32_mod [OF assms(1)] by (simp add: mod_add_left_eq)
  also have "y + (c - 1) = (y - 1) + c" using assms(2) cap_ok_facts(1) [OF assms(1)] by simp
  finally show ?thesis by (simp add: and_cap [OF assms(1)])
qed

lemma free_space_free:
  assumes "cap_ok c"
  shows "n \<le> y \<Longrightarrow> e < free_space n (y mod c) c st \<Longrightarrow> st ! ((y - e) mod c) = None"
proof (induction n arbitrary: y e)
  case (Suc n)
  show ?case
  proof (cases e)
    case 0
    then show ?thesis using Suc.prems by (auto split: if_splits)
  next
    case (Suc e')
    then show ?thesis using Suc.prems Suc.IH [of "y - 1" e'] sub32_slot [OF assms, of y] by (auto split: if_splits)
  qed
qed simp

lemma free_space_window:
  assumes c: "cap_ok c" and f: "f < 65536" and w: "win f c st i \<noteq> None"
  shows "off f i + free_space (c - 1) (sub32 f 1 AND (c - Suc 0)) c st < c"
proof (rule ccontr)
  have p: "0 < c" using cap_ok_facts [OF c] by simp
  let ?free = "free_space (c - 1) ((f + c - 1) mod c) c st"
  have eq: "sub32 f 1 AND (c - Suc 0) = (f + c - 1) mod c" using sub32_mod [OF c] p by (simp add: and_cap [OF c])
  have i: "i < 65536" "off f i < c" "st ! (i mod c) \<noteq> None" using w by (auto simp: win_def split: if_splits)
  assume "\<not> off f i + free_space (c - 1) (sub32 f 1 AND (c - Suc 0)) c st < c"
  then have "c - 1 - off f i < ?free" using eq i(2) by simp
  then have "st ! ((f + c - 1 - (c - 1 - off f i)) mod c) = None" using p by (intro free_space_free [OF c]) auto
  moreover have "f + c - 1 - (c - 1 - off f i) = f + off f i" using i(2) by simp
  moreover have "(f + off f i) mod c = i mod c"
    using add_off [OF f i(1)] mod_mod_cancel [OF cap_ok_facts(4) [OF c], of "f + off f i"] by simp
  ultimately show False using i(3) by simp
qed

section \<open>The buffer as a map\<close>

text \<open>
  The invariant: a capacity that is a power of two, the size the number of packets, the first index
  that of a packet, the last one past that of a packet, and every packet between the two.
\<close>

definition pb_ok :: "'a packet_buffer \<Rightarrow> bool" where
  "pb_ok b \<longleftrightarrow>
     (if pb_capacity b = 0 then b = new_packet_buffer
      else cap_ok (pb_capacity b) \<and> length (pb_storage b) = pb_capacity b \<and> pb_first b < 65536 \<and> pb_last b < 65536
        \<and> pb_size b = int (card (dom (packets b)))
        \<and> (pb_size b \<noteq> 0 \<longrightarrow> packets b (pb_first b) \<noteq> None \<and> packets b ((pb_last b + 65535) mod 65536) \<noteq> None
            \<and> (\<forall>i \<in> dom (packets b). off (pb_first b) i < off (pb_first b) (pb_last b))))"

text \<open>
  Indices the buffer can tell from others: not one past the end of the window whose number is below
  the first index because it wrapped around.
\<close>

definition distinct_idx :: "nat \<Rightarrow> 'a packet_buffer \<Rightarrow> bool" where
  "distinct_idx i b \<longleftrightarrow> i < 65536 \<and> (i < pb_first b \<and> off (pb_first b) i \<le> 32768 \<longrightarrow> off (pb_first b) i < pb_capacity b)"

text \<open>
  Indices \<open>insert\<close> can make room for: the window stays within half of the numbers, and a number that
  wrapped around comes after a window that wraps around too.
\<close>

definition insertable :: "nat \<Rightarrow> 'a packet_buffer \<Rightarrow> bool" where
  "insertable i b \<longleftrightarrow> i < 65536
     \<and> (pb_size b \<noteq> 0 \<longrightarrow>
          (if 32768 < off (pb_first b) i then off i (pb_first b) + pb_capacity b \<le> 32768
           else off (pb_first b) i < 32768 \<and> (i < pb_first b \<longrightarrow> 65536 \<le> pb_first b + pb_capacity b)))"

lemma packets_win: "packets b i \<noteq> None \<Longrightarrow> i < 65536 \<and> off (pb_first b) i < pb_capacity b"
  by (auto simp: packets_def win_def split: if_splits)

lemma packets_finite [simp]: "finite (dom (packets b))"
proof (rule finite_subset)
  show "dom (packets b) \<subseteq> {..<65536}" using packets_win by (metis domIff lessThan_iff subsetI)
qed (rule finite_lessThan)

lemma pb_okD:
  assumes "pb_ok b" "pb_capacity b \<noteq> 0"
  shows "cap_ok (pb_capacity b)" "length (pb_storage b) = pb_capacity b" "pb_first b < 65536" "pb_last b < 65536"
    "pb_size b = int (card (dom (packets b)))" "pb_size b \<noteq> 0 \<Longrightarrow> packets b (pb_first b) \<noteq> None"
    "pb_size b \<noteq> 0 \<Longrightarrow> packets b ((pb_last b + 65535) mod 65536) \<noteq> None"
    "pb_size b \<noteq> 0 \<Longrightarrow> packets b i \<noteq> None \<Longrightarrow> off (pb_first b) i < off (pb_first b) (pb_last b)"
  using assms unfolding pb_ok_def by (simp_all add: dom_def)

lemma pb_ok_bounds:
  assumes "pb_ok b"
  shows "pb_first b < 65536" "pb_capacity b \<le> 32768" "add32 (pb_first b) (pb_capacity b) = pb_first b + pb_capacity b"
proof -
  show f: "pb_first b < 65536" and c: "pb_capacity b \<le> 32768"
    using assms cap_ok_facts(2) [OF pb_okD(1) [OF assms]] pb_okD(3) [OF assms] by (cases "pb_capacity b = 0"; auto simp: pb_ok_def new_packet_buffer_def)+
  show "add32 (pb_first b) (pb_capacity b) = pb_first b + pb_capacity b" using f c by (simp add: add32_def)
qed

text \<open>The two guards of \<open>at\<close> and \<open>remove\<close>.\<close>

lemma outside:
  assumes ok: "pb_ok b" and i: "distinct_idx i b"
  shows "add32 (pb_first b) (pb_capacity b) \<le> i \<or> compare_less_wrap i (pb_first b) 0xffff \<longleftrightarrow> \<not> off (pb_first b) i < pb_capacity b"
proof -
  note k = pb_ok_bounds [OF ok]
  have "i < 65536" using i by (simp add: distinct_idx_def)
  then show ?thesis using i k less_wrap_off [of i "pb_first b"] by (auto simp: distinct_idx_def off_if split: if_splits)
qed

lemma at_packets:
  assumes ok: "pb_ok b" and i: "distinct_idx i b"
  shows "pb_at i b = packets b i"
proof (cases "off (pb_first b) i < pb_capacity b")
  case True
  then have c: "cap_ok (pb_capacity b)" using pb_okD(1) [OF ok] by auto
  have "\<not> (add32 (pb_first b) (pb_capacity b) \<le> i \<or> compare_less_wrap i (pb_first b) 0xffff)" using True outside [OF ok i] by blast
  then show ?thesis using True i by (simp add: pb_at_def packets_def win_def and_cap [OF c] distinct_idx_def)
next
  case False
  then have "add32 (pb_first b) (pb_capacity b) \<le> i \<or> compare_less_wrap i (pb_first b) 0xffff" using outside [OF ok i] by blast
  then show ?thesis using False by (auto simp: pb_at_def packets_def win_def)
qed

lemma span_window:
  assumes ok: "pb_ok b" and n: "pb_size b \<noteq> 0"
  shows "1 \<le> off (pb_first b) (pb_last b)" "off (pb_first b) (pb_last b) \<le> pb_capacity b"
proof -
  have c: "pb_capacity b \<noteq> 0" using ok n by (auto simp: pb_ok_def new_packet_buffer_def split: if_splits)
  note d = pb_okD [OF ok c]
  show one: "1 \<le> off (pb_first b) (pb_last b)" using d(8) [OF n d(6) [OF n]] by simp
  have "off (pb_first b) ((pb_last b + 65535) mod 65536) < pb_capacity b" using packets_win [OF d(7) [OF n]] by simp
  then show "off (pb_first b) (pb_last b) \<le> pb_capacity b"
    using one d(3,4) by (cases "pb_last b") (auto simp: off_if mod_if split: if_splits)
qed

lemma make_room_ok:
  assumes ok: "pb_ok b" and n: "pb_size b \<noteq> 0" and i: "insertable i b"
  obtains b' where "pb_make_room i b = Some b'" "same_packets b b'"
    "pb_first b' = (if 32768 < off (pb_first b) i then i else pb_first b)" "off (pb_first b') i < pb_capacity b'"
proof -
  have c0: "pb_capacity b \<noteq> 0" using ok n by (auto simp: pb_ok_def new_packet_buffer_def split: if_splits)
  note d = pb_okD [OF ok c0] and k = pb_ok_bounds [OF ok]
  have il: "i < 65536" using i by (simp add: insertable_def)
  have same: "same_packets b b" using d by (simp add: same_packets_def)
  note less = less_wrap_off [OF il d(3)]
  show thesis
  proof (cases "32768 < off (pb_first b) i")
    case True
    let ?free = "free_space (pb_capacity b - 1) (sub32 (pb_first b) 1 AND (pb_capacity b - 1)) (pb_capacity b) (pb_storage b)"
    have dist: "off i (pb_first b) + pb_capacity b \<le> 32768" using i n True by (simp add: insertable_def)
    have free: "?free \<le> pb_capacity b" using free_space_le [of "pb_capacity b - 1"] by (meson diff_le_self order_trans)
    obtain b1 where b1: "(if ?free < off i (pb_first b) then pb_reserve (sub32 (add32 (off i (pb_first b)) (pb_capacity b)) ?free) b else Some b) = Some b1"
        "same_packets b b1" "pb_first b1 = pb_first b" "off i (pb_first b) + pb_capacity b - ?free \<le> pb_capacity b1"
    proof (cases "?free < off i (pb_first b)")
      case True
      have "sub32 (add32 (off i (pb_first b)) (pb_capacity b)) ?free = off i (pb_first b) + pb_capacity b - ?free"
        using dist free by (simp add: add32_lt sub32_le)
      moreover obtain b1 where "pb_reserve (off i (pb_first b) + pb_capacity b - ?free) b = Some b1" "same_packets b b1"
          "pb_first b1 = pb_first b" "off i (pb_first b) + pb_capacity b - ?free \<le> pb_capacity b1"
        by (rule reserve_ok [OF d(1,2,3), of "off i (pb_first b) + pb_capacity b - ?free"]) (use dist in linarith)
      ultimately show thesis using that True by simp
    next
      case False
      then show thesis using that same by simp
    qed
    have dsum: "off i j = off i (pb_first b) + off (pb_first b) j" if "packets b j \<noteq> None" for j
      using packets_win [OF that] dist il d(3) by (auto simp: off_if split: if_splits)
    have in_win: "off i j < pb_capacity b1" if "packets b1 j \<noteq> None" for j
    proof -
      have "packets b j \<noteq> None" using that b1(2) by (simp add: same_packets_def)
      then show ?thesis using dsum b1(4) free_space_window [OF d(1,3), of "pb_storage b" j] by (force simp: packets_def)
    qed
    have "packets (b1\<lparr>pb_first := i\<rparr>) = packets b1"
      using win_rebase [of "pb_capacity b1" "pb_first b1" i "pb_storage b1"] in_win b1(2,3) d(3) il
      by (simp add: packets_def same_packets_def)
    then have "same_packets b (b1\<lparr>pb_first := i\<rparr>)" using b1(2) by (simp add: same_packets_def packets_def)
    moreover have "pb_make_room i b = Some (b1\<lparr>pb_first := i\<rparr>)"
    proof -
      have cmp: "compare_less_wrap i (pb_first b) 65535" using True less by blast
      show ?thesis unfolding pb_make_room_def Let_def if_P [OF cmp] sub32_off [OF d(3) il] b1(1) by simp
    qed
    moreover have "0 < pb_capacity b1" using b1(2) cap_ok_facts(1) by (auto simp: same_packets_def)
    ultimately show thesis using that True by simp
  next
    case False
    have o: "off (pb_first b) i < 32768" "i < pb_first b \<Longrightarrow> 65536 \<le> pb_first b + pb_capacity b" using i n False by (simp_all add: insertable_def)
    show thesis
    proof (cases "off (pb_first b) i < pb_capacity b")
      case True
      then have "pb_make_room i b = Some b" using False less k o il
        by (auto simp: pb_make_room_def Let_def off_if and_ffff mod_if split: if_splits)
      then show thesis using that same False True by simp
    next
      case far: False
      have "pb_make_room i b = pb_reserve (off (pb_first b) i + 1) b"
      proof (cases "i < pb_first b")
        case True
        have "(pb_first b + pb_capacity b) AND 65535 = pb_first b + pb_capacity b - 65536" using o(2) [OF True] k by (simp add: and_ffff mod_if)
        moreover have "add32 (pb_capacity b) (sub32 (add32 i 1) (pb_first b + pb_capacity b - 65536)) = off (pb_first b) i + 1"
          using True o k il far by (simp add: add32_lt sub32_le off_if)
        ultimately show ?thesis using True far False less k o il by (auto simp: pb_make_room_def Let_def off_if)
      next
        case ge: False
        then have "add32 (sub32 i (pb_first b)) 1 = off (pb_first b) i + 1" using il k by (simp add: add32_lt sub32_le off_if)
        then show ?thesis using ge far False less k o il by (auto simp: pb_make_room_def Let_def off_if)
      qed
      moreover obtain b1 where "pb_reserve (off (pb_first b) i + 1) b = Some b1" "same_packets b b1"
          "pb_first b1 = pb_first b" "off (pb_first b) i + 1 \<le> pb_capacity b1"
        using reserve_ok [OF d(1,2,3), of "off (pb_first b) i + 1"] o(1) by auto
      ultimately show thesis using that False by simp
    qed
  qed
qed

lemma win_store:
  assumes c: "cap_ok c" "length st = c" and f: "f < 65536" and i: "i < 65536" "off f i < c"
  shows "win f c (st[i mod c := v]) = (win f c st)(i := v)" "win f c st i = st ! (i mod c)"
proof -
  show "win f c (st[i mod c := v]) = (win f c st)(i := v)"
  proof
    fix j
    have "i mod c = j mod c \<longleftrightarrow> i = j" if "j < 65536" "off f j < c" using slot_inj [OF c(1) f i(1) that(1) i(2) that(2)] by auto
    then show "win f c (st[i mod c := v]) j = ((win f c st)(i := v)) j"
      using i c cap_ok_facts(1) [OF c(1)] by (auto simp: win_def nth_list_update)
  qed
qed (use i in \<open>simp add: win_def\<close>)

definition pb_store :: "nat \<Rightarrow> 'a option \<Rightarrow> 'a packet_buffer \<Rightarrow> 'a packet_buffer" where
  "pb_store i value b = b\<lparr>pb_storage := (pb_storage b)[i mod pb_capacity b := value]\<rparr>"

lemma store_packets:
  assumes "cap_ok (pb_capacity b)" "length (pb_storage b) = pb_capacity b" "pb_first b < 65536" "i < 65536" "off (pb_first b) i < pb_capacity b"
  shows "packets (pb_store i v b) = (packets b)(i := v)" "pb_storage b ! (i mod pb_capacity b) = packets b i"
  using win_store [OF assms] by (simp_all add: packets_def pb_store_def)

lemma put_eq:
  assumes b: "cap_ok (pb_capacity b)" "length (pb_storage b) = pb_capacity b" "pb_first b < 65536"
    and i: "i < 65536" "off (pb_first b) i < pb_capacity b" and e: "pb_size b = 0 \<Longrightarrow> pb_first b = i"
  shows "pb_put i v b = Some (packets b i, (pb_store i v b)\<lparr>pb_size := (if packets b i = None then pb_size b + 1 else pb_size b)\<rparr>)"
proof -
  have c: "pb_capacity b \<noteq> 0" using cap_ok_facts(1) [OF b(1)] by simp
  show ?thesis using c store_packets(2) [OF b i] e by (cases "pb_size b = 0") (auto simp: pb_put_def and_cap [OF b(1)] pb_store_def Let_def)
qed

text \<open>The end of \<open>insert\<close>: the packet is stored and counted.\<close>

lemma insert_last_ok:
  assumes b: "cap_ok (pb_capacity b)" "length (pb_storage b) = pb_capacity b" "pb_first b < 65536" "pb_last b < 65536"
      "pb_size b = int (card (dom (packets b)))"
    and i: "i < 65536" "off (pb_first b) i < pb_capacity b"
    and first: "packets b (pb_first b) \<noteq> None \<or> pb_first b = i"
    and last: "packets b ((pb_last b + 65535) mod 65536) \<noteq> None \<or> (pb_last b + 65535) mod 65536 = i"
    and span: "\<And>j. packets b j \<noteq> None \<or> j = i \<Longrightarrow> off (pb_first b) j < off (pb_first b) (pb_last b)"
    and b': "b' = (pb_store i (Some v) b)\<lparr>pb_size := (if packets b i = None then pb_size b + 1 else pb_size b)\<rparr>"
  shows "pb_ok b' \<and> packets b' = (packets b)(i \<mapsto> v)"
proof -
  have p: "packets b' = (packets b)(i \<mapsto> v)" using store_packets(1) [OF b(1-3) i, of "Some v"] by (simp add: b' packets_def)
  have "card (insert i (dom (packets b))) = (if packets b i = None then card (dom (packets b)) + 1 else card (dom (packets b)))"
    by (simp add: card_insert_if domIff)
  then have size: "pb_size b' = int (card (dom (packets b')))" unfolding p dom_fun_upd by (simp add: b' b(5))
  have fields: "pb_capacity b' = pb_capacity b" "length (pb_storage b') = pb_capacity b" "pb_first b' = pb_first b" "pb_last b' = pb_last b"
    by (simp_all add: b' pb_store_def b(2))
  have "pb_ok b'"
    unfolding pb_ok_def fields size p using b(1-4) first last span cap_ok_facts(1) [OF b(1)] by auto
  with p show ?thesis by blast
qed

lemma same_packets_ok:
  assumes "pb_ok b" "pb_size b \<noteq> 0" "same_packets b b'"
  shows "cap_ok (pb_capacity b')" "length (pb_storage b') = pb_capacity b'" "pb_last b' < 65536" "pb_size b' = int (card (dom (packets b')))"
proof -
  have "pb_capacity b \<noteq> 0" using assms(1,2) by (auto simp: pb_ok_def new_packet_buffer_def split: if_splits)
  then show "cap_ok (pb_capacity b')" "length (pb_storage b') = pb_capacity b'" "pb_last b' < 65536" "pb_size b' = int (card (dom (packets b')))"
    using assms(3) pb_okD(4,5) [OF assms(1)] by (simp_all add: same_packets_def)
qed

text \<open>The last index after an insertion into a buffer with packets.\<close>

lemma new_last:
  assumes f: "f < 65536" and i: "i < 65536" and l: "l < 65536" and o: "off f i < 32768" "1 \<le> off f l" "off f l \<le> 32768"
  shows "compare_less_wrap l (add32 i 1 AND 65535) 65535 \<longleftrightarrow> off f l \<le> off f i"
    "off f ((i + 1) mod 65536) = off f i + 1" "((i + 1) mod 65536 + 65535) mod 65536 = i"
proof -
  have n: "(i + 1) mod 65536 < 65536" by simp
  show n1: "off f ((i + 1) mod 65536) = off f i + 1" using f i o by (cases "i = 65535") (auto simp: off_if split: if_splits)
  show "((i + 1) mod 65536 + 65535) mod 65536 = i" using i by (cases "i = 65535") auto
  have "32768 < off ((i + 1) mod 65536) l \<longleftrightarrow> off f l \<le> off f i"
    using f l o n n1 by (auto simp: off_if split: if_splits)
  then show "compare_less_wrap l (add32 i 1 AND 65535) 65535 \<longleftrightarrow> off f l \<le> off f i" using less_wrap_off [OF l n] next_seq [OF i] by simp
qed

lemma insert_nonempty_ok:
  assumes ok: "pb_ok b" and n: "pb_size b \<noteq> 0" and ins: "insertable i b"
  shows "\<exists>b'. pb_insert i (Some v) b = Some (packets b i, b') \<and> pb_ok b' \<and> packets b' = (packets b)(i \<mapsto> v)"
proof -
  obtain b1 where r: "pb_make_room i b = Some b1" "same_packets b b1"
      "pb_first b1 = (if 32768 < off (pb_first b) i then i else pb_first b)" "off (pb_first b1) i < pb_capacity b1"
    using make_room_ok [OF ok n ins] .
  have c0: "pb_capacity b \<noteq> 0" using ok n by (auto simp: pb_ok_def new_packet_buffer_def split: if_splits)
  note d = pb_okD [OF ok c0] and s = same_packets_ok [OF ok n r(2)] and w = span_window [OF ok n]
  have il: "i < 65536" using ins by (simp add: insertable_def)
  have f1: "pb_first b1 < 65536" using r(3) il d(3) by simp
  have p1: "packets b1 = packets b" "pb_last b1 = pb_last b" "pb_size b1 = pb_size b" using r(2) by (simp_all add: same_packets_def)
  have shift: "off (pb_first b1) j = off (pb_first b1) (pb_first b) + off (pb_first b) j" if "j < 65536" "off (pb_first b) j \<le> pb_capacity b" for j
  proof (cases "32768 < off (pb_first b) i")
    case True
    then have "off i (pb_first b) + pb_capacity b \<le> 32768" using ins n by (simp add: insertable_def)
    then show ?thesis using that True r(3) il d(3) by (auto simp: off_if split: if_splits)
  qed (use r(3) in simp)
  have old: "off (pb_first b1) j < off (pb_first b1) (pb_last b)" if "packets b j \<noteq> None" for j
    using shift [of j] shift [OF d(4)] packets_win [OF that] d(8) [OF n that] w by simp
  have l1: "1 \<le> off (pb_first b1) (pb_last b)" using old [OF d(6) [OF n]] by simp
  have "off (pb_first b1) ((pb_last b + 65535) mod 65536) < pb_capacity b1" using packets_win [of b1] d(7) [OF n] p1(1) by simp
  then have l2: "off (pb_first b1) (pb_last b) \<le> pb_capacity b1"
    using l1 f1 d(4) by (cases "pb_last b") (auto simp: off_if mod_if split: if_splits)
  have o1: "off (pb_first b1) i < 32768" "off (pb_first b1) (pb_last b) \<le> 32768" using r(4) l2 cap_ok_facts(2) [OF s(1)] by auto
  note nl = new_last [OF f1 il d(4) o1(1) l1 o1(2)]
  define b2 where "b2 = (if compare_less_wrap (pb_last b1) (add32 i 1 AND 65535) 65535 then b1\<lparr>pb_last := add32 i 1 AND 65535\<rparr> else b1)"
  have b2: "pb_capacity b2 = pb_capacity b1" "pb_storage b2 = pb_storage b1" "pb_first b2 = pb_first b1" "pb_size b2 = pb_size b" "packets b2 = packets b"
      "pb_last b2 = (if off (pb_first b1) (pb_last b) \<le> off (pb_first b1) i then (i + 1) mod 65536 else pb_last b)"
    using p1 nl(1) next_seq [OF il] by (auto simp: b2_def packets_def)
  let ?b' = "(pb_store i (Some v) b2)\<lparr>pb_size := (if packets b2 i = None then pb_size b2 + 1 else pb_size b2)\<rparr>"
  have "pb_insert i (Some v) b = pb_put i (Some v) b2" using n r(1) by (simp add: pb_insert_def b2_def)
  also have "\<dots> = Some (packets b i, ?b')"
    using put_eq [of b2 i "Some v"] s(1,2) f1 il r(4) n by (simp add: b2)
  finally have "pb_insert i (Some v) b = Some (packets b i, ?b')" .
  moreover have "pb_ok ?b' \<and> packets ?b' = (packets b2)(i \<mapsto> v)"
  proof (rule insert_last_ok [of b2 i])
    show "off (pb_first b2) j < off (pb_first b2) (pb_last b2)" if "packets b2 j \<noteq> None \<or> j = i" for j
      using that old [of j] nl(2) by (auto simp: b2)
  qed (use s r(4) f1 il d(4,5,6,7) n r(3) nl(3) b2 in \<open>auto split: if_splits\<close>)
  ultimately show ?thesis using b2(5) by metis
qed

lemma insert_empty_ok:
  assumes ok: "pb_ok b" and n: "pb_size b = 0" and i: "i < 65536"
  shows "\<exists>b'. pb_insert i (Some v) b = Some (packets b i, b') \<and> pb_ok b' \<and> packets b' = (packets b)(i \<mapsto> v)"
proof -
  have none: "packets b = Map.empty"
  proof (cases "pb_capacity b = 0")
    case True
    then show ?thesis by (simp add: packets_def win_def fun_eq_iff)
  next
    case False
    then have "card (dom (packets b)) = 0" using pb_okD(5) [OF ok] n by simp
    then show ?thesis by simp
  qed
  let ?b1 = "b\<lparr>pb_first := i, pb_last := add32 i 1 AND 65535\<rparr>"
  have "\<exists>b2. pb_put i (Some v) ?b1 = pb_put i (Some v) b2 \<and> cap_ok (pb_capacity b2) \<and> length (pb_storage b2) = pb_capacity b2
      \<and> pb_first b2 = i \<and> pb_last b2 = (i + 1) mod 65536 \<and> pb_size b2 = 0 \<and> packets b2 = Map.empty"
  proof (cases "pb_capacity b = 0")
    case True
    let ?b2 = "?b1\<lparr>pb_storage := replicate 16 None, pb_capacity := 16\<rparr>"
    have "cap_ok 16" by (auto simp: cap_ok_def image_iff intro!: bexI [of _ 4])
    moreover have "pb_reserve 16 ?b1 = Some ?b2" using True by (simp add: pb_reserve_def grow.simps [of 16 16])
    then have "pb_put i (Some v) ?b1 = pb_put i (Some v) ?b2" using True by (simp add: pb_put_def)
    moreover have "packets ?b2 = Map.empty" by (auto simp: packets_def win_def)
    ultimately show ?thesis using n next_seq [OF i] by (intro exI [of _ ?b2]) simp
  next
    case False
    note d = pb_okD [OF ok False]
    have "win i (pb_capacity b) (pb_storage b) = packets b"
      unfolding packets_def by (rule win_rebase [OF d(1,3) i]) (use none in \<open>simp add: packets_def\<close>)
    then show ?thesis using d(1,2) none n next_seq [OF i] by (intro exI [of _ ?b1]) (simp add: packets_def)
  qed
  then obtain b2 where p: "pb_put i (Some v) ?b1 = pb_put i (Some v) b2" and b2: "cap_ok (pb_capacity b2)" "length (pb_storage b2) = pb_capacity b2"
      "pb_first b2 = i" "pb_last b2 = (i + 1) mod 65536" "pb_size b2 = 0" "packets b2 = Map.empty" by blast
  let ?b' = "(pb_store i (Some v) b2)\<lparr>pb_size := (if packets b2 i = None then pb_size b2 + 1 else pb_size b2)\<rparr>"
  have "pb_insert i (Some v) b = Some (packets b i, ?b')"
    using p put_eq [of b2 i "Some v"] b2 i n none cap_ok_facts(1) [OF b2(1)] by (simp add: pb_insert_def)
  moreover have "pb_ok ?b' \<and> packets ?b' = (packets b2)(i \<mapsto> v)"
  proof (rule insert_last_ok [of b2 i])
    show "off (pb_first b2) j < off (pb_first b2) (pb_last b2)" if "packets b2 j \<noteq> None \<or> j = i" for j
      using that b2 i by (cases "i = 65535") (auto simp: off_if)
    show "packets b2 ((pb_last b2 + 65535) mod 65536) \<noteq> None \<or> (pb_last b2 + 65535) mod 65536 = i"
      using b2(4) i by (cases "i = 65535") auto
  qed (use b2 i cap_ok_facts(1) [OF b2(1)] in auto)
  ultimately show ?thesis using b2(6) none by metis
qed

lemma insert_packets:
  assumes "pb_ok b" "insertable i b"
  shows "\<exists>b'. pb_insert i (Some v) b = Some (packets b i, b') \<and> pb_ok b' \<and> packets b' = (packets b)(i \<mapsto> v)"
  using insert_empty_ok [OF assms(1)] insert_nonempty_ok [OF assms(1)] assms(2) by (cases "pb_size b = 0") (auto simp: insertable_def)

section \<open>Removal\<close>

lemma bump_first_ok:
  assumes "cap_ok c"
  shows "g + n < 4294967296 \<Longrightarrow> \<exists>d \<le> n. bump_first n g c st = g + d \<and> (\<forall>e < d. st ! ((g + e) mod c) = None) \<and> (d < n \<longrightarrow> st ! ((g + d) mod c) \<noteq> None)"
proof (induction n arbitrary: g)
  case (Suc n)
  show ?case
  proof (cases "st ! (g mod c) = None")
    case True
    obtain d where d: "d \<le> n" "bump_first n (g + 1) c st = g + 1 + d" "\<forall>e < d. st ! ((g + 1 + e) mod c) = None"
        "d < n \<longrightarrow> st ! ((g + 1 + d) mod c) \<noteq> None" using Suc.IH [of "g + 1"] Suc.prems by auto
    have "\<forall>e < Suc d. st ! ((g + e) mod c) = None" using d(3) True by (auto simp: less_Suc_eq_0_disj)
    moreover have "bump_first (Suc n) g c st = g + Suc d" using d(2) True Suc.prems by (simp add: and_cap [OF assms] add32_lt)
    ultimately show ?thesis using d(1,4) by (intro exI [of _ "Suc d"]) simp
  next
    case False
    then show ?thesis by (intro exI [of _ 0]) (simp add: and_cap [OF assms])
  qed
qed simp

text \<open>The loop that moves the last index down, over the numbers \<open>y\<close> with the same slots.\<close>

lemma bump_last_ok:
  assumes c: "cap_ok c"
  shows "n \<le> y \<Longrightarrow> l < 4294967296 \<Longrightarrow> y mod 65536 = l mod 65536 \<Longrightarrow>
    \<exists>d \<le> n. bump_last n l c st mod 65536 = (y - d) mod 65536 \<and> bump_last n l c st < 4294967296
      \<and> (\<forall>e < d. st ! ((y - e) mod c) = None) \<and> (d < n \<longrightarrow> st ! ((y - d) mod c) \<noteq> None)"
proof (induction n arbitrary: y l)
  case 0
  then show ?case by simp
next
  case (Suc n)
  have slot: "l mod c = y mod c" using Suc.prems(3) mod_mod_cancel [OF cap_ok_facts(4) [OF c]] by metis
  show ?case
  proof (cases "st ! (y mod c) = None")
    case True
    have s: "sub32 l 1 mod 65536 = (y - 1) mod 65536"
    proof -
      have "sub32 l 1 mod 65536 = (l + 4294967295) mod 65536"
        using mod_mod_cancel [of 65536 4294967296 "l + 4294967295"] by (simp add: sub32_def add.commute)
      also have "l + 4294967295 = l + 65535 + 65535 * 65536" by simp
      also have "(l + 65535 + 65535 * 65536) mod 65536 = (l + 65535) mod 65536" by (rule mod_mult_self1)
      also have "\<dots> = (y + 65535) mod 65536" by (rule mod_add_cong [OF Suc.prems(3) [symmetric] refl])
      also have "y + 65535 = (y - 1) + 65536" using Suc.prems(1) by simp
      finally show ?thesis by simp
    qed
    have "sub32 l 1 < 4294967296" by (simp add: sub32_def)
    then obtain d where d: "d \<le> n" "bump_last n (sub32 l 1) c st mod 65536 = (y - 1 - d) mod 65536" "bump_last n (sub32 l 1) c st < 4294967296"
        "\<forall>e < d. st ! ((y - 1 - e) mod c) = None" "d < n \<longrightarrow> st ! ((y - 1 - d) mod c) \<noteq> None"
    proof -
      have "n \<le> y - 1" using Suc.prems(1) by simp
      from Suc.IH [OF this \<open>sub32 l 1 < 4294967296\<close> s [symmetric]] that show thesis by blast
    qed
    have "\<forall>e < Suc d. st ! ((y - e) mod c) = None" using d(4) True by (auto simp: less_Suc_eq_0_disj)
    moreover have "bump_last (Suc n) l c st = bump_last n (sub32 l 1) c st" using True slot by (simp add: and_cap [OF c])
    ultimately show ?thesis using d by (intro exI [of _ "Suc d"]) simp
  next
    case False
    then show ?thesis using Suc.prems slot by (intro exI [of _ 0]) (simp add: and_cap [OF c])
  qed
qed

text \<open>The invariant less what it says of the ends.\<close>

definition pb_mid :: "'a packet_buffer \<Rightarrow> bool" where
  "pb_mid b \<longleftrightarrow> cap_ok (pb_capacity b) \<and> length (pb_storage b) = pb_capacity b \<and> pb_first b < 65536 \<and> pb_last b < 65536
     \<and> pb_size b = int (card (dom (packets b))) \<and> pb_size b \<noteq> 0 \<and> off (pb_first b) (pb_last b) \<le> pb_capacity b
     \<and> (\<forall>i \<in> dom (packets b). off (pb_first b) i < off (pb_first b) (pb_last b))"

lemma pb_mid_ok:
  assumes "pb_mid b" "packets b (pb_first b) \<noteq> None" "packets b ((pb_last b + 65535) mod 65536) \<noteq> None"
  shows "pb_ok b"
  using assms cap_ok_facts(1) by (auto simp: pb_ok_def pb_mid_def)

lemma pb_mid_some:
  assumes "pb_mid b"
  obtains j where "packets b j \<noteq> None"
proof -
  have "card (dom (packets b)) \<noteq> 0" using assms unfolding pb_mid_def by linarith
  then have "dom (packets b) \<noteq> {}" by (metis card.empty)
  then show thesis using that by blast
qed

lemma window_slot: "cap_ok c \<Longrightarrow> f < 65536 \<Longrightarrow> i < 65536 \<Longrightarrow> (f + off f i) mod c = i mod c"
  using add_off [of f i] mod_mod_cancel [OF cap_ok_facts(4), of c "f + off f i"] by simp

lemma fix_first:
  assumes m: "pb_mid b" and e: "packets b (pb_first b) = None"
    and b': "b' = b\<lparr>pb_first := bump_first (pb_capacity b) (add32 (pb_first b) 1) (pb_capacity b) (pb_storage b) AND 65535\<rparr>"
  shows "pb_mid b' \<and> packets b' = packets b \<and> packets b (pb_first b') \<noteq> None"
proof -
  let ?c = "pb_capacity b" and ?f = "pb_first b" and ?st = "pb_storage b"
  have d: "cap_ok ?c" "length ?st = ?c" "?f < 65536" "pb_last b < 65536" "off ?f (pb_last b) \<le> ?c"
      "\<And>j. packets b j \<noteq> None \<Longrightarrow> off ?f j < off ?f (pb_last b)" using m by (auto simp: pb_mid_def)
  note k = cap_ok_facts [OF d(1)]
  have "add32 ?f 1 = ?f + 1" using d(3) by (simp add: add32_lt)
  moreover obtain p where p: "p \<le> ?c" "bump_first ?c (?f + 1) ?c ?st = ?f + 1 + p" "\<forall>e < p. ?st ! ((?f + 1 + e) mod ?c) = None"
      "p < ?c \<longrightarrow> ?st ! ((?f + 1 + p) mod ?c) \<noteq> None"
    using bump_first_ok [OF d(1), of "?f + 1" ?c ?st] d(3) k(2) by auto
  ultimately have f': "pb_first b' = (?f + (1 + p)) mod 65536" by (simp add: b' and_ffff)
  have occ: "p + 1 \<le> off ?f j" if "packets b j \<noteq> None" for j
  proof -
    have j: "j < 65536" "off ?f j < ?c" "?st ! (j mod ?c) \<noteq> None" using that by (auto simp: packets_def win_def split: if_splits)
    have "j \<noteq> ?f" using that e by auto
    then have "1 \<le> off ?f j" using j d(3) by (auto simp: off_if split: if_splits)
    moreover have "?st ! ((?f + 1 + (off ?f j - 1)) mod ?c) \<noteq> None" using calculation window_slot [OF d(1,3) j(1)] j(3) by simp
    ultimately show ?thesis using p(3) by (metis Suc_eq_plus1 add.commute le_diff_conv2 not_le plus_1_eq_Suc)
  qed
  obtain j0 where j0: "packets b j0 \<noteq> None" using pb_mid_some [OF m] .
  have pc: "1 + p < ?c" using occ [OF j0] packets_win [OF j0] by simp
  have of': "off ?f (pb_first b') = 1 + p" unfolding f' using pc k(2) by (intro off_add [OF d(3)]) simp
  have f'l: "pb_first b' < 65536" by (simp add: f')
  have shift: "off (pb_first b') j + (1 + p) = off ?f j" if "j < 65536" "1 + p \<le> off ?f j" for j
    using that of' f'l d(3) by (auto simp: off_if split: if_splits)
  have pk: "packets b' = packets b"
  proof -
    have "win (pb_first b') ?c ?st = win ?f ?c ?st"
    proof (rule win_rebase [OF d(1,3) f'l])
      fix j assume "win ?f ?c ?st j \<noteq> None"
      then have "packets b j \<noteq> None" by (simp add: packets_def)
      then show "off (pb_first b') j < ?c" using shift [of j] occ [of j] packets_win [of b j] by simp
    qed
    then show ?thesis by (simp add: packets_def b')
  qed
  have "packets b (pb_first b') \<noteq> None"
  proof -
    have "?st ! ((?f + 1 + p) mod ?c) \<noteq> None" using p(4) pc by simp
    then have "?st ! (pb_first b' mod ?c) \<noteq> None" using window_slot [OF d(1,3) f'l] of' by simp
    then show ?thesis using of' pc f'l by (simp add: packets_def win_def)
  qed
  moreover have "off (pb_first b') j < off (pb_first b') (pb_last b)" if "packets b j \<noteq> None" for j
    using shift [of j] shift [OF d(4)] occ [OF that] d(6) [OF that] packets_win [OF that] by simp
  moreover have "off (pb_first b') (pb_last b) \<le> ?c" using shift [OF d(4)] occ [OF j0] d(5) d(6) [OF j0] by simp
  ultimately have "pb_mid b'" using m pk f'l by (auto simp: pb_mid_def b')
  then show ?thesis using pk \<open>packets b (pb_first b') \<noteq> None\<close> by blast
qed

lemma fix_last:
  assumes m: "pb_mid b" and e: "packets b (pb_first b) \<noteq> None"
    and b': "b' = b\<lparr>pb_last := add32 (bump_last (pb_capacity b) (sub32 (pb_last b) 1) (pb_capacity b) (pb_storage b)) 1 AND 65535\<rparr>"
  shows "pb_mid b' \<and> packets b' = packets b \<and> packets b ((pb_last b' + 65535) mod 65536) \<noteq> None"
proof -
  let ?c = "pb_capacity b" and ?f = "pb_first b" and ?st = "pb_storage b" and ?L = "off (pb_first b) (pb_last b)"
  have d: "cap_ok ?c" "length ?st = ?c" "?f < 65536" "pb_last b < 65536" "?L \<le> ?c"
      "\<And>j. packets b j \<noteq> None \<Longrightarrow> off ?f j < ?L" using m by (auto simp: pb_mid_def)
  note k = cap_ok_facts [OF d(1)]
  have L: "1 \<le> ?L" using d(6) [OF e] by simp
  define y where "y = ?f + 65536 + (?L - 1)"
  note y = y_def
  have ym: "y mod 65536 = sub32 (pb_last b) 1 mod 65536"
  proof -
    have "sub32 (pb_last b) 1 mod 65536 = (pb_last b + 65535) mod 65536"
      using sub32_off [OF d(4), of 1] by (simp add: and_ffff off_def add.commute)
    moreover have "pb_last b = (?f + ?L) mod 65536" using add_off [OF d(3,4)] by simp
    then have "(pb_last b + 65535) mod 65536 = (?f + ?L + 65535) mod 65536" by (metis mod_add_left_eq)
    moreover have "?f + ?L + 65535 = y" using y L by simp
    ultimately show ?thesis by simp
  qed
  have "?c \<le> y" "sub32 (pb_last b) 1 < 4294967296" using y k(2) by (simp_all add: sub32_def)
  then obtain p where p: "p \<le> ?c" "bump_last ?c (sub32 (pb_last b) 1) ?c ?st mod 65536 = (y - p) mod 65536"
      "bump_last ?c (sub32 (pb_last b) 1) ?c ?st < 4294967296"
      "\<forall>e < p. ?st ! ((y - e) mod ?c) = None" "p < ?c \<longrightarrow> ?st ! ((y - p) mod ?c) \<noteq> None"
    using bump_last_ok [OF d(1) _ _ ym] by blast
  have slot: "(y - q) mod ?c = ((?f + (?L - 1 - q)) mod 65536) mod ?c" if "q \<le> ?L - 1" for q
  proof -
    have "y - q = (?f + (?L - 1 - q)) + 65536" using y that by simp
    moreover have "((?f + (?L - 1 - q)) + 65536) mod ?c = (?f + (?L - 1 - q)) mod ?c" using k(4) by (metis mod_add_right_eq dvd_imp_mod_0 add_0_right)
    ultimately show ?thesis using mod_mod_cancel [OF k(4)] by simp
  qed
  have occ: "p \<le> ?L - 1 - off ?f j" if "packets b j \<noteq> None" for j
  proof (rule ccontr)
    have j: "j < 65536" "?st ! (j mod ?c) \<noteq> None" using that by (auto simp: packets_def win_def split: if_splits)
    assume "\<not> p \<le> ?L - 1 - off ?f j"
    then have "?st ! ((y - (?L - 1 - off ?f j)) mod ?c) = None" using p(4) by simp
    moreover have "?L - 1 - (?L - 1 - off ?f j) = off ?f j" using d(6) [OF that] by simp
    ultimately show False using slot [of "?L - 1 - off ?f j"] add_off [OF d(3) j(1)] j(2) by simp
  qed
  have pl: "p \<le> ?L - 1" using occ [OF e] by simp
  let ?g = "(?f + (?L - 1 - p)) mod 65536"
  have g: "off ?f ?g = ?L - 1 - p" "?g < 65536" using d(5) k(2) by (auto intro!: off_add [OF d(3)])
  have "p < ?c" using pl L d(5) by simp
  then have "?st ! (?g mod ?c) \<noteq> None" using p(5) slot [OF pl] by simp
  then have pg: "packets b ?g \<noteq> None" using g d(5) L by (simp add: packets_def win_def)
  have last': "pb_last b' = (?g + 1) mod 65536"
  proof -
    have "pb_last b' = (bump_last ?c (sub32 (pb_last b) 1) ?c ?st + 1) mod 65536"
      using mod_mod_cancel [of 65536 4294967296 "bump_last ?c (sub32 (pb_last b) 1) ?c ?st + 1"] by (simp add: b' and_ffff add32_def)
    also have "\<dots> = (y - p + 1) mod 65536" using p(2) by (metis mod_add_left_eq)
    also have "y - p + 1 = (?f + (?L - 1 - p) + 1) + 65536" using y pl by simp
    also have "(?f + (?L - 1 - p) + 1 + 65536) mod 65536 = (?f + (?L - 1 - p) + 1) mod 65536" by (rule mod_add_self2)
    also have "\<dots> = (?g + 1) mod 65536" by (rule mod_add_left_eq [symmetric])
    finally show ?thesis .
  qed
  have gl: "(pb_last b' + 65535) mod 65536 = ?g" using g(2) last' by (cases "?g = 65535") auto
  have ol: "off ?f (pb_last b') = ?L - p"
  proof -
    have "(?g + 1) mod 65536 = (?f + (?L - 1 - p) + 1) mod 65536" by (rule mod_add_left_eq)
    also have "?f + (?L - 1 - p) + 1 = ?f + (?L - p)" using pl L by linarith
    finally have "pb_last b' = (?f + (?L - p)) mod 65536" using last' by simp
    then show ?thesis using off_add [OF d(3), of "?L - p"] d(5) k(2) by simp
  qed
  have "pb_mid b'" unfolding pb_mid_def
  proof (intro conjI ballI)
    fix j assume "j \<in> dom (packets b')"
    then have "packets b j \<noteq> None" by (auto simp: b' packets_def)
    then show "off (pb_first b') j < off (pb_first b') (pb_last b')" using ol occ [of j] d(6) [of j] by (simp add: b')
  qed (use m ol d in \<open>auto simp: b' pb_mid_def packets_def last' [unfolded b'] and_ffff\<close>)
  then show ?thesis using pg gl by (simp add: b' packets_def)
qed

lemma remove_packets:
  assumes ok: "pb_ok b" and i: "distinct_idx i b"
  shows "\<exists>b'. pb_remove i b = (packets b i, b') \<and> pb_ok b' \<and> packets b' = (packets b)(i := None)"
proof (cases "off (pb_first b) i < pb_capacity b")
  case False
  then have "add32 (pb_first b) (pb_capacity b) \<le> i \<or> compare_less_wrap i (pb_first b) 0xffff" using outside [OF ok i] by blast
  then have "pb_remove i b = (None, b)" by (auto simp: pb_remove_def)
  moreover have "packets b i = None" using False by (simp add: packets_def win_def)
  ultimately show ?thesis using ok by (simp add: fun_upd_idem)
next
  case True
  then have c0: "pb_capacity b \<noteq> 0" by simp
  note d = pb_okD [OF ok c0]
  have il: "i < 65536" using i by (simp add: distinct_idx_def)
  have inside: "\<not> add32 (pb_first b) (pb_capacity b) \<le> i" "\<not> compare_less_wrap i (pb_first b) 65535" using True outside [OF ok i] by auto
  let ?n = "pb_size b - 1"
  have pk: "packets (pb_store i None b) = (packets b)(i := None)" and slot: "pb_storage b ! (i mod pb_capacity b) = packets b i"
    using store_packets [OF d(1-3) il True] by auto
  have eq: "pb_remove i b = (packets b i, pb_next_last i (pb_next_first i
      (if packets b i \<noteq> None then (pb_store i None b)\<lparr>pb_size := ?n, pb_last := (if ?n = 0 then pb_first b else pb_last b)\<rparr> else pb_store i None b)))"
    unfolding pb_remove_def if_not_P [OF inside(1)] if_not_P [OF inside(2)] Let_def by (simp add: and_cap [OF d(1)] slot pb_store_def)
  have pred: "((i + 1) mod 65536 + 65535) mod 65536 = i" using il by (cases "i = 65535") auto
  show ?thesis
  proof (cases "packets b i = None")
    case none: True
    have "(pb_storage b)[i mod pb_capacity b := None] = pb_storage b" using none slot by (metis list_update_id)
    moreover have "\<not> (i = pb_first b \<and> pb_size b \<noteq> 0)" using none d(6) by metis
    moreover have "\<not> (add32 i 1 AND 65535 = pb_last b \<and> pb_size b \<noteq> 0)" using none d(7) pred next_seq [OF il] by metis
    ultimately have "pb_remove i b = (None, b)" unfolding eq by (auto simp: none pb_next_first_def pb_next_last_def pb_store_def)
    then show ?thesis using none ok by (simp add: fun_upd_idem)
  next
    case some: False
    have card: "?n = int (card (dom ((packets b)(i := None))))"
    proof -
      have "0 < card (dom (packets b))" using some by (auto simp: card_gt_0_iff)
      moreover have "card (dom ((packets b)(i := None))) = card (dom (packets b)) - 1" using some by (simp add: card_Diff_singleton domIff)
      ultimately show ?thesis using d(5) by simp
    qed
    show ?thesis
    proof (cases "?n = 0")
      case True
      let ?b' = "(pb_store i None b)\<lparr>pb_size := 0, pb_last := pb_first b\<rparr>"
      have "pb_remove i b = (packets b i, ?b')" unfolding eq using True some
        by (simp add: pb_next_first_def pb_next_last_def pb_store_def)
      moreover have p': "packets ?b' = (packets b)(i := None)" using pk by (simp add: packets_def)
      moreover have "pb_ok ?b'" unfolding pb_ok_def p' using d(1,2,3) c0 card True by (simp add: pb_store_def)
      ultimately show ?thesis by blast
    next
      case more: False
      then have n0: "pb_size b \<noteq> 0" using card by auto
      define b2 where "b2 = (pb_store i None b)\<lparr>pb_size := ?n\<rparr>"
      have p2: "packets b2 = (packets b)(i := None)" using pk by (simp add: b2_def packets_def)
      have m2: "pb_mid b2" using d span_window [OF ok n0] card more d(8) [OF n0] p2
        by (auto simp: pb_mid_def b2_def pb_store_def packets_def split: if_splits)
      define b3 where "b3 = pb_next_first i b2"
      have first: "pb_first b2 = pb_first b" "pb_last b2 = pb_last b" "pb_size b2 = ?n" by (simp_all add: b2_def pb_store_def)
      have m3: "pb_mid b3" "packets b3 = (packets b)(i := None)" "packets b3 (pb_first b3) \<noteq> None" "pb_last b3 = pb_last b" "pb_size b3 = ?n"
        using fix_first [OF m2 _ refl] m2 p2 first more d(6) [OF n0] by (auto simp: b3_def pb_next_first_def)
      define b4 where "b4 = pb_next_last i b3"
      have "(pb_store i None b)\<lparr>pb_size := ?n, pb_last := pb_last b\<rparr> = b2" by (simp add: b2_def pb_store_def)
      then have "pb_remove i b = (packets b i, b4)" unfolding eq b4_def b3_def using some more by simp
      moreover have "pb_ok b4 \<and> packets b4 = (packets b)(i := None)"
      proof (cases "add32 i 1 AND 65535 = pb_last b3")
        case True
        then have "b4 = b3\<lparr>pb_last := add32 (bump_last (pb_capacity b3) (sub32 (pb_last b3) 1) (pb_capacity b3) (pb_storage b3)) 1 AND 65535\<rparr>"
          using more m3(5) by (simp add: b4_def pb_next_last_def)
        note f = fix_last [OF m3(1,3) this]
        have "pb_first b4 = pb_first b3" by (simp add: b4_def pb_next_last_def)
        then show ?thesis using f m3(2,3) pb_mid_ok [of b4] by metis
      next
        case False
        then have "(pb_last b + 65535) mod 65536 \<noteq> i"
          using m3(4) d(4) next_seq [OF il] by (cases "pb_last b") auto
        then have "packets b3 ((pb_last b3 + 65535) mod 65536) \<noteq> None" using m3(2,4) d(7) [OF n0] by simp
        moreover have "b4 = b3" using False by (simp add: b4_def pb_next_last_def)
        ultimately show ?thesis using pb_mid_ok [OF m3(1,3)] m3(2) by simp
      qed
      ultimately show ?thesis by blast
    qed
  qed
qed

section \<open>The interface\<close>

text \<open>A map from sequence numbers to packets: what the socket relies on of its buffers.\<close>

locale packet_map =
  fixes ok :: "'b \<Rightarrow> bool" and content :: "'b \<Rightarrow> nat \<Rightarrow> 'a option" and can_insert :: "nat \<Rightarrow> 'b \<Rightarrow> bool" and can_tell :: "nat \<Rightarrow> 'b \<Rightarrow> bool"
    and put :: "nat \<Rightarrow> 'a \<Rightarrow> 'b \<Rightarrow> ('a option \<times> 'b) option" and look :: "nat \<Rightarrow> 'b \<Rightarrow> 'a option" and take_out :: "nat \<Rightarrow> 'b \<Rightarrow> 'a option \<times> 'b"
  assumes put_law: "ok b \<Longrightarrow> can_insert i b \<Longrightarrow> \<exists>b'. put i v b = Some (content b i, b') \<and> ok b' \<and> content b' = (content b)(i \<mapsto> v)"
    and look_law: "ok b \<Longrightarrow> can_tell i b \<Longrightarrow> look i b = content b i"
    and take_law: "ok b \<Longrightarrow> can_tell i b \<Longrightarrow> \<exists>b'. take_out i b = (content b i, b') \<and> ok b' \<and> content b' = (content b)(i := None)"
    and present_law: "ok b \<Longrightarrow> content b i \<noteq> None \<Longrightarrow> can_tell i b"
begin

text \<open>What was inserted is found, and what is taken out is gone.\<close>

lemma put_look:
  assumes "ok b" "can_insert i b"
  shows "\<exists>b'. put i v b = Some (content b i, b') \<and> ok b' \<and> look i b' = Some v \<and> (\<forall>j. j \<noteq> i \<and> content b j \<noteq> None \<longrightarrow> look j b' = content b j)"
proof -
  obtain b' where b': "put i v b = Some (content b i, b')" "ok b'" "content b' = (content b)(i \<mapsto> v)" using put_law [OF assms] by blast
  have "look j b' = content b' j" if "content b' j \<noteq> None" for j using look_law [OF b'(2) present_law [OF b'(2) that]] .
  then show ?thesis using b' by (intro exI [of _ b']) auto
qed

lemma put_take:
  assumes "ok b" "can_insert i b"
  shows "\<exists>b' b''. put i v b = Some (content b i, b') \<and> take_out i b' = (Some v, b'') \<and> ok b'' \<and> content b'' = (content b)(i := None)"
proof -
  obtain b' where b': "put i v b = Some (content b i, b')" "ok b'" "content b' = (content b)(i \<mapsto> v)" using put_law [OF assms(1,2)] by blast
  have "can_tell i b'" using present_law [OF b'(2)] b'(3) by simp
  from take_law [OF b'(2) this] obtain b'' where "take_out i b' = (Some v, b'')" "ok b''" "content b'' = (content b)(i := None)"
    using b'(3) by auto
  then show ?thesis using b'(1) by blast
qed

end

lemma present_distinct: "pb_ok b \<Longrightarrow> packets b i \<noteq> None \<Longrightarrow> distinct_idx i b"
  using packets_win [of b i] by (simp add: distinct_idx_def)

interpretation pb: packet_map pb_ok packets insertable distinct_idx "\<lambda>i v. pb_insert i (Some v)" pb_at pb_remove
  by unfold_locales (fact insert_packets at_packets remove_packets present_distinct)+

lemma new_packet_buffer_ok: "pb_ok new_packet_buffer" "packets new_packet_buffer = Map.empty" "i < 65536 \<Longrightarrow> insertable i new_packet_buffer"
  by (simp_all add: pb_ok_def packets_def win_def insertable_def new_packet_buffer_def fun_eq_iff)

end
