(* ===== verification/Bencode.thy ===== *)
theory Bencode
  imports Prelude
begin

text \<open>
  Bencoding (src/bdecode.cpp, include/libtorrent/bdecode.hpp, include/libtorrent/bencode.hpp and
  src/entry.cpp): \<open>bdecode\<close> turns a buffer into a flat list of tokens, with an explicit stack instead
  of recursion; a \<open>bdecode_node\<close> is an index into that list. A buffer is a \<^typ>\<open>string\<close>, a pointer into it a
  position.
\<close>

section \<open>Characters and integers\<close>

definition int64_max :: int where
  "int64_max = 9223372036854775807"

definition char_of_digit :: "int \<Rightarrow> char" where
  "char_of_digit d = char_of (nat (48 + d))"

definition numeric :: "char \<Rightarrow> bool" where
  "numeric c \<longleftrightarrow> 48 \<le> (of_char c :: nat) \<and> (of_char c :: nat) \<le> 57"

definition digit_of :: "char \<Rightarrow> int" where
  "digit_of c = int (of_char c) - 48"

text \<open>The slow path of \<open>integer_to_str\<close>: the digits of a negative number, with C division.\<close>

function neg_digits :: "int \<Rightarrow> string \<Rightarrow> string" where
  "neg_digits val buf =
     (let buf' = char_of_digit (- (val smod 10)) # buf; val' = val sdiv 10
      in if val' \<noteq> 0 then neg_digits val' buf' else buf')"
  by pat_completeness auto

termination
proof (relation "measure (\<lambda>(v, b). nat \<bar>v\<bar>)", goal_cases)
  case (2 val buf x xa)
  then show ?case by (auto simp: signed_divide_int_def sgn_if split: if_splits)
qed simp

declare neg_digits.simps [simp del]

text \<open>Numbers from 0 to 99999 have a path of their own, a list of divisors each.\<close>

definition pos_digits :: "int \<Rightarrow> int list \<Rightarrow> string" where
  "pos_digits val ds = map (\<lambda>d. char_of_digit ((val div d) mod 10)) ds"

definition integer_to_str :: "int \<Rightarrow> string" where
  "integer_to_str val =
     (if val \<ge> 0 \<and> val < 10 then [char_of_digit val]
      else if val \<ge> 0 \<and> val < 100 then pos_digits val [10, 1]
      else if val \<ge> 0 \<and> val < 1000 then pos_digits val [100, 10, 1]
      else if val \<ge> 0 \<and> val < 10000 then pos_digits val [1000, 100, 10, 1]
      else if val \<ge> 0 \<and> val < 100000 then pos_digits val [10000, 1000, 100, 10, 1]
      else (let v = (if val > 0 then - val else val); ds = neg_digits v []
            in if val > 0 then ds else CHR ''-'' # ds))"

section \<open>Encoding\<close>

datatype entry = EInt int | EStr string | EList "entry list" | EDict "(string \<times> entry) list" | EPre string | EUndef

fun bencode :: "entry \<Rightarrow> string" where
  "bencode (EInt i) = ''i'' @ integer_to_str i @ ''e''"
| "bencode (EStr s) = integer_to_str (int (length s)) @ '':'' @ s"
| "bencode (EList es) = ''l'' @ concat (map bencode es) @ ''e''"
| "bencode (EDict kvs) =
     ''d'' @ concat (map (\<lambda>(k, e). integer_to_str (int (length k)) @ '':'' @ k @ bencode e) kvs) @ ''e''"
| "bencode (EPre s) = s"
| "bencode EUndef = ''0:''"

section \<open>Tokens\<close>

datatype token_type = t_none | t_dict | t_list | t_string | t_integer | t_long_string | t_end

record bdecode_token =
  tk_offset :: nat
  tk_type :: token_type
  tk_next :: nat
  tk_header :: nat

definition max_offset :: nat where
  "max_offset = 2 ^ 29 - 1"

definition max_next_item :: nat where
  "max_next_item = 2 ^ 29 - 1"

definition short_string_max_header :: nat where
  "short_string_max_header = 9"

definition long_string_max_header :: nat where
  "long_string_max_header = 17"

text \<open>The two constructors. The fields are bit-fields of 29, 3, 29 and 3 bits.\<close>

definition open_token :: "nat \<Rightarrow> token_type \<Rightarrow> bdecode_token" where
  "open_token off t = \<lparr>tk_offset = off mod 2 ^ 29, tk_type = t, tk_next = 0, tk_header = 0\<rparr>"

definition mk_token :: "nat \<Rightarrow> nat \<Rightarrow> token_type \<Rightarrow> nat \<Rightarrow> bdecode_token" where
  "mk_token off nxt t header_size =
     (let ty = (if t = t_string \<and> header_size > short_string_max_header then t_long_string else t)
      in \<lparr>tk_offset = off mod 2 ^ 29, tk_type = ty, tk_next = nxt mod 2 ^ 29,
          tk_header = (if ty = t_string then (header_size - 2) mod 8
                       else if ty = t_long_string then (header_size - 8 - 2) mod 8 else 0)\<rparr>)"

definition start_offset :: "bdecode_token \<Rightarrow> nat" where
  "start_offset t = (if tk_type t = t_string then tk_header t + 2 else tk_header t + 8 + 2)"

section \<open>Decoding\<close>

datatype bdecode_error = expected_digit | expected_colon | unexpected_eof | expected_value | depth_exceeded | limit_exceeded | overflow

text \<open>
  \<open>check_integer\<close>: the number of characters it passes over, and the error if there is one. The loop
  tests for \<open>'e'\<close> only after a first digit.
\<close>

fun int_digits :: "string \<Rightarrow> nat \<Rightarrow> nat \<times> bdecode_error option" where
  "int_digits [] n = (n, Some unexpected_eof)"
| "int_digits (c # cs) n =
     (if n > 0 \<and> c = CHR ''e'' then (n, None)
      else if \<not> numeric c then (n, Some expected_digit)
      else int_digits cs (n + 1))"

definition check_integer :: "string \<Rightarrow> nat \<times> bdecode_error option" where
  "check_integer cs =
     (if cs = [] then (0, Some unexpected_eof)
      else
        let sign = (if hd cs = CHR ''-'' then 1 else 0); rest = drop sign cs
        in if rest = [] then (sign, Some unexpected_eof)
           else let (digits, e) = int_digits rest 0
                in (sign + digits, if digits > 20 then Some overflow else e))"

text \<open>\<open>parse_int\<close>: the characters passed over, the value and the error.\<close>

fun parse_int :: "string \<Rightarrow> char \<Rightarrow> int \<Rightarrow> nat \<times> int \<times> bdecode_error option" where
  "parse_int [] delimiter val = (0, val, None)"
| "parse_int (c # cs) delimiter val =
     (if c = delimiter then (0, val, None)
      else if \<not> numeric c then (0, val, Some expected_digit)
      else if val > int64_max div 10 then (0, val, Some overflow)
      else
        let val1 = val * 10; digit = digit_of c
        in if val1 > int64_max - digit then (0, val1, Some overflow)
           else let (n, v, e) = parse_int cs delimiter (val1 + digit) in (n + 1, v, e))"

record stack_frame =
  fr_token :: nat
  fr_state :: nat

text \<open>The state of the loop; \<open>sp\<close> is the length of the stack, whose top is its last element.\<close>

record bdecode_state =
  bd_start :: nat
  bd_tokens :: "bdecode_token list"
  bd_stack :: "stack_frame list"
  bd_limit :: int

text \<open>An iteration continues, ends the loop with the top level node read, or fails; \<open>error_pos\<close> comes with it.\<close>

datatype bdecode_step = Continue bdecode_state | Complete bdecode_state | Fail bdecode_error nat bdecode_state

definition in_dict :: "bdecode_state \<Rightarrow> nat \<Rightarrow> bool" where
  "in_dict s frame \<longleftrightarrow> frame > 0 \<and> frame \<le> length (bd_stack s) \<and> tk_type (bd_tokens s ! fr_token (bd_stack s ! (frame - 1))) = t_dict"

definition push_token :: "bdecode_token \<Rightarrow> nat \<Rightarrow> bdecode_state \<Rightarrow> bdecode_state" where
  "push_token t n s = s\<lparr>bd_tokens := bd_tokens s @ [t], bd_start := bd_start s + n\<rparr>"

definition fail_at :: "bdecode_error \<Rightarrow> bdecode_state \<Rightarrow> bdecode_step" where
  "fail_at e s = Fail e (bd_start s) s"

definition read_open :: "token_type \<Rightarrow> bdecode_state \<Rightarrow> bdecode_step" where
  "read_open t s =
     Continue (push_token (open_token (bd_start s) t) 1
       (s\<lparr>bd_stack := bd_stack s @ [\<lparr>fr_token = length (bd_tokens s), fr_state = 0\<rparr>]\<rparr>))"

definition read_integer :: "string \<Rightarrow> bdecode_state \<Rightarrow> bdecode_step" where
  "read_integer buf s =
     (case check_integer (drop (bd_start s + 1) buf) of
        (n, Some e) \<Rightarrow> Fail e (bd_start s + 1 + n) s
      | (n, None) \<Rightarrow> Continue (push_token (mk_token (bd_start s) 1 t_integer 1) (n + 2) s))"

definition read_end :: "bdecode_state \<Rightarrow> bdecode_step" where
  "read_end s =
     (if bd_stack s = [] then fail_at unexpected_eof s
      else if in_dict s (length (bd_stack s)) \<and> fr_state (last (bd_stack s)) = 1 then fail_at expected_value s
      else
        let toks = bd_tokens s @ [mk_token (bd_start s) 1 t_end 0];
            top = fr_token (last (bd_stack s))
        in if length toks - top > max_next_item then fail_at limit_exceeded (s\<lparr>bd_tokens := toks\<rparr>)
           else Continue (s\<lparr>bd_tokens := toks[top := (toks ! top)\<lparr>tk_next := (length toks - top) mod 2 ^ 29\<rparr>],
                  bd_stack := butlast (bd_stack s), bd_start := bd_start s + 1\<rparr>))"

definition read_string :: "string \<Rightarrow> bdecode_state \<Rightarrow> bdecode_step" where
  "read_string buf s =
     (let t = buf ! bd_start s; s1 = s\<lparr>bd_start := bd_start s + 1\<rparr>
      in if \<not> numeric t then fail_at expected_value s
         else if bd_start s1 \<ge> length buf then fail_at unexpected_eof s1
         else
           let (n, len, e) = parse_int (drop (bd_start s1) buf) (CHR '':'') (digit_of t);
               s2 = s1\<lparr>bd_start := bd_start s1 + n\<rparr>
           in case e of
                Some err \<Rightarrow> fail_at err s2
              | None \<Rightarrow>
                  if bd_start s2 = length buf then fail_at expected_colon s2
                  else if len > int (length buf) - int (bd_start s2) - 1 then fail_at unexpected_eof s2
                  else if len < 0 then fail_at overflow s2
                  else
                    let s3 = s2\<lparr>bd_start := bd_start s2 + 1\<rparr>; header = bd_start s3 - bd_start s
                    in if header > long_string_max_header then fail_at limit_exceeded s3
                       else Continue (push_token (mk_token (bd_start s) 1 t_string header) (nat len) s3))"

definition read_token :: "string \<Rightarrow> bdecode_state \<Rightarrow> bdecode_step" where
  "read_token buf s =
     (let t = buf ! bd_start s
      in if t = CHR ''d'' then read_open t_dict s
         else if t = CHR ''l'' then read_open t_list s
         else if t = CHR ''i'' then read_integer buf s
         else if t = CHR ''e'' then read_end s
         else read_string buf s)"

definition flip_state :: "nat \<Rightarrow> bdecode_state \<Rightarrow> bdecode_state" where
  "flip_state frame s =
     (if in_dict s frame then
        s\<lparr>bd_stack := (bd_stack s)[frame - 1 := (bd_stack s ! (frame - 1))\<lparr>fr_state := (fr_state (bd_stack s ! (frame - 1)) + 1) mod 2\<rparr>]\<rparr>
      else s)"

definition bdecode_iter :: "string \<Rightarrow> nat \<Rightarrow> bdecode_state \<Rightarrow> bdecode_step" where
  "bdecode_iter buf depth_limit s =
     (if bd_start s \<ge> length buf then fail_at unexpected_eof s
      else if length (bd_stack s) \<ge> depth_limit then fail_at depth_exceeded s
      else
        let s1 = s\<lparr>bd_limit := bd_limit s - 1\<rparr>; frame = length (bd_stack s)
        in if bd_limit s1 < 0 then fail_at limit_exceeded s1
           else if in_dict s1 frame \<and> fr_state (bd_stack s1 ! (frame - 1)) = 0
               \<and> \<not> numeric (buf ! bd_start s1) \<and> buf ! bd_start s1 \<noteq> CHR ''e'' then fail_at expected_digit s1
           else case read_token buf s1 of
                  Continue s2 \<Rightarrow>
                    let s3 = flip_state frame s2
                    in if bd_stack s3 = [] then Complete s3 else Continue s3
                | r \<Rightarrow> r)"

section \<open>The loop\<close>

lemma int_digits_bound: "fst (int_digits cs n) \<le> n + length cs"
proof (induction cs arbitrary: n)
  case (Cons c cs)
  then show ?case using Cons.IH [of "n + 1"] by (auto intro: le_SucI)
qed simp

lemma int_digits_None: "snd (int_digits cs n) = None \<Longrightarrow> fst (int_digits cs n) < n + length cs"
proof (induction cs arbitrary: n)
  case (Cons c cs)
  then show ?case using Cons.IH [of "n + 1"] by (auto split: if_splits)
qed simp

lemma check_integer_None:
  assumes "check_integer cs = (n, None)"
  shows "n < length cs"
proof -
  let ?sign = "if hd cs = CHR ''-'' then 1 else (0 :: nat)"
  have cs: "cs \<noteq> []" "drop ?sign cs \<noteq> []" using assms by (auto simp: check_integer_def Let_def split: if_splits)
  obtain k e where k: "int_digits (drop ?sign cs) 0 = (k, e)" by (cases "int_digits (drop ?sign cs) 0")
  then have "e = None \<and> n = ?sign + k" using assms cs by (auto simp: check_integer_def Let_def split: if_splits)
  then show ?thesis using int_digits_None [of "drop ?sign cs" 0] k cs by (auto split: if_splits)
qed

lemma parse_int_bound: "fst (parse_int cs c v) \<le> length cs"
  by (induction cs c v rule: parse_int.induct) (auto simp: Let_def split: prod.splits)

text \<open>An iteration moves on in the buffer.\<close>

lemma read_string_progress:
  assumes "read_string buf s = Continue s'" "bd_start s < length buf"
  shows "bd_start s < bd_start s'" "bd_start s' \<le> length buf"
proof -
  obtain n len e where p: "parse_int (drop (Suc (bd_start s)) buf) (CHR '':'') (digit_of (buf ! bd_start s)) = (n, len, e)" by (metis prod_cases3)
  have n: "n \<le> length buf - Suc (bd_start s)" using parse_int_bound [of "drop (Suc (bd_start s)) buf"] p by (metis fst_conv length_drop)
  show "bd_start s < bd_start s'" "bd_start s' \<le> length buf"
    using assms n by (auto simp: read_string_def p Let_def fail_at_def push_token_def split: if_splits option.splits)
qed

lemma read_token_progress:
  assumes "read_token buf s = Continue s'" "bd_start s < length buf"
  shows "bd_start s < bd_start s' \<and> bd_start s' \<le> length buf"
proof -
  have "bd_start s + 2 + n \<le> length buf" if "check_integer (drop (bd_start s + 1) buf) = (n, None)" for n
    using check_integer_None [OF that] by simp
  then show ?thesis using assms read_string_progress [of buf s s']
    by (auto simp: read_token_def read_open_def read_integer_def read_end_def push_token_def fail_at_def Let_def
        split: if_splits option.splits prod.splits)
qed

lemma flip_state_start [simp]: "bd_start (flip_state f s) = bd_start s" "bd_tokens (flip_state f s) = bd_tokens s"
    "bd_limit (flip_state f s) = bd_limit s" "length (bd_stack (flip_state f s)) = length (bd_stack s)"
  by (simp_all add: flip_state_def)

lemma iter_progress:
  assumes "bdecode_iter buf d s = Continue s'"
  shows "bd_start s < bd_start s'" "bd_start s' \<le> length buf"
proof -
  let ?s1 = "s\<lparr>bd_limit := bd_limit s - 1\<rparr>"
  have lt: "bd_start s < length buf" using assms by (auto simp: bdecode_iter_def fail_at_def Let_def split: if_splits)
  obtain s2 where "read_token buf ?s1 = Continue s2" "s' = flip_state (length (bd_stack s)) s2"
    using assms by (auto simp: bdecode_iter_def fail_at_def Let_def split: if_splits bdecode_step.splits)
  then show "bd_start s < bd_start s'" "bd_start s' \<le> length buf" using read_token_progress [of buf ?s1 s2] lt by auto
qed

function bdecode_loop :: "string \<Rightarrow> nat \<Rightarrow> bdecode_state \<Rightarrow> bdecode_step" where
  "bdecode_loop buf d s = (case bdecode_iter buf d s of Continue s' \<Rightarrow> bdecode_loop buf d s' | r \<Rightarrow> r)"
  by pat_completeness auto

termination
proof (relation "measure (\<lambda>(buf, d, s). length buf - bd_start s)", goal_cases)
  case (2 buf d s s')
  then show ?case using iter_progress [of buf d s s'] by simp
qed simp

declare bdecode_loop.simps [simp del]

text \<open>The end: open containers are closed, with an empty dictionary for a key that has no value.\<close>

fun unwind :: "nat \<Rightarrow> stack_frame list \<Rightarrow> bdecode_token list \<Rightarrow> bdecode_token list" where
  "unwind start [] toks = toks"
| "unwind start (f # fs) toks =
     (let toks1 = (if tk_type (toks ! fr_token f) = t_dict \<and> fr_state f = 1
                   then toks @ [mk_token start 2 t_dict 0, open_token start t_end] else toks);
          top = fr_token f;
          toks2 = toks1[top := (toks1 ! top)\<lparr>tk_next := (length toks1 - top) mod 2 ^ 29\<rparr>]
      in unwind start fs (toks2 @ [mk_token start 1 t_end 0]))"

record bdecode_result =
  br_tokens :: "bdecode_token list"
  br_idx :: int
  br_size :: nat
  br_error :: "(bdecode_error \<times> nat) option"

definition bdecode :: "string \<Rightarrow> nat \<Rightarrow> int \<Rightarrow> bdecode_result" where
  "bdecode buffer depth_limit token_limit =
     (if length buffer > max_offset then
        \<lparr>br_tokens = [], br_idx = -1, br_size = 0, br_error = Some (limit_exceeded, 0)\<rparr>
      else
        let s0 = \<lparr>bd_start = 0, bd_tokens = [], bd_stack = [], bd_limit = token_limit\<rparr>;
            (err, s) = (if buffer = [] then (Some (unexpected_eof, 0), s0)
                        else case bdecode_loop buffer depth_limit s0 of
                               Complete s1 \<Rightarrow> (None, s1)
                             | Continue s1 \<Rightarrow> (None, s1)
                             | Fail e pos s1 \<Rightarrow> (Some (e, pos), s1));
            toks = unwind (bd_start s) (rev (bd_stack s)) (bd_tokens s) @ [mk_token (bd_start s) 0 t_end 0]
        in \<lparr>br_tokens = toks, br_idx = 0, br_size = bd_start s, br_error = err\<rparr>)"

end
