(* ===== verification/Bencode_Values.thy ===== *)
theory Bencode_Values
  imports Bencode
begin

text \<open>
  The values of the format, and \<open>bdecode\<close> against them: the machine reads every value within its limits
  (completeness, by induction over the value) and accepts nothing else (soundness: at every iteration
  the state is that of a list of open containers with the items read so far).
\<close>

section \<open>What a buffer says\<close>

text \<open>
  The values of the format with their text: the digits of an integer, the length prefix of a string,
  and the items of a list or a dictionary, keys and values in turn.
\<close>

datatype bval = BInt string | BStr string string | BCont bool "bval list"

fun btext :: "bval \<Rightarrow> string" where
  "btext (BInt t) = CHR ''i'' # t @ ''e''"
| "btext (BStr h s) = h @ CHR '':'' # s"
| "btext (BCont d vs) = (if d then CHR ''d'' else CHR ''l'') # concat (map btext vs) @ ''e''"

definition dec_val :: "string \<Rightarrow> int" where
  "dec_val ds = foldl (\<lambda>v c. v * 10 + digit_of c) 0 ds"

definition int_text :: "string \<Rightarrow> bool" where
  "int_text t \<longleftrightarrow> (let ds = (if t \<noteq> [] \<and> hd t = CHR ''-'' then tl t else t)
     in ds \<noteq> [] \<and> list_all numeric ds \<and> length ds \<le> 20)"

definition str_text :: "string \<Rightarrow> string \<Rightarrow> bool" where
  "str_text h s \<longleftrightarrow> h \<noteq> [] \<and> list_all numeric h \<and> dec_val h = int (length s) \<and> length h + 1 \<le> long_string_max_header"

fun is_str :: "bval \<Rightarrow> bool" where
  "is_str (BStr h s) = True"
| "is_str _ = False"

text \<open>A dictionary has a string at every other place, starting with the first; \<open>st\<close> is 0 where a key is due.\<close>

fun keys_ok :: "nat \<Rightarrow> bval list \<Rightarrow> bool" where
  "keys_ok st [] \<longleftrightarrow> st = 0"
| "keys_ok st (v # vs) \<longleftrightarrow> (st = 0 \<longrightarrow> is_str v) \<and> keys_ok ((st + 1) mod 2) vs"

fun bval_ok :: "bval \<Rightarrow> bool" where
  "bval_ok (BInt t) = int_text t"
| "bval_ok (BStr h s) = str_text h s"
| "bval_ok (BCont d vs) = ((\<forall>v \<in> set vs. bval_ok v) \<and> (d \<longrightarrow> keys_ok 0 vs))"

text \<open>The stack entries a value needs, and its number of tokens.\<close>

fun bdepth :: "bval \<Rightarrow> nat" where
  "bdepth (BCont d vs) = 1 + foldr (\<lambda>v m. max (bdepth v) m) vs 1"
| "bdepth _ = 1"

fun ntok :: "bval \<Rightarrow> nat" where
  "ntok (BCont d vs) = 2 + sum_list (map ntok vs)"
| "ntok _ = 1"

text \<open>The tokens of a value whose text starts at a position.\<close>

function (sequential) toks :: "nat \<Rightarrow> bval \<Rightarrow> bdecode_token list" and toks_list :: "nat \<Rightarrow> bval list \<Rightarrow> bdecode_token list" where
  "toks p (BInt t) = [mk_token p 1 t_integer 1]"
| "toks p (BStr h s) = [mk_token p 1 t_string (length h + 1)]"
| "toks p (BCont d vs) =
     (open_token p (if d then t_dict else t_list))\<lparr>tk_next := (2 + sum_list (map ntok vs)) mod 2 ^ 29\<rparr>
       # toks_list (p + 1) vs @ [mk_token (p + 1 + length (concat (map btext vs))) 1 t_end 0]"
| "toks_list p [] = []"
| "toks_list p (v # vs) = toks p v @ toks_list (p + length (btext v)) vs"
  by pat_completeness auto

termination
  by (relation "measure (\<lambda>x. case x of Inl (p, v) \<Rightarrow> 2 * size v | Inr (p, vs) \<Rightarrow> 2 * size_list size vs + 1)") (auto simp: less_Suc_eq_le)

lemma length_toks: "length (toks p v) = ntok v" "length (toks_list p vs) = sum_list (map ntok vs)"
  by (induction p v and p vs rule: toks_toks_list.induct) simp_all

lemma toks_nonempty [simp]: "0 < ntok v" "toks p v \<noteq> []"
  using length_toks(1) [of p v] by (cases v; force)+

section \<open>Reading one value\<close>

lemma parse_int_digits:
  assumes "list_all numeric ds" "0 \<le> v" "v * 10 ^ length ds + 10 ^ length ds \<le> int64_max"
  shows "\<not> numeric c \<Longrightarrow> parse_int (ds @ c # cs) c v = (length ds, foldl (\<lambda>v c. v * 10 + digit_of c) v ds, None)"
  using assms
proof (induction ds arbitrary: v)
  case (Cons d ds)
  have d: "0 \<le> digit_of d" "digit_of d \<le> 9" "numeric d" using Cons.prems(2) by (auto simp: numeric_def digit_of_def)
  have b: "(v * 10 + digit_of d) * 10 ^ length ds + 10 ^ length ds \<le> int64_max"
  proof -
    have "(v * 10 + digit_of d) * 10 ^ length ds + 10 ^ length ds = v * 10 ^ Suc (length ds) + (digit_of d + 1) * 10 ^ length ds" by (simp add: algebra_simps)
    also have "(digit_of d + 1) * 10 ^ length ds \<le> 10 ^ Suc (length ds)" using d(2) by (simp add: mult_right_mono)
    finally show ?thesis using Cons.prems(4) by simp
  qed
  have p: "(1 :: int) \<le> 10 ^ length ds" by simp
  have "v * 10 + digit_of d \<le> (v * 10 + digit_of d) * 10 ^ length ds" using Cons.prems(3) d(1) p by (simp add: mult_le_cancel_left1)
  then have top: "v * 10 + digit_of d < int64_max" using b p by linarith
  then have "v \<le> int64_max div 10" using d(1) by (simp add: int64_max_def)
  moreover have "d \<noteq> c" using Cons.prems(1) d(3) by auto
  ultimately show ?case using Cons.IH [of "v * 10 + digit_of d"] Cons.prems b d top by (simp add: Let_def)
qed simp

lemma int_digits_ok:
  assumes "list_all numeric ds" "0 < n \<or> ds \<noteq> []"
  shows "int_digits (ds @ CHR ''e'' # cs) n = (n + length ds, None)"
  using assms
proof (induction ds arbitrary: n)
  case (Cons d ds)
  have "numeric d" "d \<noteq> CHR ''e''" using Cons.prems(1) by (auto simp: numeric_def)
  then show ?case using Cons by simp
qed simp

lemma check_integer_ok:
  assumes "int_text t"
  shows "check_integer (t @ CHR ''e'' # cs) = (length t, None)"
proof (cases "t \<noteq> [] \<and> hd t = CHR ''-''")
  case True
  then obtain ds where t: "t = CHR ''-'' # ds" by (cases t) auto
  have "ds \<noteq> []" "list_all numeric ds" "length ds \<le> 20" using assms t by (auto simp: int_text_def)
  then show ?thesis using int_digits_ok [of ds 0 cs] t by (simp add: check_integer_def Let_def)
next
  case False
  have d: "t \<noteq> []" "list_all numeric t" "length t \<le> 20" using assms False by (auto simp: int_text_def Let_def split: if_splits)
  then have "hd (t @ CHR ''e'' # cs) \<noteq> CHR ''-''" using False by simp
  then show ?thesis using int_digits_ok [of t 0 cs] d by (simp add: check_integer_def Let_def)
qed

text \<open>The text \<open>t\<close> is in the buffer at position \<open>p\<close>.\<close>

definition text_at :: "string \<Rightarrow> nat \<Rightarrow> string \<Rightarrow> bool" where
  "text_at buf p t \<longleftrightarrow> (\<exists>rest. drop p buf = t @ rest) \<and> p \<le> length buf"

lemma text_atD:
  assumes "text_at buf p t"
  obtains rest where "drop p buf = t @ rest" "p + length t \<le> length buf" 
    "\<And>k. k < length t \<Longrightarrow> buf ! (p + k) = t ! k"
proof -
  obtain rest where r: "drop p buf = t @ rest" "p \<le> length buf" using assms by (auto simp: text_at_def)
  have "length buf - p = length t + length rest" using r(1) by (metis length_append length_drop)
  moreover have "buf ! (p + k) = t ! k" if "k < length t" for k using r that by (metis nth_append nth_drop)
  ultimately show thesis using that r by auto
qed

lemma text_at_append: "text_at buf p (a @ b) \<longleftrightarrow> text_at buf p a \<and> text_at buf (p + length a) b"
proof
  assume "text_at buf p (a @ b)"
  then obtain rest where "drop p buf = a @ b @ rest" "p + length (a @ b) \<le> length buf" by (auto elim: text_atD)
  moreover from this have "drop (p + length a) buf = b @ rest" by (metis add.commute append_eq_conv_conj drop_drop)
  ultimately show "text_at buf p a \<and> text_at buf (p + length a) b" by (auto simp: text_at_def)
next
  assume t: "text_at buf p a \<and> text_at buf (p + length a) b"
  obtain r1 where r1: "drop p buf = a @ r1" "p + length a \<le> length buf" using t by (blast elim: text_atD)
  obtain r2 where "drop (p + length a) buf = b @ r2" using t by (blast elim: text_atD)
  moreover have "drop (p + length a) buf = r1" using r1(1) by (metis add.commute append_eq_conv_conj drop_drop)
  ultimately show "text_at buf p (a @ b)" using r1 by (auto simp: text_at_def)
qed

lemma text_at_Cons: "text_at buf p (c # t) \<longleftrightarrow> p < length buf \<and> buf ! p = c \<and> text_at buf (p + 1) t"
proof
  assume a: "text_at buf p (c # t)"
  then have "text_at buf (p + 1) t" using text_at_append [of buf p "[c]" t] by simp
  moreover have "p < length buf" "buf ! p = c" using text_atD [OF a] by (force, metis add_0_right length_greater_0_conv list.discI nth_Cons_0)
  ultimately show "p < length buf \<and> buf ! p = c \<and> text_at buf (p + 1) t" by simp
next
  assume "p < length buf \<and> buf ! p = c \<and> text_at buf (p + 1) t"
  then show "text_at buf p (c # t)" by (auto simp: text_at_def simp flip: Cons_nth_drop_Suc)
qed

section \<open>The machine reads every value\<close>

definition top_dict :: "bdecode_state \<Rightarrow> bool" where
  "top_dict s \<longleftrightarrow> in_dict s (length (bd_stack s))"

definition top_state :: "bdecode_state \<Rightarrow> nat" where
  "top_state s = fr_state (last (bd_stack s))"

definition turn :: "nat \<Rightarrow> bdecode_state \<Rightarrow> bdecode_state" where
  "turn n s = (if top_dict s then s\<lparr>bd_stack := butlast (bd_stack s) @ [(last (bd_stack s))\<lparr>fr_state := (top_state s + n) mod 2\<rparr>]\<rparr> else s)"

definition skip_text :: "nat \<Rightarrow> bdecode_token list \<Rightarrow> bdecode_state \<Rightarrow> bdecode_state" where
  "skip_text n ts s = s\<lparr>bd_start := bd_start s + n, bd_tokens := bd_tokens s @ ts, bd_limit := bd_limit s - int (length ts)\<rparr>"

definition frames_ok :: "bdecode_state \<Rightarrow> bool" where
  "frames_ok s \<longleftrightarrow> (\<forall>f \<in> set (bd_stack s). fr_token f < length (bd_tokens s) \<and> fr_state f < 2)"

fun keys_due :: "nat \<Rightarrow> bval list \<Rightarrow> bool" where
  "keys_due st [] \<longleftrightarrow> True"
| "keys_due st (v # vs) \<longleftrightarrow> (st = 0 \<longrightarrow> is_str v) \<and> keys_due ((st + 1) mod 2) vs"

lemma keys_ok_due: "st < 2 \<Longrightarrow> keys_ok st vs \<longleftrightarrow> keys_due st vs \<and> (st + length vs) mod 2 = 0"
proof (induction vs arbitrary: st)
  case (Cons v vs)
  have "((st + 1) mod 2 + length vs) mod 2 = (st + length (v # vs)) mod 2" by (simp add: mod_simps)
  then show ?case using Cons.IH [of "(st + 1) mod 2"] by simp
qed simp

lemma stack_last: "bd_stack s \<noteq> [] \<Longrightarrow> bd_stack s ! (length (bd_stack s) - 1) = last (bd_stack s)"
  by (simp add: last_conv_nth)

lemma flip_turn: "flip_state (length (bd_stack s)) s = turn 1 s"
proof (cases "bd_stack s = []")
  case True
  then show ?thesis by (simp add: flip_state_def turn_def top_dict_def in_dict_def)
next
  case False
  then have "(bd_stack s)[length (bd_stack s) - 1 := x] = butlast (bd_stack s) @ [x]" for x
    by (metis append_butlast_last_id length_butlast list_update_length)
  then show ?thesis using False by (simp add: flip_state_def turn_def top_dict_def top_state_def last_conv_nth)
qed

lemma turn_fields [simp]: "bd_start (turn n s) = bd_start s" "bd_tokens (turn n s) = bd_tokens s" "bd_limit (turn n s) = bd_limit s"
    "length (bd_stack (turn n s)) = length (bd_stack s)" "bd_stack (turn n s) = [] \<longleftrightarrow> bd_stack s = []"
  by (auto simp: turn_def top_dict_def in_dict_def)

lemma skip_fields [simp]: "bd_start (skip_text n ts s) = bd_start s + n" "bd_tokens (skip_text n ts s) = bd_tokens s @ ts"
    "bd_limit (skip_text n ts s) = bd_limit s - int (length ts)" "bd_stack (skip_text n ts s) = bd_stack s"
  by (simp_all add: skip_text_def)

lemma top_dict_skip: "frames_ok s \<Longrightarrow> top_dict (skip_text n ts s) = top_dict s"
  by (auto simp: top_dict_def in_dict_def frames_ok_def nth_append)

lemma top_dict_turn: "top_dict (turn n s) = top_dict s"
  by (cases "bd_stack s = []") (auto simp: top_dict_def in_dict_def turn_def nth_append last_conv_nth)

lemma turn_turn: "turn n (turn m s) = turn (m + n) s"
proof (cases "top_dict s")
  case True
  then show ?thesis using top_dict_turn [of m s] by (auto simp: turn_def top_state_def mod_simps add.assoc)
next
  case False
  then show ?thesis by (simp add: turn_def)
qed

lemma turn_0: "frames_ok s \<Longrightarrow> turn 0 s = s"
proof (cases "top_dict s")
  case True
  then have ne: "bd_stack s \<noteq> []" by (auto simp: top_dict_def in_dict_def)
  moreover assume "frames_ok s"
  ultimately have "fr_state (last (bd_stack s)) < 2" by (simp add: frames_ok_def)
  then show ?thesis using True ne by (simp add: turn_def top_state_def)
qed (simp add: turn_def)

lemma skip_turn: "frames_ok s \<Longrightarrow> skip_text n ts (turn m s) = turn m (skip_text n ts s)"
  using top_dict_skip [of s n ts] by (simp add: turn_def skip_text_def top_state_def)

lemma skip_skip: "skip_text n ts (skip_text m us s) = skip_text (m + n) (us @ ts) s"
  by (simp add: skip_text_def)

lemma skip_0: "skip_text 0 [] s = s"
  by (simp add: skip_text_def)

lemma frames_ok_skip: "frames_ok s \<Longrightarrow> frames_ok (skip_text n ts s)"
  by (auto simp: frames_ok_def)

lemma frames_ok_turn: "frames_ok s \<Longrightarrow> frames_ok (turn n s)"
  by (auto simp: frames_ok_def turn_def top_dict_def in_dict_def dest: in_set_butlastD last_in_set)

lemma top_state_turn: "top_dict s \<Longrightarrow> top_state (turn n s) = (top_state s + n) mod 2"
  by (simp add: turn_def top_state_def)

text \<open>An iteration on a character that starts a value or ends a container.\<close>

lemma iter_eq:
  assumes "bd_start s < length buf" "length (bd_stack s) < d" "0 < bd_limit s"
    "top_dict s \<Longrightarrow> top_state s = 0 \<Longrightarrow> numeric (buf ! bd_start s) \<or> buf ! bd_start s = CHR ''e''"
  shows "bdecode_iter buf d s = (case read_token buf (s\<lparr>bd_limit := bd_limit s - 1\<rparr>) of
     Continue s2 \<Rightarrow> (let s3 = flip_state (length (bd_stack s)) s2 in if bd_stack s3 = [] then Complete s3 else Continue s3) | r \<Rightarrow> r)"
proof -
  have "\<not> (in_dict (s\<lparr>bd_limit := bd_limit s - 1\<rparr>) (length (bd_stack s)) \<and> fr_state (bd_stack s ! (length (bd_stack s) - 1)) = 0
      \<and> \<not> numeric (buf ! bd_start s) \<and> buf ! bd_start s \<noteq> CHR ''e'')"
  proof
    assume a: "in_dict (s\<lparr>bd_limit := bd_limit s - 1\<rparr>) (length (bd_stack s)) \<and> fr_state (bd_stack s ! (length (bd_stack s) - 1)) = 0
      \<and> \<not> numeric (buf ! bd_start s) \<and> buf ! bd_start s \<noteq> CHR ''e''"
    then have "bd_stack s \<noteq> []" "top_dict s" by (auto simp: in_dict_def top_dict_def)
    then show False using a assms(4) by (simp add: top_state_def last_conv_nth)
  qed
  then show ?thesis using assms(1-3) by (simp add: bdecode_iter_def Let_def) (metis less_numeral_extra(3))
qed

definition fin :: "bval \<Rightarrow> bdecode_state \<Rightarrow> bdecode_state" where
  "fin v s = turn 1 (skip_text (length (btext v)) (toks (bd_start s) v) s)"

lemma dec_val_bound: "list_all numeric ds \<Longrightarrow> 0 \<le> dec_val ds"
proof -
  have "0 \<le> foldl (\<lambda>v c. v * 10 + digit_of c) v ds" if "list_all numeric ds" "0 \<le> v" for v
    using that by (induction ds arbitrary: v) (auto simp: numeric_def digit_of_def)
  then show "list_all numeric ds \<Longrightarrow> 0 \<le> dec_val ds" by (simp add: dec_val_def)
qed

lemma numeric_not: "numeric c \<Longrightarrow> c \<noteq> CHR ''d'' \<and> c \<noteq> CHR ''l'' \<and> c \<noteq> CHR ''i'' \<and> c \<noteq> CHR ''e'' \<and> c \<noteq> CHR '':''"
  by (auto simp: numeric_def)

lemma read_scalar:
  assumes v: "bval_ok v" "\<not> (\<exists>d vs. v = BCont d vs)" and t: "text_at buf (bd_start s) (btext v)"
  shows "read_token buf s = Continue (s\<lparr>bd_start := bd_start s + length (btext v), bd_tokens := bd_tokens s @ toks (bd_start s) v\<rparr>)"
proof (cases v)
  case (BInt t')
  have b: "buf ! bd_start s = CHR ''i''" "text_at buf (bd_start s + 1) (t' @ ''e'')"
    using t BInt text_at_Cons by auto
  then obtain rest where "drop (bd_start s + 1) buf = t' @ CHR ''e'' # rest" by (auto elim: text_atD)
  then have "check_integer (drop (bd_start s + 1) buf) = (length t', None)" using check_integer_ok [of t' rest] v(1) BInt by simp
  then show ?thesis using b(1) BInt by (simp add: read_token_def read_integer_def push_token_def)
next
  case (BStr h w)
  have h: "h \<noteq> []" "list_all numeric h" "dec_val h = int (length w)" "length h \<le> 16"
    using v(1) BStr by (auto simp: str_text_def long_string_max_header_def)
  obtain c ds where c: "h = c # ds" using h(1) by (cases h) auto
  have tc: "bd_start s < length buf" "buf ! bd_start s = c" "text_at buf (bd_start s + 1) (ds @ CHR '':'' # w)"
    using t BStr c text_at_Cons by auto
  obtain rest where r: "drop (bd_start s + 1) buf = ds @ CHR '':'' # w @ rest" "bd_start s + 1 + length (ds @ CHR '':'' # w) \<le> length buf"
    using tc(3) by (auto elim: text_atD)
  have n: "numeric c" "list_all numeric ds" using h(2) c by auto
  have "digit_of c \<le> 9" "0 \<le> digit_of c" using n(1) by (auto simp: numeric_def digit_of_def)
  have p15: "(10 :: int) ^ length ds \<le> 10 ^ 15" using h(4) c by (intro power_increasing) auto
  have "digit_of c * 10 ^ length ds \<le> 9 * 10 ^ length ds" using \<open>digit_of c \<le> 9\<close> by (simp add: mult_right_mono)
  then have "digit_of c * 10 ^ length ds + 10 ^ length ds \<le> 10 * 10 ^ 15" using p15 by linarith
  then have "digit_of c * 10 ^ length ds + 10 ^ length ds \<le> int64_max" by (simp add: int64_max_def)
  moreover have "\<not> numeric (CHR '':'')" by (simp add: numeric_def)
  ultimately have "parse_int (drop (bd_start s + 1) buf) (CHR '':'') (digit_of c) = (length ds, int (length w), None)"
    using parse_int_digits [OF n(2) \<open>0 \<le> digit_of c\<close>, of "CHR '':''" "w @ rest"] h(3) c r(1) by (simp add: dec_val_def)
  then show ?thesis using tc(1,2) numeric_not [OF n(1)] n(1) r(2) h(4) BStr c
    by (simp add: read_token_def read_string_def push_token_def long_string_max_header_def)
next
  case (BCont d vs)
  then show ?thesis using v(2) by blast
qed

lemma ntok_le_text: "bval_ok v \<Longrightarrow> ntok v \<le> length (btext v)"
proof (induction v)
  case (BCont d vs)
  have "sum_list (map ntok vs) \<le> sum_list (map (length \<circ> btext) vs)" using BCont by (intro sum_list_mono) auto
  then show ?case by (simp add: length_concat)
qed (auto simp: str_text_def)

lemma loop_step: "bdecode_iter buf d s = Continue s' \<Longrightarrow> bdecode_loop buf d s = bdecode_loop buf d s'"
  by (simp add: bdecode_loop.simps)

lemma loop_stop: "bdecode_iter buf d s = Complete s' \<Longrightarrow> bdecode_loop buf d s = Complete s'"
  by (simp add: bdecode_loop.simps)

text \<open>The value is read: the loop goes on after it, or is done when it is the top level one.\<close>

definition reads :: "string \<Rightarrow> nat \<Rightarrow> bval \<Rightarrow> bdecode_state \<Rightarrow> bool" where
  "reads buf d v s \<longleftrightarrow> bdecode_loop buf d s = (if bd_stack s = [] then Complete (fin v s) else bdecode_loop buf d (fin v s))"

definition ready :: "string \<Rightarrow> nat \<Rightarrow> bval \<Rightarrow> bdecode_state \<Rightarrow> bool" where
  "ready buf d v s \<longleftrightarrow> frames_ok s \<and> text_at buf (bd_start s) (btext v) \<and> length (bd_stack s) + bdepth v \<le> d
     \<and> int (ntok v) \<le> bd_limit s \<and> (top_dict s \<longrightarrow> top_state s = 0 \<longrightarrow> is_str v) \<and> length buf \<le> max_offset"

lemma bdepth_pos: "0 < bdepth v"
  by (cases v) simp_all

lemma btext_nonempty: "bval_ok v \<Longrightarrow> btext v \<noteq> []"
  by (cases v) auto

lemma scalar_reads:
  assumes v: "bval_ok v" "\<not> (\<exists>d vs. v = BCont d vs)" and r: "ready buf d v s"
  shows "reads buf d v s"
proof -
  let ?s1 = "s\<lparr>bd_limit := bd_limit s - 1\<rparr>"
  have one: "ntok v = 1" "length (toks p v) = 1" for p using v(2) length_toks(1) [of p v] by (cases v; simp)+
  have start: "bd_start s < length buf" using r btext_nonempty [OF v(1)] by (cases "btext v") (auto simp: ready_def text_at_Cons)
  have num: "numeric (buf ! bd_start s)" if st: "is_str v"
  proof -
    obtain c ds w where "v = BStr (c # ds) w" "numeric c" using st v(1) by (cases v) (auto simp: str_text_def neq_Nil_conv)
    then show ?thesis using r by (simp add: ready_def text_at_Cons)
  qed
  have "read_token buf ?s1 = Continue (skip_text (length (btext v)) (toks (bd_start s) v) s)"
    using read_scalar [OF v, of buf ?s1] r one(2) by (simp add: ready_def skip_text_def)
  moreover have "flip_state (length (bd_stack s)) (skip_text (length (btext v)) (toks (bd_start s) v) s) = fin v s"
    using flip_turn [of "skip_text (length (btext v)) (toks (bd_start s) v) s"] by (simp add: fin_def)
  moreover have "bd_stack (fin v s) = [] \<longleftrightarrow> bd_stack s = []" by (simp add: fin_def)
  ultimately have "bdecode_iter buf d s = (if bd_stack s = [] then Complete (fin v s) else Continue (fin v s))"
    using iter_eq [OF start, of d] r bdepth_pos [of v] num one(1) by (auto simp: ready_def Let_def)
  then show ?thesis by (simp add: reads_def loop_step loop_stop)
qed

text \<open>The items of a container, one after the other.\<close>

lemma items_read:
  assumes rd: "\<And>v s. v \<in> set vs \<Longrightarrow> ready buf d v s \<Longrightarrow> reads buf d v s"
    and ok: "\<forall>v \<in> set vs. bval_ok v"
  shows "frames_ok s \<Longrightarrow> bd_stack s \<noteq> [] \<Longrightarrow> text_at buf (bd_start s) (concat (map btext vs)) \<Longrightarrow>
    (\<forall>v \<in> set vs. length (bd_stack s) + bdepth v \<le> d) \<Longrightarrow> int (sum_list (map ntok vs)) \<le> bd_limit s \<Longrightarrow>
    (top_dict s \<longrightarrow> keys_due (top_state s) vs) \<Longrightarrow> length buf \<le> max_offset \<Longrightarrow>
    bdecode_loop buf d s = bdecode_loop buf d (turn (length vs) (skip_text (length (concat (map btext vs))) (toks_list (bd_start s) vs) s))"
  using rd ok
proof (induction vs arbitrary: s)
  case Nil
  then show ?case by (simp add: skip_0 turn_0)
next
  case (Cons v vs)
  have t: "text_at buf (bd_start s) (btext v)" "text_at buf (bd_start s + length (btext v)) (concat (map btext vs))"
    using Cons.prems(3) by (simp_all add: text_at_append)
  have "ready buf d v s" using Cons.prems t(1) by (auto simp: ready_def)
  then have "bdecode_loop buf d s = bdecode_loop buf d (fin v s)" using Cons.prems(8) [of v s] Cons.prems(2) by (simp add: reads_def)
  also have "\<dots> = bdecode_loop buf d (turn (length vs) (skip_text (length (concat (map btext vs))) (toks_list (bd_start (fin v s)) vs) (fin v s)))"
  proof (rule Cons.IH)
    let ?s1 = "skip_text (length (btext v)) (toks (bd_start s) v) s"
    have d1: "top_dict (fin v s) = top_dict s" using top_dict_skip [OF Cons.prems(1)] by (simp add: fin_def top_dict_turn)
    show "frames_ok (fin v s)" using Cons.prems(1) by (simp add: fin_def frames_ok_turn frames_ok_skip)
    show "bd_stack (fin v s) \<noteq> []" "text_at buf (bd_start (fin v s)) (concat (map btext vs))" using Cons.prems(2) t(2) by (simp_all add: fin_def)
    show "\<forall>v' \<in> set vs. length (bd_stack (fin v s)) + bdepth v' \<le> d" using Cons.prems(4) by (simp add: fin_def)
    show "int (sum_list (map ntok vs)) \<le> bd_limit (fin v s)" using Cons.prems(5) by (simp add: fin_def length_toks)
    show "top_dict (fin v s) \<longrightarrow> keys_due (top_state (fin v s)) vs"
    proof
      assume "top_dict (fin v s)"
      then have td: "top_dict s" "top_dict ?s1" using d1 top_dict_skip [OF Cons.prems(1)] by auto
      have "top_state (fin v s) = (top_state s + 1) mod 2" using top_state_turn [OF td(2), of 1] by (simp add: fin_def top_state_def)
      then show "keys_due (top_state (fin v s)) vs" using Cons.prems(6) td(1) by simp
    qed
  qed (use Cons.prems in auto)
  also have "turn (length vs) (skip_text (length (concat (map btext vs))) (toks_list (bd_start (fin v s)) vs) (fin v s))
      = turn (length (v # vs)) (skip_text (length (concat (map btext (v # vs)))) (toks_list (bd_start s) (v # vs)) s)"
    using frames_ok_skip [OF Cons.prems(1)] by (simp add: fin_def skip_turn turn_turn skip_skip)
  finally show ?case .
qed

lemma foldr_max: "(\<forall>v \<in> set vs. f v \<le> m) \<and> b \<le> m \<longleftrightarrow> foldr (\<lambda>v k. max (f v) k) vs b \<le> (m :: nat)"
  by (induction vs) auto

lemma container_reads:
  assumes rd: "\<And>v s. v \<in> set vs \<Longrightarrow> ready buf d v s \<Longrightarrow> reads buf d v s"
    and ok: "bval_ok (BCont dict vs)" and r: "ready buf d (BCont dict vs) s"
  shows "reads buf d (BCont dict vs) s"
proof -
  let ?v = "BCont dict vs" and ?ty = "if dict then t_dict else t_list" and ?T = "bd_tokens s" and ?p = "bd_start s"
  let ?fr = "\<lparr>fr_token = length ?T, fr_state = 0\<rparr>" and ?open = "open_token (bd_start s) (if dict then t_dict else t_list)"
  let ?m = "length (concat (map btext vs))"
  have fr: "frames_ok s" and big: "length buf \<le> max_offset" and nk: "\<not> (top_dict s \<and> top_state s = 0)" using r by (auto simp: ready_def)
  have t: "?p < length buf" "buf ! ?p = (if dict then CHR ''d'' else CHR ''l'')" "text_at buf (?p + 1) (concat (map btext vs))"
      "?p + 1 + ?m < length buf" "buf ! (?p + 1 + ?m) = CHR ''e''"
    using r by (simp_all add: ready_def text_at_Cons text_at_append)
  have depth: "\<forall>v \<in> set vs. length (bd_stack s) + 1 + bdepth v \<le> d" "length (bd_stack s) + 2 \<le> d"
    using r foldr_max [of vs bdepth "d - length (bd_stack s) - 1" 1] by (auto simp: ready_def)
  have lim: "int (sum_list (map ntok vs)) + 2 \<le> bd_limit s" using r by (simp add: ready_def)
  text \<open>the opening character\<close>
  define s0 where "s0 = turn 1 s"
  define s1 where "s1 = s0\<lparr>bd_start := ?p + 1, bd_tokens := ?T @ [?open], bd_stack := bd_stack s0 @ [?fr], bd_limit := bd_limit s - 1\<rparr>"
  have it1: "bdecode_iter buf d s = Continue s1"
  proof -
    let ?s2 = "s\<lparr>bd_limit := bd_limit s - 1, bd_stack := bd_stack s @ [?fr], bd_tokens := ?T @ [?open], bd_start := ?p + 1\<rparr>"
    have "read_token buf (s\<lparr>bd_limit := bd_limit s - 1\<rparr>) = Continue ?s2"
      using t(2) by (cases dict) (simp_all add: read_token_def read_open_def push_token_def)
    moreover have "flip_state (length (bd_stack s)) ?s2 = s1"
    proof (cases "bd_stack s = []")
      case True
      then show ?thesis by (simp add: flip_state_def in_dict_def s1_def s0_def turn_def top_dict_def)
    next
      case False
      have in2: "in_dict ?s2 (length (bd_stack s)) = top_dict s"
        using False fr by (auto simp: in_dict_def top_dict_def nth_append frames_ok_def)
      have "(bd_stack s @ [?fr])[length (bd_stack s) - 1 := x] = butlast (bd_stack s) @ [x, ?fr]" for x
        using False by (metis append_butlast_last_id append_eq_Cons_conv append_assoc append_Cons append_Nil length_butlast list_update_length)
      then show ?thesis using False in2
        by (auto simp: flip_state_def s1_def s0_def turn_def nth_append top_state_def last_conv_nth)
    qed
    moreover have "bd_stack s1 \<noteq> []" by (simp add: s1_def)
    ultimately show ?thesis using iter_eq [OF t(1), of d] depth(2) lim nk by auto
  qed
  text \<open>the items\<close>
  have f1: "frames_ok s1"
  proof -
    have "frames_ok s0" using fr by (simp add: s0_def frames_ok_turn)
    then show ?thesis by (auto simp: s1_def frames_ok_def s0_def less_Suc_eq)
  qed
  have d1: "top_dict s1 = dict" "top_state s1 = 0" by (simp_all add: s1_def top_dict_def in_dict_def top_state_def open_token_def)
  define s2 where "s2 = turn (length vs) (skip_text ?m (toks_list (?p + 1) vs) s1)"
  have items: "bdecode_loop buf d s1 = bdecode_loop buf d s2"
  proof -
    have "bd_start s1 = ?p + 1" "length (bd_stack s1) = length (bd_stack s) + 1" "bd_limit s1 = bd_limit s - 1" by (simp_all add: s1_def s0_def)
    then show ?thesis unfolding s2_def using items_read [OF rd, of vs s1] f1 d1 depth(1) lim ok keys_ok_due [of 0 vs] t(3) big
      by (auto simp: s1_def)
  qed
  have st2: "bd_stack s2 = bd_stack s0 @ [?fr]" 
  proof -
    have "top_dict (skip_text ?m (toks_list (?p + 1) vs) s1) = dict" using top_dict_skip [OF f1] d1 by simp
    moreover have "dict \<Longrightarrow> length vs mod 2 = 0" using ok keys_ok_due [of 0 vs] by simp
    ultimately show ?thesis by (auto simp: s2_def turn_def s1_def top_state_def)
  qed
  have s2: "bd_start s2 = ?p + 1 + ?m" "bd_tokens s2 = ?T @ ?open # toks_list (?p + 1) vs" "bd_limit s2 = bd_limit s - 1 - int (sum_list (map ntok vs))"
      "top_state s2 = 0" "top_dict s2 = dict"
    using st2 d1 top_dict_skip [OF f1] by (simp_all add: s2_def s1_def length_toks top_state_def top_dict_turn)
  text \<open>the end\<close>
  have fin_eq: "skip_text (length (btext ?v)) (toks ?p ?v) s0 = fin ?v s" using skip_turn [OF fr] by (simp only: s0_def fin_def)
  have re: "read_token buf (s2\<lparr>bd_limit := bd_limit s2 - 1\<rparr>)
      = Continue (skip_text (length (btext ?v)) (toks ?p ?v) s0)"
  proof -
    let ?toks = "?T @ ?open # toks_list (?p + 1) vs @ [mk_token (?p + 1 + ?m) 1 t_end 0]"
    have len: "length ?toks - length ?T = 2 + sum_list (map ntok vs)" by (simp add: length_toks)
    have "ntok ?v \<le> length buf" using ntok_le_text [OF ok] r by (auto simp: ready_def elim!: text_atD)
    then have "\<not> length ?toks - length ?T > max_next_item" using len big by (simp add: max_next_item_def max_offset_def)
    moreover have "?toks[length ?T := (?toks ! length ?T)\<lparr>tk_next := (length ?toks - length ?T) mod 2 ^ 29\<rparr>] = ?T @ toks ?p ?v"
      using len by (simp add: add.assoc)
    ultimately show ?thesis using t(5) s2 st2
      by (simp add: read_token_def read_end_def Let_def top_state_def skip_text_def length_toks s0_def fin_def)
  qed
  have "flip_state (length (bd_stack s2)) (fin ?v s) = fin ?v s" using st2 by (simp add: flip_state_def in_dict_def fin_def s0_def)
  moreover have "bd_stack (fin ?v s) = [] \<longleftrightarrow> bd_stack s = []" by (simp add: fin_def)
  moreover have "bd_start s2 < length buf" "length (bd_stack s2) < d" "0 < bd_limit s2" using s2 st2 t(4) depth(2) lim by (simp_all add: s0_def)
  ultimately have "bdecode_iter buf d s2 = (if bd_stack s = [] then Complete (fin ?v s) else Continue (fin ?v s))"
    using iter_eq [of s2 buf d] re fin_eq s2(1) t(5) by simp
  then show ?thesis using it1 items by (simp add: reads_def loop_step loop_stop)
qed

lemma value_reads: "bval_ok v \<Longrightarrow> ready buf d v s \<Longrightarrow> reads buf d v s"
proof (induction v arbitrary: s)
  case (BCont dict vs)
  then show ?case by (intro container_reads) auto
qed (auto intro: scalar_reads)

text \<open>Decoding the text of a value, whatever follows it in the buffer.\<close>

lemma bdecode_text:
  assumes ok: "bval_ok v" and d: "bdepth v \<le> d" and n: "int (ntok v) \<le> limit" and big: "length (btext v @ rest) \<le> max_offset"
  shows "bdecode (btext v @ rest) d limit
    = \<lparr>br_tokens = toks 0 v @ [mk_token (length (btext v)) 0 t_end 0], br_idx = 0, br_size = length (btext v), br_error = None\<rparr>"
proof -
  let ?s0 = "\<lparr>bd_start = 0, bd_tokens = [], bd_stack = [], bd_limit = limit\<rparr>"
  have "text_at (btext v @ rest) 0 (btext v)" by (auto simp: text_at_def)
  then have "ready (btext v @ rest) d v ?s0" using d n big by (simp add: ready_def frames_ok_def top_dict_def in_dict_def)
  then have "bdecode_loop (btext v @ rest) d ?s0 = Complete (fin v ?s0)" using value_reads [OF ok] by (simp add: reads_def)
  moreover have "fin v ?s0 = \<lparr>bd_start = length (btext v), bd_tokens = toks 0 v, bd_stack = [], bd_limit = limit - int (ntok v)\<rparr>"
    by (simp add: fin_def turn_def top_dict_def in_dict_def skip_text_def length_toks)
  ultimately show ?thesis using btext_nonempty [OF ok] big by (simp add: bdecode_def)
qed

section \<open>What is accepted is a value\<close>

text \<open>The containers open at a moment, innermost first, with the items read so far.\<close>

type_synonym bctx = "(bool \<times> bval list) list"

fun ctext :: "bctx \<Rightarrow> string" where
  "ctext [] = []"
| "ctext ((d, vs) # c) = ctext c @ (if d then CHR ''d'' else CHR ''l'') # concat (map btext vs)"

fun ctoks :: "bctx \<Rightarrow> bdecode_token list" where
  "ctoks [] = []"
| "ctoks ((d, vs) # c) = ctoks c @ open_token (length (ctext c)) (if d then t_dict else t_list) # toks_list (length (ctext c) + 1) vs"

fun cframes :: "nat \<Rightarrow> bctx \<Rightarrow> stack_frame list" where
  "cframes b [] = []"
| "cframes b ((d, vs) # c) = cframes 1 c @ [\<lparr>fr_token = length (ctoks c), fr_state = (if d then (length vs + b) mod 2 else 0)\<rparr>]"

text \<open>In a dictionary around another container the value of a key is being read. No item is nested too deep for the depth limit \<open>m\<close>.\<close>

fun ctx_ok :: "nat \<Rightarrow> nat \<Rightarrow> bctx \<Rightarrow> bool" where
  "ctx_ok m b [] = True"
| "ctx_ok m b ((d, vs) # c) = (ctx_ok m 1 c \<and> (\<forall>v \<in> set vs. bval_ok v \<and> length c + 1 + bdepth v \<le> m) \<and> (d \<longrightarrow> keys_due 0 vs \<and> (b = 1 \<longrightarrow> length vs mod 2 = 1)))"

definition state_of :: "string \<Rightarrow> nat \<Rightarrow> bctx \<Rightarrow> bdecode_state \<Rightarrow> bool" where
  "state_of buf m c s \<longleftrightarrow> ctx_ok m 0 c \<and> text_at buf 0 (ctext c) \<and> bd_start s = length (ctext c) \<and> bd_tokens s = ctoks c \<and> bd_stack s = cframes 0 c"

definition read_to :: "string \<Rightarrow> nat \<Rightarrow> bval \<Rightarrow> bdecode_state \<Rightarrow> bool" where
  "read_to buf m v s \<longleftrightarrow> bval_ok v \<and> bdepth v \<le> m \<and> text_at buf 0 (btext v) \<and> bd_start s = length (btext v) \<and> bd_tokens s = toks 0 v \<and> bd_stack s = []"

lemma toks_list_append: "toks_list p (vs @ ws) = toks_list p vs @ toks_list (p + length (concat (map btext vs))) ws"
  by (induction vs arbitrary: p) (simp_all add: add.assoc)

lemma keys_due_append: "st < 2 \<Longrightarrow> keys_due st (vs @ [v]) \<longleftrightarrow> keys_due st vs \<and> ((st + length vs) mod 2 = 0 \<longrightarrow> is_str v)"
proof (induction vs arbitrary: st)
  case (Cons w ws)
  have "((st + 1) mod 2 + length ws) mod 2 = (st + length (w # ws)) mod 2" by (simp add: mod_simps)
  then show ?case using Cons.IH [of "(st + 1) mod 2"] by simp
qed simp

lemma length_cframes [simp]: "length (cframes b c) = length c"
  by (induction c arbitrary: b) auto

lemma cframes_ok: "f \<in> set (cframes b c) \<Longrightarrow> fr_token f < length (ctoks c) \<and> fr_state f < 2"
  by (induction c arbitrary: b) fastforce+

lemma state_frames_ok: "state_of buf m c s \<Longrightarrow> frames_ok s"
  using cframes_ok by (auto simp: state_of_def frames_ok_def)

lemma state_top:
  assumes "state_of buf m ((d, vs) # c) s"
  shows "top_dict s = d" "top_state s = (if d then length vs mod 2 else 0)"
  using assms by (auto simp: state_of_def top_dict_def in_dict_def top_state_def nth_append open_token_def)

text \<open>A scalar that was read has the text of one.\<close>

lemma int_digits_sound:
  assumes "int_digits cs n = (m, None)"
  shows "\<exists>ds rest. cs = ds @ CHR ''e'' # rest \<and> list_all numeric ds \<and> m = n + length ds \<and> 0 < m"
  using assms
proof (induction cs arbitrary: n)
  case (Cons c cs)
  show ?case
  proof (cases "n > 0 \<and> c = CHR ''e''")
    case True
    then show ?thesis using Cons.prems by (intro exI [of _ "[]"] exI [of _ cs]) auto
  next
    case False
    then have num: "numeric c" "int_digits cs (n + 1) = (m, None)" using Cons.prems by (auto split: if_splits)
    then obtain ds rest where "cs = ds @ CHR ''e'' # rest" "list_all numeric ds" "m = n + 1 + length ds" using Cons.IH by blast
    then show ?thesis using num by (intro exI [of _ "c # ds"] exI [of _ rest]) auto
  qed
qed simp

lemma check_integer_sound:
  assumes "check_integer cs = (n, None)"
  shows "\<exists>t rest. cs = t @ CHR ''e'' # rest \<and> int_text t \<and> n = length t"
proof -
  let ?sign = "if hd cs = CHR ''-'' then 1 else (0 :: nat)"
  have ne: "cs \<noteq> []" "drop ?sign cs \<noteq> []" using assms by (auto simp: check_integer_def Let_def split: if_splits)
  obtain k e where ke: "int_digits (drop ?sign cs) 0 = (k, e)" by (cases "int_digits (drop ?sign cs) 0")
  have "e = None \<and> k \<le> 20 \<and> n = ?sign + k" using assms ne ke by (auto simp: check_integer_def Let_def split: if_splits)
  then have k: "int_digits (drop ?sign cs) 0 = (k, None)" "k \<le> 20" "n = ?sign + k" using ke by auto
  obtain ds rest where ds: "drop ?sign cs = ds @ CHR ''e'' # rest" "list_all numeric ds" "k = length ds" "0 < k"
    using int_digits_sound [OF k(1)] by auto
  have "cs = take ?sign cs @ ds @ CHR ''e'' # rest" using ds(1) by (metis append_take_drop_id)
  moreover have "int_text (take ?sign cs @ ds)"
  proof (cases "hd cs = CHR ''-''")
    case True
    then have "take ?sign cs = [CHR ''-'']" using ne(1) by (cases cs) auto
    then show ?thesis using ds k(2) by (simp add: int_text_def)
  next
    case False
    have "hd ds \<noteq> CHR ''-''" using ds(2,3,4) by (cases ds) (auto simp: numeric_def)
    then show ?thesis using False ds k(2) by (auto simp: int_text_def)
  qed
  moreover have "n = length (take ?sign cs @ ds)" using k(3) ds(3) ne(1) by (cases cs) auto
  ultimately show ?thesis by (metis append.assoc)
qed

lemma parse_int_sound:
  assumes "parse_int cs c v = (n, w, None)" "n < length cs"
  shows "\<exists>ds rest. cs = ds @ c # rest \<and> list_all numeric ds \<and> n = length ds \<and> w = foldl (\<lambda>v c. v * 10 + digit_of c) v ds"
  using assms
proof (induction cs c v arbitrary: n w rule: parse_int.induct)
  case (2 x cs c v)
  show ?case
  proof (cases "x = c")
    case True
    then show ?thesis using 2(2,3) by (intro exI [of _ "[]"] exI [of _ cs]) auto
  next
    case False
    then have x: "numeric x" "\<not> v > int64_max div 10" "\<not> v * 10 > int64_max - digit_of x" using 2(2) by (auto simp: Let_def split: if_splits)
    then obtain m where m: "parse_int cs c (v * 10 + digit_of x) = (m, w, None)" "n = m + 1" using 2(2) False by (auto simp: Let_def split: prod.splits)
    obtain ds rest where "cs = ds @ c # rest" "list_all numeric ds" "m = length ds" "w = foldl (\<lambda>v c. v * 10 + digit_of c) (v * 10 + digit_of x) ds"
      using 2(1) [OF False _ x(2) refl refl x(3), of m w] x(1) m 2(3) by auto
    then show ?thesis using x(1) m(2) by (intro exI [of _ "x # ds"] exI [of _ rest]) auto
  qed
qed simp

text \<open>A value that was read is added to the innermost open container, or is the one at the top level.\<close>

definition key_free :: "bctx \<Rightarrow> bval \<Rightarrow> bool" where
  "key_free c v \<longleftrightarrow> (case c of (True, vs) # _ \<Rightarrow> length vs mod 2 = 0 \<longrightarrow> is_str v | _ \<Rightarrow> True)"

definition sound_at :: "string \<Rightarrow> nat \<Rightarrow> bdecode_state \<Rightarrow> bool" where
  "sound_at buf m s \<longleftrightarrow> (if bd_stack s = [] then \<exists>v. read_to buf m v s else \<exists>c. state_of buf m c s)"

lemma add_value:
  assumes "ctx_ok m 0 c" "key_free c v" "bval_ok v" "length c + bdepth v \<le> m" "text_at buf 0 (ctext c)" "text_at buf (length (ctext c)) (btext v)"
    "bd_start s = length (ctext c) + length (btext v)" "bd_tokens s = ctoks c @ toks (length (ctext c)) v" "bd_stack s = cframes 1 c"
  shows "sound_at buf m s"
proof (cases c)
  case Nil
  then show ?thesis using assms by (auto simp: sound_at_def read_to_def)
next
  case (Cons dv c')
  obtain d vs where dv: "dv = (d, vs)" by (cases dv)
  have "text_at buf 0 (ctext c @ btext v)" using assms(5,6) by (simp add: text_at_append)
  moreover have "d \<Longrightarrow> keys_due 0 (vs @ [v])" using assms(1,2) Cons dv keys_due_append [of 0 vs v] by (simp add: key_free_def)
  moreover have "d \<Longrightarrow> (length vs + 1) mod 2 = (length (vs @ [v])) mod 2" by simp
  ultimately have "state_of buf m ((d, vs @ [v]) # c') s"
    using assms Cons dv by (auto simp: state_of_def toks_list_append add.assoc)
  then show ?thesis using assms(9) Cons dv by (auto simp: sound_at_def)
qed

lemma flip_cframes:
  assumes "bd_stack s = cframes 0 c @ fs" "bd_tokens s = ctoks c @ ts"
  shows "bd_stack (flip_state (length c) s) = cframes 1 c @ fs"
proof (cases c)
  case Nil
  then show ?thesis using assms by (simp add: flip_state_def in_dict_def)
next
  case (Cons dv c')
  obtain d vs where dv: "dv = (d, vs)" by (cases dv)
  then show ?thesis using assms Cons
    by (simp add: flip_state_def in_dict_def nth_append list_update_append open_token_def mod_simps)
qed

lemma ctx_ok_value: "ctx_ok m 0 c \<Longrightarrow> (\<And>vs c'. c = (True, vs) # c' \<Longrightarrow> length vs mod 2 = 1) \<Longrightarrow> ctx_ok m 1 c"
  by (cases c) auto

lemma ctx_ok_key_free: "ctx_ok m 1 c \<Longrightarrow> ctx_ok m 0 c \<and> key_free c v"
  by (cases c) (auto simp: key_free_def split: bool.splits)

lemma sound_scalar:
  assumes st: "state_of buf m c s" and v: "bval_ok v" "length c + bdepth v \<le> m" "text_at buf (bd_start s) (btext v)" "key_free c v"
    and s2: "bd_start s2 = bd_start s + length (btext v)" "bd_tokens s2 = bd_tokens s @ toks (bd_start s) v" "bd_stack s2 = bd_stack s"
  shows "sound_at buf m (flip_state (length c) s2)"
  by (rule add_value [where c = c and v = v]) (use assms flip_cframes [of s2 c "[]"] in \<open>auto simp: state_of_def\<close>)

lemma sound_open:
  assumes st: "state_of buf m c s" and c1: "ctx_ok m 1 c" and ch: "bd_start s < length buf" "buf ! bd_start s = (if d then CHR ''d'' else CHR ''l'')"
    and rd: "read_open (if d then t_dict else t_list) s = Continue s2"
  shows "sound_at buf m (flip_state (length c) s2)"
proof -
  let ?fr = "\<lparr>fr_token = length (ctoks c), fr_state = 0\<rparr>"
  have s2: "bd_stack s2 = cframes 0 c @ [?fr]" "bd_tokens s2 = ctoks c @ [open_token (length (ctext c)) (if d then t_dict else t_list)]"
      "bd_start s2 = length (ctext c) + 1"
    using rd st by (auto simp: read_open_def push_token_def state_of_def)
  have "text_at buf (length (ctext c)) [if d then CHR ''d'' else CHR ''l'']"
    using ch st by (simp add: state_of_def text_at_Cons) (simp add: text_at_def)
  then have "state_of buf m ((d, []) # c) (flip_state (length c) s2)"
    using flip_cframes [OF s2(1,2)] st c1 s2 by (simp add: state_of_def text_at_append)
  then show ?thesis using flip_cframes [OF s2(1,2)] by (auto simp: sound_at_def)
qed

lemma sound_end:
  assumes st: "state_of buf m c s" and dep: "length c < m"
    and ch: "bd_start s < length buf" "buf ! bd_start s = CHR ''e''" and rd: "read_end s = Continue s2"
  shows "sound_at buf m (flip_state (length c) s2)"
proof -
  have "bd_stack s \<noteq> []" using rd by (auto simp: read_end_def fail_at_def)
  then obtain d vs c' where c: "c = (d, vs) # c'" using st by (cases c) (auto simp: state_of_def)
  let ?top = "length (ctoks c')" and ?v = "BCont d vs" and ?e = "mk_token (bd_start s) 1 t_end 0"
  have top: "top_dict s = d" "top_state s = (if d then length vs mod 2 else 0)" using state_top st c by auto
  then have even: "d \<Longrightarrow> length vs mod 2 = 0" using rd by (auto simp: read_end_def fail_at_def top_dict_def top_state_def split: if_splits)
  have ok: "ctx_ok m 1 c'" "bval_ok ?v" using st c even keys_ok_due [of 0 vs] by (auto simp: state_of_def)
  have lst: "fr_token (last (bd_stack s)) = ?top" "butlast (bd_stack s) = cframes 1 c'" using st c by (auto simp: state_of_def)
  let ?toks = "bd_tokens s @ [?e]"
  have upd: "?toks[?top := (?toks ! ?top)\<lparr>tk_next := (length ?toks - ?top) mod 2 ^ 29\<rparr>] = ctoks c' @ toks (length (ctext c')) ?v"
    using st c by (simp add: state_of_def length_toks nth_append list_update_append open_token_def)
  have s2: "bd_start s2 = bd_start s + 1" "bd_stack s2 = cframes 1 c'" "bd_tokens s2 = ctoks c' @ toks (length (ctext c')) ?v"
    using rd lst upd by (auto simp: read_end_def fail_at_def Let_def split: if_splits)
  have "flip_state (length c) s2 = s2" using s2(2) c by (simp add: flip_state_def in_dict_def)
  moreover have "sound_at buf m s2"
  proof (rule add_value [where c = c' and v = ?v])
    have t: "text_at buf 0 (ctext c @ [CHR ''e''])" using st ch by (simp add: state_of_def text_at_append text_at_Cons) (simp add: text_at_def)
    have "ctext c @ [CHR ''e''] = ctext c' @ btext ?v" using c by simp
    then show "text_at buf 0 (ctext c')" "text_at buf (length (ctext c')) (btext ?v)" using t by (simp_all add: text_at_append del: btext.simps)
    show "length c' + bdepth ?v \<le> m" using st c dep foldr_max [of vs bdepth "m - length c' - 1" 1] by (auto simp: state_of_def)
    show "bd_start s2 = length (ctext c') + length (btext ?v)" using s2(1) st c by (simp add: state_of_def)
  qed (use s2 ok ctx_ok_key_free in auto)
  ultimately show ?thesis by simp
qed

lemma text_at_drop: "drop p buf = t @ rest \<Longrightarrow> p \<le> length buf \<Longrightarrow> text_at buf p t"
  by (auto simp: text_at_def)

lemma read_integer_sound:
  assumes rd: "read_integer buf s = Continue s2" and ch: "bd_start s < length buf" "buf ! bd_start s = CHR ''i''"
  shows "\<exists>v. bval_ok v \<and> \<not> is_str v \<and> bdepth v = 1 \<and> text_at buf (bd_start s) (btext v) \<and> bd_start s2 = bd_start s + length (btext v)
     \<and> bd_tokens s2 = bd_tokens s @ toks (bd_start s) v \<and> bd_stack s2 = bd_stack s"
proof -
  obtain n where n: "check_integer (drop (bd_start s + 1) buf) = (n, None)" "s2 = push_token (mk_token (bd_start s) 1 t_integer 1) (n + 2) s"
    using rd by (auto simp: read_integer_def split: prod.splits option.splits)
  obtain t rest where t: "drop (bd_start s + 1) buf = t @ CHR ''e'' # rest" "int_text t" "n = length t" using check_integer_sound [OF n(1)] by auto
  have "drop (bd_start s + 1) buf = (t @ ''e'') @ rest" using t(1) by simp
  then have "text_at buf (bd_start s + 1) (t @ ''e'')" using ch(1) by (intro text_at_drop) simp_all
  then have "text_at buf (bd_start s) (btext (BInt t))" using ch by (simp add: text_at_Cons)
  then show ?thesis using n(2) t(2,3) by (intro exI [of _ "BInt t"]) (simp add: push_token_def)
qed

lemma read_string_sound:
  assumes rd: "read_string buf s = Continue s2" and ch: "bd_start s < length buf"
  shows "\<exists>v. bval_ok v \<and> is_str v \<and> bdepth v = 1 \<and> text_at buf (bd_start s) (btext v) \<and> bd_start s2 = bd_start s + length (btext v)
     \<and> bd_tokens s2 = bd_tokens s @ toks (bd_start s) v \<and> bd_stack s2 = bd_stack s"
proof -
  let ?p = "bd_start s" and ?c = "buf ! bd_start s"
  obtain n len e where p: "parse_int (drop (Suc ?p) buf) (CHR '':'') (digit_of ?c) = (n, len, e)" by (metis prod_cases3)
  have num: "numeric ?c" and e: "e = None" using rd by (auto simp: read_string_def p Let_def fail_at_def split: if_splits option.splits)
  have nb: "n \<le> length (drop (Suc ?p) buf)" using parse_int_bound [of "drop (Suc ?p) buf"] p by (metis fst_conv)
  have g: "Suc ?p + n \<noteq> length buf" "len \<le> int (length buf) - int (Suc ?p + n) - 1" "0 \<le> len" "n + 2 \<le> long_string_max_header"
      "s2 = push_token (mk_token ?p 1 t_string (n + 2)) (nat len) (s\<lparr>bd_start := ?p + n + 2\<rparr>)"
    using rd num e by (auto simp: read_string_def p Let_def fail_at_def split: if_splits)
  have nl: "n < length (drop (Suc ?p) buf)" using nb g(1) ch by simp
  obtain ds rest where ds: "drop (Suc ?p) buf = ds @ CHR '':'' # rest" "list_all numeric ds" "n = length ds"
      "len = foldl (\<lambda>v c. v * 10 + digit_of c) (digit_of ?c) ds"
    using parse_int_sound [OF p [unfolded e] nl] by (elim exE conjE) (rule that)
  have "length buf - Suc ?p = length ds + 1 + length rest" using arg_cong [OF ds(1), of length] by simp
  then have lr: "nat len \<le> length rest" using g(2) ds(3) by simp
  let ?v = "BStr (?c # ds) (take (nat len) rest)"
  have dr: "drop ?p buf = btext ?v @ drop (nat len) rest" using ds(1) ch by (simp flip: Cons_nth_drop_Suc)
  have "text_at buf ?p (btext ?v)" by (rule text_at_drop [OF dr]) (use ch in simp)
  moreover have "bval_ok ?v" using num ds(2,3,4) lr g(3,4) by (simp add: str_text_def dec_val_def)
  ultimately show ?thesis using g(5) ds(3) lr by (intro exI [of _ ?v]) (simp add: push_token_def)
qed

lemma read_token_sound:
  assumes st: "state_of buf m c s" and start: "bd_start s < length buf" and dep: "length c < m"
    and key: "top_dict s \<Longrightarrow> top_state s = 0 \<Longrightarrow> numeric (buf ! bd_start s) \<or> buf ! bd_start s = CHR ''e''"
    and rd: "read_token buf s = Continue s2"
  shows "sound_at buf m (flip_state (length c) s2)"
proof -
  let ?t = "buf ! bd_start s"
  have val: "ctx_ok m 1 c" if "\<not> numeric ?t" "?t \<noteq> CHR ''e''"
  proof (rule ctx_ok_value)
    show "ctx_ok m 0 c" using st by (simp add: state_of_def)
    show "length vs mod 2 = 1" if "c = (True, vs) # c'" for vs c'
      using state_top [of buf m True vs c' s] st that key \<open>\<not> numeric ?t\<close> \<open>?t \<noteq> CHR ''e''\<close> by (auto simp: mod2_eq_if)
  qed
  consider (op) dict where "?t = (if dict then CHR ''d'' else CHR ''l'')" | (int) "?t = CHR ''i''" | (en) "?t = CHR ''e''"
    | (str) "?t \<noteq> CHR ''d''" "?t \<noteq> CHR ''l''" "?t \<noteq> CHR ''i''" "?t \<noteq> CHR ''e''"
    by (metis (full_types))
  then show ?thesis
  proof cases
    case op
    have "\<not> numeric ?t" "?t \<noteq> CHR ''e''" using op by (auto simp: numeric_def)
    moreover have "read_open (if dict then t_dict else t_list) s = Continue s2" using rd op by (simp add: read_token_def split: if_splits)
    ultimately show ?thesis using sound_open [OF st val start op] by simp
  next
    case int
    have "\<not> numeric ?t" "?t \<noteq> CHR ''e''" using int by (auto simp: numeric_def)
    moreover have "read_integer buf s = Continue s2" using rd int by (simp add: read_token_def)
    ultimately show ?thesis using read_integer_sound [of buf s s2] start int sound_scalar [OF st] ctx_ok_key_free [OF val] dep by (metis Suc_eq_plus1 Suc_leI)
  next
    case en
    then show ?thesis using sound_end [OF st dep start en] rd by (simp add: read_token_def)
  next
    case str
    then have "read_string buf s = Continue s2" using rd by (simp add: read_token_def)
    moreover have "key_free c v" if "is_str v" for v using that by (auto simp: key_free_def split: list.splits bool.splits)
    ultimately show ?thesis using read_string_sound [of buf s s2] start sound_scalar [OF st] dep by (metis Suc_eq_plus1 Suc_leI)
  qed
qed

lemma read_token_not_Complete: "read_token buf s \<noteq> Complete s'"
  by (auto simp: read_token_def read_open_def read_integer_def read_end_def read_string_def fail_at_def Let_def split: prod.splits option.splits)

lemma iter_sound:
  assumes st: "state_of buf d c s" and it: "bdecode_iter buf d s = Continue s' \<or> bdecode_iter buf d s = Complete s'"
  shows "sound_at buf d s'" "bdecode_iter buf d s = Complete s' \<longleftrightarrow> bd_stack s' = []"
proof -
  let ?s1 = "s\<lparr>bd_limit := bd_limit s - 1\<rparr>"
  have st1: "state_of buf d c ?s1" using st by (simp add: state_of_def)
  have len: "length (bd_stack s) = length c" using st by (simp add: state_of_def)
  have start: "bd_start ?s1 < length buf" using it by (auto simp: bdecode_iter_def fail_at_def split: if_splits)
  have dep: "length c < d" using it len by (auto simp: bdecode_iter_def fail_at_def split: if_splits)
  have key: "numeric (buf ! bd_start ?s1) \<or> buf ! bd_start ?s1 = CHR ''e''" if "top_dict ?s1" "top_state ?s1 = 0"
  proof -
    have ne: "bd_stack s \<noteq> []" using that(1) by (auto simp: top_dict_def in_dict_def)
    then have "in_dict ?s1 (length (bd_stack s))" "fr_state (bd_stack s ! (length (bd_stack s) - 1)) = 0"
      using that by (simp_all add: top_dict_def top_state_def last_conv_nth)
    then show ?thesis using it ne by (auto simp: bdecode_iter_def fail_at_def Let_def split: if_splits)
  qed
  obtain s2 where s2: "read_token buf ?s1 = Continue s2" "s' = flip_state (length c) s2"
    and stop: "bdecode_iter buf d s = (if bd_stack s' = [] then Complete s' else Continue s')"
    using it len read_token_not_Complete by (auto simp: bdecode_iter_def fail_at_def Let_def split: if_splits bdecode_step.splits)
  show "sound_at buf d s'" using read_token_sound [OF st1 start dep key s2(1)] s2(2) by simp
  show "bdecode_iter buf d s = Complete s' \<longleftrightarrow> bd_stack s' = []" using stop by simp
qed

lemma loop_sound: "state_of buf d c s \<Longrightarrow> bdecode_loop buf d s = Complete s' \<Longrightarrow> \<exists>v. read_to buf d v s'"
proof (induction buf d s arbitrary: c rule: bdecode_loop.induct)
  case (1 buf d s)
  show ?case
  proof (cases "bdecode_iter buf d s")
    case (Continue s1)
    then have "sound_at buf d s1" "bd_stack s1 \<noteq> []" using iter_sound [OF 1(2), of s1] by auto
    then obtain c1 where "state_of buf d c1 s1" by (auto simp: sound_at_def)
    then show ?thesis using 1(1) [OF Continue] 1(3) Continue by (simp add: bdecode_loop.simps [of buf d s])
  next
    case (Complete s1)
    then show ?thesis using iter_sound [OF 1(2), of s1] 1(3) by (simp add: bdecode_loop.simps [of buf d s] sound_at_def)
  qed (use 1(3) in \<open>simp add: bdecode_loop.simps [of buf d s]\<close>)
qed

lemma loop_not_Continue: "bdecode_loop buf d s \<noteq> Continue s'"
proof (induction buf d s rule: bdecode_loop.induct)
  case (1 buf d s)
  then show ?case by (cases "bdecode_iter buf d s") (simp_all add: bdecode_loop.simps [of buf d s])
qed

text \<open>The token budget: one token each iteration.\<close>

lemma read_token_budget: "read_token buf s = Continue s' \<Longrightarrow> bd_limit s' = bd_limit s \<and> length (bd_tokens s') = length (bd_tokens s) + 1"
  by (auto simp: read_token_def read_open_def read_integer_def read_end_def read_string_def fail_at_def push_token_def Let_def
      split: prod.splits option.splits if_splits)

lemma iter_budget:
  assumes "bdecode_iter buf d s = Continue s' \<or> bdecode_iter buf d s = Complete s'"
  shows "0 \<le> bd_limit s'" "bd_limit s' + int (length (bd_tokens s')) = bd_limit s + int (length (bd_tokens s))"
proof -
  let ?s1 = "s\<lparr>bd_limit := bd_limit s - 1\<rparr>"
  obtain s2 where "read_token buf ?s1 = Continue s2" "s' = flip_state (length (bd_stack s)) s2" "0 \<le> bd_limit s - 1"
    using assms read_token_not_Complete by (auto simp: bdecode_iter_def fail_at_def Let_def split: if_splits bdecode_step.splits)
  then show "0 \<le> bd_limit s'" "bd_limit s' + int (length (bd_tokens s')) = bd_limit s + int (length (bd_tokens s))"
    using read_token_budget [of buf ?s1 s2] by auto
qed

lemma loop_budget: "bdecode_loop buf d s = Complete s' \<Longrightarrow> int (length (bd_tokens s')) \<le> bd_limit s + int (length (bd_tokens s))"
proof (induction buf d s rule: bdecode_loop.induct)
  case (1 buf d s)
  show ?case
  proof (cases "bdecode_iter buf d s")
    case (Continue s1)
    then show ?thesis using 1(1) [OF Continue] 1(2) iter_budget [of buf d s s1] by (simp add: bdecode_loop.simps [of buf d s])
  next
    case (Complete s1)
    then show ?thesis using 1(2) iter_budget [of buf d s s1] by (simp add: bdecode_loop.simps [of buf d s])
  qed (use 1(2) in \<open>simp add: bdecode_loop.simps [of buf d s]\<close>)
qed

text \<open>A buffer is accepted exactly when it starts with a value that keeps to the limits.\<close>

definition fits :: "bval \<Rightarrow> nat \<Rightarrow> int \<Rightarrow> bool" where
  "fits v d limit \<longleftrightarrow> bval_ok v \<and> bdepth v \<le> d \<and> int (ntok v) \<le> limit"

lemma bdecode_sound:
  assumes ok: "br_error (bdecode buf d limit) = None"
  shows "\<exists>v rest. buf = btext v @ rest \<and> fits v d limit \<and> length buf \<le> max_offset"
proof -
  let ?s0 = "\<lparr>bd_start = 0, bd_tokens = [], bd_stack = [], bd_limit = limit\<rparr>"
  obtain s where s: "bdecode_loop buf d ?s0 = Complete s" and big: "length buf \<le> max_offset"
    using ok loop_not_Continue [of buf d ?s0] by (cases "bdecode_loop buf d ?s0") (auto simp: bdecode_def Let_def split: if_splits)
  have "state_of buf d [] ?s0" by (simp add: state_of_def text_at_def)
  then obtain v where v: "read_to buf d v s" using loop_sound s by blast
  have "int (ntok v) \<le> limit" using loop_budget [OF s] v by (simp add: read_to_def length_toks)
  then show ?thesis using v big by (auto simp: read_to_def text_at_def fits_def)
qed

lemma bdecode_accepts:
  "br_error (bdecode buf d limit) = None \<longleftrightarrow> (\<exists>v rest. buf = btext v @ rest \<and> fits v d limit) \<and> length buf \<le> max_offset"
  using bdecode_sound [of buf d limit] bdecode_text by (fastforce simp: fits_def)

end
