(* ===== verification/Bencode_Nodes.thy ===== *)
theory Bencode_Nodes
  imports Bencode_Values "HOL-Library.List_Lexorder" "HOL-Library.Char_ord"
begin

text \<open>
  \<open>bdecode_node\<close> of src/bdecode.cpp: the accessors over the token list, with the caches they keep, and
  the conversion of a node to an \<open>entry\<close> (src/entry.cpp); each is shown to give the part of the value
  it stands for.
\<close>

section \<open>Nodes\<close>

text \<open>The types of nodes; an \<open>end\<close> token casts to a value the enumeration does not name.\<close>

datatype node_type = none_t | dict_t | list_t | string_t | int_t | end_t

text \<open>
  A node: the tokens and the buffer of the tree it is in, its token, and the cached results of the
  last lookup by index and of the last size. No token is the index \<open>-1\<close>.
\<close>

record bdecode_node =
  bn_tokens :: "bdecode_token list"
  bn_buffer :: string
  bn_idx :: int
  bn_last_index :: int
  bn_last_token :: int
  bn_size :: int

definition node_at :: "bdecode_token list \<Rightarrow> string \<Rightarrow> int \<Rightarrow> bdecode_node" where
  "node_at tokens buf idx = \<lparr>bn_tokens = tokens, bn_buffer = buf, bn_idx = idx, bn_last_index = -1, bn_last_token = -1, bn_size = -1\<rparr>"

definition no_node :: bdecode_node where
  "no_node = node_at [] [] (-1)"

definition child_node :: "bdecode_node \<Rightarrow> int \<Rightarrow> bdecode_node" where
  "child_node n token = node_at (bn_tokens n) (bn_buffer n) token"

definition root_node :: "string \<Rightarrow> bdecode_result \<Rightarrow> bdecode_node" where
  "root_node buf r = node_at (br_tokens r) buf (br_idx r)"

definition tok :: "bdecode_node \<Rightarrow> int \<Rightarrow> bdecode_token" where
  "tok n token = bn_tokens n ! nat token"

definition skip_item :: "bdecode_node \<Rightarrow> int \<Rightarrow> int" where
  "skip_item n token = token + int (tk_next (tok n token))"

definition token_source_span :: "bdecode_node \<Rightarrow> int \<Rightarrow> int" where
  "token_source_span n token = int (tk_offset (tok n (token + 1))) - int (tk_offset (tok n token))"

definition node_type :: "bdecode_node \<Rightarrow> node_type" where
  "node_type n =
     (if bn_idx n = -1 then none_t
      else case tk_type (tok n (bn_idx n)) of
             t_long_string \<Rightarrow> string_t | t_string \<Rightarrow> string_t | t_dict \<Rightarrow> dict_t | t_list \<Rightarrow> list_t | t_integer \<Rightarrow> int_t | t_none \<Rightarrow> none_t | t_end \<Rightarrow> end_t)"

definition data_section :: "bdecode_node \<Rightarrow> string" where
  "data_section n =
     (if bn_idx n = -1 then []
      else let t = tok n (bn_idx n); nxt = tok n (skip_item n (bn_idx n))
           in take (tk_offset nxt - tk_offset t) (drop (tk_offset t) (bn_buffer n)))"

definition data_offset :: "bdecode_node \<Rightarrow> int" where
  "data_offset n = (if bn_idx n = -1 then -1 else int (tk_offset (tok n (bn_idx n))))"

definition int_value :: "bdecode_node \<Rightarrow> int" where
  "int_value n =
     (let size = token_source_span n (bn_idx n); ptr = tk_offset (tok n (bn_idx n)) + 1;
          negative = (if bn_buffer n ! ptr = CHR ''-'' then 1 else 0);
          (k, val, ec) = parse_int (take (nat size - negative) (drop (ptr + negative) (bn_buffer n))) (CHR ''e'') 0
      in if ec \<noteq> None then 0 else if negative = 1 then - val else val)"

definition string_offset :: "bdecode_node \<Rightarrow> nat" where
  "string_offset n = (let t = tok n (bn_idx n) in tk_offset t + start_offset t)"

definition string_length :: "bdecode_node \<Rightarrow> int" where
  "string_length n = token_source_span n (bn_idx n) - int (start_offset (tok n (bn_idx n)))"

definition string_value :: "bdecode_node \<Rightarrow> string" where
  "string_value n = take (nat (string_length n)) (drop (string_offset n) (bn_buffer n))"

text \<open>Lookups by index start where the last one ended when that is not past the index.\<close>

definition lookup_start :: "bdecode_node \<Rightarrow> int \<Rightarrow> int \<times> int" where
  "lookup_start n i =
     (if bn_last_index n \<le> i \<and> bn_last_index n \<noteq> -1 then (bn_last_token n, bn_last_index n) else (bn_idx n + 1, 0))"

function list_walk :: "bdecode_node \<Rightarrow> int \<Rightarrow> int \<Rightarrow> int \<Rightarrow> int" where
  "list_walk n i token item = (if item < i then list_walk n i (skip_item n token) (item + 1) else token)"
  by pat_completeness auto

termination
  by (relation "measure (\<lambda>(n, i, token, item). nat (i - item))") auto

definition list_at :: "bdecode_node \<Rightarrow> int \<Rightarrow> bdecode_node \<times> bdecode_node" where
  "list_at n i =
     (let (token0, item) = lookup_start n i; token = list_walk n i token0 item
      in (child_node n token, n\<lparr>bn_last_token := token, bn_last_index := i\<rparr>))"

definition list_string_value_at :: "bdecode_node \<Rightarrow> int \<Rightarrow> string \<Rightarrow> string" where
  "list_string_value_at n i default_val =
     (let c = fst (list_at n i) in if node_type c \<noteq> string_t then default_val else string_value c)"

definition list_int_value_at :: "bdecode_node \<Rightarrow> int \<Rightarrow> int \<Rightarrow> int" where
  "list_int_value_at n i default_val =
     (let c = fst (list_at n i) in if node_type c \<noteq> int_t then default_val else int_value c)"

text \<open>The tokens of the items up to the end token of the container; a token list with no end may never return.\<close>

partial_function (option) count_items :: "bdecode_node \<Rightarrow> int \<Rightarrow> int \<Rightarrow> int option" where
  "count_items n token ret =
     (if tk_type (tok n token) = t_end then Some ret else count_items n (skip_item n token) (ret + 1))"

definition list_size :: "bdecode_node \<Rightarrow> (int \<times> bdecode_node) option" where
  "list_size n =
     (if bn_size n \<noteq> -1 then Some (bn_size n, n)
      else
        let (token, ret) = (if bn_last_index n \<noteq> -1 then (bn_last_token n, bn_last_index n) else (bn_idx n + 1, 0))
        in case count_items n token ret of None \<Rightarrow> None | Some r \<Rightarrow> Some (r, n\<lparr>bn_size := r\<rparr>))"

function dict_walk :: "bdecode_node \<Rightarrow> int \<Rightarrow> int \<Rightarrow> int \<Rightarrow> int" where
  "dict_walk n i token item =
     (if item < i then dict_walk n i (skip_item n (skip_item n token)) (item + 1) else token)"
  by pat_completeness auto

termination
  by (relation "measure (\<lambda>(n, i, token, item). nat (i - item))") auto

declare list_walk.simps [simp del] dict_walk.simps [simp del]

definition dict_at_node :: "bdecode_node \<Rightarrow> int \<Rightarrow> (bdecode_node \<times> bdecode_node) \<times> bdecode_node" where
  "dict_at_node n i =
     (let (token0, item) = lookup_start n i; token = dict_walk n i token0 item;
          n' = (if i > 0 then n\<lparr>bn_last_token := token, bn_last_index := i\<rparr> else n)
      in ((child_node n token, child_node n (skip_item n token)), n'))"

definition dict_at :: "bdecode_node \<Rightarrow> int \<Rightarrow> (string \<times> bdecode_node) \<times> bdecode_node" where
  "dict_at n i = (let ((k, v), n') = dict_at_node n i in ((string_value k, v), n'))"

definition dict_size :: "bdecode_node \<Rightarrow> (int \<times> bdecode_node) option" where
  "dict_size n =
     (if bn_size n \<noteq> -1 then Some (bn_size n, n)
      else
        let (token, ret) = (if bn_last_index n \<noteq> -1 then (bn_last_token n, bn_last_index n * 2) else (bn_idx n + 1, 0))
        in case count_items n token ret of None \<Rightarrow> None | Some r \<Rightarrow> Some (r sdiv 2, n\<lparr>bn_size := r sdiv 2\<rparr>))"

partial_function (option) find_key :: "bdecode_node \<Rightarrow> string \<Rightarrow> int \<Rightarrow> bdecode_node option" where
  "find_key n key token =
     (if tk_type (tok n token) = t_end then Some no_node
      else
        let t = tok n token; size = token_source_span n token - int (start_offset t)
        in if int (length key) = size \<and> key = take (nat size) (drop (tk_offset t + start_offset t) (bn_buffer n))
           then Some (child_node n (skip_item n token))
           else find_key n key (skip_item n (skip_item n token)))"

definition dict_find :: "bdecode_node \<Rightarrow> string \<Rightarrow> bdecode_node option" where
  "dict_find n key = find_key n key (bn_idx n + 1)"

definition dict_find_of :: "node_type \<Rightarrow> bdecode_node \<Rightarrow> string \<Rightarrow> bdecode_node option" where
  "dict_find_of t n key = (case dict_find n key of None \<Rightarrow> None | Some r \<Rightarrow> Some (if node_type r = t then r else no_node))"

definition dict_find_string_value :: "bdecode_node \<Rightarrow> string \<Rightarrow> string \<Rightarrow> string option" where
  "dict_find_string_value n key default_value =
     (case dict_find n key of None \<Rightarrow> None | Some r \<Rightarrow> Some (if node_type r \<noteq> string_t then default_value else string_value r))"

definition dict_find_int_value :: "bdecode_node \<Rightarrow> string \<Rightarrow> int \<Rightarrow> int option" where
  "dict_find_int_value n key default_val =
     (case dict_find n key of None \<Rightarrow> None | Some r \<Rightarrow> Some (if node_type r \<noteq> int_t then default_val else int_value r))"

section \<open>Entries from nodes\<close>

text \<open>The dictionary of an entry is a \<open>std::map\<close> ordered by \<open>strview_less\<close>; \<open>d[k] = e\<close>.\<close>

fun map_assign :: "string \<Rightarrow> entry \<Rightarrow> (string \<times> entry) list \<Rightarrow> (string \<times> entry) list" where
  "map_assign k e [] = [(k, e)]"
| "map_assign k e ((k', e') # kvs) =
     (if k < k' then (k, e) # (k', e') # kvs
      else if k' < k then (k', e') # map_assign k e kvs
      else (k', e) # kvs)"

text \<open>The loops of \<open>operator=\<close> call it for each child; the node keeps its caches from call to call.\<close>

partial_function (option) list_entries :: "(bdecode_node \<Rightarrow> entry option) \<Rightarrow> bdecode_node \<Rightarrow> int \<Rightarrow> entry list \<Rightarrow> entry list option" where
  "list_entries assign n i es =
     Option.bind (list_size n) (\<lambda>(sz, n1).
       if i < sz then
         (let (c, n2) = list_at n1 i
          in Option.bind (assign c) (\<lambda>e. list_entries assign n2 (i + 1) (es @ [e])))
       else Some es)"

partial_function (option) dict_entries :: "(bdecode_node \<Rightarrow> entry option) \<Rightarrow> bdecode_node \<Rightarrow> int \<Rightarrow> (string \<times> entry) list \<Rightarrow> (string \<times> entry) list option" where
  "dict_entries assign n i kvs =
     Option.bind (dict_size n) (\<lambda>(sz, n1).
       if i < sz then
         (let ((k, c), n2) = dict_at n1 i
          in Option.bind (assign c) (\<lambda>e. dict_entries assign n2 (i + 1) (map_assign k e kvs)))
       else Some kvs)"

declare count_items.simps [code] find_key.simps [code] list_entries.simps [code] dict_entries.simps [code]

text \<open>\<open>entry::operator=(bdecode_node const&)\<close>; the fuel is the depth of the recursion.\<close>

primrec entry_of :: "nat \<Rightarrow> bdecode_node \<Rightarrow> entry option" where
  "entry_of 0 n = None"
| "entry_of (Suc fuel) n =
     (case node_type n of
        string_t \<Rightarrow> Some (EStr (string_value n))
      | int_t \<Rightarrow> Some (EInt (int_value n))
      | dict_t \<Rightarrow> map_option EDict (dict_entries (entry_of fuel) n 0 [])
      | list_t \<Rightarrow> map_option EList (list_entries (entry_of fuel) n 0 [])
      | _ \<Rightarrow> Some EUndef)"

section \<open>Where the values are\<close>

text \<open>The tokens of \<open>v\<close> are at index \<open>i\<close>, its text at position \<open>p\<close>, and the token after them starts where the text ends.\<close>

definition placed :: "bdecode_token list \<Rightarrow> string \<Rightarrow> nat \<Rightarrow> nat \<Rightarrow> bval \<Rightarrow> bool" where
  "placed T buf i p v \<longleftrightarrow>
     (\<exists>pre nx post. T = pre @ toks p v @ nx # post \<and> length pre = i \<and> tk_offset nx = p + length (btext v))
     \<and> text_at buf p (btext v) \<and> length buf \<le> max_offset \<and> bval_ok v"

definition item_tok :: "nat \<Rightarrow> bval list \<Rightarrow> nat \<Rightarrow> nat" where
  "item_tok i vs j = i + 1 + sum_list (map ntok (take j vs))"

definition item_pos :: "nat \<Rightarrow> bval list \<Rightarrow> nat \<Rightarrow> nat" where
  "item_pos p vs j = p + 1 + length (concat (map btext (take j vs)))"

definition type_of :: "bval \<Rightarrow> node_type" where
  "type_of v = (case v of BInt t \<Rightarrow> int_t | BStr h s \<Rightarrow> string_t | BCont d vs \<Rightarrow> (if d then dict_t else list_t))"

lemma token_mod: "x \<le> max_offset \<Longrightarrow> x mod 2 ^ 29 = x"
  by (simp add: max_offset_def)

lemma first_token: "tk_offset (hd (toks p v)) = p mod 2 ^ 29" "tk_next (hd (toks p v)) = ntok v mod 2 ^ 29"
  by (cases v; simp add: mk_token_def open_token_def Let_def)+

lemma first_type: "tk_type (hd (toks p v)) \<noteq> t_end" "tk_type (hd (toks p v)) \<noteq> t_none"
  by (cases v; simp add: mk_token_def open_token_def Let_def)+

lemma placed_bound:
  assumes "placed T buf i p v"
  shows "p + length (btext v) \<le> max_offset" "ntok v \<le> max_offset" "i + ntok v < length T"
proof -
  have t: "text_at buf p (btext v)" "length buf \<le> max_offset" "bval_ok v" using assms by (auto simp: placed_def)
  then show b: "p + length (btext v) \<le> max_offset" by (auto elim: text_atD)
  show "ntok v \<le> max_offset" using ntok_le_text [OF t(3)] b by simp
  show "i + ntok v < length T" using assms by (auto simp: placed_def length_toks)
qed

lemma placed_head:
  assumes "placed T buf i p v"
  shows "T ! i = hd (toks p v)" "tk_offset (T ! i) = p" "tk_next (T ! i) = ntok v" "tk_offset (T ! (i + ntok v)) = p + length (btext v)"
proof -
  obtain pre nx post where T: "T = pre @ toks p v @ nx # post" "length pre = i" "tk_offset nx = p + length (btext v)"
    using assms by (auto simp: placed_def)
  obtain t ts where tt: "toks p v = t # ts" by (cases "toks p v") (use toks_nonempty(2) [of p v] in auto)
  show hd: "T ! i = hd (toks p v)" using T tt by (simp add: nth_append)
  show "tk_offset (T ! i) = p" "tk_next (T ! i) = ntok v"
    unfolding hd first_token using placed_bound [OF assms] by (simp_all add: max_offset_def)
  have "T ! (i + ntok v) = nx" using T(1,2) length_toks(1) [of p v] by (simp add: nth_append)
  then show "tk_offset (T ! (i + ntok v)) = p + length (btext v)" using T(3) by simp
qed

lemma next_item_offset:
  "tk_offset (hd (toks_list q ws @ [mk_token (q + length (concat (map btext ws))) 1 t_end 0])) = q mod 2 ^ 29"
proof (cases ws)
  case (Cons w ws')
  then show ?thesis using first_token(1) [of q w] toks_nonempty(2) [of q w] by simp
qed (simp add: mk_token_def Let_def)

lemma placed_item:
  assumes pl: "placed T buf i p (BCont d vs)" and j: "j < length vs"
  shows "placed T buf (item_tok i vs j) (item_pos p vs j) (vs ! j)"
proof -
  let ?q = "item_pos p vs j" and ?v = "vs ! j" and ?ws = "drop (Suc j) vs"
  let ?etok = "mk_token (p + 1 + length (concat (map btext vs))) 1 t_end 0"
  obtain pre nx post where T: "T = pre @ toks p (BCont d vs) @ nx # post" "length pre = i" using pl by (auto simp: placed_def)
  have vs: "vs = take j vs @ ?v # ?ws" using j by (simp add: id_take_nth_drop)
  have tx: "concat (map btext vs) = concat (map btext (take j vs)) @ btext ?v @ concat (map btext ?ws)"
    by (subst vs) (simp only: map_append concat_append list.map concat.simps)
  have tl: "toks_list (p + 1) vs = toks_list (p + 1) (take j vs) @ toks ?q ?v @ toks_list (?q + length (btext ?v)) ?ws"
    by (subst vs) (simp add: toks_list_append item_pos_def)
  let ?more = "toks_list (?q + length (btext ?v)) ?ws @ [?etok]"
  have e: "?etok = mk_token (?q + length (btext ?v) + length (concat (map btext ?ws))) 1 t_end 0" by (simp add: tx item_pos_def add.assoc)
  obtain nx' post' where more: "?more = nx' # post'" by (cases ?more) auto
  have t: "text_at buf p (btext (BCont d vs))" "length buf \<le> max_offset" "bval_ok (BCont d vs)" using pl by (auto simp: placed_def)
  have tv: "text_at buf ?q (btext ?v)" using t(1) by (simp add: tx text_at_Cons text_at_append item_pos_def)
  have qb: "?q + length (btext ?v) \<le> max_offset" using tv t(2) by (auto elim: text_atD)
  have "tk_offset nx' = ?q + length (btext ?v)"
    using next_item_offset [of "?q + length (btext ?v)" ?ws] token_mod [OF qb] more e by simp
  moreover obtain pre' where "T = pre' @ toks ?q ?v @ nx' # (post' @ nx # post)" "length pre' = item_tok i vs j"
  proof -
    obtain op where "toks p (BCont d vs) = op # toks_list (p + 1) vs @ [?etok]" by simp
    then have "T = (pre @ op # toks_list (p + 1) (take j vs)) @ toks ?q ?v @ nx' # (post' @ nx # post)" using T(1) tl more by simp
    then show thesis by (rule that) (simp add: T(2) length_toks item_tok_def)
  qed
  moreover have "bval_ok ?v" using t(3) j by simp
  ultimately show ?thesis using tv t(2) unfolding placed_def by blast
qed

lemma placed_end:
  assumes pl: "placed T buf i p (BCont d vs)"
  shows "tk_type (T ! item_tok i vs (length vs)) = t_end"
proof -
  obtain pre nx post where T: "T = pre @ toks p (BCont d vs) @ nx # post" "length pre = i" using pl by (auto simp: placed_def)
  then have "T ! item_tok i vs (length vs) = mk_token (p + 1 + length (concat (map btext vs))) 1 t_end 0"
    using length_toks(2) [of "p + 1" vs] by (simp add: nth_append item_tok_def)
  then show ?thesis by (simp add: mk_token_def)
qed

lemma item_tok_Suc: "j < length vs \<Longrightarrow> item_tok i vs (Suc j) = item_tok i vs j + ntok (vs ! j)"
  by (simp add: item_tok_def take_Suc_conv_app_nth)

lemma item_tok_0 [simp]: "item_tok i vs 0 = i + 1"
  by (simp add: item_tok_def)

section \<open>The accessors\<close>

text \<open>A lookup cache holds the token of an item, a size cache the number of items or pairs.\<close>

definition cache_ok :: "bdecode_node \<Rightarrow> nat \<Rightarrow> bval \<Rightarrow> bool" where
  "cache_ok n i v \<longleftrightarrow> (case v of
     BCont d vs \<Rightarrow> let step = (if d then 2 else 1) in
       (bn_last_index n \<noteq> -1 \<longrightarrow> (\<exists>k. bn_last_index n = int k \<and> step * k \<le> length vs \<and> bn_last_token n = int (item_tok i vs (step * k))))
       \<and> (bn_size n \<noteq> -1 \<longrightarrow> bn_size n = int (length vs div step))
   | _ \<Rightarrow> True)"

definition node_of :: "bdecode_node \<Rightarrow> nat \<Rightarrow> nat \<Rightarrow> bval \<Rightarrow> bool" where
  "node_of n i p v \<longleftrightarrow> placed (bn_tokens n) (bn_buffer n) i p v \<and> bn_idx n = int i \<and> cache_ok n i v"

lemma node_ofD: "node_of n i p v \<Longrightarrow> placed (bn_tokens n) (bn_buffer n) i p v"
  by (simp add: node_of_def)

lemma node_of_at: "placed T buf i p v \<Longrightarrow> node_of (node_at T buf (int i)) i p v"
  by (auto simp: node_of_def node_at_def cache_ok_def Let_def split: bval.splits)

lemma child_ok: "node_of n i p v \<Longrightarrow> placed (bn_tokens n) (bn_buffer n) j q w \<Longrightarrow> node_of (child_node n (int j)) j q w"
  by (simp add: child_node_def node_of_at)

lemma node_type_ok:
  assumes "node_of n i p v"
  shows "node_type n = type_of v"
proof -
  have "tok n (bn_idx n) = hd (toks p v)" "bn_idx n \<noteq> -1" using placed_head(1) [OF node_ofD [OF assms]] assms by (simp_all add: node_of_def tok_def)
  then show ?thesis by (cases v) (auto simp: node_type_def type_of_def mk_token_def open_token_def Let_def)
qed

lemma data_section_ok:
  assumes "node_of n i p v"
  shows "data_section n = btext v" "data_offset n = int p"
proof -
  note h = placed_head [OF node_ofD [OF assms]]
  have idx: "bn_idx n = int i" using assms by (simp add: node_of_def)
  have sk: "nat (int i + int (ntok v)) = i + ntok v" by simp
  obtain rest where "drop p (bn_buffer n) = btext v @ rest" using node_ofD [OF assms] by (auto simp: placed_def text_at_def)
  then show "data_section n = btext v" using h idx sk by (simp add: data_section_def tok_def skip_item_def Let_def)
  show "data_offset n = int p" using h idx by (simp add: data_offset_def tok_def)
qed

lemma span_ok:
  assumes "node_of n i p v" "\<not> (\<exists>d vs. v = BCont d vs)"
  shows "token_source_span n (int i) = int (length (btext v))" "tk_offset (tok n (int i)) = p"
proof -
  note h = placed_head [OF node_ofD [OF assms(1)]]
  have "ntok v = 1" using assms(2) by (cases v) auto
  then show "token_source_span n (int i) = int (length (btext v))" "tk_offset (tok n (int i)) = p"
    using h by (simp_all add: token_source_span_def tok_def nat_add_distrib)
qed

lemma start_offset_ok:
  assumes "1 \<le> k" "k + 1 \<le> long_string_max_header"
  shows "start_offset (mk_token p nxt t_string (k + 1)) = k + 1"
  using assms by (auto simp: start_offset_def mk_token_def Let_def long_string_max_header_def short_string_max_header_def)

lemma string_ok:
  assumes "node_of n i p (BStr h s)"
  shows "string_value n = s" "string_length n = int (length s)" "string_offset n = p + length h + 1"
proof -
  have ok: "str_text h s" using node_ofD [OF assms] by (simp add: placed_def)
  have idx: "bn_idx n = int i" using assms by (simp add: node_of_def)
  have "tok n (int i) = mk_token p 1 t_string (length h + 1)" using placed_head(1) [OF node_ofD [OF assms]] by (simp add: tok_def)
  then have so: "start_offset (tok n (int i)) = length h + 1"
    using start_offset_ok [of "length h" p 1] ok by (cases h) (auto simp: str_text_def)
  show len: "string_length n = int (length s)" using span_ok [OF assms] so idx by (simp add: string_length_def)
  show off: "string_offset n = p + length h + 1" using span_ok [OF assms] so idx by (simp add: string_offset_def)
  obtain rest where "drop p (bn_buffer n) = (h @ CHR '':'' # s) @ rest" using node_ofD [OF assms] by (auto simp: placed_def text_at_def)
  then have "drop (length h + 1) (drop p (bn_buffer n)) = s @ rest" by simp
  then show "string_value n = s" using len off by (simp add: string_value_def add.commute)
qed

text \<open>The value of an integer: 0 when it does not fit in 64 bits, or is the smallest that does.\<close>

definition int_of_text :: "string \<Rightarrow> int" where
  "int_of_text t =
     (let neg = (t \<noteq> [] \<and> hd t = CHR ''-''); x = dec_val (if neg then tl t else t)
      in if x > int64_max then 0 else if neg then - x else x)"

lemma foldl_digits_ge:
  assumes "list_all numeric ds" "0 \<le> v"
  shows "v \<le> foldl (\<lambda>v c. v * 10 + digit_of c) v ds"
  using assms
proof (induction ds arbitrary: v)
  case (Cons d ds)
  have "0 \<le> digit_of d" using Cons.prems(1) by (simp add: numeric_def digit_of_def)
  then show ?case using Cons.IH [of "v * 10 + digit_of d"] Cons.prems by simp
qed simp

lemma int64_step: "0 \<le> d \<Longrightarrow> d \<le> 9 \<Longrightarrow> v * 10 + d \<le> int64_max \<longleftrightarrow> \<not> v > int64_max div 10 \<and> \<not> v * 10 > int64_max - d"
  by (auto simp: int64_max_def)

lemma parse_int_value:
  assumes "list_all numeric ds" "0 \<le> v" "\<not> numeric c" "foldl (\<lambda>v c. v * 10 + digit_of c) v ds \<le> int64_max"
  shows "parse_int (ds @ c # cs) c v = (length ds, foldl (\<lambda>v c. v * 10 + digit_of c) v ds, None)"
  using assms
proof (induction ds arbitrary: v)
  case (Cons d ds)
  have d: "numeric d" "0 \<le> digit_of d" "digit_of d \<le> 9" "d \<noteq> c" using Cons.prems by (auto simp: numeric_def digit_of_def)
  have "v * 10 + digit_of d \<le> int64_max" using foldl_digits_ge [of ds "v * 10 + digit_of d"] Cons.prems d by simp
  then show ?case using Cons.IH [of "v * 10 + digit_of d"] Cons.prems d int64_step by (simp add: Let_def)
qed simp

lemma parse_int_overflow:
  assumes "list_all numeric ds" "0 \<le> v" "\<not> numeric c" "v \<le> int64_max" "int64_max < foldl (\<lambda>v c. v * 10 + digit_of c) v ds"
  shows "snd (snd (parse_int (ds @ c # cs) c v)) = Some overflow"
  using assms
proof (induction ds arbitrary: v)
  case (Cons d ds)
  have d: "numeric d" "0 \<le> digit_of d" "digit_of d \<le> 9" "d \<noteq> c" using Cons.prems by (auto simp: numeric_def digit_of_def)
  then show ?case using Cons.IH [of "v * 10 + digit_of d"] Cons.prems int64_step [of "digit_of d" v] by (auto simp: Let_def case_prod_unfold)
qed simp

lemma int_value_ok:
  assumes "node_of n i p (BInt t)"
  shows "int_value n = int_of_text t"
proof -
  have it: "int_text t" using node_ofD [OF assms] by (simp add: placed_def)
  have idx: "bn_idx n = int i" using assms by (simp add: node_of_def)
  have sp: "token_source_span n (int i) = int (length t + 2)" "tk_offset (tok n (int i)) = p" using span_ok [OF assms] by simp_all
  obtain rest where r: "drop p (bn_buffer n) = CHR ''i'' # t @ CHR ''e'' # rest" using node_ofD [OF assms] by (auto simp: placed_def text_at_def)
  then have r1: "drop (p + 1) (bn_buffer n) = t @ CHR ''e'' # rest" by (metis add.commute drop_drop drop_0 drop_Suc_Cons plus_1_eq_Suc)
  have p1: "p + 1 < length (bn_buffer n)" using r1 by (metis drop_all length_greater_0_conv list.simps(3) append_is_Nil_conv not_less)
  have t0: "t \<noteq> []" using it by (auto simp: int_text_def)
  have ch: "bn_buffer n ! (p + 1) = hd t" using r1 p1 t0 by (metis hd_append2 hd_drop_conv_nth)
  define neg where "neg = (hd t = CHR ''-'')"
  define ds where "ds = (if neg then tl t else t)"
  have ds: "list_all numeric ds" "ds \<noteq> []" using it t0 by (auto simp: int_text_def ds_def neg_def Let_def)
  let ?k = "if neg then 1 else (0 :: nat)"
  have "drop ?k (t @ CHR ''e'' # rest) = ds @ CHR ''e'' # rest" using t0 by (cases t) (auto simp: ds_def)
  then have dr: "drop (p + 1 + ?k) (bn_buffer n) = ds @ CHR ''e'' # rest" using r1 by (metis add.commute drop_drop)
  have len: "length t = length ds + ?k" using t0 by (cases t) (auto simp: ds_def)
  have "nat (int (length t + 2)) - ?k = length ds + 2" using len by (simp only: nat_int split: if_splits)
  then have "take (nat (int (length t + 2)) - ?k) (ds @ CHR ''e'' # rest) = ds @ CHR ''e'' # take 1 rest" by (simp only:) simp
  then have iv: "int_value n = (let (k, x, ec) = parse_int (ds @ CHR ''e'' # take 1 rest) (CHR ''e'') 0 in if ec \<noteq> None then 0 else if neg then - x else x)"
    using idx sp dr ch by (cases neg) (simp_all add: int_value_def Let_def case_prod_unfold neg_def [symmetric])
  have "int_of_text t = (if dec_val ds > int64_max then 0 else if neg then - dec_val ds else dec_val ds)"
    using t0 by (simp add: int_of_text_def ds_def neg_def Let_def)
  moreover have "\<not> numeric (CHR ''e'')" by (simp add: numeric_def)
  ultimately show ?thesis using parse_int_value [OF ds(1), of 0 "CHR ''e''" "take 1 rest"] parse_int_overflow [OF ds(1), of 0 "CHR ''e''" "take 1 rest"] iv
    by (cases "dec_val ds \<le> int64_max") (auto simp: dec_val_def case_prod_unfold int64_max_def Let_def)
qed

text \<open>From item to item.\<close>

lemma skip_ok:
  assumes "placed (bn_tokens n) (bn_buffer n) i p (BCont d vs)" "j < length vs"
  shows "skip_item n (int (item_tok i vs j)) = int (item_tok i vs (Suc j))" "tk_type (tok n (int (item_tok i vs j))) \<noteq> t_end"
  using placed_head [OF placed_item [OF assms]] first_type item_tok_Suc [OF assms(2)] by (simp_all add: skip_item_def tok_def)

lemma list_walk_ok:
  assumes pl: "placed (bn_tokens n) (bn_buffer n) i p (BCont d vs)"
  shows "a \<le> j \<Longrightarrow> j \<le> length vs \<Longrightarrow> list_walk n (int j) (int (item_tok i vs a)) (int a) = int (item_tok i vs j)"
proof (induction "j - a" arbitrary: a)
  case (Suc k)
  have "a < j" using Suc.hyps(2) by simp
  then have "list_walk n (int j) (int (item_tok i vs a)) (int a) = list_walk n (int j) (int (item_tok i vs (Suc a))) (int (Suc a))"
    using Suc skip_ok(1) [OF pl, of a] by (subst list_walk.simps) (simp add: add.commute)
  also have "\<dots> = int (item_tok i vs j)" using Suc by (intro Suc.hyps(1)) auto
  finally show ?case .
qed (simp add: list_walk.simps)

lemma dict_walk_ok:
  assumes pl: "placed (bn_tokens n) (bn_buffer n) i p (BCont d vs)"
  shows "a \<le> j \<Longrightarrow> 2 * j \<le> length vs \<Longrightarrow> dict_walk n (int j) (int (item_tok i vs (2 * a))) (int a) = int (item_tok i vs (2 * j))"
proof (induction "j - a" arbitrary: a)
  case (Suc k)
  have "a < j" using Suc.hyps(2) by simp
  then have "dict_walk n (int j) (int (item_tok i vs (2 * a))) (int a) = dict_walk n (int j) (int (item_tok i vs (2 * Suc a))) (int (Suc a))"
    using Suc skip_ok(1) [OF pl, of "2 * a"] skip_ok(1) [OF pl, of "Suc (2 * a)"] by (subst dict_walk.simps) (simp add: add.commute)
  also have "\<dots> = int (item_tok i vs (2 * j))" using Suc by (intro Suc.hyps(1)) auto
  finally show ?case .
qed (simp add: dict_walk.simps)

lemma count_items_ok:
  assumes pl: "placed (bn_tokens n) (bn_buffer n) i p (BCont d vs)"
  shows "a \<le> length vs \<Longrightarrow> count_items n (int (item_tok i vs a)) r = Some (r + int (length vs) - int a)"
proof (induction "length vs - a" arbitrary: a r)
  case 0
  then show ?case using placed_end [OF pl] by (simp add: count_items.simps tok_def)
next
  case (Suc k)
  then have "count_items n (int (item_tok i vs (Suc a))) (r + 1) = Some (r + 1 + int (length vs) - int (Suc a))" by simp
  then show ?case using Suc skip_ok [OF pl, of a] by (subst count_items.simps) simp
qed

lemma cache_set:
  assumes "node_of n i p (BCont d vs)" "(if d then 2 else 1) * k \<le> length vs"
  shows "node_of (n\<lparr>bn_last_token := int (item_tok i vs ((if d then 2 else 1) * k)), bn_last_index := int k\<rparr>) i p (BCont d vs)"
  using assms by (auto simp: node_of_def cache_ok_def Let_def)

lemma size_set:
  assumes "node_of n i p (BCont d vs)"
  shows "node_of (n\<lparr>bn_size := int (length vs div (if d then 2 else 1))\<rparr>) i p (BCont d vs)"
  using assms by (auto simp: node_of_def cache_ok_def Let_def)

lemma list_at_ok:
  assumes no: "node_of n i p (BCont False vs)" and j: "j < length vs"
  shows "\<exists>c n'. list_at n (int j) = (c, n') \<and> node_of c (item_tok i vs j) (item_pos p vs j) (vs ! j) \<and> node_of n' i p (BCont False vs)"
proof -
  note pl = node_ofD [OF no]
  have w: "list_walk n (int j) (fst (lookup_start n (int j))) (snd (lookup_start n (int j))) = int (item_tok i vs j)"
  proof (cases "bn_last_index n \<le> int j \<and> bn_last_index n \<noteq> -1")
    case True
    then obtain k where "bn_last_index n = int k" "k \<le> j" "bn_last_token n = int (item_tok i vs k)" using no by (auto simp: node_of_def cache_ok_def)
    then show ?thesis using list_walk_ok [OF pl, of k j] j by (simp add: lookup_start_def)
  next
    case False
    then show ?thesis using list_walk_ok [OF pl, of 0 j] j no by (auto simp: lookup_start_def node_of_def add.commute)
  qed
  show ?thesis using w cache_set [OF no, of j] child_ok [OF no placed_item [OF pl j]] j by (simp add: list_at_def case_prod_unfold Let_def)
qed

lemma list_size_ok:
  assumes no: "node_of n i p (BCont False vs)"
  shows "\<exists>n'. list_size n = Some (int (length vs), n') \<and> node_of n' i p (BCont False vs)"
proof -
  note pl = node_ofD [OF no]
  let ?s = "if bn_last_index n \<noteq> -1 then (bn_last_token n, bn_last_index n) else (bn_idx n + 1, 0)"
  have "count_items n (fst ?s) (snd ?s) = Some (int (length vs))"
  proof (cases "bn_last_index n \<noteq> -1")
    case True
    then obtain k where "bn_last_index n = int k" "k \<le> length vs" "bn_last_token n = int (item_tok i vs k)" using no by (auto simp: node_of_def cache_ok_def)
    then show ?thesis using count_items_ok [OF pl, of k "int k"] by simp
  next
    case False
    then show ?thesis using count_items_ok [OF pl, of 0 0] no by (simp add: node_of_def add.commute)
  qed
  moreover have "bn_size n \<noteq> -1 \<Longrightarrow> bn_size n = int (length vs)" using no by (auto simp: node_of_def cache_ok_def)
  ultimately show ?thesis using no size_set [OF no] by (auto simp: list_size_def Let_def case_prod_unfold)
qed

text \<open>The pairs of a dictionary.\<close>

fun pair_up :: "'a list \<Rightarrow> ('a \<times> 'a) list" where
  "pair_up (a # b # xs) = (a, b) # pair_up xs"
| "pair_up _ = []"

fun key_text :: "bval \<Rightarrow> string" where
  "key_text (BStr h s) = s"
| "key_text _ = []"

definition dict_items :: "bval list \<Rightarrow> (string \<times> bval) list" where
  "dict_items vs = map (\<lambda>(k, v). (key_text k, v)) (pair_up vs)"

lemma keys_ok_nth: "keys_ok 0 vs \<Longrightarrow> even (length vs)" "keys_ok 0 vs \<Longrightarrow> 2 * j < length vs \<Longrightarrow> is_str (vs ! (2 * j))"
proof (induction vs arbitrary: j rule: pair_up.induct)
  case (1 a b xs)
  {
    case 1
    then show ?case using "1.IH"(1) by simp
  next
    case 2
    then show ?case using "1.IH"(2) by (cases j) simp_all
  }
qed simp_all

lemma pair_up_drop:
  assumes "even (length vs)" "2 * a < length vs"
  shows "pair_up (drop (2 * a) vs) = (vs ! (2 * a), vs ! Suc (2 * a)) # pair_up (drop (2 * Suc a) vs)"
proof -
  have "Suc (2 * a) < length vs" using assms by (metis Suc_lessI dvd_triv_left even_Suc)
  then have "drop (2 * a) vs = vs ! (2 * a) # vs ! Suc (2 * a) # drop (2 * Suc a) vs" using assms(2) by (simp add: Cons_nth_drop_Suc)
  then show ?thesis by simp
qed

lemma dict_items_nth:
  assumes "even (length vs)"
  shows "length (dict_items vs) = length vs div 2" "2 * j < length vs \<Longrightarrow> dict_items vs ! j = (key_text (vs ! (2 * j)), vs ! Suc (2 * j))"
  using assms
proof (induction vs arbitrary: j rule: pair_up.induct)
  case (1 a b xs)
  {
    case 1
    then show ?case using "1.IH"(1) by (simp add: dict_items_def)
  next
    case 2
    then show ?case using "1.IH"(2) by (cases j) (simp_all add: dict_items_def)
  }
qed (simp_all add: dict_items_def)

lemma dict_shape:
  assumes "node_of n i p (BCont True vs)"
  shows "even (length vs)" "2 * j < length vs \<Longrightarrow> \<exists>h. vs ! (2 * j) = BStr h (key_text (vs ! (2 * j)))" "2 * j < length vs \<Longrightarrow> Suc (2 * j) < length vs"
proof -
  have ok: "keys_ok 0 vs" using node_ofD [OF assms] by (simp add: placed_def)
  show e: "even (length vs)" using keys_ok_nth(1) [OF ok] .
  show "\<exists>h. vs ! (2 * j) = BStr h (key_text (vs ! (2 * j)))" if "2 * j < length vs" using keys_ok_nth(2) [OF ok that] by (cases "vs ! (2 * j)") auto
  show "Suc (2 * j) < length vs" if "2 * j < length vs" using e that by (metis Suc_lessI dvd_triv_left even_Suc)
qed

lemma dict_at_ok:
  assumes no: "node_of n i p (BCont True vs)" and j: "2 * j < length vs"
  shows "\<exists>c n'. dict_at n (int j) = ((key_text (vs ! (2 * j)), c), n')
     \<and> node_of c (item_tok i vs (Suc (2 * j))) (item_pos p vs (Suc (2 * j))) (vs ! Suc (2 * j)) \<and> node_of n' i p (BCont True vs)"
proof -
  note pl = node_ofD [OF no]
  let ?t = "int (item_tok i vs (2 * j))"
  have w: "dict_walk n (int j) (fst (lookup_start n (int j))) (snd (lookup_start n (int j))) = ?t"
  proof (cases "bn_last_index n \<le> int j \<and> bn_last_index n \<noteq> -1")
    case True
    then obtain k where "bn_last_index n = int k" "k \<le> j" "bn_last_token n = int (item_tok i vs (2 * k))" using no by (auto simp: node_of_def cache_ok_def)
    then show ?thesis using dict_walk_ok [OF pl, of k j] j by (simp add: lookup_start_def)
  next
    case False
    then show ?thesis using dict_walk_ok [OF pl, of 0 j] j no by (auto simp: lookup_start_def node_of_def add.commute)
  qed
  have key: "string_value (child_node n ?t) = key_text (vs ! (2 * j))"
    using child_ok [OF no placed_item [OF pl j]] dict_shape(2) [OF no j] string_ok(1) by metis
  have val: "node_of (child_node n (skip_item n ?t)) (item_tok i vs (Suc (2 * j))) (item_pos p vs (Suc (2 * j))) (vs ! Suc (2 * j))"
    using child_ok [OF no placed_item [OF pl dict_shape(3) [OF no j]]] skip_ok(1) [OF pl j] by simp
  have "node_of (n\<lparr>bn_last_token := ?t, bn_last_index := int j\<rparr>) i p (BCont True vs)" using cache_set [OF no, of j] j by simp
  then show ?thesis using w key val no by (simp add: dict_at_def dict_at_node_def case_prod_unfold Let_def)
qed

lemma dict_size_ok:
  assumes no: "node_of n i p (BCont True vs)"
  shows "\<exists>n'. dict_size n = Some (int (length vs div 2), n') \<and> node_of n' i p (BCont True vs)"
proof -
  note pl = node_ofD [OF no]
  let ?s = "if bn_last_index n \<noteq> -1 then (bn_last_token n, bn_last_index n * 2) else (bn_idx n + 1, 0)"
  have "count_items n (fst ?s) (snd ?s) = Some (int (length vs))"
  proof (cases "bn_last_index n \<noteq> -1")
    case True
    then obtain k where "bn_last_index n = int k" "2 * k \<le> length vs" "bn_last_token n = int (item_tok i vs (2 * k))" using no by (auto simp: node_of_def cache_ok_def)
    then show ?thesis using count_items_ok [OF pl, of "2 * k" "int k * 2"] by simp
  next
    case False
    then show ?thesis using count_items_ok [OF pl, of 0 0] no by (simp add: node_of_def add.commute)
  qed
  moreover have "int (length vs) sdiv 2 = int (length vs div 2)" by (cases vs) (simp_all add: signed_divide_int_def zdiv_int)
  moreover have "bn_size n \<noteq> -1 \<Longrightarrow> bn_size n = int (length vs div 2)" using no by (auto simp: node_of_def cache_ok_def)
  ultimately show ?thesis using no size_set [OF no] by (auto simp: dict_size_def Let_def case_prod_unfold)
qed

text \<open>A search returns the node of the value that is wanted, or no node.\<close>

definition found :: "bdecode_node option \<Rightarrow> bval option \<Rightarrow> bool" where
  "found r w \<longleftrightarrow> (case w of None \<Rightarrow> r = Some no_node | Some v \<Rightarrow> \<exists>c j q. r = Some c \<and> node_of c j q v)"

lemma find_key_ok:
  assumes no: "node_of n i p (BCont True vs)"
  shows "2 * a \<le> length vs \<Longrightarrow> found (find_key n key (int (item_tok i vs (2 * a)))) (map_of (dict_items (drop (2 * a) vs)) key)"
proof (induction "length vs - 2 * a" arbitrary: a rule: less_induct)
  case less
  note pl = node_ofD [OF no]
  let ?t = "int (item_tok i vs (2 * a))"
  show ?case
  proof (cases "2 * a < length vs")
    case False
    then have "tk_type (tok n ?t) = t_end" "drop (2 * a) vs = []" using placed_end [OF pl] less.prems by (simp_all add: tok_def)
    then show ?thesis by (simp add: find_key.simps dict_items_def found_def)
  next
    case True
    let ?k = "vs ! (2 * a)" and ?v = "vs ! Suc (2 * a)"
    have s: "Suc (2 * a) < length vs" using dict_shape(3) [OF no True] .
    have ch: "node_of (child_node n ?t) (item_tok i vs (2 * a)) (item_pos p vs (2 * a)) ?k" using child_ok [OF no placed_item [OF pl True]] .
    obtain h where h: "?k = BStr h (key_text ?k)" using dict_shape(2) [OF no True] by auto
    let ?sz = "token_source_span n ?t - int (start_offset (tok n ?t))" and ?off = "tk_offset (tok n ?t) + start_offset (tok n ?t)"
    have eq: "string_length (child_node n ?t) = ?sz" "string_value (child_node n ?t) = take (nat ?sz) (drop ?off (bn_buffer n))"
      by (simp_all add: string_length_def string_value_def string_offset_def child_node_def node_at_def token_source_span_def tok_def Let_def)
    have kv: "take (nat ?sz) (drop ?off (bn_buffer n)) = key_text ?k" "?sz = int (length (key_text ?k))"
      using string_ok(1,2) [of "child_node n ?t" _ _ h "key_text ?k"] ch h eq by metis+
    have step: "find_key n key ?t = (if key = key_text ?k then Some (child_node n (skip_item n ?t)) else find_key n key (int (item_tok i vs (2 * Suc a))))"
      using skip_ok [OF pl True] skip_ok(1) [OF pl s] kv by (subst find_key.simps) (auto simp: Let_def)
    have items: "dict_items (drop (2 * a) vs) = (key_text ?k, ?v) # dict_items (drop (2 * Suc a) vs)"
      using pair_up_drop [OF dict_shape(1) [OF no] True] by (simp add: dict_items_def)
    have val: "node_of (child_node n (skip_item n ?t)) (item_tok i vs (Suc (2 * a))) (item_pos p vs (Suc (2 * a))) ?v"
      using child_ok [OF no placed_item [OF pl s]] skip_ok(1) [OF pl True] by simp
    show ?thesis
    proof (cases "key = key_text ?k")
      case True
      then show ?thesis using step items val by (auto simp: found_def)
    next
      case False
      have "2 * Suc a \<le> length vs" "length vs - 2 * Suc a < length vs - 2 * a" using s by simp_all
      then show ?thesis using less.hyps [of "Suc a"] step items False by simp
    qed
  qed
qed

text \<open>\<open>dict_find\<close> gives the node of the first value under the key.\<close>

lemma dict_find_ok:
  assumes no: "node_of n i p (BCont True vs)"
  shows "found (dict_find n key) (map_of (dict_items vs) key)"
proof -
  have "bn_idx n = int i" using no by (simp add: node_of_def)
  then show ?thesis using find_key_ok [OF no, of 0 key] by (simp add: dict_find_def add.commute)
qed

section \<open>The entry a value stands for\<close>

fun entry_str :: "entry \<Rightarrow> string" where
  "entry_str (EStr s) = s"
| "entry_str _ = []"

definition dict_entry :: "(string \<times> entry) list \<Rightarrow> entry list \<Rightarrow> (string \<times> entry) list" where
  "dict_entry kvs es = foldl (\<lambda>m (k, e). map_assign (entry_str k) e m) kvs (pair_up es)"

fun bentry :: "bval \<Rightarrow> entry" where
  "bentry (BInt t) = EInt (int_of_text t)"
| "bentry (BStr h s) = EStr s"
| "bentry (BCont d vs) = (if d then EDict (dict_entry [] (map bentry vs)) else EList (map bentry vs))"

lemma list_entries_ok:
  assumes f: "\<And>v n i p. v \<in> set vs \<Longrightarrow> node_of n i p v \<Longrightarrow> f n = Some (bentry v)"
  shows "node_of n i p (BCont False vs) \<Longrightarrow> j \<le> length vs \<Longrightarrow> list_entries f n (int j) es = Some (es @ map bentry (drop j vs))"
proof (induction "length vs - j" arbitrary: j n es)
  case 0
  then show ?case using list_size_ok [of n i p vs] by (subst list_entries.simps) auto
next
  case (Suc k)
  then have j: "j < length vs" by simp
  obtain n1 where n1: "list_size n = Some (int (length vs), n1)" "node_of n1 i p (BCont False vs)" using list_size_ok [OF Suc.prems(1)] by auto
  obtain c n2 where c: "list_at n1 (int j) = (c, n2)" "node_of c (item_tok i vs j) (item_pos p vs j) (vs ! j)" "node_of n2 i p (BCont False vs)"
    using list_at_ok [OF n1(2) j] by auto
  have "list_entries f n2 (int (Suc j)) (es @ [bentry (vs ! j)]) = Some ((es @ [bentry (vs ! j)]) @ map bentry (drop (Suc j) vs))"
    using Suc.hyps(2) j c(3) by (intro Suc.hyps(1)) auto
  moreover have "f c = Some (bentry (vs ! j))" using f [OF _ c(2)] j by simp
  moreover have "drop j vs = vs ! j # drop (Suc j) vs" using j by (simp add: Cons_nth_drop_Suc)
  ultimately show ?case using n1(1) c(1) j by (subst list_entries.simps) (simp add: add.commute)
qed

lemma dict_entries_ok:
  assumes f: "\<And>v n i p. v \<in> set vs \<Longrightarrow> node_of n i p v \<Longrightarrow> f n = Some (bentry v)"
  shows "node_of n i p (BCont True vs) \<Longrightarrow> 2 * j \<le> length vs \<Longrightarrow>
    dict_entries f n (int j) kvs = Some (dict_entry kvs (map bentry (drop (2 * j) vs)))"
proof (induction "length vs - 2 * j" arbitrary: j n kvs rule: less_induct)
  case less
  obtain n1 where n1: "dict_size n = Some (int (length vs div 2), n1)" "node_of n1 i p (BCont True vs)" using dict_size_ok [OF less.prems(1)] by auto
  note ev = dict_shape(1) [OF n1(2)]
  show ?case
  proof (cases "2 * j < length vs")
    case False
    then show ?thesis using n1(1) less.prems(2) by (subst dict_entries.simps) (auto simp: dict_entry_def)
  next
    case True
    have s: "Suc (2 * j) < length vs" using dict_shape(3) [OF n1(2) True] .
    let ?k = "vs ! (2 * j)" and ?v = "vs ! Suc (2 * j)"
    obtain c n2 where c: "dict_at n1 (int j) = ((key_text ?k, c), n2)" "node_of c (item_tok i vs (Suc (2 * j))) (item_pos p vs (Suc (2 * j))) ?v"
        "node_of n2 i p (BCont True vs)"
      using dict_at_ok [OF n1(2) True] by auto
    have fc: "f c = Some (bentry ?v)" using f [OF _ c(2)] s by simp
    obtain h where h: "?k = BStr h (key_text ?k)" using dict_shape(2) [OF n1(2) True] by auto
    have "entry_str (bentry ?k) = key_text ?k" by (subst h) simp
    then have "dict_entry kvs (map bentry (drop (2 * j) vs)) = dict_entry (map_assign (key_text ?k) (bentry ?v) kvs) (map bentry (drop (2 * Suc j) vs))"
      using s True by (simp add: dict_entry_def Cons_nth_drop_Suc [symmetric])
    moreover have "dict_entries f n2 (int (Suc j)) (map_assign (key_text ?k) (bentry ?v) kvs)
        = Some (dict_entry (map_assign (key_text ?k) (bentry ?v) kvs) (map bentry (drop (2 * Suc j) vs)))"
      using s c(3) by (intro less.hyps) auto
    moreover have "int j < int (length vs div 2)" using s by simp
    ultimately show ?thesis using n1(1) c(1) fc by (subst dict_entries.simps) (simp add: add.commute)
  qed
qed

lemma entry_of_ok: "node_of n i p v \<Longrightarrow> bdepth v \<le> fuel \<Longrightarrow> entry_of fuel n = Some (bentry v)"
proof (induction v arbitrary: n i p fuel)
  case (BCont d vs)
  then obtain fuel' where fuel: "fuel = Suc fuel'" by (cases fuel) auto
  have f: "entry_of fuel' m = Some (bentry v)" if "v \<in> set vs" "node_of m j q v" for v m j q
    using BCont.IH [OF that] BCont.prems(2) foldr_max [of vs bdepth fuel' 1] fuel that(1) by simp
  show ?case
  proof (cases d)
    case True
    have "dict_entries (entry_of fuel') n (int 0) [] = Some (dict_entry [] (map bentry (drop (2 * 0) vs)))"
      by (rule dict_entries_ok [OF f]) (use BCont.prems(1) True in auto)
    then show ?thesis using True fuel node_type_ok [OF BCont.prems(1)] by (simp add: type_of_def)
  next
    case False
    have "list_entries (entry_of fuel') n (int 0) [] = Some ([] @ map bentry (drop 0 vs))"
      by (rule list_entries_ok [OF f]) (use BCont.prems(1) False in auto)
    then show ?thesis using False fuel node_type_ok [OF BCont.prems(1)] by (simp add: type_of_def)
  qed
next
  case (BInt t)
  then show ?case using node_type_ok [OF BInt(1)] int_value_ok [OF BInt(1)] by (cases fuel) (simp_all add: type_of_def)
next
  case (BStr h s)
  then show ?case using node_type_ok [OF BStr(1)] string_ok(1) [OF BStr(1)] by (cases fuel) (simp_all add: type_of_def)
qed

text \<open>The root node of an accepted buffer.\<close>

lemma root_ok:
  assumes "fits v d limit" "length (btext v @ rest) \<le> max_offset"
  shows "node_of (root_node (btext v @ rest) (bdecode (btext v @ rest) d limit)) 0 0 v"
proof -
  let ?nx = "mk_token (length (btext v)) 0 t_end 0"
  have "text_at (btext v @ rest) 0 (btext v)" by (auto simp: text_at_def)
  moreover have "tk_offset ?nx = length (btext v)" using token_mod [of "length (btext v)"] assms(2) by (simp add: mk_token_def Let_def)
  ultimately have "placed (toks 0 v @ [?nx]) (btext v @ rest) 0 0 v" using assms unfolding placed_def fits_def
    by (intro conjI exI [of _ "[]"] exI [of _ ?nx]) auto
  then have "node_of (node_at (toks 0 v @ [?nx]) (btext v @ rest) (int 0)) 0 0 v" by (rule node_of_at)
  then show ?thesis using bdecode_text [of v d limit rest] assms by (simp add: root_node_def fits_def)
qed

end
