(* ===== verification/Bencode_Entries.thy ===== *)
theory Bencode_Entries
  imports Bencode_Nodes
begin

text \<open>
  \<open>integer_to_str\<close> and \<open>bencode\<close> write values of the format; the round trip through \<open>bdecode\<close>, and the
  interface \<open>codec\<close> of such a pair.
\<close>

section \<open>What the encoder writes\<close>

lemma dec_val_snoc: "dec_val (ds @ [c]) = dec_val ds * 10 + digit_of c"
  by (simp add: dec_val_def)

lemma digit_char:
  assumes "0 \<le> d" "d \<le> 9"
  shows "numeric (char_of_digit d)" "digit_of (char_of_digit d) = d"
proof -
  have "(of_char (char_of_digit d) :: nat) = nat (48 + d)" using assms by (simp add: char_of_digit_def)
  then show "numeric (char_of_digit d)" "digit_of (char_of_digit d) = d" using assms by (simp_all add: numeric_def digit_of_def le_nat_iff nat_le_iff)
qed

text \<open>Digits in decimal notation, without a leading zero except for 0 itself.\<close>

definition digits_for :: "string \<Rightarrow> int \<Rightarrow> bool" where
  "digits_for ds n \<longleftrightarrow> ds \<noteq> [] \<and> list_all numeric ds \<and> dec_val ds = n \<and> (length ds = 1 \<or> 10 ^ (length ds - 1) \<le> n)"

lemma digits_for_small: "0 \<le> d \<Longrightarrow> d \<le> 9 \<Longrightarrow> digits_for [char_of_digit d] d"
  using digit_char [of d] by (simp add: digits_for_def dec_val_def)

lemma digits_for_step:
  assumes "digits_for ds (n div 10)" "10 \<le> n"
  shows "digits_for (ds @ [char_of_digit (n mod 10)]) n"
proof -
  have d: "numeric (char_of_digit (n mod 10))" "digit_of (char_of_digit (n mod 10)) = n mod 10" using digit_char [of "n mod 10"] by simp_all
  have "10 ^ length ds \<le> n"
  proof (cases "length ds = 1")
    case True
    then show ?thesis using assms(2) by simp
  next
    case False
    then have b: "10 ^ (length ds - 1) \<le> n div 10" and ne: "ds \<noteq> []" using assms(1) by (auto simp: digits_for_def)
    have "10 ^ length ds = (10 :: int) * 10 ^ (length ds - 1)" using ne by (cases ds) auto
    then show ?thesis using b by linarith
  qed
  moreover have "n div 10 * 10 + n mod 10 = n" by (simp add: mult.commute)
  ultimately show ?thesis using assms(1) d by (simp add: digits_for_def dec_val_snoc)
qed

lemma neg_digits_ok: "0 \<le> n \<Longrightarrow> \<exists>ds. neg_digits (- n) buf = ds @ buf \<and> digits_for ds n"
proof (induction "nat n" arbitrary: n buf rule: less_induct)
  case less
  have q: "(- n) sdiv 10 = - (n div 10)" "(- n) smod 10 = - (n mod 10)"
    using less.prems by (auto simp: signed_divide_int_def signed_modulo_int_def sgn_if minus_div_mult_eq_mod [symmetric])
  show ?case
  proof (cases "n div 10 = 0")
    case True
    then have "n mod 10 = n" "n \<le> 9" using less.prems by (auto simp: div_eq_0_iff)
    then show ?thesis using q True digits_for_small [of n] less.prems by (subst neg_digits.simps) (auto simp: Let_def)
  next
    case False
    then have n: "10 \<le> n" using less.prems by (metis div_pos_pos_trivial not_less)
    then have "nat (n div 10) < nat n" "0 \<le> n div 10" by linarith+
    then obtain ds where ds: "neg_digits (- (n div 10)) (char_of_digit (n mod 10) # buf) = ds @ char_of_digit (n mod 10) # buf" "digits_for ds (n div 10)"
      using less.hyps [of "n div 10" "char_of_digit (n mod 10) # buf"] by blast
    have "neg_digits (- n) buf = neg_digits (- (n div 10)) (char_of_digit (n mod 10) # buf)" using q False by (subst neg_digits.simps) (simp add: Let_def)
    then have "neg_digits (- n) buf = (ds @ [char_of_digit (n mod 10)]) @ buf" using ds(1) by simp
    then show ?thesis using digits_for_step [OF ds(2) n] by blast
  qed
qed

text \<open>The paths for small numbers write the same digits.\<close>

lemma integer_to_str_small: "0 \<le> v \<Longrightarrow> v < 10 \<Longrightarrow> digits_for (integer_to_str v) v"
  using digits_for_small [of v] by (simp add: integer_to_str_def)

lemma pos_digits_step: "v \<ge> 0 \<Longrightarrow> \<forall>d \<in> set ds. 0 \<le> d \<Longrightarrow> pos_digits v (map (\<lambda>d. d * 10) ds @ [1]) = pos_digits (v div 10) ds @ [char_of_digit (v mod 10)]"
  by (simp add: pos_digits_def mult.commute [of _ 10] zdiv_zmult2_eq)

lemma pos_digits_ok:
  shows "10 \<le> v \<Longrightarrow> v < 100 \<Longrightarrow> digits_for (pos_digits v [10, 1]) v"
    and "100 \<le> v \<Longrightarrow> v < 1000 \<Longrightarrow> digits_for (pos_digits v [100, 10, 1]) v"
    and "1000 \<le> v \<Longrightarrow> v < 10000 \<Longrightarrow> digits_for (pos_digits v [1000, 100, 10, 1]) v"
    and "10000 \<le> v \<Longrightarrow> v < 100000 \<Longrightarrow> digits_for (pos_digits v [10000, 1000, 100, 10, 1]) v"
proof -
  have one: "digits_for (pos_digits v [1]) v" if "0 \<le> v" "v < 10" for v using digits_for_small [of v] that by (simp add: pos_digits_def)
  have two: "digits_for (pos_digits v [10, 1]) v" if "10 \<le> v" "v < 100" for v
    using digits_for_step [OF one, of v] pos_digits_step [of v "[1]"] that by simp
  have three: "digits_for (pos_digits v [100, 10, 1]) v" if "100 \<le> v" "v < 1000" for v
    using digits_for_step [OF two, of v] pos_digits_step [of v "[10, 1]"] that by simp
  have four: "digits_for (pos_digits v [1000, 100, 10, 1]) v" if "1000 \<le> v" "v < 10000" for v
    using digits_for_step [OF three, of v] pos_digits_step [of v "[100, 10, 1]"] that by simp
  have five: "digits_for (pos_digits v [10000, 1000, 100, 10, 1]) v" if "10000 \<le> v" "v < 100000" for v
    using digits_for_step [OF four, of v] pos_digits_step [of v "[1000, 100, 10, 1]"] that by simp
  show "10 \<le> v \<Longrightarrow> v < 100 \<Longrightarrow> digits_for (pos_digits v [10, 1]) v"
    "100 \<le> v \<Longrightarrow> v < 1000 \<Longrightarrow> digits_for (pos_digits v [100, 10, 1]) v"
    "1000 \<le> v \<Longrightarrow> v < 10000 \<Longrightarrow> digits_for (pos_digits v [1000, 100, 10, 1]) v"
    "10000 \<le> v \<Longrightarrow> v < 100000 \<Longrightarrow> digits_for (pos_digits v [10000, 1000, 100, 10, 1]) v"
    using two three four five by blast+
qed

lemma integer_to_str_nonneg: "0 \<le> v \<Longrightarrow> digits_for (integer_to_str v) v"
proof (cases "v < 100000")
  case True
  then show "0 \<le> v \<Longrightarrow> digits_for (integer_to_str v) v" using pos_digits_ok [of v] digits_for_small [of v] by (simp add: integer_to_str_def)
next
  case False
  then obtain ds where "neg_digits (- v) [] = ds" "digits_for ds v" using neg_digits_ok [of v "[]"] by auto
  then show ?thesis using False by (simp add: integer_to_str_def Let_def)
qed

lemma integer_to_str_neg: "v < 0 \<Longrightarrow> \<exists>ds. integer_to_str v = CHR ''-'' # ds \<and> digits_for ds (- v)"
  using neg_digits_ok [of "- v" "[]"] by (auto simp: integer_to_str_def Let_def)

lemma digits_for_length: "digits_for ds n \<Longrightarrow> n < 10 ^ k \<Longrightarrow> 0 < k \<Longrightarrow> length ds \<le> k"
proof (rule ccontr)
  assume d: "digits_for ds n" "n < 10 ^ k" "0 < k" "\<not> length ds \<le> k"
  then have "(10 :: int) ^ k \<le> 10 ^ (length ds - 1)" by (intro power_increasing) auto
  moreover have "10 ^ (length ds - 1) \<le> n" using d by (auto simp: digits_for_def)
  ultimately show False using d(2) by linarith
qed

lemma digits_no_sign: "digits_for ds n \<Longrightarrow> hd ds \<noteq> CHR ''-''"
  by (cases ds) (auto simp: digits_for_def numeric_def)

text \<open>Every 64-bit integer is written in a form the decoder accepts, and all but the smallest come back.\<close>

definition int64 :: "int \<Rightarrow> bool" where
  "int64 v \<longleftrightarrow> - int64_max - 1 \<le> v \<and> v \<le> int64_max"

lemma integer_to_str_text:
  assumes "int64 v"
  shows "int_text (integer_to_str v)" "int_of_text (integer_to_str v) = (if v = - int64_max - 1 then 0 else v)"
proof -
  have b: "v \<le> int64_max" "- v < 10 ^ 20" "v < 10 ^ 20" using assms by (auto simp: int64_def int64_max_def)
  consider "0 \<le> v" | "v < 0" by linarith
  then have "int_text (integer_to_str v) \<and> int_of_text (integer_to_str v) = (if v = - int64_max - 1 then 0 else v)"
  proof cases
    case 1
    note d = integer_to_str_nonneg [OF 1]
    show ?thesis using d digits_no_sign [OF d] digits_for_length [OF d, of 20] b 1
      by (auto simp: int_text_def int_of_text_def digits_for_def int64_max_def)
  next
    case 2
    then obtain ds where ds: "integer_to_str v = CHR ''-'' # ds" "digits_for ds (- v)" using integer_to_str_neg by blast
    then show ?thesis using digits_for_length [OF ds(2), of 20] b assms 2
      by (auto simp: int_text_def int_of_text_def digits_for_def int64_max_def int64_def)
  qed
  then show "int_text (integer_to_str v)" "int_of_text (integer_to_str v) = (if v = - int64_max - 1 then 0 else v)" by auto
qed

lemma length_text: "length s \<le> max_offset \<Longrightarrow> str_text (integer_to_str (int (length s))) s"
proof -
  assume "length s \<le> max_offset"
  then have "int (length s) < 10 ^ 9" by (simp add: max_offset_def)
  moreover have d: "digits_for (integer_to_str (int (length s))) (int (length s))" by (rule integer_to_str_nonneg) simp
  ultimately show ?thesis using digits_for_length [OF d, of 9] by (auto simp: str_text_def digits_for_def long_string_max_header_def)
qed

section \<open>Round trip\<close>

text \<open>The value an entry is written as.\<close>

definition str_bval :: "string \<Rightarrow> bval" where
  "str_bval s = BStr (integer_to_str (int (length s))) s"

fun to_bval :: "entry \<Rightarrow> bval" where
  "to_bval (EInt i) = BInt (integer_to_str i)"
| "to_bval (EStr s) = str_bval s"
| "to_bval (EList es) = BCont False (map to_bval es)"
| "to_bval (EDict kvs) = BCont True (concat (map (\<lambda>(k, e). [str_bval k, to_bval e]) kvs))"
| "to_bval (EPre s) = str_bval s"
| "to_bval EUndef = str_bval []"

text \<open>Entries a round trip can keep: no preformatted text, and dictionaries are maps in order.\<close>

fun storable :: "entry \<Rightarrow> bool" where
  "storable (EInt i) \<longleftrightarrow> int64 i"
| "storable (EStr s) \<longleftrightarrow> True"
| "storable (EList es) \<longleftrightarrow> (\<forall>e \<in> set es. storable e)"
| "storable (EDict kvs) \<longleftrightarrow> sorted_wrt (<) (map fst kvs) \<and> (\<forall>(k, e) \<in> set kvs. storable e)"
| "storable (EPre s) \<longleftrightarrow> False"
| "storable EUndef \<longleftrightarrow> False"

text \<open>What comes back: the smallest 64-bit integer is read as 0.\<close>

fun read_back :: "entry \<Rightarrow> entry" where
  "read_back (EInt i) = EInt (if i = - int64_max - 1 then 0 else i)"
| "read_back (EList es) = EList (map read_back es)"
| "read_back (EDict kvs) = EDict (map (\<lambda>(k, e). (k, read_back e)) kvs)"
| "read_back e = e"

fun no_min :: "entry \<Rightarrow> bool" where
  "no_min (EInt i) \<longleftrightarrow> i \<noteq> - int64_max - 1"
| "no_min (EList es) \<longleftrightarrow> (\<forall>e \<in> set es. no_min e)"
| "no_min (EDict kvs) \<longleftrightarrow> (\<forall>(k, e) \<in> set kvs. no_min e)"
| "no_min e \<longleftrightarrow> True"

lemma read_back_same: "no_min e \<Longrightarrow> read_back e = e"
proof (induction e rule: read_back.induct)
  case (3 kvs)
  then have "map (\<lambda>(k, e). (k, read_back e)) kvs = map (\<lambda>(k, e). (k, e)) kvs" by (intro map_cong) auto
  then show ?case by simp
qed (auto simp: map_idI)

lemma btext_to_bval: "storable e \<Longrightarrow> btext (to_bval e) = bencode e"
proof (induction e rule: to_bval.induct)
  case (3 es)
  then have "map btext (map to_bval es) = map bencode es" by simp
  then show ?case by (simp only: to_bval.simps btext.simps bencode.simps) simp
next
  case (4 kvs)
  have "concat (map btext (concat (map (\<lambda>(k, e). [str_bval k, to_bval e]) kvs)))
      = concat (map (\<lambda>(k, e). btext (str_bval k) @ btext (to_bval e)) kvs)" by (induction kvs) auto
  also have "map (\<lambda>(k, e). btext (str_bval k) @ btext (to_bval e)) kvs
      = map (\<lambda>(k, e). integer_to_str (int (length k)) @ '':'' @ k @ bencode e) kvs"
    using 4 by (intro map_cong) (auto simp: str_bval_def)
  finally show ?case by simp
qed (simp_all add: str_bval_def)

lemma keys_ok_pairs: "keys_ok 0 (concat (map (\<lambda>(k, e). [str_bval k, f e]) kvs))"
  by (induction kvs) (auto simp: str_bval_def)

lemma bval_ok_text: "storable e \<Longrightarrow> length (bencode e) \<le> max_offset \<Longrightarrow> bval_ok (to_bval e)"
proof (induction e rule: to_bval.induct)
  case (1 i)
  then show ?case by (simp add: integer_to_str_text)
next
  case (2 s)
  then show ?case by (simp add: str_bval_def length_text)
next
  case (3 es)
  have "bval_ok (to_bval e)" if "e \<in> set es" for e
  proof -
    have "length (bencode e) \<le> sum_list (map (length \<circ> bencode) es)" using that by (intro member_le_sum_list) auto
    then show ?thesis using 3 that by (simp add: length_concat)
  qed
  then show ?case by simp
next
  case (4 kvs)
  let ?w = "\<lambda>(k, e). integer_to_str (int (length k)) @ '':'' @ k @ bencode e"
  have "bval_ok (str_bval k) \<and> bval_ok (to_bval e)" if "(k, e) \<in> set kvs" for k e
  proof -
    have "length (?w (k, e)) \<le> sum_list (map (length \<circ> ?w) kvs)" using that by (intro member_le_sum_list) (force intro: image_eqI)+
    then have "length k \<le> max_offset" "length (bencode e) \<le> max_offset" using 4(3) by (simp_all add: length_concat)
    then show ?thesis using 4(1) [OF that] 4(2) that by (auto simp: str_bval_def length_text)
  qed
  then show ?case using keys_ok_pairs [of to_bval kvs] by auto
qed simp_all

lemma map_assign_last: "(\<forall>k' \<in> fst ` set m. k' < k) \<Longrightarrow> map_assign k e m = m @ [(k, e)]"
  by (induction m) (auto dest: less_asym)

lemma assign_all: "sorted_wrt (<) (map fst (m @ kvs)) \<Longrightarrow> foldl (\<lambda>m (k, e). map_assign k e m) m kvs = m @ kvs"
proof (induction kvs arbitrary: m)
  case (Cons ke kvs)
  obtain k e where ke: "ke = (k, e)" by (cases ke)
  have "map_assign k e m = m @ [(k, e)]" using Cons.prems ke by (intro map_assign_last) (auto simp: sorted_wrt_append)
  then show ?case using Cons.IH [of "m @ [(k, e)]"] Cons.prems ke by simp
qed simp

lemma pair_up_pairs: "dict_entry m (map bentry (concat (map (\<lambda>(k, e). [str_bval k, f e]) kvs)))
    = foldl (\<lambda>m (k, e). map_assign k e m) m (map (\<lambda>(k, e). (k, bentry (f e))) kvs)"
  by (induction kvs arbitrary: m) (auto simp: dict_entry_def str_bval_def)

lemma bentry_to_bval: "storable e \<Longrightarrow> bentry (to_bval e) = read_back e"
proof (induction e rule: to_bval.induct)
  case (1 i)
  then show ?case by (simp add: integer_to_str_text)
next
  case (4 kvs)
  let ?kvs = "map (\<lambda>(k, e). (k, bentry (to_bval e))) kvs"
  have "map fst ?kvs = map fst kvs" by (induction kvs) auto
  then have "foldl (\<lambda>m (k, e). map_assign k e m) [] ?kvs = ?kvs" using assign_all [of "[]" ?kvs] 4(2) by (simp only: append_Nil storable.simps)
  moreover have "?kvs = map (\<lambda>(k, e). (k, read_back e)) kvs" using 4 by (intro map_cong) auto
  ultimately show ?case by (simp only: to_bval.simps bentry.simps read_back.simps if_True pair_up_pairs)
qed (simp_all add: str_bval_def)

lemma bencode_bdecode:
  assumes "storable e" "bdepth (to_bval e) \<le> d" "int (ntok (to_bval e)) \<le> limit" "length (bencode e @ rest) \<le> max_offset"
  shows "br_error (bdecode (bencode e @ rest) d limit) = None"
    "entry_of d (root_node (bencode e @ rest) (bdecode (bencode e @ rest) d limit)) = Some (read_back e)"
    "data_section (root_node (bencode e @ rest) (bdecode (bencode e @ rest) d limit)) = bencode e"
proof -
  have f: "fits (to_bval e) d limit" using assms bval_ok_text [of e] by (simp add: fits_def)
  have r: "node_of (root_node (bencode e @ rest) (bdecode (bencode e @ rest) d limit)) 0 0 (to_bval e)"
    using root_ok [OF f, of rest] btext_to_bval [OF assms(1)] assms(4) by simp
  show "br_error (bdecode (bencode e @ rest) d limit) = None"
    using bdecode_text [of "to_bval e" d limit rest] f assms btext_to_bval [OF assms(1)] by (simp add: fits_def)
  show "entry_of d (root_node (bencode e @ rest) (bdecode (bencode e @ rest) d limit)) = Some (read_back e)"
    using entry_of_ok [OF r assms(2)] bentry_to_bval [OF assms(1)] by simp
  show "data_section (root_node (bencode e @ rest) (bdecode (bencode e @ rest) d limit)) = bencode e"
    using data_section_ok(1) [OF r] btext_to_bval [OF assms(1)] by simp
qed

section \<open>A prefix code\<close>

text \<open>
  An encoding that is read back from in front of any text: two encodings never start the same text
  unless they encode the same thing.
\<close>

locale codec =
  fixes enc :: "'a \<Rightarrow> 'b list" and dec :: "'b list \<Rightarrow> 'a option" and ok :: "'a \<Rightarrow> bool" and small :: "'b list \<Rightarrow> bool"
  assumes dec_enc: "ok x \<Longrightarrow> small (enc x @ rest) \<Longrightarrow> dec (enc x @ rest) = Some x"
begin

lemma prefix_free: "ok x \<Longrightarrow> ok y \<Longrightarrow> small (enc x @ r) \<Longrightarrow> enc x @ r = enc y @ s \<Longrightarrow> x = y \<and> r = s"
  using dec_enc [of x r] dec_enc [of y s] by auto

lemma enc_inj: "inj_on enc {x. ok x \<and> small (enc x)}"
  using prefix_free [of _ _ "[]" "[]"] by (auto simp: inj_on_def)

end

text \<open>Decoding to an entry, with limits the buffer cannot reach.\<close>

definition decode_entry :: "string \<Rightarrow> entry option" where
  "decode_entry buf =
     (let r = bdecode buf (length buf) (int (length buf))
      in if br_error r = None then entry_of (length buf) (root_node buf r) else None)"

lemma bdepth_le_ntok: "bdepth v \<le> ntok v"
proof (induction v)
  case (BCont d vs)
  have "bdepth v \<le> 1 + sum_list (map ntok vs)" if "v \<in> set vs" for v
    using BCont [OF that] member_le_sum_list [of "ntok v" "map ntok vs"] that by force
  then show ?case using foldr_max [of vs bdepth "1 + sum_list (map ntok vs)" 1] by simp
qed simp_all

lemma decode_bencode:
  assumes "storable e" "no_min e" "length (bencode e @ rest) \<le> max_offset"
  shows "decode_entry (bencode e @ rest) = Some e"
proof -
  let ?n = "length (bencode e @ rest)"
  have "bval_ok (to_bval e)" using bval_ok_text [OF assms(1)] assms(3) by simp
  then have "ntok (to_bval e) \<le> ?n" using ntok_le_text [of "to_bval e"] btext_to_bval [OF assms(1)] by simp
  then have l: "bdepth (to_bval e) \<le> ?n" "int (ntok (to_bval e)) \<le> int ?n" using bdepth_le_ntok [of "to_bval e"] by simp_all
  show ?thesis using bencode_bdecode [OF assms(1) l assms(3)] read_back_same [OF assms(2)] by (simp add: decode_entry_def)
qed

interpretation bencoding: codec bencode decode_entry "\<lambda>e. storable e \<and> no_min e" "\<lambda>s. length s \<le> max_offset"
  by unfold_locales (simp add: decode_bencode)

end
