(* ===== verification/Bandwidth.thy ===== *)
theory Bandwidth
  imports Prelude
begin

text \<open>
  Rate limits (src/bandwidth_limit.cpp, src/bandwidth_queue_entry.cpp, src/bandwidth_manager.cpp):
  a \<open>bandwidth_channel\<close> holds the quota of a limit, a \<open>bw_request\<close> waits for quota on several channels,
  and the manager shares the quota out among the requests in its queue, once every round. Requests point
  to channels they share: channels live in a heap indexed by \<^typ>\<open>nat\<close>. The calls to the peers of a
  round come after all changes of state and are the output of an operation.
\<close>

section \<open>Channels\<close>

record bandwidth_channel =
  ch_tmp :: int
  ch_distribute_quota :: int
  ch_quota_left :: int
  ch_limit :: int

definition bw_inf :: int where
  "bw_inf = 2147483647"

definition new_channel :: bandwidth_channel where
  "new_channel = \<lparr>ch_tmp = 0, ch_distribute_quota = 0, ch_quota_left = 0, ch_limit = 0\<rparr>"

definition throttle :: "int \<Rightarrow> bandwidth_channel \<Rightarrow> bandwidth_channel" where
  "throttle limit ch = ch\<lparr>ch_limit := limit\<rparr>"

definition quota_left :: "bandwidth_channel \<Rightarrow> int" where
  "quota_left ch = (if ch_limit ch = 0 then bw_inf else max (ch_quota_left ch) 0)"

definition update_quota :: "int \<Rightarrow> bandwidth_channel \<Rightarrow> bandwidth_channel" where
  "update_quota dt_milliseconds ch =
     (if ch_limit ch = 0 then ch
      else
        let to_add = (ch_limit ch * dt_milliseconds + 500) sdiv 1000;
            q = (if to_add > bw_inf - ch_quota_left ch then bw_inf
                 else let q1 = ch_quota_left ch + to_add;
                          q2 = (if q1 sdiv 3 > ch_limit ch then ch_limit ch * 3 else q1)
                      in min q2 bw_inf)
        in ch\<lparr>ch_quota_left := q, ch_distribute_quota := max q 0\<rparr>)"

definition return_quota :: "int \<Rightarrow> bandwidth_channel \<Rightarrow> bandwidth_channel" where
  "return_quota amount ch = (if ch_limit ch = 0 then ch else ch\<lparr>ch_quota_left := ch_quota_left ch + amount\<rparr>)"

definition use_quota :: "int \<Rightarrow> bandwidth_channel \<Rightarrow> bandwidth_channel" where
  "use_quota amount ch = (if ch_limit ch = 0 then ch else ch\<lparr>ch_quota_left := ch_quota_left ch - amount\<rparr>)"

definition need_queueing :: "int \<Rightarrow> bandwidth_channel \<Rightarrow> bool \<times> bandwidth_channel" where
  "need_queueing amount ch =
     (if ch_quota_left ch - amount < ch_limit ch then (True, ch)
      else (False, ch\<lparr>ch_quota_left := ch_quota_left ch - amount\<rparr>))"

type_synonym channels = "nat \<Rightarrow> bandwidth_channel"

definition on_channels :: "(bandwidth_channel \<Rightarrow> bandwidth_channel) \<Rightarrow> nat list \<Rightarrow> channels \<Rightarrow> channels" where
  "on_channels f cs h = foldl (\<lambda>h c. h(c := f (h c))) h cs"

section \<open>Requests\<close>

text \<open>The array of channels is the list of its entries up to the first null pointer.\<close>

record bw_request =
  rq_peer :: nat
  rq_priority :: int
  rq_assigned :: int
  rq_size :: int
  rq_ttl :: int
  rq_channel :: "nat list"

definition max_bandwidth_channels :: nat where
  "max_bandwidth_channels = 10"

definition new_request :: "nat \<Rightarrow> int \<Rightarrow> int \<Rightarrow> nat list \<Rightarrow> bw_request" where
  "new_request peer blk prio chs = \<lparr>rq_peer = peer, rq_priority = prio, rq_assigned = 0, rq_size = blk, rq_ttl = 20, rq_channel = chs\<rparr>"

text \<open>The share of a request: the least over the first five channels.\<close>

definition share :: "channels \<Rightarrow> int \<Rightarrow> int \<Rightarrow> nat list \<Rightarrow> int" where
  "share h prio quota chs =
     foldl (\<lambda>q c. if ch_limit (h c) = 0 then q
                  else if ch_tmp (h c) = 0 then q
                  else min ((ch_distribute_quota (h c) * prio) sdiv ch_tmp (h c)) q) quota chs"

definition assign_bandwidth :: "channels \<Rightarrow> bw_request \<Rightarrow> int \<times> bw_request \<times> channels" where
  "assign_bandwidth h r =
     (let quota = rq_size r - rq_assigned r; r1 = r\<lparr>rq_ttl := rq_ttl r - 1\<rparr>
      in if quota = 0 then (quota, r1, h)
         else let chs = take 5 (rq_channel r); q = share h (rq_priority r) quota chs
              in (q, r1\<lparr>rq_assigned := rq_assigned r + q\<rparr>, on_channels (use_quota q) chs h))"

section \<open>The manager\<close>

record bandwidth_manager =
  bm_queue :: "bw_request list"
  bm_queued_bytes :: int
  bm_channel :: int
  bm_abort :: bool

definition new_manager :: "int \<Rightarrow> bandwidth_manager" where
  "new_manager channel = \<lparr>bm_queue = [], bm_queued_bytes = 0, bm_channel = channel, bm_abort = False\<rparr>"

text \<open>A call of \<open>assign_bandwidth\<close> on a peer: the peer, the direction and the bytes. The queue is emptied from its back.\<close>

type_synonym bw_call = "nat \<times> int \<times> int"

definition calls_of :: "bandwidth_manager \<Rightarrow> bw_request list \<Rightarrow> bw_call list" where
  "calls_of m rs = map (\<lambda>r. (rq_peer r, bm_channel m, rq_assigned r)) (rev rs)"

definition bm_close :: "bandwidth_manager \<Rightarrow> bandwidth_manager \<times> bw_call list" where
  "bm_close m = (m\<lparr>bm_abort := True, bm_queue := [], bm_queued_bytes := 0\<rparr>, calls_of m (bm_queue m))"

text \<open>\<open>request_bandwidth\<close>: the channels that need queueing; the others give the quota at once.\<close>

fun queueing_channels :: "int \<Rightarrow> nat list \<Rightarrow> channels \<Rightarrow> nat list \<times> channels" where
  "queueing_channels blk [] h = ([], h)"
| "queueing_channels blk (c # cs) h =
     (let (need, ch) = need_queueing blk (h c); (ks, h') = queueing_channels blk cs (h(c := ch))
      in (if need then c # ks else ks, h'))"

text \<open>More channels than the array of the request has room for are written past its end: the result is undefined.\<close>

definition request_bandwidth :: "nat \<Rightarrow> int \<Rightarrow> int \<Rightarrow> nat list \<Rightarrow> bandwidth_manager \<Rightarrow> channels \<Rightarrow> (int \<times> bandwidth_manager \<times> channels) option" where
  "request_bandwidth peer blk priority chan m h =
     (if bm_abort m then Some (0, m, h)
      else if chan = [] then Some (blk, m, h)
      else
        let (ks, h1) = queueing_channels blk chan h
        in if length ks > max_bandwidth_channels then None
           else if ks = [] then Some (blk, m, h1)
           else Some (0, m\<lparr>bm_queued_bytes := bm_queued_bytes m + blk, bm_queue := bm_queue m @ [new_request peer blk priority ks]\<rparr>, h1))"

text \<open>The loops of \<open>update_quotas\<close>, in its order.\<close>

fun drop_disconnecting :: "(nat \<Rightarrow> bool) \<Rightarrow> bw_request list \<Rightarrow> int \<Rightarrow> channels \<Rightarrow> bw_request list \<times> bw_request list \<times> int \<times> channels" where
  "drop_disconnecting disc [] qb h = ([], [], qb, h)"
| "drop_disconnecting disc (r # rs) qb h =
     (if disc (rq_peer r) then
        let (out, stay, qb', h') = drop_disconnecting disc rs (qb - (rq_size r - rq_assigned r)) (on_channels (return_quota (rq_assigned r)) (rq_channel r) h)
        in (r\<lparr>rq_assigned := 0\<rparr> # out, stay, qb', h')
      else
        let (out, stay, qb', h') = drop_disconnecting disc rs qb (on_channels (\<lambda>ch. ch\<lparr>ch_tmp := 0\<rparr>) (rq_channel r) h)
        in (out, r # stay, qb', h'))"

definition add_priority :: "int \<Rightarrow> nat list \<times> channels \<Rightarrow> nat \<Rightarrow> nat list \<times> channels" where
  "add_priority prio = (\<lambda>(chs, h) c.
     (if ch_tmp (h c) = 0 then chs @ [c] else chs, h(c := (h c)\<lparr>ch_tmp := ch_tmp (h c) + prio\<rparr>)))"

definition sum_priorities :: "bw_request list \<Rightarrow> channels \<Rightarrow> nat list \<times> channels" where
  "sum_priorities rs h = foldl (\<lambda>st r. foldl (add_priority (rq_priority r)) st (rq_channel r)) ([], h) rs"

fun assign_queue :: "bw_request list \<Rightarrow> int \<Rightarrow> channels \<Rightarrow> bw_request list \<times> bw_request list \<times> int \<times> channels" where
  "assign_queue [] qb h = ([], [], qb, h)"
| "assign_queue (r # rs) qb h =
     (let (a, r1, h1) = assign_bandwidth h r
      in if rq_assigned r1 = rq_size r1 \<or> (rq_ttl r1 \<le> 0 \<and> rq_assigned r1 > 0)
         then let (out, stay, qb', h') = assign_queue rs (qb - (a + (rq_size r1 - rq_assigned r1))) h1 in (r1 # out, stay, qb', h')
         else let (out, stay, qb', h') = assign_queue rs (qb - a) h1 in (out, r1 # stay, qb', h'))"

definition update_quotas :: "int \<Rightarrow> (nat \<Rightarrow> bool) \<Rightarrow> bandwidth_manager \<Rightarrow> channels \<Rightarrow> bandwidth_manager \<times> channels \<times> bw_call list" where
  "update_quotas dt disc m h =
     (if bm_abort m \<or> bm_queue m = [] then (m, h, [])
      else
        let dt_milliseconds = (if dt > 3000 then 3000 else dt);
            (gone, stay, qb1, h1) = drop_disconnecting disc (bm_queue m) (bm_queued_bytes m) h;
            (chs, h2) = sum_priorities stay h1;
            h3 = on_channels (update_quota dt_milliseconds) chs h2;
            (served, wait, qb2, h4) = assign_queue stay qb1 h3
        in (m\<lparr>bm_queue := wait, bm_queued_bytes := qb2\<rparr>, h4, calls_of m (gone @ served)))"

section \<open>What a round does, in closed form\<close>

lemma on_channels_at:
  assumes "distinct cs"
  shows "on_channels f cs h c = (if c \<in> set cs then f (h c) else h c)"
  using assms unfolding on_channels_def by (induction cs arbitrary: h) auto

text \<open>The rate of a channel: what the shares depend on.\<close>

definition rate :: "bandwidth_channel \<Rightarrow> int \<times> int \<times> int" where
  "rate ch = (ch_limit ch, ch_tmp ch, ch_distribute_quota ch)"

lemma rate_use_quota [simp]: "rate (use_quota q ch) = rate ch"
  by (simp add: rate_def use_quota_def)

lemma share_cong: "(\<And>c. rate (h c) = rate (h' c)) \<Longrightarrow> share h p q cs = share h' p q cs"
proof (induction cs arbitrary: q)
  case (Cons c cs)
  then show ?case using Cons.prems [of c] by (simp add: share_def rate_def)
qed (simp add: share_def)

definition grant :: "channels \<Rightarrow> bw_request \<Rightarrow> int" where
  "grant h r = share h (rq_priority r) (rq_size r - rq_assigned r) (take 5 (rq_channel r))"

definition granted :: "channels \<Rightarrow> bw_request \<Rightarrow> bw_request" where
  "granted h r = r\<lparr>rq_ttl := rq_ttl r - 1, rq_assigned := rq_assigned r + grant h r\<rparr>"

definition finished :: "bw_request \<Rightarrow> bool" where
  "finished r \<longleftrightarrow> rq_assigned r = rq_size r \<or> (rq_ttl r \<le> 0 \<and> rq_assigned r > 0)"

definition owed :: "bw_request list \<Rightarrow> int" where
  "owed rs = (\<Sum>r\<leftarrow>rs. rq_size r - rq_assigned r)"

lemma owed_simps [simp]: "owed [] = 0" "owed (r # rs) = rq_size r - rq_assigned r + owed rs" "owed (rs @ rs') = owed rs + owed rs'"
  by (simp_all add: owed_def)

definition bw_request_ok :: "bw_request \<Rightarrow> bool" where
  "bw_request_ok r \<longleftrightarrow> 0 \<le> rq_assigned r \<and> rq_assigned r < rq_size r \<and> 0 < rq_priority r \<and> rq_ttl r \<le> 20 \<and> (rq_ttl r \<le> 0 \<longrightarrow> rq_assigned r = 0)
     \<and> distinct (rq_channel r) \<and> rq_channel r \<noteq> [] \<and> length (rq_channel r) \<le> max_bandwidth_channels"

text \<open>The bytes by which a round charges a channel: those of the requests that have it among the first five.\<close>

definition taken :: "channels \<Rightarrow> bw_request list \<Rightarrow> nat \<Rightarrow> int" where
  "taken h rs c = (\<Sum>r\<leftarrow>rs. if c \<in> set (take 5 (rq_channel r)) then grant h r else 0)"

lemma assign_bandwidth_eq:
  assumes "bw_request_ok r"
  shows "assign_bandwidth h r = (grant h r, granted h r, on_channels (use_quota (grant h r)) (take 5 (rq_channel r)) h)"
  using assms by (simp add: assign_bandwidth_def grant_def granted_def bw_request_ok_def Let_def)

lemma grant_cong: "(\<And>c. rate (h c) = rate (h' c)) \<Longrightarrow> grant h r = grant h' r"
  unfolding grant_def by (rule share_cong)

lemma assign_queue_eq:
  assumes "\<forall>r \<in> set rs. bw_request_ok r"
  shows "assign_queue rs qb h =
    (filter finished (map (granted h) rs), filter (\<lambda>r. \<not> finished r) (map (granted h) rs),
     qb - owed rs + owed (filter (\<lambda>r. \<not> finished r) (map (granted h) rs)),
     \<lambda>c. use_quota (taken h rs c) (h c))"
  using assms
proof (induction rs arbitrary: qb h)
  case Nil
  have "use_quota 0 ch = ch" for ch by (simp add: use_quota_def)
  then show ?case by (simp add: taken_def)
next
  case (Cons r rs)
  let ?h1 = "on_channels (use_quota (grant h r)) (take 5 (rq_channel r)) h"
  have ok: "bw_request_ok r" and d: "distinct (take 5 (rq_channel r))" using Cons.prems by (auto simp: bw_request_ok_def)
  have rt: "rate (?h1 c) = rate (h c)" for c using on_channels_at [OF d, of "use_quota (grant h r)" h c] by simp
  have g: "grant ?h1 = grant h" "granted ?h1 = granted h" using grant_cong [of ?h1 h, OF rt] by (auto simp: granted_def)
  have uu: "use_quota a (use_quota b ch) = use_quota (b + a) ch" for a b ch by (simp add: use_quota_def)
  have tk: "taken ?h1 rs c = taken h rs c" for c by (simp only: taken_def g(1))
  have tc: "taken h (r # rs) c = (if c \<in> set (take 5 (rq_channel r)) then grant h r else 0) + taken h rs c" for c by (simp add: taken_def)
  have hp: "(\<lambda>c. use_quota (taken ?h1 rs c) (?h1 c)) = (\<lambda>c. use_quota (taken h (r # rs) c) (h c))"
    unfolding tk tc using on_channels_at [OF d, of "use_quota (grant h r)" h] by (simp add: fun_eq_iff uu)
  have ih: "assign_queue rs q ?h1 = (filter finished (map (granted h) rs), filter (\<lambda>r. \<not> finished r) (map (granted h) rs),
     q - owed rs + owed (filter (\<lambda>r. \<not> finished r) (map (granted h) rs)), \<lambda>c. use_quota (taken h (r # rs) c) (h c))" for q
    using Cons.IH [of q ?h1] Cons.prems g(2) hp by simp
  have "rq_size (granted h r) = rq_size r" "rq_assigned (granted h r) = rq_assigned r + grant h r" by (simp_all add: granted_def)
  then show ?case using assign_bandwidth_eq [OF ok, of h] by (simp add: ih finished_def [of "granted h r"] Let_def)
qed

text \<open>The first loop.\<close>

definition returned :: "(nat \<Rightarrow> bool) \<Rightarrow> bw_request list \<Rightarrow> nat \<Rightarrow> int" where
  "returned disc rs c = (\<Sum>r\<leftarrow>rs. if disc (rq_peer r) \<and> c \<in> set (rq_channel r) then rq_assigned r else 0)"

lemma drop_disconnecting_lists:
  "drop_disconnecting disc rs qb h = (out, stay, qb', h') \<Longrightarrow>
    out = map (\<lambda>r. r\<lparr>rq_assigned := 0\<rparr>) (filter (\<lambda>r. disc (rq_peer r)) rs)
    \<and> stay = filter (\<lambda>r. \<not> disc (rq_peer r)) rs \<and> qb' = qb - owed (filter (\<lambda>r. disc (rq_peer r)) rs)"
proof (induction disc rs qb h arbitrary: out stay qb' h' rule: drop_disconnecting.induct)
  case (2 disc r rs qb h)
  then show ?case by (fastforce simp: Let_def split: if_splits prod.splits)
qed simp

lemma drop_disconnecting_heap:
  assumes "\<forall>r \<in> set rs. distinct (rq_channel r)"
  shows "drop_disconnecting disc rs qb h = (out, stay, qb', h') \<Longrightarrow>
    ch_limit (h' c) = ch_limit (h c) \<and> ch_distribute_quota (h' c) = ch_distribute_quota (h c)
    \<and> ch_tmp (h' c) = (if \<exists>r \<in> set stay. c \<in> set (rq_channel r) then 0 else ch_tmp (h c))
    \<and> ch_quota_left (h' c) = ch_quota_left (h c) + (if ch_limit (h c) = 0 then 0 else returned disc rs c)"
  using assms
proof (induction disc rs qb h arbitrary: out stay qb' h' rule: drop_disconnecting.induct)
  case (1 disc qb h)
  then show ?case by (auto simp: returned_def)
next
  case (2 disc r rs qb h)
  have d: "distinct (rq_channel r)" "\<forall>r \<in> set rs. distinct (rq_channel r)" using 2(4) by auto
  show ?case
  proof (cases "disc (rq_peer r)")
    case True
    let ?h1 = "on_channels (return_quota (rq_assigned r)) (rq_channel r) h"
    obtain o1 s1 q1 where e: "drop_disconnecting disc rs (qb - (rq_size r - rq_assigned r)) ?h1 = (o1, s1, q1, h')" "stay = s1"
      using 2(3) True by (auto simp: Let_def split: prod.splits)
    show ?thesis using 2(1) [OF True e(1) d(2)] on_channels_at [OF d(1), of "return_quota (rq_assigned r)" h c] e(2) True
      by (auto simp: return_quota_def returned_def)
  next
    case False
    let ?h1 = "on_channels (\<lambda>ch. ch\<lparr>ch_tmp := 0\<rparr>) (rq_channel r) h"
    obtain o1 s1 q1 where e: "drop_disconnecting disc rs qb ?h1 = (o1, s1, q1, h')" "stay = r # s1"
      using 2(3) False by (auto simp: Let_def split: prod.splits)
    show ?thesis using 2(2) [OF False e(1) d(2)] on_channels_at [OF d(1), of "\<lambda>ch. ch\<lparr>ch_tmp := 0\<rparr>" h c] e(2) False
      by (auto simp: returned_def)
  qed
qed

text \<open>The second: each channel gets the sum of the priorities of the requests on it.\<close>

definition weight :: "bw_request list \<Rightarrow> nat \<Rightarrow> int" where
  "weight rs c = (\<Sum>r\<leftarrow>rs. if c \<in> set (rq_channel r) then rq_priority r else 0)"

definition add_tmp :: "int \<Rightarrow> bandwidth_channel \<Rightarrow> bandwidth_channel" where
  "add_tmp p ch = ch\<lparr>ch_tmp := ch_tmp ch + p\<rparr>"

lemma add_priorities_at:
  assumes "distinct cs"
  shows "foldl (add_priority p) (chs, h) cs
    = (chs @ filter (\<lambda>c. ch_tmp (h c) = 0) cs, \<lambda>c. if c \<in> set cs then add_tmp p (h c) else h c)"
  using assms
proof (induction cs arbitrary: chs h)
  case (Cons c cs)
  let ?h = "h(c := (h c)\<lparr>ch_tmp := ch_tmp (h c) + p\<rparr>)"
  have "filter (\<lambda>x. ch_tmp (?h x) = 0) cs = filter (\<lambda>x. ch_tmp (h x) = 0) cs" using Cons.prems by (intro filter_cong) auto
  then show ?case using Cons by (auto simp: add_priority_def add_tmp_def fun_eq_iff)
qed simp

lemma sum_priorities_gen:
  assumes "\<forall>r \<in> set rs. distinct (rq_channel r) \<and> 0 < rq_priority r" "distinct chs" "\<forall>c. 0 \<le> ch_tmp (h c)"
    "\<forall>c \<in> set chs. 0 < ch_tmp (h c)" 
  shows "\<exists>chs'. foldl (\<lambda>st r. foldl (add_priority (rq_priority r)) st (rq_channel r)) (chs, h) rs = (chs', \<lambda>c. add_tmp (weight rs c) (h c))
    \<and> distinct chs' \<and> set chs' = set chs \<union> {c. ch_tmp (h c) = 0 \<and> (\<exists>r \<in> set rs. c \<in> set (rq_channel r))}"
  using assms
proof (induction rs arbitrary: chs h)
  case Nil
  then show ?case by (simp add: weight_def add_tmp_def)
next
  case (Cons r rs)
  let ?cs = "rq_channel r" and ?p = "rq_priority r"
  let ?h1 = "\<lambda>c. if c \<in> set ?cs then add_tmp ?p (h c) else h c" and ?chs1 = "chs @ filter (\<lambda>c. ch_tmp (h c) = 0) ?cs"
  have d: "distinct ?cs" "0 < ?p" using Cons.prems(1) by auto
  have t1: "\<forall>c. 0 \<le> ch_tmp (?h1 c)" using Cons.prems(3) d(2) by (auto simp: add_tmp_def)
  have t2: "\<forall>c \<in> set ?chs1. 0 < ch_tmp (?h1 c)"
    using Cons.prems(4) d(2) by (auto simp: add_tmp_def intro: add_pos_pos)
  have t3: "distinct ?chs1" using Cons.prems(2,4) d(1) by auto
  obtain chs' where c: "foldl (\<lambda>st r. foldl (add_priority (rq_priority r)) st (rq_channel r)) (?chs1, ?h1) rs = (chs', \<lambda>c. add_tmp (weight rs c) (?h1 c))"
      "distinct chs'" "set chs' = set ?chs1 \<union> {c. ch_tmp (?h1 c) = 0 \<and> (\<exists>r \<in> set rs. c \<in> set (rq_channel r))}"
    using Cons.IH [of ?chs1 ?h1] Cons.prems(1) t1 t2 t3 by auto
  have tmp0: "ch_tmp (?h1 x) = 0 \<longleftrightarrow> x \<notin> set ?cs \<and> ch_tmp (h x) = 0" for x
    using Cons.prems(3) [rule_format, of x] d(2) by (auto simp: add_tmp_def)
  have hp: "(\<lambda>c. add_tmp (weight rs c) (?h1 c)) = (\<lambda>c. add_tmp (weight (r # rs) c) (h c))" by (auto simp: weight_def add_tmp_def fun_eq_iff)
  have fs: "foldl (add_priority ?p) (chs, h) ?cs = (?chs1, ?h1)" by (rule add_priorities_at [OF d(1)])
  have "set chs' = set chs \<union> {c. ch_tmp (h c) = 0 \<and> (\<exists>r \<in> set (r # rs). c \<in> set (rq_channel r))}"
    unfolding c(3) tmp0 by auto
  then show ?case using c(1,2) unfolding foldl_Cons fs hp by blast
qed

section \<open>Sharing out a quota\<close>

definition channels_ok :: "channels \<Rightarrow> bool" where
  "channels_ok h \<longleftrightarrow> (\<forall>c. 0 \<le> ch_limit (h c) \<and> 0 \<le> ch_distribute_quota (h c) \<and> 0 \<le> ch_tmp (h c))"

lemma share_bounds:
  assumes "channels_ok h" "0 \<le> p"
  shows "share h p q cs \<le> q" "0 \<le> q \<Longrightarrow> 0 \<le> share h p q cs"
    "c \<in> set cs \<Longrightarrow> ch_limit (h c) \<noteq> 0 \<Longrightarrow> ch_tmp (h c) \<noteq> 0 \<Longrightarrow> share h p q cs \<le> ch_distribute_quota (h c) * p div ch_tmp (h c)"
proof -
  have sd: "(ch_distribute_quota (h c) * p) sdiv ch_tmp (h c) = ch_distribute_quota (h c) * p div ch_tmp (h c)" for c
    using assms(2) nonneg_sdiv [of "ch_distribute_quota (h c) * p" "ch_tmp (h c)"] assms(1) by (simp add: channels_ok_def)
  have dn: "0 \<le> ch_distribute_quota (h c) * p div ch_tmp (h c)" for c
  proof (cases "ch_tmp (h c) = 0")
    case False
    then have "0 < ch_tmp (h c)" "0 \<le> ch_distribute_quota (h c) * p" using assms by (auto simp: channels_ok_def order_less_le)
    then show ?thesis by (simp add: pos_imp_zdiv_nonneg_iff)
  qed simp
  let ?f = "\<lambda>q c. if ch_limit (h c) = 0 then q else if ch_tmp (h c) = 0 then q else min (ch_distribute_quota (h c) * p div ch_tmp (h c)) q"
  have eq: "share h p q cs = foldl ?f q cs" for q cs unfolding share_def sd ..
  have le: "foldl ?f q cs \<le> q" for q cs
  proof (induction cs arbitrary: q)
    case (Cons c cs)
    show ?case using Cons.IH [of "?f q c"] by (simp split: if_splits)
  qed simp
  show "share h p q cs \<le> q" using le by (simp add: eq)
  show "0 \<le> share h p q cs" if "0 \<le> q" unfolding eq using that
  proof (induction cs arbitrary: q)
    case (Cons c cs)
    have "0 \<le> ?f q c" using dn [of c] Cons.prems by simp
    then show ?case using Cons.IH [of "?f q c"] by simp
  qed simp
  show "share h p q cs \<le> ch_distribute_quota (h c) * p div ch_tmp (h c)" if "c \<in> set cs" "ch_limit (h c) \<noteq> 0" "ch_tmp (h c) \<noteq> 0"
    unfolding eq using that(1)
  proof (induction cs arbitrary: q)
    case (Cons c' cs)
    show ?case
    proof (cases "c' = c")
      case True
      then show ?thesis using le [of "?f q c" cs] that(2,3) by simp
    next
      case False
      then show ?thesis using Cons by simp
    qed
  qed simp
qed

lemma grant_bounds:
  assumes "channels_ok h" "bw_request_ok r"
  shows "0 \<le> grant h r" "grant h r \<le> rq_size r - rq_assigned r"
    "c \<in> set (take 5 (rq_channel r)) \<Longrightarrow> ch_limit (h c) \<noteq> 0 \<Longrightarrow> ch_tmp (h c) \<noteq> 0 \<Longrightarrow>
      grant h r \<le> ch_distribute_quota (h c) * rq_priority r div ch_tmp (h c)"
  using share_bounds [OF assms(1), of "rq_priority r"] assms(2) by (simp_all add: grant_def bw_request_ok_def)

lemma add_div_le: "0 < (w :: int) \<Longrightarrow> a div w + b div w \<le> (a + b) div w"
  using div_add1_eq [of a b w] pos_imp_zdiv_nonneg_iff [of w "a mod w + b mod w"] pos_mod_sign [of w a] pos_mod_sign [of w b] by linarith

lemma shares_le: "0 < (w :: int) \<Longrightarrow> (\<Sum>x\<leftarrow>xs. d * p x div w) \<le> d * (\<Sum>x\<leftarrow>xs. p x) div w"
proof (induction xs)
  case (Cons x xs)
  have "d * p x div w + d * (\<Sum>x\<leftarrow>xs. p x) div w \<le> (d * p x + d * (\<Sum>x\<leftarrow>xs. p x)) div w" using add_div_le [OF Cons.prems] .
  then show ?case using Cons by (simp add: distrib_left)
qed simp

lemma member_le_sum_list_nonneg: "(\<And>x. x \<in> set xs \<Longrightarrow> 0 \<le> f x) \<Longrightarrow> x \<in> set xs \<Longrightarrow> f x \<le> (\<Sum>x\<leftarrow>xs. f x :: int)"
proof (induction xs)
  case (Cons y xs)
  have "0 \<le> (\<Sum>x\<leftarrow>xs. f x)" by (intro sum_list_nonneg) (use Cons.prems(1) in auto)
  moreover have "0 \<le> f y" using Cons.prems(1) by simp
  ultimately show ?case using Cons.IH Cons.prems by (cases "x = y") (auto intro: add_increasing)
qed simp

lemma sum_list_0_all: "(\<And>x. x \<in> set xs \<Longrightarrow> f x = 0) \<Longrightarrow> (\<Sum>x\<leftarrow>xs. f x :: int) = 0"
  by (induction xs) auto

text \<open>What a round takes from a channel is no more than there is to distribute.\<close>

lemma taken_bounds:
  assumes ok: "channels_ok h" "\<forall>r \<in> set rs. bw_request_ok r"
  shows "0 \<le> taken h rs c"
    "ch_limit (h c) \<noteq> 0 \<Longrightarrow> ch_tmp (h c) = weight rs c \<Longrightarrow> taken h rs c \<le> ch_distribute_quota (h c)"
proof -
  show "0 \<le> taken h rs c" unfolding taken_def using grant_bounds(1) [OF ok(1)] ok(2) by (intro sum_list_nonneg) auto
  assume l: "ch_limit (h c) \<noteq> 0" and t: "ch_tmp (h c) = weight rs c"
  let ?w = "weight rs c" and ?d = "ch_distribute_quota (h c)"
  let ?p = "\<lambda>r. if c \<in> set (rq_channel r) then rq_priority r else 0"
  have d: "0 \<le> ?d" "0 \<le> ?w" using ok(1) t by (metis channels_ok_def)+
  show "taken h rs c \<le> ?d"
  proof (cases "?w = 0")
    case True
    have "\<not> (\<exists>r \<in> set rs. c \<in> set (rq_channel r))"
    proof
      assume "\<exists>r \<in> set rs. c \<in> set (rq_channel r)"
      then obtain r where r: "r \<in> set rs" "c \<in> set (rq_channel r)" by auto
      have "?p r \<le> ?w" unfolding weight_def using r(1) ok(2) by (intro member_le_sum_list_nonneg) (auto simp: bw_request_ok_def)
      then show False using True r ok(2) by (auto simp: bw_request_ok_def)
    qed
    then have "taken h rs c = 0" unfolding taken_def by (intro sum_list_0_all) (auto dest: in_set_takeD)
    then show ?thesis using d by simp
  next
    case False
    then have w: "0 < ?w" using d by simp
    have "taken h rs c \<le> (\<Sum>r\<leftarrow>rs. ?d * ?p r div ?w)" unfolding taken_def
    proof (intro sum_list_mono)
      fix r assume r: "r \<in> set rs"
      show "(if c \<in> set (take 5 (rq_channel r)) then grant h r else 0) \<le> ?d * ?p r div ?w"
      proof (cases "c \<in> set (take 5 (rq_channel r))")
        case True
        then show ?thesis using grant_bounds(3) [OF ok(1), of r c] ok(2) r l t w by (auto dest: in_set_takeD)
      next
        case c: False
        have "0 \<le> ?p r" using ok(2) r by (auto simp: bw_request_ok_def)
        then show ?thesis using c d w by (simp add: pos_imp_zdiv_nonneg_iff)
      qed
    qed
    also have "\<dots> \<le> ?d * (\<Sum>r\<leftarrow>rs. ?p r) div ?w" using shares_le [OF w] .
    also have "\<dots> = ?d" using w by (simp add: weight_def)
    finally show ?thesis .
  qed
qed

section \<open>The rounds\<close>

definition bw_inv :: "bandwidth_manager \<times> channels \<Rightarrow> bool" where
  "bw_inv = (\<lambda>(m, h). channels_ok h \<and> (\<forall>r \<in> set (bm_queue m). bw_request_ok r) \<and> bm_queued_bytes m = owed (bm_queue m)
     \<and> (bm_abort m \<longrightarrow> bm_queue m = []))"

definition staying :: "(nat \<Rightarrow> bool) \<Rightarrow> bandwidth_manager \<Rightarrow> bw_request list" where
  "staying disc m = filter (\<lambda>r. \<not> disc (rq_peer r)) (bm_queue m)"

definition leaving :: "(nat \<Rightarrow> bool) \<Rightarrow> bandwidth_manager \<Rightarrow> bw_request list" where
  "leaving disc m = filter (\<lambda>r. disc (rq_peer r)) (bm_queue m)"

definition waiting_on :: "bw_request list \<Rightarrow> nat \<Rightarrow> bool" where
  "waiting_on rs c \<longleftrightarrow> (\<exists>r \<in> set rs. c \<in> set (rq_channel r))"

text \<open>A channel when the quota is shared out: with the quota that came back, and topped up if requests wait for it.\<close>

definition with_returned :: "(nat \<Rightarrow> bool) \<Rightarrow> bandwidth_manager \<Rightarrow> channels \<Rightarrow> nat \<Rightarrow> bandwidth_channel" where
  "with_returned disc m h c = (h c)\<lparr>ch_quota_left := ch_quota_left (h c) + (if ch_limit (h c) = 0 then 0 else returned disc (bm_queue m) c)\<rparr>"

definition refreshed :: "int \<Rightarrow> (nat \<Rightarrow> bool) \<Rightarrow> bandwidth_manager \<Rightarrow> channels \<Rightarrow> channels" where
  "refreshed dt disc m h c =
     (if waiting_on (staying disc m) c
      then update_quota (min dt 3000) ((with_returned disc m h c)\<lparr>ch_tmp := weight (staying disc m) c\<rparr>)
      else with_returned disc m h c)"

lemma weight_nonneg: "\<forall>r \<in> set rs. bw_request_ok r \<Longrightarrow> 0 \<le> weight rs c"
  unfolding weight_def by (intro sum_list_nonneg) (auto simp: bw_request_ok_def)

lemma refreshed_fields:
  "ch_limit (refreshed dt disc m h c) = ch_limit (h c)"
  "waiting_on (staying disc m) c \<Longrightarrow> ch_tmp (refreshed dt disc m h c) = weight (staying disc m) c"
  "waiting_on (staying disc m) c \<Longrightarrow> ch_limit (h c) \<noteq> 0 \<Longrightarrow> ch_distribute_quota (refreshed dt disc m h c) = max (ch_quota_left (refreshed dt disc m h c)) 0"
  by (simp_all add: refreshed_def with_returned_def update_quota_def Let_def)

lemma staying_ok: "bw_inv (m, h) \<Longrightarrow> \<forall>r \<in> set (staying disc m). bw_request_ok r"
  by (auto simp: bw_inv_def staying_def)

lemma refreshed_ok:
  assumes "bw_inv (m, h)"
  shows "channels_ok (refreshed dt disc m h)"
proof -
  have "0 \<le> ch_limit (h c)" "0 \<le> ch_distribute_quota (h c)" "0 \<le> ch_tmp (h c)" for c using assms by (auto simp: bw_inv_def channels_ok_def)
  then show ?thesis using weight_nonneg [OF staying_ok [OF assms]]
    unfolding channels_ok_def refreshed_def by (simp add: with_returned_def update_quota_def Let_def)
qed

lemma owed_split: "owed rs = owed (filter P rs) + owed (filter (\<lambda>r. \<not> P r) rs)"
  by (induction rs) auto

lemma owed_parts: "owed (bm_queue m) = owed (leaving disc m) + owed (staying disc m)"
  unfolding leaving_def staying_def by (rule owed_split)

lemma refreshed_heap:
  assumes inv: "bw_inv (m, h)" and dd: "drop_disconnecting disc (bm_queue m) qb h = (out, stay, qb1, h1)"
    and sp: "sum_priorities stay h1 = (chs, h2)"
  shows "on_channels (update_quota (if dt > 3000 then 3000 else dt)) chs h2 = refreshed dt disc m h"
proof -
  have st: "stay = staying disc m" using drop_disconnecting_lists [OF dd] by (simp add: staying_def)
  have rq: "\<forall>r \<in> set (bm_queue m). distinct (rq_channel r)" and tmp: "\<forall>c. 0 \<le> ch_tmp (h c)"
    using inv by (auto simp: bw_inv_def bw_request_ok_def channels_ok_def)
  note d = drop_disconnecting_heap [OF rq dd]
  have ok: "\<forall>r \<in> set stay. distinct (rq_channel r) \<and> 0 < rq_priority r" using staying_ok [OF inv] by (auto simp: st bw_request_ok_def)
  have "\<forall>c. 0 \<le> ch_tmp (h1 c)" using d tmp by simp
  then obtain chs' where c: "sum_priorities stay h1 = (chs', \<lambda>c. add_tmp (weight stay c) (h1 c))" "distinct chs'"
      "set chs' = {c. ch_tmp (h1 c) = 0 \<and> waiting_on stay c}"
    using sum_priorities_gen [OF ok, of "[]" h1] unfolding sum_priorities_def waiting_on_def by auto
  have sc: "c \<in> set chs \<longleftrightarrow> waiting_on stay c" for c using c sp d by (auto simp: waiting_on_def)
  have h2: "h2 c = add_tmp (weight stay c) (h1 c)" for c using c(1) sp by simp
  have w0: "weight stay c = 0" if "\<not> waiting_on stay c" for c
    unfolding weight_def using that by (intro sum_list_0_all) (auto simp: waiting_on_def)
  have "h2 c = (if waiting_on stay c then (with_returned disc m h c)\<lparr>ch_tmp := weight stay c\<rparr> else with_returned disc m h c)" for c
    using d [of c] w0 [of c] unfolding h2 by (intro bandwidth_channel.equality) (auto simp: add_tmp_def with_returned_def waiting_on_def)
  moreover have "min dt 3000 = (if dt > 3000 then 3000 else dt)" by simp
  ultimately show ?thesis using on_channels_at [of chs] c(1,2) sp sc by (auto simp: refreshed_def st)
qed

lemma round_eq:
  assumes inv: "bw_inv (m, h)" and run: "\<not> bm_abort m"
  shows "update_quotas dt disc m h =
    (let h3 = refreshed dt disc m h; rs = map (granted h3) (staying disc m); wait = filter (\<lambda>r. \<not> finished r) rs
     in (m\<lparr>bm_queue := wait, bm_queued_bytes := owed wait\<rparr>, \<lambda>c. use_quota (taken h3 (staying disc m) c) (h3 c),
         calls_of m (map (\<lambda>r. r\<lparr>rq_assigned := 0\<rparr>) (leaving disc m) @ filter finished rs)))"
proof (cases "bm_queue m = []")
  case True
  then have s: "staying disc m = []" "leaving disc m = []" by (simp_all add: staying_def leaving_def)
  have u0: "use_quota 0 ch = ch" for ch by (simp add: use_quota_def)
  have q: "bm_queued_bytes m = 0" using inv True by (simp add: bw_inv_def)
  have "refreshed dt disc m h = h" using s True by (auto simp: refreshed_def waiting_on_def with_returned_def returned_def fun_eq_iff)
  then show ?thesis using True s q u0 by (simp add: update_quotas_def taken_def calls_of_def Let_def)
next
  case False
  obtain out stay qb1 h1 where dd: "drop_disconnecting disc (bm_queue m) (bm_queued_bytes m) h = (out, stay, qb1, h1)" by (metis prod_cases4)
  obtain chs h2 where sp: "sum_priorities stay h1 = (chs, h2)" by (cases "sum_priorities stay h1")
  have l: "out = map (\<lambda>r. r\<lparr>rq_assigned := 0\<rparr>) (leaving disc m)" "stay = staying disc m" "qb1 = bm_queued_bytes m - owed (leaving disc m)"
    using drop_disconnecting_lists [OF dd] by (simp_all add: leaving_def staying_def)
  have qb: "qb1 = owed (staying disc m)" using l(3) inv owed_parts [of m disc] by (simp add: bw_inv_def)
  show ?thesis using False run dd sp assign_queue_eq [OF staying_ok [OF inv], of disc qb1 "refreshed dt disc m h"]
    unfolding update_quotas_def by (simp add: refreshed_heap [OF inv dd sp] l(1,2) qb Let_def)
qed

text \<open>A round keeps the invariant.\<close>

lemma granted_ok:
  assumes "channels_ok h" "bw_request_ok r"
  shows "\<not> finished (granted h r) \<Longrightarrow> bw_request_ok (granted h r)"
  using grant_bounds(1,2) [OF assms] assms(2) by (auto simp: bw_request_ok_def granted_def finished_def)

lemma update_quotas_inv:
  assumes inv: "bw_inv (m, h)" and up: "update_quotas dt disc m h = (m', h', calls)"
  shows "bw_inv (m', h')"
proof (cases "bm_abort m")
  case True
  then show ?thesis using assms by (simp add: update_quotas_def)
next
  case False
  let ?h3 = "refreshed dt disc m h" and ?st = "staying disc m"
  have e: "m' = m\<lparr>bm_queue := filter (\<lambda>r. \<not> finished r) (map (granted ?h3) ?st), bm_queued_bytes := owed (filter (\<lambda>r. \<not> finished r) (map (granted ?h3) ?st))\<rparr>"
      "h' = (\<lambda>c. use_quota (taken ?h3 ?st c) (?h3 c))"
    using round_eq [OF inv False, of dt disc] up by (simp_all add: Let_def)
  have "channels_ok h'" using refreshed_ok [OF inv, of dt disc] unfolding e(2) by (simp add: channels_ok_def use_quota_def)
  moreover have "\<forall>r \<in> set (bm_queue m'). bw_request_ok r"
    using granted_ok [OF refreshed_ok [OF inv]] staying_ok [OF inv] unfolding e(1) by auto
  ultimately show ?thesis using False e(1) by (simp add: bw_inv_def)
qed

end
