(* ===== verification/Bandwidth_Limits.thy ===== *)
theory Bandwidth_Limits
  imports Bandwidth "HOL-Library.Multiset"
begin

text \<open>
  The bandwidth manager over time: a transition system with its invariant, the limit as a bound on
  what a run gives out, what a round answers, and the case in which requests are never answered.
\<close>

lemma queueing_channels_ok:
  "queueing_channels blk cs h = (ks, h') \<Longrightarrow> distinct cs \<Longrightarrow>
    distinct ks \<and> set ks \<subseteq> set cs
    \<and> (\<forall>c. rate (h' c) = rate (h c)
         \<and> ch_quota_left (h' c) = ch_quota_left (h c) - (if c \<in> set cs \<and> \<not> fst (need_queueing blk (h c)) then blk else 0))"
proof (induction cs arbitrary: h ks h')
  case (Cons c cs)
  obtain need ch where n: "need_queueing blk (h c) = (need, ch)" by (cases "need_queueing blk (h c)")
  obtain ks1 where r: "queueing_channels blk cs (h(c := ch)) = (ks1, h')" "ks = (if need then c # ks1 else ks1)"
    using Cons.prems(1) n by (auto split: prod.splits)
  have "rate ch = rate (h c)" "ch_quota_left ch = ch_quota_left (h c) - (if need then 0 else blk)"
    using n by (auto simp: need_queueing_def rate_def split: if_splits)
  then show ?case using Cons.IH [OF r(1)] Cons.prems(2) n r(2) by auto
qed auto

lemma request_bandwidth_inv:
  assumes inv: "bw_inv (m, h)" and rq: "request_bandwidth peer blk prio chan m h = Some (n, m', h')"
    and ok: "0 < blk" "0 < prio" "distinct chan"
  shows "bw_inv (m', h')"
proof (cases "bm_abort m \<or> chan = []")
  case True
  then show ?thesis using inv rq by (auto simp: request_bandwidth_def split: if_splits)
next
  case False
  obtain ks h1 where q: "queueing_channels blk chan h = (ks, h1)" by (cases "queueing_channels blk chan h")
  note c = queueing_channels_ok [OF q ok(3)]
  have h1: "channels_ok h1" using inv c by (auto simp: bw_inv_def channels_ok_def rate_def)
  have "bw_request_ok (new_request peer blk prio ks)" if "ks \<noteq> []" "length ks \<le> max_bandwidth_channels"
    using c that ok by (simp add: bw_request_ok_def new_request_def)
  then show ?thesis using inv rq False q h1 unfolding request_bandwidth_def
    by (auto simp: bw_inv_def new_request_def split: if_splits)
qed

section \<open>The manager as a transition system\<close>

inductive bw_step :: "bandwidth_manager \<times> channels \<Rightarrow> bandwidth_manager \<times> channels \<Rightarrow> bool" where
  request: "request_bandwidth peer blk prio chan m h = Some (n, m', h') \<Longrightarrow> 0 < blk \<Longrightarrow> 0 < prio \<Longrightarrow> distinct chan \<Longrightarrow> bw_step (m, h) (m', h')"
| round: "update_quotas dt disc m h = (m', h', calls) \<Longrightarrow> bw_step (m, h) (m', h')"
| close: "bm_close m = (m', calls) \<Longrightarrow> bw_step (m, h) (m', h)"
| limit: "0 \<le> lim \<Longrightarrow> bw_step (m, h) (m, h(c := throttle lim (h c)))"
| overhead: "0 \<le> amount \<Longrightarrow> bw_step (m, h) (m, h(c := use_quota amount (h c)))"

definition bw_init :: "bandwidth_manager \<times> channels \<Rightarrow> bool" where
  "bw_init s \<longleftrightarrow> (\<exists>channel. s = (new_manager channel, \<lambda>_. new_channel))"

interpretation bandwidth: guarded_steps bw_init bw_step bw_inv
proof
  fix s assume "bw_init s"
  then show "bw_inv s" by (auto simp: bw_init_def bw_inv_def new_manager_def new_channel_def channels_ok_def)
next
  fix s s' assume inv: "bw_inv s" and step: "bw_step s s'"
  from step show "bw_inv s'"
  proof cases
    case (request peer blk prio chan m h n m' h')
    then show ?thesis using request_bandwidth_inv inv by blast
  next
    case (round dt disc m h m' h' calls)
    then show ?thesis using update_quotas_inv inv by blast
  qed (use inv in \<open>auto simp: bw_inv_def bm_close_def channels_ok_def throttle_def use_quota_def\<close>)
qed

section \<open>The limit holds over time\<close>

datatype bw_event = Request nat int int "nat list" | Round int "nat \<Rightarrow> bool"

fun bw_apply :: "bw_event \<Rightarrow> bandwidth_manager \<times> channels \<Rightarrow> (bandwidth_manager \<times> channels) option" where
  "bw_apply (Request peer blk prio chan) (m, h) = map_option snd (request_bandwidth peer blk prio chan m h)"
| "bw_apply (Round dt disc) (m, h) = (case update_quotas dt disc m h of (m', h', calls) \<Rightarrow> Some (m', h'))"

text \<open>The bytes a round gives to the requests that have the channel, at any place; they are those it is charged for if none has more than five.\<close>

definition handed :: "channels \<Rightarrow> bw_request list \<Rightarrow> nat \<Rightarrow> int" where
  "handed h rs c = (\<Sum>r\<leftarrow>rs. if c \<in> set (rq_channel r) then grant h r else 0)"

definition few_channels :: "bw_request list \<Rightarrow> bool" where
  "few_channels rs \<longleftrightarrow> (\<forall>r \<in> set rs. length (rq_channel r) \<le> 5)"

lemma handed_taken:
  assumes "few_channels rs"
  shows "handed h rs c = taken h rs c"
  unfolding handed_def taken_def using assms by (intro arg_cong [of _ _ sum_list] map_cong) (auto simp: few_channels_def)

text \<open>The bytes an event gives out on a channel, less what disconnecting peers give back; and what it adds to the quota at most.\<close>

fun drawn :: "nat \<Rightarrow> bw_event \<Rightarrow> bandwidth_manager \<times> channels \<Rightarrow> int" where
  "drawn c (Request peer blk prio chan) (m, h) =
     (if \<not> bm_abort m \<and> c \<in> set chan \<and> \<not> fst (need_queueing blk (h c)) then blk else 0)"
| "drawn c (Round dt disc) (m, h) =
     (if bm_abort m then 0 else handed (refreshed dt disc m h) (staying disc m) c - returned disc (bm_queue m) c)"

fun credit :: "int \<Rightarrow> bw_event \<Rightarrow> int" where
  "credit lim (Request peer blk prio chan) = 0"
| "credit lim (Round dt disc) = (lim * min dt 3000 + 500) div 1000"

fun event_ok :: "bw_event \<Rightarrow> bool" where
  "event_ok (Request peer blk prio chan) \<longleftrightarrow> 0 < blk \<and> 0 < prio \<and> distinct chan \<and> length chan \<le> 5"
| "event_ok (Round dt disc) \<longleftrightarrow> 0 \<le> dt"

lemma apply_inv: "bw_inv s \<Longrightarrow> event_ok e \<Longrightarrow> bw_apply e s = Some s' \<Longrightarrow> bw_inv s'"
proof (cases e)
  case (Request peer blk prio chan)
  assume "bw_inv s" "event_ok e" "bw_apply e s = Some s'"
  then show "bw_inv s'" using Request by (cases s; cases s') (auto intro: request_bandwidth_inv)
next
  case (Round dt disc)
  assume "bw_inv s" "event_ok e" "bw_apply e s = Some s'"
  then show "bw_inv s'" using Round by (cases s; cases s') (auto intro: update_quotas_inv split: prod.splits)
qed

lemma queueing_few: "queueing_channels blk cs h = (ks, h') \<Longrightarrow> length ks \<le> length cs"
  by (induction cs arbitrary: h ks h') (fastforce split: prod.splits if_splits)+

lemma apply_few:
  assumes inv: "bw_inv (m, h)" and e: "event_ok e" "bw_apply e (m, h) = Some (m', h')" and few: "few_channels (bm_queue m)"
  shows "few_channels (bm_queue m')"
proof (cases e)
  case (Request peer blk prio chan)
  obtain ks h1 where q: "queueing_channels blk chan h = (ks, h1)" by (cases "queueing_channels blk chan h")
  have "length ks \<le> 5" using queueing_few [OF q] e(1) Request by simp
  then show ?thesis using e(2) few Request q by (auto simp: request_bandwidth_def few_channels_def new_request_def split: if_splits)
next
  case (Round dt disc)
  show ?thesis
  proof (cases "bm_abort m")
    case True
    then show ?thesis using e(2) few Round by (auto simp: update_quotas_def)
  next
    case False
    then have "bm_queue m' = filter (\<lambda>r. \<not> finished r) (map (granted (refreshed dt disc m h)) (staying disc m))"
      using round_eq [OF inv False, of dt disc] e(2) Round by (auto simp: Let_def)
    then show ?thesis using few by (auto simp: few_channels_def staying_def granted_def)
  qed
qed

lemma sdiv_three:
  fixes a l :: int
  assumes "0 \<le> l"
  shows "a sdiv 3 > l \<Longrightarrow> l * 3 \<le> a" "\<not> a sdiv 3 > l \<Longrightarrow> a \<le> l * 3 + 2"
proof -
  have "a sdiv 3 = (if 0 \<le> a then a div 3 else - (- a div 3))" using nonneg_sdiv [of a 3] by (simp add: signed_divide_int_def)
  then show "a sdiv 3 > l \<Longrightarrow> l * 3 \<le> a" "\<not> a sdiv 3 > l \<Longrightarrow> a \<le> l * 3 + 2" using assms by (auto split: if_splits)
qed

lemma update_quota_le:
  assumes "0 \<le> ch_limit ch" "0 \<le> dt"
  shows "ch_quota_left (update_quota dt ch) \<le> ch_quota_left ch + (ch_limit ch * dt + 500) div 1000"
    "0 \<le> ch_quota_left ch \<Longrightarrow> 0 \<le> ch_quota_left (update_quota dt ch)"
proof -
  have p: "0 \<le> ch_limit ch * dt" using assms by simp
  then have sd: "(ch_limit ch * dt + 500) sdiv 1000 = (ch_limit ch * dt + 500) div 1000" "0 \<le> (ch_limit ch * dt + 500) div 1000"
    by (simp_all add: nonneg_sdiv)
  note three = sdiv_three(1)
  show "ch_quota_left (update_quota dt ch) \<le> ch_quota_left ch + (ch_limit ch * dt + 500) div 1000"
    using sd three [OF assms(1), of "ch_quota_left ch + (ch_limit ch * dt + 500) div 1000"]
    by (auto simp: update_quota_def Let_def)
  show "0 \<le> ch_quota_left (update_quota dt ch)" if "0 \<le> ch_quota_left ch"
    using sd that assms(1) by (auto simp: update_quota_def Let_def bw_inf_def)
qed

lemma returned_nonneg: "\<forall>r \<in> set rs. bw_request_ok r \<Longrightarrow> 0 \<le> returned disc rs c"
  unfolding returned_def by (intro sum_list_nonneg) (auto simp: bw_request_ok_def)

lemma apply_ledger:
  assumes inv: "bw_inv (m, h)" and e: "event_ok e" "bw_apply e (m, h) = Some (m', h')"
    and c: "0 < ch_limit (h c)" "0 \<le> ch_quota_left (h c)" and few: "few_channels (bm_queue m)"
  shows "ch_limit (h' c) = ch_limit (h c) \<and> 0 \<le> ch_quota_left (h' c)
    \<and> drawn c e (m, h) + ch_quota_left (h' c) \<le> ch_quota_left (h c) + credit (ch_limit (h c)) e"
proof (cases e)
  case (Request peer blk prio chan)
  obtain ks h1 where q: "queueing_channels blk chan h = (ks, h1)" by (cases "queueing_channels blk chan h")
  have d: "distinct chan" "0 < blk" using e(1) Request by auto
  have qc: "ch_limit (h1 c) = ch_limit (h c)" "ch_quota_left (h1 c) = ch_quota_left (h c) - (if c \<in> set chan \<and> \<not> fst (need_queueing blk (h c)) then blk else 0)"
    using queueing_channels_ok [OF q d(1)] by (auto simp: rate_def)
  have "h' = (if bm_abort m \<or> chan = [] then h else h1)"
    using e(2) Request q by (auto simp: request_bandwidth_def split: if_splits)
  moreover have "ch_limit (h c) \<le> ch_quota_left (h c) - blk" if "\<not> fst (need_queueing blk (h c))"
    using that by (auto simp: need_queueing_def split: if_splits)
  ultimately show ?thesis using qc c Request by (auto split: if_splits)
next
  case (Round dt disc)
  have dt: "0 \<le> dt" using e(1) Round by simp
  then have "0 \<le> ch_limit (h c) * min dt 3000" using c(1) by simp
  then have pos: "0 \<le> (ch_limit (h c) * min dt 3000 + 500) div 1000" by simp
  show ?thesis
  proof (cases "bm_abort m")
    case True
    then show ?thesis using e(2) Round c pos by (auto simp: update_quotas_def)
  next
    case False
    let ?h3 = "refreshed dt disc m h" and ?st = "staying disc m"
    have h': "h' = (\<lambda>c. use_quota (taken ?h3 ?st c) (?h3 c))" using round_eq [OF inv False, of dt disc] e(2) Round by (simp add: Let_def)
    note ok = refreshed_ok [OF inv, of dt disc] and st = staying_ok [OF inv, of disc]
    have ret: "0 \<le> returned disc (bm_queue m) c" using inv by (intro returned_nonneg) (simp add: bw_inv_def)
    have lim: "ch_limit (?h3 c) = ch_limit (h c)" by (rule refreshed_fields)
    let ?ch = "(with_returned disc m h c)\<lparr>ch_tmp := weight ?st c\<rparr>"
    have wr: "ch_limit ?ch = ch_limit (h c)" "ch_quota_left ?ch = ch_quota_left (h c) + returned disc (bm_queue m) c" using c(1) by (simp_all add: with_returned_def)
    have up: "0 \<le> ch_quota_left (update_quota (min dt 3000) ?ch)"
        "ch_quota_left (update_quota (min dt 3000) ?ch) \<le> ch_quota_left ?ch + (ch_limit (h c) * min dt 3000 + 500) div 1000"
      using update_quota_le [of ?ch "min dt 3000"] wr c dt ret by simp_all
    have tk: "taken ?h3 ?st c \<le> ch_quota_left (?h3 c) \<and> 0 \<le> ch_quota_left (?h3 c)
        \<and> ch_quota_left (?h3 c) \<le> ch_quota_left (h c) + returned disc (bm_queue m) c + credit (ch_limit (h c)) e"
    proof (cases "waiting_on ?st c")
      case True
      then have h3: "update_quota (min dt 3000) ?ch = ?h3 c" by (simp add: refreshed_def)
      have "taken ?h3 ?st c \<le> ch_distribute_quota (?h3 c)"
        using taken_bounds(2) [OF ok st] lim c(1) refreshed_fields(2) [OF True] by simp
      also have "\<dots> = ch_quota_left (?h3 c)" using refreshed_fields(3) [OF True, of h dt] c(1) up(1) unfolding h3 by simp
      finally show ?thesis using up wr(2) Round unfolding h3 by simp
    next
      case False
      then have "taken ?h3 ?st c = 0" unfolding taken_def by (intro sum_list_0_all) (auto simp: waiting_on_def dest: in_set_takeD)
      moreover have "?h3 c = with_returned disc m h c" using False by (simp add: refreshed_def)
      ultimately show ?thesis using wr c ret pos Round by simp
    qed
    have "ch_quota_left (h' c) = ch_quota_left (?h3 c) - taken ?h3 ?st c" "ch_limit (h' c) = ch_limit (h c)"
      using h' lim c(1) by (simp_all add: use_quota_def)
    moreover have "handed ?h3 ?st c = taken ?h3 ?st c" using few by (intro handed_taken) (auto simp: few_channels_def staying_def)
    ultimately show ?thesis using tk False Round by simp
  qed
qed

text \<open>A run of events, with the sum given out on a channel and the sum of what was added to its quota.\<close>

fun ledger :: "nat \<Rightarrow> int \<Rightarrow> bw_event list \<Rightarrow> bandwidth_manager \<times> channels \<Rightarrow> ((bandwidth_manager \<times> channels) \<times> int \<times> int) option" where
  "ledger c lim [] s = Some (s, 0, 0)"
| "ledger c lim (e # es) s =
     (case bw_apply e s of
        None \<Rightarrow> None
      | Some s1 \<Rightarrow> map_option (\<lambda>(s2, d, t). (s2, drawn c e s + d, credit lim e + t)) (ledger c lim es s1))"

lemma ledger_balance:
  assumes "ledger c lim es (m, h) = Some ((m', h'), d, t)" "bw_inv (m, h)" "\<forall>e \<in> set es. event_ok e"
    "ch_limit (h c) = lim" "0 < lim" "0 \<le> ch_quota_left (h c)" "few_channels (bm_queue m)"
  shows "d + ch_quota_left (h' c) \<le> ch_quota_left (h c) + t \<and> 0 \<le> ch_quota_left (h' c) \<and> bw_inv (m', h')"
  using assms
proof (induction es arbitrary: m h d t)
  case (Cons e es)
  obtain m1 h1 where a: "bw_apply e (m, h) = Some (m1, h1)" using Cons.prems(1) by (cases "bw_apply e (m, h)") auto
  obtain d1 t1 where l: "ledger c lim es (m1, h1) = Some ((m', h'), d1, t1)" "d = drawn c e (m, h) + d1" "t = credit lim e + t1"
    using Cons.prems(1) a by auto
  have step: "ch_limit (h1 c) = lim" "0 \<le> ch_quota_left (h1 c)" "drawn c e (m, h) + ch_quota_left (h1 c) \<le> ch_quota_left (h c) + credit lim e"
    using apply_ledger [OF Cons.prems(2) _ a, of c] Cons.prems by auto
  have "bw_inv (m1, h1)" using apply_inv [OF Cons.prems(2) _ a] Cons.prems(3) by simp
  moreover have "few_channels (bm_queue m1)" using apply_few [OF Cons.prems(2) _ a Cons.prems(7)] Cons.prems(3) by simp
  ultimately have "d1 + ch_quota_left (h' c) \<le> ch_quota_left (h1 c) + t1 \<and> 0 \<le> ch_quota_left (h' c) \<and> bw_inv (m', h')"
    using Cons.IH [OF l(1)] Cons.prems(3,5) step(1,2) by simp
  then show ?case using step(3) l(2,3) by linarith
qed simp

text \<open>A round loses no request: each is answered or waits on; a peer that is not disconnecting is given something.\<close>

lemma round_answers:
  assumes inv: "bw_inv (m, h)" and run: "\<not> bm_abort m" and up: "update_quotas dt disc m h = (m', h', calls)"
  shows "mset (map rq_peer (bm_queue m)) = mset (map rq_peer (bm_queue m')) + mset (map fst calls)"
    "(p, d, b) \<in> set calls \<Longrightarrow> d = bm_channel m \<and> (if disc p then b = 0 else 0 < b) \<and> (\<exists>r \<in> set (bm_queue m). rq_peer r = p \<and> b \<le> rq_size r)"
proof -
  let ?h3 = "refreshed dt disc m h" and ?st = "staying disc m"
  have e: "bm_queue m' = filter (\<lambda>r. \<not> finished r) (map (granted ?h3) ?st)"
      "calls = calls_of m (map (\<lambda>r. r\<lparr>rq_assigned := 0\<rparr>) (leaving disc m) @ filter finished (map (granted ?h3) ?st))"
    using round_eq [OF inv run, of dt disc] up by (simp_all add: Let_def)
  have parts: "mset (map rq_peer rs) = mset (map rq_peer (filter P rs)) + mset (map rq_peer (filter (\<lambda>r. \<not> P r) rs))" for P :: "bw_request \<Rightarrow> bool" and rs
    by (induction rs) auto
  have g: "map rq_peer (map (granted ?h3) ?st) = map rq_peer ?st" by (simp add: granted_def)
  have "mset (map rq_peer (bm_queue m)) = mset (map rq_peer (leaving disc m)) + mset (map rq_peer ?st)"
    using parts [of "bm_queue m" "\<lambda>r. disc (rq_peer r)"] by (simp add: leaving_def staying_def)
  also have "mset (map rq_peer ?st) = mset (map rq_peer (filter finished (map (granted ?h3) ?st))) + mset (map rq_peer (filter (\<lambda>r. \<not> finished r) (map (granted ?h3) ?st)))"
    using parts [of "map (granted ?h3) ?st" finished] unfolding g .
  finally have whole: "mset (map rq_peer (bm_queue m)) = mset (map rq_peer (leaving disc m))
      + (mset (map rq_peer (filter finished (map (granted ?h3) ?st))) + mset (map rq_peer (filter (\<lambda>r. \<not> finished r) (map (granted ?h3) ?st))))" .
  have "map fst calls = rev (map rq_peer (leaving disc m) @ map rq_peer (filter finished (map (granted ?h3) ?st)))"
    unfolding e(2) calls_of_def by (simp add: rev_map o_def)
  then have "mset (map fst calls) = mset (map rq_peer (leaving disc m)) + mset (map rq_peer (filter finished (map (granted ?h3) ?st)))"
    by (simp only: mset_rev mset_append)
  then show "mset (map rq_peer (bm_queue m)) = mset (map rq_peer (bm_queue m')) + mset (map fst calls)" unfolding e(1) whole by (simp only: ac_simps)
  show "d = bm_channel m \<and> (if disc p then b = 0 else 0 < b) \<and> (\<exists>r \<in> set (bm_queue m). rq_peer r = p \<and> b \<le> rq_size r)" if mem: "(p, d, b) \<in> set calls"
  proof -
    consider r where "r \<in> set (leaving disc m)" "p = rq_peer r" "d = bm_channel m" "b = 0"
      | r where "r \<in> set ?st" "finished (granted ?h3 r)" "p = rq_peer r" "d = bm_channel m" "b = rq_assigned (granted ?h3 r)"
      using mem unfolding e(2) calls_of_def by (auto simp: granted_def)
    then show ?thesis
    proof cases
      case 1
      then have "bw_request_ok r" "r \<in> set (bm_queue m)" "disc p" using inv by (auto simp: leaving_def bw_inv_def)
      then show ?thesis using 1 by (auto simp: bw_request_ok_def intro!: bexI [of _ r])
    next
      case 2
      then have r: "bw_request_ok r" "r \<in> set (bm_queue m)" "\<not> disc p" using inv by (auto simp: staying_def bw_inv_def)
      then show ?thesis using 2 grant_bounds(1,2) [OF refreshed_ok [OF inv] r(1), of dt disc]
        by (auto simp: bw_request_ok_def granted_def finished_def intro!: bexI [of _ r])
    qed
  qed
qed

section \<open>Starvation\<close>

text \<open>
  All requests wait for a channel whose limit is small for their number: the three seconds of quota
  a channel can save up are less than one byte for each unit of priority.
\<close>

definition starved :: "nat \<Rightarrow> int \<Rightarrow> bandwidth_manager \<times> channels \<Rightarrow> bool" where
  "starved c lim s \<longleftrightarrow> bw_inv s \<and> (case s of (m, h) \<Rightarrow>
     \<not> bm_abort m \<and> ch_limit (h c) = lim \<and> 0 < lim \<and> 6 * lim + 3 \<le> bw_inf \<and> ch_quota_left (h c) \<le> 3 * lim + 2
     \<and> (\<forall>r \<in> set (bm_queue m). rq_assigned r = 0 \<and> c \<in> set (take 5 (rq_channel r)) \<and> (3 * lim + 2) * rq_priority r < weight (bm_queue m) c))"

definition nobody :: "nat \<Rightarrow> bool" where
  "nobody peer = False"

lemma staying_nobody [simp]: "staying nobody m = bm_queue m" "leaving nobody m = []" "returned nobody rs c = 0"
proof -
  show "staying nobody m = bm_queue m" "leaving nobody m = []" by (simp_all add: staying_def leaving_def nobody_def)
  show "returned nobody rs c = 0" unfolding returned_def nobody_def by (intro sum_list_0_all) simp
qed

lemma update_quota_cap:
  assumes l: "0 < ch_limit ch" "6 * ch_limit ch + 3 \<le> bw_inf" "ch_quota_left ch \<le> 3 * ch_limit ch + 2" and dt: "0 \<le> dt" "dt \<le> 3000"
  shows "ch_quota_left (update_quota dt ch) \<le> 3 * ch_limit ch + 2"
proof -
  let ?t = "(ch_limit ch * dt + 500) div 1000"
  have "ch_limit ch * dt \<le> ch_limit ch * 3000" "0 \<le> ch_limit ch * dt" using l(1) dt by simp_all
  then have t: "?t \<le> 3 * ch_limit ch" "(ch_limit ch * dt + 500) sdiv 1000 = ?t" by (simp_all add: nonneg_sdiv)
  then have "\<not> ?t > bw_inf - ch_quota_left ch" using l by linarith
  then show ?thesis using t l(1) sdiv_three(2) [of "ch_limit ch" "ch_quota_left ch + ?t"] by (auto simp: update_quota_def Let_def)
qed

lemma grant_starved:
  assumes ok: "channels_ok h" "bw_request_ok r" and c: "c \<in> set (take 5 (rq_channel r))" "ch_limit (h c) \<noteq> 0"
    and q: "ch_distribute_quota (h c) \<le> q" "q * rq_priority r < ch_tmp (h c)" "0 \<le> q"
  shows "grant h r = 0"
proof -
  have p: "0 < rq_priority r" using ok(2) by (simp add: bw_request_ok_def)
  have d: "0 \<le> ch_distribute_quota (h c)" using ok(1) by (simp add: channels_ok_def)
  have "ch_distribute_quota (h c) * rq_priority r \<le> q * rq_priority r" using q(1) p by simp
  then have lt: "ch_distribute_quota (h c) * rq_priority r < ch_tmp (h c)" using q(2) by linarith
  have nn: "0 \<le> ch_distribute_quota (h c) * rq_priority r" using d p by simp
  then have "ch_distribute_quota (h c) * rq_priority r div ch_tmp (h c) = 0" using lt by simp
  moreover have "ch_tmp (h c) \<noteq> 0" using lt nn by linarith
  ultimately show ?thesis using grant_bounds [OF ok] c by fastforce
qed

definition tick :: "bw_request \<Rightarrow> bw_request" where
  "tick r = r\<lparr>rq_ttl := rq_ttl r - 1\<rparr>"

lemma tick_fields [simp]: "rq_peer (tick r) = rq_peer r" "rq_priority (tick r) = rq_priority r" "rq_assigned (tick r) = rq_assigned r"
    "rq_size (tick r) = rq_size r" "rq_channel (tick r) = rq_channel r"
  by (simp_all add: tick_def)

lemma starved_round:
  assumes s: "starved c lim (m, h)" and dt: "0 \<le> dt"
  shows "\<exists>h'. update_quotas dt nobody m h = (m\<lparr>bm_queue := map tick (bm_queue m)\<rparr>, h', []) \<and> starved c lim (m\<lparr>bm_queue := map tick (bm_queue m)\<rparr>, h')"
proof -
  let ?h3 = "refreshed dt nobody m h" and ?q = "bm_queue m"
  have inv: "bw_inv (m, h)" and run: "\<not> bm_abort m" and l: "ch_limit (h c) = lim" "0 < lim" "6 * lim + 3 \<le> bw_inf" "ch_quota_left (h c) \<le> 3 * lim + 2"
    and rq: "\<And>r. r \<in> set ?q \<Longrightarrow> rq_assigned r = 0 \<and> c \<in> set (take 5 (rq_channel r)) \<and> (3 * lim + 2) * rq_priority r < weight ?q c"
    using s by (auto simp: starved_def)
  have ok: "\<And>r. r \<in> set ?q \<Longrightarrow> bw_request_ok r" and qb: "bm_queued_bytes m = owed ?q" using inv by (auto simp: bw_inv_def)
  have wq: "waiting_on ?q c" if "r \<in> set ?q" for r using that rq [OF that] by (auto simp: waiting_on_def dest: in_set_takeD)
  have cap: "ch_quota_left (?h3 c) \<le> 3 * lim + 2"
    using update_quota_cap [of "(with_returned nobody m h c)\<lparr>ch_tmp := weight ?q c\<rparr>" "min dt 3000"] l dt
    by (auto simp: refreshed_def with_returned_def)
  have g: "grant ?h3 r = 0" if r: "r \<in> set ?q" for r
  proof (rule grant_starved [OF refreshed_ok [OF inv] ok [OF r], of c])
    show "ch_limit (?h3 c) \<noteq> 0" using refreshed_fields(1) [of dt nobody m h c] l by simp
    show "ch_distribute_quota (?h3 c) \<le> 3 * lim + 2" using refreshed_fields(3) [of nobody m c h dt] wq [OF r] l cap by simp
    show "(3 * lim + 2) * rq_priority r < ch_tmp (?h3 c)" using refreshed_fields(2) [of nobody m c dt h] wq [OF r] rq [OF r] by simp
  qed (use rq [OF r] l in auto)
  have gr: "map (granted ?h3) ?q = map tick ?q" using g by (auto simp: granted_def tick_def)
  have nf: "\<not> finished (tick r)" if "r \<in> set ?q" for r using rq [OF that] ok [OF that] by (auto simp: finished_def bw_request_ok_def)
  have keep: "filter (\<lambda>r. \<not> finished r) (map tick ?q) = map tick ?q" "filter finished (map tick ?q) = []" using nf by (auto simp: filter_id_conv filter_empty_conv)
  have ow: "owed (map tick ?q) = owed ?q" by (simp add: owed_def o_def)
  have tk: "taken ?h3 ?q c' = 0" for c' unfolding taken_def using g by (intro sum_list_0_all) auto
  have e: "update_quotas dt nobody m h = (m\<lparr>bm_queue := map tick ?q\<rparr>, ?h3, [])"
  proof -
    have "(\<lambda>c'. use_quota (taken ?h3 ?q c') (?h3 c')) = ?h3" by (simp add: tk use_quota_def fun_eq_iff)
    moreover have "m\<lparr>bm_queue := map tick ?q, bm_queued_bytes := owed (map tick ?q)\<rparr> = m\<lparr>bm_queue := map tick ?q\<rparr>" using ow qb by simp
    ultimately show ?thesis unfolding round_eq [OF inv run] by (simp only: Let_def staying_nobody gr keep list.map append_Nil calls_of_def rev.simps)
  qed
  have "weight (map tick ?q) c = weight ?q c" by (simp add: weight_def o_def cong: if_cong)
  then have "starved c lim (m\<lparr>bm_queue := map tick ?q\<rparr>, ?h3)"
    using update_quotas_inv [OF inv e] run l cap rq refreshed_fields(1) [of dt nobody m h c] by (auto simp: starved_def)
  then show ?thesis using e by blast
qed

text \<open>Rounds one after the other, with all the calls they make.\<close>

fun rounds :: "int list \<Rightarrow> bandwidth_manager \<Rightarrow> channels \<Rightarrow> bandwidth_manager \<times> channels \<times> bw_call list" where
  "rounds [] m h = (m, h, [])"
| "rounds (dt # dts) m h =
     (let (m1, h1, calls) = update_quotas dt nobody m h; (m2, h2, more) = rounds dts m1 h1 in (m2, h2, calls @ more))"

lemma starved_rounds:
  "starved c lim (m, h) \<Longrightarrow> \<forall>dt \<in> set dts. 0 \<le> dt \<Longrightarrow>
    \<exists>m' h'. rounds dts m h = (m', h', []) \<and> map rq_peer (bm_queue m') = map rq_peer (bm_queue m) \<and> starved c lim (m', h')"
proof (induction dts arbitrary: m h)
  case (Cons dt dts)
  let ?m1 = "m\<lparr>bm_queue := map tick (bm_queue m)\<rparr>"
  obtain h1 where h1: "update_quotas dt nobody m h = (?m1, h1, [])" "starved c lim (?m1, h1)" using starved_round [OF Cons.prems(1), of dt] Cons.prems(2) by auto
  have "map rq_peer (bm_queue ?m1) = map rq_peer (bm_queue m)" by simp
  then show ?case using Cons.IH [OF h1(2)] Cons.prems(2) h1(1) by (fastforce simp: Let_def)
qed simp

text \<open>Six peers that wait for a limit of one byte a second.\<close>

definition slow_channels :: channels where
  "slow_channels c = (if c = 0 then throttle 1 new_channel else new_channel)"

definition slow_manager :: bandwidth_manager where
  "slow_manager = (new_manager 0)\<lparr>bm_queue := map (\<lambda>p. new_request p 100 1 [0]) [0, 1, 2, 3, 4, 5], bm_queued_bytes := 600\<rparr>"

lemma slow_starved: "starved 0 1 (slow_manager, slow_channels)"
  by (simp add: starved_def bw_inv_def slow_manager_def slow_channels_def new_manager_def new_request_def new_channel_def throttle_def
      channels_ok_def bw_request_ok_def max_bandwidth_channels_def bw_inf_def weight_def owed_def)

end
