(* ===== verification/File_Storage.thy ===== *)
theory File_Storage
  imports Prelude
begin

text \<open>
  The files of a torrent (src/file_storage.cpp, include/libtorrent/file_storage.hpp): their names and
  paths, their places in the torrent, and the translation between blocks of pieces and slices of
  files. The functions on paths are those of src/path.cpp in a build for POSIX.
\<close>

section \<open>Paths\<close>

definition is_sep :: "char \<Rightarrow> bool" where
  "is_sep c \<longleftrightarrow> c = CHR ''/''"

definition is_complete :: "string \<Rightarrow> bool" where
  "is_complete f \<longleftrightarrow> f \<noteq> [] \<and> is_sep (hd f)"

definition is_root_path :: "string \<Rightarrow> bool" where
  "is_root_path f \<longleftrightarrow> f = ''/''"

text \<open>The last element after, and the rest before, the last separator.\<close>

definition after_last_sep :: "string \<Rightarrow> string" where
  "after_last_sep p = rev (takeWhile (\<lambda>c. \<not> is_sep c) (rev p))"

definition before_last_sep :: "string \<Rightarrow> string" where
  "before_last_sep p = rev (drop 1 (dropWhile (\<lambda>c. \<not> is_sep c) (rev p)))"

definition rsplit_path :: "string \<Rightarrow> string \<times> string" where
  "rsplit_path p =
     (if p = [] then ([], [])
      else let q = (if is_sep (last p) then butlast p else p)
           in if list_ex is_sep q then (before_last_sep q, after_last_sep q) else ([], q))"

definition lsplit_path :: "string \<Rightarrow> string \<times> string" where
  "lsplit_path p =
     (if p = [] then ([], [])
      else let q = (if is_sep (hd p) then tl p else p)
           in (takeWhile (\<lambda>c. \<not> is_sep c) q, drop 1 (dropWhile (\<lambda>c. \<not> is_sep c) q)))"

definition has_parent_path :: "string \<Rightarrow> bool" where
  "has_parent_path f =
     (if f = [] then False
      else if is_root_path f then False
      else let sep = (\<lambda>c. is_sep c \<or> c = CHR 0x5C)
           in list_ex sep (if sep (last f) then butlast f else f))"

text \<open>\<open>strrchr\<close> searches up to the first zero byte.\<close>

definition c_str :: "string \<Rightarrow> string" where
  "c_str f = takeWhile (\<lambda>c. c \<noteq> CHR 0x00) f"

definition path_filename :: "string \<Rightarrow> string" where
  "path_filename f =
     (if f = [] then []
      else if \<not> list_ex is_sep (c_str f) then f
      else if c_str f = f \<and> is_sep (last f) then after_last_sep (butlast f)
      else after_last_sep (c_str f))"

definition append_path :: "string \<Rightarrow> string \<Rightarrow> string" where
  "append_path branch leaf =
     (if branch = [] \<or> branch = ''.'' then leaf
      else if leaf = [] then branch
      else if is_sep (last branch) then branch @ leaf else branch @ ''/'' @ leaf)"

section \<open>Files\<close>

text \<open>The index of a path, or one of the two values with a meaning of their own.\<close>

datatype path_index = no_path | path_is_absolute | in_path nat

record file_entry =
  fe_offset :: int
  fe_size :: int
  fe_no_root_dir :: bool
  fe_name :: "string option"
  fe_name_len :: nat
  fe_path_index :: path_index
  fe_hidden :: bool
  fe_executable :: bool

definition name_is_owned :: nat where
  "name_is_owned = 4095"

definition new_file_entry :: file_entry where
  "new_file_entry = \<lparr>fe_offset = 0, fe_size = 0, fe_no_root_dir = False, fe_name = None, fe_name_len = name_is_owned,
     fe_path_index = no_path, fe_hidden = False, fe_executable = False\<rparr>"

text \<open>
  The name is a pointer, null or to characters: a copy the entry owns, which ends at its first zero
  byte, when the length is \<open>name_is_owned\<close>, and otherwise that many borrowed characters. A borrowed name
  whose length does not fit keeps what \<open>substr\<close> returns, the characters from a position on; the empty name leaves
  the length as it is.
\<close>

definition set_name :: "string \<Rightarrow> bool \<Rightarrow> file_entry \<Rightarrow> file_entry" where
  "set_name n borrow_string e =
     (if n = [] then e\<lparr>fe_name := None\<rparr>
      else if borrow_string then
        let n' = (if length n \<ge> name_is_owned then drop (name_is_owned - 1) n else n)
        in e\<lparr>fe_name := Some n', fe_name_len := length n'\<rparr>
      else e\<lparr>fe_name := Some n, fe_name_len := name_is_owned\<rparr>)"

text \<open>The characters of the name; None when they would be read through the null pointer.\<close>

definition entry_filename :: "file_entry \<Rightarrow> string option" where
  "entry_filename e =
     (if fe_name_len e \<noteq> name_is_owned then (if fe_name e = None \<and> fe_name_len e = 0 then Some [] else fe_name e)
      else case fe_name e of None \<Rightarrow> Some [] | Some n \<Rightarrow> Some (c_str n))"

record file_storage =
  fs_piece_length :: int
  fs_num_pieces :: int
  fs_files :: "file_entry list"
  fs_file_hashes :: "string option list"
  fs_mtime :: "int list"
  fs_paths :: "string list"
  fs_name :: string
  fs_total_size :: int

definition new_file_storage :: file_storage where
  "new_file_storage = \<lparr>fs_piece_length = 0, fs_num_pieces = 0, fs_files = [], fs_file_hashes = [], fs_mtime = [], fs_paths = [],
     fs_name = [], fs_total_size = 0\<rparr>"

definition set_piece_length :: "int \<Rightarrow> file_storage \<Rightarrow> file_storage" where
  "set_piece_length l fs = fs\<lparr>fs_piece_length := l\<rparr>"

definition set_num_pieces :: "int \<Rightarrow> file_storage \<Rightarrow> file_storage" where
  "set_num_pieces n fs = fs\<lparr>fs_num_pieces := n\<rparr>"

definition fs_set_name :: "string \<Rightarrow> file_storage \<Rightarrow> file_storage" where
  "fs_set_name n fs = fs\<lparr>fs_name := n\<rparr>"

definition fs_block_size :: int where
  "fs_block_size = 16384"

definition max_file_size :: int where
  "max_file_size = min (2 ^ 48 - 1) ((2147483647 div 2) * fs_block_size)"

definition max_file_offset :: int where
  "max_file_offset = 2 ^ 48 - 1"

definition get_or_add_path :: "string \<Rightarrow> file_storage \<Rightarrow> path_index \<times> file_storage" where
  "get_or_add_path path fs =
     (let k = length (takeWhile (\<lambda>p. p \<noteq> path) (rev (fs_paths fs)))
      in if k = length (fs_paths fs) then (in_path (length (fs_paths fs)), fs\<lparr>fs_paths := fs_paths fs @ [path]\<rparr>)
         else (in_path (length (fs_paths fs) - k - 1), fs))"

definition update_path_index :: "string \<Rightarrow> bool \<Rightarrow> file_entry \<Rightarrow> file_storage \<Rightarrow> file_entry \<times> file_storage" where
  "update_path_index path set_it e fs =
     (if is_complete path then ((set_name path False e)\<lparr>fe_path_index := path_is_absolute\<rparr>, fs)
      else
        let (branch, leaf) = rsplit_path path
        in if branch = [] then ((if set_it then set_name leaf False e else e)\<lparr>fe_path_index := no_path\<rparr>, fs)
           else
             let inside = (fst (lsplit_path branch) = fs_name fs);
                 branch' = (if inside then dropWhile is_sep (snd (lsplit_path branch)) else branch);
                 (ix, fs') = get_or_add_path branch' fs;
                 e' = e\<lparr>fe_no_root_dir := \<not> inside, fe_path_index := ix\<rparr>
             in (if set_it then set_name leaf False e' else e', fs'))"

datatype fs_error = file_too_large | torrent_invalid_length | filename_too_long

definition add_file_borrow ::
  "string \<Rightarrow> string \<Rightarrow> int \<Rightarrow> bool \<Rightarrow> bool \<Rightarrow> string option \<Rightarrow> int \<Rightarrow> file_storage \<Rightarrow> fs_error + file_storage" where
  "add_file_borrow filename path file_size hidden executable filehash mtime fs =
     (if file_size > max_file_size then Inl file_too_large
      else if max_file_offset - fs_total_size fs < file_size then Inl torrent_invalid_length
      else if length (if filename \<noteq> [] then filename else path_filename path) \<ge> 2 ^ 12 then Inl filename_too_long
      else
        let fs1 = (if \<not> has_parent_path path then fs\<lparr>fs_name := path\<rparr>
                   else if fs_files fs = [] then fs\<lparr>fs_name := fst (lsplit_path path)\<rparr> else fs);
            (e1, fs2) = update_path_index path (filename = []) new_file_entry fs1;
            e2 = (if filename \<noteq> [] then set_name filename True e1 else e1);
            e3 = e2\<lparr>fe_size := file_size mod 2 ^ 48, fe_offset := fs_total_size fs mod 2 ^ 48, fe_hidden := hidden, fe_executable := executable\<rparr>;
            n = length (fs_files fs) + 1
        in Inr (fs2\<lparr>fs_files := fs_files fs @ [e3],
             fs_file_hashes := (if filehash \<noteq> None then (if length (fs_file_hashes fs) < n then vec_resize n None (fs_file_hashes fs) else fs_file_hashes fs)[n - 1 := filehash] else fs_file_hashes fs),
             fs_mtime := (if mtime \<noteq> 0 then (if length (fs_mtime fs) < n then vec_resize n 0 (fs_mtime fs) else fs_mtime fs)[n - 1 := mtime] else fs_mtime fs),
             fs_total_size := fs_total_size fs + fe_size e3\<rparr>))"

definition add_file :: "string \<Rightarrow> int \<Rightarrow> bool \<Rightarrow> bool \<Rightarrow> int \<Rightarrow> file_storage \<Rightarrow> fs_error + file_storage" where
  "add_file path file_size hidden executable mtime fs = add_file_borrow [] path file_size hidden executable None mtime fs"

definition rename_file :: "nat \<Rightarrow> string \<Rightarrow> file_storage \<Rightarrow> file_storage" where
  "rename_file index new_filename fs =
     (let (e, fs') = update_path_index new_filename True (fs_files fs ! index) fs in fs'\<lparr>fs_files := (fs_files fs)[index := e]\<rparr>)"

definition file_path :: "nat \<Rightarrow> string \<Rightarrow> file_storage \<Rightarrow> string option" where
  "file_path index save_path fs =
     (let fe = fs_files fs ! index
      in map_option (\<lambda>filename.
           case fe_path_index fe of
             path_is_absolute \<Rightarrow> filename
           | no_path \<Rightarrow> append_path save_path filename
           | in_path k \<Rightarrow>
               (if fe_no_root_dir fe then append_path (append_path save_path (fs_paths fs ! k)) filename
                else append_path (append_path (append_path save_path (fs_name fs)) (fs_paths fs ! k)) filename))
         (entry_filename fe))"

definition internal_file_path :: "nat \<Rightarrow> file_storage \<Rightarrow> string option" where
  "internal_file_path index fs =
     (let fe = fs_files fs ! index
      in map_option (\<lambda>filename. case fe_path_index fe of in_path k \<Rightarrow> append_path (append_path [] (fs_paths fs ! k)) filename | _ \<Rightarrow> filename)
         (entry_filename fe))"

text \<open>The optional hashes and times of files; the zero hash stands for none.\<close>

definition file_hash_at :: "nat \<Rightarrow> file_storage \<Rightarrow> string option" where
  "file_hash_at index fs = (if index \<ge> length (fs_file_hashes fs) then None else fs_file_hashes fs ! index)"

definition file_mtime_at :: "nat \<Rightarrow> file_storage \<Rightarrow> int" where
  "file_mtime_at index fs = (if index \<ge> length (fs_mtime fs) then 0 else fs_mtime fs ! index)"

section \<open>Pieces and files\<close>

text \<open>Positions in the torrent are 64 bit integers; indices of pieces and sizes are converted to \<open>int\<close>.\<close>

definition fs_piece_size :: "file_storage \<Rightarrow> int \<Rightarrow> int" where
  "fs_piece_size fs index =
     (if index = fs_num_pieces fs - 1 then int32 (fs_total_size fs - (fs_num_pieces fs - 1) * fs_piece_length fs) else fs_piece_length fs)"

definition fs_blocks_per_piece :: "file_storage \<Rightarrow> int" where
  "fs_blocks_per_piece fs = int32 (fs_piece_length fs + fs_block_size - 1) sdiv fs_block_size"

definition calc_num_pieces :: "file_storage \<Rightarrow> int" where
  "calc_num_pieces fs = int32 ((fs_total_size fs + fs_piece_length fs - 1) sdiv fs_piece_length fs)"

definition size_on_disk :: "file_storage \<Rightarrow> int" where
  "size_on_disk fs = foldl (\<lambda>ret e. ret + fe_size e) 0 (fs_files fs)"

text \<open>\<open>std::upper_bound\<close> over the offsets, which are in order.\<close>

definition fs_upper_bound :: "file_storage \<Rightarrow> int \<Rightarrow> nat" where
  "fs_upper_bound fs target = length (takeWhile (\<lambda>e. \<not> target < fe_offset e) (fs_files fs))"

definition file_index_at_offset :: "file_storage \<Rightarrow> int \<Rightarrow> nat" where
  "file_index_at_offset fs offset = fs_upper_bound fs offset - 1"

definition file_index_at_piece :: "file_storage \<Rightarrow> int \<Rightarrow> nat" where
  "file_index_at_piece fs piece = file_index_at_offset fs (piece * fs_piece_length fs)"

definition piece_index_at_file :: "file_storage \<Rightarrow> nat \<Rightarrow> int" where
  "piece_index_at_file fs f = int32 (fe_offset (fs_files fs ! f) sdiv fs_piece_length fs)"

record file_slice =
  sl_file :: nat
  sl_offset :: int
  sl_size :: int

text \<open>The loop of \<open>map_block\<close>; going past the last file with bytes left is undefined.\<close>

fun map_slices :: "nat \<Rightarrow> file_entry list \<Rightarrow> int \<Rightarrow> int \<Rightarrow> file_slice list option" where
  "map_slices i [] file_offset sz = (if sz > 0 then None else Some [])"
| "map_slices i (e # es) file_offset sz =
     (if sz > 0 then
        if file_offset < fe_size e then
          let s = min (fe_size e - file_offset) sz
          in map_option (\<lambda>rest. \<lparr>sl_file = i, sl_offset = file_offset, sl_size = s\<rparr> # rest) (map_slices (i + 1) es (file_offset + s - fe_size e) (sz - s))
        else map_slices (i + 1) es (file_offset - fe_size e) sz
      else Some [])"

definition map_block :: "int \<Rightarrow> int \<Rightarrow> int \<Rightarrow> file_storage \<Rightarrow> file_slice list option" where
  "map_block piece offset sz fs =
     (if fs_files fs = [] then Some []
      else
        let target = piece * fs_piece_length fs + offset;
            sz' = (if target > fs_total_size fs - sz then fs_total_size fs - target else sz);
            i = fs_upper_bound fs target - 1
        in map_slices i (drop i (fs_files fs)) (target - fe_offset (fs_files fs ! i)) sz')"

record peer_request =
  pr_piece :: int
  pr_start :: int
  pr_length :: int

definition map_file :: "nat \<Rightarrow> int \<Rightarrow> int \<Rightarrow> file_storage \<Rightarrow> peer_request" where
  "map_file file_index file_offset sz fs =
     (let none = \<lparr>pr_piece = fs_num_pieces fs, pr_start = 0, pr_length = 0\<rparr>
      in if file_index \<ge> length (fs_files fs) then none
         else
           let offset = file_offset + fe_offset (fs_files fs ! file_index)
           in if offset \<ge> fs_total_size fs then none
              else \<lparr>pr_piece = int32 (offset sdiv fs_piece_length fs), pr_start = int32 (offset smod fs_piece_length fs),
                     pr_length = (if offset + sz > fs_total_size fs then int32 (fs_total_size fs - offset) else sz)\<rparr>)"

definition file_piece_range_exclusive :: "file_storage \<Rightarrow> nat \<Rightarrow> int \<times> int" where
  "file_piece_range_exclusive fs file =
     (let range = map_file file 0 1 fs; file_size = fe_size (fs_files fs ! file); piece_size = fs_piece_length fs;
          begin_piece = (if pr_start range = 0 then pr_piece range else int32 (pr_piece range + 1));
          end_piece = (if file = length (fs_files fs) - 1 then fs_num_pieces fs
                       else int32 ((pr_piece range * piece_size + pr_start range + file_size + 1) sdiv piece_size))
      in (begin_piece, end_piece))"

definition file_piece_range_inclusive :: "file_storage \<Rightarrow> nat \<Rightarrow> int \<times> int" where
  "file_piece_range_inclusive fs file =
     (let range = map_file file 0 1 fs; file_size = fe_size (fs_files fs ! file); piece_size = fs_piece_length fs
      in (pr_piece range, int32 ((pr_piece range * piece_size + pr_start range + file_size - 1) sdiv piece_size + 1)))"

definition files_compatible :: "file_storage \<Rightarrow> file_storage \<Rightarrow> bool" where
  "files_compatible lhs rhs \<longleftrightarrow>
     length (fs_files lhs) = length (fs_files rhs) \<and> fs_total_size lhs = fs_total_size rhs \<and> fs_piece_length lhs = fs_piece_length rhs
     \<and> list_all (\<lambda>i. fe_size (fs_files lhs ! i) = fe_size (fs_files rhs ! i) \<and> file_path i [] lhs = file_path i [] rhs
          \<and> fe_offset (fs_files lhs ! i) = fe_offset (fs_files rhs ! i)) [0..<length (fs_files lhs)]"

section \<open>Where the files are\<close>

definition sizes_sum :: "file_entry list \<Rightarrow> int" where
  "sizes_sum es = (\<Sum>e\<leftarrow>es. fe_size e)"

lemma sizes_sum_simps [simp]: "sizes_sum [] = 0" "sizes_sum (e # es) = fe_size e + sizes_sum es" "sizes_sum (es @ es') = sizes_sum es + sizes_sum es'"
  by (simp_all add: sizes_sum_def)

text \<open>Each file starts where the files before it end, the sizes and the total fit in 48 bits, and the paths are there.\<close>

definition fs_ok :: "file_storage \<Rightarrow> bool" where
  "fs_ok fs \<longleftrightarrow> (\<forall>i < length (fs_files fs). fe_offset (fs_files fs ! i) = sizes_sum (take i (fs_files fs)) \<and> 0 \<le> fe_size (fs_files fs ! i))
     \<and> fs_total_size fs = sizes_sum (fs_files fs) \<and> fs_total_size fs \<le> max_file_offset
     \<and> (\<forall>e \<in> set (fs_files fs). \<forall>k. fe_path_index e = in_path k \<longrightarrow> k < length (fs_paths fs))"

lemma sizes_sum_nonneg: "\<forall>e \<in> set es. 0 \<le> fe_size e \<Longrightarrow> 0 \<le> sizes_sum es"
  unfolding sizes_sum_def by (intro sum_list_nonneg) auto

lemma fs_okD:
  assumes "fs_ok fs"
  shows "i < length (fs_files fs) \<Longrightarrow> fe_offset (fs_files fs ! i) = sizes_sum (take i (fs_files fs))"
    "\<forall>e \<in> set (fs_files fs). 0 \<le> fe_size e" "fs_total_size fs = sizes_sum (fs_files fs)" "0 \<le> fs_total_size fs" "fs_total_size fs \<le> max_file_offset"
    "i < length (fs_files fs) \<Longrightarrow> fe_path_index (fs_files fs ! i) = in_path k \<Longrightarrow> k < length (fs_paths fs)"
proof -
  show nn: "\<forall>e \<in> set (fs_files fs). 0 \<le> fe_size e" using assms by (auto simp: fs_ok_def in_set_conv_nth)
  show "0 \<le> fs_total_size fs" using assms sizes_sum_nonneg [OF nn] by (simp add: fs_ok_def)
qed (use assms in \<open>auto simp: fs_ok_def\<close>)

lemma new_file_storage_ok: "fs_ok new_file_storage"
  by (simp add: fs_ok_def new_file_storage_def max_file_offset_def)

lemma update_path_index_frame:
  assumes "update_path_index path b e fs = (e', fs')"
  shows "fs_files fs' = fs_files fs" "fs_total_size fs' = fs_total_size fs" "fs_name fs' = fs_name fs"
    "fs_piece_length fs' = fs_piece_length fs" "fs_num_pieces fs' = fs_num_pieces fs" "fe_size e' = fe_size e" "fe_offset e' = fe_offset e"
  using assms by (auto simp: update_path_index_def get_or_add_path_def set_name_def Let_def split: if_splits prod.splits)

lemma get_or_add_path_props:
  assumes "get_or_add_path path fs = (ix, fs')"
  shows "\<exists>k. ix = in_path k \<and> k < length (fs_paths fs') \<and> fs_paths fs' ! k = path" "\<exists>ps. fs_paths fs' = fs_paths fs @ ps"
    "fs_name fs' = fs_name fs" "fs_files fs' = fs_files fs"
proof -
  let ?n = "length (fs_paths fs)" and ?k = "length (takeWhile (\<lambda>p. p \<noteq> path) (rev (fs_paths fs)))"
  have le: "?k \<le> ?n" using length_takeWhile_le [of _ "rev (fs_paths fs)"] by simp
  have "fs_paths fs ! (?n - ?k - 1) = path" if "?k < ?n" using nth_length_takeWhile [of "\<lambda>p. p \<noteq> path" "rev (fs_paths fs)"] that by (simp add: rev_nth)
  then show "\<exists>k. ix = in_path k \<and> k < length (fs_paths fs') \<and> fs_paths fs' ! k = path"
    using assms le by (auto simp: get_or_add_path_def Let_def nth_append split: if_splits)
qed (use assms in \<open>auto simp: get_or_add_path_def Let_def split: if_splits\<close>)

lemma update_path_index_paths:
  assumes u: "update_path_index path b e fs = (e', fs')"
  shows "\<exists>ps. fs_paths fs' = fs_paths fs @ ps" "fe_path_index e' = in_path k \<Longrightarrow> k < length (fs_paths fs')"
  using u get_or_add_path_props(1,2) [of _ fs]
  by (fastforce simp: update_path_index_def set_name_def Let_def split: if_splits prod.splits)+

text \<open>The files after one is added.\<close>

lemma add_file_borrow_InrE:
  assumes "add_file_borrow filename path len hid ex hash mt fs = Inr fs'"
  obtains fs1 e1 fs2 e where
    "fs1 = (if \<not> has_parent_path path then fs\<lparr>fs_name := path\<rparr> else if fs_files fs = [] then fs\<lparr>fs_name := fst (lsplit_path path)\<rparr> else fs)"
    "update_path_index path (filename = []) new_file_entry fs1 = (e1, fs2)"
    "e = (if filename \<noteq> [] then set_name filename True e1 else e1)\<lparr>fe_size := len mod 2 ^ 48, fe_offset := fs_total_size fs mod 2 ^ 48, fe_hidden := hid, fe_executable := ex\<rparr>"
    "fs_files fs' = fs_files fs @ [e]" "fs_paths fs' = fs_paths fs2" "fs_name fs' = fs_name fs2" "fs_total_size fs' = fs_total_size fs + fe_size e"
    "len \<le> max_file_size" "len \<le> max_file_offset - fs_total_size fs"
proof -
  define fs1 where "fs1 = (if \<not> has_parent_path path then fs\<lparr>fs_name := path\<rparr> else if fs_files fs = [] then fs\<lparr>fs_name := fst (lsplit_path path)\<rparr> else fs)"
  obtain e1 fs2 where u: "update_path_index path (filename = []) new_file_entry fs1 = (e1, fs2)" by fastforce
  show thesis using assms u
    by (intro that [OF fs1_def u refl]) (auto simp: add_file_borrow_def Let_def fs1_def [symmetric] split: if_splits)
qed

lemma add_file_borrow_ok:
  assumes ok: "fs_ok fs" and sz: "0 \<le> len" and add: "add_file_borrow filename path len hid ex hash mt fs = Inr fs'"
  shows "fs_ok fs'" "length (fs_files fs') = length (fs_files fs) + 1" "fs_total_size fs' = fs_total_size fs + len"
    "\<And>i. i < length (fs_files fs) \<Longrightarrow> fs_files fs' ! i = fs_files fs ! i"
    "fe_offset (fs_files fs' ! length (fs_files fs)) = fs_total_size fs" "fe_size (fs_files fs' ! length (fs_files fs)) = len"
proof -
  from add obtain fs1 e1 fs2 e where
    d: "fs1 = (if \<not> has_parent_path path then fs\<lparr>fs_name := path\<rparr> else if fs_files fs = [] then fs\<lparr>fs_name := fst (lsplit_path path)\<rparr> else fs)"
      "e = (if filename \<noteq> [] then set_name filename True e1 else e1)\<lparr>fe_size := len mod 2 ^ 48, fe_offset := fs_total_size fs mod 2 ^ 48, fe_hidden := hid, fe_executable := ex\<rparr>"
    and a: "update_path_index path (filename = []) new_file_entry fs1 = (e1, fs2)" "fs_files fs' = fs_files fs @ [e]" "fs_paths fs' = fs_paths fs2"
      "fs_total_size fs' = fs_total_size fs + fe_size e"
    and g: "len \<le> max_file_offset - fs_total_size fs"
    by (rule add_file_borrow_InrE)
  have e: "fs_paths fs1 = fs_paths fs" "fe_path_index e = fe_path_index e1" "fe_size e = len mod 2 ^ 48" "fe_offset e = fs_total_size fs mod 2 ^ 48"
    by (simp_all add: d set_name_def Let_def)
  note t = fs_okD(3-5) [OF ok]
  have m: "fe_size e = len" "fe_offset e = fs_total_size fs" using g t sz e(3,4) by (simp_all add: max_file_offset_def)
  then show "length (fs_files fs') = length (fs_files fs) + 1" "fs_total_size fs' = fs_total_size fs + len"
    "\<And>i. i < length (fs_files fs) \<Longrightarrow> fs_files fs' ! i = fs_files fs ! i"
    "fe_offset (fs_files fs' ! length (fs_files fs)) = fs_total_size fs" "fe_size (fs_files fs' ! length (fs_files fs)) = len"
    using a by (simp_all add: nth_append)
  have "length (fs_paths fs) \<le> length (fs_paths fs')" "\<And>k. fe_path_index e = in_path k \<Longrightarrow> k < length (fs_paths fs')"
    using update_path_index_paths [OF a(1)] a(3) e(1,2) by auto
  then have "\<forall>e \<in> set (fs_files fs'). \<forall>k. fe_path_index e = in_path k \<longrightarrow> k < length (fs_paths fs')"
    using ok a(2) by (fastforce simp: fs_ok_def)
  then show "fs_ok fs'" using ok a m g sz t unfolding fs_ok_def by (auto simp: nth_append less_Suc_eq)
qed

text \<open>When a file is refused.\<close>

lemma add_file_borrow_error:
  "add_file_borrow filename path len hid ex hash mt fs = Inl err \<longleftrightarrow>
     (if len > max_file_size then err = file_too_large
      else if len > max_file_offset - fs_total_size fs then err = torrent_invalid_length
      else length (if filename \<noteq> [] then filename else path_filename path) \<ge> 4096 \<and> err = filename_too_long)"
  by (auto simp: add_file_borrow_def Let_def split: prod.splits)

section \<open>Blocks as slices of files\<close>

text \<open>The bytes of a torrent are those of its files one after the other.\<close>

definition contents_ok :: "'a list list \<Rightarrow> file_entry list \<Rightarrow> bool" where
  "contents_ok cs es \<longleftrightarrow> list_all2 (\<lambda>c e. int (length c) = fe_size e) cs es"

definition read_slice :: "'a list list \<Rightarrow> file_slice \<Rightarrow> 'a list" where
  "read_slice cs s = take (nat (sl_size s)) (drop (nat (sl_offset s)) (cs ! sl_file s))"

definition slice_ok :: "file_entry list \<Rightarrow> file_slice \<Rightarrow> bool" where
  "slice_ok es s \<longleftrightarrow> sl_file s < length es \<and> 0 \<le> sl_offset s \<and> 0 < sl_size s \<and> sl_offset s + sl_size s \<le> fe_size (es ! sl_file s)"

lemma length_contents: "contents_ok cs es \<Longrightarrow> int (length (concat cs)) = sizes_sum es"
  unfolding contents_ok_def by (induction rule: list_all2_induct) simp_all

text \<open>A list of slices, from file \<open>i\<close> on, that reads as the given bytes.\<close>

definition slices_read :: "'a list list \<Rightarrow> file_entry list \<Rightarrow> nat \<Rightarrow> 'a list \<Rightarrow> file_slice list \<Rightarrow> bool" where
  "slices_read cs es i bytes sl \<longleftrightarrow> concat (map (read_slice cs) sl) = bytes \<and> (\<forall>s \<in> set sl. slice_ok es s \<and> i \<le> sl_file s)
     \<and> sorted_wrt (<) (map sl_file sl)"

lemma slices_read_Nil: "slices_read cs es i [] []"
  by (simp add: slices_read_def)

lemma slices_read_Suc: "slices_read cs es (Suc i) bytes sl \<Longrightarrow> slices_read cs es i bytes sl"
  by (auto simp: slices_read_def)

lemma slices_read_Cons:
  "slices_read cs es (Suc i) bytes sl \<Longrightarrow> slice_ok es s \<Longrightarrow> sl_file s = i \<Longrightarrow> slices_read cs es i (read_slice cs s @ bytes) (s # sl)"
  by (auto simp: slices_read_def)

lemma map_slices_empty: "map_slices i es off sz = Some []" if "sz \<le> 0"
  using that by (cases es) simp_all

lemma bytes_hit:
  assumes "int (length c) = n" "0 \<le> off" "off < n" "0 < sz"
  shows "take (nat sz) (drop (nat off) (c @ r)) = take (nat (min (n - off) sz)) (drop (nat off) c) @ take (nat (sz - min (n - off) sz)) r"
proof (cases "sz \<le> n - off")
  case False
  then have "nat (min (n - off) sz) = length c - nat off" "nat (sz - min (n - off) sz) = nat sz - (length c - nat off)"
    "length c - nat off \<le> nat sz" "nat off - length c = 0" using assms by auto
  then show ?thesis by (simp only: take_append drop_append length_drop take_all_iff) simp
qed (use assms in auto)

lemma bytes_skip: "int (length c) = n \<Longrightarrow> n \<le> off \<Longrightarrow> drop (nat off) (c @ r) = drop (nat (off - n)) r"
  by (auto simp: nat_diff_distrib)

lemma map_slices_ok:
  assumes "contents_ok ds es" "\<forall>e \<in> set es. 0 \<le> fe_size e" "0 \<le> off" "0 \<le> sz" "off + sz \<le> sizes_sum es"
    "drop i all = es" "drop i cs = ds" "length cs = length all"
  shows "\<exists>sl. map_slices i es off sz = Some sl \<and> slices_read cs all i (take (nat sz) (drop (nat off) (concat ds))) sl"
  using assms
proof (induction es arbitrary: i ds off sz)
  case Nil
  then show ?case by (simp add: contents_ok_def slices_read_Nil)
next
  case (Cons e es)
  obtain c ds' where ds: "ds = c # ds'" "int (length c) = fe_size e" "contents_ok ds' es"
    using Cons.prems(1) by (auto simp: contents_ok_def list_all2_Cons2)
  have i: "i < length all" using Cons.prems(6) by (metis drop_all leI list.distinct(1))
  have ci: "cs ! i = c" "all ! i = e" using Cons.prems(6,7) ds(1) by (auto simp: nth_via_drop)
  have dr: "drop (Suc i) all = es" "drop (Suc i) cs = ds'" using Cons.prems(6,7) ds(1) by (simp_all add: drop_Suc flip: tl_drop)
  have nn: "\<forall>e \<in> set es. 0 \<le> fe_size e" using Cons.prems(2) by auto
  note IH = Cons.IH [OF ds(3) nn _ _ _ dr Cons.prems(8)]
  consider "sz = 0" | "0 < sz" "off < fe_size e" | "0 < sz" "fe_size e \<le> off" using Cons.prems(4) by linarith
  then show ?case
  proof cases
    case 1
    then show ?thesis by (simp add: slices_read_Nil)
  next
    case 2
    define n where "n = min (fe_size e - off) sz"
    let ?s = "\<lparr>sl_file = i, sl_offset = off, sl_size = n\<rparr>"
    have n: "0 < n" "n \<le> sz" "off + n \<le> fe_size e" "n = sz \<or> off + n = fe_size e" using 2 by (auto simp: n_def)
    have "\<exists>sl. map_slices (Suc i) es (off + n - fe_size e) (sz - n) = Some sl \<and> slices_read cs all (Suc i) (take (nat (sz - n)) (concat ds')) sl"
      using IH [of "off + n - fe_size e" "sz - n"] n Cons.prems(5) by (auto simp: map_slices_empty intro: slices_read_Nil)
    then obtain sl where sl: "map_slices (Suc i) es (off + n - fe_size e) (sz - n) = Some sl" "slices_read cs all (Suc i) (take (nat (sz - n)) (concat ds')) sl"
      by blast
    have "slice_ok all ?s" "read_slice cs ?s = take (nat n) (drop (nat off) c)" using i ci n Cons.prems(3) by (simp_all add: slice_ok_def read_slice_def)
    then have "slices_read cs all i (take (nat sz) (drop (nat off) (concat ds))) (?s # sl)"
      using slices_read_Cons [OF sl(2), of ?s] bytes_hit [OF ds(2) Cons.prems(3) 2(2,1), of "concat ds'"] ds(1) by (simp add: n_def)
    moreover have "map_slices i (e # es) off sz = Some (?s # sl)" using 2 sl(1) by (simp add: n_def Let_def)
    ultimately show ?thesis by blast
  next
    case 3
    then obtain sl where "map_slices (Suc i) es (off - fe_size e) sz = Some sl" "slices_read cs all (Suc i) (take (nat sz) (drop (nat (off - fe_size e)) (concat ds'))) sl"
      using IH [of "off - fe_size e" sz] Cons.prems(5) by auto
    then show ?thesis using 3 bytes_skip [OF ds(2) 3(2), of "concat ds'"] ds(1) by (intro exI [of _ sl]) (simp add: slices_read_Suc)
  qed
qed

section \<open>The file at a position of the torrent\<close>

lemma sizes_sum_take_mono: "\<forall>e \<in> set es. 0 \<le> fe_size e \<Longrightarrow> i \<le> j \<Longrightarrow> sizes_sum (take i es) \<le> sizes_sum (take j es)"
proof -
  assume nn: "\<forall>e \<in> set es. 0 \<le> fe_size e" and ij: "i \<le> j"
  then have "take j es = take i es @ take (j - i) (drop i es)" by (simp flip: take_add)
  moreover have "0 \<le> sizes_sum (take (j - i) (drop i es))" using nn by (intro sizes_sum_nonneg) (meson in_set_dropD in_set_takeD)
  ultimately show ?thesis by simp
qed

lemma fs_upper_bound_props:
  assumes ok: "fs_ok fs" and ne: "fs_files fs \<noteq> []" and t: "0 \<le> t"
  shows "0 < fs_upper_bound fs t" "fs_upper_bound fs t \<le> length (fs_files fs)"
    "fe_offset (fs_files fs ! (fs_upper_bound fs t - 1)) \<le> t"
    "fs_upper_bound fs t < length (fs_files fs) \<Longrightarrow> t < fe_offset (fs_files fs ! fs_upper_bound fs t)"
proof -
  let ?P = "\<lambda>e. \<not> t < fe_offset e" let ?es = "fs_files fs"
  have "fe_offset (hd ?es) = 0" using fs_okD(1) [OF ok, of 0] ne by (simp add: hd_conv_nth)
  then have h: "?P (hd ?es)" using t by simp
  then show pos: "0 < fs_upper_bound fs t" using ne by (cases ?es) (simp_all add: fs_upper_bound_def)
  show le: "fs_upper_bound fs t \<le> length ?es" by (simp add: fs_upper_bound_def length_takeWhile_le)
  have "?P (takeWhile ?P ?es ! (fs_upper_bound fs t - 1))" using pos nth_mem [of "fs_upper_bound fs t - 1" "takeWhile ?P ?es"]
    using set_takeWhileD [of _ ?P ?es] by (simp add: fs_upper_bound_def)
  then show "fe_offset (?es ! (fs_upper_bound fs t - 1)) \<le> t" using pos by (simp add: fs_upper_bound_def takeWhile_nth)
  show "t < fe_offset (?es ! fs_upper_bound fs t)" if "fs_upper_bound fs t < length ?es"
    using nth_length_takeWhile [of ?P ?es] that by (simp add: fs_upper_bound_def)
qed

text \<open>The search finds the file the byte is in: the last one that starts at or before it.\<close>

lemma file_index_at_offset_ok:
  assumes ok: "fs_ok fs" and t: "0 \<le> t" "t < fs_total_size fs"
  shows "file_index_at_offset fs t < length (fs_files fs)"
    "fe_offset (fs_files fs ! file_index_at_offset fs t) \<le> t"
    "t < fe_offset (fs_files fs ! file_index_at_offset fs t) + fe_size (fs_files fs ! file_index_at_offset fs t)"
proof -
  have ne: "fs_files fs \<noteq> []" using t fs_okD(3) [OF ok] by auto
  note u = fs_upper_bound_props [OF ok ne t(1)]
  let ?i = "file_index_at_offset fs t"
  have i: "fs_upper_bound fs t = Suc ?i" using u(1) by (simp add: file_index_at_offset_def)
  show lt: "?i < length (fs_files fs)" using u(2) i by simp
  show "fe_offset (fs_files fs ! ?i) \<le> t" using u(3) i by simp
  have "sizes_sum (take (Suc ?i) (fs_files fs)) = fe_offset (fs_files fs ! ?i) + fe_size (fs_files fs ! ?i)"
    using lt fs_okD(1) [OF ok lt] by (simp add: take_Suc_conv_app_nth)
  moreover have "t < sizes_sum (take (Suc ?i) (fs_files fs))"
  proof (cases "Suc ?i < length (fs_files fs)")
    case True
    then show ?thesis using u(4) fs_okD(1) [OF ok True] i by simp
  next
    case False
    then show ?thesis using t(2) fs_okD(3) [OF ok] by simp
  qed
  ultimately show "t < fe_offset (fs_files fs ! ?i) + fe_size (fs_files fs ! ?i)" by simp
qed

text \<open>A position belongs to one file only.\<close>

lemma file_at_unique:
  assumes ok: "fs_ok fs" and "i < length (fs_files fs)" "fe_offset (fs_files fs ! i) \<le> t" "t < fe_offset (fs_files fs ! i) + fe_size (fs_files fs ! i)"
    and "j < length (fs_files fs)" "fe_offset (fs_files fs ! j) \<le> t" "t < fe_offset (fs_files fs ! j) + fe_size (fs_files fs ! j)"
  shows "i = j"
proof -
  have "\<not> a < b" if ab: "a < length (fs_files fs)" "b < length (fs_files fs)" "t < fe_offset (fs_files fs ! a) + fe_size (fs_files fs ! a)"
    "fe_offset (fs_files fs ! b) \<le> t" for a b
  proof
    assume "a < b"
    then have "sizes_sum (take (Suc a) (fs_files fs)) \<le> sizes_sum (take b (fs_files fs))" using sizes_sum_take_mono [OF fs_okD(2) [OF ok]] by simp
    then show False using ab fs_okD(1) [OF ok ab(1)] fs_okD(1) [OF ok ab(2)] by (simp add: take_Suc_conv_app_nth)
  qed
  then show ?thesis using assms by (meson linorder_neqE_nat)
qed

section \<open>Requests of blocks\<close>

text \<open>A block within the torrent reads as its range of the files' bytes.\<close>

lemma contents_ok_drop: "contents_ok cs es \<Longrightarrow> contents_ok (drop i cs) (drop i es)"
  by (simp add: contents_ok_def)

lemma concat_drop_contents:
  assumes "contents_ok cs es" "i \<le> length es"
  shows "concat (drop i cs) = drop (nat (sizes_sum (take i es))) (concat cs)"
proof -
  have "contents_ok (take i cs) (take i es)" using assms(1) by (simp add: contents_ok_def)
  then have "nat (sizes_sum (take i es)) = length (concat (take i cs))" using length_contents by (metis nat_int)
  then show ?thesis by (metis append_eq_conv_conj append_take_drop_id concat_append)
qed

lemma map_block_reads:
  assumes ok: "fs_ok fs" and cs: "contents_ok cs (fs_files fs)" and ne: "fs_files fs \<noteq> []"
    and t: "t = piece * fs_piece_length fs + offset" "0 \<le> t" and sz: "0 \<le> sz" "t + sz \<le> fs_total_size fs"
  shows "\<exists>sl. map_block piece offset sz fs = Some sl \<and> slices_read cs (fs_files fs) 0 (take (nat sz) (drop (nat t) (concat cs))) sl"
proof -
  let ?es = "fs_files fs" and ?i = "fs_upper_bound fs t - 1"
  note u = fs_upper_bound_props [OF ok ne t(2)]
  have i: "?i < length ?es" using u(1,2) by simp
  have off: "fe_offset (?es ! ?i) = sizes_sum (take ?i ?es)" by (rule fs_okD(1) [OF ok i])
  have "sizes_sum (take ?i ?es) + sizes_sum (drop ?i ?es) = fs_total_size fs" using fs_okD(3) [OF ok] by (simp flip: sizes_sum_simps(3))
  then obtain sl where sl: "map_slices ?i (drop ?i ?es) (t - fe_offset (?es ! ?i)) sz = Some sl"
      "slices_read cs ?es ?i (take (nat sz) (drop (nat (t - fe_offset (?es ! ?i))) (concat (drop ?i cs)))) sl"
    using map_slices_ok [OF contents_ok_drop [OF cs, of ?i], of "t - fe_offset (?es ! ?i)" sz ?i ?es cs] fs_okD(2) [OF ok] u(3) sz off
      list_all2_lengthD [OF cs [unfolded contents_ok_def]] by (auto dest: in_set_dropD)
  have "0 \<le> fe_offset (?es ! ?i)" using fs_okD(2) [OF ok] unfolding off by (intro sizes_sum_nonneg) (auto dest: in_set_takeD)
  then have "drop (nat (t - fe_offset (?es ! ?i))) (concat (drop ?i cs)) = drop (nat t) (concat cs)"
    using concat_drop_contents [OF cs, of ?i] i u(3) off by (simp flip: nat_add_distrib)
  then have "slices_read cs ?es 0 (take (nat sz) (drop (nat t) (concat cs))) sl" using sl(2) by (auto simp: slices_read_def)
  moreover have "map_block piece offset sz fs = Some sl" using ne sz sl(1) unfolding map_block_def t(1) [symmetric] by (simp add: Let_def)
  ultimately show ?thesis by blast
qed

text \<open>The range of a file as a request, and back.\<close>

text \<open>The piece length and all indices of pieces, one past the last included, are values of \<open>int\<close>.\<close>

definition pieces_fit :: "file_storage \<Rightarrow> bool" where
  "pieces_fit fs \<longleftrightarrow> 0 < fs_piece_length fs \<and> fs_piece_length fs < 2 ^ 31 \<and> fs_total_size fs < (2 ^ 31 - 1) * fs_piece_length fs"

lemma div_less_bound:
  assumes "0 < l" "t < q * (l :: int)"
  shows "t div l < q"
proof (rule ccontr)
  assume "\<not> t div l < q"
  then have "q * l \<le> t div l * l" using assms(1) by simp
  then show False using assms div_mult_mod_eq [of t l] pos_mod_sign [of l t] by linarith
qed

lemma piece_int32:
  assumes "pieces_fit fs" "0 \<le> t" "t \<le> fs_total_size fs + 1"
  shows "int32 (t div fs_piece_length fs) = t div fs_piece_length fs" "int32 (t mod fs_piece_length fs) = t mod fs_piece_length fs"
    "t \<le> fs_total_size fs \<Longrightarrow> int32 (t div fs_piece_length fs + 1) = t div fs_piece_length fs + 1"
proof -
  let ?l = "fs_piece_length fs"
  have l: "0 < ?l" "?l < 2 ^ 31" "t < 2 ^ 31 * ?l" using assms by (auto simp: pieces_fit_def algebra_simps)
  then have "t div ?l < 2 ^ 31" by (intro div_less_bound)
  moreover have "t div ?l < 2 ^ 31 - 1" if "t \<le> fs_total_size fs"
    using that assms(1) l(1) by (intro div_less_bound) (simp_all add: pieces_fit_def)
  moreover have "0 \<le> t div ?l" "0 \<le> t mod ?l" "t mod ?l < ?l" using assms(2) l(1) by (simp_all add: pos_imp_zdiv_nonneg_iff)
  ultimately show "int32 (t div ?l) = t div ?l" "int32 (t mod ?l) = t mod ?l"
    "t \<le> fs_total_size fs \<Longrightarrow> int32 (t div ?l + 1) = t div ?l + 1" using l(2) by (auto intro!: int32_id)
qed

lemma map_file_position:
  assumes "i < length (fs_files fs)" "0 \<le> off + fe_offset (fs_files fs ! i)" "off + fe_offset (fs_files fs ! i) + sz \<le> fs_total_size fs" "0 < sz"
    and fit: "pieces_fit fs"
  shows "pr_piece (map_file i off sz fs) * fs_piece_length fs + pr_start (map_file i off sz fs) = off + fe_offset (fs_files fs ! i)"
    "0 \<le> pr_start (map_file i off sz fs)" "pr_start (map_file i off sz fs) < fs_piece_length fs" "pr_length (map_file i off sz fs) = sz"
  using assms piece_int32 [OF fit, of "off + fe_offset (fs_files fs ! i)"]
  by (simp_all add: map_file_def Let_def nonneg_sdiv nonneg_smod pieces_fit_def)

lemma map_slices_single: "0 \<le> off \<Longrightarrow> 0 < sz \<Longrightarrow> off + sz \<le> fe_size e \<Longrightarrow> map_slices i (e # es) off sz = Some [\<lparr>sl_file = i, sl_offset = off, sl_size = sz\<rparr>]"
  by (simp add: Let_def min_def map_slices_empty)

lemma map_block_map_file:
  assumes ok: "fs_ok fs" and pl: "pieces_fit fs" and i: "i < length (fs_files fs)"
    and r: "0 \<le> off" "0 < sz" "off + sz \<le> fe_size (fs_files fs ! i)"
  shows "map_block (pr_piece (map_file i off sz fs)) (pr_start (map_file i off sz fs)) (pr_length (map_file i off sz fs)) fs
    = Some [\<lparr>sl_file = i, sl_offset = off, sl_size = sz\<rparr>]"
proof -
  let ?es = "fs_files fs" let ?t = "off + fe_offset (?es ! i)"
  have "sizes_sum (take (Suc i) ?es) \<le> sizes_sum (take (length ?es) ?es)" using sizes_sum_take_mono [OF fs_okD(2) [OF ok]] i by (intro sizes_sum_take_mono) (auto simp: fs_okD(2) [OF ok])
  then have le: "?t + sz \<le> fs_total_size fs" using r i fs_okD(1) [OF ok i] fs_okD(3) [OF ok] by (simp add: take_Suc_conv_app_nth)
  have o0: "0 \<le> fe_offset (?es ! i)" using fs_okD(1) [OF ok i] fs_okD(2) [OF ok] by (auto intro!: sizes_sum_nonneg dest: in_set_takeD)
  have t: "0 \<le> ?t" "?t < fs_total_size fs" using r o0 le by auto
  note m = map_file_position [OF i t(1) le r(2) pl]
  note f = file_index_at_offset_ok [OF ok t]
  have "file_index_at_offset fs ?t = i" by (rule file_at_unique [OF ok f i]) (use r in auto)
  then have "fs_upper_bound fs ?t - 1 = i" by (simp add: file_index_at_offset_def)
  moreover have "drop i ?es = ?es ! i # drop (Suc i) ?es" using i by (simp add: Cons_nth_drop_Suc)
  ultimately show ?thesis using i le m map_slices_single [OF r, of i "drop (Suc i) ?es"] by (auto simp: map_block_def Let_def)
qed

end
