(* ===== verification/File_Paths.thy ===== *)
theory File_Paths
  imports File_Storage
begin

text \<open>
  The paths of the files of a torrent after adding and renaming them, the storages that can be built,
  with their invariant, and the ranges of pieces of a file.
\<close>

section \<open>The paths of files\<close>

text \<open>A path as its elements: not empty, with no separator and no zero byte, and the first not the current directory.\<close>

fun join_path :: "string list \<Rightarrow> string" where
  "join_path [] = []"
| "join_path [c] = c"
| "join_path (c # d # cs) = c @ ''/'' @ join_path (d # cs)"

definition elem_ok :: "string \<Rightarrow> bool" where
  "elem_ok c \<longleftrightarrow> c \<noteq> [] \<and> CHR ''/'' \<notin> set c \<and> CHR 0x00 \<notin> set c"

definition path_ok :: "string list \<Rightarrow> bool" where
  "path_ok cs \<longleftrightarrow> cs \<noteq> [] \<and> list_all elem_ok cs \<and> hd cs \<noteq> ''.''"

lemma join_path_Cons: "join_path (c # cs) = (if cs = [] then c else c @ ''/'' @ join_path cs)"
  by (cases cs) simp_all

lemma join_path_snoc: "join_path (cs @ [c]) = (if cs = [] then c else join_path cs @ ''/'' @ c)"
  by (induction cs) (simp_all add: join_path_Cons)

lemma elem_okD: "elem_ok c \<Longrightarrow> c \<noteq> []" "elem_ok c \<Longrightarrow> x \<in> set c \<Longrightarrow> \<not> is_sep x" "elem_ok c \<Longrightarrow> x \<in> set c \<Longrightarrow> x \<noteq> CHR 0x00"
  by (auto simp: elem_ok_def is_sep_def)

lemma elem_ends: "elem_ok c \<Longrightarrow> \<not> is_sep (hd c)" "elem_ok c \<Longrightarrow> \<not> is_sep (last c)"
  using elem_okD(2) [OF _ hd_in_set] elem_okD(2) [OF _ last_in_set] elem_okD(1) by blast+

lemma join_path_nonempty: "list_all elem_ok cs \<Longrightarrow> join_path cs = [] \<longleftrightarrow> cs = []"
  by (cases cs) (simp_all add: join_path_Cons elem_okD(1))

lemma hd_join_path: "cs \<noteq> [] \<Longrightarrow> list_all elem_ok cs \<Longrightarrow> \<not> is_sep (hd (join_path cs))"
  by (cases cs) (auto simp: join_path_Cons elem_okD(1) elem_ends)

lemma last_join_path: "cs \<noteq> [] \<Longrightarrow> list_all elem_ok cs \<Longrightarrow> \<not> is_sep (last (join_path cs))"
  by (cases cs rule: rev_cases) (auto simp: join_path_snoc elem_okD(1) elem_ends)

lemma join_path_no_nul: "list_all elem_ok cs \<Longrightarrow> x \<in> set (join_path cs) \<Longrightarrow> x \<noteq> CHR 0x00"
  by (induction cs) (auto simp: join_path_Cons elem_ok_def split: if_splits)

text \<open>Taking a path apart at its last and at its first separator.\<close>

lemma sep_slash [simp]: "is_sep CHR ''/''"
  by (simp add: is_sep_def)

lemma takeWhile_elem: "elem_ok c \<Longrightarrow> takeWhile (\<lambda>x. \<not> is_sep x) (c @ CHR ''/'' # r) = c" "elem_ok c \<Longrightarrow> takeWhile (\<lambda>x. \<not> is_sep x) c = c"
  by (simp_all add: takeWhile_append elem_okD(2) takeWhile_eq_all_conv)

lemma dropWhile_elem: "elem_ok c \<Longrightarrow> dropWhile (\<lambda>x. \<not> is_sep x) (c @ CHR ''/'' # r) = CHR ''/'' # r" "elem_ok c \<Longrightarrow> dropWhile (\<lambda>x. \<not> is_sep x) c = []"
  by (simp_all add: dropWhile_append elem_okD(2) dropWhile_eq_Nil_conv)

lemma elem_ok_rev: "elem_ok c \<Longrightarrow> elem_ok (rev c)"
  by (simp add: elem_ok_def)

lemma rsplit_join_path:
  assumes "list_all elem_ok (cs @ [c])"
  shows "rsplit_path (join_path (cs @ [c])) = (join_path cs, c)"
proof (cases "cs = []")
  case True
  then show ?thesis using assms by (auto simp: rsplit_path_def Let_def list_ex_iff elem_okD(2) intro: elem_okD(1))
next
  case False
  let ?p = "join_path cs @ ''/'' @ c"
  have c: "elem_ok c" using assms by simp
  have "\<not> is_sep (last ?p)" using last_join_path [OF _ assms] False by (simp add: join_path_snoc)
  moreover have "after_last_sep ?p = c" "before_last_sep ?p = join_path cs"
    using takeWhile_elem(1) [OF elem_ok_rev [OF c]] dropWhile_elem(1) [OF elem_ok_rev [OF c]] by (simp_all add: after_last_sep_def before_last_sep_def)
  ultimately show ?thesis using False by (simp add: rsplit_path_def join_path_snoc Let_def)
qed

lemma lsplit_join_path: "list_all elem_ok (c # cs) \<Longrightarrow> lsplit_path (join_path (c # cs)) = (c, join_path cs)"
  using hd_join_path [of "c # cs"] join_path_nonempty [of "c # cs"] by (simp add: lsplit_path_def Let_def) (simp add: join_path_Cons takeWhile_elem dropWhile_elem)

lemma dropWhile_join_path: "list_all elem_ok cs \<Longrightarrow> dropWhile is_sep (join_path cs) = join_path cs"
  using hd_join_path [of cs] by (cases "join_path cs"; cases "cs = []") auto

text \<open>Putting a path together from a directory and its elements.\<close>

lemma append_path_assoc: "a \<noteq> [] \<Longrightarrow> a \<noteq> ''.'' \<Longrightarrow> append_path (append_path s a) b = append_path s (append_path a b)"
  by (auto simp: append_path_def append_eq_Cons_conv)

lemma append_join_path:
  assumes "path_ok cs" "list_all elem_ok ds"
  shows "append_path (join_path cs) (join_path ds) = join_path (cs @ ds)" "join_path cs \<noteq> ''.''" "join_path cs \<noteq> []"
proof -
  have cs: "cs \<noteq> []" "list_all elem_ok cs" "hd cs \<noteq> ''.''" using assms(1) by (simp_all add: path_ok_def)
  show ne: "join_path cs \<noteq> []" using join_path_nonempty [OF cs(2)] cs(1) by simp
  show nd: "join_path cs \<noteq> ''.''" using cs by (cases cs) (auto simp: join_path_Cons elem_ok_def append_eq_Cons_conv)
  have "join_path (xs @ ds) = join_path xs @ ''/'' @ join_path ds" if "xs \<noteq> []" "ds \<noteq> []" for xs
    using that by (induction xs) (auto simp: join_path_Cons)
  then show "append_path (join_path cs) (join_path ds) = join_path (cs @ ds)"
    using ne nd cs last_join_path [OF cs(1,2)] join_path_nonempty [OF assms(2)] by (auto simp: append_path_def)
qed

section \<open>Adding and renaming files\<close>

text \<open>The path of one entry in a storage.\<close>

definition entry_path :: "file_entry \<Rightarrow> string \<Rightarrow> file_storage \<Rightarrow> string option" where
  "entry_path fe save_path fs =
     map_option (\<lambda>filename.
       case fe_path_index fe of
         path_is_absolute \<Rightarrow> filename
       | no_path \<Rightarrow> append_path save_path filename
       | in_path k \<Rightarrow>
           (if fe_no_root_dir fe then append_path (append_path save_path (fs_paths fs ! k)) filename
            else append_path (append_path (append_path save_path (fs_name fs)) (fs_paths fs ! k)) filename))
     (entry_filename fe)"

lemma file_path_entry: "file_path i save_path fs = entry_path (fs_files fs ! i) save_path fs"
  by (simp add: file_path_def entry_path_def Let_def)

lemma entry_path_eqI:
  assumes "entry_filename e' = entry_filename e" "fe_path_index e' = fe_path_index e" "fe_no_root_dir e' = fe_no_root_dir e" "fs_name fs' = fs_name fs"
    "\<And>k. fe_path_index e = in_path k \<Longrightarrow> fs_paths fs' ! k = fs_paths fs ! k"
  shows "entry_path e' save_path fs' = entry_path e save_path fs"
  using assms by (cases "fe_path_index e") (simp_all add: entry_path_def cong: if_cong)

lemma entry_path_cong:
  assumes "fs_name fs' = fs_name fs" "fs_paths fs' = fs_paths fs @ ps" "\<And>k. fe_path_index e = in_path k \<Longrightarrow> k < length (fs_paths fs)"
  shows "entry_path e save_path fs' = entry_path e save_path fs"
  using assms by (intro entry_path_eqI) (simp_all add: nth_append)

lemma owned_filename: "n \<noteq> [] \<Longrightarrow> \<forall>x \<in> set n. x \<noteq> CHR 0x00 \<Longrightarrow> entry_filename (set_name n False e) = Some n"
  by (simp add: entry_filename_def set_name_def c_str_def takeWhile_eq_all_conv)

lemma entry_filename_update [simp]:
  "entry_filename (e\<lparr>fe_path_index := ix\<rparr>) = entry_filename e"
  "entry_filename (e\<lparr>fe_size := n, fe_offset := k, fe_hidden := h, fe_executable := x\<rparr>) = entry_filename e"
  by (simp_all add: entry_filename_def)

text \<open>An entry given a path has that path, under the directory the torrent is saved in.\<close>

lemma update_path_index_relative:
  assumes p: "path_ok cs" and u: "update_path_index (join_path cs) True e fs = (e', fs')"
  shows "entry_path e' save_path fs' = Some (append_path save_path (join_path cs))"
proof -
  have ok: "cs \<noteq> []" "list_all elem_ok cs" using p by (simp_all add: path_ok_def)
  obtain bs c where cs: "cs = bs @ [c]" using ok(1) rev_exhaust by blast
  have c: "elem_ok c" "c \<noteq> []" "\<forall>x \<in> set c. x \<noteq> CHR 0x00" and bs: "list_all elem_ok bs" using ok cs by (auto simp: elem_ok_def)
  have "\<not> is_complete (join_path cs)" using hd_join_path [OF ok] by (simp add: is_complete_def)
  note u' = u [unfolded update_path_index_def, simplified, unfolded cs rsplit_join_path [OF ok(2) [unfolded cs]], simplified]
  note fn = owned_filename [OF c(2,3)]
  show ?thesis
  proof (cases bs)
    case Nil
    then have "e' = (set_name c False e)\<lparr>fe_path_index := no_path\<rparr>" using u' \<open>\<not> is_complete (join_path cs)\<close> cs by simp
    then show ?thesis using fn [of e] cs Nil by (simp add: entry_path_def)
  next
    case (Cons b rest)
    define inside where "inside \<longleftrightarrow> b = fs_name fs"
    obtain ix fs'' where g: "get_or_add_path (if inside then join_path rest else join_path bs) fs = (ix, fs'')" by fastforce
    have "join_path bs \<noteq> []" using join_path_nonempty [OF bs] Cons by simp
    then have e': "e' = set_name c False (e\<lparr>fe_no_root_dir := \<not> inside, fe_path_index := ix\<rparr>)" "fs' = fs''"
      using u' g \<open>\<not> is_complete (join_path cs)\<close> cs lsplit_join_path [of b rest] dropWhile_join_path [of rest] bs Cons
      by (auto simp: Let_def inside_def split: prod.splits if_splits)
    obtain k where k: "ix = in_path k" "fs_paths fs'' ! k = (if inside then join_path rest else join_path bs)" "fs_name fs'' = fs_name fs"
      using get_or_add_path_props [OF g] by blast
    have pb: "path_ok bs" "path_ok [b]" "list_all elem_ok rest" using p cs Cons by (auto simp: path_ok_def)
    have "append_path (append_path save_path b) (join_path rest) = append_path save_path (join_path bs)"
      using append_path_assoc [of b save_path "join_path rest"] append_join_path [OF pb(2,3)] Cons by simp
    moreover have "append_path (append_path save_path (join_path bs)) c = append_path save_path (join_path cs)"
      using append_path_assoc [of "join_path bs" save_path c] append_join_path [OF pb(1), of "[c]"] c(1) cs by simp
    ultimately show ?thesis using fn e' k by (auto simp: entry_path_def set_name_def inside_def c(2) split: if_splits)
  qed
qed

lemma update_path_index_absolute:
  assumes "is_complete p" "\<forall>x \<in> set p. x \<noteq> CHR 0x00" "update_path_index p b e fs = (e', fs')"
  shows "entry_path e' save_path fs' = Some p"
proof -
  have "e' = (set_name p False e)\<lparr>fe_path_index := path_is_absolute\<rparr>" "p \<noteq> []" using assms(1,3) by (simp_all add: update_path_index_def is_complete_def)
  then show ?thesis using owned_filename [of p e] assms(2) by (simp add: entry_path_def)
qed

lemma has_parent_pathI:
  assumes "CHR ''/'' \<in> set (butlast p)" "\<not> is_sep (hd p)"
  shows "has_parent_path p"
proof -
  have "p \<noteq> []" "\<not> is_root_path p" "CHR ''/'' \<in> set p" using assms in_set_butlastD by (auto simp: is_root_path_def)
  moreover define sep where "sep = (\<lambda>c. is_sep c \<or> c = CHR 0x5C)"
  moreover have "list_ex sep q" if "CHR ''/'' \<in> set q" for q using that sep_slash unfolding sep_def list_ex_iff by blast
  ultimately show ?thesis using assms(1) unfolding has_parent_path_def Let_def sep_def [symmetric] by simp
qed

lemma has_parent_join_path:
  assumes "list_all elem_ok cs" "2 \<le> length cs"
  shows "has_parent_path (join_path cs)"
proof (rule has_parent_pathI)
  obtain bs c where cs: "cs = bs @ [c]" "bs \<noteq> []" using assms(2) by (cases cs rule: rev_cases) fastforce+
  then have "c \<noteq> []" using assms(1) elem_okD(1) by simp
  then show "CHR ''/'' \<in> set (butlast (join_path cs))" using cs by (simp add: join_path_snoc butlast_append)
  show "\<not> is_sep (hd (join_path cs))" using hd_join_path [OF _ assms(1)] cs(1) by blast
qed

lemma entry_path_update [simp]:
  "entry_path (e\<lparr>fe_size := n, fe_offset := k, fe_hidden := h, fe_executable := x\<rparr>) save_path fs = entry_path e save_path fs"
  by (intro entry_path_eqI) simp_all

text \<open>Leaving the name to be set afterwards, to characters that are borrowed, makes no difference to the path.\<close>

lemma borrowed_filename:
  "n \<noteq> [] \<Longrightarrow> length n < name_is_owned \<Longrightarrow> \<forall>x \<in> set n. x \<noteq> CHR 0x00 \<Longrightarrow> entry_path (set_name n True e) save_path fs = entry_path (set_name n False e) save_path fs"
  using takeWhile_eq_all_conv [of "\<lambda>c. c \<noteq> CHR 0x00" n, THEN iffD2, symmetric] by (intro entry_path_eqI) (simp_all add: entry_filename_def set_name_def c_str_def)

text \<open>Two borrowed names go wrong: the longest one that is not refused, and the empty one set over a borrowed one.\<close>

lemma borrowed_name_cut:
  assumes "length n = name_is_owned"
  shows "entry_filename (set_name n True e) = Some [last n]"
proof -
  have "n \<noteq> []" "drop (length (butlast n)) (butlast n @ [last n]) = [last n]" using assms by (auto simp: name_is_owned_def)
  then have "drop (name_is_owned - 1) n = [last n]" using assms by simp
  then show ?thesis using assms \<open>n \<noteq> []\<close> by (simp add: entry_filename_def set_name_def name_is_owned_def)
qed

lemma empty_name_null:
  "n \<noteq> [] \<Longrightarrow> length n < name_is_owned \<Longrightarrow> entry_filename (set_name [] False (set_name n True e)) = None"
  by (simp add: entry_filename_def set_name_def)

lemma add_borrowed_cut:
  assumes "add_file_borrow filename path len hid ex hash mt fs = Inr fs'" "length filename = name_is_owned"
  shows "entry_filename (fs_files fs' ! length (fs_files fs)) = Some [last filename]"
proof -
  from assms(1) obtain e1 e where "e = (if filename \<noteq> [] then set_name filename True e1 else e1)\<lparr>fe_size := len mod 2 ^ 48,
      fe_offset := fs_total_size fs mod 2 ^ 48, fe_hidden := hid, fe_executable := ex\<rparr>" and a: "fs_files fs' = fs_files fs @ [e]"
    by (rule add_file_borrow_InrE)
  moreover have "filename \<noteq> []" using assms(2) by (auto simp: name_is_owned_def)
  ultimately have "entry_filename e = entry_filename (set_name filename True e1)" by (simp add: entry_filename_def)
  then show ?thesis using borrowed_name_cut [OF assms(2)] a by simp
qed

lemma update_path_index_name:
  "\<not> is_complete p \<Longrightarrow> update_path_index p False e fs = (e', fs') \<Longrightarrow> update_path_index p True e fs = (set_name (snd (rsplit_path p)) False e', fs')"
  by (auto simp: update_path_index_def set_name_def Let_def split: prod.splits if_splits)

lemma add_file_borrow_paths:
  assumes ok: "fs_ok fs" and p: "path_ok cs" and fn: "filename = [] \<or> filename = last cs \<and> length filename < name_is_owned"
    and pre: "2 \<le> length cs \<or> fs_files fs = []" and add: "add_file_borrow filename (join_path cs) len hid ex hash mt fs = Inr fs'"
  shows "file_path (length (fs_files fs)) save_path fs' = Some (append_path save_path (join_path cs))"
    "i < length (fs_files fs) \<Longrightarrow> file_path i save_path fs' = file_path i save_path fs"
proof -
  have cs: "cs \<noteq> []" "list_all elem_ok cs" using p by (simp_all add: path_ok_def)
  from add obtain fs1 e1 fs2 e where
    fs1: "fs1 = (if \<not> has_parent_path (join_path cs) then fs\<lparr>fs_name := join_path cs\<rparr>
        else if fs_files fs = [] then fs\<lparr>fs_name := fst (lsplit_path (join_path cs))\<rparr> else fs)"
    and u: "update_path_index (join_path cs) (filename = []) new_file_entry fs1 = (e1, fs2)"
    and e: "e = (if filename \<noteq> [] then set_name filename True e1 else e1)\<lparr>fe_size := len mod 2 ^ 48, fe_offset := fs_total_size fs mod 2 ^ 48, fe_hidden := hid, fe_executable := ex\<rparr>"
    and a: "fs_files fs' = fs_files fs @ [e]" "fs_paths fs' = fs_paths fs2" "fs_name fs' = fs_name fs2"
    by (rule add_file_borrow_InrE)
  have eq: "entry_path x save_path fs' = entry_path x save_path fs2" for x using a(2,3) by (intro entry_path_eqI) simp_all
  have "entry_path e save_path fs2 = Some (append_path save_path (join_path cs))"
  proof (cases "filename = []")
    case True
    then show ?thesis using update_path_index_relative [OF p] u e by simp
  next
    case False
    have "\<not> is_complete (join_path cs)" using hd_join_path [OF cs] by (simp add: is_complete_def)
    moreover have "snd (rsplit_path (join_path cs)) = filename" using rsplit_join_path [of "butlast cs" "last cs"] cs fn False by simp
    ultimately have "update_path_index (join_path cs) True new_file_entry fs1 = (set_name filename False e1, fs2)" using update_path_index_name u False by simp
    moreover have "\<forall>x \<in> set filename. x \<noteq> CHR 0x00" using cs fn False by (auto simp: list_all_iff elem_ok_def)
    ultimately show ?thesis using update_path_index_relative [OF p, of new_file_entry fs1 _ fs2 save_path] borrowed_filename [OF False, of e1 save_path fs2] fn e False by auto
  qed
  then show "file_path (length (fs_files fs)) save_path fs' = Some (append_path save_path (join_path cs))" using a(1) eq by (simp add: file_path_entry)
  assume i: "i < length (fs_files fs)"
  then have f: "fs1 = fs" using fs1 pre has_parent_join_path [OF cs(2)] by auto
  obtain ps where ps: "fs_paths fs2 = fs_paths fs @ ps" using update_path_index_paths(1) [OF u] f by auto
  show "file_path i save_path fs' = file_path i save_path fs"
    using a(1) i eq entry_path_cong [OF _ ps, of "fs_files fs ! i" save_path] fs_okD(6) [OF ok i] update_path_index_frame(3) [OF u] f by (simp add: file_path_entry nth_append)
qed

lemma rename_file_paths:
  assumes ok: "fs_ok fs" and i: "i < length (fs_files fs)"
  shows "fs_ok (rename_file i new fs)"
    "path_ok cs \<Longrightarrow> file_path i save_path (rename_file i (join_path cs) fs) = Some (append_path save_path (join_path cs))"
    "is_complete new \<Longrightarrow> \<forall>x \<in> set new. x \<noteq> CHR 0x00 \<Longrightarrow> file_path i save_path (rename_file i new fs) = Some new"
    "j < length (fs_files fs) \<Longrightarrow> j \<noteq> i \<Longrightarrow> file_path j save_path (rename_file i new fs) = file_path j save_path fs"
proof -
  have r: "rename_file i p fs = fs'\<lparr>fs_files := (fs_files fs)[i := e]\<rparr>" if "update_path_index p True (fs_files fs ! i) fs = (e, fs')" for p e fs'
    using that by (simp add: rename_file_def)
  have eq: "entry_path x save_path (g\<lparr>fs_files := es\<rparr>) = entry_path x save_path g" for x g es by (intro entry_path_eqI) simp_all
  obtain e fs' where u: "update_path_index new True (fs_files fs ! i) fs = (e, fs')" by fastforce
  note fr = update_path_index_frame [OF u]
  obtain ps where ps: "fs_paths fs' = fs_paths fs @ ps" using update_path_index_paths(1) [OF u] by blast
  show "j < length (fs_files fs) \<Longrightarrow> j \<noteq> i \<Longrightarrow> file_path j save_path (rename_file i new fs) = file_path j save_path fs"
    using entry_path_cong [OF fr(3) ps, of "fs_files fs ! j" save_path] fs_okD(6) [OF ok, of j] by (simp add: file_path_entry r [OF u] eq)
  show "is_complete new \<Longrightarrow> \<forall>x \<in> set new. x \<noteq> CHR 0x00 \<Longrightarrow> file_path i save_path (rename_file i new fs) = Some new"
    using update_path_index_absolute [OF _ _ u] i by (simp add: file_path_entry r [OF u] eq)
  show "path_ok cs \<Longrightarrow> file_path i save_path (rename_file i (join_path cs) fs) = Some (append_path save_path (join_path cs))"
    using update_path_index_relative [of cs "fs_files fs ! i" fs] i
    by (cases "update_path_index (join_path cs) True (fs_files fs ! i) fs") (simp add: file_path_entry r eq)
  have "map fe_size ((fs_files fs)[i := e]) = map fe_size (fs_files fs)" using fr(6) by (metis list_update_id map_update)
  then have s: "sizes_sum (take n ((fs_files fs)[i := e])) = sizes_sum (take n (fs_files fs))" for n unfolding sizes_sum_def by (metis take_map)
  have "\<forall>x \<in> set ((fs_files fs)[i := e]). \<forall>k. fe_path_index x = in_path k \<longrightarrow> k < length (fs_paths fs')"
    using ok ps update_path_index_paths(2) [OF u] set_update_subset_insert [of "fs_files fs" i e] by (fastforce simp: fs_ok_def)
  then show "fs_ok (rename_file i new fs)" using ok s s [of "length (fs_files fs)"] fr i unfolding r [OF u] fs_ok_def by (auto simp: nth_list_update)
qed

text \<open>The storages that can be built.\<close>

inductive fs_step :: "file_storage \<Rightarrow> file_storage \<Rightarrow> bool" where
  step_add: "0 \<le> len \<Longrightarrow> add_file_borrow filename path len hid ex hash mt fs = Inr fs' \<Longrightarrow> fs_step fs fs'"
| step_rename: "i < length (fs_files fs) \<Longrightarrow> fs_step fs (rename_file i new fs)"
| step_piece_length: "fs_step fs (set_piece_length l fs)"
| step_num_pieces: "fs_step fs (set_num_pieces n fs)"
| step_name: "fs_step fs (fs_set_name nm fs)"

interpretation storage: guarded_steps "\<lambda>fs. fs = new_file_storage" fs_step fs_ok
proof unfold_locales
  show "fs = new_file_storage \<Longrightarrow> fs_ok fs" for fs using new_file_storage_ok by simp
  show "fs_ok fs'" if "fs_ok fs" "fs_step fs fs'" for fs fs'
    using that(2,1) by cases (auto simp: add_file_borrow_ok(1) rename_file_paths(1) set_piece_length_def set_num_pieces_def fs_set_name_def, auto simp: fs_ok_def)
qed

lemma size_on_disk_total: "fs_ok fs \<Longrightarrow> size_on_disk fs = fs_total_size fs"
proof -
  have "foldl (\<lambda>ret e. ret + fe_size e) n es = n + sizes_sum es" for n es by (induction es arbitrary: n) simp_all
  then show "fs_ok fs \<Longrightarrow> size_on_disk fs = fs_total_size fs" by (simp add: size_on_disk_def fs_okD(3))
qed

section \<open>The pieces of a file\<close>

text \<open>The pieces that hold bytes of a file, and those that hold nothing else.\<close>

definition piece_overlaps :: "file_storage \<Rightarrow> nat \<Rightarrow> int \<Rightarrow> bool" where
  "piece_overlaps fs i p \<longleftrightarrow> p * fs_piece_length fs < fe_offset (fs_files fs ! i) + fe_size (fs_files fs ! i)
     \<and> fe_offset (fs_files fs ! i) < (p + 1) * fs_piece_length fs"

definition piece_inside :: "file_storage \<Rightarrow> nat \<Rightarrow> int \<Rightarrow> bool" where
  "piece_inside fs i p \<longleftrightarrow> fe_offset (fs_files fs ! i) \<le> p * fs_piece_length fs
     \<and> (p + 1) * fs_piece_length fs \<le> fe_offset (fs_files fs ! i) + fe_size (fs_files fs ! i)"

lemma piece_of_position:
  assumes "0 < (l :: int)"
  shows "t div l \<le> p \<longleftrightarrow> t < (p + 1) * l" "p < t div l \<longleftrightarrow> (p + 1) * l \<le> t"
proof -
  have t: "t = t div l * l + t mod l" "0 \<le> t mod l" "t mod l < l" using assms by simp_all
  have "(p + 1) * l \<le> t" if "p + 1 \<le> t div l" using mult_right_mono [OF that, of l] t assms by linarith
  moreover have "t < (p + 1) * l" if "t div l + 1 \<le> p + 1" using mult_right_mono [OF that, of l] t assms unfolding distrib_right by linarith
  ultimately have "p + 1 \<le> t div l \<longleftrightarrow> (p + 1) * l \<le> t" by linarith
  then show "p < t div l \<longleftrightarrow> (p + 1) * l \<le> t" by linarith
  then show "t div l \<le> p \<longleftrightarrow> t < (p + 1) * l" by linarith
qed

lemma fs_piece_range:
  assumes ok: "fs_ok fs" and fit: "pieces_fit fs" and i: "i < length (fs_files fs)" "0 < fe_size (fs_files fs ! i)"
  shows "pr_piece (map_file i 0 1 fs) = fe_offset (fs_files fs ! i) div fs_piece_length fs" (is ?p)
    "pr_start (map_file i 0 1 fs) = fe_offset (fs_files fs ! i) mod fs_piece_length fs" (is ?s)
    "0 \<le> fe_offset (fs_files fs ! i)" "fe_offset (fs_files fs ! i) + fe_size (fs_files fs ! i) \<le> fs_total_size fs"
proof -
  have pl: "0 < fs_piece_length fs" using fit by (simp add: pieces_fit_def)
  show o0: "0 \<le> fe_offset (fs_files fs ! i)" using fs_okD(1) [OF ok i(1)] fs_okD(2) [OF ok] by (auto intro!: sizes_sum_nonneg dest: in_set_takeD)
  have "sizes_sum (take (Suc i) (fs_files fs)) \<le> fs_total_size fs"
    using sizes_sum_take_mono [OF fs_okD(2) [OF ok], of "Suc i" "length (fs_files fs)"] i fs_okD(3) [OF ok] by simp
  then show le: "fe_offset (fs_files fs ! i) + fe_size (fs_files fs ! i) \<le> fs_total_size fs"
    using i fs_okD(1) [OF ok i(1)] by (simp add: take_Suc_conv_app_nth)
  then show ?p ?s using i o0 pl piece_int32 [OF fit o0] by (simp_all add: map_file_def Let_def nonneg_sdiv nonneg_smod)
qed

lemma inclusive_range:
  assumes "fs_ok fs" "pieces_fit fs" "i < length (fs_files fs)" "0 < fe_size (fs_files fs ! i)" "file_piece_range_inclusive fs i = (a, b)"
  shows "a \<le> p \<and> p < b \<longleftrightarrow> piece_overlaps fs i p"
proof -
  let ?o = "fe_offset (fs_files fs ! i)" and ?n = "fe_size (fs_files fs ! i)" and ?l = "fs_piece_length fs"
  note r = fs_piece_range [OF assms(1-4)]
  have l: "0 < ?l" using assms(2) by (simp add: pieces_fit_def)
  have "a = ?o div ?l" "b = (?o + ?n - 1) div ?l + 1"
    using l assms(4,5) r piece_int32(3) [OF assms(2), of "?o + ?n - 1"] by (auto simp: file_piece_range_inclusive_def Let_def nonneg_sdiv)
  then have "a \<le> p \<longleftrightarrow> ?o < (p + 1) * ?l" "p < b \<longleftrightarrow> p * ?l < ?o + ?n"
    using piece_of_position [OF l, of ?o p] piece_of_position(2) [OF l, of "p - 1" "?o + ?n - 1"] by auto
  then show ?thesis by (auto simp: piece_overlaps_def)
qed

text \<open>
  For a file that is not the last one, the range of the pieces inside it also has the piece whose last
  byte is the first byte of what follows the file.
\<close>

lemma exclusive_range:
  assumes "fs_ok fs" "pieces_fit fs" "i < length (fs_files fs)" "0 < fe_size (fs_files fs ! i)" "file_piece_range_exclusive fs i = (a, b)"
  shows "i + 1 < length (fs_files fs) \<Longrightarrow> a \<le> p \<and> p < b \<longleftrightarrow>
      piece_inside fs i p \<or> fe_offset (fs_files fs ! i) \<le> p * fs_piece_length fs
        \<and> (p + 1) * fs_piece_length fs = fe_offset (fs_files fs ! i) + fe_size (fs_files fs ! i) + 1"
    "i + 1 = length (fs_files fs) \<Longrightarrow> a \<le> p \<and> p < b \<longleftrightarrow> fe_offset (fs_files fs ! i) \<le> p * fs_piece_length fs \<and> p < fs_num_pieces fs"
proof -
  let ?o = "fe_offset (fs_files fs ! i)" and ?n = "fe_size (fs_files fs ! i)" and ?l = "fs_piece_length fs"
  note r = fs_piece_range [OF assms(1-4)]
  have l: "0 < ?l" using assms(2) by (simp add: pieces_fit_def)
  have d: "?o div ?l * ?l + ?o mod ?l = ?o" by simp
  have a: "a = (if ?o mod ?l = 0 then ?o div ?l else ?o div ?l + 1)" and b: "b = (if i = length (fs_files fs) - 1 then fs_num_pieces fs else (?o + ?n + 1) div ?l)"
    using l assms(4,5) r piece_int32(1) [OF assms(2), of "?o + ?n + 1"] piece_int32(3) [OF assms(2) r(3)]
    by (auto simp: file_piece_range_exclusive_def Let_def nonneg_sdiv)
  have al: "a \<le> p \<longleftrightarrow> ?o \<le> p * ?l"
  proof (cases "?o mod ?l = 0")
    case True
    then have "?o = ?o div ?l * ?l" using d by linarith
    then have "?o \<le> p * ?l \<longleftrightarrow> ?o div ?l \<le> p" using l by (metis mult_le_cancel_right_pos)
    then show ?thesis using a True by simp
  next
    case False
    then have "?o \<noteq> p * ?l" by auto
    then show ?thesis using a False piece_of_position(1) [OF l, of ?o "p - 1"] by auto
  qed
  show "a \<le> p \<and> p < b \<longleftrightarrow> ?o \<le> p * ?l \<and> p < fs_num_pieces fs" if "i + 1 = length (fs_files fs)" using al b that by auto
  show "a \<le> p \<and> p < b \<longleftrightarrow> piece_inside fs i p \<or> ?o \<le> p * ?l \<and> (p + 1) * ?l = ?o + ?n + 1" if "i + 1 < length (fs_files fs)"
    using al b that piece_of_position(2) [OF l, of p "?o + ?n + 1"] by (auto simp: piece_inside_def)
qed

section \<open>A storage of two files\<close>

definition demo_storage :: file_storage where
  "demo_storage =
     (case add_file ''t/a'' 3 False False 0 new_file_storage of Inl _ \<Rightarrow> new_file_storage
      | Inr fs \<Rightarrow> (case add_file ''t/b/c'' 5 False False 0 fs of Inl _ \<Rightarrow> new_file_storage
                  | Inr fs' \<Rightarrow> set_num_pieces 2 (set_piece_length 4 fs')))"

lemma demo_storage_adds:
  "\<exists>fs fs'. add_file ''t/a'' 3 False False 0 new_file_storage = Inr fs \<and> add_file ''t/b/c'' 5 False False 0 fs = Inr fs'
    \<and> demo_storage = set_num_pieces 2 (set_piece_length 4 fs')"
proof -
  have e: "\<nexists>err. add_file ''t/a'' 3 False False 0 new_file_storage = Inl err"
    by (simp add: add_file_def add_file_borrow_error max_file_size_def max_file_offset_def fs_block_size_def new_file_storage_def path_filename_def c_str_def after_last_sep_def is_sep_def)
  then obtain fs where fs: "add_file ''t/a'' 3 False False 0 new_file_storage = Inr fs" by (metis sum.exhaust)
  have "fs_total_size fs = 3" using add_file_borrow_ok(3) [OF new_file_storage_ok _ fs [unfolded add_file_def]] by (simp add: new_file_storage_def)
  then have "\<nexists>err. add_file ''t/b/c'' 5 False False 0 fs = Inl err"
    by (simp add: add_file_def add_file_borrow_error max_file_size_def max_file_offset_def fs_block_size_def path_filename_def c_str_def after_last_sep_def is_sep_def)
  then obtain fs' where "add_file ''t/b/c'' 5 False False 0 fs = Inr fs'" by (metis sum.exhaust)
  then show ?thesis using fs by (simp add: demo_storage_def)
qed

lemma demo_storage_reachable: "fs_step\<^sup>*\<^sup>* new_file_storage demo_storage"
proof -
  obtain fs fs' where "add_file ''t/a'' 3 False False 0 new_file_storage = Inr fs" "add_file ''t/b/c'' 5 False False 0 fs = Inr fs'"
    and d: "demo_storage = set_num_pieces 2 (set_piece_length 4 fs')" using demo_storage_adds by blast
  then have "fs_step new_file_storage fs" "fs_step fs fs'" unfolding add_file_def by (auto intro: step_add [rotated])
  then show ?thesis unfolding d by (meson step_piece_length step_num_pieces converse_rtranclp_into_rtranclp rtranclp.rtrancl_refl)
qed

lemma demo_storage_facts:
  "map fe_offset (fs_files demo_storage) = [0, 3]" "map fe_size (fs_files demo_storage) = [3, 5]" "fs_total_size demo_storage = 8"
  "fs_piece_length demo_storage = 4" "fs_num_pieces demo_storage = 2"
  by code_simp+

end
