(* ===== verification/Receive_Buffer.thy ===== *)
theory Receive_Buffer
  imports Prelude
begin

text \<open>
  The receive buffer of a peer connection (src/receive_buffer.cpp, include/libtorrent/aux_/receive_buffer.hpp), with the
  average that decides when it shrinks (include/libtorrent/sliding_average.hpp) and the buffers it
  allocates (include/libtorrent/aux_/buffer.hpp).
\<close>

section \<open>The sliding average\<close>

text \<open>A mean and a deviation in fixed point, with six bits after the point.\<close>

record sliding_average =
  sa_mean :: int
  sa_average_deviation :: int
  sa_num_samples :: int

definition new_sliding_average :: sliding_average where
  "new_sliding_average = \<lparr>sa_mean = 0, sa_average_deviation = 0, sa_num_samples = 0\<rparr>"

definition sa_add_sample :: "int \<Rightarrow> int \<Rightarrow> sliding_average \<Rightarrow> sliding_average" where
  "sa_add_sample inverted_gain sample a =
     (let s = sample * 64;
          deviation = (if sa_num_samples a > 0 then \<bar>sa_mean a - s\<bar> else 0);
          n = (if sa_num_samples a < inverted_gain then sa_num_samples a + 1 else sa_num_samples a);
          d = sa_average_deviation a
      in \<lparr>sa_mean = sa_mean a + (s - sa_mean a) sdiv n,
          sa_average_deviation = (if n > 1 then d + (deviation - d) sdiv (n - 1) else d),
          sa_num_samples = n\<rparr>)"

definition mean_of :: "sliding_average \<Rightarrow> int" where
  "mean_of a = (if sa_num_samples a > 0 then (sa_mean a + 32) sdiv 64 else 0)"

definition avg_deviation :: "sliding_average \<Rightarrow> int" where
  "avg_deviation a = (if sa_num_samples a > 1 then (sa_average_deviation a + 32) sdiv 64 else 0)"

section \<open>Buffers\<close>

text \<open>
  The allocator is a parameter: \<open>alloc n\<close> is the block it returns for \<open>n\<close> bytes, with the bytes found in it. It
  may be longer than asked for, and then all of it is used.
\<close>

definition new_buffer :: "(nat \<Rightarrow> 'a list) \<Rightarrow> int \<Rightarrow> 'a list \<Rightarrow> 'a list" where
  "new_buffer alloc sz initialize =
     (if sz = 0 then []
      else let b = alloc (nat ((sz + 7) div 8 * 8)); n = nat (min (int (length initialize)) sz)
           in take n initialize @ drop n b)"

text \<open>Copying bytes over those from a position on.\<close>

definition overwrite :: "'a list \<Rightarrow> nat \<Rightarrow> 'a list \<Rightarrow> 'a list" where
  "overwrite xs i ys = take i xs @ ys @ drop (i + length ys) xs"

section \<open>The receive buffer\<close>

record 'a receive_buffer =
  rb_start :: int
  rb_end :: int
  rb_pos :: int
  rb_packet_size :: int
  rb_watermark :: sliding_average
  rb_bytes :: "'a list"

definition new_receive_buffer :: "'a receive_buffer" where
  "new_receive_buffer = \<lparr>rb_start = 0, rb_end = 0, rb_pos = 0, rb_packet_size = 0, rb_watermark = new_sliding_average, rb_bytes = []\<rparr>"

definition rb_capacity :: "'a receive_buffer \<Rightarrow> int" where
  "rb_capacity b = int (length (rb_bytes b))"

definition max_receive :: "'a receive_buffer \<Rightarrow> int" where
  "max_receive b = rb_capacity b - rb_end b"

definition packet_bytes_remaining :: "'a receive_buffer \<Rightarrow> int" where
  "packet_bytes_remaining b = rb_packet_size b - rb_pos b"

definition packet_finished :: "'a receive_buffer \<Rightarrow> bool" where
  "packet_finished b \<longleftrightarrow> rb_packet_size b \<le> rb_pos b"

definition pos_at_end :: "'a receive_buffer \<Rightarrow> bool" where
  "pos_at_end b \<longleftrightarrow> rb_pos b = rb_end b"

text \<open>\<open>reserve\<close> returns the span of \<open>sz\<close> bytes from \<open>rb_end\<close> on, where what is received is written.\<close>

definition rb_reserve :: "(nat \<Rightarrow> 'a list) \<Rightarrow> int \<Rightarrow> 'a receive_buffer \<Rightarrow> 'a receive_buffer" where
  "rb_reserve alloc sz b =
     (if rb_capacity b < rb_end b + sz
      then b\<lparr>rb_bytes := new_buffer alloc (max (rb_end b + sz) (rb_packet_size b)) (take (nat (rb_end b)) (rb_bytes b)),
             rb_watermark := new_sliding_average\<rparr>
      else b)"

definition write_span :: "'a list \<Rightarrow> 'a receive_buffer \<Rightarrow> 'a receive_buffer" where
  "write_span ds b = b\<lparr>rb_bytes := overwrite (rb_bytes b) (nat (rb_end b)) ds\<rparr>"

definition rb_received :: "int \<Rightarrow> 'a receive_buffer \<Rightarrow> 'a receive_buffer" where
  "rb_received n b = b\<lparr>rb_end := rb_end b + n\<rparr>"

definition rb_grow :: "(nat \<Rightarrow> 'a list) \<Rightarrow> int \<Rightarrow> 'a receive_buffer \<Rightarrow> 'a receive_buffer" where
  "rb_grow alloc limit b =
     (let new_size = (if rb_capacity b < rb_packet_size b then rb_packet_size b else min (rb_capacity b * 3 div 2) limit)
      in b\<lparr>rb_bytes := new_buffer alloc new_size (take (nat (rb_end b)) (rb_bytes b)), rb_watermark := new_sliding_average\<rparr>)"

definition advance_pos :: "int \<Rightarrow> 'a receive_buffer \<Rightarrow> int \<times> 'a receive_buffer" where
  "advance_pos bytes b =
     (let limit = (if rb_packet_size b > rb_pos b then rb_packet_size b - rb_pos b else rb_packet_size b);
          sub_transferred = min bytes limit
      in (sub_transferred, b\<lparr>rb_pos := rb_pos b + sub_transferred\<rparr>))"

definition rb_cut :: "int \<Rightarrow> int \<Rightarrow> int \<Rightarrow> 'a receive_buffer \<Rightarrow> 'a receive_buffer" where
  "rb_cut sz packet_size offset b =
     (let b1 = (if offset > 0 then
                  let b0 = (if sz > 0 then
                              b\<lparr>rb_bytes := overwrite (rb_bytes b) (nat (rb_start b + offset))
                                  (take (nat (rb_end b - rb_start b - sz - offset)) (drop (nat (rb_start b + offset + sz)) (rb_bytes b)))\<rparr>
                            else b)
                  in b0\<lparr>rb_pos := rb_pos b - sz, rb_end := rb_end b - sz\<rparr>
                else b\<lparr>rb_start := rb_start b + sz, rb_pos := rb_pos b - sz\<rparr>)
      in b1\<lparr>rb_packet_size := packet_size\<rparr>)"

definition rb_get :: "'a receive_buffer \<Rightarrow> 'a list" where
  "rb_get b = (if rb_bytes b = [] then [] else take (nat (rb_pos b)) (drop (nat (rb_start b)) (rb_bytes b)))"

definition rb_normalize :: "(nat \<Rightarrow> 'a list) \<Rightarrow> int \<Rightarrow> 'a receive_buffer \<Rightarrow> 'a receive_buffer" where
  "rb_normalize alloc force_shrink b =
     (let w = sa_add_sample 20 (max (rb_end b) (rb_packet_size b)) (rb_watermark b);
          shrink_buffer = (rb_capacity b div 2 > mean_of w \<and> mean_of w > rb_end b - rb_start b);
          bytes_to_shift = take (nat (rb_end b - rb_start b)) (drop (nat (rb_start b)) (rb_bytes b));
          bytes = (if force_shrink \<noteq> 0 then
                     new_buffer alloc (max (max force_shrink (int (length bytes_to_shift))) (rb_packet_size b)) bytes_to_shift
                   else if shrink_buffer then new_buffer alloc (mean_of w) bytes_to_shift
                   else if rb_end b > rb_start b \<and> rb_start b > 0 then overwrite (rb_bytes b) 0 bytes_to_shift
                   else rb_bytes b)
      in b\<lparr>rb_watermark := w, rb_bytes := bytes, rb_end := rb_end b - rb_start b, rb_start := 0\<rparr>)"

definition rb_reset :: "int \<Rightarrow> 'a receive_buffer \<Rightarrow> 'a receive_buffer" where
  "rb_reset packet_size b =
     (if rb_end b > rb_packet_size b then rb_cut (rb_packet_size b) packet_size 0 b
      else b\<lparr>rb_pos := 0, rb_start := 0, rb_end := 0, rb_packet_size := packet_size\<rparr>)"

section \<open>The average stays among the samples\<close>

definition average_within :: "int \<Rightarrow> int \<Rightarrow> sliding_average \<Rightarrow> bool" where
  "average_within lo hi a \<longleftrightarrow> 0 \<le> sa_num_samples a \<and> (sa_num_samples a > 0 \<longrightarrow> lo * 64 \<le> sa_mean a \<and> sa_mean a \<le> hi * 64)"

lemma sdiv_towards:
  assumes "0 < (n :: int)"
  shows "min 0 d \<le> d sdiv n" "d sdiv n \<le> max 0 d"
proof -
  have p: "0 \<le> x sdiv n \<and> x sdiv n \<le> x" if "0 \<le> x" for x
    using that assms by (simp add: nonneg_sdiv pos_imp_zdiv_nonneg_iff) (metis div_by_1 zdiv_mono2 zero_less_one int_one_le_iff_zero_less)
  have m: "(- x) sdiv n = - (x sdiv n)" for x by (simp add: signed_divide_int_def)
  show "min 0 d \<le> d sdiv n" "d sdiv n \<le> max 0 d" using p [of d] p [of "- d"] m [of d] by (cases "0 \<le> d"; linarith)+
qed

lemma sa_add_sample_within:
  assumes "average_within lo hi a" "lo \<le> s" "s \<le> hi" "0 < g"
  shows "average_within lo hi (sa_add_sample g s a)" "0 < sa_num_samples (sa_add_sample g s a)"
proof -
  let ?n = "sa_num_samples (sa_add_sample g s a)" and ?d = "s * 64 - sa_mean a"
  show n: "0 < ?n" using assms by (auto simp: average_within_def sa_add_sample_def Let_def)
  have m: "sa_mean (sa_add_sample g s a) = sa_mean a + ?d sdiv ?n" by (simp add: sa_add_sample_def Let_def)
  have "lo * 64 \<le> sa_mean a + ?d sdiv ?n \<and> sa_mean a + ?d sdiv ?n \<le> hi * 64"
  proof (cases "sa_num_samples a > 0")
    case True
    then show ?thesis using assms(1-3) sdiv_towards [OF n, of ?d] by (auto simp: average_within_def min_def max_def split: if_splits)
  next
    case False
    then have "?n = 1" using assms(1,4) by (auto simp: average_within_def sa_add_sample_def Let_def)
    then show ?thesis using assms(2,3) by simp
  qed
  then show "average_within lo hi (sa_add_sample g s a)" using n m by (simp add: average_within_def)
qed

lemma mean_within:
  assumes "average_within lo hi a" "0 < sa_num_samples a" "0 \<le> lo"
  shows "lo \<le> mean_of a" "mean_of a \<le> hi"
proof -
  have "lo * 64 \<le> sa_mean a" "sa_mean a \<le> hi * 64" using assms by (simp_all add: average_within_def)
  moreover have "mean_of a = (sa_mean a + 32) div 64" using assms calculation by (simp add: mean_of_def nonneg_sdiv)
  ultimately show "lo \<le> mean_of a" "mean_of a \<le> hi" by linarith+
qed

section \<open>The bytes still in the buffer\<close>

definition pending :: "'a receive_buffer \<Rightarrow> 'a list" where
  "pending b = drop (nat (rb_start b)) (take (nat (rb_end b)) (rb_bytes b))"

text \<open>The assertions of \<open>check_invariant\<close>, and that no more is read than was received.\<close>

definition rb_ok :: "'a receive_buffer \<Rightarrow> bool" where
  "rb_ok b \<longleftrightarrow> 0 \<le> rb_start b \<and> rb_start b \<le> rb_end b \<and> rb_end b \<le> rb_capacity b \<and> 0 \<le> rb_pos b \<and> rb_start b + rb_pos b \<le> rb_end b
     \<and> 0 \<le> rb_packet_size b"

definition allocator_ok :: "(nat \<Rightarrow> 'a list) \<Rightarrow> bool" where
  "allocator_ok alloc \<longleftrightarrow> (\<forall>n. n \<le> length (alloc n))"

lemma rb_okD:
  assumes "rb_ok b"
  shows "nat (rb_end b) \<le> length (rb_bytes b)" "nat (rb_start b) \<le> nat (rb_end b)" "nat (rb_start b) + nat (rb_pos b) \<le> nat (rb_end b)"
    "nat (rb_end b - rb_start b) = nat (rb_end b) - nat (rb_start b)"
  using assms by (auto simp: rb_ok_def rb_capacity_def)

lemma length_overwrite: "i + length ys \<le> length xs \<Longrightarrow> length (overwrite xs i ys) = length xs"
  by (simp add: overwrite_def)

lemma length_pending: "rb_ok b \<Longrightarrow> int (length (pending b)) = rb_end b - rb_start b"
  by (auto simp: rb_ok_def pending_def rb_capacity_def)

lemma bytes_to_shift: "rb_ok b \<Longrightarrow> take (nat (rb_end b - rb_start b)) (drop (nat (rb_start b)) (rb_bytes b)) = pending b"
  by (simp add: pending_def drop_take rb_okD(4))

lemma rb_get_pending: "rb_ok b \<Longrightarrow> rb_get b = take (nat (rb_pos b)) (pending b)"
  using rb_okD(3) [of b] by (auto simp: pending_def rb_get_def drop_take min_def)

lemma new_buffer_ok:
  assumes "allocator_ok alloc" "int (length ini) \<le> sz"
  shows "take (length ini) (new_buffer alloc sz ini) = ini" "sz \<le> int (length (new_buffer alloc sz ini))"
proof -
  let ?n = "nat ((sz + 7) div 8 * 8)"
  have "?n \<le> length (alloc ?n)" using assms(1) by (simp add: allocator_ok_def)
  moreover have "sz \<le> int ?n" using assms(2) by simp
  ultimately have "sz \<le> int (length (alloc ?n))" by linarith
  then show "take (length ini) (new_buffer alloc sz ini) = ini" "sz \<le> int (length (new_buffer alloc sz ini))"
    using assms(2) by (auto simp: new_buffer_def Let_def min_def)
qed

text \<open>Reallocating the bytes up to the end keeps what is pending.\<close>

lemma rb_realloc:
  assumes ok: "rb_ok b" and al: "allocator_ok alloc" and sz: "rb_end b \<le> sz"
    and b': "b' = b\<lparr>rb_bytes := new_buffer alloc sz (take (nat (rb_end b)) (rb_bytes b)), rb_watermark := w\<rparr>"
  shows "rb_ok b'" "pending b' = pending b" "sz \<le> rb_capacity b'"
proof -
  let ?ini = "take (nat (rb_end b)) (rb_bytes b)"
  have l: "length ?ini = nat (rb_end b)" "0 \<le> rb_end b" using rb_okD(1) [OF ok] ok by (simp_all add: rb_ok_def)
  then have n: "take (nat (rb_end b)) (new_buffer alloc sz ?ini) = ?ini" "sz \<le> int (length (new_buffer alloc sz ?ini))"
    using new_buffer_ok [OF al, of ?ini sz] sz by simp_all
  then show "pending b' = pending b" "sz \<le> rb_capacity b'" by (simp_all add: b' pending_def rb_capacity_def)
  show "rb_ok b'" using ok n sz by (simp add: b' rb_ok_def rb_capacity_def)
qed

lemma rb_reserve_ok:
  assumes "rb_ok b" "allocator_ok alloc" "0 \<le> sz"
  shows "rb_ok (rb_reserve alloc sz b)" "pending (rb_reserve alloc sz b) = pending b" "sz \<le> max_receive (rb_reserve alloc sz b)"
    "rb_pos (rb_reserve alloc sz b) = rb_pos b" "rb_packet_size (rb_reserve alloc sz b) = rb_packet_size b"
proof -
  show "rb_pos (rb_reserve alloc sz b) = rb_pos b" "rb_packet_size (rb_reserve alloc sz b) = rb_packet_size b" by (simp_all add: rb_reserve_def)
  have "rb_ok (rb_reserve alloc sz b) \<and> pending (rb_reserve alloc sz b) = pending b \<and> sz \<le> max_receive (rb_reserve alloc sz b)"
  proof (cases "rb_capacity b < rb_end b + sz")
    case True
    have "rb_end b \<le> max (rb_end b + sz) (rb_packet_size b)" using assms(3) by linarith
    from rb_realloc [OF assms(1,2) this refl, of new_sliding_average] True show ?thesis by (simp add: rb_reserve_def max_receive_def)
  qed (use assms in \<open>simp add: rb_reserve_def max_receive_def\<close>)
  then show "rb_ok (rb_reserve alloc sz b)" "pending (rb_reserve alloc sz b) = pending b" "sz \<le> max_receive (rb_reserve alloc sz b)" by blast+
qed

text \<open>What is received comes after what is pending.\<close>

lemma received_ok:
  assumes ok: "rb_ok b" and n: "int (length ds) \<le> max_receive b"
  shows "rb_ok (rb_received (int (length ds)) (write_span ds b))" "pending (rb_received (int (length ds)) (write_span ds b)) = pending b @ ds"
proof -
  let ?e = "nat (rb_end b)"
  have l: "?e + length ds \<le> length (rb_bytes b)" "nat (rb_end b + int (length ds)) = ?e + length ds"
    using n rb_okD(1) [OF ok] ok by (auto simp: max_receive_def rb_capacity_def rb_ok_def)
  then show "pending (rb_received (int (length ds)) (write_span ds b)) = pending b @ ds"
    using rb_okD(1,2) [OF ok] by (simp add: pending_def rb_received_def write_span_def overwrite_def)
  show "rb_ok (rb_received (int (length ds)) (write_span ds b))"
    using ok n l by (auto simp: rb_ok_def rb_received_def write_span_def overwrite_def rb_capacity_def max_receive_def)
qed

lemma rb_grow_ok:
  assumes "rb_ok b" "allocator_ok alloc" "rb_capacity b < rb_packet_size b \<or> rb_end b \<le> limit"
  shows "rb_ok (rb_grow alloc limit b)" "pending (rb_grow alloc limit b) = pending b" "rb_pos (rb_grow alloc limit b) = rb_pos b"
    "rb_packet_size (rb_grow alloc limit b) = rb_packet_size b"
proof -
  have "rb_end b \<le> (if rb_capacity b < rb_packet_size b then rb_packet_size b else min (rb_capacity b * 3 div 2) limit)"
    using assms(1,3) by (auto simp: rb_ok_def rb_capacity_def)
  from rb_realloc [OF assms(1,2) this refl, of new_sliding_average]
  show "rb_ok (rb_grow alloc limit b)" "pending (rb_grow alloc limit b) = pending b" by (simp_all add: rb_grow_def Let_def)
qed (simp_all add: rb_grow_def Let_def)

lemma advance_pos_ok:
  assumes "rb_ok b" "advance_pos n b = (m, b')" "0 \<le> n" "rb_start b + rb_pos b + n \<le> rb_end b"
  shows "rb_ok b'" "pending b' = pending b" "rb_pos b' = rb_pos b + m" "0 \<le> m" "m \<le> n" "rb_packet_size b' = rb_packet_size b"
    "rb_pos b < rb_packet_size b \<Longrightarrow> rb_pos b' \<le> rb_packet_size b" "0 < n \<Longrightarrow> 0 < rb_packet_size b \<Longrightarrow> 0 < m"
  using assms by (auto simp: advance_pos_def Let_def rb_ok_def pending_def rb_capacity_def)

text \<open>Cutting takes bytes out of those pending.\<close>

lemma cut_middle:
  assumes le: "s + i + z \<le> e" "e \<le> length xs"
  shows "drop s (take (e - z) (overwrite xs (s + i) (take (e - s - z - i) (drop (s + i + z) xs)))) = take i (drop s (take e xs)) @ drop (i + z) (drop s (take e xs))"
proof -
  let ?mv = "take (e - s - z - i) (drop (s + i + z) xs)"
  have "length (take (s + i) xs @ ?mv) = e - z" using le by simp
  then have "take (e - z) (overwrite xs (s + i) ?mv) = take (s + i) xs @ ?mv" unfolding overwrite_def append_assoc [symmetric] by (metis append_eq_conv_conj)
  moreover have "drop s (take (s + i) xs @ ?mv) = take i (drop s xs) @ ?mv" using le by (simp add: drop_take)
  moreover have "take i (drop s (take e xs)) = take i (drop s xs)" using le by (simp add: drop_take min_def)
  moreover have "drop (i + z) (drop s (take e xs)) = ?mv" using le by (simp add: drop_take) (metis add.assoc add.commute diff_diff_left)
  ultimately show ?thesis by simp
qed

lemma rb_cut_ok:
  assumes ok: "rb_ok b" and pre: "0 \<le> sz" "0 \<le> offset" "sz + offset \<le> rb_pos b" "0 \<le> packet_size"
  shows "rb_ok (rb_cut sz packet_size offset b)"
    "pending (rb_cut sz packet_size offset b) = take (nat offset) (pending b) @ drop (nat offset + nat sz) (pending b)"
    "rb_pos (rb_cut sz packet_size offset b) = rb_pos b - sz" "rb_packet_size (rb_cut sz packet_size offset b) = packet_size"
proof -
  show "rb_pos (rb_cut sz packet_size offset b) = rb_pos b - sz" "rb_packet_size (rb_cut sz packet_size offset b) = packet_size" by (simp_all add: rb_cut_def Let_def)
  define s e p o' z where d: "s = nat (rb_start b)" "e = nat (rb_end b)" "p = nat (rb_pos b)" "o' = nat offset" "z = nat sz"
  have n: "rb_start b = int s" "rb_end b = int e" "rb_pos b = int p" "offset = int o'" "sz = int z" using ok pre by (simp_all add: d rb_ok_def)
  have le: "s + p \<le> e" "e \<le> length (rb_bytes b)" "z + o' \<le> p" using ok pre n by (simp_all add: rb_ok_def rb_capacity_def)
  let ?mv = "take (e - s - z - o') (drop (s + o' + z) (rb_bytes b))"
  have mv: "length ?mv = e - s - z - o'" "nat (rb_end b - rb_start b - sz - offset) = e - s - z - o'" "nat (rb_start b + offset + sz) = s + o' + z"
    "nat (rb_start b + offset) = s + o'" "nat (rb_end b - sz) = e - z" using le by (simp_all add: n nat_diff_distrib flip: of_nat_add)
  have pd: "pending b = drop s (take e (rb_bytes b))" by (simp add: pending_def n)
  have "length (overwrite (rb_bytes b) (s + o') ?mv) = length (rb_bytes b)" using le mv(1) by (intro length_overwrite) linarith
  then have c: "rb_capacity (rb_cut sz packet_size offset b) = rb_capacity b" using mv by (simp add: rb_cut_def Let_def rb_capacity_def)
  have f: "rb_start (rb_cut sz packet_size offset b) = (if offset > 0 then rb_start b else rb_start b + sz)"
    "rb_end (rb_cut sz packet_size offset b) = (if offset > 0 then rb_end b - sz else rb_end b)"
    "rb_pos (rb_cut sz packet_size offset b) = rb_pos b - sz" "rb_packet_size (rb_cut sz packet_size offset b) = packet_size"
    by (simp_all add: rb_cut_def Let_def)
  show "rb_ok (rb_cut sz packet_size offset b)" using ok pre unfolding rb_ok_def c f by (cases "offset > 0") simp_all
  show "pending (rb_cut sz packet_size offset b) = take (nat offset) (pending b) @ drop (nat offset + nat sz) (pending b)"
  proof (cases "offset > 0 \<and> sz > 0")
    case True
    have "s + o' + z \<le> e" using le by simp
    from cut_middle [OF this le(2)] show ?thesis using True mv unfolding pd by (simp add: rb_cut_def Let_def pending_def d(4,5) [symmetric] d(1) [symmetric])
  next
    case False
    then show ?thesis using n append_take_drop_id [of o' "drop s (take e (rb_bytes b))"] by (auto simp: rb_cut_def Let_def pending_def add.commute nat_add_distrib)
  qed
qed

section \<open>Making room\<close>

lemma shift_ok:
  assumes ok: "rb_ok b" and xs: "take (length (pending b)) xs = pending b"
    and b': "b' = b\<lparr>rb_watermark := w, rb_bytes := xs, rb_end := rb_end b - rb_start b, rb_start := 0\<rparr>"
  shows "rb_ok b'" "pending b' = pending b"
proof -
  have l: "length (pending b) \<le> length xs" using xs by (metis length_take min.cobounded1)
  have e: "nat (rb_end b - rb_start b) = length (pending b)" using length_pending [OF ok] by linarith
  have "pending b' = take (length (pending b)) xs" unfolding b' by (subst pending_def) (simp add: e)
  then show "pending b' = pending b" using xs by simp
  show "rb_ok b'" using ok l length_pending [OF ok] by (auto simp: b' rb_ok_def rb_capacity_def)
qed

text \<open>Moving the pending bytes to the front, into whichever buffer, keeps them.\<close>

lemma rb_normalize_ok:
  assumes ok: "rb_ok b" and al: "allocator_ok alloc" and f: "0 \<le> force_shrink"
  shows "rb_ok (rb_normalize alloc force_shrink b)" "pending (rb_normalize alloc force_shrink b) = pending b"
    "rb_pos (rb_normalize alloc force_shrink b) = rb_pos b" "rb_packet_size (rb_normalize alloc force_shrink b) = rb_packet_size b"
    "rb_start (rb_normalize alloc force_shrink b) = 0"
proof -
  define w where "w = sa_add_sample 20 (max (rb_end b) (rb_packet_size b)) (rb_watermark b)"
  define xs where "xs = (if force_shrink \<noteq> 0 then new_buffer alloc (max (max force_shrink (int (length (pending b)))) (rb_packet_size b)) (pending b)
    else if rb_capacity b div 2 > mean_of w \<and> mean_of w > rb_end b - rb_start b then new_buffer alloc (mean_of w) (pending b)
    else if rb_end b > rb_start b \<and> rb_start b > 0 then overwrite (rb_bytes b) 0 (pending b) else rb_bytes b)"
  have r: "rb_normalize alloc force_shrink b = b\<lparr>rb_watermark := w, rb_bytes := xs, rb_end := rb_end b - rb_start b, rb_start := 0\<rparr>"
    by (simp add: rb_normalize_def Let_def bytes_to_shift [OF ok] w_def xs_def)
  have "take (length (pending b)) (rb_bytes b) = pending b" if "\<not> (rb_end b > rb_start b \<and> rb_start b > 0)"
  proof -
    have "rb_start b = 0 \<or> pending b = []" using that ok length_pending [OF ok] by (cases "pending b") (auto simp: rb_ok_def)
    then show ?thesis by (auto simp: pending_def min_def)
  qed
  moreover have "take (length (pending b)) (new_buffer alloc sz (pending b)) = pending b" if "int (length (pending b)) \<le> sz" for sz
    using new_buffer_ok(1) [OF al that] .
  ultimately have "take (length (pending b)) xs = pending b" using length_pending [OF ok] by (auto simp: xs_def overwrite_def)
  from shift_ok [OF ok this r] show "rb_ok (rb_normalize alloc force_shrink b)" "pending (rb_normalize alloc force_shrink b) = pending b" .
qed (simp_all add: rb_normalize_def Let_def)

text \<open>After a packet that was read completely, \<open>reset\<close> takes it out; what was read of the next one stays read.\<close>

lemma rb_reset_ok:
  assumes ok: "rb_ok b" and fin: "rb_packet_size b \<le> rb_pos b" and ps: "0 \<le> packet_size"
  shows "rb_ok (rb_reset packet_size b)" "pending (rb_reset packet_size b) = drop (nat (rb_packet_size b)) (pending b)"
    "rb_pos (rb_reset packet_size b) = rb_pos b - rb_packet_size b" "rb_packet_size (rb_reset packet_size b) = packet_size"
proof -
  have "rb_ok (rb_reset packet_size b) \<and> pending (rb_reset packet_size b) = drop (nat (rb_packet_size b)) (pending b)
    \<and> rb_pos (rb_reset packet_size b) = rb_pos b - rb_packet_size b \<and> rb_packet_size (rb_reset packet_size b) = packet_size"
  proof (cases "rb_end b > rb_packet_size b")
    case True
    then show ?thesis using rb_cut_ok [OF ok, of "rb_packet_size b" 0 packet_size] ok fin ps by (simp add: rb_reset_def rb_ok_def)
  next
    case False
    then have "rb_start b = 0" "rb_end b = rb_packet_size b" "rb_pos b = rb_packet_size b" using ok fin by (auto simp: rb_ok_def)
    moreover from this have "int (length (pending b)) = rb_packet_size b" using length_pending [OF ok] by simp
    ultimately show ?thesis using False ok ps by (auto simp: rb_reset_def rb_ok_def rb_capacity_def pending_def)
  qed
  then show "rb_ok (rb_reset packet_size b)" "pending (rb_reset packet_size b) = drop (nat (rb_packet_size b)) (pending b)"
    "rb_pos (rb_reset packet_size b) = rb_pos b - rb_packet_size b" "rb_packet_size (rb_reset packet_size b) = packet_size" by blast+
qed

section \<open>A connection over time\<close>

text \<open>
  What a connection does with its buffer, with the bytes received and the bytes handed over so far:
  it receives into a reserved span, reads on, cuts what was read off the front, makes room and starts the next packet.
  The guards are what the code asserts of each call (a packet size is set and the buffer is normalized when more is received, sizes of
  packets are positive, what is cut off was read, the buffer is not too large to grow) and three rules that its
  callers follow: bytes are cut at the front only, \<open>reset\<close> is called after the current packet was read, and the limit of \<open>grow\<close> is not below the
  bytes held unless the buffer is smaller than the packet.
\<close>

inductive rb_step :: "(nat \<Rightarrow> 'a list) \<Rightarrow> 'a list \<times> 'a list \<times> 'a receive_buffer \<Rightarrow> 'a list \<times> 'a list \<times> 'a receive_buffer \<Rightarrow> bool" for alloc where
  step_receive: "int (length ds) \<le> sz \<Longrightarrow> 0 < sz \<Longrightarrow> rb_start b = 0 \<Longrightarrow> 0 < rb_packet_size b \<Longrightarrow>
    rb_step alloc (r, c, b) (r @ ds, c, rb_received (int (length ds)) (write_span ds (rb_reserve alloc sz b)))"
| step_advance: "0 \<le> n \<Longrightarrow> rb_start b + rb_pos b + n \<le> rb_end b \<Longrightarrow> rb_step alloc (r, c, b) (r, c, snd (advance_pos n b))"
| step_cut: "0 \<le> sz \<Longrightarrow> sz \<le> rb_pos b \<Longrightarrow> 0 < ps \<Longrightarrow> rb_step alloc (r, c, b) (r, c @ take (nat sz) (rb_get b), rb_cut sz ps 0 b)"
| step_reset: "rb_packet_size b \<le> rb_pos b \<Longrightarrow> 0 < ps \<Longrightarrow> rb_step alloc (r, c, b) (r, c @ take (nat (rb_packet_size b)) (rb_get b), rb_reset ps b)"
| step_normalize: "0 \<le> force \<Longrightarrow> rb_step alloc (r, c, b) (r, c, rb_normalize alloc force b)"
| step_grow: "rb_capacity b < 2147483647 div 3 \<Longrightarrow> rb_capacity b < rb_packet_size b \<or> rb_end b \<le> limit \<Longrightarrow> rb_step alloc (r, c, b) (r, c, rb_grow alloc limit b)"

text \<open>The invariant check of the code.\<close>

definition rb_check_invariant :: "'a receive_buffer \<Rightarrow> bool" where
  "rb_check_invariant b \<longleftrightarrow> rb_end b \<ge> rb_start b \<and> rb_end b \<le> rb_capacity b \<and> rb_start b \<le> rb_capacity b \<and> rb_start b + rb_pos b \<le> rb_capacity b"

lemma rb_ok_check: "rb_ok b \<Longrightarrow> rb_check_invariant b"
  by (simp add: rb_ok_def rb_check_invariant_def)

text \<open>No byte is lost, repeated or reordered.\<close>

definition stream_inv :: "'a list \<times> 'a list \<times> 'a receive_buffer \<Rightarrow> bool" where
  "stream_inv = (\<lambda>(r, c, b). rb_ok b \<and> r = c @ pending b)"

lemma rb_step_inv:
  assumes "allocator_ok alloc" "rb_step alloc s s'" "stream_inv s"
  shows "stream_inv s'"
  using assms(2,3)
proof cases
  case (step_receive ds sz b r c)
  have ok: "rb_ok b" "r = c @ pending b" and "0 \<le> sz" using assms(3) step_receive by (simp_all add: stream_inv_def)
  note v = rb_reserve_ok [OF ok(1) assms(1) this(3)]
  have "int (length ds) \<le> max_receive (rb_reserve alloc sz b)" using v(3) step_receive(3) by linarith
  from received_ok [OF v(1) this] show ?thesis using step_receive(2) v(2) ok(2) by (simp add: stream_inv_def)
next
  case (step_advance n b r c)
  obtain m b' where a: "advance_pos n b = (m, b')" by fastforce
  then show ?thesis using advance_pos_ok [OF _ a step_advance(3,4)] assms(3) step_advance(1,2) by (simp add: stream_inv_def)
next
  case (step_cut sz b ps r c)
  have ok: "rb_ok b" "r = c @ pending b" using assms(3) step_cut by (simp_all add: stream_inv_def)
  have "take (nat sz) (rb_get b) = take (nat sz) (pending b)" using rb_get_pending [OF ok(1)] step_cut(4) by simp
  then show ?thesis using rb_cut_ok [OF ok(1) step_cut(3), of 0 ps] step_cut ok(2) by (simp add: stream_inv_def)
next
  case (step_reset b ps r c)
  have ok: "rb_ok b" "r = c @ pending b" using assms(3) step_reset by (simp_all add: stream_inv_def)
  have "take (nat (rb_packet_size b)) (rb_get b) = take (nat (rb_packet_size b)) (pending b)"
    using rb_get_pending [OF ok(1)] step_reset(3) by simp
  then show ?thesis using rb_reset_ok [OF ok(1) step_reset(3), of ps] rb_get_pending [OF ok(1)] step_reset ok(2) by (simp add: stream_inv_def)
next
  case (step_normalize force r c b)
  then show ?thesis using rb_normalize_ok(1,2) [OF _ assms(1), of b force] assms(3) by (simp add: stream_inv_def)
next
  case (step_grow b limit r c)
  then show ?thesis using rb_grow_ok(1,2) [OF _ assms(1), of b limit] assms(3) by (simp add: stream_inv_def)
qed

lemma new_receive_buffer_ok: "rb_ok new_receive_buffer" "pending new_receive_buffer = []"
  by (simp_all add: new_receive_buffer_def rb_ok_def rb_capacity_def pending_def)

lemma receive_buffer_steps:
  assumes "allocator_ok alloc"
  shows "guarded_steps (\<lambda>s. s = ([], [], new_receive_buffer)) (rb_step alloc) stream_inv"
  by (rule guarded_steps.intro, simp add: stream_inv_def new_receive_buffer_ok) (rule rb_step_inv [OF assms])

lemma receive_buffer_reached:
  assumes "allocator_ok alloc" "(rb_step alloc)\<^sup>*\<^sup>* ([], [], new_receive_buffer) (r, c, b)"
  shows "rb_ok b" "r = c @ pending b"
  using guarded_steps.reached_inv [OF receive_buffer_steps [OF assms(1)] refl assms(2)] by (simp_all add: stream_inv_def)

end
