(* ===== verification/Picker_Base.thy ===== *)
theory Picker_Base
  imports Prelude
begin

text \<open>
  The data of \<open>piece_picker\<close> (include/libtorrent/piece_picker.hpp): the per-piece entry
  \<open>piece_pos\<close>, the partially downloaded piece \<open>downloading_piece\<close>, the per-block entry
  \<open>block_info\<close>, the picker itself, the sizes derived from the torrent's length and the
  effective priority of a piece, which is the order in which pieces are picked.

  Conventions. A \<open>torrent_peer*\<close> is a \<^typ>\<open>nat option\<close> with \<^term>\<open>None\<close> for the null
  pointer. \<open>prio_index_t\<close> is a \<^typ>\<open>nat option\<close> with \<^term>\<open>None\<close> for
  \<open>we_have_index\<close> (-1). The C++ bit-fields are \<^typ>\<open>nat\<close> with the wrap-around of
  \<^const>\<open>inc_bits\<close> and \<^const>\<open>dec_bits\<close>. \<open>TORRENT_ASSERT\<close> has no effect in a release
  build and none in the model: what the assertions state is proved instead.
\<close>

section \<open>Blocks, partial pieces and pieces\<close>

datatype block_state = state_none | state_requested | state_writing | state_finished

record block_info =
  bi_peer :: "nat option"
  bi_num_peers :: nat
  bi_state :: block_state

text \<open>Widths of the bit-fields of \<open>block_info\<close>, \<open>downloading_piece\<close> and \<open>piece_pos\<close>.\<close>

abbreviation (input) num_peers_bits :: nat where "num_peers_bits \<equiv> 14"
abbreviation (input) block_count_bits :: nat where "block_count_bits \<equiv> 15"
abbreviation (input) peer_count_bits :: nat where "peer_count_bits \<equiv> 26"

record downloading_piece =
  dp_index :: nat
  dp_info_idx :: nat
  dp_finished :: nat
  dp_passed_hash_check :: bool
  dp_writing :: nat
  dp_locked :: bool
  dp_requested :: nat
  dp_hashing :: nat

datatype dl_state =
    piece_downloading | piece_full | piece_finished | piece_zero_prio
  | piece_open | piece_downloading_reverse | piece_full_reverse

text \<open>\<open>num_download_categories\<close>: the states that own a bucket of \<open>m_downloads\<close>.\<close>

definition download_categories :: "dl_state list" where
  "download_categories = [piece_downloading, piece_full, piece_finished, piece_zero_prio]"

record piece_pos =
  pp_peer_count :: nat
  pp_state :: dl_state
  pp_priority :: nat
  pp_index :: "nat option"

abbreviation (input) dont_download :: nat where "dont_download \<equiv> 0"
abbreviation (input) default_priority :: nat where "default_priority \<equiv> 4"
abbreviation (input) top_priority :: nat where "top_priority \<equiv> 7"

definition new_piece_pos :: "nat \<Rightarrow> nat \<Rightarrow> piece_pos" where
  "new_piece_pos peer_count idx =
     \<lparr>pp_peer_count = peer_count mod 2 ^ 16, pp_state = piece_open,
      pp_priority = default_priority, pp_index = Some idx\<rparr>"

fun queue_of_state :: "dl_state \<Rightarrow> dl_state" where
  "queue_of_state piece_downloading_reverse = piece_downloading"
| "queue_of_state piece_full_reverse = piece_full"
| "queue_of_state st = st"

definition download_queue :: "piece_pos \<Rightarrow> dl_state" where
  "download_queue p = queue_of_state (pp_state p)"

definition pos_reverse :: "piece_pos \<Rightarrow> bool" where
  "pos_reverse p \<longleftrightarrow> pp_state p = piece_downloading_reverse \<or> pp_state p = piece_full_reverse"

definition unreverse :: "piece_pos \<Rightarrow> piece_pos" where
  "unreverse p =
     (if pp_state p = piece_downloading_reverse then p\<lparr>pp_state := piece_downloading\<rparr>
      else if pp_state p = piece_full_reverse then p\<lparr>pp_state := piece_full\<rparr>
      else p)"

definition make_reverse :: "piece_pos \<Rightarrow> piece_pos" where
  "make_reverse p =
     (if pp_state p = piece_downloading then p\<lparr>pp_state := piece_downloading_reverse\<rparr>
      else if pp_state p = piece_full then p\<lparr>pp_state := piece_full_reverse\<rparr>
      else p)"

definition pos_have :: "piece_pos \<Rightarrow> bool" where
  "pos_have p \<longleftrightarrow> pp_index p = None"

definition set_have :: "piece_pos \<Rightarrow> piece_pos" where
  "set_have p = p\<lparr>pp_index := None\<rparr>"

definition set_not_have :: "piece_pos \<Rightarrow> piece_pos" where
  "set_not_have p = p\<lparr>pp_index := Some 0\<rparr>"

definition pos_downloading :: "piece_pos \<Rightarrow> bool" where
  "pos_downloading p \<longleftrightarrow> pp_state p \<noteq> piece_open"

definition pos_filtered :: "piece_pos \<Rightarrow> bool" where
  "pos_filtered p \<longleftrightarrow> pp_priority p = dont_download"

text \<open>
  \<open>piece_pos::priority\<close>, with \<open>m_seeds\<close> of the picker as its first argument: -1 for a piece
  that is not in the pick list, otherwise its bucket.
\<close>

definition pos_priority :: "int \<Rightarrow> piece_pos \<Rightarrow> int" where
  "pos_priority seeds p =
     (if pos_filtered p \<or> pos_have p \<or> int (pp_peer_count p) + seeds = 0
         \<or> pp_state p = piece_full \<or> pp_state p = piece_finished
      then -1
      else
        let adjustment = (if pos_reverse p then -1 else if pp_state p \<noteq> piece_open then -3 else -2);
            availability = int (pp_peer_count p) + 1
        in availability * (8 - int (pp_priority p)) * 3 + adjustment)"

section \<open>The picker\<close>

text \<open>
  \<open>rng_draws\<close> stands for the random engine: the numbers it will produce, in order. The
  other fields are the members of \<open>piece_picker\<close>, under their names.
\<close>

record picker =
  m_piece_map :: "piece_pos list"
  m_pads_in_piece :: "nat \<rightharpoonup> nat"
  m_recent_extents :: "nat list"
  m_num_pad_bytes :: int
  m_have_pad_bytes :: int
  m_filtered_pad_bytes :: int
  m_have_filtered_pad_bytes :: int
  m_seeds :: int
  m_num_passed :: int
  m_pieces :: "nat list"
  m_priority_boundaries :: "nat list"
  m_downloads :: "dl_state \<Rightarrow> downloading_piece list"
  m_block_info :: "block_info list"
  m_free_block_infos :: "nat list"
  m_blocks_in_last_piece :: nat
  m_piece_size :: nat
  m_total_size :: nat
  m_num_filtered :: int
  m_num_have_filtered :: int
  m_cursor :: nat
  m_reverse_cursor :: nat
  m_num_have :: int
  m_dirty :: bool
  rng_draws :: "nat list"

text \<open>\<open>random(max)\<close> (src/random.cpp): some number of \<open>[0, max]\<close>; no draw is made for 0.\<close>

definition random :: "nat \<Rightarrow> picker \<Rightarrow> nat \<times> picker" where
  "random mx s =
     (if mx = 0 then (0, s)
      else case rng_draws s of
        [] \<Rightarrow> (0, s)
      | d # ds \<Rightarrow> (d mod (mx + 1), s\<lparr>rng_draws := ds\<rparr>))"

definition num_pieces :: "picker \<Rightarrow> nat" where
  "num_pieces s = length (m_piece_map s)"

definition piece_pos_of :: "picker \<Rightarrow> nat \<Rightarrow> piece_pos" where
  "piece_pos_of s i = m_piece_map s ! i"

definition priority_of :: "picker \<Rightarrow> nat \<Rightarrow> int" where
  "priority_of s i = pos_priority (m_seeds s) (m_piece_map s ! i)"

text \<open>In-place modification of \<open>m_piece_map[i]\<close>.\<close>

definition upd_pos :: "nat \<Rightarrow> (piece_pos \<Rightarrow> piece_pos) \<Rightarrow> picker \<Rightarrow> picker" where
  "upd_pos i f s = s\<lparr>m_piece_map := (m_piece_map s)[i := f (m_piece_map s ! i)]\<rparr>"

section \<open>Geometry\<close>

definition default_block_size :: nat where "default_block_size = 0x4000"

definition block_size :: "picker \<Rightarrow> nat" where
  "block_size s = min (m_piece_size s) default_block_size"

definition blocks_per_piece :: "picker \<Rightarrow> nat" where
  "blocks_per_piece s = (m_piece_size s + block_size s - 1) div block_size s"

definition blocks_in_piece :: "picker \<Rightarrow> nat \<Rightarrow> nat" where
  "blocks_in_piece s i =
     (if i + 1 = num_pieces s then m_blocks_in_last_piece s else blocks_per_piece s)"

definition piece_size :: "picker \<Rightarrow> nat \<Rightarrow> int" where
  "piece_size s i =
     (if int i \<noteq> int (num_pieces s) - 1 then int (m_piece_size s)
      else int (m_total_size s) - (int (num_pieces s) - 1) * int (m_piece_size s))"

definition pad_bytes_in_piece :: "picker \<Rightarrow> nat \<Rightarrow> nat" where
  "pad_bytes_in_piece s i = (case m_pads_in_piece s i of None \<Rightarrow> 0 | Some n \<Rightarrow> n)"

definition have_piece :: "picker \<Rightarrow> nat \<Rightarrow> bool" where
  "have_piece s i \<longleftrightarrow> pp_index (m_piece_map s ! i) = None"

definition piece_priority :: "picker \<Rightarrow> nat \<Rightarrow> nat" where
  "piece_priority s i = pp_priority (m_piece_map s ! i)"

definition piece_priorities :: "picker \<Rightarrow> nat list" where
  "piece_priorities s = map pp_priority (m_piece_map s)"

definition get_availability_all :: "picker \<Rightarrow> int list" where
  "get_availability_all s = map (\<lambda>p. int (pp_peer_count p) + m_seeds s) (m_piece_map s)"

definition get_availability :: "picker \<Rightarrow> nat \<Rightarrow> int" where
  "get_availability s i = int (pp_peer_count (m_piece_map s ! i)) + m_seeds s"

end
