(* ===== verification/Picker_Buckets.thy ===== *)
theory Picker_Buckets
  imports Picker_Base
begin

text \<open>
  The pick list of \<open>piece_picker\<close>: \<open>m_pieces\<close> holds the pickable pieces grouped by
  priority, \<open>m_priority_boundaries\<close> the end of each group and \<open>m_piece_map[].index\<close> the
  position of a piece. This theory models the operations that move one piece (\<open>add\<close>,
  \<open>remove\<close>, \<open>update\<close>, \<open>shuffle\<close>) and the one that rebuilds the list
  (\<open>update_pieces\<close>), and shows that they refine operations on a list of buckets.
\<close>

section \<open>The operations\<close>

definition priority_begin :: "nat list \<Rightarrow> nat \<Rightarrow> nat" where
  "priority_begin bnd prio = (if prio = 0 then 0 else bnd ! (prio - 1))"

definition priority_end :: "nat list \<Rightarrow> nat \<Rightarrow> nat" where
  "priority_end bnd prio = bnd ! prio"

definition priority_range :: "nat list \<Rightarrow> nat \<Rightarrow> nat \<times> nat" where
  "priority_range bnd prio = (priority_begin bnd prio, priority_end bnd prio)"

definition set_index :: "piece_pos list \<Rightarrow> nat \<Rightarrow> nat \<Rightarrow> piece_pos list" where
  "set_index mp i pos = mp[i := (mp ! i)\<lparr>pp_index := Some pos\<rparr>]"

text \<open>\<open>piece_index_t(-1)\<close>, the placeholder \<open>add\<close> appends: the 32 bit pattern of -1.\<close>

definition no_piece :: nat where "no_piece = 2 ^ 32 - 1"

text \<open>The inner \<open>do ... while\<close> of \<open>add\<close>.\<close>

function add_inner :: "nat list \<Rightarrow> nat \<Rightarrow> nat \<Rightarrow> nat list \<times> nat \<times> nat" where
  "add_inner bnd new_index prio =
     (let temp = bnd ! prio; bnd' = bnd[prio := temp + 1]; prio' = prio + 1
      in if temp = new_index \<and> prio' < length bnd'
         then add_inner bnd' new_index prio' else (bnd', temp, prio'))"
  by pat_completeness auto
termination
  by (relation "measure (\<lambda>(b, n, p). length b - p)") auto

declare add_inner.simps [simp del]

lemma add_inner_progress:
  "add_inner b n p = (b', t, p') \<Longrightarrow> p < p' \<and> length b' = length b"
proof (induction b n p rule: add_inner.induct)
  case (1 b n p)
  show ?case
  proof (cases "b ! p = n \<and> p + 1 < length b")
    case True
    with "1.IH" [OF refl refl refl] "1.prems" show ?thesis
      by (auto simp: Let_def add_inner.simps [of b n p])
  next
    case False
    with "1.prems" show ?thesis
      by (auto simp: Let_def add_inner.simps [of b n p] split: if_splits)
  qed
qed

text \<open>The outer \<open>for (;;)\<close> of \<open>add\<close>, up to the placement after it.\<close>

function add_outer ::
    "piece_pos list \<Rightarrow> nat list \<Rightarrow> nat list \<Rightarrow> nat \<Rightarrow> nat \<Rightarrow> nat
     \<Rightarrow> piece_pos list \<times> nat list \<times> nat list" where
  "add_outer mp ps bnd index new_index prio =
     (let temp = ps ! new_index;
          ps' = ps[new_index := index];
          mp' = set_index mp index new_index;
          (bnd', new_index', prio') = add_inner bnd new_index prio
      in if prio' \<ge> length bnd' then
           (if temp \<noteq> no_piece
            then (set_index mp' temp new_index', ps'[new_index' := temp], bnd')
            else (mp', ps', bnd'))
         else add_outer mp' ps' bnd' temp new_index' prio')"
  by pat_completeness auto
termination
  by (relation "measure (\<lambda>(mp, ps, b, i, n, p). length b - p)")
     (auto dest!: sym [of "(_, _, _)" "add_inner _ _ _"] add_inner_progress)

declare add_outer.simps [simp del]

definition picker_add :: "nat \<Rightarrow> picker \<Rightarrow> picker" where
  "picker_add index s =
     (let priority = priority_of s index in
      if priority < 0 then s else
      let prio = nat priority;
          bnd = (if length (m_priority_boundaries s) \<le> prio
                 then vec_resize (prio + 1) (length (m_pieces s)) (m_priority_boundaries s)
                 else m_priority_boundaries s);
          (first, second) = priority_range bnd prio;
          (new_index, s') = (if second = first then (first, s)
                             else let (r, s') = random (second - first) s in (r + first, s'));
          (mp, ps, bnd') = add_outer (m_piece_map s) (m_pieces s @ [no_piece]) bnd
                             index new_index prio
      in s'\<lparr>m_piece_map := mp, m_pieces := ps, m_priority_boundaries := bnd'\<rparr>)"

text \<open>The inner \<open>do ... while\<close> of \<open>remove\<close>.\<close>

function remove_inner :: "nat list \<Rightarrow> nat \<Rightarrow> nat \<Rightarrow> nat list \<times> nat \<times> nat" where
  "remove_inner bnd next_index prio =
     (let temp = bnd ! prio - 1; bnd' = bnd[prio := temp]; prio' = prio + 1
      in if next_index = temp \<and> prio' < length bnd'
         then remove_inner bnd' next_index prio' else (bnd', temp, prio'))"
  by pat_completeness auto
termination
  by (relation "measure (\<lambda>(b, n, p). length b - p)") auto

declare remove_inner.simps [simp del]

lemma remove_inner_progress:
  "remove_inner b n p = (b', t, p') \<Longrightarrow> p < p' \<and> length b' = length b"
proof (induction b n p rule: remove_inner.induct)
  case (1 b n p)
  show ?case
  proof (cases "n = b ! p - 1 \<and> p + 1 < length b")
    case True
    with "1.prems" have "remove_inner (b[p := n]) n (p + 1) = (b', t, p')"
      by (subst (asm) remove_inner.simps) (simp add: Let_def)
    with "1.IH" [OF refl refl refl] True show ?thesis by auto
  next
    case False
    with "1.prems" show ?thesis
      by (auto simp: Let_def remove_inner.simps [of b n p] split: if_splits)
  qed
qed

function remove_outer ::
    "piece_pos list \<Rightarrow> nat list \<Rightarrow> nat list \<Rightarrow> nat \<Rightarrow> nat \<Rightarrow> nat
     \<Rightarrow> piece_pos list \<times> nat list \<times> nat list" where
  "remove_outer mp ps bnd elem_index next_index prio =
     (let (bnd', temp, prio') = remove_inner bnd next_index prio in
      if next_index = temp then (mp, ps, bnd')
      else
        let piece = ps ! temp;
            ps' = ps[elem_index := piece];
            mp' = set_index mp piece elem_index
        in if prio' \<ge> length bnd' then (mp', ps', bnd')
           else remove_outer mp' ps' bnd' temp temp prio')"
  by pat_completeness auto
termination
  by (relation "measure (\<lambda>(mp, ps, b, e, n, p). length b - p)")
     (auto dest!: sym [of "(_, _, _)" "remove_inner _ _ _"] remove_inner_progress)

declare remove_outer.simps [simp del]

definition picker_remove :: "nat \<Rightarrow> nat \<Rightarrow> picker \<Rightarrow> picker" where
  "picker_remove prio elem_index s =
     (let (mp, ps, bnd) = remove_outer (m_piece_map s) (m_pieces s) (m_priority_boundaries s)
                            elem_index elem_index prio
      in s\<lparr>m_piece_map := mp, m_pieces := butlast ps, m_priority_boundaries := bnd\<rparr>)"

definition picker_shuffle :: "nat \<Rightarrow> nat \<Rightarrow> picker \<Rightarrow> picker" where
  "picker_shuffle prio elem_index s =
     (let (first, second) = priority_range (m_priority_boundaries s) prio;
          (r, s') = random (second - first - 1) s;
          other_index = r + first
      in if other_index = elem_index then s'
         else
           let i1 = m_pieces s' ! other_index;
               i2 = m_pieces s' ! elem_index;
               x1 = pp_index (m_piece_map s' ! i1);
               x2 = pp_index (m_piece_map s' ! i2)
           in s'\<lparr>m_piece_map := (m_piece_map s')[i1 := (m_piece_map s' ! i1)\<lparr>pp_index := x2\<rparr>,
                                               i2 := (m_piece_map s' ! i2)\<lparr>pp_index := x1\<rparr>],
                 m_pieces := vec_swap (m_pieces s') other_index elem_index\<rparr>)"

text \<open>
  The two loops of \<open>update\<close>: the piece moves towards the front when its priority value
  drops and towards the back when it grows, one bucket per iteration.
\<close>

fun update_down ::
    "piece_pos list \<Rightarrow> nat list \<Rightarrow> nat list \<Rightarrow> nat \<Rightarrow> nat \<Rightarrow> nat \<Rightarrow> nat
     \<Rightarrow> piece_pos list \<times> nat list \<times> nat list \<times> nat" where
  "update_down mp ps bnd elem_index temp 0 new_prio = (mp, ps, bnd, elem_index)"
| "update_down mp ps bnd elem_index temp (Suc prio) new_prio =
     (let new_index = bnd ! prio;
          bnd' = bnd[prio := new_index + 1];
          (temp', mp', ps') =
            (if temp \<noteq> ps ! new_index
             then (ps ! new_index, set_index mp (ps ! new_index) elem_index,
                   ps[elem_index := ps ! new_index])
             else (temp, mp, ps))
      in if prio = new_prio then (mp', ps', bnd', new_index)
         else update_down mp' ps' bnd' new_index temp' prio new_prio)"

declare update_down.simps [simp del]

function update_up ::
    "piece_pos list \<Rightarrow> nat list \<Rightarrow> nat list \<Rightarrow> nat \<Rightarrow> nat \<Rightarrow> nat \<Rightarrow> nat
     \<Rightarrow> piece_pos list \<times> nat list \<times> nat list \<times> nat" where
  "update_up mp ps bnd elem_index temp prio new_prio =
     (let new_index = bnd ! prio - 1;
          bnd' = bnd[prio := new_index];
          (temp', mp', ps') =
            (if temp \<noteq> ps ! new_index
             then (ps ! new_index, set_index mp (ps ! new_index) elem_index,
                   ps[elem_index := ps ! new_index])
             else (temp, mp, ps));
          prio' = prio + 1
      in if prio' \<ge> new_prio then (mp', ps', bnd', new_index)
         else update_up mp' ps' bnd' new_index temp' prio' new_prio)"
  by pat_completeness auto
termination
  by (relation "measure (\<lambda>(mp, ps, b, e, t, p, n). n - p)") auto

declare update_up.simps [simp del]

definition picker_update :: "nat \<Rightarrow> nat \<Rightarrow> picker \<Rightarrow> picker" where
  "picker_update prio elem_index s =
     (let index = m_pieces s ! elem_index;
          new_priority = priority_of s index
      in if new_priority = int prio then s
         else if new_priority = -1 then picker_remove prio elem_index s
         else
           let new_prio = nat new_priority;
               bnd = (if length (m_priority_boundaries s) \<le> new_prio
                      then vec_resize (new_prio + 1) (length (m_pieces s)) (m_priority_boundaries s)
                      else m_priority_boundaries s);
               (mp, ps, bnd', elem) =
                 (if prio > new_prio
                  then update_down (m_piece_map s) (m_pieces s) bnd elem_index index prio new_prio
                  else update_up (m_piece_map s) (m_pieces s) bnd elem_index index prio new_prio)
           in picker_shuffle new_prio elem
                (s\<lparr>m_piece_map := set_index mp index elem, m_pieces := ps[elem := index],
                   m_priority_boundaries := bnd'\<rparr>))"

section \<open>The list of buckets behind the pick list\<close>

fun bounds_of :: "nat \<Rightarrow> nat list list \<Rightarrow> nat list" where
  "bounds_of off [] = []"
| "bounds_of off (b # bs) = (off + length b) # bounds_of (off + length b) bs"

lemma length_bounds_of [simp]: "length (bounds_of off bs) = length bs"
  by (induction bs arbitrary: off) auto

lemma bounds_of_append:
  "bounds_of off (xs @ ys) = bounds_of off xs @ bounds_of (off + length (concat xs)) ys"
  by (induction xs arbitrary: off) (auto simp: add.assoc)

lemma bounds_of_shift: "bounds_of (off + k) bs = map (\<lambda>x. x + k) (bounds_of off bs)"
proof (induction bs arbitrary: off)
  case (Cons b bs)
  have "bounds_of ((off + length b) + k) bs = map (\<lambda>x. x + k) (bounds_of (off + length b) bs)"
    by (rule Cons.IH)
  then show ?case by (simp add: ac_simps)
qed simp

lemma bounds_of_Suc: "bounds_of (Suc off) bs = map Suc (bounds_of off bs)"
  using bounds_of_shift [of off 1 bs] by simp

lemma bounds_of_cong: "map length bs = map length bs' \<Longrightarrow> bounds_of off bs = bounds_of off bs'"
proof (induction bs arbitrary: bs' off)
  case (Cons b bs)
  from Cons.prems obtain b' bs'' where bs': "bs' = b' # bs''" and "length b = length b'"
    and "map length bs = map length bs''" by (cases bs') auto
  then show ?case using Cons.IH [of bs'' "off + length b"] by simp
qed simp

lemma length_concat_rotate1 [simp]: "length (concat (map rotate1 bs)) = length (concat bs)"
  by (induction bs) auto

fun indexed :: "piece_pos list \<Rightarrow> nat \<Rightarrow> nat list \<Rightarrow> bool" where
  "indexed mp off [] = True"
| "indexed mp off (x # xs) =
     (x < length mp \<and> pp_index (mp ! x) = Some off \<and> indexed mp (Suc off) xs)"

lemma indexed_append [simp]:
  "indexed mp off (xs @ ys) \<longleftrightarrow> indexed mp off xs \<and> indexed mp (off + length xs) ys"
  by (induction xs arbitrary: off) auto

lemma indexed_nth:
  "indexed mp off xs \<longleftrightarrow>
     (\<forall>j < length xs. xs ! j < length mp \<and> pp_index (mp ! (xs ! j)) = Some (off + j))"
proof (induction xs arbitrary: off)
  case (Cons x xs)
  then show ?case by (auto simp: less_Suc_eq_0_disj)
qed simp

lemma indexed_lt: "indexed mp off xs \<Longrightarrow> x \<in> set xs \<Longrightarrow> x < length mp"
  by (induction xs arbitrary: off) auto

definition strip_index :: "piece_pos list \<Rightarrow> piece_pos list" where
  "strip_index mp = map (\<lambda>p. p\<lparr>pp_index := None\<rparr>) mp"

lemma length_set_index [simp]: "length (set_index mp i k) = length mp"
  by (simp add: set_index_def)

lemma set_index_same: "i < length mp \<Longrightarrow> pp_index (set_index mp i k ! i) = Some k"
  by (simp add: set_index_def)

lemma set_index_other [simp]: "j \<noteq> i \<Longrightarrow> set_index mp i k ! j = mp ! j"
  by (simp add: set_index_def)

lemma strip_set_index [simp]: "strip_index (set_index mp i k) = strip_index mp"
  by (cases "i < length mp")
     (auto simp: strip_index_def set_index_def list_update_beyond nth_list_update intro!: nth_equalityI)

lemma indexed_set_index [simp]: "c \<notin> set xs \<Longrightarrow> indexed (set_index mp c k) off xs = indexed mp off xs"
  by (induction xs arbitrary: off) auto

lemma indexed_cong:
  assumes "length mp' = length mp" "\<And>x. x \<in> set xs \<Longrightarrow> mp' ! x = mp ! x"
  shows "indexed mp' off xs = indexed mp off xs"
  using assms(2) by (induction xs arbitrary: off) (auto simp: assms(1))

lemma strip_length: "strip_index mp = strip_index mp' \<Longrightarrow> length mp = length mp'"
  by (metis length_map strip_index_def)

subsection \<open>add\<close>

lemma add_inner_empty:
  "bs \<noteq> [] \<Longrightarrow> add_inner (bpre @ bounds_of n ([] # bs)) n (length bpre)
     = add_inner ((bpre @ [Suc n]) @ bounds_of n bs) n (length (bpre @ [Suc n]))"
  by (subst add_inner.simps) (simp add: Let_def)

lemma add_inner_last:
  "add_inner (bpre @ bounds_of n [[]]) n (length bpre) = (bpre @ [Suc n], n, Suc (length bpre))"
  by (subst add_inner.simps) (simp add: Let_def)

lemma add_inner_nonempty:
  "add_inner (bpre @ bounds_of n ((y # ys) # bs)) n (length bpre)
     = ((bpre @ [Suc (n + length (y # ys))]) @ bounds_of (n + length (y # ys)) bs,
        n + length (y # ys), length (bpre @ [Suc (n + length (y # ys))]))"
  by (subst add_inner.simps) (simp add: Let_def)

lemma add_outer_empty:
  assumes "bs \<noteq> []"
  shows "add_outer mp ps (bpre @ bounds_of n ([] # bs)) c n (length bpre)
       = add_outer mp ps ((bpre @ [Suc n]) @ bounds_of n bs) c n (length (bpre @ [Suc n]))"
  by (subst (1 2) add_outer.simps) (simp only: add_inner_empty [OF assms])

lemma add_outer_spec:
  assumes "bs \<noteq> []" "ps = pre @ concat bs @ [no_piece]" "n = length pre"
    and "distinct (c # concat bs)" "c < length mp" "indexed mp n (concat bs)"
    and "length mp \<le> no_piece"
  shows "\<exists>mp'. add_outer mp ps (bpre @ bounds_of n bs) c n (length bpre)
          = (mp', pre @ c # concat (map rotate1 bs), bpre @ map Suc (bounds_of n bs))
        \<and> indexed mp' n (c # concat (map rotate1 bs)) \<and> strip_index mp' = strip_index mp
        \<and> (\<forall>i. i \<notin> set (c # concat bs) \<longrightarrow> mp' ! i = mp ! i)"
  using assms
proof (induction bs arbitrary: mp ps pre n c bpre)
  case (Cons b bs)
  show ?case
  proof (cases b)
    case Nil
    show ?thesis
    proof (cases "bs = []")
      case True
      with Nil Cons.prems show ?thesis
        by (subst add_outer.simps)
           (auto simp: add_inner_last [simplified] nth_append set_index_same
              intro!: exI [of _ "set_index mp c n"])
    next
      case False
      from Cons.IH [OF False, of ps pre n c mp "bpre @ [Suc n]"] Nil False Cons.prems
      show ?thesis by (simp add: add_outer_empty [OF False, simplified])
    qed
  next
    case (Cons y ys)
    let ?mp = "set_index mp c n" and ?pre = "pre @ c # ys" and ?n = "n + length (y # ys)"
    let ?bpre = "bpre @ [Suc ?n]"
    have ps': "ps[n := c] = ?pre @ concat bs @ [no_piece]"
      using Cons.prems \<open>b = y # ys\<close> by simp
    have y: "ps ! n = y" "y \<noteq> no_piece" "y < length mp"
      using Cons.prems \<open>b = y # ys\<close> by (auto simp: nth_append)
    show ?thesis
    proof (cases "bs = []")
      case True
      then show ?thesis
        using Cons.prems \<open>b = y # ys\<close> y
        apply (subst add_outer.simps)
        apply (auto simp: add_inner_nonempty [where bs="[]", simplified] nth_append set_index_same
              list_update_append intro!: exI [of _ "set_index (set_index mp c n) y ?n"])
        done
    next
      case False
      have ix: "indexed ?mp ?n (concat bs)" using Cons.prems \<open>b = y # ys\<close> by auto
      have "\<exists>mp'. add_outer ?mp (ps[n := c]) (?bpre @ bounds_of ?n bs) y ?n (length ?bpre)
          = (mp', ?pre @ y # concat (map rotate1 bs), ?bpre @ map Suc (bounds_of ?n bs))
        \<and> indexed mp' ?n (y # concat (map rotate1 bs)) \<and> strip_index mp' = strip_index ?mp
        \<and> (\<forall>i. i \<notin> set (y # concat bs) \<longrightarrow> mp' ! i = ?mp ! i)"
        by (rule Cons.IH [OF False ps']) (use Cons.prems \<open>b = y # ys\<close> y ix in auto)
      then obtain mp' where mp': "add_outer ?mp (ps[n := c]) (?bpre @ bounds_of ?n bs) y ?n (length ?bpre)
          = (mp', ?pre @ y # concat (map rotate1 bs), ?bpre @ map Suc (bounds_of ?n bs))"
        and ix': "indexed mp' ?n (y # concat (map rotate1 bs))" and st: "strip_index mp' = strip_index ?mp"
        and fr: "\<And>i. i \<notin> set (y # concat bs) \<Longrightarrow> mp' ! i = ?mp ! i" by blast
      have "add_outer mp ps (bpre @ bounds_of n (b # bs)) c n (length bpre) =
        add_outer ?mp (ps[n := c]) (?bpre @ bounds_of ?n bs) y ?n (length ?bpre)"
        using False by (subst add_outer.simps)
          (simp only: add_inner_nonempty \<open>b = y # ys\<close> Let_def y prod.case, simp)
      moreover have "indexed mp' n (c # ys)"
      proof -
        have "mp' ! x = ?mp ! x" if "x \<in> set (c # ys)" for x
          using that Cons.prems \<open>b = y # ys\<close> by (intro fr) auto
        then show ?thesis using strip_length [OF st] Cons.prems \<open>b = y # ys\<close>
          by (subst indexed_cong [of _ ?mp]) (auto simp: set_index_same)
      qed
      ultimately show ?thesis using mp' ix' st fr \<open>b = y # ys\<close> by auto
    qed
  qed
qed simp

subsection \<open>remove\<close>

definition rotr :: "'a list \<Rightarrow> 'a list" where
  "rotr b = (if b = [] then [] else last b # butlast b)"

lemma rotr_Nil [simp]: "rotr [] = []" and rotr_snoc [simp]: "rotr (b @ [x]) = x # b"
  by (simp_all add: rotr_def)

lemma length_rotr [simp]: "length (rotr b) = length b"
  by (cases b rule: rev_cases) auto

lemma set_rotr [simp]: "set (rotr b) = set b"
  by (cases b rule: rev_cases) auto

lemma distinct_rotr [simp]: "distinct (rotr b) = distinct b"
  by (cases b rule: rev_cases) auto

lemma remove_inner_empty:
  "bs \<noteq> [] \<Longrightarrow> remove_inner (bpre @ bounds_of (Suc n) ([] # bs)) n (length bpre)
     = remove_inner ((bpre @ [n]) @ bounds_of (Suc n) bs) n (length (bpre @ [n]))"
  by (subst remove_inner.simps) (simp add: Let_def)

lemma remove_inner_last:
  "remove_inner (bpre @ bounds_of (Suc n) [[]]) n (length bpre) = (bpre @ [n], n, Suc (length bpre))"
  by (subst remove_inner.simps) (simp add: Let_def)

lemma remove_inner_nonempty:
  "b \<noteq> [] \<Longrightarrow> remove_inner (bpre @ bounds_of (Suc n) (b # bs)) n (length bpre)
     = ((bpre @ [n + length b]) @ bounds_of (Suc (n + length b)) bs,
        n + length b, length (bpre @ [n + length b]))"
  by (subst remove_inner.simps) (simp add: Let_def)

lemma remove_outer_empty:
  assumes "bs \<noteq> []"
  shows "remove_outer mp ps (bpre @ bounds_of (Suc n) ([] # bs)) e n (length bpre)
       = remove_outer mp ps ((bpre @ [n]) @ bounds_of (Suc n) bs) e n (length (bpre @ [n]))"
  by (subst (1 2) remove_outer.simps) (simp only: remove_inner_empty [OF assms])

lemma remove_outer_spec:
  assumes "bs \<noteq> []" "ps = pre @ h # concat bs" "n = length pre"
    and "distinct (concat bs)" "indexed mp (Suc n) (concat bs)"
  shows "\<exists>mp' h'. remove_outer mp ps (bpre @ bounds_of (Suc n) bs) n n (length bpre)
          = (mp', pre @ concat (map rotr bs) @ [h'], bpre @ bounds_of n bs)
        \<and> indexed mp' n (concat (map rotr bs)) \<and> strip_index mp' = strip_index mp
        \<and> (\<forall>i. i \<notin> set (concat bs) \<longrightarrow> mp' ! i = mp ! i)"
  using assms
proof (induction bs arbitrary: mp ps pre n h bpre)
  case (Cons b bs)
  show ?case
  proof (cases b rule: rev_cases)
    case Nil
    show ?thesis
    proof (cases "bs = []")
      case True
      with Nil Cons.prems show ?thesis
        by (subst remove_outer.simps) (simp add: remove_inner_last [simplified])
    next
      case False
      from Cons.IH [OF False, of ps pre h n mp "bpre @ [n]"] Nil False Cons.prems
      show ?thesis by (simp add: remove_outer_empty [OF False, simplified])
    qed
  next
    case (snoc ys y)
    let ?mp = "set_index mp y n" and ?pre = "pre @ y # ys" and ?n = "n + length b"
    let ?bpre = "bpre @ [?n]"
    have ps': "ps[n := y] = ?pre @ y # concat bs"
      using Cons.prems snoc by simp
    have y: "ps ! ?n = y" "y < length mp" "?n \<noteq> n"
      using Cons.prems snoc by (auto simp: nth_append)
    have step: "remove_outer mp ps (bpre @ bounds_of (Suc n) (b # bs)) n n (length bpre) =
        (if bs = [] then (?mp, ps[n := y], ?bpre)
         else remove_outer ?mp (ps[n := y]) (?bpre @ bounds_of (Suc ?n) bs) ?n ?n (length ?bpre))"
    proof -
      have bne: "b \<noteq> []" using snoc by simp
      show ?thesis using y
        by (subst remove_outer.simps)
           (simp only: remove_inner_nonempty [OF bne] prod.case Let_def, auto)
    qed
    have b_ix: "indexed ?mp n (y # ys)" using Cons.prems snoc y by (auto simp: set_index_same)
    show ?thesis
    proof (cases "bs = []")
      case True
      then show ?thesis unfolding step using Cons.prems snoc y ps' b_ix
        by (auto intro!: exI [of _ ?mp])
    next
      case False
      have "\<exists>mp' h'. remove_outer ?mp (ps[n := y]) (?bpre @ bounds_of (Suc ?n) bs) ?n ?n (length ?bpre)
          = (mp', ?pre @ concat (map rotr bs) @ [h'], ?bpre @ bounds_of ?n bs)
        \<and> indexed mp' ?n (concat (map rotr bs)) \<and> strip_index mp' = strip_index ?mp
        \<and> (\<forall>i. i \<notin> set (concat bs) \<longrightarrow> mp' ! i = ?mp ! i)"
        by (rule Cons.IH [OF False ps']) (use Cons.prems snoc y in auto)
      then obtain mp' h' where mp': "remove_outer ?mp (ps[n := y]) (?bpre @ bounds_of (Suc ?n) bs) ?n ?n (length ?bpre)
          = (mp', ?pre @ concat (map rotr bs) @ [h'], ?bpre @ bounds_of ?n bs)"
        and ix': "indexed mp' ?n (concat (map rotr bs))" and st: "strip_index mp' = strip_index ?mp"
        and fr: "\<And>i. i \<notin> set (concat bs) \<Longrightarrow> mp' ! i = ?mp ! i" by blast
      have "mp' ! x = ?mp ! x" if "x \<in> set (y # ys)" for x
        using that Cons.prems snoc by (intro fr) auto
      with b_ix have "indexed mp' n (y # ys)"
        using strip_length [OF st] by (subst indexed_cong [of _ ?mp]) auto
      then show ?thesis unfolding step using False mp' ix' st fr snoc by auto
    qed
  qed
qed simp

subsection \<open>update\<close>

lemma update_up_spec:
  assumes "ps = pre @ h # v @ concat bs @ rest" "n = length pre"
    and "distinct (h # v @ concat bs)" "indexed mp (Suc n) (v @ concat bs)"
  shows "\<exists>mp' ps'. update_up mp ps (bpre @ bounds_of (Suc n) (v # bs) @ brest) n h
              (length bpre) (length bpre + Suc (length bs))
          = (mp', ps', bpre @ bounds_of n (v # bs) @ brest, n + length (concat (v # bs)))
        \<and> (\<forall>x. ps'[n + length (concat (v # bs)) := x] = pre @ concat (map rotr (v # bs)) @ x # rest)
        \<and> indexed mp' n (concat (map rotr (v # bs))) \<and> strip_index mp' = strip_index mp
        \<and> (\<forall>i. i \<notin> set (v @ concat bs) \<longrightarrow> mp' ! i = mp ! i)"
  using assms
proof (induction bs arbitrary: mp ps pre n h v bpre)
  case Nil
  show ?case
  proof (cases v rule: rev_cases)
    case Nil
    with Nil.prems show ?thesis
      by (subst update_up.simps) (auto simp: Let_def nth_append)
  next
    case (snoc ys y)
    with Nil.prems show ?thesis
      by (subst update_up.simps)
         (auto simp: Let_def nth_append list_update_append set_index_same
           intro!: exI [of _ "set_index mp y n"])
  qed
next
  case (Cons b bs)
  define h' where "h' = (if v = [] then h else last v)"
  define mp1 where "mp1 = (if v = [] then mp else set_index mp (last v) n)"
  let ?pre = "pre @ rotr v" and ?n = "n + length v" and ?ps = "(pre @ rotr v) @ h' # b @ concat bs @ rest"
  let ?bpre = "bpre @ [?n]"
  have step: "update_up mp ps (bpre @ bounds_of (Suc n) (v # b # bs) @ brest) n h (length bpre)
      (length bpre + Suc (length (b # bs)))
    = update_up mp1 ?ps (?bpre @ bounds_of (Suc ?n) (b # bs) @ brest) ?n h'
        (length ?bpre) (length ?bpre + Suc (length bs))"
  proof (cases v rule: rev_cases)
    case Nil
    then show ?thesis unfolding h'_def mp1_def using Cons.prems
      by (subst update_up.simps) (simp add: Let_def nth_append)
  next
    case (snoc ys y)
    then show ?thesis unfolding h'_def mp1_def using Cons.prems
      by (subst update_up.simps) (auto simp: Let_def nth_append list_update_append)
  qed
  have d: "distinct (h' # b @ concat bs)"
    using Cons.prems by (cases v rule: rev_cases) (auto simp: h'_def)
  have ix1: "indexed mp1 n (rotr v)" and ix2: "indexed mp1 (Suc ?n) (b @ concat bs)"
    using Cons.prems by (cases v rule: rev_cases; auto simp: mp1_def set_index_same)+
  have len1: "length mp1 = length mp" and st1: "strip_index mp1 = strip_index mp"
    by (simp_all add: mp1_def)
  from Cons.IH [of ?ps ?pre h' b ?n mp1 ?bpre] d ix2 Cons.prems obtain mp' ps' where
     eq: "update_up mp1 ?ps (?bpre @ bounds_of (Suc ?n) (b # bs) @ brest) ?n h'
        (length ?bpre) (length ?bpre + Suc (length bs))
        = (mp', ps', ?bpre @ bounds_of ?n (b # bs) @ brest, ?n + length (concat (b # bs)))"
     and ps': "\<And>x. ps'[?n + length (concat (b # bs)) := x] = ?pre @ concat (map rotr (b # bs)) @ x # rest"
     and ix: "indexed mp' ?n (concat (map rotr (b # bs)))" and st: "strip_index mp' = strip_index mp1"
     and fr: "\<And>i. i \<notin> set (b @ concat bs) \<Longrightarrow> mp' ! i = mp1 ! i"
    by auto
  have "mp' ! x = mp1 ! x" if "x \<in> set v" for x
    using that Cons.prems by (intro fr) auto
  with ix1 have "indexed mp' n (rotr v)"
    using strip_length [OF st] by (subst indexed_cong [of _ mp1]) auto
  moreover have "mp' ! i = mp ! i" if "i \<notin> set (v @ concat (b # bs))" for i
    using that fr [of i] by (cases v rule: rev_cases) (auto simp: mp1_def)
  ultimately show ?case unfolding step eq using ps' ix st st1
    by (auto simp: add.assoc)
qed

lemma update_down_spec:
  assumes "ps = pre @ concat bs @ u @ h # rest" "n = length pre"
    and "distinct (concat bs @ u @ [h])" "indexed mp n (concat bs @ u)"
  shows "\<exists>mp' ps'. update_down mp ps (bpre @ n # bounds_of n bs @ brest) (n + length (concat bs) + length u) h
              (length bpre + Suc (length bs)) (length bpre)
          = (mp', ps', bpre @ Suc n # map Suc (bounds_of n bs) @ brest, n)
        \<and> (\<forall>x. ps'[n := x] = pre @ x # concat (map rotate1 bs) @ rotate1 u @ rest)
        \<and> indexed mp' (Suc n) (concat (map rotate1 bs) @ rotate1 u) \<and> strip_index mp' = strip_index mp
        \<and> (\<forall>i. i \<notin> set (concat bs @ u) \<longrightarrow> mp' ! i = mp ! i)"
  using assms
proof (induction bs arbitrary: mp ps u h rest brest rule: rev_induct)
  case Nil
  then show ?case
    by (cases u) (auto simp: update_down.simps Let_def nth_append list_update_append set_index_same
           intro!: exI [of _ "set_index mp (hd u) (n + length u)"])
next
  case (snoc b bs)
  define h' where "h' = (if u = [] then h else hd u)"
  define mp1 where "mp1 = (if u = [] then mp else set_index mp (hd u) (n + length (concat (bs @ [b])) + length u))"
  let ?m = "n + length (concat (bs @ [b]))"
  let ?ps = "pre @ concat bs @ b @ h' # rotate1 u @ rest"
  have step: "update_down mp ps (bpre @ n # bounds_of n (bs @ [b]) @ brest) (?m + length u) h
      (length bpre + Suc (length (bs @ [b]))) (length bpre)
    = update_down mp1 ?ps (bpre @ n # bounds_of n bs @ Suc ?m # brest) (n + length (concat bs) + length b) h'
      (length bpre + Suc (length bs)) (length bpre)"
  proof -
    have q: "(bpre @ n # bounds_of n (bs @ [b]) @ brest) ! (length bpre + Suc (length bs)) = ?m"
      by (simp add: bounds_of_append nth_append)
    have upd: "(bpre @ n # bounds_of n (bs @ [b]) @ brest)[length bpre + Suc (length bs) := Suc ?m]
      = bpre @ n # bounds_of n bs @ Suc ?m # brest"
      by (simp add: bounds_of_append list_update_append)
    have "ps ! ?m = (if u = [] then h else hd u)"
      using snoc.prems by (cases u) (auto simp: nth_append)
    moreover have "ps[?m + length u := hd u] = ?ps" if "u \<noteq> []"
      using snoc.prems that by (cases u) (auto simp: h'_def list_update_append)
    moreover have "h \<noteq> hd u" if "u \<noteq> []" using snoc.prems that by (cases u) auto
    moreover have "?ps = ps" if "u = []" using snoc.prems that by (simp add: h'_def)
    moreover have eqS: "length bpre + Suc (length (bs @ [b])) = Suc (length bpre + Suc (length bs))"
      by simp
    ultimately show ?thesis
      unfolding eqS update_down.simps(2) Let_def q Suc_eq_plus1 [symmetric] upd
      by (cases "u = []") (simp_all add: h'_def mp1_def add.assoc)
  qed
  have d: "distinct (concat bs @ b @ [h'])"
    using snoc.prems by (cases u) (auto simp: h'_def)
  have ix1: "indexed mp1 (Suc ?m) (rotate1 u)" and ix2: "indexed mp1 n (concat bs @ b)"
    using snoc.prems by (cases u; auto simp: mp1_def set_index_same ac_simps)+
  have len1: "length mp1 = length mp" and st1: "strip_index mp1 = strip_index mp"
    by (simp_all add: mp1_def)
  from snoc.IH [of ?ps b h' "rotate1 u @ rest" mp1 "Suc ?m # brest"] d ix2 snoc.prems obtain mp' ps' where
     eq: "update_down mp1 ?ps (bpre @ n # bounds_of n bs @ Suc ?m # brest) (n + length (concat bs) + length b) h'
      (length bpre + Suc (length bs)) (length bpre)
        = (mp', ps', bpre @ Suc n # map Suc (bounds_of n bs) @ Suc ?m # brest, n)"
     and ps': "\<And>x. ps'[n := x] = pre @ x # concat (map rotate1 bs) @ rotate1 b @ rotate1 u @ rest"
     and ix: "indexed mp' (Suc n) (concat (map rotate1 bs) @ rotate1 b)" and st: "strip_index mp' = strip_index mp1"
     and fr: "\<And>i. i \<notin> set (concat bs @ b) \<Longrightarrow> mp' ! i = mp1 ! i"
    by auto
  have "mp' ! x = mp1 ! x" if "x \<in> set u" for x
    using that snoc.prems by (intro fr) auto
  with ix1 have "indexed mp' (Suc ?m) (rotate1 u)"
    using strip_length [OF st] by (subst indexed_cong [of _ mp1]) auto
  moreover have "mp' ! i = mp ! i" if "i \<notin> set (concat (bs @ [b]) @ u)" for i
    using that fr [of i] by (cases u) (auto simp: mp1_def)
  ultimately show ?case unfolding step eq using ps' ix st st1
    by (auto simp: bounds_of_append add.assoc)
qed

end
