(* ===== verification/Picker_Order.thy ===== *)
theory Picker_Order
  imports Picker_Buckets
begin

text \<open>
  The representation invariant of the pick list: \<open>m_pieces\<close> is the concatenation of one
  bucket per priority, \<open>m_priority_boundaries\<close> are the ends of the buckets and
  \<open>m_piece_map[].index\<close> inverts the list. Every operation that moves a piece keeps it.
\<close>

section \<open>The representation invariant of the pick list\<close>

definition buckets_rep ::
    "piece_pos list \<Rightarrow> nat list \<Rightarrow> nat list \<Rightarrow> (nat \<Rightarrow> int) \<Rightarrow> nat list list \<Rightarrow> bool" where
  "buckets_rep mp ps bnd pr bs \<longleftrightarrow>
     bs \<noteq> [] \<and> ps = concat bs \<and> bnd = bounds_of 0 bs \<and> distinct ps \<and> indexed mp 0 ps
     \<and> (\<forall>k < length bs. set (bs ! k) = {i. i < length mp \<and> pr i = int k})
     \<and> (\<forall>i < length mp. pr i < int (length bs))"

lemma bounds_of_replicate: "bounds_of off (replicate k []) = replicate k off"
  by (induction k) auto

lemma concat_replicate_Nil [simp]: "concat (replicate k []) = []"
  by (induction k) auto

lemma set_concat_rotate1 [simp]: "set (concat (map rotate1 bs)) = set (concat bs)"
  by (induction bs) auto

lemma distinct_concat_rotate1 [simp]: "distinct (concat (map rotate1 bs)) = distinct (concat bs)"
  by (induction bs) auto

lemma length_concat_rotr [simp]: "length (concat (map rotr bs)) = length (concat bs)"
  by (induction bs) auto

lemma set_concat_rotr [simp]: "set (concat (map rotr bs)) = set (concat bs)"
  by (induction bs) auto

lemma distinct_concat_rotr [simp]: "distinct (concat (map rotr bs)) = distinct (concat bs)"
  by (induction bs) auto

lemma buckets_rep_resize:
  assumes "buckets_rep mp ps bnd pr bs" "length bnd \<le> m"
  shows "buckets_rep mp ps (vec_resize m (length ps) bnd) pr (bs @ replicate (m - length bs) [])"
proof -
  have "length bnd = length bs" using assms by (auto simp: buckets_rep_def)
  moreover have "{i. i < length mp \<and> pr i = int k} = {}" if "length bs \<le> k" for k
    using assms that by (fastforce simp: buckets_rep_def)
  ultimately show ?thesis using assms
    by (fastforce simp: buckets_rep_def vec_resize_grow bounds_of_append bounds_of_replicate nth_append)
qed

text \<open>A bucket of the list: what is before it, itself and what is after it.\<close>

lemma buckets_rep_split:
  assumes "buckets_rep mp ps bnd pr bs" "p < length bnd"
  obtains bs1 b bs2 where "bs = bs1 @ b # bs2" "length bs1 = p"
    "bnd = bounds_of 0 bs1 @ bounds_of (length (concat bs1)) (b # bs2)"
    "priority_begin bnd p = length (concat bs1)"
    "priority_end bnd p = length (concat bs1) + length b"
proof
  have len: "length bnd = length bs" and bnd: "bnd = bounds_of 0 bs"
    using assms by (auto simp: buckets_rep_def)
  show bs: "bs = take p bs @ bs ! p # drop (Suc p) bs" and l: "length (take p bs) = p"
    using assms(2) len by (simp_all add: id_take_nth_drop [symmetric])
  show b2: "bnd = bounds_of 0 (take p bs) @ bounds_of (length (concat (take p bs))) (bs ! p # drop (Suc p) bs)"
    unfolding bnd by (subst bs) (simp only: bounds_of_append, simp)
  show "priority_end bnd p = length (concat (take p bs)) + length (bs ! p)"
    using l unfolding priority_end_def by (subst b2) (simp add: nth_append)
  have last: "bounds_of 0 xs ! (length xs - 1) = length (concat xs)" if "xs \<noteq> []" for xs
    using that by (induction xs rule: rev_induct) (auto simp: bounds_of_append nth_append)
  show "priority_begin bnd p = length (concat (take p bs))"
  proof (cases "p = 0")
    case False
    with l have "take p bs \<noteq> []" by auto
    with False l last [of "take p bs"] show ?thesis
      unfolding priority_begin_def by (subst b2) (simp add: nth_append)
  qed (simp add: priority_begin_def)
qed

lemma bucket_sets_upd:
  assumes "\<forall>k < length bs. set (bs ! k) = {j. j < n \<and> (pr(i := q)) j = int k}"
    and "length bs' = length bs" "\<And>k. k < length bs \<Longrightarrow> set (bs' ! k) =
      (if pr i = int k then insert i (set (bs ! k) - {i}) else set (bs ! k) - {i})" "i < n"
  shows "\<forall>k < length bs'. set (bs' ! k) = {j. j < n \<and> pr j = int k}"
  using assms by (auto split: if_splits)

lemma bucket_bound_upd:
  fixes pr :: "nat \<Rightarrow> int"
  assumes "\<forall>j < n. (pr(i := q)) j < L" "pr i < L"
  shows "\<forall>j < n. pr j < L"
  using assms by (metis fun_upd_other)

lemma buckets_repD:
  assumes "buckets_rep mp ps bnd pr bs"
  shows "bs \<noteq> []" "ps = concat bs" "bnd = bounds_of 0 bs" "distinct ps" "indexed mp 0 ps"
    "\<forall>k < length bs. set (bs ! k) = {i. i < length mp \<and> pr i = int k}"
    "\<forall>i < length mp. pr i < int (length bs)"
  using assms unfolding buckets_rep_def by blast+

lemma add_outer_rep:
  assumes rep: "buckets_rep mp ps bnd (pr(i := -1)) bs" and p: "pr i = int p" "p < length bnd"
    and i: "i < length mp" and n: "length mp \<le> no_piece"
    and ni: "priority_begin bnd p \<le> ni" "ni \<le> priority_end bnd p"
  shows "\<exists>mp' ps' bnd' bs'. add_outer mp (ps @ [no_piece]) bnd i ni p = (mp', ps', bnd')
     \<and> buckets_rep mp' ps' bnd' pr bs' \<and> strip_index mp' = strip_index mp
     \<and> (\<forall>j. j \<notin> insert i (set ps) \<longrightarrow> mp' ! j = mp ! j)"
proof -
  from rep p(2) obtain bs1 b bs2 where bs: "bs = bs1 @ b # bs2" and l: "length bs1 = p"
    and bnd: "bnd = bounds_of 0 bs1 @ bounds_of (length (concat bs1)) (b # bs2)"
    and be: "priority_begin bnd p = length (concat bs1)"
    and en: "priority_end bnd p = length (concat bs1) + length b"
    by (rule buckets_rep_split)
  define r where "r = ni - length (concat bs1)"
  define u w where "u = take r b" and "w = drop r b"
  have b: "b = u @ w" by (simp add: u_def w_def)
  have nr: "ni = length (concat bs1 @ u)" using ni be en by (auto simp: r_def u_def)
  have sets: "\<forall>k < length bs. set (bs ! k) = {j. j < length mp \<and> (pr(i := -1)) j = int k}"
    and ps: "ps = concat bs" and ix: "indexed mp 0 ps" and d: "distinct ps"
    using rep by (auto simp: buckets_rep_def)
  have i_new: "i \<notin> set (bs ! k)" if "k < length bs" for k using sets that by auto
  then have i_ps: "i \<notin> set ps" unfolding ps by (metis UN_iff in_set_conv_nth set_concat)
  have bnd': "bnd = bounds_of 0 bs1 @ bounds_of ni (w # bs2)"
    using bnd b nr by (simp add: add.assoc)
  let ?bs' = "bs1 @ (u @ i # rotate1 w) # map rotate1 bs2"
  have "\<exists>mp'. add_outer mp (ps @ [no_piece]) (bounds_of 0 bs1 @ bounds_of ni (w # bs2)) i ni (length (bounds_of 0 bs1))
        = (mp', (concat bs1 @ u) @ i # concat (map rotate1 (w # bs2)), bounds_of 0 bs1 @ map Suc (bounds_of ni (w # bs2)))
      \<and> indexed mp' ni (i # concat (map rotate1 (w # bs2))) \<and> strip_index mp' = strip_index mp
      \<and> (\<forall>j. j \<notin> set (i # concat (w # bs2)) \<longrightarrow> mp' ! j = mp ! j)"
    by (rule add_outer_spec) (use i n ix d i_ps in \<open>auto simp: ps bs b nr\<close>)
  then obtain mp' where eq: "add_outer mp (ps @ [no_piece]) bnd i ni p
        = (mp', (concat bs1 @ u) @ i # concat (map rotate1 (w # bs2)), bounds_of 0 bs1 @ map Suc (bounds_of ni (w # bs2)))"
      and ix': "indexed mp' ni (i # concat (map rotate1 (w # bs2)))" and st: "strip_index mp' = strip_index mp"
      and fr: "\<And>j. j \<notin> set (i # concat (w # bs2)) \<Longrightarrow> mp' ! j = mp ! j"
    using bnd' l by auto
  have len: "length mp' = length mp" using strip_length [OF st] .
  have ixu: "indexed mp' 0 (concat bs1 @ u)"
  proof -
    have "mp' ! x = mp ! x" if "x \<in> set (concat bs1 @ u)" for x
      using that d i_ps unfolding ps bs b by (intro fr) auto
    then show ?thesis using ix unfolding ps bs b
      by (subst indexed_cong [OF len]) auto
  qed
  have setr: "set (?bs' ! k) = (if pr i = int k then insert i (set (bs ! k) - {i}) else set (bs ! k) - {i})"
    if "k < length bs" for k
    using that i_new [OF that] p l unfolding bs b
    by (cases "k = p") (auto simp: nth_append nth_Cons split: nat.splits)
  have "\<forall>k < length ?bs'. set (?bs' ! k) = {j. j < length mp \<and> pr j = int k}"
    by (rule bucket_sets_upd [OF sets _ setr i]) (simp_all add: bs)
  moreover have "\<forall>j < length mp. pr j < int (length ?bs')"
    by (rule bucket_bound_upd [of _ pr i]) (use buckets_repD(7) [OF rep] p l in \<open>simp_all add: bs\<close>)
  moreover have "bounds_of 0 ?bs' = bounds_of 0 bs1 @ map Suc (bounds_of ni (w # bs2))"
    by (simp add: bounds_of_append nr add.assoc flip: bounds_of_Suc)
       (rule bounds_of_cong, simp)
  moreover have "distinct (concat ?bs')"
    using d i_ps unfolding ps bs b by auto
  ultimately have "buckets_rep mp' (concat ?bs') (bounds_of 0 ?bs') pr ?bs'"
    using ix' ixu nr len by (auto simp: buckets_rep_def)
  moreover have "mp' ! j = mp ! j" if "j \<notin> insert i (set ps)" for j
    using that by (intro fr) (auto simp: ps bs b)
  moreover have "bounds_of 0 ?bs' = bounds_of 0 bs1 @ map Suc (bounds_of ni (w # bs2))"
    by fact
  ultimately show ?thesis using eq st by (auto intro!: exI [of _ ?bs'])
qed

lemma bucket_position:
  assumes rep: "buckets_rep mp ps bnd pr bs" and i: "i < length mp" "pr i = int p"
  obtains bs1 u v bs2 where "bs = bs1 @ (u @ i # v) # bs2" "length bs1 = p"
    "p < length bnd" "bnd = bounds_of 0 bs1 @ bounds_of (length (concat bs1)) ((u @ i # v) # bs2)"
    "pp_index (mp ! i) = Some (length (concat bs1 @ u))" "ps ! length (concat bs1 @ u) = i"
    "i \<notin> set (concat bs1 @ u @ v @ concat bs2)"
proof -
  have len: "length bnd = length bs" using rep by (auto simp: buckets_rep_def)
  have p: "p < length bnd" using rep i len by (auto simp: buckets_rep_def)
  from rep p obtain bs1 b bs2 where bs: "bs = bs1 @ b # bs2" and l: "length bs1 = p"
    and bnd: "bnd = bounds_of 0 bs1 @ bounds_of (length (concat bs1)) (b # bs2)"
    by (rule buckets_rep_split)
  have "set (bs ! p) = {j. j < length mp \<and> pr j = int p}"
    using rep p len by (auto simp: buckets_rep_def)
  then have "i \<in> set b" using i l bs by (auto simp: nth_append)
  then obtain u v where b: "b = u @ i # v" by (auto simp: in_set_conv_decomp)
  have ps: "ps = concat bs1 @ u @ i # v @ concat bs2"
    using buckets_repD(2) [OF rep] by (simp add: bs b)
  have d: "distinct ps" and ix: "indexed mp 0 ps"
    using buckets_repD [OF rep] by blast+
  have "pp_index (mp ! i) = Some (length (concat bs1 @ u))" using ix unfolding ps by auto
  moreover have "ps ! length (concat bs1 @ u) = i" unfolding ps by (simp add: nth_append)
  moreover have "i \<notin> set (concat bs1 @ u @ v @ concat bs2)" using d unfolding ps by auto
  ultimately show thesis using that bs l bnd b p by blast
qed

lemma remove_outer_rep:
  assumes rep: "buckets_rep (set_index mp i e) ps bnd (pr(i := int p)) bs" and p: "pr i = -1"
    and i: "i < length mp" and e: "ps ! e = i" "e < length ps"
  shows "\<exists>mp' ps' bnd' bs'. remove_outer mp ps bnd e e p = (mp', ps', bnd')
     \<and> buckets_rep mp' (butlast ps') bnd' pr bs' \<and> strip_index mp' = strip_index mp
     \<and> (\<forall>j. j \<notin> set ps - {i} \<longrightarrow> mp' ! j = mp ! j)"
proof -
  let ?mp = "set_index mp i e"
  obtain bs1 u v bs2 where bs: "bs = bs1 @ (u @ i # v) # bs2" and l: "length bs1 = p"
    and "p < length bnd" and bnd: "bnd = bounds_of 0 bs1 @ bounds_of (length (concat bs1)) ((u @ i # v) # bs2)"
    and pos: "pp_index (?mp ! i) = Some (length (concat bs1 @ u))" "ps ! length (concat bs1 @ u) = i"
    and i_not: "i \<notin> set (concat bs1 @ u @ v @ concat bs2)"
    by (rule bucket_position [OF rep]) (use i in auto)
  have e': "e = length (concat bs1 @ u)" using pos i by (simp add: set_index_same)
  have sets: "\<forall>k < length bs. set (bs ! k) = {j. j < length mp \<and> (pr(i := int p)) j = int k}"
    and ix: "indexed ?mp 0 ps" and d: "distinct ps"
    using buckets_repD [OF rep] by simp_all
  have ps: "ps = concat bs1 @ u @ i # concat (v # bs2)"
    using buckets_repD(2) [OF rep] by (simp add: bs)
  have ix1: "indexed mp 0 (concat bs1 @ u)" and ix2: "indexed mp (Suc e) (concat (v # bs2))"
    using ix i_not unfolding ps e' by auto
  let ?bs' = "bs1 @ (u @ rotr v) # map rotr bs2"
  have b': "bnd = bounds_of 0 bs1 @ bounds_of (Suc e) (v # bs2)"
    unfolding bnd e' by (simp add: add.assoc)
  have "\<exists>mp' h'. remove_outer mp ps (bounds_of 0 bs1 @ bounds_of (Suc e) (v # bs2)) e e (length (bounds_of 0 bs1))
       = (mp', (concat bs1 @ u) @ concat (map rotr (v # bs2)) @ [h'], bounds_of 0 bs1 @ bounds_of e (v # bs2))
     \<and> indexed mp' e (concat (map rotr (v # bs2))) \<and> strip_index mp' = strip_index mp
     \<and> (\<forall>j. j \<notin> set (concat (v # bs2)) \<longrightarrow> mp' ! j = mp ! j)"
    by (rule remove_outer_spec) (use ix2 d in \<open>auto simp: ps e'\<close>)
  then obtain mp' h' where eq: "remove_outer mp ps bnd e e p
       = (mp', (concat bs1 @ u) @ concat (map rotr (v # bs2)) @ [h'], bounds_of 0 bs1 @ bounds_of e (v # bs2))"
    and ix': "indexed mp' e (concat (map rotr (v # bs2)))" and st: "strip_index mp' = strip_index mp"
    and fr: "\<And>j. j \<notin> set (concat (v # bs2)) \<Longrightarrow> mp' ! j = mp ! j"
    using b' l by auto
  have len: "length mp' = length mp" using strip_length [OF st] .
  have ixu: "indexed mp' 0 (concat bs1 @ u)"
  proof -
    have "mp' ! x = mp ! x" if "x \<in> set (concat bs1 @ u)" for x
      using that d unfolding ps by (intro fr) auto
    then show ?thesis using ix1 by (subst indexed_cong [OF len]) auto
  qed
  have setr: "set (?bs' ! k) = (if pr i = int k then insert i (set (bs ! k) - {i}) else set (bs ! k) - {i})"
    if "k < length bs" for k
    using that i_not p l unfolding bs
    by (cases "k = p") (auto simp: nth_append nth_Cons split: nat.splits dest: nth_mem)
  have "\<forall>k < length ?bs'. set (?bs' ! k) = {j. j < length mp \<and> pr j = int k}"
    by (rule bucket_sets_upd [OF sets _ setr i]) (simp_all add: bs)
  moreover have "\<forall>j < length mp. pr j < int (length ?bs')"
    by (rule bucket_bound_upd [of _ pr i]) (use buckets_repD(7) [OF rep] p l in \<open>simp_all add: bs\<close>)
  moreover have "bounds_of 0 ?bs' = bounds_of 0 bs1 @ bounds_of e (v # bs2)"
    by (simp add: bounds_of_append e' add.assoc) (rule bounds_of_cong, simp)
  moreover have "distinct (concat ?bs')"
    using d unfolding ps by auto
  ultimately have "buckets_rep mp' (concat ?bs') (bounds_of 0 ?bs') pr ?bs'"
    using ix' ixu e' len by (auto simp: buckets_rep_def)
  moreover have "mp' ! j = mp ! j" if "j \<notin> set ps - {i}" for j
    using that i_not by (intro fr) (auto simp: ps)
  moreover have "bounds_of 0 ?bs' = bounds_of 0 bs1 @ bounds_of e (v # bs2)"
    by fact
  ultimately show ?thesis using eq st by (auto simp: butlast_append intro!: exI [of _ ?bs'])
qed

lemma update_up_rep:
  assumes rep: "buckets_rep mp ps bnd (pr(i := int p)) bs" and q: "pr i = int q" "q < length bnd" "p < q"
    and i: "i < length mp"
  shows "\<exists>mp' ps' bnd' e' bs'. update_up mp ps bnd (the (pp_index (mp ! i))) i p q = (mp', ps', bnd', e')
     \<and> buckets_rep (set_index mp' i e') (ps'[e' := i]) bnd' pr bs' \<and> strip_index mp' = strip_index mp
     \<and> e' < length ps' \<and> (\<forall>j. j \<notin> set ps - {i} \<longrightarrow> mp' ! j = mp ! j)"
proof -
  obtain bs1 u v bsr where bsr: "bs = bs1 @ (u @ i # v) # bsr" and l: "length bs1 = p" and "p < length bnd"
    and bnd: "bnd = bounds_of 0 bs1 @ bounds_of (length (concat bs1)) ((u @ i # v) # bsr)"
    and pos: "pp_index (mp ! i) = Some (length (concat bs1 @ u))" "ps ! length (concat bs1 @ u) = i"
    and i_not: "i \<notin> set (concat bs1 @ u @ v @ concat bsr)"
    by (rule bucket_position [OF rep]) (use i in auto)
  define mid where "mid = take (q - p - 1) bsr"
  have lb: "length bnd = length bs" using buckets_repD(3) [OF rep] by simp
  obtain bq bs3 where "drop (q - p - 1) bsr = bq # bs3"
    using q l lb unfolding bsr by (cases "drop (q - p - 1) bsr") auto
  then have bsr': "bsr = mid @ bq # bs3" by (metis append_take_drop_id mid_def)
  have lm: "length mid = q - p - 1" using q l lb unfolding bsr mid_def by simp
  note bs = bsr [unfolded bsr']
  let ?e = "length (concat bs1 @ u)"
  have ix: "indexed mp 0 ps" and d: "distinct ps" 
    and sets: "\<forall>k < length bs. set (bs ! k) = {j. j < length mp \<and> (pr(i := int p)) j = int k}"
    using buckets_repD [OF rep] by simp_all
  have ps: "ps = (concat bs1 @ u) @ i # v @ concat mid @ concat (bq # bs3)"
    using buckets_repD(2) [OF rep] by (simp add: bs)
  let ?brest = "bounds_of (Suc ?e + length v + length (concat mid)) (bq # bs3)"
  have b': "bnd = bounds_of 0 bs1 @ bounds_of (Suc ?e) (v # mid) @ ?brest"
    unfolding bnd bsr' by (simp add: bounds_of_append add.assoc)
  let ?bs' = "bs1 @ (u @ rotr v) # map rotr mid @ (i # bq) # bs3"
  let ?e' = "?e + length (concat (v # mid))"
  have "\<exists>mp' ps'. update_up mp ps (bounds_of 0 bs1 @ bounds_of (Suc ?e) (v # mid) @ ?brest) ?e i
      (length (bounds_of 0 bs1)) (length (bounds_of 0 bs1) + Suc (length mid))
      = (mp', ps', bounds_of 0 bs1 @ bounds_of ?e (v # mid) @ ?brest, ?e')
    \<and> (\<forall>x. ps'[?e' := x] = (concat bs1 @ u) @ concat (map rotr (v # mid)) @ x # concat (bq # bs3))
    \<and> indexed mp' ?e (concat (map rotr (v # mid))) \<and> strip_index mp' = strip_index mp
    \<and> (\<forall>j. j \<notin> set (v @ concat mid) \<longrightarrow> mp' ! j = mp ! j)"
    by (rule update_up_spec [OF ps]) (use ix d in \<open>auto simp: ps\<close>)
  then obtain mp' ps' where eq: "update_up mp ps bnd ?e i p q
      = (mp', ps', bounds_of 0 bs1 @ bounds_of ?e (v # mid) @ ?brest, ?e')"
    and ps': "\<And>x. ps'[?e' := x] = (concat bs1 @ u) @ concat (map rotr (v # mid)) @ x # concat (bq # bs3)"
    and ix': "indexed mp' ?e (concat (map rotr (v # mid)))" and st: "strip_index mp' = strip_index mp"
    and fr: "\<And>j. j \<notin> set (v @ concat mid) \<Longrightarrow> mp' ! j = mp ! j"
    using b' l lm q by auto
  have len: "length mp' = length mp" using strip_length [OF st] .
  have ixu: "indexed mp' 0 (concat bs1 @ u)" "indexed mp' (Suc ?e') (concat (bq # bs3))"
  proof -
    have "mp' ! x = mp ! x" if "x \<in> set (concat bs1 @ u) \<union> set (concat (bq # bs3))" for x
      using that d unfolding ps by (intro fr) auto
    then show "indexed mp' 0 (concat bs1 @ u)" "indexed mp' (Suc ?e') (concat (bq # bs3))"
      using ix unfolding ps by (subst indexed_cong [OF len]; auto simp: add.assoc)+
  qed
  have setr: "set (?bs' ! k) = (if pr i = int k then insert i (set (bs ! k) - {i}) else set (bs ! k) - {i})"
    if "k < length bs" for k
  proof -
    consider "k < p" | "k = p" | "p < k" "k < q" | "k = q" | "q < k" using q by linarith
    then show ?thesis
    proof cases
      case 3
      then have "k - p - 1 < length mid" using lm by linarith
      then show ?thesis using 3 q i_not l lm unfolding bs bsr'
        by (auto simp: nth_append nth_Cons split: nat.splits dest: nth_mem)
    next
      case 4
      then show ?thesis using q i_not l lm unfolding bs bsr'
        by (auto simp: nth_append nth_Cons split: nat.splits)
    next
      case 5
      then show ?thesis using q i_not l lm that unfolding bs bsr'
        by (auto simp: nth_append nth_Cons split: nat.splits dest: nth_mem)
    qed (use q i_not l lm in \<open>auto simp: bs bsr' nth_append nth_Cons split: nat.splits dest: nth_mem\<close>)
  qed
  have "\<forall>k < length ?bs'. set (?bs' ! k) = {j. j < length mp \<and> pr j = int k}"
    by (rule bucket_sets_upd [OF sets _ setr i]) (simp_all add: bs)
  moreover have "\<forall>j < length mp. pr j < int (length ?bs')"
    by (rule bucket_bound_upd [of _ pr i]) (use buckets_repD(7) [OF rep] q lb in \<open>simp_all add: bs\<close>)
  moreover have bnd': "bounds_of 0 ?bs' = bounds_of 0 bs1 @ bounds_of ?e (v # mid) @ ?brest"
  proof -
    have "bounds_of x (map rotr mid) = bounds_of x mid" for x by (rule bounds_of_cong) simp
    then show ?thesis by (simp add: bounds_of_append add.assoc)
  qed
  moreover have "distinct (concat ?bs')"
    using d unfolding ps by auto
  moreover have "indexed (set_index mp' i ?e') 0 (concat ?bs')"
    using ix' ixu i_not len i unfolding bsr' by (auto simp: set_index_same add.assoc)
  ultimately have "buckets_rep (set_index mp' i ?e') (concat ?bs') (bounds_of 0 ?bs') pr ?bs'"
    using len by (simp add: buckets_rep_def)
  moreover have "mp' ! j = mp ! j" if "j \<notin> set ps - {i}" for j
    using that i_not unfolding bsr' by (intro fr) (auto simp: ps)
  moreover have "?e' < length ps'"
    using arg_cong [OF ps' [of 0], of length] by simp
  ultimately show ?thesis using eq st ps' [of i] bnd' pos
    by (auto intro!: exI [of _ ?bs'])
qed

lemma update_down_rep:
  assumes rep: "buckets_rep mp ps bnd (pr(i := int p)) bs" and q: "pr i = int q" "q < p"
    and i: "i < length mp"
  shows "\<exists>mp' ps' bnd' e' bs'. update_down mp ps bnd (the (pp_index (mp ! i))) i p q = (mp', ps', bnd', e')
     \<and> buckets_rep (set_index mp' i e') (ps'[e' := i]) bnd' pr bs' \<and> strip_index mp' = strip_index mp
     \<and> e' < length ps' \<and> (\<forall>j. j \<notin> set ps - {i} \<longrightarrow> mp' ! j = mp ! j)"
proof -
  obtain bsl u v bs2 where bsl: "bs = bsl @ (u @ i # v) # bs2" and l: "length bsl = p" and "p < length bnd"
    and bnd: "bnd = bounds_of 0 bsl @ bounds_of (length (concat bsl)) ((u @ i # v) # bs2)"
    and pos: "pp_index (mp ! i) = Some (length (concat bsl @ u))" "ps ! length (concat bsl @ u) = i"
    and i_not: "i \<notin> set (concat bsl @ u @ v @ concat bs2)"
    by (rule bucket_position [OF rep]) (use i in auto)
  define bs0 bq mid where "bs0 = take q bsl" and "bq = bsl ! q" and "mid = drop (Suc q) bsl"
  have bsl': "bsl = bs0 @ bq # mid" and lq: "length bs0 = q" and lm: "length mid = p - q - 1"
    using q l by (simp_all add: bs0_def bq_def mid_def id_take_nth_drop [symmetric])
  have lb: "length bnd = length bs" using buckets_repD(3) [OF rep] by simp
  note bs = bsl [unfolded bsl']
  let ?n = "length (concat bs0 @ bq)"
  have ix: "indexed mp 0 ps" and d: "distinct ps" 
    and sets: "\<forall>k < length bs. set (bs ! k) = {j. j < length mp \<and> (pr(i := int p)) j = int k}"
    using buckets_repD [OF rep] by simp_all
  have ps: "ps = (concat bs0 @ bq) @ concat mid @ u @ i # v @ concat bs2"
    using buckets_repD(2) [OF rep] by (simp add: bs)
  let ?brest = "bounds_of (?n + length (concat mid)) ((u @ i # v) # bs2)"
  have b': "bnd = bounds_of 0 bs0 @ ?n # bounds_of ?n mid @ ?brest"
    unfolding bnd bsl' by (simp add: bounds_of_append add.assoc)
  let ?bs' = "bs0 @ (bq @ [i]) # map rotate1 mid @ (rotate1 u @ v) # bs2"
  have "\<exists>mp' ps'. update_down mp ps (bounds_of 0 bs0 @ ?n # bounds_of ?n mid @ ?brest)
      (?n + length (concat mid) + length u) i
      (length (bounds_of 0 bs0) + Suc (length mid)) (length (bounds_of 0 bs0))
      = (mp', ps', bounds_of 0 bs0 @ Suc ?n # map Suc (bounds_of ?n mid) @ ?brest, ?n)
    \<and> (\<forall>x. ps'[?n := x] = (concat bs0 @ bq) @ x # concat (map rotate1 mid) @ rotate1 u @ v @ concat bs2)
    \<and> indexed mp' (Suc ?n) (concat (map rotate1 mid) @ rotate1 u) \<and> strip_index mp' = strip_index mp
    \<and> (\<forall>j. j \<notin> set (concat mid @ u) \<longrightarrow> mp' ! j = mp ! j)"
    by (rule update_down_spec [OF ps]) (use ix d in \<open>auto simp: ps\<close>)
  then obtain mp' ps' where eq: "update_down mp ps bnd (?n + length (concat mid) + length u) i p q
      = (mp', ps', bounds_of 0 bs0 @ Suc ?n # map Suc (bounds_of ?n mid) @ ?brest, ?n)"
    and ps': "\<And>x. ps'[?n := x] = (concat bs0 @ bq) @ x # concat (map rotate1 mid) @ rotate1 u @ v @ concat bs2"
    and ix': "indexed mp' (Suc ?n) (concat (map rotate1 mid) @ rotate1 u)" and st: "strip_index mp' = strip_index mp"
    and fr: "\<And>j. j \<notin> set (concat mid @ u) \<Longrightarrow> mp' ! j = mp ! j"
    using b' lq lm q by auto
  have len: "length mp' = length mp" using strip_length [OF st] .
  have ixu: "indexed mp' 0 (concat bs0 @ bq)"
    "indexed mp' (Suc (?n + length (concat mid) + length u)) (v @ concat bs2)"
  proof -
    have "mp' ! x = mp ! x" if "x \<in> set (concat bs0 @ bq) \<union> set (v @ concat bs2)" for x
      using that d unfolding ps by (intro fr) auto
    then show "indexed mp' 0 (concat bs0 @ bq)"
      "indexed mp' (Suc (?n + length (concat mid) + length u)) (v @ concat bs2)"
      using ix unfolding ps by (subst indexed_cong [OF len]; auto simp: add.assoc)+
  qed
  have setr: "set (?bs' ! k) = (if pr i = int k then insert i (set (bs ! k) - {i}) else set (bs ! k) - {i})"
    if "k < length bs" for k
  proof -
    consider "k < q" | "k = q" | "q < k" "k < p" | "k = p" | "p < k" using q by linarith
    then show ?thesis
    proof cases
      case 3
      then have "k - q - 1 < length mid" using lm by linarith
      then show ?thesis using 3 q i_not lq lm unfolding bs bsl'
        by (auto simp: nth_append nth_Cons split: nat.splits dest: nth_mem)
    next
      case 4
      then show ?thesis using q i_not lq lm unfolding bs bsl'
        by (auto simp: nth_append nth_Cons split: nat.splits)
    next
      case 5
      then show ?thesis using q i_not lq lm that unfolding bs bsl'
        by (auto simp: nth_append nth_Cons split: nat.splits dest: nth_mem)
    qed (use q i_not lq lm in \<open>auto simp: bs bsl' nth_append nth_Cons split: nat.splits dest: nth_mem\<close>)
  qed
  have "\<forall>k < length ?bs'. set (?bs' ! k) = {j. j < length mp \<and> pr j = int k}"
    by (rule bucket_sets_upd [OF sets _ setr i]) (simp_all add: bs)
  moreover have "\<forall>j < length mp. pr j < int (length ?bs')"
    by (rule bucket_bound_upd [of _ pr i]) (use buckets_repD(7) [OF rep] q l lq in \<open>simp_all add: bs\<close>)
  moreover have bnd': "bounds_of 0 ?bs' = bounds_of 0 bs0 @ Suc ?n # map Suc (bounds_of ?n mid) @ ?brest"
  proof -
    have "bounds_of x (map rotate1 mid) = bounds_of x mid" for x by (rule bounds_of_cong) simp
    then show ?thesis by (simp add: bounds_of_append add.assoc bounds_of_Suc)
  qed
  moreover have "distinct (concat ?bs')"
    using d unfolding ps by auto
  moreover have "indexed (set_index mp' i ?n) 0 (concat ?bs')"
    using ix' ixu i_not len i unfolding bsl' by (auto simp: set_index_same add.assoc)
  ultimately have "buckets_rep (set_index mp' i ?n) (concat ?bs') (bounds_of 0 ?bs') pr ?bs'"
    using len by (simp add: buckets_rep_def)
  moreover have "mp' ! j = mp ! j" if "j \<notin> set ps - {i}" for j
    using that i_not unfolding bsl' by (intro fr) (auto simp: ps)
  moreover have "?n < length ps'"
    using arg_cong [OF ps' [of 0], of length] by simp
  moreover have "the (pp_index (mp ! i)) = ?n + length (concat mid) + length u"
    using pos by (simp add: bsl' add.assoc)
  ultimately show ?thesis using eq st ps' [of i] bnd'
    by (auto intro!: exI [of _ ?bs'])
qed

section \<open>The operations on the picker\<close>

definition pick_list_for :: "(nat \<Rightarrow> int) \<Rightarrow> picker \<Rightarrow> bool" where
  "pick_list_for pr s \<longleftrightarrow>
     (\<exists>bs. buckets_rep (m_piece_map s) (m_pieces s) (m_priority_boundaries s) pr bs)"

text \<open>
  What the order operations leave alone: everything but \<open>m_pieces\<close>, the boundaries, the
  position of the pieces in the list and the random numbers drawn.
\<close>

definition frozen :: "picker \<Rightarrow> picker" where
  "frozen s = s\<lparr>m_piece_map := [], m_pieces := [], m_priority_boundaries := [], rng_draws := []\<rparr>"

definition reorders :: "picker \<Rightarrow> picker \<Rightarrow> bool" where
  "reorders s s' \<longleftrightarrow>
     frozen s' = frozen s \<and> strip_index (m_piece_map s') = strip_index (m_piece_map s)
     \<and> (\<forall>j < num_pieces s. pos_have (m_piece_map s' ! j) = pos_have (m_piece_map s ! j))"

lemma buckets_rep_cong:
  assumes "\<And>j. j < length mp \<Longrightarrow> pr j = pr' j"
  shows "buckets_rep mp ps bnd pr bs = buckets_rep mp ps bnd pr' bs"
proof -
  have "{i. i < length mp \<and> pr i = int k} = {i. i < length mp \<and> pr' i = int k}" for k
    using assms by auto
  then show ?thesis using assms by (simp add: buckets_rep_def)
qed

lemma pick_list_for_cong:
  "(\<And>j. j < num_pieces s \<Longrightarrow> pr j = pr' j) \<Longrightarrow> pick_list_for pr s = pick_list_for pr' s"
  unfolding pick_list_for_def num_pieces_def by (rule ex_cong1) (rule buckets_rep_cong)

lemma strip_nth:
  assumes "strip_index mp' = strip_index mp" "j < length mp"
  shows "pp_peer_count (mp' ! j) = pp_peer_count (mp ! j)" "pp_state (mp' ! j) = pp_state (mp ! j)"
    "pp_priority (mp' ! j) = pp_priority (mp ! j)"
proof -
  have "length mp' = length mp" using assms(1) by (rule strip_length)
  then have "(mp' ! j)\<lparr>pp_index := None\<rparr> = (mp ! j)\<lparr>pp_index := None\<rparr>"
    using arg_cong [OF assms(1), of "\<lambda>l. l ! j"] assms(2) by (simp add: strip_index_def)
  then show "pp_peer_count (mp' ! j) = pp_peer_count (mp ! j)" "pp_state (mp' ! j) = pp_state (mp ! j)"
    "pp_priority (mp' ! j) = pp_priority (mp ! j)"
    by (cases "mp' ! j"; cases "mp ! j"; simp)+
qed

lemma pos_priority_cong:
  assumes "pp_peer_count p' = pp_peer_count p" "pp_state p' = pp_state p"
    "pp_priority p' = pp_priority p" "pos_have p' = pos_have p"
  shows "pos_priority sd p' = pos_priority sd p"
  using assms by (simp add: pos_priority_def pos_filtered_def pos_reverse_def)

lemma reorders_refl [simp]: "reorders s s"
  by (simp add: reorders_def)

lemma reorders_trans [trans]: "reorders s s' \<Longrightarrow> reorders s' s'' \<Longrightarrow> reorders s s''"
  unfolding reorders_def num_pieces_def by (auto dest: strip_length)

lemma frozen_fields:
  assumes "frozen s' = frozen s"
  shows "m_pads_in_piece s' = m_pads_in_piece s" "m_recent_extents s' = m_recent_extents s"
    "m_num_pad_bytes s' = m_num_pad_bytes s" "m_have_pad_bytes s' = m_have_pad_bytes s"
    "m_filtered_pad_bytes s' = m_filtered_pad_bytes s"
    "m_have_filtered_pad_bytes s' = m_have_filtered_pad_bytes s"
    "m_seeds s' = m_seeds s" "m_num_passed s' = m_num_passed s" "m_downloads s' = m_downloads s"
    "m_block_info s' = m_block_info s" "m_free_block_infos s' = m_free_block_infos s"
    "m_blocks_in_last_piece s' = m_blocks_in_last_piece s" "m_piece_size s' = m_piece_size s"
    "m_total_size s' = m_total_size s" "m_num_filtered s' = m_num_filtered s"
    "m_num_have_filtered s' = m_num_have_filtered s" "m_cursor s' = m_cursor s"
    "m_reverse_cursor s' = m_reverse_cursor s" "m_num_have s' = m_num_have s" "m_dirty s' = m_dirty s"
  using assms [THEN arg_cong, of m_pads_in_piece]
    assms [THEN arg_cong, of m_recent_extents]
    assms [THEN arg_cong, of m_num_pad_bytes]
    assms [THEN arg_cong, of m_have_pad_bytes]
    assms [THEN arg_cong, of m_filtered_pad_bytes]
    assms [THEN arg_cong, of m_have_filtered_pad_bytes]
    assms [THEN arg_cong, of m_seeds]
    assms [THEN arg_cong, of m_num_passed]
    assms [THEN arg_cong, of m_downloads]
    assms [THEN arg_cong, of m_block_info]
    assms [THEN arg_cong, of m_free_block_infos]
    assms [THEN arg_cong, of m_blocks_in_last_piece]
    assms [THEN arg_cong, of m_piece_size]
    assms [THEN arg_cong, of m_total_size]
    assms [THEN arg_cong, of m_num_filtered]
    assms [THEN arg_cong, of m_num_have_filtered]
    assms [THEN arg_cong, of m_cursor]
    assms [THEN arg_cong, of m_reverse_cursor]
    assms [THEN arg_cong, of m_num_have]
    assms [THEN arg_cong, of m_dirty]
  by (simp_all add: frozen_def)

lemma reorders_pos:
  assumes "reorders s s'" "j < num_pieces s"
  shows "pp_peer_count (m_piece_map s' ! j) = pp_peer_count (m_piece_map s ! j)"
    "pp_state (m_piece_map s' ! j) = pp_state (m_piece_map s ! j)"
    "pp_priority (m_piece_map s' ! j) = pp_priority (m_piece_map s ! j)"
    "pos_have (m_piece_map s' ! j) = pos_have (m_piece_map s ! j)"
    "priority_of s' j = priority_of s j"
proof -
  show 1: "pp_peer_count (m_piece_map s' ! j) = pp_peer_count (m_piece_map s ! j)"
    "pp_state (m_piece_map s' ! j) = pp_state (m_piece_map s ! j)"
    "pp_priority (m_piece_map s' ! j) = pp_priority (m_piece_map s ! j)"
    "pos_have (m_piece_map s' ! j) = pos_have (m_piece_map s ! j)"
    using assms by (auto simp: reorders_def num_pieces_def dest: strip_nth)
  show "priority_of s' j = priority_of s j"
    unfolding priority_of_def using assms(1) pos_priority_cong [OF 1] frozen_fields(7) [of s' s]
    by (simp add: reorders_def)
qed

lemma reorders_num_pieces: "reorders s s' \<Longrightarrow> num_pieces s' = num_pieces s"
  by (auto simp: reorders_def num_pieces_def dest: strip_length)

lemma reorders_fields:
  assumes "reorders s s'"
  shows "m_seeds s' = m_seeds s" "m_dirty s' = m_dirty s" "m_downloads s' = m_downloads s"
    "m_block_info s' = m_block_info s" "m_free_block_infos s' = m_free_block_infos s"
  using assms frozen_fields [of s' s] by (simp_all add: reorders_def)

text \<open>The list holds no piece we have, so being in the list decides \<open>have()\<close>.\<close>

lemma indexed_not_have: "indexed mp off xs \<Longrightarrow> x \<in> set xs \<Longrightarrow> \<not> pos_have (mp ! x)"
  by (induction xs arbitrary: off) (auto simp: pos_have_def)

lemma reordersI:
  assumes "frozen s' = frozen s" "strip_index (m_piece_map s') = strip_index (m_piece_map s)"
    and "\<And>j. j \<notin> A \<Longrightarrow> m_piece_map s' ! j = m_piece_map s ! j"
    and "\<And>j. j \<in> A \<Longrightarrow> \<not> pos_have (m_piece_map s ! j) \<and> \<not> pos_have (m_piece_map s' ! j)"
  shows "reorders s s'"
  using assms unfolding reorders_def by (metis)

lemma frozen_upd [simp]:
  "frozen (s\<lparr>m_piece_map := mp\<rparr>) = frozen s" "frozen (s\<lparr>m_pieces := ps\<rparr>) = frozen s"
  "frozen (s\<lparr>m_priority_boundaries := b\<rparr>) = frozen s" "frozen (s\<lparr>rng_draws := ds\<rparr>) = frozen s"
  by (simp_all add: frozen_def)

lemma random_le: "random mx s = (r, s') \<Longrightarrow> r \<le> mx"
  by (auto simp: random_def split: if_splits list.splits)

lemma random_frame:
  assumes "random mx s = (r, s')"
  obtains ds where "s' = s\<lparr>rng_draws := ds\<rparr>"
proof
  show "s' = s\<lparr>rng_draws := rng_draws s'\<rparr>"
    using assms by (auto simp: random_def split: if_splits list.splits)
qed

lemma pos_priority_ge:
  assumes "pp_priority p < 8"
  shows "-1 \<le> pos_priority sd p"
proof -
  have "1 \<le> (int (pp_peer_count p) + 1) * (8 - int (pp_priority p))"
    using assms mult_mono [of 1 "int (pp_peer_count p) + 1" 1 "8 - int (pp_priority p)"] by simp
  then show ?thesis by (simp add: pos_priority_def Let_def)
qed

lemma buckets_rep_mem:
  assumes "buckets_rep mp ps bnd pr bs"
  shows "j \<in> set ps \<longleftrightarrow> j < length mp \<and> 0 \<le> pr j"
proof
  assume "j \<in> set ps"
  then obtain k where "k < length bs" "j \<in> set (bs ! k)"
    using buckets_repD(2) [OF assms] by (metis UN_iff in_set_conv_nth set_concat)
  then show "j < length mp \<and> 0 \<le> pr j" using buckets_repD(6) [OF assms] by auto
next
  assume j: "j < length mp \<and> 0 \<le> pr j"
  then have "j \<in> set (bs ! nat (pr j))" "nat (pr j) < length bs"
    using buckets_repD(6,7) [OF assms] by auto
  then show "j \<in> set ps" using buckets_repD(2) [OF assms] by auto
qed

lemma add_ok:
  assumes inv: "pick_list_for ((priority_of s)(i := -1)) s" and i: "i < num_pieces s"
    and n: "num_pieces s \<le> no_piece" and w: "pp_priority (m_piece_map s ! i) < 8"
  shows "pick_list_for (priority_of s) (picker_add i s) \<and> reorders s (picker_add i s)"
proof (cases "priority_of s i < 0")
  case True
  then have "priority_of s i = -1"
    using pos_priority_ge [OF w, of "m_seeds s"] by (simp add: priority_of_def)
  then have "(priority_of s)(i := -1) = priority_of s" by auto
  then show ?thesis using True inv by (simp add: picker_add_def)
next
  case False
  define p where "p = nat (priority_of s i)"
  have pr: "priority_of s i = int p" using False by (simp add: p_def)
  define bnd where "bnd = (if length (m_priority_boundaries s) \<le> p
     then vec_resize (p + 1) (length (m_pieces s)) (m_priority_boundaries s) else m_priority_boundaries s)"
  obtain bs where bs: "buckets_rep (m_piece_map s) (m_pieces s) bnd ((priority_of s)(i := -1)) bs"
    using inv buckets_rep_resize unfolding pick_list_for_def bnd_def by (metis le_SucI Suc_eq_plus1)
  have pl: "p < length bnd" by (auto simp: bnd_def)
  define f l where "f = priority_begin bnd p" and "l = priority_end bnd p"
  have fl: "f \<le> l" using buckets_rep_split [OF bs pl] unfolding f_def l_def by (metis le_add1)
  obtain ni s1 where ni: "(if l = f then (f, s) else let (r, s') = random (l - f) s in (r + f, s')) = (ni, s1)"
    by fastforce
  have "\<exists>ds. s1 = s\<lparr>rng_draws := ds\<rparr>"
    using ni by (auto split: if_splits prod.splits elim!: random_frame intro: exI [of _ "rng_draws s"])
  then obtain ds where s1: "s1 = s\<lparr>rng_draws := ds\<rparr>" ..
  have le: "f \<le> ni" "ni \<le> l"
    using ni fl by (auto split: if_splits prod.splits dest!: random_le)
  obtain mp' ps' bnd' bs' where
    eq: "add_outer (m_piece_map s) (m_pieces s @ [no_piece]) bnd i ni p = (mp', ps', bnd')"
    and rep: "buckets_rep mp' ps' bnd' (priority_of s) bs'"
    and st: "strip_index mp' = strip_index (m_piece_map s)"
    and fr: "\<And>j. j \<notin> insert i (set (m_pieces s)) \<Longrightarrow> mp' ! j = m_piece_map s ! j"
    using add_outer_rep [OF bs pr pl, of ni] i n le unfolding f_def l_def num_pieces_def by blast
  have res: "picker_add i s = s1\<lparr>m_piece_map := mp', m_pieces := ps', m_priority_boundaries := bnd'\<rparr>"
    unfolding picker_add_def Let_def p_def [symmetric] bnd_def [symmetric] priority_range_def
      f_def [symmetric] l_def [symmetric] prod.case
    using False eq ni unfolding Let_def by simp
  have have_eq: "\<not> pos_have (m_piece_map s ! j) \<and> \<not> pos_have (mp' ! j)" if "j \<in> insert i (set (m_pieces s))" for j
  proof -
    have len: "length mp' = length (m_piece_map s)" using strip_length [OF st] .
    have "j \<in> set ps'"
      using that i pr len buckets_rep_mem [OF bs, of j] buckets_rep_mem [OF rep, of j]
      by (auto simp: num_pieces_def split: if_splits)
    moreover have "\<not> pos_have (m_piece_map s ! i)"
      using pr by (auto simp: priority_of_def pos_priority_def split: if_splits)
    ultimately show ?thesis using that indexed_not_have buckets_repD(5) [OF rep] buckets_repD(5) [OF bs] by blast
  qed
  have "reorders s (picker_add i s)"
    by (rule reordersI [of _ _ "insert i (set (m_pieces s))"])
       (use st fr have_eq in \<open>simp_all add: res s1\<close>)
  moreover have "pick_list_for (priority_of s) (picker_add i s)"
    using rep unfolding pick_list_for_def res by auto
  ultimately show ?thesis by simp
qed

lemma remove_ok:
  assumes rep: "buckets_rep (set_index (m_piece_map s) i e) (m_pieces s) (m_priority_boundaries s)
      ((priority_of s)(i := int p)) bs" and i: "i < num_pieces s" and pr: "priority_of s i = -1"
  shows "pick_list_for (priority_of s) (picker_remove p e s) \<and> reorders s (picker_remove p e s)"
proof -
  have i': "i < length (m_piece_map s)" using i by (simp add: num_pieces_def)
  have mem: "i \<in> set (m_pieces s)" using buckets_rep_mem [OF rep, of i] i' by simp
  have ixe: "pp_index (set_index (m_piece_map s) i e ! i) = Some e" using i' by (rule set_index_same)
  obtain j where "j < length (m_pieces s)" "m_pieces s ! j = i" using mem by (auto simp: in_set_conv_nth)
  with ixe buckets_repD(5) [OF rep] have e: "m_pieces s ! e = i" "e < length (m_pieces s)"
    by (auto simp: indexed_nth)
  obtain mp' ps' bnd' bs' where
    eq: "remove_outer (m_piece_map s) (m_pieces s) (m_priority_boundaries s) e e p = (mp', ps', bnd')"
    and rep': "buckets_rep mp' (butlast ps') bnd' (priority_of s) bs'"
    and st: "strip_index mp' = strip_index (m_piece_map s)"
    and fr: "\<And>j. j \<notin> set (m_pieces s) - {i} \<Longrightarrow> mp' ! j = m_piece_map s ! j"
    using remove_outer_rep [OF rep pr i' e] by blast
  have res: "picker_remove p e s
      = s\<lparr>m_piece_map := mp', m_pieces := butlast ps', m_priority_boundaries := bnd'\<rparr>"
    by (simp add: picker_remove_def eq)
  have "\<not> pos_have (m_piece_map s ! j) \<and> \<not> pos_have (mp' ! j)" if j: "j \<in> set (m_pieces s) - {i}" for j
  proof -
    have "\<not> pos_have (set_index (m_piece_map s) i e ! j)"
      using j indexed_not_have [OF buckets_repD(5) [OF rep]] by blast
    moreover have "j \<in> set (butlast ps')"
      using j strip_length [OF st] buckets_rep_mem [OF rep, of j] buckets_rep_mem [OF rep', of j] by auto
    ultimately show ?thesis using j indexed_not_have [OF buckets_repD(5) [OF rep']] by auto
  qed
  then have "reorders s (picker_remove p e s)"
    by (intro reordersI [of _ _ "set (m_pieces s) - {i}"]) (use st fr in \<open>simp_all add: res\<close>)
  moreover have "pick_list_for (priority_of s) (picker_remove p e s)"
    using rep' unfolding pick_list_for_def res by auto
  ultimately show ?thesis by simp
qed

lemma set_vec_swap: "a < length xs \<Longrightarrow> b < length xs \<Longrightarrow> set (vec_swap xs a b) = set xs"
  by (simp add: vec_swap_def)

lemma distinct_vec_swap: "a < length xs \<Longrightarrow> b < length xs \<Longrightarrow> distinct (vec_swap xs a b) = distinct xs"
  by (simp add: vec_swap_def)

lemma vec_swap_append:
  "a < length ys \<Longrightarrow> b < length ys \<Longrightarrow>
   vec_swap (xs @ ys @ zs) (length xs + a) (length xs + b) = xs @ vec_swap ys a b @ zs"
  by (simp add: vec_swap_def list_update_append nth_append)

lemma indexed_swap:
  assumes ix: "indexed mp 0 ps" and d: "distinct ps" and ab: "a < length ps" "b < length ps"
  shows "indexed (mp[ps ! a := (mp ! (ps ! a))\<lparr>pp_index := pp_index (mp ! (ps ! b))\<rparr>,
                     ps ! b := (mp ! (ps ! b))\<lparr>pp_index := pp_index (mp ! (ps ! a))\<rparr>])
           0 (vec_swap ps a b)"
  unfolding indexed_nth
proof (intro allI impI)
  fix j assume j: "j < length (vec_swap ps a b)"
  have inj: "ps ! x = ps ! y \<longleftrightarrow> x = y" if "x < length ps" "y < length ps" for x y
    using d that by (simp add: nth_eq_iff_index_eq)
  have ix': "ps ! x < length mp" "pp_index (mp ! (ps ! x)) = Some x" if "x < length ps" for x
    using ix that by (auto simp: indexed_nth)
  show "vec_swap ps a b ! j < length (mp[ps ! a := (mp ! (ps ! a))\<lparr>pp_index := pp_index (mp ! (ps ! b))\<rparr>,
                     ps ! b := (mp ! (ps ! b))\<lparr>pp_index := pp_index (mp ! (ps ! a))\<rparr>]) \<and>
     pp_index (mp[ps ! a := (mp ! (ps ! a))\<lparr>pp_index := pp_index (mp ! (ps ! b))\<rparr>,
                     ps ! b := (mp ! (ps ! b))\<lparr>pp_index := pp_index (mp ! (ps ! a))\<rparr>] ! (vec_swap ps a b ! j))
       = Some (0 + j)"
    using j ab ix' by (auto simp: vec_swap_def nth_list_update inj)
qed

lemma strip_pp_index_upd:
  "strip_index (mp[i := (mp ! i)\<lparr>pp_index := x\<rparr>]) = strip_index mp"
  by (cases "i < length mp")
     (auto simp: strip_index_def list_update_beyond nth_list_update intro!: nth_equalityI)

lemma shuffle_ok:
  assumes rep: "buckets_rep (m_piece_map s) (m_pieces s) (m_priority_boundaries s) pr bs"
    and p: "p < length (m_priority_boundaries s)"
    and e: "priority_begin (m_priority_boundaries s) p \<le> e" "e < priority_end (m_priority_boundaries s) p"
  shows "pick_list_for pr (picker_shuffle p e s) \<and> reorders s (picker_shuffle p e s)"
proof -
  obtain bs1 b bs2 where bs: "bs = bs1 @ b # bs2" and l: "length bs1 = p"
    and be: "priority_begin (m_priority_boundaries s) p = length (concat bs1)"
    and en: "priority_end (m_priority_boundaries s) p = length (concat bs1) + length b"
    using buckets_rep_split [OF rep p] by metis
  obtain r s1 where r: "random (length (concat bs1) + length b - length (concat bs1) - 1) s = (r, s1)"
    by fastforce
  obtain ds where s1: "s1 = s\<lparr>rng_draws := ds\<rparr>" using r by (rule random_frame)
  have rl: "r < length b" using random_le [OF r] e be en by auto
  define o1 where "o1 = r + length (concat bs1)"
  define a where "a = e - length (concat bs1)"
  have ea: "e = length (concat bs1) + a" "a < length b" using e be en by (auto simp: a_def)
  have ps: "m_pieces s = concat bs1 @ b @ concat bs2" using buckets_repD(2) [OF rep] by (simp add: bs)
  have sw: "vec_swap (m_pieces s) o1 e = concat bs1 @ vec_swap b r a @ concat bs2"
    unfolding ps o1_def ea using vec_swap_append [OF rl ea(2)] by (simp add: add.commute)
  define mp' where "mp' = (m_piece_map s)
     [m_pieces s ! o1 := (m_piece_map s ! (m_pieces s ! o1))\<lparr>pp_index := pp_index (m_piece_map s ! (m_pieces s ! e))\<rparr>,
      m_pieces s ! e := (m_piece_map s ! (m_pieces s ! e))\<lparr>pp_index := pp_index (m_piece_map s ! (m_pieces s ! o1))\<rparr>]"
  have res: "picker_shuffle p e s = (if o1 = e then s1
       else s1\<lparr>m_piece_map := mp', m_pieces := vec_swap (m_pieces s) o1 e\<rparr>)"
    unfolding picker_shuffle_def priority_range_def prod.case be en Let_def r o1_def [symmetric]
    by (simp add: mp'_def s1)
  show ?thesis
  proof (cases "o1 = e")
    case True
    then show ?thesis using rep by (auto simp: res s1 pick_list_for_def reorders_def)
  next
    case False
    have lens: "o1 < length (m_pieces s)" "e < length (m_pieces s)"
      using rl ea by (simp_all add: ps o1_def)
    have d: "distinct (m_pieces s)" and ix: "indexed (m_piece_map s) 0 (m_pieces s)"
      using buckets_repD [OF rep] by simp_all
    have ix': "indexed mp' 0 (vec_swap (m_pieces s) o1 e)"
      unfolding mp'_def by (rule indexed_swap [OF ix d lens])
    have len: "length mp' = length (m_piece_map s)" by (simp add: mp'_def)
    have st: "strip_index mp' = strip_index (m_piece_map s)"
    proof -
      have "m_pieces s ! e \<noteq> m_pieces s ! o1" using d lens False by (simp add: nth_eq_iff_index_eq)
      then show ?thesis unfolding mp'_def
        using strip_pp_index_upd [of "(m_piece_map s)[m_pieces s ! o1 := (m_piece_map s ! (m_pieces s ! o1))\<lparr>pp_index := pp_index (m_piece_map s ! (m_pieces s ! e))\<rparr>]" "m_pieces s ! e"]
        by (simp add: strip_pp_index_upd)
    qed
    let ?bs' = "bs1 @ vec_swap b r a # bs2"
    have "set (?bs' ! k) = set (bs ! k)" if "k < length bs" for k
      using rl ea by (simp add: bs nth_append nth_Cons set_vec_swap split: nat.splits)
    moreover have "bounds_of 0 ?bs' = bounds_of 0 bs"
      by (rule bounds_of_cong) (simp add: bs)
    moreover have "distinct (vec_swap (m_pieces s) o1 e)" using d lens by (simp add: distinct_vec_swap)
    moreover have "vec_swap (m_pieces s) o1 e = concat ?bs'" by (simp add: sw)
    ultimately have "buckets_rep mp' (vec_swap (m_pieces s) o1 e) (m_priority_boundaries s) pr ?bs'"
      using buckets_repD [OF rep] ix' len unfolding buckets_rep_def by (auto simp: bs)
    moreover have "reorders s (picker_shuffle p e s)"
      using False st ix ix' lens indexed_not_have [OF ix] indexed_not_have [OF ix']
      by (intro reordersI [of _ _ "{m_pieces s ! o1, m_pieces s ! e}"])
         (auto simp: res s1 mp'_def [symmetric] set_vec_swap, auto simp: mp'_def)
    ultimately show ?thesis using False by (auto simp: res s1 pick_list_for_def)
  qed
qed

lemma buckets_rep_range:
  assumes rep: "buckets_rep mp ps bnd pr bs" and i: "i < length mp" "pr i = int q"
  obtains e where "pp_index (mp ! i) = Some e" "ps ! e = i" "e < length ps" "q < length bnd"
    "priority_begin bnd q \<le> e" "e < priority_end bnd q"
proof -
  obtain bs1 u v bs2 where bs: "bs = bs1 @ (u @ i # v) # bs2" and l: "length bs1 = q" and q: "q < length bnd"
    and pos: "pp_index (mp ! i) = Some (length (concat bs1 @ u))" "ps ! length (concat bs1 @ u) = i"
    by (rule bucket_position [OF rep i])
  obtain bs1' b' bs2' where bs': "bs = bs1' @ b' # bs2'" and l': "length bs1' = q"
    and be: "priority_begin bnd q = length (concat bs1')"
    and en: "priority_end bnd q = length (concat bs1') + length b'"
    using buckets_rep_split [OF rep q] by metis
  have "bs1' = bs1" "b' = u @ i # v" using bs bs' l l' by auto
  moreover have "ps = concat bs" using buckets_repD(2) [OF rep] .
  ultimately show thesis using that pos q be en bs by simp
qed

lemma update_ok:
  assumes inv: "pick_list_for ((priority_of s)(i := int p)) s" and i: "i < num_pieces s"
    and w: "pp_priority (m_piece_map s ! i) < 8"
  shows "pick_list_for (priority_of s) (picker_update p (the (pp_index (m_piece_map s ! i))) s)
       \<and> reorders s (picker_update p (the (pp_index (m_piece_map s ! i))) s)"
proof -
  have i': "i < length (m_piece_map s)" using i by (simp add: num_pieces_def)
  obtain bs0 where rep0: "buckets_rep (m_piece_map s) (m_pieces s) (m_priority_boundaries s)
      ((priority_of s)(i := int p)) bs0" using inv by (auto simp: pick_list_for_def)
  obtain e where e: "pp_index (m_piece_map s ! i) = Some e" "m_pieces s ! e = i" "e < length (m_pieces s)"
    by (rule buckets_rep_range [OF rep0 i']) auto
  let ?q = "priority_of s i"
  consider (same) "?q = int p" | (gone) "?q = -1" | (moved) "?q \<noteq> int p" "0 \<le> ?q"
    using pos_priority_ge [OF w, of "m_seeds s"] unfolding priority_of_def by linarith
  then show ?thesis
  proof cases
    case same
    then have "(priority_of s)(i := int p) = priority_of s" by auto
    then show ?thesis using inv same e by (simp add: picker_update_def)
  next
    case gone
    have "set_index (m_piece_map s) i e = m_piece_map s"
      unfolding set_index_def using e(1) i' by (intro nth_equalityI) (auto simp: nth_list_update)
    then have "pick_list_for (priority_of s) (picker_remove p e s) \<and> reorders s (picker_remove p e s)"
      using remove_ok [of s i e p bs0] rep0 i gone by simp
    then show ?thesis using gone e by (simp add: picker_update_def)
  next
    case moved
    define q where "q = nat ?q"
    have pr: "?q = int q" "q \<noteq> p" using moved by (auto simp: q_def)
    define bnd where "bnd = (if length (m_priority_boundaries s) \<le> q
      then vec_resize (q + 1) (length (m_pieces s)) (m_priority_boundaries s) else m_priority_boundaries s)"
    obtain bs where bs: "buckets_rep (m_piece_map s) (m_pieces s) bnd ((priority_of s)(i := int p)) bs"
      using rep0 buckets_rep_resize unfolding bnd_def by (metis le_SucI Suc_eq_plus1)
    have pl: "q < length bnd" by (auto simp: bnd_def)
    obtain mp' ps' bnd' e' bs' where
      eq: "(if p > q then update_down (m_piece_map s) (m_pieces s) bnd e i p q
            else update_up (m_piece_map s) (m_pieces s) bnd e i p q) = (mp', ps', bnd', e')"
      and rep: "buckets_rep (set_index mp' i e') (ps'[e' := i]) bnd' (priority_of s) bs'"
      and st: "strip_index mp' = strip_index (m_piece_map s)"
      and fr: "\<And>j. j \<notin> set (m_pieces s) - {i} \<Longrightarrow> mp' ! j = m_piece_map s ! j"
    proof (cases "p > q")
      case True
      then show ?thesis using that update_down_rep [OF bs pr(1) _ i'] e(1) by auto
    next
      case False
      then show ?thesis using that update_up_rep [OF bs pr(1) pl _ i'] pr(2) e(1) by auto
    qed
    let ?s1 = "s\<lparr>m_piece_map := set_index mp' i e', m_pieces := ps'[e' := i], m_priority_boundaries := bnd'\<rparr>"
    have len: "length mp' = length (m_piece_map s)" using strip_length [OF st] .
    have res: "picker_update p e s = picker_shuffle q e' ?s1"
      unfolding picker_update_def Let_def e(2) q_def [symmetric] bnd_def [symmetric] eq prod.case
      using moved pr by simp
    have "\<not> pos_have (m_piece_map s ! j) \<and> \<not> pos_have (set_index mp' i e' ! j)" if j: "j \<in> set (m_pieces s)" for j
    proof -
      have "j \<in> set (ps'[e' := i])"
        using j moved len buckets_rep_mem [OF bs, of j] buckets_rep_mem [OF rep, of j]
        by (auto split: if_splits)
      then show ?thesis using j indexed_not_have buckets_repD(5) [OF rep] buckets_repD(5) [OF bs] by blast
    qed
    moreover have "set_index mp' i e' ! j = m_piece_map s ! j" if "j \<notin> set (m_pieces s)" for j
    proof -
      have "j \<noteq> i" using that e nth_mem [OF e(3)] by auto
      then show ?thesis using fr [of j] that by simp
    qed
    ultimately have r1: "reorders s ?s1"
      using st by (intro reordersI [of _ _ "set (m_pieces s)"]) simp_all
    obtain e2 where "pp_index (set_index mp' i e' ! i) = Some e2" "q < length bnd'"
      "priority_begin bnd' q \<le> e2" "e2 < priority_end bnd' q"
      by (rule buckets_rep_range [OF rep _ pr(1)]) (use i' len in auto)
    then have "pick_list_for (priority_of s) (picker_shuffle q e' ?s1) \<and> reorders ?s1 (picker_shuffle q e' ?s1)"
      using i' len rep by (intro shuffle_ok [where bs = bs']) (auto simp: set_index_same)
    then show ?thesis using res r1 e(1) reorders_trans by auto
  qed
qed

end
