(* ===== verification/Picker_Rebuild.thy ===== *)
theory Picker_Rebuild
  imports Picker_Order "HOL-Library.Multiset"
begin

text \<open>
  \<open>piece_picker::update_pieces\<close>: the pick list is rebuilt from the piece map when it is
  dirty, by a counting sort over the priorities followed by a shuffle inside each bucket.
\<close>

section \<open>The passes of update_pieces\<close>

text \<open>
  \<open>std::shuffle\<close> with the random engine: each position, from the last, is swapped with one at or before
  it, as the draws of the engine say. The standard leaves the use of the draws open; for some list of draws
  this gives any permutation.
\<close>

fun shuffle_from :: "nat \<Rightarrow> nat list \<Rightarrow> picker \<Rightarrow> nat list \<times> picker" where
  "shuffle_from 0 xs s = (xs, s)"
| "shuffle_from (Suc i) xs s =
     (let (r, s') = random (Suc i) s in shuffle_from i (vec_swap xs (Suc i) r) s')"

definition random_shuffle :: "nat list \<Rightarrow> picker \<Rightarrow> nat list \<times> picker" where
  "random_shuffle xs s = shuffle_from (length xs - 1) xs s"

text \<open>First pass: count the pieces of every priority; a piece gets its rank in its bucket.\<close>

fun count_priorities ::
    "int \<Rightarrow> piece_pos list \<Rightarrow> nat list \<Rightarrow> piece_pos list \<times> nat list" where
  "count_priorities sd [] bnd = ([], bnd)"
| "count_priorities sd (p # ps) bnd =
     (let prio = pos_priority sd p in
      if prio = -1 then let (ps', bnd') = count_priorities sd ps bnd in (p # ps', bnd')
      else
        let k = nat prio;
            b = (if k \<ge> length bnd then vec_resize (k + 1) 0 bnd else bnd);
            (ps', bnd') = count_priorities sd ps (b[k := b ! k + 1])
        in (p\<lparr>pp_index := Some (b ! k)\<rparr> # ps', bnd'))"

text \<open>Second pass: the counts become cumulative indices.\<close>

fun cumulate :: "nat \<Rightarrow> nat list \<Rightarrow> nat list" where
  "cumulate new_size [] = []"
| "cumulate new_size (b # bs) = (new_size + b) # cumulate (new_size + b) bs"

text \<open>Third pass: every piece goes to the start of its bucket plus its rank.\<close>

fun place_pieces :: "int \<Rightarrow> nat list \<Rightarrow> piece_pos list \<Rightarrow> nat \<Rightarrow> nat list \<Rightarrow> nat list" where
  "place_pieces sd bnd [] piece pieces = pieces"
| "place_pieces sd bnd (p # ps) piece pieces =
     (let prio = pos_priority sd p in
      if prio = -1 then place_pieces sd bnd ps (piece + 1) pieces
      else place_pieces sd bnd ps (piece + 1)
             (pieces[priority_begin bnd (nat prio) + the (pp_index p) := piece]))"

text \<open>Fourth pass: shuffle inside the buckets.\<close>

fun shuffle_ranges :: "nat list \<Rightarrow> nat \<Rightarrow> nat list \<Rightarrow> picker \<Rightarrow> nat list \<times> picker" where
  "shuffle_ranges [] start pieces s = (pieces, s)"
| "shuffle_ranges (b # bs) start pieces s =
     (if start = b then shuffle_ranges bs start pieces s
      else
        let (r, s') = random_shuffle (take (b - start) (drop start pieces)) s
        in shuffle_ranges bs b (take start pieces @ r @ drop b pieces) s')"

text \<open>Last pass: \<open>m_piece_map[].index\<close> is set to the position in the list.\<close>

fun fix_index :: "piece_pos list \<Rightarrow> nat \<Rightarrow> nat list \<Rightarrow> piece_pos list" where
  "fix_index mp index [] = mp"
| "fix_index mp index (p # ps) = fix_index (set_index mp p index) (index + 1) ps"

definition update_pieces :: "picker \<Rightarrow> picker" where
  "update_pieces s =
     (let b0 = (if m_priority_boundaries s = [] then [0] else m_priority_boundaries s);
          (mp, counts) = count_priorities (m_seeds s) (m_piece_map s) (map (\<lambda>_. 0) b0);
          bnd = cumulate 0 counts;
          ps0 = vec_resize (sum_list counts) 0 (m_pieces s);
          ps1 = place_pieces (m_seeds s) bnd mp 0 ps0;
          (ps2, s') = shuffle_ranges bnd 0 ps1 s
      in s'\<lparr>m_piece_map := fix_index mp 0 ps2, m_pieces := ps2,
            m_priority_boundaries := bnd, m_dirty := False\<rparr>)"

section \<open>The rebuilt list\<close>

lemma mset_vec_swap: "a < length xs \<Longrightarrow> b < length xs \<Longrightarrow> mset (vec_swap xs a b) = mset xs"
  by (simp add: vec_swap_def mset_swap)

lemma shuffle_from_perm:
  "i < length xs \<Longrightarrow> shuffle_from i xs s = (ys, s') \<Longrightarrow> mset ys = mset xs \<and> (\<exists>ds. s' = s\<lparr>rng_draws := ds\<rparr>)"
proof (induction i arbitrary: xs s)
  case 0
  then show ?case by (auto intro: exI [of _ "rng_draws s"])
next
  case (Suc i)
  obtain r s1 where r: "random (Suc i) s = (r, s1)" by fastforce
  then have "r \<le> Suc i" by (rule random_le)
  moreover obtain ds where "s1 = s\<lparr>rng_draws := ds\<rparr>" using r by (rule random_frame)
  ultimately show ?case using Suc.IH [of "vec_swap xs (Suc i) r" s1] Suc.prems r
    by (auto simp: mset_vec_swap)
qed

lemma random_shuffle_perm:
  assumes "random_shuffle xs s = (ys, s')"
  shows "mset ys = mset xs \<and> (\<exists>ds. s' = s\<lparr>rng_draws := ds\<rparr>)"
proof (cases xs)
  case Nil
  then show ?thesis using assms by (auto simp: random_shuffle_def intro: exI [of _ "rng_draws s"])
next
  case (Cons x xs')
  then show ?thesis using assms shuffle_from_perm [of "length xs - 1" xs s ys s']
    by (simp add: random_shuffle_def)
qed

lemma cumulate_lengths: "cumulate off (map length bs) = bounds_of off bs"
  by (induction bs arbitrary: off) auto

lemma shuffle_ranges_perm:
  assumes "shuffle_ranges (bounds_of (length pre) bs) (length pre) (pre @ concat bs @ post) s = (ps, s')"
  shows "\<exists>bs' ds. ps = pre @ concat bs' @ post \<and> map mset bs' = map mset bs \<and> s' = s\<lparr>rng_draws := ds\<rparr>"
  using assms
proof (induction bs arbitrary: pre s)
  case Nil
  then show ?case by (auto intro: exI [of _ "rng_draws s"])
next
  case (Cons b bs)
  show ?case
  proof (cases "b = []")
    case True
    with Cons.prems have "shuffle_ranges (bounds_of (length pre) bs) (length pre) (pre @ concat bs @ post) s = (ps, s')"
      by simp
    from Cons.IH [OF this] obtain bs' ds where "ps = pre @ concat bs' @ post" "map mset bs' = map mset bs"
      "s' = s\<lparr>rng_draws := ds\<rparr>" by blast
    then show ?thesis using True by (intro exI [of _ "[] # bs'"]) auto
  next
    case False
    obtain r s1 where r: "random_shuffle b s = (r, s1)" by fastforce
    then have mr: "mset r = mset b" and "\<exists>ds. s1 = s\<lparr>rng_draws := ds\<rparr>"
      using random_shuffle_perm by blast+
    then obtain ds1 where s1: "s1 = s\<lparr>rng_draws := ds1\<rparr>" by blast
    have lr: "length r = length b" using mr by (metis size_mset)
    have "shuffle_ranges (bounds_of (length (pre @ r)) bs) (length (pre @ r)) ((pre @ r) @ concat bs @ post) s1 = (ps, s')"
      using Cons.prems False r lr by simp
    from Cons.IH [OF this] obtain bs' ds where "ps = (pre @ r) @ concat bs' @ post" "map mset bs' = map mset bs"
      "s' = s1\<lparr>rng_draws := ds\<rparr>" by blast
    then show ?thesis using mr s1 by (intro exI [of _ "r # bs'"]) auto
  qed
qed

lemma fix_index_spec:
  "distinct ps \<Longrightarrow> (\<forall>x\<in>set ps. x < length mp) \<Longrightarrow>
     indexed (fix_index mp off ps) off ps \<and> strip_index (fix_index mp off ps) = strip_index mp
     \<and> (\<forall>j. j \<notin> set ps \<longrightarrow> fix_index mp off ps ! j = mp ! j)"
proof (induction ps arbitrary: mp off)
  case (Cons p ps)
  let ?mp = "set_index mp p off"
  have IH: "indexed (fix_index ?mp (Suc off) ps) (Suc off) ps"
    "strip_index (fix_index ?mp (Suc off) ps) = strip_index ?mp"
    "\<And>j. j \<notin> set ps \<Longrightarrow> fix_index ?mp (Suc off) ps ! j = ?mp ! j"
    using Cons.IH [of ?mp "Suc off"] Cons.prems by auto
  then have "length (fix_index ?mp (Suc off) ps) = length mp" using strip_length [OF IH(2)] by simp
  then show ?case using IH Cons.prems by (auto simp: set_index_same)
qed simp

subsection \<open>Counting\<close>

definition bucket_count :: "int \<Rightarrow> piece_pos list \<Rightarrow> nat \<Rightarrow> nat" where
  "bucket_count sd mp k = length (filter (\<lambda>p. pos_priority sd p = int k) mp)"

lemma count_priorities_spec:
  assumes "count_priorities sd mp bnd = (mp', bnd')" "\<forall>p\<in>set mp. pp_priority p < 8"
  shows "length mp' = length mp \<and> length bnd \<le> length bnd'
     \<and> (\<forall>k < length bnd'. bnd' ! k = (if k < length bnd then bnd ! k else 0) + bucket_count sd mp k)
     \<and> (\<forall>i < length mp. pos_priority sd (mp ! i) < int (length bnd'))
     \<and> (\<forall>i < length mp. if pos_priority sd (mp ! i) = -1 then mp' ! i = mp ! i else
           mp' ! i = (mp ! i)\<lparr>pp_index := Some (let k = nat (pos_priority sd (mp ! i)) in
              (if k < length bnd then bnd ! k else 0) + bucket_count sd (take i mp) k)\<rparr>)"
  using assms
proof (induction mp arbitrary: bnd mp' bnd')
  case Nil
  then show ?case by (simp add: bucket_count_def)
next
  case (Cons p mp)
  show ?case
  proof (cases "pos_priority sd p = -1")
    case True
    then obtain mp1 where c: "count_priorities sd mp bnd = (mp1, bnd')" "mp' = p # mp1"
      using Cons.prems by (auto split: prod.splits)
    show ?thesis using Cons.IH [OF c(1)] Cons.prems True c(2)
      by (auto simp: bucket_count_def nth_Cons Let_def split: nat.splits)
  next
    case False
    define k where "k = nat (pos_priority sd p)"
    have pk: "pos_priority sd p = int k"
      using False pos_priority_ge [of p sd] Cons.prems by (auto simp: k_def)
    define b where "b = (if k \<ge> length bnd then vec_resize (k + 1) 0 bnd else bnd)"
    have kb: "k < length b" and lb: "length bnd \<le> length b" by (auto simp: b_def)
    have bn: "b ! j = (if j < length bnd then bnd ! j else 0)" if "j < length b" for j
      using that by (auto simp: b_def vec_resize_def nth_append)
    obtain mp1 where c: "count_priorities sd mp (b[k := b ! k + 1]) = (mp1, bnd')"
      and mp': "mp' = p\<lparr>pp_index := Some (b ! k)\<rparr> # mp1"
      using Cons.prems False unfolding b_def k_def by (auto simp: Let_def split: prod.splits)
    have IH: "length mp1 = length mp" "length b \<le> length bnd'"
      "\<And>j. j < length bnd' \<Longrightarrow> bnd' ! j = (if j < length b then b[k := b ! k + 1] ! j else 0) + bucket_count sd mp j"
      "\<And>i. i < length mp \<Longrightarrow> pos_priority sd (mp ! i) < int (length bnd')"
      "\<And>i. i < length mp \<Longrightarrow> (if pos_priority sd (mp ! i) = -1 then mp1 ! i = mp ! i else
           mp1 ! i = (mp ! i)\<lparr>pp_index := Some (let k' = nat (pos_priority sd (mp ! i)) in
              (if k' < length b then b[k := b ! k + 1] ! k' else 0) + bucket_count sd (take i mp) k')\<rparr>)"
      using Cons.IH [OF c] Cons.prems by simp_all
    have cnt: "bucket_count sd (p # l) j = (if j = k then 1 else 0) + bucket_count sd l j" for l j
      using pk by (auto simp: bucket_count_def)
    have upd: "(if j < length b then b[k := b ! k + 1] ! j else 0) + c
        = (if j < length bnd then bnd ! j else 0) + ((if j = k then 1 else 0) + c)" for j c
      using kb lb bn by (cases "j = k") auto
    show ?thesis
    proof (intro conjI allI impI)
      show "length mp' = length (p # mp)" "length bnd \<le> length bnd'" using IH lb mp' by auto
      show "bnd' ! j = (if j < length bnd then bnd ! j else 0) + bucket_count sd (p # mp) j"
        if "j < length bnd'" for j
        using IH(3) [OF that] upd [of j] by (simp add: cnt)
      show "pos_priority sd ((p # mp) ! i) < int (length bnd')" if "i < length (p # mp)" for i
        using that IH(2,4) kb pk by (cases i) auto
      show "if pos_priority sd ((p # mp) ! i) = -1 then mp' ! i = (p # mp) ! i else
           mp' ! i = ((p # mp) ! i)\<lparr>pp_index := Some (let k = nat (pos_priority sd ((p # mp) ! i)) in
              (if k < length bnd then bnd ! k else 0) + bucket_count sd (take i (p # mp)) k)\<rparr>"
        if "i < length (p # mp)" for i
      proof (cases i)
        case 0
        then show ?thesis using pk mp' bn [OF kb] by (simp add: bucket_count_def)
      next
        case (Suc j)
        then show ?thesis using that IH(5) [of j] mp' upd by (auto simp: Let_def cnt)
      qed
    qed
  qed
qed

subsection \<open>Placing\<close>

lemma place_pieces_spec:
  fixes pos :: "nat \<Rightarrow> nat" and sd bnd
  defines "good \<equiv> \<lambda>p. pos_priority sd p \<noteq> -1"
  defines "at \<equiv> \<lambda>p. priority_begin bnd (nat (pos_priority sd p)) + the (pp_index p)"
  assumes "\<And>i j. i < length mp \<Longrightarrow> j < length mp \<Longrightarrow> good (mp ! i) \<Longrightarrow> good (mp ! j) \<Longrightarrow>
      at (mp ! i) = at (mp ! j) \<Longrightarrow> i = j"
    and "\<And>i. i < length mp \<Longrightarrow> good (mp ! i) \<Longrightarrow> at (mp ! i) < length ps"
  shows "length (place_pieces sd bnd mp off ps) = length ps
     \<and> (\<forall>i < length mp. good (mp ! i) \<longrightarrow> place_pieces sd bnd mp off ps ! at (mp ! i) = off + i)
     \<and> (\<forall>x. (\<forall>i < length mp. good (mp ! i) \<longrightarrow> at (mp ! i) \<noteq> x) \<longrightarrow>
          place_pieces sd bnd mp off ps ! x = ps ! x)"
  using assms(3,4)
proof (induction mp arbitrary: off ps)
  case Nil
  then show ?case by simp
next
  case (Cons p mp)
  define ps1 where "ps1 = (if good p then ps[at p := off] else ps)"
  have eq: "place_pieces sd bnd (p # mp) off ps = place_pieces sd bnd mp (Suc off) ps1"
    by (simp add: ps1_def good_def at_def Let_def)
  have inj: "i = j" if "i < length mp" "j < length mp" "good (mp ! i)" "good (mp ! j)" "at (mp ! i) = at (mp ! j)" for i j
    using Cons.prems(1) [of "Suc i" "Suc j"] that by simp
  have lt: "at (mp ! i) < length ps1" if "i < length mp" "good (mp ! i)" for i
    using Cons.prems(2) [of "Suc i"] that by (simp add: ps1_def)
  from Cons.IH [OF inj lt, of "Suc off"]
  have IH: "length (place_pieces sd bnd mp (Suc off) ps1) = length ps1"
    "\<And>i. i < length mp \<Longrightarrow> good (mp ! i) \<Longrightarrow> place_pieces sd bnd mp (Suc off) ps1 ! at (mp ! i) = Suc off + i"
    "\<And>x. \<forall>i < length mp. good (mp ! i) \<longrightarrow> at (mp ! i) \<noteq> x \<Longrightarrow> place_pieces sd bnd mp (Suc off) ps1 ! x = ps1 ! x"
    by blast+
  have p0: "at (mp ! i) \<noteq> at p" if "i < length mp" "good (mp ! i)" "good p" for i
    using Cons.prems(1) [of "Suc i" 0] that by auto
  show ?case unfolding eq
  proof (intro conjI allI impI)
    show "length (place_pieces sd bnd mp (Suc off) ps1) = length ps" using IH(1) by (simp add: ps1_def)
    show "place_pieces sd bnd mp (Suc off) ps1 ! at ((p # mp) ! i) = off + i"
      if i: "i < length (p # mp)" "good ((p # mp) ! i)" for i
    proof (cases i)
      case 0
      with i have g: "good p" by simp
      have "place_pieces sd bnd mp (Suc off) ps1 ! at p = ps1 ! at p"
        by (rule IH(3)) (use p0 g in blast)
      then show ?thesis using 0 g Cons.prems(2) [of 0] by (simp add: ps1_def)
    next
      case (Suc j)
      then show ?thesis using i IH(2) [of j] by simp
    qed
    show "place_pieces sd bnd mp (Suc off) ps1 ! x = ps ! x"
      if x: "\<forall>i < length (p # mp). good ((p # mp) ! i) \<longrightarrow> at ((p # mp) ! i) \<noteq> x" for x
    proof -
      have "place_pieces sd bnd mp (Suc off) ps1 ! x = ps1 ! x"
        by (rule IH(3)) (use x in \<open>auto dest: spec [of _ "Suc _"]\<close>)
      moreover have "good p \<Longrightarrow> at p \<noteq> x" using x by (auto dest: spec [of _ 0])
      ultimately show ?thesis by (auto simp: ps1_def)
    qed
  qed
qed

text \<open>The buckets before the shuffle: the pieces of each priority, in order.\<close>

definition sorted_buckets :: "int \<Rightarrow> piece_pos list \<Rightarrow> nat \<Rightarrow> nat list list" where
  "sorted_buckets sd mp len =
     map (\<lambda>k. filter (\<lambda>i. pos_priority sd (mp ! i) = int k) [0..<length mp]) [0..<len]"

lemma filter_upt_rank:
  assumes "r < length (filter P [0..<n])"
  shows "length (filter P [0..<filter P [0..<n] ! r]) = r"
  using assms
proof (induction n)
  case (Suc n)
  show ?case
  proof (cases "r < length (filter P [0..<n])")
    case True
    then show ?thesis using Suc.IH by (simp add: nth_append)
  next
    case False
    with Suc.prems have "P n" "r = length (filter P [0..<n])" by (auto split: if_splits)
    then show ?thesis by (simp add: nth_append)
  qed
qed simp

lemma bucket_count_take:
  "i \<le> length mp \<Longrightarrow> bucket_count sd (take i mp) k
     = length (filter (\<lambda>j. pos_priority sd (mp ! j) = int k) [0..<i])"
proof (induction i)
  case (Suc i)
  then show ?case by (simp add: bucket_count_def take_Suc_conv_app_nth)
qed (simp add: bucket_count_def)

lemma concat_nth:
  assumes "j < length (concat bs)"
  obtains k r where "k < length bs" "r < length (bs ! k)" "concat bs ! j = bs ! k ! r"
    "j = length (concat (take k bs)) + r"
  using assms
proof (induction bs arbitrary: j thesis)
  case (Cons b bs)
  show ?case
  proof (cases "j < length b")
    case True
    then show ?thesis using Cons.prems(1) [of 0 j] by (simp add: nth_append)
  next
    case False
    with Cons.prems(2) have "j - length b < length (concat bs)" by auto
    then obtain k r where "k < length bs" "r < length (bs ! k)" "concat bs ! (j - length b) = bs ! k ! r"
      "j - length b = length (concat (take k bs)) + r" by (rule Cons.IH [rotated])
    then show ?thesis using False Cons.prems(1) [of "Suc k" r] by (simp add: nth_append)
  qed
qed simp

lemma priority_begin_bounds_of:
  assumes "k < length bs"
  shows "priority_begin (bounds_of 0 bs) k = length (concat (take k bs))"
proof (cases k)
  case 0
  then show ?thesis by (simp add: priority_begin_def)
next
  case (Suc j)
  have "bounds_of 0 bs ! j = length (concat (take (Suc j) bs))" if "j < length bs" for j
  proof -
    have "bounds_of 0 (take j bs @ bs ! j # drop (Suc j) bs) ! j = length (concat (take j bs)) + length (bs ! j)"
      using that by (simp add: bounds_of_append nth_append)
    then show ?thesis using that by (simp add: id_take_nth_drop [symmetric] take_Suc_conv_app_nth)
  qed
  then show ?thesis using Suc assms by (simp add: priority_begin_def)
qed

lemma sorted_buckets_nth:
  "k < len \<Longrightarrow> sorted_buckets sd mp len ! k = filter (\<lambda>i. pos_priority sd (mp ! i) = int k) [0..<length mp]"
  by (simp add: sorted_buckets_def)

lemma length_sorted_buckets [simp]: "length (sorted_buckets sd mp len) = len"
  by (simp add: sorted_buckets_def)

lemma map_length_sorted_buckets:
  "k < len \<Longrightarrow> length (sorted_buckets sd mp len ! k) = bucket_count sd mp k"
  using bucket_count_take [of "length mp" mp sd k] by (simp add: sorted_buckets_nth)


text \<open>The third pass writes exactly the sorted buckets.\<close>

lemma place_pieces_sorted:
  fixes sd mp
  assumes w: "\<forall>p\<in>set mp. pp_priority p < 8"
    and c: "count_priorities sd mp (replicate m 0) = (mp', counts)"
    and len: "length ps = sum_list counts"
  defines "bs \<equiv> sorted_buckets sd mp (length counts)"
  shows "counts = map length bs" "place_pieces sd (bounds_of 0 bs) mp' 0 ps = concat bs"
proof -
  note spec = count_priorities_spec [OF c w]
  have l: "length mp' = length mp" using spec by blast
  show counts: "counts = map length bs"
  proof (rule nth_equalityI)
    fix k assume "k < length counts"
    then show "counts ! k = map length bs ! k"
      using spec by (simp add: bs_def map_length_sorted_buckets)
  qed (simp add: bs_def)
  have bound: "pos_priority sd (mp ! i) < int (length counts)" if "i < length mp" for i
    using spec that by blast
  have ge: "-1 \<le> pos_priority sd (mp ! i)" if "i < length mp" for i
    using w that by (simp add: pos_priority_ge)
  have mp': "mp' ! i = (mp ! i)\<lparr>pp_index := Some (bucket_count sd (take i mp) (nat (pos_priority sd (mp ! i))))\<rparr>"
    if "i < length mp" "pos_priority sd (mp ! i) \<noteq> -1" for i
    using spec that by (simp add: Let_def)
  have pr: "pos_priority sd (mp' ! i) = pos_priority sd (mp ! i)" if "i < length mp" for i
  proof (cases "pos_priority sd (mp ! i) = -1")
    case True
    then show ?thesis using spec that by simp
  next
    case False
    then have "\<not> pos_have (mp ! i)" by (auto simp: pos_priority_def)
    then show ?thesis unfolding mp' [OF that False]
      by (intro pos_priority_cong) (simp_all add: pos_have_def)
  qed
  define at where "at i = priority_begin (bounds_of 0 bs) (nat (pos_priority sd (mp' ! i))) + the (pp_index (mp' ! i))" for i
  have at: "at (concat bs ! j) = j \<and> concat bs ! j < length mp \<and> pos_priority sd (mp ! (concat bs ! j)) \<noteq> -1"
    if jl: "j < length (concat bs)" for j
  proof -
    obtain k r where k: "k < length bs" "r < length (bs ! k)" "concat bs ! j = bs ! k ! r"
      "j = length (concat (take k bs)) + r" using jl by (rule concat_nth)
    define i where "i = bs ! k ! r"
    have bk: "bs ! k = filter (\<lambda>i. pos_priority sd (mp ! i) = int k) [0..<length mp]"
      using k(1) by (simp add: bs_def sorted_buckets_nth)
    have "i \<in> set (bs ! k)" using k(2) by (simp add: i_def)
    then have i: "i < length mp" "pos_priority sd (mp ! i) = int k" by (simp_all add: bk)
    then have "bucket_count sd (take i mp) k = r"
      using filter_upt_rank [of r "\<lambda>i. pos_priority sd (mp ! i) = int k" "length mp"] k(2)
      by (simp add: bucket_count_take bk [symmetric] i_def)
    then have "at i = length (concat (take k bs)) + r"
      unfolding at_def pr [OF i(1)] using i k(1) by (simp add: mp' priority_begin_bounds_of)
    then show ?thesis using k i by (simp add: i_def)
  qed
  have mem: "\<exists>j < length (concat bs). concat bs ! j = i"
    if "i < length mp" "pos_priority sd (mp ! i) \<noteq> -1" for i
  proof -
    have "i \<in> set (bs ! nat (pos_priority sd (mp ! i)))" "nat (pos_priority sd (mp ! i)) < length bs"
      using that ge [of i] bound [of i] by (auto simp: bs_def sorted_buckets_nth)
    then have "i \<in> set (concat bs)" by (auto intro!: bexI nth_mem)
    then show ?thesis unfolding in_set_conv_nth .
  qed
  have lps: "length ps = length (concat bs)" using len counts by (simp add: length_concat)
  have inj: "i = j" if "i < length mp'" "j < length mp'" "pos_priority sd (mp' ! i) \<noteq> -1"
    "pos_priority sd (mp' ! j) \<noteq> -1" "at i = at j" for i j
    using mem [of i] mem [of j] at that l pr by (metis)
  have lt: "at i < length ps" if "i < length mp'" "pos_priority sd (mp' ! i) \<noteq> -1" for i
    using mem [of i] at that l pr lps by (metis)
  note sp = place_pieces_spec [of mp' sd "bounds_of 0 bs" ps 0, folded at_def]
  have "length (place_pieces sd (bounds_of 0 bs) mp' 0 ps) = length ps
     \<and> (\<forall>i < length mp'. pos_priority sd (mp' ! i) \<noteq> -1 \<longrightarrow>
          place_pieces sd (bounds_of 0 bs) mp' 0 ps ! at i = 0 + i)"
    using sp [OF inj lt] by blast
  then have place: "length (place_pieces sd (bounds_of 0 bs) mp' 0 ps) = length ps"
    "\<And>i. i < length mp' \<Longrightarrow> pos_priority sd (mp' ! i) \<noteq> -1 \<Longrightarrow> place_pieces sd (bounds_of 0 bs) mp' 0 ps ! at i = i"
    by simp_all
  show "place_pieces sd (bounds_of 0 bs) mp' 0 ps = concat bs"
  proof (rule nth_equalityI)
    fix j assume "j < length (place_pieces sd (bounds_of 0 bs) mp' 0 ps)"
    then have "j < length (concat bs)" using place(1) lps by simp
    from at [OF this] place(2) [of "concat bs ! j"] l pr
    show "place_pieces sd (bounds_of 0 bs) mp' 0 ps ! j = concat bs ! j" by simp
  qed (use place(1) lps in simp)
qed

lemma distinct_concat_disjoint:
  assumes "\<And>b. b \<in> set bs \<Longrightarrow> distinct b"
    "\<And>k k'. k < length bs \<Longrightarrow> k' < k \<Longrightarrow> set (bs ! k) \<inter> set (bs ! k') = {}"
  shows "distinct (concat bs)"
  using assms
proof (induction bs)
  case (Cons b bs)
  have "set (bs ! k) \<inter> set (bs ! k') = {}" if "k < length bs" "k' < k" for k k'
    using Cons.prems(2) [of "Suc k" "Suc k'"] that by simp
  then have d: "distinct (concat bs)" using Cons.IH Cons.prems(1) by simp
  have "set b \<inter> set (bs ! k) = {}" if "k < length bs" for k
    using Cons.prems(2) [of "Suc k" 0] that by auto
  then have "set b \<inter> set c = {}" if "c \<in> set bs" for c
    using that by (metis in_set_conv_nth)
  then show ?case using d Cons.prems(1) [of b] by auto
qed simp

text \<open>Whatever the state of the list before, \<open>update_pieces\<close> leaves it right.\<close>

lemma update_pieces_ok:
  assumes w: "\<forall>p\<in>set (m_piece_map s). pp_priority p < 8"
  shows "pick_list_for (priority_of s) (update_pieces s) \<and> \<not> m_dirty (update_pieces s)
     \<and> reorders (s\<lparr>m_dirty := False\<rparr>) (update_pieces s)"
proof -
  let ?mp = "m_piece_map s" and ?sd = "m_seeds s"
  define m where "m = length (if m_priority_boundaries s = [] then [0] else m_priority_boundaries s)"
  have m: "0 < m" by (simp add: m_def)
  obtain mp' counts where c: "count_priorities ?sd ?mp (replicate m 0) = (mp', counts)" by fastforce
  define bs where "bs = sorted_buckets ?sd ?mp (length counts)"
  note spec = count_priorities_spec [OF c w]
  have ge: "-1 \<le> priority_of s i" if "i < length ?mp" for i
    using w that by (simp add: priority_of_def pos_priority_ge)
  note placed = place_pieces_sorted [OF w c, folded bs_def]
  have cum: "cumulate 0 counts = bounds_of 0 bs" using placed(1) [of "replicate (sum_list counts) 0"]
    by (metis cumulate_lengths length_replicate)
  let ?ps0 = "vec_resize (sum_list counts) 0 (m_pieces s)"
  have place: "place_pieces ?sd (bounds_of 0 bs) mp' 0 ?ps0 = concat bs"
    by (rule placed(2)) simp
  obtain ps2 s' where sh: "shuffle_ranges (bounds_of 0 bs) 0 (concat bs) s = (ps2, s')" by fastforce
  obtain bs' ds where bs': "ps2 = concat bs'" "map mset bs' = map mset bs" "s' = s\<lparr>rng_draws := ds\<rparr>"
    using shuffle_ranges_perm [of "[]" bs "[]" s ps2 s'] sh by auto
  have lbs: "length bs' = length bs" "length bs = length counts"
    using bs'(2) by (auto simp: bs_def dest: map_eq_imp_length_eq)
  have nth: "mset (bs' ! k) = mset (bs ! k)" if "k < length bs" for k
    using bs'(2) lbs that by (metis nth_map)
  have eq: "update_pieces s = s\<lparr>rng_draws := ds, m_piece_map := fix_index mp' 0 ps2, m_pieces := ps2,
      m_priority_boundaries := bounds_of 0 bs, m_dirty := False\<rparr>"
  proof -
    have "map (\<lambda>_. 0) (if m_priority_boundaries s = [] then [0] else m_priority_boundaries s) = replicate m (0::nat)"
      by (simp add: m_def map_replicate_const)
    then show ?thesis unfolding update_pieces_def using c cum place sh bs'(3)
      by (simp add: Let_def)
  qed
  have sets: "set (bs' ! k) = {i. i < length ?mp \<and> priority_of s i = int k}" if "k < length bs'" for k
  proof -
    have "set (bs' ! k) = set (bs ! k)" using nth that lbs by (metis set_mset_mset)
    then show ?thesis using that lbs by (auto simp: bs_def sorted_buckets_nth priority_of_def)
  qed
  have "distinct (bs' ! k)" if "k < length bs'" for k
  proof -
    have "distinct (bs ! k)" using that lbs by (simp add: bs_def sorted_buckets_nth)
    then show ?thesis using nth that lbs by (metis mset_eq_imp_distinct_iff)
  qed
  then have d: "distinct (concat bs')"
    by (intro distinct_concat_disjoint) (auto simp: sets in_set_conv_nth)
  have l: "length mp' = length ?mp" using spec by blast
  have memb: "x < length ?mp \<and> priority_of s x \<noteq> -1" if x: "x \<in> set (concat bs')" for x
  proof -
    from x obtain b where "b \<in> set bs'" "x \<in> set b" by auto
    then obtain k where "k < length bs'" "x \<in> set (bs' ! k)" by (auto simp: in_set_conv_nth)
    then show ?thesis using sets by auto
  qed
  have fx: "indexed (fix_index mp' 0 ps2) 0 ps2" "strip_index (fix_index mp' 0 ps2) = strip_index mp'"
    "\<And>j. j \<notin> set ps2 \<Longrightarrow> fix_index mp' 0 ps2 ! j = mp' ! j"
    using fix_index_spec [of ps2 mp' 0] d memb l bs'(1) by auto
  have mp'nth: "if priority_of s i = -1 then mp' ! i = ?mp ! i else \<exists>x. mp' ! i = (?mp ! i)\<lparr>pp_index := Some x\<rparr>"
    if "i < length ?mp" for i
    using spec that by (auto simp: priority_of_def Let_def)
  have "(mp' ! i)\<lparr>pp_index := None\<rparr> = (?mp ! i)\<lparr>pp_index := None\<rparr>" if "i < length ?mp" for i
    using mp'nth [OF that] by (auto split: if_splits)
  then have "strip_index mp' = strip_index ?mp"
    using l by (simp add: strip_index_def list_eq_iff_nth_eq)
  then have st: "strip_index (fix_index mp' 0 ps2) = strip_index ?mp" using fx by simp
  have "length (bs ! k) = length (bs' ! k)" if "k < length bs" for k
    using nth [OF that] by (metis size_mset)
  then have "map length bs = map length bs'" using lbs by (simp add: list_eq_iff_nth_eq)
  then have bnd: "bounds_of 0 bs = bounds_of 0 bs'" by (rule bounds_of_cong)
  have rep: "buckets_rep (fix_index mp' 0 ps2) ps2 (bounds_of 0 bs) (priority_of s) bs'"
    unfolding buckets_rep_def
    using bs' fx d sets strip_length [OF st] bnd spec lbs m by (auto simp: priority_of_def)
  have "reorders (s\<lparr>m_dirty := False\<rparr>) (update_pieces s)"
    unfolding reorders_def
  proof (intro conjI allI impI)
    fix j assume "j < num_pieces (s\<lparr>m_dirty := False\<rparr>)"
    then have j: "j < length ?mp" by (simp add: num_pieces_def)
    show "pos_have (m_piece_map (update_pieces s) ! j) = pos_have (m_piece_map (s\<lparr>m_dirty := False\<rparr>) ! j)"
    proof (cases "j \<in> set ps2")
      case True
      then show ?thesis using memb [of j] indexed_not_have [OF fx(1)] bs'(1)
        by (auto simp: eq priority_of_def pos_priority_def)
    next
      case False
      then have "priority_of s j = -1" using buckets_rep_mem [OF rep, of j] strip_length [OF st] j ge
        by fastforce
      then show ?thesis using mp'nth [OF j] fx(3) [OF False] by (simp add: eq)
    qed
  qed (use st in \<open>simp_all add: eq frozen_def\<close>)
  then show ?thesis using rep by (auto simp: eq pick_list_for_def)
qed

end
