(* ===== verification/Picker_Sync.thy ===== *)
theory Picker_Sync
  imports Picker_Rebuild
begin

text \<open>
  The pick list as the rest of \<open>piece_picker\<close> sees it: an executable form of the checks
  \<open>check_invariant\<close> makes of it, the invariant every operation keeps, and the interface
  (\<open>add\<close>, \<open>update\<close>, \<open>update_pieces\<close> with their laws) as a locale, in which the recurring
  step "change one piece, then move it to its new bucket" is verified once.
\<close>

section \<open>The checks of check_invariant\<close>

definition verify_priority :: "picker \<Rightarrow> nat \<Rightarrow> nat \<Rightarrow> nat \<Rightarrow> bool" where
  "verify_priority s range_start range_end prio \<longleftrightarrow>
     range_start \<le> range_end \<and> range_end \<le> length (m_pieces s)
     \<and> (\<forall>index \<in> set (take (range_end - range_start) (drop range_start (m_pieces s))).
          index < num_pieces s \<and> priority_of s index = int prio)"

fun verify_boundaries :: "picker \<Rightarrow> nat \<Rightarrow> nat \<Rightarrow> nat list \<Rightarrow> bool" where
  "verify_boundaries s prio start [] = True"
| "verify_boundaries s prio start (b # bs) =
     (verify_priority s start b prio \<and> verify_boundaries s (prio + 1) b bs)"

definition check_pick_list :: "picker \<Rightarrow> bool" where
  "check_pick_list s \<longleftrightarrow>
     m_priority_boundaries s \<noteq> []
     \<and> verify_boundaries s 0 0 (m_priority_boundaries s)
     \<and> last (m_priority_boundaries s) = length (m_pieces s)
     \<and> (\<forall>piece \<in> set [0..<num_pieces s].
          priority_of s piece < int (length (m_priority_boundaries s))
          \<and> (if priority_of s piece \<ge> 0
             then (case pp_index (m_piece_map s ! piece) of None \<Rightarrow> False
                   | Some i \<Rightarrow> i < length (m_pieces s) \<and> m_pieces s ! i = piece)
             else priority_of s piece = -1 \<and> count_list (m_pieces s) piece = 0))"

lemma verify_boundaries_bounds:
  assumes "\<forall>k < length bs. \<forall>x \<in> set (bs ! k). x < num_pieces s \<and> priority_of s x = int (prio + k)"
    and "m_pieces s = pre @ concat bs @ post"
  shows "verify_boundaries s prio (length pre) (bounds_of (length pre) bs)"
  using assms
proof (induction bs arbitrary: pre prio)
  case (Cons b bs)
  have "verify_priority s (length pre) (length pre + length b) prio"
    using Cons.prems(1) [rule_format, of 0] Cons.prems(2) by (auto simp: verify_priority_def)
  moreover have "verify_boundaries s (Suc prio) (length (pre @ b)) (bounds_of (length (pre @ b)) bs)"
  proof (rule Cons.IH)
    show "\<forall>k < length bs. \<forall>x \<in> set (bs ! k). x < num_pieces s \<and> priority_of s x = int (Suc prio + k)"
      using Cons.prems(1) by (auto dest: spec [of _ "Suc _"])
  qed (use Cons.prems(2) in simp)
  ultimately show ?case by simp
qed simp

lemma verify_boundaries_slices:
  assumes "verify_boundaries s prio start bnd" "start \<le> length (m_pieces s)"
    "bnd \<noteq> [] \<longrightarrow> last bnd = length (m_pieces s)"
  shows "\<exists>bs. bnd = bounds_of start bs \<and> (bnd \<noteq> [] \<longrightarrow> drop start (m_pieces s) = concat bs)
     \<and> (\<forall>k < length bs. \<forall>x \<in> set (bs ! k). x < num_pieces s \<and> priority_of s x = int (prio + k))"
  using assms
proof (induction bnd arbitrary: prio start)
  case (Cons b bnd)
  let ?c = "take (b - start) (drop start (m_pieces s))"
  from Cons.prems have v: "start \<le> b" "b \<le> length (m_pieces s)"
    "\<forall>x \<in> set ?c. x < num_pieces s \<and> priority_of s x = int prio" "verify_boundaries s (prio + 1) b bnd"
    by (auto simp: verify_priority_def)
  obtain bs where bs: "bnd = bounds_of b bs" "bnd \<noteq> [] \<longrightarrow> drop b (m_pieces s) = concat bs"
    "\<forall>k < length bs. \<forall>x \<in> set (bs ! k). x < num_pieces s \<and> priority_of s x = int (prio + 1 + k)"
    using Cons.IH [OF v(4,2)] Cons.prems(3) by (auto split: if_splits)
  have len: "length ?c = b - start" using v by simp
  have "drop start (m_pieces s) = ?c @ drop b (m_pieces s)"
    using v(1) by (metis append_take_drop_id drop_drop le_add_diff_inverse2)
  moreover have "drop b (m_pieces s) = concat bs"
    using bs Cons.prems(3) by (cases "bnd = []") (auto, cases bs, auto)
  moreover have "\<forall>k < length (?c # bs). \<forall>x \<in> set ((?c # bs) ! k). x < num_pieces s \<and> priority_of s x = int (prio + k)"
    using v(3) bs(3) by (auto simp: nth_Cons split: nat.split)
  ultimately show ?case using v(1) len bs(1) by (intro exI [of _ "?c # bs"]) auto
qed (auto intro: exI [of _ "[]"])

text \<open>
  The checks do not rule out a piece that is listed twice; with that added they are the
  representation invariant.
\<close>

lemma check_pick_list_iff:
  assumes w: "\<forall>p \<in> set (m_piece_map s). pp_priority p < 8"
  shows "check_pick_list s \<and> distinct (m_pieces s) \<longleftrightarrow> pick_list_for (priority_of s) s"
proof
  assume a: "check_pick_list s \<and> distinct (m_pieces s)"
  then have d: "distinct (m_pieces s)" by blast
  have each: "priority_of s i < int (length (m_priority_boundaries s))"
     "0 \<le> priority_of s i \<longrightarrow> (case pp_index (m_piece_map s ! i) of None \<Rightarrow> False
        | Some e \<Rightarrow> e < length (m_pieces s) \<and> m_pieces s ! e = i)" if "i < num_pieces s" for i
    using a that by (auto simp: check_pick_list_def split: if_splits)
  have "\<exists>e. pp_index (m_piece_map s ! i) = Some e \<and> e < length (m_pieces s) \<and> m_pieces s ! e = i"
    if "i < num_pieces s" "0 \<le> priority_of s i" for i
    using each(2) [OF that(1)] that(2) by (cases "pp_index (m_piece_map s ! i)") auto
  then have c: "m_priority_boundaries s \<noteq> []" "verify_boundaries s 0 0 (m_priority_boundaries s)"
    "last (m_priority_boundaries s) = length (m_pieces s)"
    "\<And>i. i < num_pieces s \<Longrightarrow> priority_of s i < int (length (m_priority_boundaries s))"
    "\<And>i. i < num_pieces s \<Longrightarrow> 0 \<le> priority_of s i \<Longrightarrow>
       \<exists>e. pp_index (m_piece_map s ! i) = Some e \<and> e < length (m_pieces s) \<and> m_pieces s ! e = i"
    using a each(1) unfolding check_pick_list_def by blast+
  obtain bs where bs: "m_priority_boundaries s = bounds_of 0 bs" "m_pieces s = concat bs"
    "\<forall>k < length bs. \<forall>x \<in> set (bs ! k). x < num_pieces s \<and> priority_of s x = int k"
    using verify_boundaries_slices [OF c(2)] c(1,3) by auto
  have mem: "x < num_pieces s \<and> 0 \<le> priority_of s x" if "x \<in> set (m_pieces s)" for x
  proof -
    from that obtain b where "b \<in> set bs" "x \<in> set b" using bs(2) by auto
    then obtain k where "k < length bs" "x \<in> set (bs ! k)" by (auto simp: in_set_conv_nth)
    then show ?thesis using bs(3) by simp
  qed
  have inj: "pp_index (m_piece_map s ! (m_pieces s ! j)) = Some j" if "j < length (m_pieces s)" for j
  proof -
    have "m_pieces s ! j \<in> set (m_pieces s)" using that by simp
    then obtain e where "pp_index (m_piece_map s ! (m_pieces s ! j)) = Some e" "e < length (m_pieces s)"
      "m_pieces s ! e = m_pieces s ! j" using mem c(5) by blast
    then show ?thesis using d that by (simp add: nth_eq_iff_index_eq)
  qed
  have ix: "indexed (m_piece_map s) 0 (m_pieces s)"
    unfolding indexed_nth using inj mem by (auto simp: num_pieces_def)
  have "set (bs ! k) = {i. i < length (m_piece_map s) \<and> priority_of s i = int k}" if k: "k < length bs" for k
  proof
    show "set (bs ! k) \<subseteq> {i. i < length (m_piece_map s) \<and> priority_of s i = int k}"
      using bs(3) k by (auto simp: num_pieces_def)
    show "{i. i < length (m_piece_map s) \<and> priority_of s i = int k} \<subseteq> set (bs ! k)"
    proof
      fix i assume "i \<in> {i. i < length (m_piece_map s) \<and> priority_of s i = int k}"
      then have i: "i < num_pieces s" "priority_of s i = int k" by (auto simp: num_pieces_def)
      then have "i \<in> set (m_pieces s)" using c(5) [of i] by (auto simp: in_set_conv_nth)
      then obtain b where "b \<in> set bs" "i \<in> set b" using bs(2) by auto
      then obtain k' where "k' < length bs" "i \<in> set (bs ! k')" by (auto simp: in_set_conv_nth)
      moreover from this have "k' = k" using bs(3) i by simp
      ultimately show "i \<in> set (bs ! k)" by simp
    qed
  qed
  then have "buckets_rep (m_piece_map s) (m_pieces s) (m_priority_boundaries s) (priority_of s) bs"
    using bs c d ix by (auto simp: buckets_rep_def num_pieces_def)
  then show "pick_list_for (priority_of s) s" by (auto simp: pick_list_for_def)
next
  assume "pick_list_for (priority_of s) s"
  then obtain bs where rep: "buckets_rep (m_piece_map s) (m_pieces s) (m_priority_boundaries s) (priority_of s) bs"
    by (auto simp: pick_list_for_def)
  note r = buckets_repD [OF rep]
  have v: "verify_boundaries s 0 (length ([] :: nat list)) (bounds_of (length ([] :: nat list)) bs)"
    by (rule verify_boundaries_bounds [where post = "[]"]) (use r in \<open>auto simp: num_pieces_def\<close>)
  have "bounds_of 0 bs = bounds_of 0 (butlast bs) @ bounds_of (length (concat (butlast bs))) [last bs]"
    using r(1) bounds_of_append [of 0 "butlast bs" "[last bs]"] by simp
  moreover have "concat bs = concat (butlast bs) @ last bs"
    using r(1) by (metis append_butlast_last_id concat.simps concat_append append.right_neutral)
  ultimately have lst: "last (bounds_of 0 bs) = length (concat bs)" by simp
  have ne: "bounds_of 0 bs \<noteq> []" using r(1) by (cases bs) simp_all
  have each: "priority_of s i < int (length (m_priority_boundaries s))
      \<and> (if priority_of s i \<ge> 0
         then (case pp_index (m_piece_map s ! i) of None \<Rightarrow> False
               | Some e \<Rightarrow> e < length (m_pieces s) \<and> m_pieces s ! e = i)
         else priority_of s i = -1 \<and> count_list (m_pieces s) i = 0)" if i: "i < num_pieces s" for i
  proof (cases "0 \<le> priority_of s i")
    case True
    then have "priority_of s i = int (nat (priority_of s i))" by simp
    with i obtain e where "pp_index (m_piece_map s ! i) = Some e" "m_pieces s ! e = i" "e < length (m_pieces s)"
      using buckets_rep_range [OF rep] unfolding num_pieces_def by metis
    then show ?thesis using True i r(3,7) by (simp add: num_pieces_def)
  next
    case False
    then have "priority_of s i = -1"
      using i w pos_priority_ge [of "m_piece_map s ! i" "m_seeds s"] by (auto simp: num_pieces_def priority_of_def)
    then show ?thesis using buckets_rep_mem [OF rep, of i] by (simp add: count_list_0_iff)
  qed
  show "check_pick_list s \<and> distinct (m_pieces s)"
    unfolding check_pick_list_def
  proof (intro conjI ballI)
    fix i assume "i \<in> set [0..<num_pieces s]"
    then have "i < num_pieces s" by simp
    from each [OF this] show "priority_of s i < int (length (m_priority_boundaries s))"
      "if priority_of s i \<ge> 0
       then (case pp_index (m_piece_map s ! i) of None \<Rightarrow> False
             | Some e \<Rightarrow> e < length (m_pieces s) \<and> m_pieces s ! e = i)
       else priority_of s i = -1 \<and> count_list (m_pieces s) i = 0" by blast+
  qed (use v lst ne r(2,3,4) in simp_all)
qed

section \<open>The invariant\<close>

text \<open>The ranges of the fields of \<open>piece_pos\<close> and of \<open>m_seeds\<close>.\<close>

definition pos_ok :: "piece_pos \<Rightarrow> bool" where
  "pos_ok p \<longleftrightarrow> pp_priority p < 8 \<and> pp_peer_count p < 2 ^ peer_count_bits"

definition picker_ok :: "picker \<Rightarrow> bool" where
  "picker_ok s \<longleftrightarrow> num_pieces s \<le> no_piece \<and> (\<forall>p \<in> set (m_piece_map s). pos_ok p) \<and> 0 \<le> m_seeds s"

text \<open>Either the list is to be rebuilt before its next use, or it is right.\<close>

definition order_inv :: "picker \<Rightarrow> bool" where
  "order_inv s \<longleftrightarrow> picker_ok s \<and> (m_dirty s \<or> check_pick_list s \<and> distinct (m_pieces s))"

lemma picker_okD:
  assumes "picker_ok s"
  shows "num_pieces s \<le> no_piece" "0 \<le> m_seeds s"
    "\<And>i. i < num_pieces s \<Longrightarrow> pp_priority (m_piece_map s ! i) < 8"
    "\<And>i. i < num_pieces s \<Longrightarrow> pp_peer_count (m_piece_map s ! i) < 2 ^ peer_count_bits"
    "\<forall>p \<in> set (m_piece_map s). pp_priority p < 8"
  using assms by (auto simp: picker_ok_def pos_ok_def num_pieces_def)

lemma order_inv_iff:
  "order_inv s \<longleftrightarrow> picker_ok s \<and> (m_dirty s \<or> pick_list_for (priority_of s) s)"
  using check_pick_list_iff picker_okD(5) by (auto simp: order_inv_def)

lemma picker_ok_nth: "picker_ok s \<Longrightarrow> i < num_pieces s \<Longrightarrow> pos_ok (m_piece_map s ! i)"
  by (simp add: picker_ok_def num_pieces_def)

lemma order_inv_dirty: "picker_ok s \<Longrightarrow> m_dirty s \<Longrightarrow> order_inv s"
  by (simp add: order_inv_def)

lemma order_inv_ok: "order_inv s \<Longrightarrow> picker_ok s"
  by (simp add: order_inv_def)

lemma reorders_picker_ok:
  assumes "reorders s s'"
  shows "picker_ok s' = picker_ok s"
proof -
  have "length (m_piece_map s') = length (m_piece_map s)"
    using reorders_num_pieces [OF assms] by (simp add: num_pieces_def)
  moreover have "pos_ok (m_piece_map s' ! i) = pos_ok (m_piece_map s ! i)" if "i < num_pieces s" for i
    using reorders_pos [OF assms that] by (simp add: pos_ok_def)
  ultimately show ?thesis using reorders_fields [OF assms]
    by (auto simp: picker_ok_def all_set_conv_all_nth num_pieces_def)
qed

lemma pick_list_reorders:
  assumes "pick_list_for (priority_of s) s'" "reorders s s'"
  shows "pick_list_for (priority_of s') s'"
proof -
  have "pick_list_for (priority_of s) s' = pick_list_for (priority_of s') s'"
    using reorders_pos(5) [OF assms(2)] reorders_num_pieces [OF assms(2)]
    by (intro pick_list_for_cong) simp
  then show ?thesis using assms(1) by simp
qed

section \<open>The interface of the pick list\<close>

text \<open>
  A state with a priority for every piece; \<open>listed pr s\<close> says that the list of \<open>s\<close> is the one
  for the priorities \<open>pr\<close>. \<open>insert_piece\<close> and \<open>move_piece\<close> repair the list after the
  priority of one piece has changed; \<open>rebuild\<close> needs nothing.
\<close>

locale pick_order =
  fixes prio :: "'s \<Rightarrow> nat \<Rightarrow> int"
    and ready :: "'s \<Rightarrow> nat \<Rightarrow> bool"
    and listed :: "(nat \<Rightarrow> int) \<Rightarrow> 's \<Rightarrow> bool"
    and frame :: "'s \<Rightarrow> 's \<Rightarrow> bool"
    and insert_piece :: "nat \<Rightarrow> 's \<Rightarrow> 's"
    and move_piece :: "nat \<Rightarrow> nat \<Rightarrow> 's \<Rightarrow> 's"
  assumes insert_law: "ready s i \<Longrightarrow> listed ((prio s)(i := -1)) s \<Longrightarrow>
        listed (prio s) (insert_piece i s) \<and> frame s (insert_piece i s)"
    and move_law: "ready s i \<Longrightarrow> listed ((prio s)(i := int p)) s \<Longrightarrow>
        listed (prio s) (move_piece p i s) \<and> frame s (move_piece p i s)"
    and frame_refl: "frame s s"
begin

definition resync :: "int \<Rightarrow> nat \<Rightarrow> 's \<Rightarrow> 's" where
  "resync prev i s =
     (if prev = prio s i then s else if prev = -1 then insert_piece i s else move_piece (nat prev) i s)"

lemma resync_law:
  assumes "ready s i" "-1 \<le> prev" "listed ((prio s)(i := prev)) s"
  shows "listed (prio s) (resync prev i s) \<and> frame s (resync prev i s)"
proof (cases "prev = prio s i")
  case True
  then have "(prio s)(i := prev) = prio s" by auto
  then show ?thesis using assms(3) True by (simp add: resync_def frame_refl)
next
  case False
  then show ?thesis using insert_law move_law [of s i "nat prev"] assms by (auto simp: resync_def)
qed

lemma move_law_int:
  assumes "ready s i" "0 \<le> prev" "listed ((prio s)(i := prev)) s"
  shows "listed (prio s) (move_piece (nat prev) i s) \<and> frame s (move_piece (nat prev) i s)"
  using move_law [of s i "nat prev"] assms by simp

end

definition piece_ready :: "picker \<Rightarrow> nat \<Rightarrow> bool" where
  "piece_ready s i \<longleftrightarrow> i < num_pieces s \<and> picker_ok s"

text \<open>\<open>update(prev, m_piece_map[i].index)\<close>.\<close>

definition update_at :: "nat \<Rightarrow> nat \<Rightarrow> picker \<Rightarrow> picker" where
  "update_at prev i s = picker_update prev (the (pp_index (m_piece_map s ! i))) s"

interpretation po: pick_order priority_of piece_ready pick_list_for reorders picker_add update_at
proof unfold_locales
  show "pick_list_for (priority_of s) (picker_add i s) \<and> reorders s (picker_add i s)"
    if "piece_ready s i" "pick_list_for ((priority_of s)(i := -1)) s" for s i
    using that add_ok [of s i] by (auto simp: piece_ready_def picker_okD)
  show "pick_list_for (priority_of s) (update_at p i s) \<and> reorders s (update_at p i s)"
    if "piece_ready s i" "pick_list_for ((priority_of s)(i := int p)) s" for s i p
    using that update_ok [of s i p] by (auto simp: piece_ready_def picker_okD update_at_def)
qed simp

section \<open>Changing one piece\<close>

lemma upd_pos_simps [simp]:
  "num_pieces (upd_pos i f s) = num_pieces s" "m_seeds (upd_pos i f s) = m_seeds s"
  "m_dirty (upd_pos i f s) = m_dirty s" "m_pieces (upd_pos i f s) = m_pieces s"
  "m_priority_boundaries (upd_pos i f s) = m_priority_boundaries s"
  "m_downloads (upd_pos i f s) = m_downloads s"
  by (simp_all add: upd_pos_def num_pieces_def)

lemma upd_pos_nth:
  "j < num_pieces s \<Longrightarrow> m_piece_map (upd_pos i f s) ! j = (if j = i then f (m_piece_map s ! i) else m_piece_map s ! j)"
  by (auto simp: upd_pos_def num_pieces_def)

lemma picker_ok_upd_pos:
  assumes "picker_ok s" "i < num_pieces s \<Longrightarrow> pos_ok (f (m_piece_map s ! i))"
  shows "picker_ok (upd_pos i f s)"
proof (cases "i < num_pieces s")
  case True
  then show ?thesis using assms set_update_subset_insert [of "m_piece_map s" i "f (m_piece_map s ! i)"]
    by (auto simp: picker_ok_def) (auto simp: upd_pos_def)
next
  case False
  then have "m_piece_map (upd_pos i f s) = m_piece_map s"
    by (simp add: upd_pos_def num_pieces_def list_update_beyond)
  then show ?thesis using assms(1) by (simp add: picker_ok_def num_pieces_def)
qed

text \<open>The list is for the old priority of the piece as long as its index has not changed.\<close>

lemma pick_list_upd_pos:
  assumes l: "pick_list_for (priority_of s) s" and i: "i < num_pieces s"
    and f: "pp_index (f (m_piece_map s ! i)) = pp_index (m_piece_map s ! i)"
  shows "pick_list_for ((priority_of (upd_pos i f s))(i := priority_of s i)) (upd_pos i f s)"
proof -
  obtain bs where rep: "buckets_rep (m_piece_map s) (m_pieces s) (m_priority_boundaries s) (priority_of s) bs"
    using l by (auto simp: pick_list_for_def)
  have ix: "pp_index (m_piece_map (upd_pos i f s) ! j) = pp_index (m_piece_map s ! j)" if "j < num_pieces s" for j
    using that f by (simp add: upd_pos_nth)
  have len: "length (m_piece_map (upd_pos i f s)) = length (m_piece_map s)" by (simp add: upd_pos_def)
  have "indexed (m_piece_map (upd_pos i f s)) 0 (m_pieces s)"
    using buckets_repD(5) [OF rep] ix len unfolding indexed_nth by (auto simp: num_pieces_def)
  then have "buckets_rep (m_piece_map (upd_pos i f s)) (m_pieces s) (m_priority_boundaries s) (priority_of s) bs"
    using rep len unfolding buckets_rep_def by metis
  then have "pick_list_for (priority_of s) (upd_pos i f s)" by (auto simp: pick_list_for_def)
  moreover have "priority_of s j = ((priority_of (upd_pos i f s))(i := priority_of s i)) j" if "j < num_pieces s" for j
    using that by (auto simp: priority_of_def upd_pos_nth)
  ultimately show ?thesis
    using pick_list_for_cong [of "upd_pos i f s" "priority_of s" "(priority_of (upd_pos i f s))(i := priority_of s i)"]
    by (metis upd_pos_simps(1))
qed

text \<open>
  The recurring step of the operations: change a piece, then, unless the list is dirty,
  \<open>add\<close> or \<open>update\<close> it according to its priority before the change.
\<close>

definition sync_piece :: "int \<Rightarrow> nat \<Rightarrow> picker \<Rightarrow> picker" where
  "sync_piece prev_priority index s =
     (if m_dirty s then s
      else if prev_priority = priority_of s index then s
      else if prev_priority = -1 then picker_add index s
      else update_at (nat prev_priority) index s)"

lemma priority_of_ge: "picker_ok s \<Longrightarrow> i < num_pieces s \<Longrightarrow> -1 \<le> priority_of s i"
  unfolding priority_of_def by (rule pos_priority_ge) (rule picker_okD(3))

lemma sync_piece_ok:
  assumes inv: "order_inv s" and i: "i < num_pieces s"
    and f: "pp_index (f (m_piece_map s ! i)) = pp_index (m_piece_map s ! i)" "pos_ok (f (m_piece_map s ! i))"
  shows "order_inv (sync_piece (priority_of s i) i (upd_pos i f s))
       \<and> reorders (upd_pos i f s) (sync_piece (priority_of s i) i (upd_pos i f s))"
proof -
  let ?s = "upd_pos i f s"
  have ok: "picker_ok s" using inv by (simp add: order_inv_def)
  then have ok': "picker_ok ?s" by (rule picker_ok_upd_pos) (rule f(2))
  show ?thesis
  proof (cases "m_dirty s")
    case True
    then show ?thesis using ok' by (simp add: sync_piece_def order_inv_iff)
  next
    case False
    then have "pick_list_for (priority_of s) s" using inv by (simp add: order_inv_iff)
    from pick_list_upd_pos [of s i f, OF this i f(1)]
    have l: "pick_list_for ((priority_of ?s)(i := priority_of s i)) ?s" .
    have r: "piece_ready ?s i" using i ok' by (simp add: piece_ready_def)
    have eq: "sync_piece (priority_of s i) i ?s = po.resync (priority_of s i) i ?s"
      using False by (simp add: sync_piece_def po.resync_def)
    have law: "pick_list_for (priority_of ?s) (po.resync (priority_of s i) i ?s)
        \<and> reorders ?s (po.resync (priority_of s i) i ?s)"
      by (rule po.resync_law [OF r priority_of_ge [OF ok i] l])
    then show ?thesis unfolding eq order_inv_iff
      using reorders_picker_ok pick_list_reorders ok' by blast
  qed
qed

section \<open>The order of the pieces\<close>

lemma sorted_concat_buckets:
  assumes "\<forall>k < length bs. \<forall>x \<in> set (bs ! k). f x = int (m + k)"
  shows "sorted (map f (concat bs)) \<and> (\<forall>x \<in> set (concat bs). int m \<le> f x)"
  using assms
proof (induction bs arbitrary: m)
  case (Cons b bs)
  have b: "\<forall>x \<in> set b. f x = int m" using Cons.prems by force
  have "f x = int (Suc m + k)" if "k < length bs" "x \<in> set (bs ! k)" for k x
    using Cons.prems [rule_format, of "Suc k" x] that by simp
  note IH = Cons.IH [of "Suc m"] this
  have "sorted (map f b)" using b by (simp add: sorted_iff_nth_mono)
  moreover have "sorted (map f (concat bs)) \<and> (\<forall>x \<in> set (concat bs). int (Suc m) \<le> f x)" using IH by blast
  ultimately show ?case using b by (force simp: sorted_append)
qed simp

lemma pick_list_sorted:
  assumes "pick_list_for (priority_of s) s"
  shows "sorted (map (priority_of s) (m_pieces s)) \<and> distinct (m_pieces s)
    \<and> set (m_pieces s) = {i. i < num_pieces s \<and> 0 \<le> priority_of s i}"
proof -
  obtain bs where rep: "buckets_rep (m_piece_map s) (m_pieces s) (m_priority_boundaries s) (priority_of s) bs"
    using assms by (auto simp: pick_list_for_def)
  note R = buckets_repD [OF rep]
  have "sorted (map (priority_of s) (concat bs))" using sorted_concat_buckets [of bs "priority_of s" 0] R(6) by simp
  then show ?thesis using R(2,4) buckets_rep_mem [OF rep] by (auto simp: num_pieces_def)
qed

end
