(* ===== verification/Picker_Downloads.thy ===== *)
theory Picker_Downloads
  imports Picker_Sync
begin

text \<open>
  The partially downloaded pieces: \<open>m_downloads\<close> holds a \<open>downloading_piece\<close> per piece, in the
  queue of its state and sorted by index; the states of its blocks are a slice of
  \<open>m_block_info\<close>. This theory models the operations that create, move, query and remove partial
  pieces. An iterator into \<open>m_downloads\<close> is its queue and a position.
\<close>

section \<open>Access\<close>

type_synonym dl_iter = "dl_state \<times> nat"

record piece_block =
  piece_index :: nat
  block_index :: nat

definition dl_at :: "picker \<Rightarrow> dl_iter \<Rightarrow> downloading_piece" where
  "dl_at s it = m_downloads s (fst it) ! snd it"

definition set_queue :: "dl_state \<Rightarrow> downloading_piece list \<Rightarrow> picker \<Rightarrow> picker" where
  "set_queue q l s = s\<lparr>m_downloads := (m_downloads s)(q := l)\<rparr>"

definition upd_dl :: "dl_iter \<Rightarrow> (downloading_piece \<Rightarrow> downloading_piece) \<Rightarrow> picker \<Rightarrow> picker" where
  "upd_dl it f s = set_queue (fst it) ((m_downloads s (fst it))[snd it := f (dl_at s it)]) s"

text \<open>\<open>std::lower_bound\<close> over the order of \<open>downloading_piece\<close>, the piece index.\<close>

definition lower_bound :: "downloading_piece list \<Rightarrow> nat \<Rightarrow> nat" where
  "lower_bound l index = length (takeWhile (\<lambda>d. dp_index d < index) l)"

definition insert_at :: "nat \<Rightarrow> 'a \<Rightarrow> 'a list \<Rightarrow> 'a list" where
  "insert_at k x xs = take k xs @ x # drop k xs"

definition remove_at :: "nat \<Rightarrow> 'a list \<Rightarrow> 'a list" where
  "remove_at k xs = take k xs @ drop (k + 1) xs"

text \<open>The result is \<open>end()\<close>, the length of the queue, when there is no such piece.\<close>

definition find_dl_piece :: "picker \<Rightarrow> dl_state \<Rightarrow> nat \<Rightarrow> nat" where
  "find_dl_piece s queue index =
     (let l = m_downloads s queue; i = lower_bound l index
      in if i = length l then i
         else if dp_index (l ! i) = index then i
         else length l)"

definition find_piece :: "picker \<Rightarrow> nat \<Rightarrow> dl_iter" where
  "find_piece s index =
     (let q = download_queue (m_piece_map s ! index) in (q, find_dl_piece s q index))"

text \<open>Where block \<open>b\<close> of a partial piece is in \<open>m_block_info\<close>.\<close>

definition block_pos :: "picker \<Rightarrow> downloading_piece \<Rightarrow> nat \<Rightarrow> nat" where
  "block_pos s dp b = dp_info_idx dp * blocks_per_piece s + b"

definition blocks_for_piece :: "picker \<Rightarrow> downloading_piece \<Rightarrow> block_info list" where
  "blocks_for_piece s dp =
     take (blocks_in_piece s (dp_index dp)) (drop (dp_info_idx dp * blocks_per_piece s) (m_block_info s))"

definition upd_block :: "nat \<Rightarrow> (block_info \<Rightarrow> block_info) \<Rightarrow> picker \<Rightarrow> picker" where
  "upd_block k f s = s\<lparr>m_block_info := (m_block_info s)[k := f (m_block_info s ! k)]\<rparr>"

definition get_download_queue :: "picker \<Rightarrow> downloading_piece list" where
  "get_download_queue s = concat (map (m_downloads s) download_categories)"

definition get_download_queue_size :: "picker \<Rightarrow> nat" where
  "get_download_queue_size s = fold (\<lambda>c acc. acc + length (m_downloads s c)) download_categories 0"

definition get_download_queue_sizes :: "picker \<Rightarrow> nat \<times> nat \<times> nat \<times> nat" where
  "get_download_queue_sizes s =
     (length (m_downloads s piece_downloading), length (m_downloads s piece_full),
      length (m_downloads s piece_finished), length (m_downloads s piece_zero_prio))"

definition new_downloading_piece :: "nat \<Rightarrow> downloading_piece" where
  "new_downloading_piece piece =
     \<lparr>dp_index = piece, dp_info_idx = 0xffff, dp_finished = 0, dp_passed_hash_check = False,
      dp_writing = 0, dp_locked = False, dp_requested = 0, dp_hashing = 0\<rparr>"

definition new_block_info :: block_info where
  "new_block_info = \<lparr>bi_peer = None, bi_num_peers = 0, bi_state = state_none\<rparr>"

section \<open>Moving, creating and removing partial pieces\<close>

definition dl_open :: "downloading_piece \<Rightarrow> nat" where
  "dl_open dp = dp_requested dp + dp_finished dp + dp_writing dp"

definition next_state :: "picker \<Rightarrow> downloading_piece \<Rightarrow> dl_state" where
  "next_state s dp =
     (let p = m_piece_map s ! dp_index dp; num_blocks = blocks_in_piece s (dp_index dp)
      in if pos_filtered p then piece_zero_prio
         else if dp_requested dp + dp_finished dp + dp_writing dp + dp_hashing dp = 0 then piece_open
         else if dl_open dp < num_blocks
         then (if pos_reverse p then piece_downloading_reverse else piece_downloading)
         else if dp_requested dp > 0
         then (if pos_reverse p then piece_full_reverse else piece_full)
         else piece_finished)"

definition update_piece_state :: "dl_iter \<Rightarrow> picker \<Rightarrow> dl_iter \<times> picker" where
  "update_piece_state it s =
     (let dp_info = dl_at s it;
          index = dp_index dp_info;
          current_state = pp_state (m_piece_map s ! index);
          new_state = next_state s dp_info
      in if current_state = piece_open then (it, s)
         else if new_state = current_state then (it, s)
         else if new_state = piece_open then (it, s)
         else
           let q = download_queue (m_piece_map s ! index);
               s1 = set_queue q (remove_at (snd it) (m_downloads s q)) s;
               prio = priority_of s1 index;
               s2 = upd_pos index (\<lambda>p. p\<lparr>pp_state := new_state\<rparr>) s1;
               q' = queue_of_state new_state;
               i = lower_bound (m_downloads s2 q') index;
               s3 = set_queue q' (insert_at i dp_info (m_downloads s2 q')) s2;
               s4 = (if \<not> m_dirty s3 then
                       (if prio = -1 \<and> priority_of s3 index \<noteq> -1 then picker_add index s3
                        else if prio \<noteq> -1 then update_at (nat prio) index s3
                        else s3)
                     else s3)
           in ((q', i), s4))"

definition payload_blocks :: "picker \<Rightarrow> nat \<Rightarrow> nat" where
  "payload_blocks s piece = blocks_per_piece s - pad_bytes_in_piece s piece div block_size s"

text \<open>The initial blocks of a piece: those covered by padding are finished already.\<close>

definition init_blocks :: "picker \<Rightarrow> nat \<Rightarrow> block_info list" where
  "init_blocks s piece =
     map (\<lambda>k. if k \<ge> payload_blocks s piece
              then \<lparr>bi_peer = None, bi_num_peers = 0, bi_state = state_finished\<rparr>
              else new_block_info) [0..<blocks_in_piece s piece]"

definition write_blocks :: "nat \<Rightarrow> block_info list \<Rightarrow> picker \<Rightarrow> picker" where
  "write_blocks base bs s =
     s\<lparr>m_block_info := take base (m_block_info s) @ bs @ drop (base + length bs) (m_block_info s)\<rparr>"

definition count_state :: "block_state \<Rightarrow> block_info list \<Rightarrow> nat" where
  "count_state st bs = length (filter (\<lambda>b. bi_state b = st) bs)"

definition alloc_block_infos :: "picker \<Rightarrow> nat \<times> picker" where
  "alloc_block_infos s =
     (if m_free_block_infos s = [] then
        let blocks = blocks_per_piece s
        in (length (m_block_info s) div blocks,
            s\<lparr>m_block_info := m_block_info s @ replicate blocks new_block_info\<rparr>)
      else (last (m_free_block_infos s), s\<lparr>m_free_block_infos := butlast (m_free_block_infos s)\<rparr>))"

definition add_download_piece :: "nat \<Rightarrow> picker \<Rightarrow> dl_iter \<times> picker" where
  "add_download_piece piece s =
     (let (block_index, s1) = alloc_block_infos s;
          i = lower_bound (m_downloads s1 piece_downloading) piece;
          info_idx = block_index mod 2 ^ 16;
          blocks = init_blocks s1 piece;
          s2 = write_blocks (info_idx * blocks_per_piece s1) blocks s1;
          ret = (new_downloading_piece piece)
                  \<lparr>dp_info_idx := info_idx,
                   dp_finished := count_state state_finished blocks mod 2 ^ block_count_bits\<rparr>;
          s3 = set_queue piece_downloading (insert_at i ret (m_downloads s2 piece_downloading)) s2
      in update_piece_state (piece_downloading, i) s3)"

definition erase_download_piece :: "dl_iter \<Rightarrow> picker \<Rightarrow> picker" where
  "erase_download_piece it s =
     (let dp = dl_at s it;
          download_state = download_queue (m_piece_map s ! dp_index dp);
          s1 = s\<lparr>m_free_block_infos := m_free_block_infos s @ [dp_info_idx dp]\<rparr>;
          s2 = upd_pos (dp_index dp) (\<lambda>p. p\<lparr>pp_state := piece_open\<rparr>) s1
      in set_queue download_state (remove_at (snd it) (m_downloads s2 download_state)) s2)"

section \<open>Queries\<close>

definition piece_info :: "picker \<Rightarrow> nat \<Rightarrow> downloading_piece \<Rightarrow> downloading_piece" where
  "piece_info s index st =
     (let state = download_queue (m_piece_map s ! index)
      in if state \<noteq> piece_open then dl_at s (state, find_dl_piece s state index)
         else
           let st1 = st\<lparr>dp_info_idx := 0, dp_index := index, dp_writing := 0, dp_requested := 0\<rparr>
           in if pos_have (m_piece_map s ! index)
              then st1\<lparr>dp_finished := blocks_in_piece s index mod 2 ^ block_count_bits\<rparr>
              else st1\<lparr>dp_finished := 0\<rparr>)"

record piece_stats_t =
  ps_peer_count :: int
  ps_priority :: int
  ps_have :: bool
  ps_downloading :: bool

definition piece_stats :: "picker \<Rightarrow> nat \<Rightarrow> piece_stats_t" where
  "piece_stats s index =
     (let pp = m_piece_map s ! index
      in \<lparr>ps_peer_count = int (pp_peer_count pp) + m_seeds s, ps_priority = priority_of s index,
          ps_have = pos_have pp, ps_downloading = pos_downloading pp\<rparr>)"

definition is_piece_finished :: "picker \<Rightarrow> nat \<Rightarrow> bool" where
  "is_piece_finished s index =
     (let p = m_piece_map s ! index; state = download_queue p
      in if pp_index p = None then True
         else if state = piece_open then False
         else
           let i = dl_at s (find_piece s index); max_blocks = blocks_in_piece s index
           in \<not> dp_finished i + dp_writing i < max_blocks)"

definition is_hashing :: "picker \<Rightarrow> nat \<Rightarrow> bool" where
  "is_hashing s piece =
     (if download_queue (m_piece_map s ! piece) = piece_open then False
      else dp_hashing (dl_at s (find_piece s piece)) > 0)"

definition has_piece_passed :: "picker \<Rightarrow> nat \<Rightarrow> bool" where
  "has_piece_passed s index =
     (let p = m_piece_map s ! index
      in if pp_index p = None then True
         else if download_queue p = piece_open then False
         else dp_passed_hash_check (dl_at s (find_piece s index)))"

definition block_of :: "picker \<Rightarrow> piece_block \<Rightarrow> block_info" where
  "block_of s b = blocks_for_piece s (dl_at s (find_piece s (piece_index b))) ! block_index b"

definition is_requested :: "picker \<Rightarrow> piece_block \<Rightarrow> bool" where
  "is_requested s b =
     (if download_queue (m_piece_map s ! piece_index b) = piece_open then False
      else bi_state (block_of s b) = state_requested)"

definition is_downloaded :: "picker \<Rightarrow> piece_block \<Rightarrow> bool" where
  "is_downloaded s b =
     (let p = m_piece_map s ! piece_index b
      in if pp_index p = None then True
         else if download_queue p = piece_open then False
         else bi_state (block_of s b) = state_finished \<or> bi_state (block_of s b) = state_writing)"

definition is_finished_block :: "picker \<Rightarrow> piece_block \<Rightarrow> bool" where
  "is_finished_block s b =
     (let p = m_piece_map s ! piece_index b
      in if pp_index p = None then True
         else if download_queue p = piece_open then False
         else bi_state (block_of s b) = state_finished)"

definition num_peers :: "picker \<Rightarrow> piece_block \<Rightarrow> nat" where
  "num_peers s b =
     (if \<not> pos_downloading (m_piece_map s ! piece_index b) then 0
      else bi_num_peers (block_of s b))"

definition get_downloaders :: "picker \<Rightarrow> nat \<Rightarrow> nat option list" where
  "get_downloaders s index =
     (let state = download_queue (m_piece_map s ! index); num_blocks = blocks_in_piece s index
      in if state = piece_open then replicate num_blocks None
         else
           let binfo = blocks_for_piece s (dl_at s (find_piece s index))
           in map (\<lambda>j. bi_peer (binfo ! j)) [0..<num_blocks])"

definition get_downloader :: "picker \<Rightarrow> piece_block \<Rightarrow> nat option" where
  "get_downloader s b =
     (if download_queue (m_piece_map s ! piece_index b) = piece_open then None
      else if bi_state (block_of s b) = state_none then None
      else bi_peer (block_of s b))"

definition clear_peer :: "nat option \<Rightarrow> picker \<Rightarrow> picker" where
  "clear_peer peer s =
     s\<lparr>m_block_info := map (\<lambda>b. if bi_peer b = peer then b\<lparr>bi_peer := None\<rparr> else b) (m_block_info s)\<rparr>"

declare block_of_def [block_queries] is_requested_def [block_queries] is_downloaded_def [block_queries]
  get_downloader_def [block_queries] is_finished_block_def [block_queries]

end
