(* ===== verification/Picker_Frame.thy ===== *)
theory Picker_Frame
  imports Picker_Downloads
begin

text \<open>
  What most operations leave alone: which pieces we have, their priorities, the counters
  derived from them and the cursors. The order operations, the moves of partial pieces and the
  changes of blocks stay within this frame.
\<close>

text \<open>What only changes the order, the partial pieces or the state of pieces.\<close>

definition same_want :: "picker \<Rightarrow> picker \<Rightarrow> bool" where
  "same_want s s' \<longleftrightarrow>
     num_pieces s' = num_pieces s \<and> m_pads_in_piece s' = m_pads_in_piece s
     \<and> (\<forall>j < num_pieces s. pos_have (m_piece_map s' ! j) = pos_have (m_piece_map s ! j)
          \<and> pp_priority (m_piece_map s' ! j) = pp_priority (m_piece_map s ! j))
     \<and> m_num_have s' = m_num_have s \<and> m_num_filtered s' = m_num_filtered s
     \<and> m_num_have_filtered s' = m_num_have_filtered s \<and> m_num_pad_bytes s' = m_num_pad_bytes s
     \<and> m_have_pad_bytes s' = m_have_pad_bytes s \<and> m_filtered_pad_bytes s' = m_filtered_pad_bytes s
     \<and> m_have_filtered_pad_bytes s' = m_have_filtered_pad_bytes s
     \<and> m_cursor s' = m_cursor s \<and> m_reverse_cursor s' = m_reverse_cursor s"

lemma same_want_refl [simp]: "same_want s s"
  by (simp add: same_want_def)

lemma same_want_trans [trans]: "same_want s s' \<Longrightarrow> same_want s' s'' \<Longrightarrow> same_want s s''"
  by (auto simp: same_want_def)

lemma reorders_want: "reorders s s' \<Longrightarrow> same_want s s'"
  unfolding same_want_def
  by (intro conjI allI impI reorders_num_pieces reorders_pos(3,4) frozen_fields) (simp_all add: reorders_def)

lemma state_want:
  assumes "\<And>p. \<exists>st. f p = p\<lparr>pp_state := st\<rparr>"
  shows "same_want s (upd_pos i f s)"
proof -
  have "pos_have (f p) = pos_have p" "pp_priority (f p) = pp_priority p" for p
    using assms [of p] by (auto simp: pos_have_def)
  then show ?thesis by (auto simp: same_want_def upd_pos_nth) (auto simp: upd_pos_def)
qed

lemma frame_want [simp]:
  "same_want s (set_queue q l s)" "same_want s (upd_dl it g s)" "same_want s (upd_block k h s)"
  "same_want s (s\<lparr>m_num_passed := x\<rparr>)" "same_want s (s\<lparr>m_free_block_infos := y\<rparr>)"
  "same_want s (write_blocks base bs s)" "same_want s (s\<lparr>m_recent_extents := z\<rparr>)"
  "same_want s (s\<lparr>m_downloads := dls\<rparr>)" "same_want s (s\<lparr>m_block_info := bi\<rparr>)"
  by (simp_all add: same_want_def set_queue_def upd_dl_def upd_block_def write_blocks_def num_pieces_def)

lemma erase_want: "same_want s (erase_download_piece it s)"
proof -
  let ?d = "dl_at s it"
  let ?s1 = "s\<lparr>m_free_block_infos := m_free_block_infos s @ [dp_info_idx ?d]\<rparr>"
  have "same_want s ?s1" by simp
  moreover have "same_want ?s1 (upd_pos (dp_index ?d) (\<lambda>p. p\<lparr>pp_state := piece_open\<rparr>) ?s1)" by (rule state_want) blast
  ultimately show ?thesis unfolding erase_download_piece_def Let_def
    using same_want_trans [OF same_want_trans frame_want(1)] by blast
qed

lemma alloc_want: "same_want s (snd (alloc_block_infos s))"
  by (simp add: alloc_block_infos_def Let_def)

text \<open>What changes only how many peers have the pieces.\<close>

definition peers_only :: "picker \<Rightarrow> picker \<Rightarrow> bool" where
  "peers_only s s' \<longleftrightarrow> same_want s s' \<and> m_downloads s' = m_downloads s \<and> m_block_info s' = m_block_info s
     \<and> m_free_block_infos s' = m_free_block_infos s \<and> m_piece_size s' = m_piece_size s
     \<and> m_blocks_in_last_piece s' = m_blocks_in_last_piece s
     \<and> (\<forall>j < num_pieces s. pp_state (m_piece_map s' ! j) = pp_state (m_piece_map s ! j))"

lemma peers_only_refl [simp]: "peers_only s s"
  by (simp add: peers_only_def)

lemma peers_only_trans [trans]:
  assumes "peers_only s s'" "peers_only s' s''"
  shows "peers_only s s''"
proof -
  have "num_pieces s' = num_pieces s" using assms(1) by (simp add: peers_only_def same_want_def)
  then show ?thesis using assms same_want_trans [of s s' s''] by (simp add: peers_only_def)
qed

lemma reorders_peers: "reorders s s' \<Longrightarrow> peers_only s s'"
  using reorders_want [of s s'] reorders_pos(2) [of s s'] frozen_fields [of s' s]
  by (simp add: peers_only_def reorders_def)

lemma peers_only_upd_pos:
  assumes "\<And>p. \<exists>c. f p = p\<lparr>pp_peer_count := c\<rparr>"
  shows "peers_only s (upd_pos i f s)"
proof -
  have "pos_have (f p) = pos_have p" "pp_priority (f p) = pp_priority p" "pp_state (f p) = pp_state p" for p
    using assms [of p] by (auto simp: pos_have_def)
  then have "\<forall>j < num_pieces s. pos_have (m_piece_map (upd_pos i f s) ! j) = pos_have (m_piece_map s ! j)
      \<and> pp_priority (m_piece_map (upd_pos i f s) ! j) = pp_priority (m_piece_map s ! j)
      \<and> pp_state (m_piece_map (upd_pos i f s) ! j) = pp_state (m_piece_map s ! j)" by (simp add: upd_pos_nth)
  then show ?thesis by (simp add: peers_only_def same_want_def) (simp add: upd_pos_def)
qed

lemma peers_only_map:
  assumes "\<And>p. \<exists>c. f p = p\<lparr>pp_peer_count := c\<rparr>"
  shows "peers_only s (s\<lparr>m_piece_map := map f (m_piece_map s)\<rparr>)"
proof -
  have "pos_have (f p) = pos_have p" "pp_priority (f p) = pp_priority p" "pp_state (f p) = pp_state p" for p
    using assms [of p] by (auto simp: pos_have_def)
  then show ?thesis by (simp add: peers_only_def same_want_def num_pieces_def)
qed

lemma peers_only_fields [simp]: "peers_only s (s\<lparr>m_dirty := d\<rparr>)" "peers_only s (s\<lparr>m_seeds := n\<rparr>)"
  by (simp_all add: peers_only_def same_want_def num_pieces_def)

end
