(* ===== verification/Picker_Partial.thy ===== *)
theory Picker_Partial
  imports Picker_Frame
begin

text \<open>
  The invariant of the partial pieces and what the primitive operations (\<open>find_dl_piece\<close>,
  \<open>update_piece_state\<close>, \<open>add_download_piece\<close>, \<open>erase_download_piece\<close>, changing a block) do to it.
\<close>

section \<open>Queues\<close>

text \<open>The queues hold, in order, the pieces that \<open>f\<close> puts in them.\<close>

definition queues_for :: "(nat \<Rightarrow> dl_state) \<Rightarrow> picker \<Rightarrow> bool" where
  "queues_for f s \<longleftrightarrow>
     (\<forall>q \<in> set download_categories. map dp_index (m_downloads s q) = filter (\<lambda>i. f i = q) [0..<num_pieces s])"

definition queue_of :: "picker \<Rightarrow> nat \<Rightarrow> dl_state" where
  "queue_of s i = download_queue (m_piece_map s ! i)"

lemma in_categories: "q \<in> set download_categories \<longleftrightarrow>
    q = piece_downloading \<or> q = piece_full \<or> q = piece_finished \<or> q = piece_zero_prio"
  by (auto simp: download_categories_def)

lemma queue_of_state_category [simp]: "st \<noteq> piece_open \<Longrightarrow> queue_of_state st \<in> set download_categories"
  by (cases st) (auto simp: in_categories)

lemma queue_of_state_open [simp]: "queue_of_state st = piece_open \<longleftrightarrow> st = piece_open"
  by (cases st) auto

lemma filter_upt_append: "i \<le> n \<Longrightarrow> filter P [0..<n] = filter P [0..<i] @ filter P [i..<n]"
  by (metis filter_append le_add_diff_inverse upt_add_eq_append zero_le)

lemma filter_upt_split:
  "i < n \<Longrightarrow> filter P [0..<n] = filter P [0..<i] @ (if P i then [i] else []) @ filter P [Suc i..<n]"
  by (subst filter_upt_append [of i n]) (simp_all add: upt_conv_Cons [of i n])

lemma takeWhile_filter_upt:
  assumes "i \<le> n"
  shows "takeWhile (\<lambda>x. x < i) (filter P [0..<n]) = filter P [0..<i]"
proof -
  have "filter P [0..<n] = filter P [0..<i] @ filter P [i..<n]"
    using assms by (rule filter_upt_append)
  moreover have "takeWhile (\<lambda>x. x < i) (filter P [i..<n]) = []"
  proof (cases "filter P [i..<n]")
    case (Cons a l)
    then have "a \<in> set (filter P [i..<n])" by simp
    then have "i \<le> a" by auto
    then show ?thesis using Cons by simp
  qed simp
  moreover have "takeWhile (\<lambda>x. x < i) (filter P [0..<i] @ ys) = filter P [0..<i] @ takeWhile (\<lambda>x. x < i) ys" for ys
    by (rule takeWhile_append2) auto
  ultimately show ?thesis by simp
qed

lemma lower_bound_pos:
  assumes "map dp_index l = filter P [0..<n]" "i \<le> n"
  shows "lower_bound l i = length (filter P [0..<i])"
proof -
  have "lower_bound l i = length (takeWhile (\<lambda>x. x < i) (map dp_index l))"
    by (simp add: lower_bound_def takeWhile_map comp_def)
  then show ?thesis using takeWhile_filter_upt [OF assms(2), of P] assms(1) by simp
qed

lemma map_insert_at: "map f (insert_at k x xs) = insert_at k (f x) (map f xs)"
  by (simp add: insert_at_def take_map drop_map)

lemma map_remove_at: "map f (remove_at k xs) = remove_at k (map f xs)"
  by (simp add: remove_at_def take_map drop_map)

lemma insert_at_filter:
  assumes "i < n" "\<not> P i"
  shows "insert_at (length (filter P [0..<i])) i (filter P [0..<n]) = filter (P(i := True)) [0..<n]"
proof -
  have e: "filter (P(i := True)) [0..<i] = filter P [0..<i]" "filter (P(i := True)) [Suc i..<n] = filter P [Suc i..<n]"
    by (rule filter_cong; auto)+
  have "filter P [0..<n] = filter P [0..<i] @ filter P [Suc i..<n]"
    using filter_upt_split [OF assms(1), of P] assms(2) by simp
  moreover have "filter (P(i := True)) [0..<n] = filter P [0..<i] @ i # filter P [Suc i..<n]"
    using filter_upt_split [OF assms(1), of "P(i := True)"] e by simp
  ultimately show ?thesis by (simp add: insert_at_def)
qed

lemma remove_at_filter:
  assumes "i < n" "P i"
  shows "remove_at (length (filter P [0..<i])) (filter P [0..<n]) = filter (P(i := False)) [0..<n]"
proof -
  have e: "filter (P(i := False)) [0..<i] = filter P [0..<i]" "filter (P(i := False)) [Suc i..<n] = filter P [Suc i..<n]"
    by (rule filter_cong; auto)+
  have "filter P [0..<n] = filter P [0..<i] @ i # filter P [Suc i..<n]"
    using filter_upt_split [OF assms(1), of P] assms(2) by simp
  moreover have "filter (P(i := False)) [0..<n] = filter P [0..<i] @ filter P [Suc i..<n]"
    using filter_upt_split [OF assms(1), of "P(i := False)"] e by simp
  ultimately show ?thesis by (simp add: remove_at_def)
qed

text \<open>A piece that is in a queue is found there.\<close>

lemma find_dl_piece_ok:
  assumes Q: "queues_for f s" and i: "i < num_pieces s" and q: "f i = q" "q \<in> set download_categories"
  shows "find_dl_piece s q i < length (m_downloads s q)"
    "dp_index (m_downloads s q ! find_dl_piece s q i) = i"
    "find_dl_piece s q i = length (filter (\<lambda>j. f j = q) [0..<i])"
proof -
  let ?l = "m_downloads s q" and ?P = "\<lambda>j. f j = q"
  have l: "map dp_index ?l = filter ?P [0..<num_pieces s]" using Q q(2) by (simp add: queues_for_def)
  then have lb: "lower_bound ?l i = length (filter ?P [0..<i])" using i by (simp add: lower_bound_pos)
  have sp: "filter ?P [0..<num_pieces s] = filter ?P [0..<i] @ i # filter ?P [Suc i..<num_pieces s]"
    using filter_upt_split [OF i, of ?P] q(1) by simp
  then have lt: "lower_bound ?l i < length ?l" using l lb by (metis length_map length_append length_Cons add_Suc_right less_add_Suc1)
  have "map dp_index ?l ! lower_bound ?l i = i" using l lb sp by (simp add: nth_append)
  then have "dp_index (?l ! lower_bound ?l i) = i" using lt by simp
  then have "find_dl_piece s q i = lower_bound ?l i" using lt by (simp add: find_dl_piece_def Let_def)
  then show "find_dl_piece s q i < length (m_downloads s q)"
    "dp_index (m_downloads s q ! find_dl_piece s q i) = i"
    "find_dl_piece s q i = length (filter ?P [0..<i])"
    using lt lb \<open>dp_index (?l ! lower_bound ?l i) = i\<close> by simp_all
qed

lemma queues_for_cong:
  "(\<And>i. i < num_pieces s \<Longrightarrow> f i = g i) \<Longrightarrow> queues_for f s = queues_for g s"
  unfolding queues_for_def by (intro ball_cong refl arg_cong [of _ _ "\<lambda>l. _ = l"] filter_cong) auto

text \<open>Taking a piece out of its queue, and putting one in.\<close>

lemma queues_for_remove:
  assumes Q: "queues_for f s" and i: "i < num_pieces s" and q: "f i = q" "q \<in> set download_categories"
  shows "queues_for (f(i := piece_open)) (set_queue q (remove_at (find_dl_piece s q i) (m_downloads s q)) s)"
  unfolding queues_for_def
proof (intro ballI)
  fix r assume r: "r \<in> set download_categories"
  then have ro: "r \<noteq> piece_open" by (auto simp: in_categories)
  show "map dp_index (m_downloads (set_queue q (remove_at (find_dl_piece s q i) (m_downloads s q)) s) r)
      = filter (\<lambda>j. (f(i := piece_open)) j = r) [0..<num_pieces (set_queue q (remove_at (find_dl_piece s q i) (m_downloads s q)) s)]"
  proof (cases "r = q")
    case True
    have "map dp_index (remove_at (find_dl_piece s q i) (m_downloads s q))
        = filter ((\<lambda>j. f j = q)(i := False)) [0..<num_pieces s]"
      using Q q(2) find_dl_piece_ok(3) [OF Q i q] remove_at_filter [of i "num_pieces s" "\<lambda>j. f j = q"] i q(1)
      by (simp add: map_remove_at queues_for_def)
    also have "\<dots> = filter (\<lambda>j. (f(i := piece_open)) j = q) [0..<num_pieces s]"
      using ro True by (intro filter_cong) auto
    finally show ?thesis using True by (simp add: set_queue_def num_pieces_def)
  next
    case False
    have "filter (\<lambda>j. (f(i := piece_open)) j = r) [0..<num_pieces s] = filter (\<lambda>j. f j = r) [0..<num_pieces s]"
      using ro False q(1) by (intro filter_cong) auto
    then show ?thesis using Q r False by (simp add: set_queue_def num_pieces_def queues_for_def)
  qed
qed

lemma queues_for_insert:
  assumes Q: "queues_for (f(i := piece_open)) s" and i: "i < num_pieces s" and q: "f i = q" "q \<in> set download_categories"
    and d: "dp_index d = i"
  shows "queues_for f (set_queue q (insert_at (lower_bound (m_downloads s q) i) d (m_downloads s q)) s)"
  unfolding queues_for_def
proof (intro ballI)
  fix r assume r: "r \<in> set download_categories"
  then have ro: "r \<noteq> piece_open" by (auto simp: in_categories)
  let ?P = "\<lambda>j. (f(i := piece_open)) j = q"
  show "map dp_index (m_downloads (set_queue q (insert_at (lower_bound (m_downloads s q) i) d (m_downloads s q)) s) r)
      = filter (\<lambda>j. f j = r) [0..<num_pieces (set_queue q (insert_at (lower_bound (m_downloads s q) i) d (m_downloads s q)) s)]"
  proof (cases "r = q")
    case True
    have l: "map dp_index (m_downloads s q) = filter ?P [0..<num_pieces s]" using Q q(2) by (simp add: queues_for_def)
    have "map dp_index (insert_at (lower_bound (m_downloads s q) i) d (m_downloads s q))
        = filter (?P(i := True)) [0..<num_pieces s]"
      using l lower_bound_pos [OF l, of i] insert_at_filter [of i "num_pieces s" ?P] i ro True d
      by (simp add: map_insert_at)
    also have "\<dots> = filter (\<lambda>j. f j = q) [0..<num_pieces s]"
      using q(1) by (intro filter_cong) auto
    finally show ?thesis using True by (simp add: set_queue_def num_pieces_def)
  next
    case False
    have "filter (\<lambda>j. (f(i := piece_open)) j = r) [0..<num_pieces s] = filter (\<lambda>j. f j = r) [0..<num_pieces s]"
      using ro False q(1) by (intro filter_cong) auto
    then show ?thesis using Q r False by (simp add: set_queue_def num_pieces_def queues_for_def)
  qed
qed

section \<open>The invariant\<close>

definition slots :: "picker \<Rightarrow> nat" where
  "slots s = length (m_block_info s) div blocks_per_piece s"

definition geom_ok :: "picker \<Rightarrow> bool" where
  "geom_ok s \<longleftrightarrow> 0 < m_piece_size s \<and> blocks_per_piece s < 2 ^ block_count_bits
     \<and> 0 < m_blocks_in_last_piece s \<and> m_blocks_in_last_piece s \<le> blocks_per_piece s"

text \<open>Every slice of \<open>m_block_info\<close> belongs to exactly one partial piece or is free.\<close>

definition alloc_ok :: "picker \<Rightarrow> bool" where
  "alloc_ok s \<longleftrightarrow> length (m_block_info s) = slots s * blocks_per_piece s
     \<and> sort (map dp_info_idx (get_download_queue s) @ m_free_block_infos s) = [0..<slots s]"

text \<open>The counters of a partial piece are the numbers of its blocks in each state.\<close>

definition counts_match :: "picker \<Rightarrow> downloading_piece \<Rightarrow> bool" where
  "counts_match s d \<longleftrightarrow>
     dp_requested d = count_state state_requested (blocks_for_piece s d)
     \<and> dp_writing d = count_state state_writing (blocks_for_piece s d)
     \<and> dp_finished d = count_state state_finished (blocks_for_piece s d)"

definition counts_ok :: "picker \<Rightarrow> bool" where
  "counts_ok s \<longleftrightarrow> (\<forall>d \<in> set (get_download_queue s). counts_match s d)"

definition dl_core :: "(nat \<Rightarrow> dl_state) \<Rightarrow> picker \<Rightarrow> bool" where
  "dl_core f s \<longleftrightarrow> geom_ok s \<and> queues_for f s \<and> alloc_ok s \<and> counts_ok s"

definition full_ok :: "picker \<Rightarrow> (nat \<Rightarrow> bool) \<Rightarrow> bool" where
  "full_ok s P \<longleftrightarrow> (\<forall>d \<in> set (get_download_queue s).
     P (dp_index d) \<and> pp_state (m_piece_map s ! dp_index d) = piece_full \<longrightarrow> 0 < dp_requested d)"

definition dl_ok :: "picker \<Rightarrow> bool" where
  "dl_ok s \<longleftrightarrow> dl_core (queue_of s) s \<and> full_ok s (\<lambda>_. True)"

subsection \<open>What it depends on\<close>

definition same_dl :: "picker \<Rightarrow> picker \<Rightarrow> bool" where
  "same_dl s s' \<longleftrightarrow> num_pieces s' = num_pieces s \<and> m_downloads s' = m_downloads s
     \<and> m_block_info s' = m_block_info s \<and> m_free_block_infos s' = m_free_block_infos s
     \<and> m_piece_size s' = m_piece_size s \<and> m_blocks_in_last_piece s' = m_blocks_in_last_piece s"

lemma same_dl_fields:
  assumes "same_dl s s'"
  shows "num_pieces s' = num_pieces s" "m_downloads s' = m_downloads s" "m_block_info s' = m_block_info s"
    "m_free_block_infos s' = m_free_block_infos s" "m_piece_size s' = m_piece_size s"
    "m_blocks_in_last_piece s' = m_blocks_in_last_piece s" "block_size s' = block_size s"
    "blocks_per_piece s' = blocks_per_piece s" "blocks_in_piece s' = blocks_in_piece s"
    "get_download_queue s' = get_download_queue s" "slots s' = slots s" "dl_at s' = dl_at s"
    "block_pos s' = block_pos s" "blocks_for_piece s' = blocks_for_piece s" "find_dl_piece s' = find_dl_piece s"
  using assms by (auto simp: same_dl_def block_size_def blocks_per_piece_def blocks_in_piece_def
      get_download_queue_def slots_def dl_at_def block_pos_def blocks_for_piece_def find_dl_piece_def intro!: ext)

lemma same_dl_core: "same_dl s s' \<Longrightarrow> dl_core f s' = dl_core f s"
  by (simp add: dl_core_def geom_ok_def queues_for_def alloc_ok_def counts_ok_def counts_match_def same_dl_fields)

lemma same_dl_refl [simp]: "same_dl s s"
  by (simp add: same_dl_def)

lemma same_dl_trans: "same_dl s s' \<Longrightarrow> same_dl s' s'' \<Longrightarrow> same_dl s s''"
  by (simp add: same_dl_def)

lemma same_dl_upd_pos [simp]: "same_dl s (upd_pos i f s)"
  by (simp add: same_dl_def upd_pos_def num_pieces_def)

lemma reorders_same_dl:
  assumes "reorders s s'"
  shows "same_dl s s'"
  using reorders_num_pieces [OF assms] frozen_fields [of s' s] assms by (simp add: same_dl_def reorders_def)

lemma reorders_queue_of: "reorders s s' \<Longrightarrow> i < num_pieces s \<Longrightarrow> queue_of s' i = queue_of s i"
  by (simp add: queue_of_def download_queue_def reorders_pos)

lemma partial_index_lt:
  assumes "queues_for f s" "d \<in> set (get_download_queue s)"
  shows "dp_index d < num_pieces s"
proof -
  obtain q where q: "q \<in> set download_categories" "d \<in> set (m_downloads s q)"
    using assms(2) by (auto simp: get_download_queue_def)
  then have "dp_index d \<in> set (map dp_index (m_downloads s q))" by simp
  also have "map dp_index (m_downloads s q) = filter (\<lambda>i. f i = q) [0..<num_pieces s]"
    using assms(1) q(1) by (simp add: queues_for_def)
  finally show ?thesis by simp
qed

lemma reorders_full_ok:
  assumes "reorders s s'" "queues_for f s"
  shows "full_ok s' P = full_ok s P"
  using same_dl_fields [OF reorders_same_dl [OF assms(1)]] reorders_pos(2) [OF assms(1)] partial_index_lt [OF assms(2)]
  by (simp add: full_ok_def)

lemma reorders_dl_core:
  assumes "reorders s s'"
  shows "dl_core (queue_of s') s' = dl_core (queue_of s) s"
proof -
  have "queues_for (queue_of s') s = queues_for (queue_of s) s"
    by (rule queues_for_cong) (rule reorders_queue_of [OF assms])
  then show ?thesis unfolding same_dl_core [OF reorders_same_dl [OF assms]] by (simp add: dl_core_def)
qed

lemma reorders_dl_ok: "reorders s s' \<Longrightarrow> dl_ok s' = dl_ok s"
  unfolding dl_ok_def using reorders_dl_core reorders_full_ok by (metis dl_core_def)

section \<open>Multisets of partial pieces\<close>

lemma mset_remove_at: "k < length xs \<Longrightarrow> add_mset (xs ! k) (mset (remove_at k xs)) = mset xs"
  by (subst id_take_nth_drop [of k xs]) (simp_all add: remove_at_def)

lemma mset_insert_at: "mset (insert_at k x xs) = add_mset x (mset xs)"
proof -
  have "mset xs = mset (take k xs @ drop k xs)" by simp
  then show ?thesis unfolding insert_at_def by (simp only: mset_append mset.simps) simp
qed

lemma mset_partials_set_queue:
  assumes "q \<in> set download_categories"
  shows "mset (get_download_queue (set_queue q l s)) + mset (m_downloads s q) = mset (get_download_queue s) + mset l"
  using assms by (auto simp: get_download_queue_def download_categories_def set_queue_def ac_simps)

lemma alloc_ok_mset:
  "alloc_ok s \<longleftrightarrow> length (m_block_info s) = slots s * blocks_per_piece s
     \<and> image_mset dp_info_idx (mset (get_download_queue s)) + mset (m_free_block_infos s) = mset [0..<slots s]"
proof -
  have "sort xs = [0..<k] \<longleftrightarrow> mset xs = mset [0..<k]" for xs :: "nat list" and k
    by (metis mset_sort properties_for_sort sorted_upt)
  then show ?thesis by (simp add: alloc_ok_def)
qed

lemma alloc_okD:
  assumes "alloc_ok s"
  shows "length (m_block_info s) = slots s * blocks_per_piece s" "distinct (map dp_info_idx (get_download_queue s))"
    "\<And>d. d \<in> set (get_download_queue s) \<Longrightarrow> dp_info_idx d < slots s"
proof -
  have eq: "mset (map dp_info_idx (get_download_queue s) @ m_free_block_infos s) = mset [0..<slots s]"
    using assms by (simp add: alloc_ok_mset)
  then have d: "distinct (map dp_info_idx (get_download_queue s) @ m_free_block_infos s)"
    by (metis distinct_upt mset_eq_imp_distinct_iff)
  have "set (map dp_info_idx (get_download_queue s) @ m_free_block_infos s) = {0..<slots s}"
    using mset_eq_setD [OF eq] by simp
  then show "dp_info_idx d' < slots s" if "d' \<in> set (get_download_queue s)" for d'
    using that by (metis UnI1 atLeastLessThan_iff image_eqI set_append set_map)
  show "distinct (map dp_info_idx (get_download_queue s))" using d by simp
  show "length (m_block_info s) = slots s * blocks_per_piece s" using assms by (simp add: alloc_ok_def)
qed

lemma alloc_ok_inj:
  assumes "alloc_ok s" "d \<in> set (get_download_queue s)" "d' \<in> set (get_download_queue s)" "dp_info_idx d = dp_info_idx d'"
  shows "d = d'"
  using alloc_okD(2) [OF assms(1)] assms(2-) by (auto simp: distinct_map inj_on_def)

lemma queues_for_mset_cong:
  assumes "map dp_index l = map dp_index (m_downloads s q)" "queues_for f s"
  shows "queues_for f (set_queue q l s)"
  using assms by (auto simp: queues_for_def set_queue_def num_pieces_def)

text \<open>The partial piece an iterator points to, and the others.\<close>

lemma dl_at_in:
  assumes "q \<in> set download_categories" "k < length (m_downloads s q)"
  shows "dl_at s (q, k) \<in> set (get_download_queue s)"
  using assms by (auto simp: dl_at_def get_download_queue_def intro!: bexI [of _ q])

lemma mset_partials_upd_dl:
  assumes "q \<in> set download_categories" "k < length (m_downloads s q)"
  shows "add_mset (dl_at s (q, k)) (mset (get_download_queue (upd_dl (q, k) g s)))
       = add_mset (g (dl_at s (q, k))) (mset (get_download_queue s))"
proof -
  let ?l = "m_downloads s q"
  have "mset (?l[k := g (?l ! k)]) + {#?l ! k#} = mset ?l + {#g (?l ! k)#}"
    using assms(2) by (simp add: mset_update)
  moreover have "mset (get_download_queue (upd_dl (q, k) g s)) + mset ?l
      = mset (get_download_queue s) + mset (?l[k := g (?l ! k)])"
    unfolding upd_dl_def using mset_partials_set_queue [OF assms(1)] by (simp add: dl_at_def)
  moreover have "M' + X + L = M + Y + L" if "L' + X = L + Y" "M' + L = M + L'"
    for L L' M M' X Y :: "downloading_piece multiset"
  proof -
    have "M' + X + L = (M' + L) + X" by (simp add: ac_simps)
    also have "\<dots> = M + (L' + X)" using that(2) by (simp add: ac_simps)
    also have "\<dots> = M + Y + L" using that(1) by (simp add: ac_simps)
    finally show ?thesis .
  qed
  ultimately have "mset (get_download_queue (upd_dl (q, k) g s)) + {#?l ! k#} + mset ?l
      = mset (get_download_queue s) + {#g (?l ! k)#} + mset ?l" by blast
  then have "mset (get_download_queue (upd_dl (q, k) g s)) + {#?l ! k#} = mset (get_download_queue s) + {#g (?l ! k)#}"
    by simp
  then show ?thesis by (simp add: dl_at_def)
qed

subsection \<open>One partial piece and the others\<close>

lemma partial_split:
  assumes "q \<in> set download_categories" "k < length (m_downloads s q)"
  obtains R where "mset (get_download_queue s) = add_mset (dl_at s (q, k)) R"
    "\<And>g. mset (get_download_queue (upd_dl (q, k) g s)) = add_mset (g (dl_at s (q, k))) R"
proof -
  have "dl_at s (q, k) \<in># mset (get_download_queue s)" using dl_at_in [OF assms] by simp
  then obtain R where R: "mset (get_download_queue s) = add_mset (dl_at s (q, k)) R" by (meson multi_member_split)
  have "mset (get_download_queue (upd_dl (q, k) g s)) = add_mset (g (dl_at s (q, k))) R" for g
  proof -
    have "add_mset (dl_at s (q, k)) (mset (get_download_queue (upd_dl (q, k) g s)))
        = add_mset (dl_at s (q, k)) (add_mset (g (dl_at s (q, k))) R)"
      using mset_partials_upd_dl [OF assms, of g] unfolding R by (simp only: add_mset_commute)
    then show ?thesis by simp
  qed
  then show thesis using that R by blast
qed

lemma distinct_partial_index:
  assumes "queues_for f s"
  shows "distinct (map dp_index (get_download_queue s))"
proof -
  have "map dp_index (get_download_queue s) = concat (map (\<lambda>q. filter (\<lambda>i. f i = q) [0..<num_pieces s]) download_categories)"
    using assms by (simp add: get_download_queue_def queues_for_def download_categories_def)
  moreover have "distinct (concat (map (\<lambda>q. filter (\<lambda>i. f i = q) [0..<num_pieces s]) download_categories))"
    by (auto simp: download_categories_def)
  ultimately show ?thesis by simp
qed

lemma partial_others:
  assumes "dl_core f s" "mset (get_download_queue s) = add_mset d R" "d' \<in># R"
  shows "d' \<in> set (get_download_queue s)" "dp_info_idx d' \<noteq> dp_info_idx d" "dp_index d' \<noteq> dp_index d"
proof -
  show "d' \<in> set (get_download_queue s)"
    using assms(2,3) by (metis insertI2 set_mset_add_mset_insert set_mset_mset)
  have one: "h d' \<noteq> h d" if "distinct (map h (get_download_queue s))" for h :: "downloading_piece \<Rightarrow> nat"
  proof
    assume "h d' = h d"
    have "mset (map h (get_download_queue s)) = add_mset (h d) (image_mset h R)"
      using assms(2) by (metis image_mset_add_mset mset_map)
    moreover have "h d \<in># image_mset h R" using assms(3) \<open>h d' = h d\<close> by (metis image_eqI set_image_mset)
    ultimately have "count (mset (map h (get_download_queue s))) (h d) \<ge> 2"
      by (metis count_add_mset count_greater_zero_iff Suc_le_eq less_eq_Suc_le numeral_2_eq_2 not_less_eq_eq)
    moreover have "count (mset (map h (get_download_queue s))) (h d) \<le> 1"
      using that by (simp add: distinct_count_atmost_1)
    ultimately show False by simp
  qed
  show "dp_info_idx d' \<noteq> dp_info_idx d" using assms(1) by (intro one alloc_okD(2)) (simp add: dl_core_def)
  show "dp_index d' \<noteq> dp_index d" using assms(1) by (intro one distinct_partial_index [of f]) (simp add: dl_core_def)
qed

lemma counts_ok_mset: "counts_ok s \<longleftrightarrow> (\<forall>d \<in># mset (get_download_queue s). counts_match s d)"
  by (simp add: counts_ok_def)

lemma full_ok_mset: "full_ok s P \<longleftrightarrow> (\<forall>d \<in># mset (get_download_queue s).
     P (dp_index d) \<and> pp_state (m_piece_map s ! dp_index d) = piece_full \<longrightarrow> 0 < dp_requested d)"
  by (simp add: full_ok_def)

subsection \<open>Blocks\<close>

lemma geom_okD:
  assumes "geom_ok s"
  shows "0 < blocks_per_piece s" "blocks_per_piece s < 2 ^ block_count_bits"
    "blocks_in_piece s i \<le> blocks_per_piece s" "0 < blocks_in_piece s i"
  using assms by (auto simp: geom_ok_def blocks_in_piece_def)

lemma length_blocks_for_piece:
  assumes "geom_ok s" "alloc_ok s" "dp_info_idx d < slots s"
  shows "length (blocks_for_piece s d) = blocks_in_piece s (dp_index d)"
    "dp_info_idx d * blocks_per_piece s + blocks_per_piece s \<le> length (m_block_info s)"
proof -
  have "dp_info_idx d * blocks_per_piece s + blocks_per_piece s = (dp_info_idx d + 1) * blocks_per_piece s"
    by simp
  also have "\<dots> \<le> slots s * blocks_per_piece s" using assms(3) by (intro mult_right_mono) simp_all
  finally show le: "dp_info_idx d * blocks_per_piece s + blocks_per_piece s \<le> length (m_block_info s)"
    using alloc_okD(1) [OF assms(2)] by simp
  show "length (blocks_for_piece s d) = blocks_in_piece s (dp_index d)"
    using le geom_okD(3) [OF assms(1), of "dp_index d"] by (simp add: blocks_for_piece_def)
qed

lemma block_pos_nth:
  assumes "geom_ok s" "alloc_ok s" "dp_info_idx d < slots s" "b < blocks_in_piece s (dp_index d)"
  shows "m_block_info s ! block_pos s d b = blocks_for_piece s d ! b" "block_pos s d b < length (m_block_info s)"
  using assms length_blocks_for_piece [OF assms(1-3)] geom_okD(3) [OF assms(1), of "dp_index d"]
  by (auto simp: block_pos_def blocks_for_piece_def)

lemma upd_block_simps [simp]:
  "m_piece_map (upd_block k f s) = m_piece_map s" "m_downloads (upd_block k f s) = m_downloads s"
  "num_pieces (upd_block k f s) = num_pieces s" "blocks_per_piece (upd_block k f s) = blocks_per_piece s"
  "blocks_in_piece (upd_block k f s) = blocks_in_piece s" "slots (upd_block k f s) = slots s"
  "get_download_queue (upd_block k f s) = get_download_queue s" "dl_at (upd_block k f s) = dl_at s"
  "m_free_block_infos (upd_block k f s) = m_free_block_infos s" "block_pos (upd_block k f s) = block_pos s"
  "queue_of (upd_block k f s) = queue_of s" "find_piece (upd_block k f s) = find_piece s"
  "length (m_block_info (upd_block k f s)) = length (m_block_info s)"
  "m_piece_size (upd_block k f s) = m_piece_size s" "m_blocks_in_last_piece (upd_block k f s) = m_blocks_in_last_piece s"
  by (auto simp: upd_block_def num_pieces_def blocks_per_piece_def block_size_def blocks_in_piece_def slots_def
      get_download_queue_def dl_at_def block_pos_def queue_of_def find_piece_def find_dl_piece_def intro!: ext)

lemma upd_dl_simps [simp]:
  "m_piece_map (upd_dl it g s) = m_piece_map s" "m_block_info (upd_dl it g s) = m_block_info s"
  "num_pieces (upd_dl it g s) = num_pieces s" "blocks_per_piece (upd_dl it g s) = blocks_per_piece s"
  "blocks_in_piece (upd_dl it g s) = blocks_in_piece s" "slots (upd_dl it g s) = slots s"
  "m_free_block_infos (upd_dl it g s) = m_free_block_infos s" "block_pos (upd_dl it g s) = block_pos s"
  "queue_of (upd_dl it g s) = queue_of s" "blocks_for_piece (upd_dl it g s) = blocks_for_piece s"
  "m_piece_size (upd_dl it g s) = m_piece_size s" "m_blocks_in_last_piece (upd_dl it g s) = m_blocks_in_last_piece s"
  "length (m_downloads (upd_dl it g s) q) = length (m_downloads s q)"
  by (auto simp: upd_dl_def set_queue_def num_pieces_def blocks_per_piece_def block_size_def blocks_in_piece_def slots_def
      block_pos_def queue_of_def blocks_for_piece_def intro!: ext)

lemma dl_at_upd_dl [simp]: "snd it < length (m_downloads s (fst it)) \<Longrightarrow> dl_at (upd_dl it g s) it = g (dl_at s it)"
  by (simp add: upd_dl_def set_queue_def dl_at_def)

lemma blocks_upd_other:
  assumes g: "geom_ok s" and b: "b < blocks_per_piece s" and ne: "dp_info_idx d' \<noteq> dp_info_idx d"
  shows "blocks_for_piece (upd_block (block_pos s d b) F s) d' = blocks_for_piece s d'"
proof -
  let ?n = "blocks_per_piece s" and ?i = "dp_info_idx d" and ?j = "dp_info_idx d'"
  have nb: "blocks_in_piece s (dp_index d') \<le> ?n" using g by (rule geom_okD(3))
  consider "?i < ?j" | "?j < ?i" using ne by linarith
  then show ?thesis
  proof cases
    case 1
    then have "(?i + 1) * ?n \<le> ?j * ?n" by (intro mult_right_mono) simp_all
    then have "block_pos s d b < ?j * ?n" using b by (simp add: block_pos_def)
    then show ?thesis by (simp add: blocks_for_piece_def upd_block_def blocks_in_piece_def blocks_per_piece_def
          block_size_def num_pieces_def)
  next
    case 2
    then have "(?j + 1) * ?n \<le> ?i * ?n" by (intro mult_right_mono) simp_all
    then have "?j * ?n \<le> block_pos s d b" "blocks_in_piece s (dp_index d') \<le> block_pos s d b - ?j * ?n"
      using nb by (simp_all add: block_pos_def)
    then have "take (blocks_in_piece s (dp_index d')) (drop (?j * ?n) (m_block_info (upd_block (block_pos s d b) F s)))
        = take (blocks_in_piece s (dp_index d')) (drop (?j * ?n) (m_block_info s))"
      by (simp add: upd_block_def drop_update_swap)
    then show ?thesis by (simp add: blocks_for_piece_def)
  qed
qed

lemma blocks_upd_same:
  assumes "geom_ok s" "alloc_ok s" "dp_info_idx d < slots s" "b < blocks_in_piece s (dp_index d)"
    "dp_info_idx d' = dp_info_idx d" "dp_index d' = dp_index d"
  shows "blocks_for_piece (upd_block (block_pos s d b) F s) d'
       = (blocks_for_piece s d)[b := F (m_block_info s ! block_pos s d b)]"
proof -
  let ?n = "blocks_in_piece s (dp_index d)"
  have "drop (dp_info_idx d * blocks_per_piece s) ((m_block_info s)[block_pos s d b := v])
      = (drop (dp_info_idx d * blocks_per_piece s) (m_block_info s))[b := v]" for v
    by (simp add: drop_update_swap block_pos_def)
  then show ?thesis using assms(5,6) by (simp add: blocks_for_piece_def upd_block_def take_update_swap
        blocks_in_piece_def blocks_per_piece_def block_size_def num_pieces_def)
qed

lemma count_state_upd:
  "b < length bs \<Longrightarrow> count_state st (bs[b := x]) + (if bi_state (bs ! b) = st then 1 else 0)
     = count_state st bs + (if bi_state x = st then 1 else 0)"
proof (induction bs arbitrary: b)
  case (Cons a bs)
  then show ?case by (cases b) (auto simp: count_state_def)
qed simp

lemma count_state_le: "count_state st bs \<le> length bs"
  by (simp add: count_state_def)

text \<open>Changing one block together with the counters keeps the invariant.\<close>

lemma dl_core_modify:
  assumes core: "dl_core f s" and it: "q \<in> set download_categories" "k < length (m_downloads s q)"
    and b: "b < blocks_in_piece s (dp_index (dl_at s (q, k)))"
    and G: "dp_index (G (dl_at s (q, k))) = dp_index (dl_at s (q, k))"
      "dp_info_idx (G (dl_at s (q, k))) = dp_info_idx (dl_at s (q, k))"
    and x: "old = m_block_info s ! block_pos s (dl_at s (q, k)) b"
    and cnt: "dp_requested (G (dl_at s (q, k))) + (if bi_state old = state_requested then 1 else 0)
        = dp_requested (dl_at s (q, k)) + (if bi_state (F old) = state_requested then 1 else 0)"
      "dp_writing (G (dl_at s (q, k))) + (if bi_state old = state_writing then 1 else 0)
        = dp_writing (dl_at s (q, k)) + (if bi_state (F old) = state_writing then 1 else 0)"
      "dp_finished (G (dl_at s (q, k))) + (if bi_state old = state_finished then 1 else 0)
        = dp_finished (dl_at s (q, k)) + (if bi_state (F old) = state_finished then 1 else 0)"
  shows "dl_core f (upd_block (block_pos s (dl_at s (q, k)) b) F (upd_dl (q, k) G s))"
proof -
  let ?d = "dl_at s (q, k)"
  let ?s1 = "upd_dl (q, k) G s"
  let ?s = "upd_block (block_pos s ?d b) F ?s1"
  have g: "geom_ok s" and Q: "queues_for f s" and al: "alloc_ok s" and cs: "counts_ok s"
    using core by (auto simp: dl_core_def)
  obtain R where R: "mset (get_download_queue s) = add_mset ?d R" "mset (get_download_queue ?s1) = add_mset (G ?d) R"
    using partial_split [OF it] by metis
  have d: "?d \<in> set (get_download_queue s)" using it by (rule dl_at_in)
  then have sl: "dp_info_idx ?d < slots s" by (rule alloc_okD(3) [OF al])
  have g1: "geom_ok ?s1" and g': "geom_ok ?s" using g by (simp_all add: geom_ok_def)
  have al1: "alloc_ok ?s1" and al': "alloc_ok ?s"
    using al G(2) R by (simp_all add: alloc_ok_mset)
  have "map dp_index ((m_downloads s q)[k := G (m_downloads s q ! k)]) = map dp_index (m_downloads s q)"
    using G(1) it(2) by (simp add: dl_at_def map_update list_update_same_conv)
  then have "queues_for f ?s1" unfolding upd_dl_def using queues_for_mset_cong [OF _ Q] by (simp add: dl_at_def)
  then have Q': "queues_for f ?s" by (simp add: queues_for_def)
  have blen: "b < blocks_per_piece s" using b geom_okD(3) [OF g] by (meson le_trans not_le)
  have "counts_match ?s d'" if "d' \<in># mset (get_download_queue ?s)" for d'
  proof (cases "d' = G ?d")
    case True
    have nb: "blocks_for_piece ?s (G ?d) = (blocks_for_piece s ?d)[b := F old]"
      using blocks_upd_same [of ?s1 ?d b "G ?d" F] g1 al1 sl b G x by simp
    have "b < length (blocks_for_piece s ?d)" using length_blocks_for_piece(1) [OF g al sl] b by simp
    note up = count_state_upd [OF this, of _ "F old"]
    have old: "blocks_for_piece s ?d ! b = old" using block_pos_nth(1) [OF g al sl b] x by simp
    have m: "counts_match s ?d" using cs d by (simp add: counts_ok_def)
    show ?thesis unfolding True counts_match_def nb
      using up [of state_requested] up [of state_writing] up [of state_finished] old cnt m
      by (simp add: counts_match_def)
  next
    case False
    then have "d' \<in># R" using that R(2) by simp
    from partial_others [OF core R(1) this] have o: "d' \<in> set (get_download_queue s)" "dp_info_idx d' \<noteq> dp_info_idx ?d"
      by auto
    then have "blocks_for_piece ?s d' = blocks_for_piece s d'"
      using blocks_upd_other [of ?s1 b d' ?d F] g1 blen by simp
    then show ?thesis using cs o(1) by (simp add: counts_ok_def counts_match_def)
  qed
  then have "counts_ok ?s" by (simp only: counts_ok_mset) blast
  then show ?thesis using g' Q' al' by (simp add: dl_core_def)
qed

section \<open>The pick list and the partial pieces\<close>

definition same_order :: "picker \<Rightarrow> picker \<Rightarrow> bool" where
  "same_order s s' \<longleftrightarrow> m_piece_map s' = m_piece_map s \<and> m_pieces s' = m_pieces s
     \<and> m_priority_boundaries s' = m_priority_boundaries s \<and> m_dirty s' = m_dirty s \<and> m_seeds s' = m_seeds s"

lemma same_order_fields:
  assumes "same_order s s'"
  shows "m_piece_map s' = m_piece_map s" "num_pieces s' = num_pieces s" "priority_of s' = priority_of s"
    "picker_ok s' = picker_ok s" "order_inv s' = order_inv s" "m_dirty s' = m_dirty s" "queue_of s' = queue_of s"
proof -
  have n: "num_pieces s' = num_pieces s" and p: "priority_of s' = priority_of s"
    using assms by (auto simp: same_order_def num_pieces_def priority_of_def)
  then show "num_pieces s' = num_pieces s" "priority_of s' = priority_of s" by blast+
  show m: "m_piece_map s' = m_piece_map s" "m_dirty s' = m_dirty s" using assms by (simp_all add: same_order_def)
  then show "queue_of s' = queue_of s" by (simp add: queue_of_def fun_eq_iff)
  show ok: "picker_ok s' = picker_ok s" using assms n by (simp add: same_order_def picker_ok_def)
  have "pick_list_for (priority_of s) s' = pick_list_for (priority_of s) s"
    using assms by (simp add: same_order_def pick_list_for_def)
  then show "order_inv s' = order_inv s" using ok m p by (simp add: order_inv_iff)
qed

lemma same_order_refl [simp]: "same_order s s"
  by (simp add: same_order_def)

lemma same_order_trans: "same_order s s' \<Longrightarrow> same_order s' s'' \<Longrightarrow> same_order s s''"
  by (simp add: same_order_def)

lemma same_order_upd [simp]:
  "same_order s (set_queue q l s)" "same_order s (upd_dl it g s)" "same_order s (upd_block k f s)"
  "same_order s (s\<lparr>m_num_passed := x\<rparr>)" "same_order s (s\<lparr>m_free_block_infos := y\<rparr>)"
  "same_order s (write_blocks base bs s)" "same_order s (s\<lparr>m_recent_extents := z\<rparr>)"
  by (simp_all add: same_order_def set_queue_def upd_dl_def upd_block_def write_blocks_def)

lemma order_inv_upd [simp]:
  "order_inv (set_queue q l s) = order_inv s" "order_inv (upd_dl it g s) = order_inv s"
  "order_inv (upd_block k f s) = order_inv s" "order_inv (s\<lparr>m_num_passed := x\<rparr>) = order_inv s"
  "order_inv (s\<lparr>m_recent_extents := z\<rparr>) = order_inv s"
  by (rule same_order_fields(5), simp)+

lemma set_queue_simps [simp]:
  "m_piece_map (set_queue q l s) = m_piece_map s" "num_pieces (set_queue q l s) = num_pieces s"
  "m_downloads (set_queue q l s) r = (if r = q then l else m_downloads s r)"
  "m_block_info (set_queue q l s) = m_block_info s" "m_free_block_infos (set_queue q l s) = m_free_block_infos s"
  "priority_of (set_queue q l s) = priority_of s" "m_dirty (set_queue q l s) = m_dirty s"
  "m_piece_size (set_queue q l s) = m_piece_size s" "m_blocks_in_last_piece (set_queue q l s) = m_blocks_in_last_piece s"
  "blocks_per_piece (set_queue q l s) = blocks_per_piece s" "blocks_in_piece (set_queue q l s) = blocks_in_piece s"
  "slots (set_queue q l s) = slots s" "blocks_for_piece (set_queue q l s) = blocks_for_piece s"
  by (auto simp: set_queue_def num_pieces_def priority_of_def blocks_per_piece_def block_size_def blocks_in_piece_def
      slots_def blocks_for_piece_def intro!: ext)

lemma set_queue_upd_pos: "set_queue q l (upd_pos i f s) = upd_pos i f (set_queue q l s)"
  by (simp add: set_queue_def upd_pos_def)

text \<open>A piece that changed is moved: the form of the step in \<open>update_piece_state\<close>.\<close>

definition resync_state :: "int \<Rightarrow> nat \<Rightarrow> picker \<Rightarrow> picker" where
  "resync_state prio index s =
     (if \<not> m_dirty s then
        (if prio = -1 \<and> priority_of s index \<noteq> -1 then picker_add index s
         else if prio \<noteq> -1 then update_at (nat prio) index s
         else s)
      else s)"

lemma resync_state_ok:
  assumes inv: "order_inv s" and i: "i < num_pieces s"
    and f: "pp_index (f (m_piece_map s ! i)) = pp_index (m_piece_map s ! i)" "pos_ok (f (m_piece_map s ! i))"
  shows "order_inv (resync_state (priority_of s i) i (upd_pos i f s))
       \<and> reorders (upd_pos i f s) (resync_state (priority_of s i) i (upd_pos i f s))"
proof -
  let ?s = "upd_pos i f s"
  have ok: "picker_ok s" using inv by (rule conjunct1 [OF order_inv_def [THEN iffD1]])
  then have ok': "picker_ok ?s" by (rule picker_ok_upd_pos) (rule f(2))
  show ?thesis
  proof (cases "m_dirty s \<or> (priority_of s i = -1 \<and> priority_of ?s i = -1)")
    case True
    have "order_inv ?s"
    proof (cases "m_dirty s")
      case False
      then have "pick_list_for (priority_of s) s" using inv by (simp add: order_inv_iff)
      from pick_list_upd_pos [of s i f, OF this i f(1)]
      have "pick_list_for ((priority_of ?s)(i := priority_of s i)) ?s" .
      moreover have "(priority_of ?s)(i := priority_of s i) = priority_of ?s" using True False by auto
      ultimately show ?thesis using ok' by (simp add: order_inv_iff)
    qed (use ok' in \<open>simp add: order_inv_iff\<close>)
    then show ?thesis using True by (auto simp: resync_state_def)
  next
    case False
    then have "pick_list_for (priority_of s) s" using inv by (simp add: order_inv_iff)
    from pick_list_upd_pos [of s i f, OF this i f(1)]
    have l: "pick_list_for ((priority_of ?s)(i := priority_of s i)) ?s" .
    have r: "piece_ready ?s i" using i ok' by (simp add: piece_ready_def)
    have ge: "-1 \<le> priority_of s i" by (rule priority_of_ge [OF ok i])
    have "pick_list_for (priority_of ?s) (resync_state (priority_of s i) i ?s)
        \<and> reorders ?s (resync_state (priority_of s i) i ?s)"
    proof (cases "priority_of s i = -1")
      case True
      then show ?thesis using po.insert_law [OF r] l False by (simp add: resync_state_def)
    next
      case ne: False
      then have "0 \<le> priority_of s i" using ge by simp
      from po.move_law_int [OF r this l] show ?thesis using ne False by (simp add: resync_state_def)
    qed
    then show ?thesis unfolding order_inv_iff
      using reorders_picker_ok pick_list_reorders ok' by blast
  qed
qed

end
