(* ===== verification/Picker_Moves.thy ===== *)
theory Picker_Moves
  imports Picker_Partial
begin

text \<open>
  \<open>update_piece_state\<close>, \<open>erase_download_piece\<close> and \<open>add_download_piece\<close> keep the invariant of the
  partial pieces: each piece is in the queue of its state, each slice of \<open>m_block_info\<close> has one
  owner, and the counters of a piece are the numbers of its blocks in each state.
\<close>

section \<open>update_piece_state\<close>

lemma next_state_full: "next_state s d = piece_full \<Longrightarrow> 0 < dp_requested d"
  by (auto simp: next_state_def Let_def split: if_splits)

lemma next_state_set_queue [simp]: "next_state (set_queue q l s) = next_state s"
  by (auto simp: next_state_def intro!: ext)

text \<open>What \<open>update_piece_state\<close> leaves alone.\<close>

definition same_blocks :: "picker \<Rightarrow> picker \<Rightarrow> bool" where
  "same_blocks s s' \<longleftrightarrow> num_pieces s' = num_pieces s \<and> m_block_info s' = m_block_info s
     \<and> m_free_block_infos s' = m_free_block_infos s \<and> m_piece_size s' = m_piece_size s
     \<and> m_blocks_in_last_piece s' = m_blocks_in_last_piece s"

lemma same_blocks_fields:
  assumes "same_blocks s s'"
  shows "num_pieces s' = num_pieces s" "m_block_info s' = m_block_info s" "blocks_per_piece s' = blocks_per_piece s"
    "blocks_in_piece s' = blocks_in_piece s" "slots s' = slots s" "block_pos s' = block_pos s"
    "blocks_for_piece s' = blocks_for_piece s" "geom_ok s' = geom_ok s" "m_free_block_infos s' = m_free_block_infos s"
  using assms by (auto simp: same_blocks_def blocks_per_piece_def block_size_def blocks_in_piece_def slots_def
      block_pos_def blocks_for_piece_def geom_ok_def intro!: ext)

lemma same_blocks_refl [simp]: "same_blocks s s"
  by (simp add: same_blocks_def)

lemma same_blocks_trans: "same_blocks s s' \<Longrightarrow> same_blocks s' s'' \<Longrightarrow> same_blocks s s''"
  by (simp add: same_blocks_def)

lemma same_dl_blocks: "same_dl s s' \<Longrightarrow> same_blocks s s'"
  by (simp add: same_dl_def same_blocks_def)

text \<open>Moving a partial piece to another queue.\<close>

lemma dl_core_move:
  assumes core: "dl_core f s" and i: "i < num_pieces s" and q: "f i = q" "q \<in> set download_categories"
    and q': "q' \<in> set download_categories"
  defines "k \<equiv> find_dl_piece s q i"
  defines "s1 \<equiv> set_queue q (remove_at k (m_downloads s q)) s"
  defines "s2 \<equiv> set_queue q' (insert_at (lower_bound (m_downloads s1 q') i) (dl_at s (q, k)) (m_downloads s1 q')) s1"
  shows "dl_core (f(i := q')) s2" "mset (get_download_queue s2) = mset (get_download_queue s)"
proof -
  have Q: "queues_for f s" using core by (simp add: dl_core_def)
  note F = find_dl_piece_ok [OF Q i q, folded k_def]
  have Q1: "queues_for (f(i := piece_open)) s1"
    unfolding s1_def k_def by (rule queues_for_remove [OF Q i q])
  have "queues_for (f(i := q')) s2"
    unfolding s2_def by (rule queues_for_insert) (use Q1 i q' F in \<open>simp_all add: s1_def dl_at_def\<close>)
  moreover show m: "mset (get_download_queue s2) = mset (get_download_queue s)"
  proof -
    let ?d = "dl_at s (q, k)"
    have A: "mset (get_download_queue s1) + mset (m_downloads s q) = mset (get_download_queue s) + mset (remove_at k (m_downloads s q))"
      unfolding s1_def by (rule mset_partials_set_queue [OF q(2)])
    have "mset (m_downloads s q) = add_mset ?d (mset (remove_at k (m_downloads s q)))"
      using mset_remove_at [OF F(1)] by (simp add: dl_at_def)
    then have A': "add_mset ?d (mset (get_download_queue s1)) = mset (get_download_queue s)" using A by simp
    have "mset (get_download_queue s2) + mset (m_downloads s1 q') = mset (get_download_queue s1)
        + mset (insert_at (lower_bound (m_downloads s1 q') i) ?d (m_downloads s1 q'))"
      unfolding s2_def by (rule mset_partials_set_queue [OF q'])
    then show ?thesis using A' by (simp add: mset_insert_at)
  qed
  moreover have sb: "same_blocks s s2" by (simp add: same_blocks_def s2_def s1_def)
  moreover have "set (get_download_queue s2) = set (get_download_queue s)" using m by (metis set_mset_mset)
  ultimately show "dl_core (f(i := q')) s2"
    using core same_blocks_fields [OF sb]
    by (simp add: dl_core_def alloc_ok_mset counts_ok_def counts_match_def)
qed

lemma dl_core_queue_cong:
  "(\<And>i. i < num_pieces s \<Longrightarrow> f i = g i) \<Longrightarrow> dl_core f s = dl_core g s"
  unfolding dl_core_def using queues_for_cong [of s f g] by simp

lemma queue_of_upd_pos:
  "j < num_pieces s \<Longrightarrow> queue_of (upd_pos i f s) j = (if j = i then download_queue (f (m_piece_map s ! i)) else queue_of s j)"
  by (simp add: queue_of_def upd_pos_nth)

lemma queue_of_category: "queue_of s i \<noteq> piece_open \<Longrightarrow> queue_of s i \<in> set download_categories"
  by (simp add: queue_of_def download_queue_def)

lemma find_piece_pair: "find_piece s i = (queue_of s i, find_dl_piece s (queue_of s i) i)"
  by (simp add: find_piece_def queue_of_def Let_def)

lemma find_piece_ok:
  assumes "dl_core (queue_of s) s" "i < num_pieces s" "queue_of s i \<noteq> piece_open"
  shows "snd (find_piece s i) < length (m_downloads s (fst (find_piece s i)))"
    "dp_index (dl_at s (find_piece s i)) = i" "dl_at s (find_piece s i) \<in> set (get_download_queue s)"
proof -
  have Q: "queues_for (queue_of s) s" using assms(1) by (simp add: dl_core_def)
  note F = find_dl_piece_ok [OF Q assms(2) refl queue_of_category [OF assms(3)]]
  show "snd (find_piece s i) < length (m_downloads s (fst (find_piece s i)))"
    "dp_index (dl_at s (find_piece s i)) = i"
    using F(1,2) by (simp_all add: find_piece_pair dl_at_def)
  show "dl_at s (find_piece s i) \<in> set (get_download_queue s)"
    using dl_at_in [OF queue_of_category [OF assms(3)] F(1)] by (simp add: find_piece_pair)
qed

lemma reorders_find_piece:
  assumes "reorders s s'" "i < num_pieces s"
  shows "find_piece s' i = find_piece s i"
  using same_dl_fields(15) [OF reorders_same_dl [OF assms(1)]] reorders_queue_of [OF assms]
  by (simp add: find_piece_pair)

definition moved :: "nat \<Rightarrow> dl_iter \<Rightarrow> picker \<Rightarrow> dl_iter \<Rightarrow> picker \<Rightarrow> bool" where
  "moved i it s it' s' \<longleftrightarrow>
     order_inv s' \<and> dl_core (queue_of s') s' \<and> full_ok s' (\<lambda>j. j \<noteq> i)
     \<and> (next_state s (dl_at s it) \<noteq> piece_open \<or> pp_state (m_piece_map s ! i) \<noteq> piece_full \<longrightarrow> full_ok s' (\<lambda>_. True))
     \<and> (next_state s (dl_at s it) \<noteq> piece_open \<longrightarrow> pp_state (m_piece_map s' ! i) = next_state s (dl_at s it))
     \<and> it' = find_piece s' i \<and> dl_at s' it' = dl_at s it \<and> same_blocks s s' \<and> queue_of s' i \<noteq> piece_open"

lemma full_ok_all: "full_ok s (\<lambda>j. j \<noteq> i) \<Longrightarrow> d \<in> set (get_download_queue s) \<Longrightarrow> dp_index d = i \<Longrightarrow>
    distinct (map dp_index (get_download_queue s)) \<Longrightarrow>
    (pp_state (m_piece_map s ! i) = piece_full \<Longrightarrow> 0 < dp_requested d) \<Longrightarrow> full_ok s (\<lambda>_. True)"
  by (auto simp: full_ok_def distinct_map inj_on_def)

lemma update_piece_state_move:
  assumes "new = next_state s (dl_at s it)" "new \<noteq> piece_open"
    "new \<noteq> pp_state (m_piece_map s ! dp_index (dl_at s it))"
    "pp_state (m_piece_map s ! dp_index (dl_at s it)) \<noteq> piece_open"
  shows "update_piece_state it s =
     (let i = dp_index (dl_at s it);
          q = download_queue (m_piece_map s ! i);
          s1 = set_queue q (remove_at (snd it) (m_downloads s q)) s;
          q' = queue_of_state new;
          j = lower_bound (m_downloads s1 q') i
      in ((q', j), resync_state (priority_of s i) i (upd_pos i (\<lambda>p. p\<lparr>pp_state := new\<rparr>)
            (set_queue q' (insert_at j (dl_at s it) (m_downloads s1 q')) s1))))"
  unfolding update_piece_state_def Let_def assms(1) [symmetric] set_queue_upd_pos
  using assms(2-) by (simp add: resync_state_def)

lemma update_piece_state_ok:
  assumes inv: "order_inv s" and core: "dl_core (queue_of s) s" and full: "full_ok s (\<lambda>j. j \<noteq> i)"
    and i: "i < num_pieces s" and op: "queue_of s i \<noteq> piece_open"
    and u: "update_piece_state (find_piece s i) s = (it', s')"
  shows "moved i (find_piece s i) s it' s'"
proof -
  let ?q = "queue_of s i"
  define k where "k = find_dl_piece s ?q i"
  define d where "d = dl_at s (?q, k)"
  define new where "new = next_state s d"
  have it: "find_piece s i = (?q, k)" by (simp add: find_piece_pair k_def)
  have F: "k < length (m_downloads s ?q)" "dp_index d = i" "d \<in> set (get_download_queue s)"
    using find_piece_ok [OF core i op] it by (simp_all add: d_def)
  have ps: "pp_state (m_piece_map s ! i) \<noteq> piece_open" using op by (auto simp: queue_of_def download_queue_def)
  have di: "distinct (map dp_index (get_download_queue s))"
    using core distinct_partial_index by (auto simp: dl_core_def)
  show ?thesis
  proof (cases "new = pp_state (m_piece_map s ! i) \<or> new = piece_open")
    case True
    then have e: "it' = find_piece s i" "s' = s"
      using u it F(2) by (auto simp: update_piece_state_def Let_def d_def new_def split: if_splits)
    have "full_ok s (\<lambda>_. True)" if "new \<noteq> piece_open \<or> pp_state (m_piece_map s ! i) \<noteq> piece_full"
      using full_ok_all [OF full F(3,2) di] True that next_state_full [of s d] by (auto simp: new_def)
    then show ?thesis using e inv core full op True it by (auto simp: moved_def d_def new_def)
  next
    case False
    define q' where "q' = queue_of_state new"
    have q': "q' \<in> set download_categories" using False by (simp add: q'_def)
    define s1 where "s1 = set_queue ?q (remove_at k (m_downloads s ?q)) s"
    define j where "j = lower_bound (m_downloads s1 q') i"
    define S where "S = set_queue q' (insert_at j d (m_downloads s1 q')) s1"
    let ?f = "\<lambda>p. p\<lparr>pp_state := new\<rparr>"
    have dd: "dl_at s (find_piece s i) = d" by (simp add: it d_def)
    have "update_piece_state (find_piece s i) s = ((q', j), resync_state (priority_of s i) i (upd_pos i ?f S))"
      using update_piece_state_move [where it = "find_piece s i" and s = s and new = new, unfolded dd F(2)] False ps it
      by (simp add: new_def [symmetric] q'_def [symmetric] queue_of_def [symmetric] s1_def [symmetric]
          j_def [symmetric] S_def [symmetric] Let_def del: set_queue_simps(3))
    then have eq: "it' = (q', j)" "s' = resync_state (priority_of s i) i (upd_pos i ?f S)"
      using u by simp_all
    have so: "same_order s S" using same_order_trans same_order_upd by (metis S_def s1_def)
    have ok: "pos_ok (?f (m_piece_map S ! i))" "order_inv S" "i < num_pieces S" "priority_of S i = priority_of s i"
      using so inv i picker_ok_nth [of s i] same_order_fields [OF so] by (auto simp: order_inv_def pos_ok_def)
    have R: "order_inv s'" "reorders (upd_pos i ?f S) s'"
      using resync_state_ok [OF ok(2,3), of ?f] ok(1,4) eq(2) by simp_all
    have M: "dl_core ((queue_of s)(i := q')) S" "mset (get_download_queue S) = mset (get_download_queue s)"
      using dl_core_move [OF core i refl queue_of_category [OF op] q', folded k_def] unfolding S_def j_def s1_def d_def by auto
    have qs: "queue_of (upd_pos i ?f S) l = ((queue_of s)(i := q')) l" if "l < num_pieces s" for l
      using that same_order_fields [OF so] by (simp add: queue_of_upd_pos q'_def download_queue_def)
    have C3: "dl_core (queue_of (upd_pos i ?f S)) (upd_pos i ?f S)"
      unfolding same_dl_core [OF same_dl_upd_pos]
      using M(1) dl_core_queue_cong [of S "queue_of (upd_pos i ?f S)" "(queue_of s)(i := q')"] qs ok(3)
        same_order_fields(2) [OF so] by simp
    have gd: "get_download_queue (upd_pos i ?f S) = get_download_queue S" by (simp add: get_download_queue_def)
    have dset: "set (get_download_queue S) = set (get_download_queue s)" using M(2) by (metis set_mset_mset)
    have ix: "dp_index e < num_pieces s" if "e \<in> set (get_download_queue s)" for e
      using partial_index_lt that core by (auto simp: dl_core_def)
    have full3: "full_ok (upd_pos i ?f S) (\<lambda>_. True)"
      unfolding full_ok_def gd dset
    proof (intro ballI impI)
      fix e assume e: "e \<in> set (get_download_queue s)"
        and st: "True \<and> pp_state (m_piece_map (upd_pos i ?f S) ! dp_index e) = piece_full"
      show "0 < dp_requested e"
      proof (cases "dp_index e = i")
        case True
        then have "e = d" using e F(2,3) di by (auto simp: distinct_map inj_on_def)
        moreover have "new = piece_full" using st True ok(3) by (simp add: upd_pos_nth)
        ultimately show ?thesis using next_state_full by (simp add: new_def)
      next
        case ne: False
        then have "pp_state (m_piece_map s ! dp_index e) = piece_full"
          using st ix [OF e] same_order_fields [OF so] by (simp add: upd_pos_nth)
        then show ?thesis using full e ne by (simp add: full_ok_def)
      qed
    qed
    have core': "dl_core (queue_of s') s'" using C3 by (simp add: reorders_dl_core [OF R(2)])
    have full': "full_ok s' (\<lambda>_. True)"
      using full3 reorders_full_ok [OF R(2)] C3 by (auto simp: dl_core_def)
    have n3: "i < num_pieces (upd_pos i ?f S)" using ok(3) by simp
    have qi: "queue_of s' i = q'" using reorders_queue_of [OF R(2) n3] qs [OF i] by simp
    then have op': "queue_of s' i \<noteq> piece_open" using q' by (auto simp: in_categories)
    have "find_dl_piece s' q' i = j"
    proof -
      have Qs': "queues_for (queue_of s') s'" using core' by (simp add: dl_core_def)
      have n': "num_pieces s' = num_pieces s"
        using reorders_num_pieces [OF R(2)] same_order_fields(2) [OF so] by simp
      have "find_dl_piece s' q' i = length (filter (\<lambda>l. queue_of s' l = q') [0..<i])"
        using find_dl_piece_ok(3) [OF Qs' _ qi q'] i n' by simp
      also have "filter (\<lambda>l. queue_of s' l = q') [0..<i] = filter (\<lambda>l. ((queue_of s)(i := piece_open)) l = q') [0..<i]"
        using reorders_queue_of [OF R(2)] qs i same_order_fields(2) [OF so] by (intro filter_cong) auto
      also have "length \<dots> = j"
      proof -
        have "queues_for ((queue_of s)(i := piece_open)) s1"
          unfolding s1_def k_def using core by (intro queues_for_remove) (auto simp: dl_core_def i queue_of_category [OF op])
        then have "map dp_index (m_downloads s1 q') = filter (\<lambda>l. ((queue_of s)(i := piece_open)) l = q') [0..<num_pieces s]"
          using q' by (simp add: queues_for_def s1_def)
        from lower_bound_pos [OF this, of i] i show ?thesis by (simp add: j_def)
      qed
      finally show ?thesis .
    qed
    then have it'': "it' = find_piece s' i" using eq(1) qi by (simp add: find_piece_pair)
    have "dl_at s' it' = d"
    proof -
      have "m_downloads s' = m_downloads S" using same_dl_fields(2) [OF reorders_same_dl [OF R(2)]] by simp
      moreover have "j \<le> length (m_downloads s1 q')" by (simp add: j_def lower_bound_def length_takeWhile_le)
      ultimately show ?thesis by (simp add: eq(1) dl_at_def S_def insert_at_def nth_append)
    qed
    moreover have "same_blocks s s'"
    proof -
      have "same_blocks s S" by (simp add: same_blocks_def S_def s1_def)
      then have "same_blocks s (upd_pos i ?f S)"
        using same_blocks_trans same_dl_blocks [OF same_dl_upd_pos] by blast
      then show ?thesis using same_blocks_trans same_dl_blocks [OF reorders_same_dl [OF R(2)]] by blast
    qed
    moreover have "pp_state (m_piece_map s' ! i) = new"
      using reorders_pos(2) [OF R(2) n3] ok(3) by (simp add: upd_pos_nth)
    moreover have "full_ok s' (\<lambda>j. j \<noteq> i)" using full' by (auto simp: full_ok_def)
    ultimately show ?thesis using R(1) core' full' it'' op'
      unfolding moved_def it d_def [symmetric] new_def [symmetric] by simp
  qed
qed

text \<open>\<open>update_piece_state\<close> changes the partial pieces, the state of the one piece, and the order.\<close>

lemma update_piece_state_shape:
  assumes inv: "order_inv s" and core: "dl_core (queue_of s) s" and i: "i < num_pieces s" and op: "queue_of s i \<noteq> piece_open"
    and u: "update_piece_state (find_piece s i) s = (it', s')"
  shows "\<exists>X st. reorders (upd_pos i (\<lambda>p. p\<lparr>pp_state := st\<rparr>) (s\<lparr>m_downloads := X\<rparr>)) s'"
proof -
  let ?it = "find_piece s i"
  let ?new = "next_state s (dl_at s ?it)" and ?cur = "pp_state (m_piece_map s ! i)"
  have di: "dp_index (dl_at s ?it) = i" by (rule find_piece_ok(2) [OF core i op])
  have po: "?cur \<noteq> piece_open" using op by (simp add: queue_of_def download_queue_def)
  show ?thesis
  proof (cases "?new = piece_open \<or> ?new = ?cur")
    case True
    then have "s' = s" using u di po by (auto simp: update_piece_state_def Let_def)
    moreover have "upd_pos i (\<lambda>p. p\<lparr>pp_state := ?cur\<rparr>) s = s" by (simp add: upd_pos_def)
    ultimately show ?thesis by (intro exI [of _ "m_downloads s"] exI [of _ ?cur]) simp
  next
    case False
    let ?f = "\<lambda>p. p\<lparr>pp_state := ?new\<rparr>"
    obtain X where X: "s' = resync_state (priority_of s i) i (upd_pos i ?f (s\<lparr>m_downloads := X\<rparr>))"
      using update_piece_state_move [OF refl, of s ?it] False po u di by (auto simp: Let_def set_queue_def)
    have o: "same_order s (s\<lparr>m_downloads := X\<rparr>)" by (simp add: same_order_def)
    note O = same_order_fields [OF o]
    have ok: "pos_ok (m_piece_map s ! i)" by (rule picker_ok_nth [OF order_inv_ok [OF inv] i])
    have "reorders (upd_pos i ?f (s\<lparr>m_downloads := X\<rparr>)) s'"
      using resync_state_ok [where f = ?f and s = "s\<lparr>m_downloads := X\<rparr>" and i = i] inv i ok unfolding X O by (simp add: pos_ok_def)
    then show ?thesis by blast
  qed
qed

lemma update_piece_state_want:
  assumes "order_inv s" "dl_core (queue_of s) s" "i < num_pieces s" "queue_of s i \<noteq> piece_open"
    "update_piece_state (find_piece s i) s = (it', s')"
  shows "same_want s s'"
proof -
  obtain X st where R: "reorders (upd_pos i (\<lambda>p. p\<lparr>pp_state := st\<rparr>) (s\<lparr>m_downloads := X\<rparr>)) s'"
    using update_piece_state_shape [OF assms] by blast
  have "same_want (s\<lparr>m_downloads := X\<rparr>) (upd_pos i (\<lambda>p. p\<lparr>pp_state := st\<rparr>) (s\<lparr>m_downloads := X\<rparr>))"
    by (rule state_want) blast
  from same_want_trans [OF same_want_trans [OF frame_want(8) this] reorders_want [OF R]] show ?thesis .
qed


section \<open>Removing a partial piece\<close>

text \<open>The state \<open>erase_download_piece\<close> leaves before the piece is marked open.\<close>

definition dropped :: "nat \<Rightarrow> picker \<Rightarrow> picker" where
  "dropped i s =
     (let q = queue_of s i; k = find_dl_piece s q i
      in set_queue q (remove_at k (m_downloads s q))
           (s\<lparr>m_free_block_infos := m_free_block_infos s @ [dp_info_idx (dl_at s (q, k))]\<rparr>))"

lemma dropped_order [simp]: "same_order s (dropped i s)"
  by (simp add: dropped_def Let_def same_order_def set_queue_def)

lemma set_queue_free:
  "set_queue q l (s\<lparr>m_free_block_infos := y\<rparr>) = (set_queue q l s)\<lparr>m_free_block_infos := y\<rparr>"
  by (simp add: set_queue_def)

lemma free_simps [simp]:
  "blocks_per_piece (s\<lparr>m_free_block_infos := y\<rparr>) = blocks_per_piece s"
  "blocks_in_piece (s\<lparr>m_free_block_infos := y\<rparr>) = blocks_in_piece s"
  "slots (s\<lparr>m_free_block_infos := y\<rparr>) = slots s" "num_pieces (s\<lparr>m_free_block_infos := y\<rparr>) = num_pieces s"
  "blocks_for_piece (s\<lparr>m_free_block_infos := y\<rparr>) = blocks_for_piece s"
  "get_download_queue (s\<lparr>m_free_block_infos := y\<rparr>) = get_download_queue s"
  by (auto simp: blocks_per_piece_def block_size_def blocks_in_piece_def slots_def num_pieces_def
      blocks_for_piece_def get_download_queue_def intro!: ext)

lemma erase_download_piece_eq:
  assumes "dl_core (queue_of s) s" "i < num_pieces s" "queue_of s i \<noteq> piece_open"
  shows "erase_download_piece (find_piece s i) s = upd_pos i (\<lambda>p. p\<lparr>pp_state := piece_open\<rparr>) (dropped i s)"
proof -
  have "dp_index (dl_at s (find_piece s i)) = i" by (rule find_piece_ok(2) [OF assms])
  then show ?thesis
    by (simp add: erase_download_piece_def dropped_def find_piece_pair Let_def queue_of_def [symmetric])
       (simp add: set_queue_def upd_pos_def)
qed

lemma dropped_ok:
  assumes core: "dl_core (queue_of s) s" and i: "i < num_pieces s" and op: "queue_of s i \<noteq> piece_open"
  shows "dl_core ((queue_of s)(i := piece_open)) (dropped i s)"
    "mset (get_download_queue s) = add_mset (dl_at s (find_piece s i)) (mset (get_download_queue (dropped i s)))"
    "num_pieces (dropped i s) = num_pieces s"
proof -
  let ?q = "queue_of s i"
  let ?k = "find_dl_piece s ?q i"
  let ?d = "dl_at s (?q, ?k)"
  let ?S = "set_queue ?q (remove_at ?k (m_downloads s ?q)) s"
  have Q: "queues_for (queue_of s) s" using core by (simp add: dl_core_def)
  note F = find_dl_piece_ok [OF Q i refl queue_of_category [OF op]]
  have eq: "dropped i s = ?S\<lparr>m_free_block_infos := m_free_block_infos s @ [dp_info_idx ?d]\<rparr>"
    by (simp add: dropped_def Let_def set_queue_free)
  have "mset (get_download_queue ?S) + mset (m_downloads s ?q) = mset (get_download_queue s) + mset (remove_at ?k (m_downloads s ?q))"
    by (rule mset_partials_set_queue [OF queue_of_category [OF op]])
  moreover have "mset (m_downloads s ?q) = add_mset ?d (mset (remove_at ?k (m_downloads s ?q)))"
    using mset_remove_at [OF F(1)] by (simp add: dl_at_def)
  ultimately have m: "mset (get_download_queue s) = add_mset ?d (mset (get_download_queue ?S))" by simp
  then show "mset (get_download_queue s) = add_mset (dl_at s (find_piece s i)) (mset (get_download_queue (dropped i s)))"
    by (simp add: eq find_piece_pair)
  show n: "num_pieces (dropped i s) = num_pieces s" by (simp add: eq)
  have "queues_for ((queue_of s)(i := piece_open)) ?S"
    by (rule queues_for_remove [OF Q i refl queue_of_category [OF op]])
  then have Q': "queues_for ((queue_of s)(i := piece_open)) (dropped i s)"
    by (simp add: queues_for_def eq)
  have al: "alloc_ok (dropped i s)"
    using core m by (simp add: dl_core_def alloc_ok_mset eq)
  have sub: "set (get_download_queue (dropped i s)) \<subseteq> set (get_download_queue s)"
    using m by (metis eq free_simps(6) set_mset_mset set_mset_add_mset_insert subset_insertI)
  have "counts_match (dropped i s) = counts_match s" by (simp add: eq counts_match_def fun_eq_iff)
  then have "counts_ok (dropped i s)" using core sub by (auto simp: dl_core_def counts_ok_def)
  moreover have "geom_ok (dropped i s)" using core by (simp add: dl_core_def geom_ok_def eq)
  ultimately show "dl_core ((queue_of s)(i := piece_open)) (dropped i s)" using Q' al by (simp add: dl_core_def)
qed

lemma erase_download_piece_ok:
  assumes core: "dl_core (queue_of s) s" and full: "full_ok s (\<lambda>j. j \<noteq> i)"
    and i: "i < num_pieces s" and op: "queue_of s i \<noteq> piece_open"
  defines "s' \<equiv> erase_download_piece (find_piece s i) s"
  shows "dl_ok s'" "queue_of s' i = piece_open" "num_pieces s' = num_pieces s"
proof -
  let ?S = "dropped i s" and ?f = "\<lambda>p. p\<lparr>pp_state := piece_open\<rparr>"
  note D = dropped_ok [OF core i op]
  have mp: "m_piece_map ?S = m_piece_map s" using same_order_fields(1) [OF dropped_order] .
  have eq: "s' = upd_pos i ?f ?S" unfolding s'_def by (rule erase_download_piece_eq [OF core i op])
  show n: "num_pieces s' = num_pieces s" using D(3) by (simp add: eq)
  have q: "queue_of s' j = ((queue_of s)(i := piece_open)) j" if "j < num_pieces s" for j
    using that D(3) mp by (simp add: eq queue_of_def upd_pos_nth download_queue_def)
  show "queue_of s' i = piece_open" using q [OF i] by simp
  have "dl_core (queue_of s') ?S = dl_core ((queue_of s)(i := piece_open)) ?S"
    using q D(3) by (intro dl_core_queue_cong) simp
  then have C: "dl_core (queue_of s') s'" unfolding eq same_dl_core [OF same_dl_upd_pos] using D(1) eq by simp
  have gd: "get_download_queue s' = get_download_queue ?S" by (simp add: eq get_download_queue_def)
  have "0 < dp_requested e" if e: "e \<in> set (get_download_queue s')"
    and st: "pp_state (m_piece_map s' ! dp_index e) = piece_full" for e
  proof -
    have e': "e \<in> set (get_download_queue s)" "e \<in># mset (get_download_queue ?S)"
      using e D(2) gd by (auto simp: set_mset_mset [symmetric] simp del: set_mset_mset)
    have ne: "dp_index e \<noteq> i" using partial_others(3) [OF core D(2) e'(2)] find_piece_ok(2) [OF core i op] by simp
    have "dp_index e < num_pieces s" using partial_index_lt e'(1) core by (auto simp: dl_core_def)
    then have "pp_state (m_piece_map s ! dp_index e) = piece_full" using st ne D(3) mp by (simp add: eq upd_pos_nth)
    then show ?thesis using full e'(1) ne by (simp add: full_ok_def)
  qed
  then show "dl_ok s'" using C by (auto simp: dl_ok_def full_ok_def)
qed

section \<open>Creating a partial piece\<close>

lemma slots_append:
  assumes "0 < blocks_per_piece s" "length (m_block_info s) = slots s * blocks_per_piece s"
  shows "(length (m_block_info s) + blocks_per_piece s) div blocks_per_piece s = slots s + 1"
  using assms by simp

text \<open>After the allocation one slice is neither free nor used.\<close>

lemma alloc_block_infos_ok:
  assumes g: "geom_ok s" and al: "alloc_ok s" and a: "alloc_block_infos s = (idx, s1)"
  shows "same_order s s1" "m_downloads s1 = m_downloads s" "geom_ok s1" "blocks_per_piece s1 = blocks_per_piece s"
    "blocks_in_piece s1 = blocks_in_piece s" "num_pieces s1 = num_pieces s" "m_pads_in_piece s1 = m_pads_in_piece s"
    "m_piece_size s1 = m_piece_size s"
    "idx < slots s1" "length (m_block_info s1) = slots s1 * blocks_per_piece s"
    "add_mset idx (image_mset dp_info_idx (mset (get_download_queue s)) + mset (m_free_block_infos s1)) = mset [0..<slots s1]"
    "\<And>d. d \<in> set (get_download_queue s) \<Longrightarrow> blocks_for_piece s1 d = blocks_for_piece s d"
    "idx \<le> slots s"
proof -
  have L: "length (m_block_info s) = slots s * blocks_per_piece s"
    and M: "image_mset dp_info_idx (mset (get_download_queue s)) + mset (m_free_block_infos s) = mset [0..<slots s]"
    using al by (auto simp: alloc_ok_mset)
  have bp: "0 < blocks_per_piece s" using geom_okD(1) [OF g] .
  have geo: "blocks_per_piece s1 = blocks_per_piece s \<and> blocks_in_piece s1 = blocks_in_piece s \<and> num_pieces s1 = num_pieces s
      \<and> m_piece_size s1 = m_piece_size s \<and> m_blocks_in_last_piece s1 = m_blocks_in_last_piece s
      \<and> m_downloads s1 = m_downloads s \<and> m_pads_in_piece s1 = m_pads_in_piece s \<and> same_order s s1"
    using a by (auto simp: alloc_block_infos_def Let_def blocks_per_piece_def block_size_def blocks_in_piece_def
        num_pieces_def same_order_def intro!: ext split: if_splits)
  then show "same_order s s1" "m_downloads s1 = m_downloads s" "geom_ok s1" "blocks_per_piece s1 = blocks_per_piece s"
    "blocks_in_piece s1 = blocks_in_piece s" "num_pieces s1 = num_pieces s" "m_pads_in_piece s1 = m_pads_in_piece s"
    "m_piece_size s1 = m_piece_size s"
    using g by (auto simp: geom_ok_def)
  have "idx < slots s1 \<and> length (m_block_info s1) = slots s1 * blocks_per_piece s \<and> idx \<le> slots s
     \<and> add_mset idx (image_mset dp_info_idx (mset (get_download_queue s)) + mset (m_free_block_infos s1)) = mset [0..<slots s1]"
  proof (cases "m_free_block_infos s = []")
    case True
    then have e: "idx = slots s" "m_block_info s1 = m_block_info s @ replicate (blocks_per_piece s) new_block_info"
      "m_free_block_infos s1 = []"
      using a by (auto simp: alloc_block_infos_def Let_def slots_def)
    then have sl: "slots s1 = slots s + 1" using slots_append [OF bp L] geo by (simp add: slots_def)
    then show ?thesis using e M True L by simp
  next
    case False
    then have e: "idx = last (m_free_block_infos s)" "m_block_info s1 = m_block_info s"
      "m_free_block_infos s1 = butlast (m_free_block_infos s)"
      using a by (auto simp: alloc_block_infos_def)
    have "mset (m_free_block_infos s) = mset (butlast (m_free_block_infos s) @ [last (m_free_block_infos s)])"
      using False by simp
    then have f: "mset (m_free_block_infos s) = add_mset idx (mset (m_free_block_infos s1))" by (simp add: e)
    have sl: "slots s1 = slots s" using e geo by (simp add: slots_def)
    have "idx \<in># mset [0..<slots s]" using M f by (metis add_mset_add_single union_iff insertI1 set_mset_add_mset_insert)
    then show ?thesis using e M f sl L by simp
  qed
  then show "idx < slots s1" "length (m_block_info s1) = slots s1 * blocks_per_piece s"
    "add_mset idx (image_mset dp_info_idx (mset (get_download_queue s)) + mset (m_free_block_infos s1)) = mset [0..<slots s1]"
    "idx \<le> slots s"
    by blast+
  show "blocks_for_piece s1 d = blocks_for_piece s d" if "d \<in> set (get_download_queue s)" for d
  proof -
    have "dp_info_idx d < slots s" by (rule alloc_okD(3) [OF al that])
    then have le: "dp_info_idx d * blocks_per_piece s + blocks_per_piece s \<le> length (m_block_info s)"
      by (rule length_blocks_for_piece(2) [OF g al])
    obtain ys where "m_block_info s1 = m_block_info s @ ys"
      using a by (auto simp: alloc_block_infos_def Let_def split: if_splits)
    then show ?thesis using le geo geom_okD(3) [OF g, of "dp_index d"] by (simp add: blocks_for_piece_def)
  qed
qed

lemma write_blocks_simps [simp]:
  "blocks_per_piece (write_blocks b bs s) = blocks_per_piece s" "blocks_in_piece (write_blocks b bs s) = blocks_in_piece s"
  "num_pieces (write_blocks b bs s) = num_pieces s" "m_downloads (write_blocks b bs s) = m_downloads s"
  "m_free_block_infos (write_blocks b bs s) = m_free_block_infos s" "m_piece_map (write_blocks b bs s) = m_piece_map s"
  "m_piece_size (write_blocks b bs s) = m_piece_size s" "m_blocks_in_last_piece (write_blocks b bs s) = m_blocks_in_last_piece s"
  by (auto simp: write_blocks_def blocks_per_piece_def block_size_def blocks_in_piece_def num_pieces_def intro!: ext)

lemma block_info_write_blocks:
  "m_block_info (write_blocks b bs s) = take b (m_block_info s) @ bs @ drop (b + length bs) (m_block_info s)"
  by (simp add: write_blocks_def)

lemma length_write_blocks:
  "b + length bs \<le> length (m_block_info s) \<Longrightarrow> length (m_block_info (write_blocks b bs s)) = length (m_block_info s)"
  by (simp add: write_blocks_def)

lemma write_blocks_other:
  assumes g: "geom_ok s" and ne: "dp_info_idx d \<noteq> idx" and bs: "length bs \<le> blocks_per_piece s"
    and fits: "idx * blocks_per_piece s + blocks_per_piece s \<le> length (m_block_info s)"
      "dp_info_idx d * blocks_per_piece s + blocks_per_piece s \<le> length (m_block_info s)"
  shows "blocks_for_piece (write_blocks (idx * blocks_per_piece s) bs s) d = blocks_for_piece s d"
proof -
  let ?n = "blocks_per_piece s" and ?j = "dp_info_idx d" and ?nb = "blocks_in_piece s (dp_index d)"
  let ?m = "m_block_info s"
  have nb: "?nb \<le> ?n" using g by (rule geom_okD(3))
  have "take ?nb (drop (?j * ?n) (take (idx * ?n) ?m @ bs @ drop (idx * ?n + length bs) ?m)) = take ?nb (drop (?j * ?n) ?m)"
  proof (cases "?j < idx")
    case True
    then have "(?j + 1) * ?n \<le> idx * ?n" by (intro mult_right_mono) simp_all
    then have "?j * ?n + ?nb \<le> idx * ?n" using nb by simp
    then show ?thesis using fits(1) by (simp add: drop_take)
  next
    case False
    then have "(idx + 1) * ?n \<le> ?j * ?n" using ne by (intro mult_right_mono) simp_all
    then have "idx * ?n + length bs \<le> ?j * ?n" using bs by simp
    moreover from this obtain c where "?j * ?n = idx * ?n + length bs + c" using le_Suc_ex by blast
    ultimately show ?thesis using fits(1) by (simp add: add.commute)
  qed
  then show ?thesis unfolding blocks_for_piece_def write_blocks_simps block_info_write_blocks .
qed

lemma init_blocks_cong:
  "blocks_per_piece s1 = blocks_per_piece s \<Longrightarrow> blocks_in_piece s1 = blocks_in_piece s \<Longrightarrow>
   m_pads_in_piece s1 = m_pads_in_piece s \<Longrightarrow> m_piece_size s1 = m_piece_size s \<Longrightarrow> init_blocks s1 i = init_blocks s i"
  by (simp add: init_blocks_def payload_blocks_def pad_bytes_in_piece_def block_size_def)

lemma init_blocks_counts:
  "length (init_blocks s i) = blocks_in_piece s i"
  "count_state state_requested (init_blocks s i) = 0" "count_state state_writing (init_blocks s i) = 0"
  by (auto simp: init_blocks_def count_state_def new_block_info_def filter_empty_conv)

definition new_partial :: "nat \<Rightarrow> nat \<Rightarrow> nat \<Rightarrow> downloading_piece" where
  "new_partial i info_idx finished = (new_downloading_piece i)\<lparr>dp_info_idx := info_idx, dp_finished := finished\<rparr>"

text \<open>The state \<open>add_download_piece\<close> hands to \<open>update_piece_state\<close>.\<close>

lemma add_download_piece_pre:
  assumes core: "dl_core (f(i := piece_open)) s" and i: "i < num_pieces s" and st: "f i = piece_downloading"
    and room: "slots s < 2 ^ 16"
  obtains idx s3 where
    "add_download_piece i s = update_piece_state (piece_downloading, lower_bound (m_downloads s piece_downloading) i) s3"
    "same_order s s3" "dl_core f s3"
    "dl_at s3 (piece_downloading, lower_bound (m_downloads s piece_downloading) i)
       = new_partial i idx (count_state state_finished (init_blocks s i))"
    "mset (get_download_queue s3)
       = add_mset (new_partial i idx (count_state state_finished (init_blocks s i))) (mset (get_download_queue s))"
    "blocks_for_piece s3 (new_partial i idx (count_state state_finished (init_blocks s i))) = init_blocks s i"
    "blocks_in_piece s3 = blocks_in_piece s" "same_want s s3"
proof -
  have g: "geom_ok s" and al: "alloc_ok s" and Q: "queues_for (f(i := piece_open)) s" and cs: "counts_ok s"
    using core by (auto simp: dl_core_def)
  obtain idx s1 where a: "alloc_block_infos s = (idx, s1)" by fastforce
  note A = alloc_block_infos_ok [OF g al a]
  let ?n = "blocks_per_piece s" and ?bs = "init_blocks s i"
  let ?j = "lower_bound (m_downloads s piece_downloading) i"
  let ?d = "new_partial i idx (count_state state_finished ?bs)"
  define s2 where "s2 = write_blocks (idx * ?n) ?bs s1"
  define s3 where "s3 = set_queue piece_downloading (insert_at ?j ?d (m_downloads s2 piece_downloading)) s2"
  have bs1: "init_blocks s1 i = ?bs" using A by (intro init_blocks_cong) auto
  have lbs: "length ?bs \<le> ?n" using geom_okD(3) [OF g] by (simp add: init_blocks_counts)
  have fin: "count_state state_finished ?bs < 2 ^ block_count_bits"
    using count_state_le [of state_finished ?bs] lbs geom_okD(2) [OF g] by simp
  have idx: "idx < 2 ^ 16" using A(13) room by simp
  have e1: "add_download_piece i s = update_piece_state (piece_downloading, ?j) s3"
    using a bs1 fin idx A(2,4)
    by (simp add: add_download_piece_def s3_def s2_def new_partial_def Let_def)
  have d2: "m_downloads s2 = m_downloads s" using A(2) by (simp add: s2_def)
  have so: "same_order s s3"
    using same_order_trans [OF A(1)] same_order_upd(6) [of s1 "idx * ?n" ?bs] same_order_upd(1)
    unfolding s3_def s2_def by (metis same_order_trans)
  have sw: "same_want s s3"
    using same_want_trans [OF alloc_want [of s]] same_want_trans frame_want(6) frame_want(1) a
    unfolding s3_def s2_def by (metis snd_conv)
  have jl: "?j \<le> length (m_downloads s piece_downloading)" by (simp add: lower_bound_def length_takeWhile_le)
  have at: "dl_at s3 (piece_downloading, ?j) = ?d"
    using jl d2 by (simp add: dl_at_def s3_def insert_at_def nth_append)
  have "mset (get_download_queue s3) + mset (m_downloads s2 piece_downloading)
      = mset (get_download_queue s2) + mset (insert_at ?j ?d (m_downloads s2 piece_downloading))"
    unfolding s3_def by (rule mset_partials_set_queue) (simp add: in_categories)
  then have m: "mset (get_download_queue s3) = add_mset ?d (mset (get_download_queue s))"
    using d2 by (simp add: mset_insert_at get_download_queue_def)
  have fits: "idx * ?n + ?n \<le> length (m_block_info s1)"
  proof -
    have "(idx + 1) * ?n \<le> slots s1 * ?n" using A(9) by (intro mult_right_mono) simp_all
    then show ?thesis using A(10) by simp
  qed
  have l2: "length (m_block_info s2) = length (m_block_info s1)"
    unfolding s2_def using fits lbs by (intro length_write_blocks) simp
  have bl: "blocks_per_piece s2 = ?n" "blocks_in_piece s2 = blocks_in_piece s" using A(4,5) by (simp_all add: s2_def)
  have bfp: "blocks_for_piece s3 ?d = ?bs"
  proof -
    have "take (blocks_in_piece s i) (drop (idx * ?n) (m_block_info s2)) = ?bs"
      using fits by (simp add: s2_def write_blocks_def init_blocks_counts)
    then show ?thesis using bl
      by (simp add: blocks_for_piece_def s3_def new_partial_def new_downloading_piece_def)
  qed
  have sl: "slots s3 = slots s1" using l2 bl A(4) by (simp add: slots_def s3_def)
  have al3: "alloc_ok s3" unfolding alloc_ok_mset
  proof
    show "length (m_block_info s3) = slots s3 * blocks_per_piece s3"
      using l2 sl A(10) bl by (simp add: s3_def)
    show "image_mset dp_info_idx (mset (get_download_queue s3)) + mset (m_free_block_infos s3) = mset [0..<slots s3]"
      using m sl A(11) by (simp add: new_partial_def s3_def s2_def)
  qed
  have Q3: "queues_for f s3"
  proof -
    have "queues_for (f(i := piece_open)) s2" using Q d2 A(6) by (simp add: queues_for_def s2_def)
    from queues_for_insert [OF this _ st _, of ?d] show ?thesis
      unfolding s3_def using i A(6) d2 by (simp add: s2_def in_categories new_partial_def new_downloading_piece_def)
  qed
  have "counts_match s3 e" if "e \<in># mset (get_download_queue s3)" for e
  proof (cases "e = ?d")
    case True
    then show ?thesis using bfp
      by (simp add: counts_match_def init_blocks_counts) (simp add: new_partial_def new_downloading_piece_def)
  next
    case False
    then have e: "e \<in> set (get_download_queue s)" using that m by simp
    have le: "dp_info_idx e * ?n + ?n \<le> length (m_block_info s)"
      by (rule length_blocks_for_piece(2) [OF g al alloc_okD(3) [OF al e]])
    have len: "length (m_block_info s) \<le> length (m_block_info s1)"
      using a by (auto simp: alloc_block_infos_def Let_def split: if_splits)
    have ne: "dp_info_idx e \<noteq> idx"
    proof
      assume "dp_info_idx e = idx"
      have d: "distinct (idx # map dp_info_idx (get_download_queue s) @ m_free_block_infos s1)"
        using A(11) by (metis distinct_upt mset_eq_imp_distinct_iff mset.simps(2) mset_append mset_map)
      then show False using e \<open>dp_info_idx e = idx\<close> by auto
    qed
    have "blocks_for_piece s3 e = blocks_for_piece s2 e" by (simp add: s3_def)
    also have "\<dots> = blocks_for_piece s1 e"
      unfolding s2_def using write_blocks_other [OF A(3) ne, of ?bs] lbs fits le len A(4) by simp
    also have "\<dots> = blocks_for_piece s e" by (rule A(12) [OF e])
    finally show ?thesis using cs e by (simp add: counts_ok_def counts_match_def)
  qed
  then have "counts_ok s3" by (simp only: counts_ok_mset) blast
  moreover have "geom_ok s3" using A(3) by (simp add: geom_ok_def s3_def s2_def)
  ultimately have "dl_core f s3" using Q3 al3 by (simp add: dl_core_def)
  then show thesis using that e1 so at m bfp bl(2) sw by (simp add: s3_def)
qed

lemma add_download_piece_ok:
  assumes inv: "order_inv s" and core: "dl_core ((queue_of s)(i := piece_open)) s" and full: "full_ok s (\<lambda>j. j \<noteq> i)"
    and i: "i < num_pieces s" and st: "queue_of s i = piece_downloading" and room: "slots s < 2 ^ 16"
    and u: "add_download_piece i s = (it', s')"
  shows "order_inv s'" "dl_ok s'" "it' = find_piece s' i" "queue_of s' i \<noteq> piece_open"
    "num_pieces s' = num_pieces s" "blocks_in_piece s' = blocks_in_piece s"
    "blocks_for_piece s' (dl_at s' it') = init_blocks s i"
    "\<exists>idx. dl_at s' it' = new_partial i idx (count_state state_finished (init_blocks s i))"
    "same_want s s'"
proof -
  let ?j = "lower_bound (m_downloads s piece_downloading) i"
  obtain idx s3 where P: "add_download_piece i s = update_piece_state (piece_downloading, ?j) s3"
    "same_order s s3" "dl_core (queue_of s) s3"
    "dl_at s3 (piece_downloading, ?j) = new_partial i idx (count_state state_finished (init_blocks s i))"
    "mset (get_download_queue s3)
       = add_mset (new_partial i idx (count_state state_finished (init_blocks s i))) (mset (get_download_queue s))"
    "blocks_for_piece s3 (new_partial i idx (count_state state_finished (init_blocks s i))) = init_blocks s i"
    "blocks_in_piece s3 = blocks_in_piece s" "same_want s s3"
    using add_download_piece_pre [OF core i st room] by metis
  note O = same_order_fields [OF P(2)]
  let ?d = "new_partial i idx (count_state state_finished (init_blocks s i))"
  have i3: "i < num_pieces s3" and core3: "dl_core (queue_of s3) s3" and inv3: "order_inv s3"
    using i P(3) inv O by simp_all
  have op: "queue_of s3 i \<noteq> piece_open" using O st by simp
  have ff: "full_ok s3 (\<lambda>j. j \<noteq> i)"
    unfolding full_ok_mset P(5) using full O by (auto simp: full_ok_def new_partial_def new_downloading_piece_def)
  have Q: "queues_for ((queue_of s)(i := piece_open)) s" using core by (simp add: dl_core_def)
  have it: "find_piece s3 i = (piece_downloading, ?j)"
  proof -
    have "find_dl_piece s3 piece_downloading i = length (filter (\<lambda>l. queue_of s3 l = piece_downloading) [0..<i])"
      using find_dl_piece_ok(3) [of "queue_of s3" s3 i piece_downloading] core3 i3 O st
      by (simp add: dl_core_def in_categories)
    also have "filter (\<lambda>l. queue_of s3 l = piece_downloading) [0..<i]
        = filter (\<lambda>l. ((queue_of s)(i := piece_open)) l = piece_downloading) [0..<i]"
      using O by (intro filter_cong) auto
    also have "length \<dots> = ?j"
      using lower_bound_pos [of "m_downloads s piece_downloading" "\<lambda>l. ((queue_of s)(i := piece_open)) l = piece_downloading"
          "num_pieces s" i] Q i by (simp add: queues_for_def in_categories)
    finally show ?thesis using O st by (simp add: find_piece_pair)
  qed
  have mv: "moved i (find_piece s3 i) s3 it' s'"
    using update_piece_state_ok [OF inv3 core3 ff i3 op] P(1) u it by simp
  have "same_want s3 s'" by (rule update_piece_state_want [where it' = it', OF inv3 core3 i3 op]) (use P(1) u it in simp)
  then show "same_want s s'" by (rule same_want_trans [OF P(8)])
  have nf: "pp_state (m_piece_map s3 ! i) \<noteq> piece_full"
    using O st by (auto simp: queue_of_def download_queue_def)
  have at: "dl_at s' it' = ?d" using mv P(4) it unfolding moved_def by metis
  have sb: "same_blocks s3 s'" using mv by (simp add: moved_def)
  show "order_inv s'" "dl_ok s'" "it' = find_piece s' i" "queue_of s' i \<noteq> piece_open"
    using mv nf by (auto simp: moved_def dl_ok_def)
  show "num_pieces s' = num_pieces s" "blocks_in_piece s' = blocks_in_piece s"
    using same_blocks_fields [OF sb] O P(7) by simp_all
  show "blocks_for_piece s' (dl_at s' it') = init_blocks s i"
    using at same_blocks_fields(7) [OF sb] P(6) by simp
  show "\<exists>idx. dl_at s' it' = new_partial i idx (count_state state_finished (init_blocks s i))"
    using at by blast
qed

end
