(* ===== verification/Picker_Have.thy ===== *)
theory Picker_Have
  imports Picker_Moves
begin

text \<open>
  Which pieces we have and want: \<open>resize\<close>, \<open>piece_passed\<close>, \<open>we_have\<close>, \<open>we_dont_have\<close>,
  \<open>we_have_all\<close>, \<open>set_piece_priority\<close>, \<open>set_pad_bytes\<close> with the two cursors and the counters
  they maintain, and the counts derived from them.
\<close>

section \<open>Cursors\<close>

definition skip_piece :: "piece_pos \<Rightarrow> bool" where
  "skip_piece p \<longleftrightarrow> pos_have p \<or> pos_filtered p"

function advance_cursor :: "piece_pos list \<Rightarrow> nat \<Rightarrow> nat" where
  "advance_cursor mp c = (if c < length mp \<and> skip_piece (mp ! c) then advance_cursor mp (c + 1) else c)"
  by pat_completeness auto
termination
  by (relation "measure (\<lambda>(mp, c). length mp - c)") auto

declare advance_cursor.simps [simp del]

fun retreat_cursor :: "piece_pos list \<Rightarrow> nat \<Rightarrow> nat" where
  "retreat_cursor mp 0 = 0"
| "retreat_cursor mp (Suc c) = (if skip_piece (mp ! c) then retreat_cursor mp c else Suc c)"

text \<open>The cursor update when piece \<open>index\<close> is no longer to be downloaded.\<close>

definition cursors_exclude :: "nat \<Rightarrow> picker \<Rightarrow> picker" where
  "cursors_exclude index s =
     (if m_cursor s + 1 = m_reverse_cursor s \<and> m_cursor s = index
      then s\<lparr>m_cursor := num_pieces s, m_reverse_cursor := 0\<rparr>
      else if m_cursor s = index
      then s\<lparr>m_cursor := advance_cursor (m_piece_map s) (m_cursor s + 1)\<rparr>
      else if m_reverse_cursor s = index + 1
      then s\<lparr>m_reverse_cursor := retreat_cursor (m_piece_map s) (m_reverse_cursor s - 1)\<rparr>
      else s)"

text \<open>The cursor update when piece \<open>index\<close> is to be downloaded again.\<close>

definition cursors_include :: "nat \<Rightarrow> picker \<Rightarrow> picker" where
  "cursors_include index s =
     (let s1 = (if index < m_cursor s then s\<lparr>m_cursor := index\<rparr> else s);
          s2 = (if index \<ge> m_reverse_cursor s1 then s1\<lparr>m_reverse_cursor := index + 1\<rparr> else s1)
      in if m_reverse_cursor s2 = m_cursor s2
         then s2\<lparr>m_reverse_cursor := 0, m_cursor := num_pieces s2\<rparr>
         else s2)"

section \<open>Construction\<close>

text \<open>
  \<open>invalid_piece_size\<close> is the error \<open>resize\<close> reports; \<open>length_error\<close> is what \<open>std::vector\<close> throws when it
  is asked for a negative number of pieces.
\<close>

datatype picker_error = invalid_piece_size | length_error

definition max_blocks_per_piece :: nat where "max_blocks_per_piece = 2 ^ 15 - 1"

text \<open>What \<open>resize\<close> does once the sizes are accepted: all but \<open>m_blocks_in_last_piece\<close>.\<close>

definition reset_pieces :: "nat \<Rightarrow> picker \<Rightarrow> picker" where
  "reset_pieces pieces s =
     (let mp = map (\<lambda>p. p\<lparr>pp_peer_count := 0, pp_state := piece_open, pp_index := Some 0\<rparr>)
                 (vec_resize pieces (new_piece_pos 0 0) (m_piece_map s))
      in s\<lparr>m_piece_map := mp,
           m_downloads := (\<lambda>_. []),
           m_block_info := [],
           m_free_block_infos := [],
           m_num_filtered := m_num_filtered s + m_num_have_filtered s,
           m_num_have_filtered := 0,
           m_num_have := 0,
           m_have_pad_bytes := 0,
           m_filtered_pad_bytes := m_filtered_pad_bytes s + m_have_filtered_pad_bytes s,
           m_have_filtered_pad_bytes := 0,
           m_num_passed := 0,
           m_dirty := True,
           m_cursor := advance_cursor mp 0,
           m_reverse_cursor := retreat_cursor mp (length mp)\<rparr>)"

definition resize_picker :: "nat \<Rightarrow> nat \<Rightarrow> picker \<Rightarrow> picker_error + picker" where
  "resize_picker total_size piece_sz s0 =
     (let s = s0\<lparr>m_total_size := total_size, m_piece_size := piece_sz\<rparr>;
          blocks_in = int32 (int piece_sz + int (block_size s) - 1) sdiv int (block_size s);
          blocks_in_last = (total_size mod piece_sz + block_size s - 1) div block_size s;
          pieces = int32 (int ((total_size + piece_sz - 1) div piece_sz))
      in if blocks_in > int max_blocks_per_piece then Inl invalid_piece_size
         else if pieces < 0 then Inl length_error
         else Inr ((reset_pieces (nat pieces) s)\<lparr>m_blocks_in_last_piece :=
                (if blocks_in_last mod 2 ^ 16 = 0 then nat (blocks_in mod 2 ^ 16) else blocks_in_last mod 2 ^ 16)\<rparr>))"

definition empty_picker :: "nat list \<Rightarrow> picker" where
  "empty_picker draws =
     \<lparr>m_piece_map = [], m_pads_in_piece = Map.empty, m_recent_extents = [], m_num_pad_bytes = 0,
      m_have_pad_bytes = 0, m_filtered_pad_bytes = 0, m_have_filtered_pad_bytes = 0, m_seeds = 0,
      m_num_passed = 0, m_pieces = [], m_priority_boundaries = [0], m_downloads = (\<lambda>_. []),
      m_block_info = [], m_free_block_infos = [], m_blocks_in_last_piece = 0, m_piece_size = 0,
      m_total_size = 0, m_num_filtered = 0, m_num_have_filtered = 0, m_cursor = 0,
      m_reverse_cursor = 0, m_num_have = 0, m_dirty = False, rng_draws = draws\<rparr>"

definition new_picker :: "nat \<Rightarrow> nat \<Rightarrow> nat list \<Rightarrow> picker_error + picker" where
  "new_picker total_size piece_sz draws = resize_picker total_size piece_sz (empty_picker draws)"

section \<open>Having pieces\<close>

text \<open>\<open>we_have\<close>, once the partial piece is gone: the counters, \<open>set_have()\<close> and the cursors.\<close>

definition gain_piece :: "nat \<Rightarrow> picker \<Rightarrow> picker" where
  "gain_piece index s =
     (let pad = int (pad_bytes_in_piece s index);
          s1 = (if pos_filtered (m_piece_map s ! index)
                then s\<lparr>m_filtered_pad_bytes := m_filtered_pad_bytes s - pad,
                       m_num_filtered := m_num_filtered s - 1,
                       m_have_filtered_pad_bytes := m_have_filtered_pad_bytes s + pad,
                       m_num_have_filtered := m_num_have_filtered s + 1\<rparr>
                else s);
          s2 = s1\<lparr>m_num_have := m_num_have s1 + 1, m_num_passed := m_num_passed s1 + 1,
                  m_have_pad_bytes := m_have_pad_bytes s1 + pad\<rparr>
      in cursors_exclude index (upd_pos index set_have s2))"

definition we_have :: "nat \<Rightarrow> picker \<Rightarrow> picker" where
  "we_have index s =
     (let p = m_piece_map s ! index;
          info_index = pp_index p;
          priority = priority_of s index
      in if pos_have p then s
         else
           let state = download_queue p;
               s1 = (if state \<noteq> piece_open then
                       let i = (state, find_dl_piece s state index);
                           s' = (if dp_passed_hash_check (dl_at s i)
                                 then s\<lparr>m_num_passed := m_num_passed s - 1\<rparr> else s)
                       in erase_download_piece i s'
                     else s);
               s2 = gain_piece index s1
           in if priority = -1 then s2
              else if m_dirty s2 then s2
              else picker_remove (nat priority) (the info_index) s2)"

definition piece_passed :: "nat \<Rightarrow> picker \<Rightarrow> picker" where
  "piece_passed index s =
     (let download_state = download_queue (m_piece_map s ! index)
      in if download_state = piece_open then s
         else
           let i = (download_state, find_dl_piece s download_state index)
           in if dp_locked (dl_at s i) then s
              else
                let s1 = upd_dl i (\<lambda>d. d\<lparr>dp_passed_hash_check := True\<rparr>) s;
                    s2 = s1\<lparr>m_num_passed := m_num_passed s1 + 1\<rparr>
                in if dp_finished (dl_at s2 i) < blocks_in_piece s2 index then s2
                   else we_have index s2)"

text \<open>\<open>we_dont_have\<close> for a piece we have: the counters, the cursors and \<open>set_not_have()\<close>.\<close>

definition lose_piece :: "nat \<Rightarrow> picker \<Rightarrow> picker" where
  "lose_piece index s =
     (let pad = int (pad_bytes_in_piece s index);
          s1 = s\<lparr>m_num_passed := m_num_passed s - 1\<rparr>;
          s2 = (if pos_filtered (m_piece_map s ! index)
                then s1\<lparr>m_filtered_pad_bytes := m_filtered_pad_bytes s1 + pad,
                        m_num_filtered := m_num_filtered s1 + 1,
                        m_have_filtered_pad_bytes := m_have_filtered_pad_bytes s1 - pad,
                        m_num_have_filtered := m_num_have_filtered s1 - 1\<rparr>
                else cursors_include index s1);
          s3 = s2\<lparr>m_num_have := m_num_have s2 - 1,
                  m_have_pad_bytes := m_have_pad_bytes s2 - pad\<rparr>
      in upd_pos index set_not_have s3)"

definition we_dont_have :: "nat \<Rightarrow> picker \<Rightarrow> picker" where
  "we_dont_have index s =
     (let p = m_piece_map s ! index
      in if \<not> pos_have p then
           let download_state = download_queue p
           in if download_state = piece_open then s
              else
                let i = (download_state, find_dl_piece s download_state index);
                    s1 = (if dp_passed_hash_check (dl_at s i)
                          then (upd_dl i (\<lambda>d. d\<lparr>dp_passed_hash_check := False\<rparr>) s)
                                 \<lparr>m_num_passed := m_num_passed s - 1\<rparr>
                          else s)
                in erase_download_piece i s1
         else
           let s1 = lose_piece index s
           in if m_dirty s1 then s1
              else if priority_of s1 index \<ge> 0 then picker_add index s1
              else s1)"

definition we_have_all :: "picker \<Rightarrow> picker" where
  "we_have_all s =
     s\<lparr>m_priority_boundaries := [0], m_block_info := [], m_free_block_infos := [], m_pieces := [],
       m_dirty := False,
       m_num_have_filtered := m_num_have_filtered s + m_num_filtered s,
       m_num_filtered := 0,
       m_have_filtered_pad_bytes := m_have_filtered_pad_bytes s + m_filtered_pad_bytes s,
       m_filtered_pad_bytes := 0,
       m_cursor := num_pieces s,
       m_reverse_cursor := 0,
       m_num_passed := int (num_pieces s),
       m_num_have := int (num_pieces s),
       m_downloads := (\<lambda>_. []),
       m_piece_map := map (\<lambda>p. (set_have p)\<lparr>pp_state := piece_open\<rparr>) (m_piece_map s)\<rparr>"

section \<open>Priorities and padding\<close>

text \<open>The counters and cursors of a piece that becomes filtered or unfiltered.\<close>

definition filter_counts :: "nat \<Rightarrow> picker \<Rightarrow> picker" where
  "filter_counts index s =
     (let p = m_piece_map s ! index; pad = int (pad_bytes_in_piece s index)
      in if pos_have p
         then s\<lparr>m_have_filtered_pad_bytes := m_have_filtered_pad_bytes s + pad,
                m_num_have_filtered := m_num_have_filtered s + 1\<rparr>
         else cursors_exclude index
                (s\<lparr>m_filtered_pad_bytes := m_filtered_pad_bytes s + pad,
                   m_num_filtered := m_num_filtered s + 1\<rparr>))"

definition unfilter_counts :: "nat \<Rightarrow> picker \<Rightarrow> picker" where
  "unfilter_counts index s =
     (let p = m_piece_map s ! index; pad = int (pad_bytes_in_piece s index)
      in if pos_have p
         then s\<lparr>m_have_filtered_pad_bytes := m_have_filtered_pad_bytes s - pad,
                m_num_have_filtered := m_num_have_filtered s - 1\<rparr>
         else cursors_include index
                (s\<lparr>m_filtered_pad_bytes := m_filtered_pad_bytes s - pad,
                   m_num_filtered := m_num_filtered s - 1\<rparr>))"

definition set_piece_priority :: "nat \<Rightarrow> nat \<Rightarrow> picker \<Rightarrow> bool \<times> picker" where
  "set_piece_priority index new_piece_priority s =
     (let p = m_piece_map s ! index
      in if new_piece_priority = pp_priority p then (False, s)
         else
           let prev_priority = priority_of s index;
               (ret, s1) =
                 (if new_piece_priority = dont_download \<and> pp_priority p \<noteq> dont_download
                  then (True, filter_counts index s)
                  else if new_piece_priority \<noteq> dont_download \<and> pp_priority p = dont_download
                  then (True, unfilter_counts index s)
                  else (False, s));
               s2 = upd_pos index (\<lambda>p. p\<lparr>pp_priority := new_piece_priority mod 8\<rparr>) s1;
               new_priority = priority_of s2 index;
               s3 = (if prev_priority \<noteq> new_priority \<and> \<not> m_dirty s2
                     then (if prev_priority = -1 then picker_add index s2
                           else update_at (nat prev_priority) index s2)
                     else s2);
               s4 = (if pos_downloading (m_piece_map s3 ! index) then
                       let q = download_queue (m_piece_map s3 ! index);
                           i = find_dl_piece s3 q index
                       in if i \<noteq> length (m_downloads s3 q)
                          then snd (update_piece_state (q, i) s3) else s3
                     else s3)
           in (ret, s4))"

definition set_pad_bytes :: "nat \<Rightarrow> nat \<Rightarrow> picker \<Rightarrow> picker" where
  "set_pad_bytes piece bytes s =
     (let s1 = s\<lparr>m_num_pad_bytes := m_num_pad_bytes s + int bytes,
                 m_pads_in_piece := (m_pads_in_piece s)(piece \<mapsto> bytes)\<rparr>;
          p = m_piece_map s1 ! piece;
          s2 = (if pos_have p then
                  let s' = s1\<lparr>m_have_pad_bytes := m_have_pad_bytes s1 + int bytes\<rparr>
                  in if pos_filtered p
                     then s'\<lparr>m_have_filtered_pad_bytes := m_have_filtered_pad_bytes s' + int bytes\<rparr>
                     else s'
                else if pos_filtered p
                then s1\<lparr>m_filtered_pad_bytes := m_filtered_pad_bytes s1 + int bytes\<rparr>
                else s1)
      in if piece_size s2 piece = int bytes then we_have piece s2 else s2)"

section \<open>Counts\<close>

record piece_count =
  pc_num_pieces :: int
  pc_pad_bytes :: int
  pc_last_piece :: bool

definition want :: "picker \<Rightarrow> piece_count" where
  "want s =
     \<lparr>pc_num_pieces = int (num_pieces s) - m_num_filtered s - m_num_have_filtered s,
      pc_pad_bytes = m_num_pad_bytes s - m_filtered_pad_bytes s - m_have_filtered_pad_bytes s,
      pc_last_piece = (piece_priority s (num_pieces s - 1) \<noteq> dont_download)\<rparr>"

definition have_want :: "picker \<Rightarrow> piece_count" where
  "have_want s =
     \<lparr>pc_num_pieces = m_num_have s - m_num_have_filtered s,
      pc_pad_bytes = m_have_pad_bytes s - m_have_filtered_pad_bytes s,
      pc_last_piece = (have_piece s (num_pieces s - 1)
         \<and> piece_priority s (num_pieces s - 1) \<noteq> dont_download)\<rparr>"

definition have_count :: "picker \<Rightarrow> piece_count" where
  "have_count s =
     \<lparr>pc_num_pieces = m_num_have s, pc_pad_bytes = m_have_pad_bytes s,
      pc_last_piece = have_piece s (num_pieces s - 1)\<rparr>"

definition all_pieces :: "picker \<Rightarrow> piece_count" where
  "all_pieces s =
     \<lparr>pc_num_pieces = int (num_pieces s), pc_pad_bytes = m_num_pad_bytes s, pc_last_piece = True\<rparr>"

definition is_finished :: "picker \<Rightarrow> bool" where
  "is_finished s \<longleftrightarrow> int (num_pieces s) - m_num_filtered s \<le> m_num_passed s"

definition is_seeding :: "picker \<Rightarrow> bool" where
  "is_seeding s \<longleftrightarrow> m_num_have s = int (num_pieces s)"

definition num_want_left :: "picker \<Rightarrow> int" where
  "num_want_left s =
     int (num_pieces s) - m_num_have s - m_num_filtered s + m_num_have_filtered s"

text \<open>\<open>distributed_copies\<close>: the loop keeps the minimum seen, how often, and the rest.\<close>

fun copies_loop :: "int \<times> nat \<times> nat \<Rightarrow> piece_pos list \<Rightarrow> int \<times> nat \<times> nat" where
  "copies_loop acc [] = acc"
| "copies_loop (min_availability, integer_part, fraction_part) (i # ps) =
     (let peer_count = int (pp_peer_count i) + (if pos_have i then 1 else 0)
      in if min_availability > peer_count
         then copies_loop (peer_count, 1, fraction_part + integer_part) ps
         else if peer_count = min_availability
         then copies_loop (min_availability, integer_part + 1, fraction_part) ps
         else copies_loop (min_availability, integer_part, fraction_part + 1) ps)"

definition distributed_copies :: "picker \<Rightarrow> int \<times> int" where
  "distributed_copies s =
     (let npieces = num_pieces s
      in if npieces = 0 then (1, 0)
         else
           let (min_availability, integer_part, fraction_part) = copies_loop (0xffff, 0, 0) (m_piece_map s)
           in (min_availability + m_seeds s, int32 (int fraction_part * 1000) sdiv int npieces))"

end
