(* ===== verification/Picker_Blocks.thy ===== *)
theory Picker_Blocks
  imports Picker_Have
begin

text \<open>
  The life of a block: requested, written, finished, and the ways back (abort, cancel, write
  failure, hash failure), with the bookkeeping of the piece it belongs to.
\<close>

section \<open>Options and extents\<close>

datatype picker_option =
    rarest_first | reverse | on_parole | prioritize_partials | sequential
  | align_expanded_pieces | piece_extent_affinity

definition max_piece_affinity_extent :: nat where
  "max_piece_affinity_extent = 4 * 1024 * 1024 div default_block_size"

definition extent_for_piece :: "picker \<Rightarrow> nat \<Rightarrow> nat" where
  "extent_for_piece s p = p div (max_piece_affinity_extent div blocks_per_piece s)"

definition extent_for :: "picker \<Rightarrow> nat \<Rightarrow> nat list" where
  "extent_for s e =
     (let extent_size = max_piece_affinity_extent div blocks_per_piece s;
          first = e * extent_size;
          last = min (first + extent_size) (num_pieces s)
      in [first..<last])"

definition record_downloading_piece :: "nat \<Rightarrow> picker \<Rightarrow> picker" where
  "record_downloading_piece p s =
     (if blocks_per_piece s \<ge> max_piece_affinity_extent then s
      else
        let this_extent = extent_for_piece s p;
            others = filter (\<lambda>piece. piece \<noteq> p) (extent_for s this_extent)
        in if this_extent \<in> set (m_recent_extents s) then s
           else if \<exists>piece \<in> set others. piece_priority s piece \<noteq> piece_priority s p then s
           else if \<forall>piece \<in> set others. pos_have (m_piece_map s ! piece) then s
           else if length (m_recent_extents s) < 5
           then s\<lparr>m_recent_extents := m_recent_extents s @ [this_extent]\<rparr>
           else s)"

section \<open>Towards completion\<close>

text \<open>The counters of \<open>downloading_piece\<close> have 15 bits.\<close>

definition inc_requested :: "downloading_piece \<Rightarrow> downloading_piece" where
  "inc_requested d = d\<lparr>dp_requested := inc_bits block_count_bits (dp_requested d)\<rparr>"

definition dec_requested :: "downloading_piece \<Rightarrow> downloading_piece" where
  "dec_requested d = d\<lparr>dp_requested := dec_bits block_count_bits (dp_requested d)\<rparr>"

definition inc_writing :: "downloading_piece \<Rightarrow> downloading_piece" where
  "inc_writing d = d\<lparr>dp_writing := inc_bits block_count_bits (dp_writing d)\<rparr>"

definition dec_writing :: "downloading_piece \<Rightarrow> downloading_piece" where
  "dec_writing d = d\<lparr>dp_writing := dec_bits block_count_bits (dp_writing d)\<rparr>"

definition inc_finished :: "downloading_piece \<Rightarrow> downloading_piece" where
  "inc_finished d = d\<lparr>dp_finished := inc_bits block_count_bits (dp_finished d)\<rparr>"

definition dec_finished :: "downloading_piece \<Rightarrow> downloading_piece" where
  "dec_finished d = d\<lparr>dp_finished := dec_bits block_count_bits (dp_finished d)\<rparr>"

text \<open>\<open>p.state(st)\<close> followed by \<open>if (prio >= 0 && !m_dirty) update(prio, p.index)\<close>.\<close>

definition change_state :: "nat \<Rightarrow> (piece_pos \<Rightarrow> piece_pos) \<Rightarrow> picker \<Rightarrow> picker" where
  "change_state index f s =
     (let prio = priority_of s index;
          s1 = upd_pos index f s
      in if prio \<ge> 0 \<and> \<not> m_dirty s1 then update_at (nat prio) index s1 else s1)"

definition mark_as_downloading ::
    "piece_block \<Rightarrow> nat option \<Rightarrow> picker_option set \<Rightarrow> picker \<Rightarrow> bool \<times> picker" where
  "mark_as_downloading block peer options s =
     (let index = piece_index block; p = m_piece_map s ! index
      in if download_queue p = piece_open then
           let s1 = change_state index (\<lambda>p. p\<lparr>pp_state :=
                      (if reverse \<in> options then piece_downloading_reverse else piece_downloading)\<rparr>) s;
               s2 = (if piece_extent_affinity \<in> options then record_downloading_piece index s1 else s1);
               (dp, s3) = add_download_piece index s2;
               k = block_pos s3 (dl_at s3 dp) (block_index block)
           in if bi_state (m_block_info s3 ! k) = state_finished then (False, s3)
              else
                let s4 = upd_block k (\<lambda>_. \<lparr>bi_peer = peer, bi_num_peers = 1, bi_state = state_requested\<rparr>) s3;
                    s5 = upd_dl dp inc_requested s4
                in (True, snd (update_piece_state dp s5))
         else
           let i = find_piece s index;
               k = block_pos s (dl_at s i) (block_index block);
               info = m_block_info s ! k
           in if bi_state info = state_writing \<or> bi_state info = state_finished then (False, s)
              else
                let s1 = (if reverse \<in> options \<and> \<not> pos_reverse p \<and> dp_requested (dl_at s i) = 0
                          then change_state index make_reverse s else s);
                    s2 = upd_block k (\<lambda>b. b\<lparr>bi_peer := peer\<rparr>) s1;
                    s3 = (if bi_state (m_block_info s2 ! k) \<noteq> state_requested
                          then snd (update_piece_state i (upd_dl i inc_requested
                                 (upd_block k (\<lambda>b. b\<lparr>bi_state := state_requested\<rparr>) s2)))
                          else s2);
                    s4 = upd_block k (\<lambda>b. b\<lparr>bi_num_peers := inc_bits num_peers_bits (bi_num_peers b)\<rparr>) s3;
                    s5 = (if reverse \<notin> options \<and> pos_reverse (m_piece_map s4 ! index)
                          then change_state index unreverse s4 else s4)
                in (True, s5))"

definition mark_as_writing :: "piece_block \<Rightarrow> nat option \<Rightarrow> picker \<Rightarrow> bool \<times> picker" where
  "mark_as_writing block peer s =
     (let index = piece_index block; p = m_piece_map s ! index
      in if \<not> pos_downloading p then
           if have_piece s index then (False, s)
           else
             let s1 = change_state index (\<lambda>p. p\<lparr>pp_state := piece_downloading\<rparr>) s;
                 (dp, s2) = add_download_piece index s1;
                 k = block_pos s2 (dl_at s2 dp) (block_index block)
             in if bi_state (m_block_info s2 ! k) = state_finished then (False, s2)
                else
                  let s3 = upd_block k (\<lambda>_. \<lparr>bi_peer = peer, bi_num_peers = 0, bi_state = state_writing\<rparr>) s2;
                      s4 = upd_dl dp (\<lambda>d. d\<lparr>dp_writing := 1\<rparr>) s3
                  in (True, snd (update_piece_state dp s4))
         else
           let i = find_piece s index;
               k = block_pos s (dl_at s i) (block_index block);
               s1 = upd_block k (\<lambda>b. b\<lparr>bi_peer := peer\<rparr>) s;
               st = bi_state (m_block_info s1 ! k);
               s2 = (if st = state_requested then upd_dl i dec_requested s1 else s1)
           in if st = state_writing \<or> st = state_finished then (False, s2)
              else
                let s3 = upd_dl i inc_writing s2;
                    s4 = upd_block k (\<lambda>b. b\<lparr>bi_state := state_writing, bi_num_peers := 0\<rparr>) s3
                in (True, snd (update_piece_state i s4)))"

definition mark_as_finished :: "piece_block \<Rightarrow> nat option \<Rightarrow> picker \<Rightarrow> picker" where
  "mark_as_finished block peer s =
     (let index = piece_index block; p = m_piece_map s ! index
      in if download_queue p = piece_open then
           if have_piece s index then s
           else
             let s1 = change_state index (\<lambda>p. p\<lparr>pp_state := piece_downloading\<rparr>) s;
                 (dp, s2) = add_download_piece index s1;
                 k = block_pos s2 (dl_at s2 dp) (block_index block)
             in if bi_state (m_block_info s2 ! k) = state_finished then s2
                else
                  let s3 = upd_block k (\<lambda>b. b\<lparr>bi_peer := peer\<rparr>) s2;
                      s4 = upd_dl dp inc_finished s3;
                      s5 = upd_block k (\<lambda>b. b\<lparr>bi_state := state_finished\<rparr>) s4
                  in snd (update_piece_state dp s5)
         else
           let i = find_piece s index;
               k = block_pos s (dl_at s i) (block_index block);
               st = bi_state (m_block_info s ! k)
           in if st = state_finished then s
              else
                let s1 = (if st \<noteq> state_writing \<or> peer \<noteq> None
                          then upd_block k (\<lambda>b. b\<lparr>bi_peer := peer\<rparr>) s else s);
                    s2 = upd_dl i inc_finished s1;
                    s3 = (if st = state_writing then upd_dl i dec_writing s2 else s2);
                    s4 = upd_block k (\<lambda>b. b\<lparr>bi_state := state_finished\<rparr>) s3;
                    (i', s5) = update_piece_state i s4;
                    dp = dl_at s5 i'
                in if dp_finished dp < blocks_in_piece s5 (dp_index dp) then s5
                   else if dp_passed_hash_check dp \<and> dp_hashing dp = 0 then we_have (dp_index dp) s5
                   else s5)"

section \<open>Hash jobs\<close>

definition started_hash_job :: "nat \<Rightarrow> picker \<Rightarrow> picker" where
  "started_hash_job piece s =
     (if pos_downloading (m_piece_map s ! piece)
      then upd_dl (find_piece s piece) (\<lambda>d. d\<lparr>dp_hashing := 1\<rparr>) s else s)"

definition completed_hash_job :: "nat \<Rightarrow> picker \<Rightarrow> picker" where
  "completed_hash_job piece s =
     (if \<not> pos_downloading (m_piece_map s ! piece) then s
      else upd_dl (find_piece s piece) (\<lambda>d. d\<lparr>dp_hashing := 0\<rparr>) s)"

definition lock_piece :: "nat \<Rightarrow> picker \<Rightarrow> picker" where
  "lock_piece piece s =
     (let state = download_queue (m_piece_map s ! piece); i = find_dl_piece s state piece
      in if state = piece_open then s
         else if i = length (m_downloads s state) then s
         else
           let s1 = (if dp_passed_hash_check (dl_at s (state, i))
                     then (upd_dl (state, i) (\<lambda>d. d\<lparr>dp_passed_hash_check := False\<rparr>) s)
                            \<lparr>m_num_passed := m_num_passed s - 1\<rparr>
                     else s)
           in upd_dl (state, i) (\<lambda>d. d\<lparr>dp_locked := True\<rparr>) s1)"

section \<open>The ways back\<close>

text \<open>\<open>erase_download_piece(i)\<close>, then \<open>add\<close> or \<open>update\<close> unless the list is dirty.\<close>

definition erase_and_sync :: "int \<Rightarrow> nat \<Rightarrow> dl_iter \<Rightarrow> picker \<Rightarrow> picker" where
  "erase_and_sync prev_priority index i s = sync_piece prev_priority index (erase_download_piece i s)"

definition dl_empty :: "downloading_piece \<Rightarrow> bool" where
  "dl_empty d \<longleftrightarrow> dp_finished d + dp_writing d + dp_requested d + dp_hashing d = 0"

definition write_failed :: "piece_block \<Rightarrow> picker \<Rightarrow> picker" where
  "write_failed block s =
     (let index = piece_index block; state = download_queue (m_piece_map s ! index);
          pos = find_dl_piece s state index; i = (state, pos)
      in if state = piece_open then s
         else if pos = length (m_downloads s state) then s
         else
           let k = block_pos s (dl_at s i) (block_index block); st = bi_state (m_block_info s ! k)
           in if st = state_finished then s
              else
                let s1 = (if st = state_writing then upd_dl i dec_writing s else s);
                    s2 = upd_block k (\<lambda>b. b\<lparr>bi_peer := None, bi_state := state_none\<rparr>) s1;
                    s3 = (if dp_passed_hash_check (dl_at s2 i)
                          then (upd_dl i (\<lambda>d. d\<lparr>dp_passed_hash_check := False\<rparr>) s2)
                                 \<lparr>m_num_passed := m_num_passed s2 - 1\<rparr>
                          else s2);
                    s4 = upd_dl i (\<lambda>d. d\<lparr>dp_locked := True\<rparr>) s3;
                    (i', s5) = update_piece_state i s4
                in if dl_empty (dl_at s5 i')
                   then erase_and_sync (priority_of s5 index) index i' s5
                   else s5)"

definition mark_as_canceled :: "piece_block \<Rightarrow> nat option \<Rightarrow> picker \<Rightarrow> picker" where
  "mark_as_canceled block peer s =
     (let index = piece_index block
      in if download_queue (m_piece_map s ! index) = piece_open then s
         else
           let i = find_piece s index;
               k = block_pos s (dl_at s i) (block_index block);
               st = bi_state (m_block_info s ! k)
           in if st = state_finished then s
              else
                let s1 = upd_block k (\<lambda>b. b\<lparr>bi_peer := peer\<rparr>) s
                in if st = state_writing then
                     let s2 = upd_dl i dec_writing s1;
                         s3 = upd_block k (\<lambda>b. b\<lparr>bi_state := state_none\<rparr>) s2;
                         (i', s4) = update_piece_state i s3
                     in if dl_empty (dl_at s4 i')
                        then erase_and_sync (priority_of s4 index) index i' s4
                        else s4
                   else s1)"

definition abort_download :: "piece_block \<Rightarrow> nat option \<Rightarrow> picker \<Rightarrow> picker" where
  "abort_download block peer s =
     (let index = piece_index block
      in if download_queue (m_piece_map s ! index) = piece_open then s
         else
           let i = find_piece s index;
               k = block_pos s (dl_at s i) (block_index block);
               info = m_block_info s ! k
           in if bi_state info \<noteq> state_requested then s
              else
                let prev_prio = priority_of s index;
                    s1 = upd_block k (\<lambda>b. b\<lparr>bi_num_peers :=
                           (if bi_num_peers b > 0 then bi_num_peers b - 1 else 0)\<rparr>) s;
                    s2 = upd_block k (\<lambda>b. if bi_peer b = peer then b\<lparr>bi_peer := None\<rparr> else b) s1
                in if bi_num_peers (m_block_info s2 ! k) > 0 then s2
                   else
                     let s3 = upd_block k (\<lambda>b. b\<lparr>bi_peer := None, bi_state := state_none\<rparr>) s2;
                         s4 = upd_dl i dec_requested s3
                     in if dl_empty (dl_at s4 i) then
                          let s5 = erase_download_piece i s4;
                              prio = priority_of s5 index
                          in if \<not> m_dirty s5 then
                               (if prev_prio = -1 \<and> prio \<ge> 0 then picker_add index s5
                                else if prev_prio \<ge> 0 then update_at (nat prev_prio) index s5
                                else s5)
                             else s5
                        else snd (update_piece_state i s4))"

text \<open>The loop of \<open>restore_piece\<close> over the blocks that failed.\<close>

fun restore_blocks :: "dl_iter \<Rightarrow> nat list \<Rightarrow> picker \<Rightarrow> picker" where
  "restore_blocks i [] s = s"
| "restore_blocks i (b # bs) s =
     (let k = block_pos s (dl_at s i) b; st = bi_state (m_block_info s ! k)
      in if st = state_requested then restore_blocks i bs s
         else
           let s1 = (if st = state_writing then upd_dl i dec_writing s
                     else if st = state_finished then upd_dl i dec_finished s
                     else s)
           in restore_blocks i bs (upd_block k (\<lambda>b. b\<lparr>bi_peer := None, bi_state := state_none\<rparr>) s1))"

definition restore_piece :: "nat \<Rightarrow> nat list \<Rightarrow> picker \<Rightarrow> picker" where
  "restore_piece index blocks s =
     (let download_state = download_queue (m_piece_map s ! index)
      in if download_state = piece_open then s
         else
           let i = find_piece s index;
               s1 = upd_dl i (\<lambda>d. d\<lparr>dp_locked := False\<rparr>) s;
               prev_priority = priority_of s1 index;
               (i', s2) = (if blocks \<noteq> [] then update_piece_state i (restore_blocks i blocks s1)
                           else (i, s1))
           in if blocks = [] \<or> dl_open (dl_at s2 i') = 0
              then erase_and_sync prev_priority index i' s2
              else s2)"

section \<open>The invariant of the picker\<close>

definition picker_inv :: "picker \<Rightarrow> bool" where
  "picker_inv s \<longleftrightarrow> order_inv s \<and> dl_ok s"

definition valid_block :: "picker \<Rightarrow> piece_block \<Rightarrow> bool" where
  "valid_block s b \<longleftrightarrow> piece_index b < num_pieces s \<and> block_index b < blocks_in_piece s (piece_index b)"

lemma picker_invD:
  assumes "picker_inv s"
  shows "order_inv s" "dl_core (queue_of s) s" "full_ok s (\<lambda>_. True)" "\<And>P. full_ok s P"
  using assms by (auto simp: picker_inv_def dl_ok_def full_ok_def)

text \<open>Changing the state of a piece that is not done with.\<close>

lemma priority_state_unlisted:
  assumes "pos_priority sd p = -1" "pp_state p \<noteq> piece_full" "pp_state p \<noteq> piece_finished" "pp_priority p < 8"
  shows "pos_priority sd (p\<lparr>pp_state := st\<rparr>) = -1"
proof -
  define x where "x = (int (pp_peer_count p) + 1) * (8 - int (pp_priority p))"
  have "1 \<le> x"
    using assms(4) mult_mono [of 1 "int (pp_peer_count p) + 1" 1 "8 - int (pp_priority p)"] by (simp add: x_def)
  then have "pos_filtered p \<or> pos_have p \<or> int (pp_peer_count p) + sd = 0"
    using assms unfolding pos_priority_def Let_def x_def [symmetric] by (auto split: if_splits) presburger+
  then show ?thesis by (auto simp: pos_priority_def pos_filtered_def pos_have_def)
qed

lemma change_state_ok:
  assumes inv: "order_inv s" and i: "i < num_pieces s"
    and f: "pp_index (f (m_piece_map s ! i)) = pp_index (m_piece_map s ! i)" "pos_ok (f (m_piece_map s ! i))"
    and un: "priority_of s i = -1 \<Longrightarrow> pos_priority (m_seeds s) (f (m_piece_map s ! i)) = -1"
  shows "order_inv (change_state i f s) \<and> reorders (upd_pos i f s) (change_state i f s)"
proof -
  have ge: "-1 \<le> priority_of s i" by (rule priority_of_ge [OF order_inv_ok [OF inv] i])
  have "priority_of (upd_pos i f s) i = -1" if "priority_of s i = -1"
    using un [OF that] i by (simp add: priority_of_def upd_pos_nth)
  then have "change_state i f s = resync_state (priority_of s i) i (upd_pos i f s)"
    using ge by (auto simp: change_state_def resync_state_def Let_def)
  then show ?thesis using resync_state_ok [where f = f, OF inv i f(1,2)] by simp
qed

lemma change_state_open_ok:
  assumes inv: "order_inv s" and i: "i < num_pieces s" and op: "queue_of s i = piece_open"
    and st: "queue_of_state st = piece_downloading" and core: "dl_core (queue_of s) s" and full: "full_ok s (\<lambda>_. True)"
  defines "s' \<equiv> change_state i (\<lambda>p. p\<lparr>pp_state := st\<rparr>) s"
  shows "order_inv s'" "dl_core ((queue_of s')(i := piece_open)) s'" "full_ok s' (\<lambda>j. j \<noteq> i)"
    "queue_of s' i = piece_downloading" "num_pieces s' = num_pieces s" "same_dl s s'"
    "same_want s s'"
proof -
  let ?f = "\<lambda>p. p\<lparr>pp_state := st\<rparr>"
  have ok: "pos_ok (m_piece_map s ! i)" by (rule picker_ok_nth [OF order_inv_ok [OF inv] i])
  have ps: "pp_state (m_piece_map s ! i) = piece_open" using op by (simp add: queue_of_def download_queue_def)
  have C: "order_inv s' \<and> reorders (upd_pos i ?f s) s'"
    unfolding s'_def
    by (rule change_state_ok [OF inv i])
       (use ok ps in \<open>auto simp: pos_ok_def priority_of_def intro: priority_state_unlisted\<close>)
  then show "order_inv s'" by blast
  have R: "reorders (upd_pos i ?f s) s'" using C by blast
  show sd: "same_dl s s'" using same_dl_trans [OF same_dl_upd_pos reorders_same_dl [OF R]] .
  show n: "num_pieces s' = num_pieces s" using same_dl_fields(1) [OF sd] .
  have q: "queue_of s' j = (if j = i then piece_downloading else queue_of s j)" if "j < num_pieces s" for j
    using reorders_queue_of [OF R] that st by (simp add: queue_of_upd_pos download_queue_def)
  show "queue_of s' i = piece_downloading" using q [OF i] by simp
  have "dl_core ((queue_of s')(i := piece_open)) s = dl_core (queue_of s) s"
    using q op by (intro dl_core_queue_cong) auto
  then show "dl_core ((queue_of s')(i := piece_open)) s'" using core same_dl_core [OF sd] by simp
  have "pp_state (m_piece_map s' ! j) = pp_state (m_piece_map s ! j)" if "j < num_pieces s" "j \<noteq> i" for j
    using reorders_pos(2) [OF R] that by (simp add: upd_pos_nth)
  moreover have "dp_index d < num_pieces s" if "d \<in> set (get_download_queue s)" for d
    using partial_index_lt that core by (auto simp: dl_core_def)
  ultimately show "full_ok s' (\<lambda>j. j \<noteq> i)" using full unfolding full_ok_def same_dl_fields(10) [OF sd] by metis
  have "same_want s (upd_pos i ?f s)" by (rule state_want) blast
  then show "same_want s s'" by (rule same_want_trans [OF _ reorders_want [OF R]])
qed

section \<open>One block\<close>

lemma find_piece_upd_dl:
  assumes "dp_index (G (dl_at s it)) = dp_index (dl_at s it)"
  shows "find_piece (upd_dl it G s) = find_piece s"
proof
  fix i
  have m: "map dp_index (m_downloads (upd_dl it G s) q) = map dp_index (m_downloads s q)" for q
  proof (cases "q = fst it \<and> snd it < length (m_downloads s q)")
    case True
    then show ?thesis using assms
      by (simp add: upd_dl_def dl_at_def map_update) (metis length_map list_update_id nth_map)
  next
    case False
    then show ?thesis by (auto simp: upd_dl_def list_update_beyond)
  qed
  have f: "find_dl_piece s q i = (let l = map dp_index (m_downloads s q); j = length (takeWhile (\<lambda>x. x < i) l)
      in if j = length l then j else if l ! j = i then j else length l)" for s q
  proof -
    have "lower_bound (m_downloads s q) i = length (takeWhile (\<lambda>x. x < i) (map dp_index (m_downloads s q)))"
      by (simp add: lower_bound_def takeWhile_map comp_def)
    moreover have "lower_bound (m_downloads s q) i \<le> length (m_downloads s q)"
      by (simp add: lower_bound_def length_takeWhile_le)
    ultimately show ?thesis by (auto simp: find_dl_piece_def Let_def)
  qed
  show "find_piece (upd_dl it G s) i = find_piece s i"
    unfolding find_piece_pair f m by simp
qed

text \<open>
  A block of piece \<open>i\<close> changes from \<open>old\<close> to \<open>F old\<close> and the entry of the piece by \<open>G\<close>, with the
  counters following; then \<open>update_piece_state\<close>.
\<close>

definition counts_follow :: "downloading_piece \<Rightarrow> downloading_piece \<Rightarrow> block_state \<Rightarrow> block_state \<Rightarrow> bool" where
  "counts_follow d d' old new \<longleftrightarrow>
     dp_index d' = dp_index d \<and> dp_info_idx d' = dp_info_idx d
     \<and> dp_requested d' + (if old = state_requested then 1 else 0) = dp_requested d + (if new = state_requested then 1 else 0)
     \<and> dp_writing d' + (if old = state_writing then 1 else 0) = dp_writing d + (if new = state_writing then 1 else 0)
     \<and> dp_finished d' + (if old = state_finished then 1 else 0) = dp_finished d + (if new = state_finished then 1 else 0)"

lemma modify_block_ok:
  assumes core: "dl_core (queue_of s) s" and full: "full_ok s (\<lambda>j. j \<noteq> i)" and i: "i < num_pieces s"
    and op: "queue_of s i \<noteq> piece_open" and b: "b < blocks_in_piece s i"
    and d: "d = dl_at s (find_piece s i)" and k: "k = block_pos s d b"
    and c: "counts_follow d (G d) (bi_state (m_block_info s ! k)) (bi_state (F (m_block_info s ! k)))"
  defines "S \<equiv> upd_block k F (upd_dl (find_piece s i) G s)"
  shows "dl_core (queue_of S) S" "full_ok S (\<lambda>j. j \<noteq> i)" "find_piece S = find_piece s"
    "dl_at S (find_piece s i) = G d" "blocks_for_piece S (G d) = (blocks_for_piece s d)[b := F (m_block_info s ! k)]"
    "m_block_info S = (m_block_info s)[k := F (m_block_info s ! k)]"
proof -
  let ?q = "queue_of s i"
  let ?k = "find_dl_piece s ?q i"
  have it: "find_piece s i = (?q, ?k)" by (rule find_piece_pair)
  note F = find_piece_ok [OF core i op]
  have dq: "dl_at s (?q, ?k) = d" using d it by simp
  have di: "dp_index d = i" using F(2) d by simp
  have kk: "?k < length (m_downloads s ?q)" using F(1) it by simp
  have "dl_core (queue_of s) (upd_block (block_pos s (dl_at s (?q, ?k)) b) F (upd_dl (?q, ?k) G s))"
    by (rule dl_core_modify [OF core queue_of_category [OF op] kk])
       (use b c k dq di in \<open>auto simp: counts_follow_def\<close>)
  then show "dl_core (queue_of S) S" by (simp add: S_def it dq k)
  have m: "add_mset d (mset (get_download_queue S)) = add_mset (G d) (mset (get_download_queue s))"
    using mset_partials_upd_dl [OF queue_of_category [OF op] kk, of G] by (simp add: S_def it dq)
  show "full_ok S (\<lambda>j. j \<noteq> i)" unfolding full_ok_mset
  proof (intro ballI impI)
    fix e assume e: "e \<in># mset (get_download_queue S)"
      and st: "dp_index e \<noteq> i \<and> pp_state (m_piece_map S ! dp_index e) = piece_full"
    have "dp_index (G d) = i" using c di by (simp add: counts_follow_def)
    then have "e \<noteq> G d" using st by auto
    moreover have "e \<in># add_mset (G d) (mset (get_download_queue s))" using e m by (metis insertCI set_mset_add_mset_insert)
    ultimately have "e \<in> set (get_download_queue s)" by simp
    then show "0 < dp_requested e" using full st by (simp add: full_ok_def S_def)
  qed
  show "find_piece S = find_piece s"
    using find_piece_upd_dl [of G s "find_piece s i"] c d by (simp add: S_def counts_follow_def)
  show "dl_at S (find_piece s i) = G d" using F(1) d by (simp add: S_def)
  have g: "geom_ok s" "alloc_ok s" using core by (auto simp: dl_core_def)
  have sl: "dp_info_idx d < slots s" using alloc_okD(3) [OF g(2) F(3)] d by simp
  have "dl_core (queue_of s) (upd_block (block_pos s (dl_at s (?q, ?k)) b) F (upd_dl (?q, ?k) G s))" by fact
  have "geom_ok (upd_dl (find_piece s i) G s)" using g(1) by (simp add: geom_ok_def)
  moreover have "alloc_ok (upd_dl (find_piece s i) G s)"
    using \<open>dl_core (queue_of S) S\<close> by (simp add: dl_core_def alloc_ok_def S_def)
  ultimately show "blocks_for_piece S (G d) = (blocks_for_piece s d)[b := F (m_block_info s ! k)]"
    using blocks_upd_same [of "upd_dl (find_piece s i) G s" d b "G d" F] sl b di c
    by (simp add: S_def k counts_follow_def)
  show "m_block_info S = (m_block_info s)[k := F (m_block_info s ! k)]"
    by (simp add: S_def upd_block_def [of _ _ "upd_dl _ _ _"])
qed

text \<open>What is known after the update of the piece's state.\<close>

lemma modify_update_ok:
  assumes inv: "order_inv s" and core: "dl_core (queue_of s) s" and full: "full_ok s (\<lambda>j. j \<noteq> i)" and i: "i < num_pieces s"
    and op: "queue_of s i \<noteq> piece_open" and b: "b < blocks_in_piece s i"
    and d: "d = dl_at s (find_piece s i)" and k: "k = block_pos s d b"
    and c: "counts_follow d (G d) (bi_state (m_block_info s ! k)) (bi_state (F (m_block_info s ! k)))"
    and u: "update_piece_state (find_piece s i) (upd_block k F (upd_dl (find_piece s i) G s)) = (it', s')"
  shows "order_inv s'" "dl_core (queue_of s') s'" "full_ok s' (\<lambda>j. j \<noteq> i)"
    "\<not> dl_empty (G d) \<or> pp_state (m_piece_map s ! i) \<noteq> piece_full \<Longrightarrow> dl_ok s'"
    "it' = find_piece s' i" "dl_at s' it' = G d" "queue_of s' i \<noteq> piece_open" "num_pieces s' = num_pieces s"
    "m_block_info s' = (m_block_info s)[k := F (m_block_info s ! k)]" "blocks_per_piece s' = blocks_per_piece s"
    "blocks_in_piece s' = blocks_in_piece s"
    "blocks_for_piece s' (G d) = (blocks_for_piece s d)[b := F (m_block_info s ! k)]" "same_want s s'"
proof -
  let ?S = "upd_block k F (upd_dl (find_piece s i) G s)"
  note M = modify_block_ok [where F = F and G = G, OF core full i op b d k c]
  have mv: "moved i (find_piece ?S i) ?S it' s'"
    by (rule update_piece_state_ok) (use inv M i op u in simp_all)
  then have sb: "same_blocks ?S s'" by (simp add: moved_def)
  note B = same_blocks_fields [OF sb]
  have "same_want ?S s'"
    by (rule update_piece_state_want [where i = i and it' = it']) (use inv M i op u in simp_all)
  then show "same_want s s'" by (rule same_want_trans [OF same_want_trans [OF frame_want(2,3)]])
  show "order_inv s'" "dl_core (queue_of s') s'" "full_ok s' (\<lambda>j. j \<noteq> i)" "it' = find_piece s' i"
    "queue_of s' i \<noteq> piece_open" using mv by (simp_all add: moved_def)
  show "dl_at s' it' = G d" using mv M(3,4) unfolding moved_def by metis
  have ne: "next_state ?S (G d) \<noteq> piece_open" if "\<not> dl_empty (G d)"
    using that by (auto simp: next_state_def dl_empty_def Let_def)
  show "dl_ok s'" if "\<not> dl_empty (G d) \<or> pp_state (m_piece_map s ! i) \<noteq> piece_full"
    using mv M(3,4) that ne unfolding moved_def dl_ok_def by (metis upd_block_simps(1) upd_dl_simps(1))
  show "num_pieces s' = num_pieces s" "blocks_per_piece s' = blocks_per_piece s" "blocks_in_piece s' = blocks_in_piece s"
    "m_block_info s' = (m_block_info s)[k := F (m_block_info s ! k)]"
    "blocks_for_piece s' (G d) = (blocks_for_piece s d)[b := F (m_block_info s ! k)]"
    using B M(5,6) by simp_all
qed

lemma upd_dl_id [simp]: "upd_dl it (\<lambda>d. d) s = s"
  by (simp add: upd_dl_def set_queue_def dl_at_def)

lemma upd_block_id [simp]: "upd_block k (\<lambda>b. b) s = s"
  by (simp add: upd_block_def)

lemma upd_dl_upd_block: "upd_dl it G (upd_block k F s) = upd_block k F (upd_dl it G s)"
  by (simp add: upd_dl_def upd_block_def set_queue_def dl_at_def)

lemma upd_block_comp: "upd_block k F (upd_block k G s) = upd_block k (\<lambda>b. F (G b)) s"
  by (cases "k < length (m_block_info s)") (simp_all add: upd_block_def list_update_beyond)

lemma upd_dl_comp: "upd_dl it F (upd_dl it G s) = upd_dl it (\<lambda>d. F (G d)) s"
  by (cases "snd it < length (m_downloads s (fst it))")
     (simp_all add: upd_dl_def set_queue_def dl_at_def list_update_beyond)

lemmas modify_normal = upd_dl_upd_block upd_block_comp upd_dl_comp

lemma counts_follow_refl [simp]: "counts_follow d d st st"
  by (simp add: counts_follow_def)

text \<open>The current block of piece \<open>i\<close>.\<close>

definition slot :: "picker \<Rightarrow> nat \<Rightarrow> nat \<Rightarrow> nat" where
  "slot s i b = block_pos s (dl_at s (find_piece s i)) b"

lemma block_of_slot:
  assumes "dl_core (queue_of s) s" "valid_block s b" "queue_of s (piece_index b) \<noteq> piece_open"
  shows "block_of s b = m_block_info s ! slot s (piece_index b) (block_index b)"
    "slot s (piece_index b) (block_index b) < length (m_block_info s)"
proof -
  have i: "piece_index b < num_pieces s" using assms(2) by (simp add: valid_block_def)
  note F = find_piece_ok [OF assms(1) i assms(3)]
  have g: "geom_ok s" "alloc_ok s" using assms(1) by (auto simp: dl_core_def)
  have "block_index b < blocks_in_piece s (dp_index (dl_at s (find_piece s (piece_index b))))"
    using assms(2) F(2) by (simp add: valid_block_def)
  from block_pos_nth [OF g alloc_okD(3) [OF g(2) F(3)] this]
  show "block_of s b = m_block_info s ! slot s (piece_index b) (block_index b)"
    "slot s (piece_index b) (block_index b) < length (m_block_info s)"
    by (simp_all add: block_of_def slot_def)
qed

lemma counts_bound:
  assumes "dl_core (queue_of s) s" "i < num_pieces s" "queue_of s i \<noteq> piece_open" "d = dl_at s (find_piece s i)"
  shows "dp_requested d + dp_writing d + dp_finished d \<le> blocks_in_piece s i" "blocks_in_piece s i < 2 ^ block_count_bits"
    "dp_requested d = count_state state_requested (blocks_for_piece s d)"
    "dp_writing d = count_state state_writing (blocks_for_piece s d)"
    "dp_finished d = count_state state_finished (blocks_for_piece s d)"
    "length (blocks_for_piece s d) = blocks_in_piece s i"
proof -
  note F = find_piece_ok [OF assms(1-3)]
  have g: "geom_ok s" "alloc_ok s" "counts_ok s" using assms(1) by (auto simp: dl_core_def)
  show c: "dp_requested d = count_state state_requested (blocks_for_piece s d)"
    "dp_writing d = count_state state_writing (blocks_for_piece s d)"
    "dp_finished d = count_state state_finished (blocks_for_piece s d)"
    using g(3) F(3) assms(4) by (auto simp: counts_ok_def counts_match_def)
  show l: "length (blocks_for_piece s d) = blocks_in_piece s i"
    using length_blocks_for_piece(1) [OF g(1,2) alloc_okD(3) [OF g(2) F(3)]] F(2) assms(4) by simp
  have "count_state state_requested bs + count_state state_writing bs + count_state state_finished bs \<le> length bs"
    for bs by (induction bs) (auto simp: count_state_def)
  then show "dp_requested d + dp_writing d + dp_finished d \<le> blocks_in_piece s i" using c l by metis
  show "blocks_in_piece s i < 2 ^ block_count_bits"
    using geom_okD(2) [OF g(1)] geom_okD(3) [OF g(1), of i] by simp
qed

lemma count_state_pos: "b < length bs \<Longrightarrow> bi_state (bs ! b) = st \<Longrightarrow> 0 < count_state st bs"
  by (auto simp: count_state_def filter_empty_conv intro!: bexI [of _ "bs ! b"])

lemma count_state_room:
  assumes "b < length bs" "bi_state (bs ! b) = st" "st \<noteq> st'"
  shows "count_state st' bs < length bs"
proof -
  have "count_state st' (bs[b := (bs ! b)\<lparr>bi_state := st'\<rparr>]) = count_state st' bs + 1"
    using count_state_upd [OF assms(1), of st' "(bs ! b)\<lparr>bi_state := st'\<rparr>"] assms by simp
  then show ?thesis using count_state_le [of st' "bs[b := (bs ! b)\<lparr>bi_state := st'\<rparr>]"] by simp
qed

text \<open>The bit-field arithmetic of the counters does not wrap.\<close>

lemma counts_follow_step:
  assumes core: "dl_core (queue_of s) s" and v: "valid_block s b" and op: "queue_of s (piece_index b) \<noteq> piece_open"
    and d: "d = dl_at s (find_piece s (piece_index b))" and st: "bi_state (block_of s b) = st"
  shows "st = state_none \<Longrightarrow> counts_follow d (inc_requested d) state_none state_requested"
    "st = state_none \<Longrightarrow> counts_follow d (inc_writing d) state_none state_writing"
    "st = state_none \<Longrightarrow> counts_follow d (inc_finished d) state_none state_finished"
    "st = state_requested \<Longrightarrow> counts_follow d (inc_writing (dec_requested d)) state_requested state_writing"
    "st = state_requested \<Longrightarrow> counts_follow d (dec_requested d) state_requested state_none"
    "st = state_writing \<Longrightarrow> counts_follow d (dec_writing (inc_finished d)) state_writing state_finished"
    "st = state_writing \<Longrightarrow> counts_follow d (dec_writing d) state_writing state_none"
    "st = state_finished \<Longrightarrow> counts_follow d (dec_finished d) state_finished state_none"
proof -
  have i: "piece_index b < num_pieces s" using v by (simp add: valid_block_def)
  note B = counts_bound [OF core i op d]
  let ?bs = "blocks_for_piece s d"
  have l: "block_index b < length ?bs" using B(6) v by (simp add: valid_block_def)
  have bst: "bi_state (?bs ! block_index b) = st" using st d by (simp add: block_of_def)
  note P = count_state_pos [OF l bst]
  have room: "count_state st' ?bs + 1 < 2 ^ block_count_bits" if "st \<noteq> st'" for st'
    using count_state_room [OF l bst that] B(2,6) by simp
  have lt: "count_state st' ?bs < 2 ^ block_count_bits" for st'
    using count_state_le [of st' ?bs] B(2,6) by simp
  note arith = counts_follow_def inc_requested_def dec_requested_def inc_writing_def dec_writing_def
    inc_finished_def dec_finished_def inc_bits_eq dec_bits_eq
  show "st = state_none \<Longrightarrow> counts_follow d (inc_requested d) state_none state_requested"
    "st = state_none \<Longrightarrow> counts_follow d (inc_writing d) state_none state_writing"
    "st = state_none \<Longrightarrow> counts_follow d (inc_finished d) state_none state_finished"
    using room B(3-5) by (simp_all add: arith)
  show "st = state_requested \<Longrightarrow> counts_follow d (inc_writing (dec_requested d)) state_requested state_writing"
    "st = state_requested \<Longrightarrow> counts_follow d (dec_requested d) state_requested state_none"
    "st = state_writing \<Longrightarrow> counts_follow d (dec_writing (inc_finished d)) state_writing state_finished"
    "st = state_writing \<Longrightarrow> counts_follow d (dec_writing d) state_writing state_none"
    "st = state_finished \<Longrightarrow> counts_follow d (dec_finished d) state_finished state_none"
    using room P lt B(3-5) by (simp_all add: arith)
qed

text \<open>Changing what is not counted: the peer of a block, the flags of a piece.\<close>

lemma touch_ok:
  assumes inv: "picker_inv s" and v: "valid_block s b" and op: "queue_of s (piece_index b) \<noteq> piece_open"
    and F: "\<And>x. bi_state (F x) = bi_state x"
    and G: "\<And>x. counts_follow x (G x) state_none state_none"
  defines "S \<equiv> upd_block (slot s (piece_index b) (block_index b)) F (upd_dl (find_piece s (piece_index b)) G s)"
  shows "picker_inv S" "find_piece S = find_piece s" "queue_of S = queue_of s" "num_pieces S = num_pieces s"
    "blocks_in_piece S = blocks_in_piece s" "slot S = slot s"
    "dl_at S (find_piece s (piece_index b)) = G (dl_at s (find_piece s (piece_index b)))"
    "bi_state (m_block_info S ! slot s (piece_index b) (block_index b)) = bi_state (block_of s b)"
    "m_piece_map S = m_piece_map s" "same_want s S"
proof -
  let ?i = "piece_index b" and ?d = "dl_at s (find_piece s (piece_index b))"
  let ?k = "slot s ?i (block_index b)"
  have i: "?i < num_pieces s" and bl: "block_index b < blocks_in_piece s ?i" using v by (auto simp: valid_block_def)
  note I = picker_invD [OF inv]
  have c: "counts_follow ?d (G ?d) (bi_state (m_block_info s ! ?k)) (bi_state (F (m_block_info s ! ?k)))"
    using G [of ?d] F by (auto simp: counts_follow_def)
  note M = modify_block_ok [where F = F and G = G, OF I(2) I(4) i op bl refl _ c]
  have M': "dl_core (queue_of S) S" "full_ok S (\<lambda>j. j \<noteq> ?i)" "find_piece S = find_piece s" "dl_at S (find_piece s ?i) = G ?d"
    "m_block_info S = (m_block_info s)[?k := F (m_block_info s ! ?k)]"
    using M by (simp_all add: S_def slot_def)
  show "find_piece S = find_piece s" "dl_at S (find_piece s ?i) = G ?d" by (rule M'(3), rule M'(4))
  show "m_piece_map S = m_piece_map s" "queue_of S = queue_of s" "num_pieces S = num_pieces s"
    "blocks_in_piece S = blocks_in_piece s" by (simp_all add: S_def)
  show "same_want s S" unfolding S_def by (rule same_want_trans [OF frame_want(2,3)])
  have kl: "?k < length (m_block_info s)" "block_of s b = m_block_info s ! ?k" using block_of_slot [OF I(2) v op] by auto
  show "bi_state (m_block_info S ! ?k) = bi_state (block_of s b)" using kl M'(5) F by simp
  have ix: "dp_info_idx (dl_at S (find_piece s j)) = dp_info_idx (dl_at s (find_piece s j))" for j
  proof (cases "find_piece s j = find_piece s ?i")
    case True
    then show ?thesis using M'(4) G [of ?d] by (simp add: counts_follow_def)
  next
    case False
    then show ?thesis by (auto simp: S_def dl_at_def upd_dl_def prod_eq_iff)
  qed
  show "slot S = slot s" using ix M'(3) by (intro ext) (simp add: slot_def block_pos_def, simp add: S_def)
  have "full_ok S (\<lambda>_. True)"
  proof (rule full_ok_all [OF M'(2)])
    show "dl_at S (find_piece s ?i) \<in> set (get_download_queue S)"
      using find_piece_ok(3) [OF M'(1), of ?i] i op M'(3) by (simp add: S_def)
    show "dp_index (dl_at S (find_piece s ?i)) = ?i"
      using find_piece_ok(2) [OF M'(1), of ?i] i op M'(3) by (simp add: S_def)
    show "distinct (map dp_index (get_download_queue S))"
      using M'(1) distinct_partial_index by (auto simp: dl_core_def)
    show "0 < dp_requested (dl_at S (find_piece s ?i))" if "pp_state (m_piece_map S ! ?i) = piece_full"
    proof -
      have "0 < dp_requested ?d" using I(3) find_piece_ok(2,3) [OF I(2) i op] that by (simp add: full_ok_def S_def)
      then show ?thesis using M'(4) G [of ?d] by (simp add: counts_follow_def)
    qed
  qed
  then show "picker_inv S" using I(1) M'(1) by (simp add: picker_inv_def dl_ok_def S_def)
qed

section \<open>The operations keep the invariant\<close>

lemma record_downloading_piece_frame:
  "same_order s (record_downloading_piece p s)" "same_dl s (record_downloading_piece p s)"
  "same_want s (record_downloading_piece p s)"
  by (auto simp: record_downloading_piece_def Let_def same_order_def same_dl_def num_pieces_def)

text \<open>The first block of a piece: the piece becomes a partial piece.\<close>

lemma start_piece_ok:
  assumes inv: "picker_inv s" and v: "valid_block s b" and op: "queue_of s (piece_index b) = piece_open"
    and st: "queue_of_state st = piece_downloading" and room: "slots s < 2 ^ 16"
    and s2: "same_order (change_state (piece_index b) (\<lambda>p. p\<lparr>pp_state := st\<rparr>) s) s2"
      "same_dl (change_state (piece_index b) (\<lambda>p. p\<lparr>pp_state := st\<rparr>) s) s2"
      "same_want (change_state (piece_index b) (\<lambda>p. p\<lparr>pp_state := st\<rparr>) s) s2"
    and u: "add_download_piece (piece_index b) s2 = (dp, s3)"
  shows "picker_inv s3" "dp = find_piece s3 (piece_index b)" "queue_of s3 (piece_index b) \<noteq> piece_open" "valid_block s3 b"
    "bi_state (block_of s3 b) = state_none \<or> bi_state (block_of s3 b) = state_finished"
    "dp_requested (dl_at s3 dp) = 0" "dp_writing (dl_at s3 dp) = 0" "same_want s s3"
proof -
  let ?i = "piece_index b"
  have i: "?i < num_pieces s" using v by (simp add: valid_block_def)
  note I = picker_invD [OF inv]
  note C = change_state_open_ok [OF I(1) i op st I(2,3)]
  note O = same_order_fields [OF s2(1)]
  have core2: "dl_core ((queue_of s2)(?i := piece_open)) s2" using C(2) O(7) same_dl_core [OF s2(2)] by simp
  have full2: "full_ok s2 (\<lambda>j. j \<noteq> ?i)"
    using C(3) O(1) same_dl_fields(10) [OF s2(2)] by (simp add: full_ok_def)
  have sd: "same_dl s s2" using same_dl_trans [OF C(6) s2(2)] .
  note D = same_dl_fields [OF sd]
  have pre: "order_inv s2" "?i < num_pieces s2" "queue_of s2 ?i = piece_downloading" "slots s2 < 2 ^ 16"
    using C(1,4) O i D room by simp_all
  note A = add_download_piece_ok [OF pre(1) core2 full2 pre(2,3,4) u]
  show "picker_inv s3" "dp = find_piece s3 ?i" "queue_of s3 ?i \<noteq> piece_open"
    using A by (simp_all add: picker_inv_def)
  show "same_want s s3" using same_want_trans [OF same_want_trans [OF C(7) s2(3)] A(9)] .
  show "valid_block s3 b" using v A(5,6) D(1,9) by (simp add: valid_block_def)
  have "block_of s3 b = init_blocks s2 ?i ! block_index b" using A(3,7) by (simp add: block_of_def)
  moreover have "block_index b < blocks_in_piece s2 ?i" using v D(9) by (simp add: valid_block_def)
  ultimately show "bi_state (block_of s3 b) = state_none \<or> bi_state (block_of s3 b) = state_finished"
    by (simp add: init_blocks_def new_block_info_def)
  show "dp_requested (dl_at s3 dp) = 0" "dp_writing (dl_at s3 dp) = 0"
    using A(8) by (auto simp: new_partial_def new_downloading_piece_def)
qed

text \<open>A counted change of a block, followed by the update of the piece.\<close>

lemma step_block_ok:
  assumes inv: "picker_inv s" and v: "valid_block s b" and op: "queue_of s (piece_index b) \<noteq> piece_open"
    and d: "d = dl_at s (find_piece s (piece_index b))" and st: "bi_state (block_of s b) = st"
    and F: "\<And>x. bi_state (F x) = st'" and c: "counts_follow d (G d) st st'"
    and u: "update_piece_state (find_piece s (piece_index b))
        (upd_block (slot s (piece_index b) (block_index b)) F (upd_dl (find_piece s (piece_index b)) G s)) = (it', s')"
  shows "order_inv s'" "dl_core (queue_of s') s'" "full_ok s' (\<lambda>j. j \<noteq> piece_index b)" "\<not> dl_empty (G d) \<Longrightarrow> picker_inv s'"
    "it' = find_piece s' (piece_index b)" "dl_at s' it' = G d" "queue_of s' (piece_index b) \<noteq> piece_open"
    "valid_block s' b" "bi_state (block_of s' b) = st'" "num_pieces s' = num_pieces s" "blocks_in_piece s' = blocks_in_piece s"
    "slot s' (piece_index b) (block_index b) = slot s (piece_index b) (block_index b)" "same_want s s'"
proof -
  let ?i = "piece_index b" and ?k = "slot s (piece_index b) (block_index b)"
  have i: "?i < num_pieces s" and bl: "block_index b < blocks_in_piece s ?i" using v by (auto simp: valid_block_def)
  note I = picker_invD [OF inv]
  have B: "block_of s b = m_block_info s ! ?k" using block_of_slot [OF I(2) v op] by simp
  have c': "counts_follow d (G d) (bi_state (m_block_info s ! ?k)) (bi_state (F (m_block_info s ! ?k)))"
    using c st B F by simp
  have k: "?k = block_pos s d (block_index b)" by (simp add: slot_def d)
  note M = modify_update_ok [where F = F and G = G, OF I(1) I(2) I(4) i op bl d k c' u]
  show "order_inv s'" "dl_core (queue_of s') s'" "full_ok s' (\<lambda>j. j \<noteq> ?i)" "it' = find_piece s' ?i" "dl_at s' it' = G d"
    "queue_of s' ?i \<noteq> piece_open" "num_pieces s' = num_pieces s" "blocks_in_piece s' = blocks_in_piece s"
    using M by simp_all
  show "picker_inv s'" if "\<not> dl_empty (G d)" using M that by (simp add: picker_inv_def)
  show "same_want s s'" by (rule M(13))
  show "valid_block s' b" using v M by (simp add: valid_block_def)
  have "length (blocks_for_piece s d) = blocks_in_piece s ?i" by (rule counts_bound(6) [OF I(2) i op d])
  then have "blocks_for_piece s' (G d) ! block_index b = F (m_block_info s ! ?k)" using M(12) bl by simp
  then show "bi_state (block_of s' b) = st'" using M(5,6) F by (simp add: block_of_def)
  have "dp_info_idx (G d) = dp_info_idx d" using c by (simp add: counts_follow_def)
  then show "slot s' ?i (block_index b) = ?k" using M(5,6,10) by (simp add: slot_def block_pos_def d)
qed

lemma reorders_blocks:
  assumes "reorders s s'" "i < num_pieces s"
  shows "find_piece s' i = find_piece s i" "dl_at s' = dl_at s" "slot s' i = slot s i" "m_block_info s' = m_block_info s"
    "num_pieces s' = num_pieces s" "blocks_in_piece s' = blocks_in_piece s" "queue_of s' i = queue_of s i"
    "blocks_for_piece s' = blocks_for_piece s"
proof -
  note D = same_dl_fields [OF reorders_same_dl [OF assms(1)]]
  show "find_piece s' i = find_piece s i" by (rule reorders_find_piece [OF assms])
  then show "slot s' i = slot s i" using D by (intro ext) (simp add: slot_def)
  show "dl_at s' = dl_at s" "m_block_info s' = m_block_info s" "num_pieces s' = num_pieces s"
    "blocks_in_piece s' = blocks_in_piece s" "blocks_for_piece s' = blocks_for_piece s" using D by simp_all
  show "queue_of s' i = queue_of s i" by (rule reorders_queue_of [OF assms])
qed

text \<open>Turning a partial piece into a reverse one and back.\<close>

lemma reverse_state_ok:
  assumes inv: "picker_inv s" and i: "i < num_pieces s" and op: "queue_of s i \<noteq> piece_open"
    and f: "\<And>p. \<exists>st. f p = p\<lparr>pp_state := st\<rparr> \<and> queue_of_state st = queue_of_state (pp_state p)"
    and un: "priority_of s i = -1 \<Longrightarrow> pos_priority (m_seeds s) (f (m_piece_map s ! i)) = -1"
    and fu: "pp_state (f (m_piece_map s ! i)) = piece_full \<Longrightarrow> 0 < dp_requested (dl_at s (find_piece s i))"
  defines "s' \<equiv> change_state i f s"
  shows "picker_inv s'" "find_piece s' i = find_piece s i" "dl_at s' = dl_at s" "slot s' i = slot s i"
    "m_block_info s' = m_block_info s" "num_pieces s' = num_pieces s" "blocks_in_piece s' = blocks_in_piece s"
    "queue_of s' i = queue_of s i" "blocks_for_piece s' = blocks_for_piece s" "same_want s s'"
proof -
  let ?S = "upd_pos i f s"
  note I = picker_invD [OF inv]
  obtain st where st: "f (m_piece_map s ! i) = (m_piece_map s ! i)\<lparr>pp_state := st\<rparr>"
    "queue_of_state st = queue_of_state (pp_state (m_piece_map s ! i))" using f by blast
  have ok: "pos_ok (m_piece_map s ! i)" by (rule picker_ok_nth [OF order_inv_ok [OF I(1)] i])
  have C: "order_inv s'" "reorders ?S s'"
    unfolding s'_def using change_state_ok [where f = f, OF I(1) i] st ok un by (simp_all add: pos_ok_def)
  have "same_want s ?S" by (rule state_want) (use f in blast)
  then show "same_want s s'" by (rule same_want_trans [OF _ reorders_want [OF C(2)]])
  have q: "queue_of ?S j = queue_of s j" if "j < num_pieces s" for j
    using that st by (auto simp: queue_of_def upd_pos_nth download_queue_def)
  have core: "dl_core (queue_of ?S) ?S"
    unfolding same_dl_core [OF same_dl_upd_pos] using I(2) dl_core_queue_cong [of s "queue_of ?S" "queue_of s"] q by simp
  have ix: "dp_index e < num_pieces s" if "e \<in> set (get_download_queue s)" for e
    using partial_index_lt that I(2) by (auto simp: dl_core_def)
  have di: "distinct (map dp_index (get_download_queue s))" using I(2) distinct_partial_index by (auto simp: dl_core_def)
  note F = find_piece_ok [OF I(2) i op]
  have gd: "get_download_queue ?S = get_download_queue s" by (simp add: get_download_queue_def)
  have "full_ok ?S (\<lambda>_. True)" unfolding full_ok_def gd
  proof (intro ballI impI)
    fix e assume e: "e \<in> set (get_download_queue s)" and pf: "True \<and> pp_state (m_piece_map ?S ! dp_index e) = piece_full"
    show "0 < dp_requested e"
    proof (cases "dp_index e = i")
      case True
      then have "e = dl_at s (find_piece s i)" using e F(2,3) di by (auto simp: distinct_map inj_on_def)
      then show ?thesis using fu pf True i by (simp add: upd_pos_nth)
    next
      case False
      then show ?thesis using pf ix [OF e] I(3) e by (simp add: upd_pos_nth full_ok_def)
    qed
  qed
  then have "dl_ok ?S" using core by (simp add: dl_ok_def)
  then show "picker_inv s'" using C reorders_dl_ok by (simp add: picker_inv_def)
  have iS: "i < num_pieces ?S" using i by simp
  note R = reorders_blocks [OF C(2) iS]
  have fp: "find_piece ?S i = find_piece s i"
    using q [OF i] same_dl_fields(15) [OF same_dl_upd_pos] by (simp add: find_piece_pair)
  then show "find_piece s' i = find_piece s i" using R(1) by simp
  note D = same_dl_fields [OF same_dl_upd_pos [of s i f]]
  show "dl_at s' = dl_at s" "m_block_info s' = m_block_info s" "num_pieces s' = num_pieces s"
    "blocks_in_piece s' = blocks_in_piece s" "queue_of s' i = queue_of s i" "blocks_for_piece s' = blocks_for_piece s"
    using R D q [OF i] by simp_all
  show "slot s' i = slot s i" using R(3) fp D by (intro ext) (simp add: slot_def)
qed

end
