(* ===== verification/Picker_Requests.thy ===== *)
theory Picker_Requests
  imports Picker_Blocks
begin

text \<open>
  The operations on blocks keep the invariant of the picker and do to the block what they say:
  \<open>mark_as_downloading\<close>, \<open>mark_as_writing\<close>, \<open>mark_as_canceled\<close>, \<open>abort_download\<close>,
  \<open>write_failed\<close>, \<open>restore_piece\<close>, \<open>lock_piece\<close> and the hash jobs.
\<close>

section \<open>Requests\<close>

lemma dl_empty_inc [simp]:
  "\<not> dl_empty (d\<lparr>dp_writing := Suc n\<rparr>)"
  by (simp add: dl_empty_def)

lemma not_empty_follow:
  "counts_follow d d' old new \<Longrightarrow> new \<noteq> state_none \<Longrightarrow> old \<noteq> new \<Longrightarrow> \<not> dl_empty d'"
  by (cases new) (auto simp: counts_follow_def dl_empty_def split: if_splits)

lemma queue_open_iff: "download_queue (m_piece_map s ! i) = piece_open \<longleftrightarrow> queue_of s i = piece_open"
  by (simp add: queue_of_def)

lemma downloading_iff: "pos_downloading (m_piece_map s ! i) \<longleftrightarrow> queue_of s i \<noteq> piece_open"
  by (simp add: pos_downloading_def queue_of_def download_queue_def)

lemma is_requestedI:
  "queue_of s (piece_index b) \<noteq> piece_open \<Longrightarrow> bi_state (block_of s b) = state_requested \<Longrightarrow> is_requested s b"
  by (simp add: is_requested_def queue_of_def)

lemma is_downloadedI:
  "queue_of s (piece_index b) \<noteq> piece_open \<Longrightarrow> bi_state (block_of s b) = state_writing \<or> bi_state (block_of s b) = state_finished
   \<Longrightarrow> is_downloaded s b"
  by (auto simp: is_downloaded_def queue_of_def Let_def)

lemma is_finished_blockI:
  "queue_of s (piece_index b) \<noteq> piece_open \<Longrightarrow> bi_state (block_of s b) = state_finished \<Longrightarrow> is_finished_block s b"
  by (auto simp: is_finished_block_def queue_of_def Let_def)

lemma make_reverse_state: "\<exists>st. make_reverse p = p\<lparr>pp_state := st\<rparr> \<and> queue_of_state st = queue_of_state (pp_state p)"
  by (cases "pp_state p") (auto simp: make_reverse_def intro: exI [of _ "pp_state p"])

lemma unreverse_state: "\<exists>st. unreverse p = p\<lparr>pp_state := st\<rparr> \<and> queue_of_state st = queue_of_state (pp_state p)"
  by (cases "pp_state p") (auto simp: unreverse_def intro: exI [of _ "pp_state p"])

lemma mark_as_downloading_open_ok:
  assumes inv: "picker_inv s" and v: "valid_block s b" and room: "slots s < 2 ^ 16"
    and op: "queue_of s (piece_index b) = piece_open" and m: "mark_as_downloading b peer opts s = (r, s')"
  shows "picker_inv s' \<and> same_want s s' \<and> (if r then is_requested s' b else is_downloaded s' b)"
proof -
  let ?i = "piece_index b"
  define st where "st = (if reverse \<in> opts then piece_downloading_reverse else piece_downloading)"
  define s1 where "s1 = change_state ?i (\<lambda>p. p\<lparr>pp_state := st\<rparr>) s"
  define s2 where "s2 = (if piece_extent_affinity \<in> opts then record_downloading_piece ?i s1 else s1)"
  obtain dp s3 where u: "add_download_piece ?i s2 = (dp, s3)" by fastforce
  have fr: "same_order s1 s2" "same_dl s1 s2" "same_want s1 s2" using record_downloading_piece_frame by (auto simp: s2_def)
  have qs: "queue_of_state st = piece_downloading" by (simp add: st_def)
  note S = start_piece_ok [OF inv v op qs room fr [unfolded s1_def] u]
  let ?k = "slot s3 ?i (block_index b)"
  note I = picker_invD [OF S(1)]
  have B: "block_of s3 b = m_block_info s3 ! ?k" using block_of_slot [OF I(2) S(4,3)] by simp
  let ?F = "\<lambda>_. \<lparr>bi_peer = peer, bi_num_peers = 1, bi_state = state_requested\<rparr>"
  have eq: "mark_as_downloading b peer opts s =
      (if bi_state (block_of s3 b) = state_finished then (False, s3)
       else (True, snd (update_piece_state dp (upd_block ?k ?F (upd_dl dp inc_requested s3)))))"
    using op unfolding mark_as_downloading_def Let_def queue_open_iff st_def [symmetric] s1_def [symmetric]
      s2_def [symmetric] u B slot_def S(2) [symmetric] by (simp add: modify_normal)
  show ?thesis
  proof (cases "bi_state (block_of s3 b) = state_finished")
    case True
    then show ?thesis using eq m S(1,8) is_downloadedI [OF S(3)] by simp
  next
    case False
    then have none: "bi_state (block_of s3 b) = state_none" using S(5) by simp
    obtain it' s4 where u4: "update_piece_state dp (upd_block ?k ?F (upd_dl dp inc_requested s3)) = (it', s4)" by fastforce
    have c: "counts_follow (dl_at s3 dp) (inc_requested (dl_at s3 dp)) state_none state_requested"
      using counts_follow_step(1) [OF I(2) S(4,3) refl none] S(2) by simp
    note T = step_block_ok [where F = ?F and G = inc_requested and st' = state_requested,
        OF S(1) S(4,3) refl none _ _ u4 [unfolded S(2)], simplified, OF c [unfolded S(2)]]
    have "picker_inv s4" using T(4) not_empty_follow [OF c] S(2) by simp
    moreover have "is_requested s4 b" using T(7,9) by (rule is_requestedI)
    moreover have "same_want s s4" by (rule same_want_trans [OF S(8) T(13)])
    ultimately show ?thesis using eq m False u4 by simp
  qed
qed

lemma mark_as_downloading_partial_ok:
  assumes inv: "picker_inv s" and v: "valid_block s b"
    and op: "queue_of s (piece_index b) \<noteq> piece_open" and m: "mark_as_downloading b peer opts s = (r, s')"
  shows "picker_inv s' \<and> same_want s s' \<and> (if r then is_requested s' b else is_downloaded s' b)"
proof -
  let ?i = "piece_index b" and ?k = "slot s (piece_index b) (block_index b)" and ?it = "find_piece s (piece_index b)"
  have i: "?i < num_pieces s" using v by (simp add: valid_block_def)
  note I = picker_invD [OF inv]
  have B: "block_of s b = m_block_info s ! ?k" "?k < length (m_block_info s)" using block_of_slot [OF I(2) v op] by auto
  show ?thesis
  proof (cases "bi_state (block_of s b) = state_writing \<or> bi_state (block_of s b) = state_finished")
    case True
    then have "mark_as_downloading b peer opts s = (False, s)"
      using op unfolding B(1) mark_as_downloading_def Let_def queue_open_iff slot_def [symmetric] by simp
    then show ?thesis using m inv True is_downloadedI [OF op] by auto
  next
    case False
    define rev where "rev \<longleftrightarrow> reverse \<in> opts \<and> \<not> pos_reverse (m_piece_map s ! ?i) \<and> dp_requested (dl_at s ?it) = 0"
    define s1 where "s1 = (if rev then change_state ?i make_reverse s else s)"
    have S1: "picker_inv s1" "find_piece s1 ?i = ?it" "dl_at s1 = dl_at s" "slot s1 ?i = slot s ?i"
      "m_block_info s1 = m_block_info s" "num_pieces s1 = num_pieces s" "blocks_in_piece s1 = blocks_in_piece s"
      "queue_of s1 ?i = queue_of s ?i" "blocks_for_piece s1 = blocks_for_piece s" "same_want s s1"
    proof -
      have nf: "pp_state (m_piece_map s ! ?i) \<noteq> piece_full" if rev
        using that I(3) find_piece_ok(2,3) [OF I(2) i op] by (auto simp: rev_def full_ok_def)
      have un: "pos_priority (m_seeds s) (make_reverse (m_piece_map s ! ?i)) = -1" if rev "priority_of s ?i = -1"
        using that nf picker_okD(3) [OF order_inv_ok [OF I(1)] i]
        by (cases "pp_state (m_piece_map s ! ?i)") (auto simp: make_reverse_def priority_of_def intro: priority_state_unlisted)
      have fu: "pp_state (make_reverse (m_piece_map s ! ?i)) \<noteq> piece_full" if rev
        using nf [OF that] by (auto simp: make_reverse_def)
      have "picker_inv s1 \<and> find_piece s1 ?i = ?it \<and> dl_at s1 = dl_at s \<and> slot s1 ?i = slot s ?i
        \<and> m_block_info s1 = m_block_info s \<and> num_pieces s1 = num_pieces s \<and> blocks_in_piece s1 = blocks_in_piece s
        \<and> queue_of s1 ?i = queue_of s ?i \<and> blocks_for_piece s1 = blocks_for_piece s \<and> same_want s s1"
      proof (cases rev)
        case True
        note R = reverse_state_ok [where f = make_reverse, OF inv i op make_reverse_state un [OF True] notE [OF fu [OF True]]]
        then show ?thesis using True unfolding s1_def by simp
      next
        case False
        then show ?thesis using inv unfolding s1_def by simp
      qed
      then show "picker_inv s1" "find_piece s1 ?i = ?it" "dl_at s1 = dl_at s" "slot s1 ?i = slot s ?i"
        "m_block_info s1 = m_block_info s" "num_pieces s1 = num_pieces s" "blocks_in_piece s1 = blocks_in_piece s"
        "queue_of s1 ?i = queue_of s ?i" "blocks_for_piece s1 = blocks_for_piece s" "same_want s s1" by blast+
    qed
    have v1: "valid_block s1 b" using v S1 by (simp add: valid_block_def)
    have op1: "queue_of s1 ?i \<noteq> piece_open" using op S1(8) by simp
    have bo1: "block_of s1 b = block_of s b" using S1 by (simp add: block_of_def)
    define P where "P = (\<lambda>b :: block_info. b\<lparr>bi_peer := peer\<rparr>)"
    define s2 where "s2 = upd_block ?k P s1"
    define rq where "rq \<longleftrightarrow> bi_state (block_of s b) \<noteq> state_requested"
    define s3 where "s3 = (if rq then snd (update_piece_state ?it (upd_dl ?it inc_requested
        (upd_block ?k (\<lambda>b. b\<lparr>bi_state := state_requested\<rparr>) s2))) else s2)"
    have S3: "picker_inv s3 \<and> valid_block s3 b \<and> queue_of s3 ?i \<noteq> piece_open \<and> slot s3 ?i (block_index b) = ?k
        \<and> bi_state (block_of s3 b) = state_requested \<and> same_want s1 s3"
    proof (cases rq)
      case True
      then have none: "bi_state (block_of s1 b) = state_none"
        using False bo1 by (cases "bi_state (block_of s b)") (auto simp: rq_def)
      let ?F = "\<lambda>b. (P b)\<lparr>bi_state := state_requested\<rparr>"
      have e: "upd_dl ?it inc_requested (upd_block ?k (\<lambda>b. b\<lparr>bi_state := state_requested\<rparr>) s2)
          = upd_block ?k ?F (upd_dl ?it inc_requested s1)"
        by (simp add: s2_def modify_normal)
      obtain it' s4 where u4: "update_piece_state ?it (upd_block ?k ?F (upd_dl ?it inc_requested s1)) = (it', s4)" by fastforce
      have c: "counts_follow (dl_at s1 ?it) (inc_requested (dl_at s1 ?it)) state_none state_requested"
        using counts_follow_step(1) [OF picker_invD(2) [OF S1(1)] v1 op1 refl none] S1(2) by simp
      have u4': "update_piece_state (find_piece s1 ?i)
          (upd_block (slot s1 ?i (block_index b)) ?F (upd_dl (find_piece s1 ?i) inc_requested s1)) = (it', s4)"
        using u4 S1(2,4) by simp
      note T = step_block_ok [where F = ?F and G = inc_requested and st' = state_requested,
          OF S1(1) v1 op1 refl none _ _ u4', simplified, OF c [folded S1(2)]]
      have "s3 = s4" using True e u4 by (simp add: s3_def)
      then show ?thesis using T not_empty_follow [OF c] S1(2,4) by simp
    next
      case nrq: False
      have T: "picker_inv s2" "find_piece s2 = find_piece s1" "queue_of s2 = queue_of s1" "num_pieces s2 = num_pieces s1"
        "blocks_in_piece s2 = blocks_in_piece s1" "slot s2 = slot s1"
        "bi_state (m_block_info s2 ! ?k) = bi_state (block_of s1 b)" "same_want s1 s2"
        using touch_ok [where F = P and G = "\<lambda>d. d", OF S1(1) v1 op1] S1(4) by (simp_all add: s2_def P_def)
      have v2: "valid_block s2 b" using v1 T by (simp add: valid_block_def)
      have "block_of s2 b = m_block_info s2 ! slot s2 ?i (block_index b)"
        using block_of_slot(1) [OF picker_invD(2) [OF T(1)] v2] T(3) op1 by simp
      then show ?thesis using nrq T v2 op1 S1(4) bo1 by (simp add: s3_def rq_def)
    qed
    define N where "N = (\<lambda>b :: block_info. b\<lparr>bi_num_peers := inc_bits num_peers_bits (bi_num_peers b)\<rparr>)"
    define s4 where "s4 = upd_block ?k N s3"
    have S4: "picker_inv s4 \<and> valid_block s4 b \<and> queue_of s4 ?i \<noteq> piece_open \<and> bi_state (block_of s4 b) = state_requested
        \<and> same_want s s4"
    proof -
      have op3: "queue_of s3 ?i \<noteq> piece_open" and v3: "valid_block s3 b" and i3: "picker_inv s3" using S3 by auto
      have sw: "same_want s s4"
        using same_want_trans [OF same_want_trans [OF S1(10)] frame_want(3)] S3 by (simp add: s4_def)
      have T: "picker_inv s4" "queue_of s4 = queue_of s3" "num_pieces s4 = num_pieces s3"
        "blocks_in_piece s4 = blocks_in_piece s3" "slot s4 = slot s3"
        "bi_state (m_block_info s4 ! ?k) = bi_state (block_of s3 b)"
        using touch_ok [where F = N and G = "\<lambda>d. d", OF i3 v3 op3] S3 by (simp_all add: s4_def N_def)
      have v4: "valid_block s4 b" using v3 T by (simp add: valid_block_def)
      have "block_of s4 b = m_block_info s4 ! slot s4 ?i (block_index b)"
        using block_of_slot(1) [OF picker_invD(2) [OF T(1)] v4] T(2) op3 by simp
      then show ?thesis using T v4 op3 S3 sw by simp
    qed
    define ur where "ur \<longleftrightarrow> reverse \<notin> opts \<and> pos_reverse (m_piece_map s4 ! ?i)"
    define s5 where "s5 = (if ur then change_state ?i unreverse s4 else s4)"
    have st2: "bi_state (m_block_info s2 ! ?k) \<noteq> state_requested \<longleftrightarrow> rq"
      using B S1(5) by (simp add: s2_def P_def upd_block_def rq_def)
    have "mark_as_downloading b peer opts s = (True, s5)"
      using op False unfolding B(1) mark_as_downloading_def Let_def queue_open_iff slot_def [symmetric] rev_def [symmetric]
        s1_def [symmetric] P_def [symmetric] s2_def [symmetric] st2 s3_def [symmetric] N_def [symmetric] s4_def [symmetric]
        ur_def [symmetric] s5_def [symmetric] by simp
    moreover have "picker_inv s5 \<and> same_want s s5 \<and> is_requested s5 b"
    proof (cases ur)
      case True
      have i4: "?i < num_pieces s4" and inv4: "picker_inv s4" and op4: "queue_of s4 ?i \<noteq> piece_open" and v4: "valid_block s4 b"
        using S4 by (auto simp: valid_block_def)
      have un: "pos_priority (m_seeds s4) (unreverse (m_piece_map s4 ! ?i)) = -1" if "priority_of s4 ?i = -1"
        using that picker_okD(3) [OF order_inv_ok [OF picker_invD(1) [OF inv4]] i4] True
        by (auto simp: unreverse_def priority_of_def ur_def pos_reverse_def intro: priority_state_unlisted)
      note Bd = counts_bound [OF picker_invD(2) [OF inv4] i4 op4 refl]
      have "block_index b < length (blocks_for_piece s4 (dl_at s4 (find_piece s4 ?i)))"
        using Bd(6) v4 by (simp add: valid_block_def)
      then have "0 < dp_requested (dl_at s4 (find_piece s4 ?i))"
        using Bd(3) count_state_pos S4 by (simp add: block_of_def)
      then have R: "picker_inv s5" "find_piece s5 ?i = find_piece s4 ?i" "dl_at s5 = dl_at s4" "queue_of s5 ?i = queue_of s4 ?i"
        "blocks_for_piece s5 = blocks_for_piece s4" "same_want s4 s5"
        using reverse_state_ok [where f = unreverse, OF inv4 i4 op4 unreverse_state un] True by (auto simp: s5_def)
      then have "is_requested s5 b" using S4 by (intro is_requestedI) (simp_all add: block_of_def)
      moreover have "same_want s s5" using same_want_trans [OF _ R(6)] S4 by blast
      ultimately show ?thesis using R(1) by simp
    next
      case False
      then show ?thesis using S4 by (auto simp: s5_def intro: is_requestedI)
    qed
    ultimately show ?thesis using m by simp
  qed
qed

text \<open>A block that becomes requested, written or finished leaves its piece non-empty.\<close>

lemma step_counted_ok:
  assumes "picker_inv s" "valid_block s b" "queue_of s (piece_index b) \<noteq> piece_open" "bi_state (block_of s b) = st"
    and F: "\<And>x. bi_state (F x) = st'"
    and c: "counts_follow (dl_at s (find_piece s (piece_index b))) (G (dl_at s (find_piece s (piece_index b)))) st st'"
    and ne: "st' \<noteq> state_none" "st \<noteq> st'"
  defines "s' \<equiv> snd (update_piece_state (find_piece s (piece_index b))
      (upd_block (slot s (piece_index b) (block_index b)) F (upd_dl (find_piece s (piece_index b)) G s)))"
  shows "picker_inv s'" "queue_of s' (piece_index b) \<noteq> piece_open" "bi_state (block_of s' b) = st'" "valid_block s' b"
    "dl_at s' (find_piece s' (piece_index b)) = G (dl_at s (find_piece s (piece_index b)))"
    "blocks_in_piece s' = blocks_in_piece s" "same_want s s'"
proof -
  let ?S = "upd_block (slot s (piece_index b) (block_index b)) F (upd_dl (find_piece s (piece_index b)) G s)"
  obtain it' where u: "update_piece_state (find_piece s (piece_index b)) ?S = (it', s')"
    by (metis s'_def prod.collapse)
  note T = step_block_ok [where F = F and G = G, OF assms(1-3) refl assms(4) F c u]
  show "picker_inv s'" using T(4) not_empty_follow [OF c ne] by simp
  show "queue_of s' (piece_index b) \<noteq> piece_open" "bi_state (block_of s' b) = st'" "valid_block s' b"
    "dl_at s' (find_piece s' (piece_index b)) = G (dl_at s (find_piece s (piece_index b)))"
    "blocks_in_piece s' = blocks_in_piece s" "same_want s s'" using T by simp_all
qed

lemma erase_resync_ok:
  assumes inv: "order_inv s" and core: "dl_core (queue_of s) s" and full: "full_ok s (\<lambda>j. j \<noteq> i)"
    and i: "i < num_pieces s" and op: "queue_of s i \<noteq> piece_open"
  shows "picker_inv (resync_state (priority_of s i) i (erase_download_piece (find_piece s i) s))"
    "queue_of (resync_state (priority_of s i) i (erase_download_piece (find_piece s i) s)) i = piece_open"
    "picker_inv (erase_and_sync (priority_of s i) i (find_piece s i) s)"
    "queue_of (erase_and_sync (priority_of s i) i (find_piece s i) s) i = piece_open"
    "same_want s (resync_state (priority_of s i) i (erase_download_piece (find_piece s i) s))"
    "same_want s (erase_and_sync (priority_of s i) i (find_piece s i) s)"
proof -
  let ?f = "\<lambda>p. p\<lparr>pp_state := piece_open\<rparr>" and ?S = "dropped i s"
  have eq: "erase_download_piece (find_piece s i) s = upd_pos i ?f ?S" by (rule erase_download_piece_eq [OF core i op])
  note E = erase_download_piece_ok [OF core full i op, unfolded eq]
  note O = same_order_fields [OF dropped_order [of s i]]
  have inv': "order_inv ?S" "i < num_pieces ?S" using inv i O by simp_all
  have ok: "pos_ok (m_piece_map ?S ! i)" by (rule picker_ok_nth [OF order_inv_ok [OF inv'(1)] inv'(2)])
  have f: "pp_index (?f (m_piece_map ?S ! i)) = pp_index (m_piece_map ?S ! i)" "pos_ok (?f (m_piece_map ?S ! i))"
    using ok by (simp_all add: pos_ok_def)
  have iu: "i < num_pieces (upd_pos i ?f ?S)" using inv'(2) by simp
  have fin: "picker_inv X \<and> queue_of X i = piece_open \<and> same_want s X" if X: "order_inv X \<and> reorders (upd_pos i ?f ?S) X" for X
    unfolding picker_inv_def reorders_dl_ok [OF conjunct2 [OF X]] reorders_queue_of [OF conjunct2 [OF X] iu]
    using E(1,2) X same_want_trans [OF erase_want [of s "find_piece s i", unfolded eq] reorders_want [OF conjunct2 [OF X]]] by blast
  show "picker_inv (resync_state (priority_of s i) i (erase_download_piece (find_piece s i) s))"
    "queue_of (resync_state (priority_of s i) i (erase_download_piece (find_piece s i) s)) i = piece_open"
    "same_want s (resync_state (priority_of s i) i (erase_download_piece (find_piece s i) s))"
    using fin [OF resync_state_ok [where f = ?f, OF inv' f]] unfolding eq O(3) by blast+
  show "picker_inv (erase_and_sync (priority_of s i) i (find_piece s i) s)"
    "queue_of (erase_and_sync (priority_of s i) i (find_piece s i) s) i = piece_open"
    "same_want s (erase_and_sync (priority_of s i) i (find_piece s i) s)"
    using fin [OF sync_piece_ok [where f = ?f, OF inv' f]] unfolding erase_and_sync_def eq O(3) by blast+
qed

text \<open>A block that goes back to \<open>state_none\<close>: the piece is dropped when nothing is left of it.\<close>

definition back_to_none :: "picker \<Rightarrow> piece_block \<Rightarrow> bool" where
  "back_to_none s b \<longleftrightarrow> queue_of s (piece_index b) = piece_open \<or> bi_state (block_of s b) = state_none"

lemma step_back_ok:
  assumes inv: "picker_inv s" and v: "valid_block s b" and op: "queue_of s (piece_index b) \<noteq> piece_open"
    and st: "bi_state (block_of s b) = st" and F: "\<And>x. bi_state (F x) = state_none"
    and c: "counts_follow (dl_at s (find_piece s (piece_index b))) (G (dl_at s (find_piece s (piece_index b)))) st state_none"
    and u: "update_piece_state (find_piece s (piece_index b))
      (upd_block (slot s (piece_index b) (block_index b)) F (upd_dl (find_piece s (piece_index b)) G s)) = (it', s')"
  defines "S \<equiv> (if dl_empty (dl_at s' it') then erase_and_sync (priority_of s' (piece_index b)) (piece_index b) it' s' else s')"
  shows "picker_inv S" "back_to_none S b" "same_want s S"
proof -
  let ?i = "piece_index b"
  have i: "?i < num_pieces s" using v by (simp add: valid_block_def)
  note T = step_block_ok [where F = F and G = G, OF inv v op refl st F c u]
  have i': "?i < num_pieces s'" using T(10) i by simp
  note E = erase_resync_ok(3,4,6) [OF T(1,2,3) i' T(7)]
  show "same_want s S" using same_want_trans [OF T(13) E(3)] T(5,13) by (auto simp: S_def)
  show "picker_inv S" using E(1) T by (auto simp: S_def)
  show "back_to_none S b" using E(2) T by (auto simp: S_def back_to_none_def)
qed

lemma slot_of: "block_pos s (dl_at s (find_piece s i)) k = slot s i k"
  by (simp add: slot_def)

lemma mark_as_downloading_result:
  assumes "picker_inv s" "valid_block s b" "slots s < 2 ^ 16" "mark_as_downloading b peer opts s = (r, s')"
  shows "picker_inv s' \<and> same_want s s' \<and> (if r then is_requested s' b else is_downloaded s' b)"
  using mark_as_downloading_open_ok [OF assms(1-3) _ assms(4)] mark_as_downloading_partial_ok [OF assms(1,2) _ assms(4)]
  by blast

lemma have_iff: "have_piece s i \<longleftrightarrow> pp_index (m_piece_map s ! i) = None"
  by (simp add: have_piece_def pos_have_def)

lemma mark_as_writing_open_ok:
  assumes inv: "picker_inv s" and v: "valid_block s b" and room: "slots s < 2 ^ 16"
    and op: "queue_of s (piece_index b) = piece_open" and m: "mark_as_writing b peer s = (r, s')"
  shows "picker_inv s' \<and> same_want s s' \<and> is_downloaded s' b"
proof (cases "have_piece s (piece_index b)")
  case True
  then have "(r, s') = (False, s)" using op m unfolding mark_as_writing_def Let_def downloading_iff by simp
  then show ?thesis using inv True by (simp add: is_downloaded_def have_iff Let_def)
next
  case nh: False
  let ?i = "piece_index b"
  define s1 where "s1 = change_state ?i (\<lambda>p. p\<lparr>pp_state := piece_downloading\<rparr>) s"
  obtain dp s2 where u: "add_download_piece ?i s1 = (dp, s2)" by fastforce
  note S = start_piece_ok [OF inv v op _ room _ _ _ u [unfolded s1_def], of piece_downloading, simplified]
  let ?k = "slot s2 ?i (block_index b)"
  note I = picker_invD [OF S(1)]
  have B: "block_of s2 b = m_block_info s2 ! ?k" using block_of_slot [OF I(2) S(4,3)] by simp
  let ?F = "\<lambda>_. \<lparr>bi_peer = peer, bi_num_peers = 0, bi_state = state_writing\<rparr>"
  let ?G = "\<lambda>d. d\<lparr>dp_writing := 1\<rparr>"
  have eq: "mark_as_writing b peer s =
      (if bi_state (block_of s2 b) = state_finished then (False, s2)
       else (True, snd (update_piece_state dp (upd_block ?k ?F (upd_dl dp ?G s2)))))"
    using op nh unfolding mark_as_writing_def Let_def downloading_iff s1_def [symmetric] u B slot_def S(2) [symmetric]
    by (simp add: modify_normal)
  show ?thesis
  proof (cases "bi_state (block_of s2 b) = state_finished")
    case True
    then show ?thesis using eq m S(1,8) is_downloadedI [OF S(3)] by simp
  next
    case False
    then have none: "bi_state (block_of s2 b) = state_none" using S(5) by simp
    have c: "counts_follow (dl_at s2 dp) (?G (dl_at s2 dp)) state_none state_writing"
      using S(7) by (simp add: counts_follow_def)
    note T = step_counted_ok [where F = ?F and G = ?G and st' = state_writing, OF S(1) S(4,3) none _ c [unfolded S(2)], simplified]
    have "s' = snd (update_piece_state (find_piece s2 ?i) (upd_block ?k ?F (upd_dl (find_piece s2 ?i) ?G s2)))"
      using eq m False unfolding S(2) by simp
    then show ?thesis using T(1) is_downloadedI [OF T(2)] T(3) same_want_trans [OF S(8) T(7)] by simp
  qed
qed

lemma touch_block_ok:
  assumes inv: "picker_inv s" and v: "valid_block s b" and op: "queue_of s (piece_index b) \<noteq> piece_open"
    and F: "\<And>x. bi_state (F x) = bi_state x"
  defines "S \<equiv> upd_block (slot s (piece_index b) (block_index b)) F s"
  shows "picker_inv S" "queue_of S = queue_of s" "valid_block S b" "bi_state (block_of S b) = bi_state (block_of s b)" "same_want s S"
proof -
  show "same_want s S" by (simp add: S_def)
  note T = touch_ok [where F = F and G = "\<lambda>d. d", OF inv v op F, simplified, folded S_def]
  show "picker_inv S" "queue_of S = queue_of s" using T(1) by (simp_all add: S_def)
  show v': "valid_block S b" using v by (simp add: valid_block_def S_def)
  have "block_of S b = m_block_info S ! slot S (piece_index b) (block_index b)"
    using block_of_slot(1) [OF picker_invD(2) [OF T(1)] v'] op by (simp add: S_def)
  then show "bi_state (block_of S b) = bi_state (block_of s b)" using T(6,8) by simp
qed

lemma mark_as_writing_partial_ok:
  assumes inv: "picker_inv s" and v: "valid_block s b"
    and op: "queue_of s (piece_index b) \<noteq> piece_open" and m: "mark_as_writing b peer s = (r, s')"
  shows "picker_inv s' \<and> same_want s s' \<and> is_downloaded s' b"
proof -
  let ?i = "piece_index b" and ?it = "find_piece s (piece_index b)"
  let ?k = "slot s ?i (block_index b)"
  note I = picker_invD [OF inv]
  have B: "block_of s b = m_block_info s ! ?k" "?k < length (m_block_info s)" using block_of_slot [OF I(2) v op] by auto
  let ?P = "\<lambda>b :: block_info. b\<lparr>bi_peer := peer\<rparr>"
  have stB: "bi_state (m_block_info (upd_block ?k ?P s) ! ?k) = bi_state (block_of s b)"
    using B by (simp add: upd_block_def)
  show ?thesis
  proof (cases "bi_state (block_of s b) = state_writing \<or> bi_state (block_of s b) = state_finished")
    case True
    then have "(r, s') = (False, upd_block ?k ?P s)"
      using op m unfolding mark_as_writing_def Let_def downloading_iff slot_of stB by auto
    then show ?thesis using touch_block_ok [where F = ?P, OF inv v op] True op by (auto intro: is_downloadedI)
  next
    case False
    define st where "st = bi_state (block_of s b)"
    define G where "G = (\<lambda>d. inc_writing (if st = state_requested then dec_requested d else d))"
    let ?F = "\<lambda>b. (?P b)\<lparr>bi_state := state_writing, bi_num_peers := 0\<rparr>"
    have st: "st = state_none \<or> st = state_requested" using False by (cases st) (auto simp: st_def)
    have c: "counts_follow (dl_at s ?it) (G (dl_at s ?it)) st state_writing"
      using counts_follow_step(2,4) [OF I(2) v op refl st_def [symmetric]] st by (auto simp: G_def)
    note T = step_counted_ok [where F = ?F and G = G and st' = state_writing, OF inv v op st_def [symmetric] _ c]
    have ne: "\<not> (st = state_writing \<or> st = state_finished)" using st by auto
    have "mark_as_writing b peer s = (True, snd (update_piece_state ?it (upd_block ?k ?F (upd_dl ?it G s))))"
      using op ne unfolding mark_as_writing_def Let_def downloading_iff slot_of stB st_def [symmetric] G_def
      by (simp add: modify_normal)
    then have "s' = snd (update_piece_state ?it (upd_block ?k ?F (upd_dl ?it G s)))" using m by simp
    moreover have "st \<noteq> state_writing" using st by auto
    ultimately show ?thesis using T by (auto intro: is_downloadedI)
  qed
qed

lemma mark_as_writing_result:
  assumes "picker_inv s" "valid_block s b" "slots s < 2 ^ 16"
  shows "picker_inv (snd (mark_as_writing b peer s)) \<and> same_want s (snd (mark_as_writing b peer s))
    \<and> is_downloaded (snd (mark_as_writing b peer s)) b"
  using mark_as_writing_open_ok [OF assms] mark_as_writing_partial_ok [OF assms(1,2)] by (metis prod.collapse)

section \<open>Hash jobs and locks\<close>

lemma touch_piece_ok:
  assumes inv: "picker_inv s" and i: "i < num_pieces s" and op: "queue_of s i \<noteq> piece_open"
    and G: "\<And>x. counts_follow x (G x) state_none state_none"
  shows "picker_inv (upd_dl (find_piece s i) G s)" "queue_of (upd_dl (find_piece s i) G s) = queue_of s"
    "find_piece (upd_dl (find_piece s i) G s) = find_piece s"
    "dl_at (upd_dl (find_piece s i) G s) (find_piece s i) = G (dl_at s (find_piece s i))"
    "slot (upd_dl (find_piece s i) G s) = slot s"
proof -
  have "0 < blocks_in_piece s i" using picker_invD(2) [OF inv] geom_okD i by (simp add: dl_core_def)
  then have v: "valid_block s \<lparr>piece_index = i, block_index = 0\<rparr>" using i by (simp add: valid_block_def)
  have op': "queue_of s (piece_index \<lparr>piece_index = i, block_index = 0\<rparr>) \<noteq> piece_open" using op by simp
  note T = touch_ok [where F = "\<lambda>b. b" and G = G, OF inv v op' _ G, simplified]
  show "picker_inv (upd_dl (find_piece s i) G s)" "queue_of (upd_dl (find_piece s i) G s) = queue_of s"
    "find_piece (upd_dl (find_piece s i) G s) = find_piece s"
    "dl_at (upd_dl (find_piece s i) G s) (find_piece s i) = G (dl_at s (find_piece s i))"
    "slot (upd_dl (find_piece s i) G s) = slot s" using T by simp_all
qed


lemma queue_find: "(queue_of s i, find_dl_piece s (queue_of s i) i) = find_piece s i"
  by (simp add: find_piece_pair)

lemma started_hash_job_ok:
  assumes inv: "picker_inv s" and i: "i < num_pieces s"
  shows "picker_inv (started_hash_job i s) \<and> same_want s (started_hash_job i s)
    \<and> is_hashing (started_hash_job i s) i = (queue_of s i \<noteq> piece_open)"
proof (cases "queue_of s i = piece_open")
  case False
  note T = touch_piece_ok [where G = "\<lambda>d. d\<lparr>dp_hashing := 1\<rparr>", OF inv i False]
  show ?thesis unfolding started_hash_job_def is_hashing_def downloading_iff queue_open_iff
    using T False by (simp add: counts_follow_def)
qed (use inv in \<open>simp add: started_hash_job_def is_hashing_def downloading_iff queue_open_iff\<close>)

lemma completed_hash_job_ok:
  assumes inv: "picker_inv s" and i: "i < num_pieces s"
  shows "picker_inv (completed_hash_job i s) \<and> same_want s (completed_hash_job i s) \<and> \<not> is_hashing (completed_hash_job i s) i"
proof (cases "queue_of s i = piece_open")
  case False
  note T = touch_piece_ok [where G = "\<lambda>d. d\<lparr>dp_hashing := 0\<rparr>", OF inv i False]
  show ?thesis unfolding completed_hash_job_def is_hashing_def downloading_iff queue_open_iff
    using T False by (simp add: counts_follow_def)
qed (use inv in \<open>simp add: completed_hash_job_def is_hashing_def downloading_iff queue_open_iff\<close>)

lemma num_passed_simps [simp]:
  "picker_inv (s\<lparr>m_num_passed := x\<rparr>) = picker_inv s" "queue_of (s\<lparr>m_num_passed := x\<rparr>) = queue_of s"
  "find_piece (s\<lparr>m_num_passed := x\<rparr>) = find_piece s" "dl_at (s\<lparr>m_num_passed := x\<rparr>) = dl_at s"
  "upd_dl it G (s\<lparr>m_num_passed := x\<rparr>) = (upd_dl it G s)\<lparr>m_num_passed := x\<rparr>"
proof -
  have d: "same_dl s (s\<lparr>m_num_passed := x\<rparr>)" by (simp add: same_dl_def num_pieces_def)
  have o: "same_order s (s\<lparr>m_num_passed := x\<rparr>)" by simp
  note D = same_dl_fields [OF d] and O = same_order_fields [OF o]
  have "full_ok (s\<lparr>m_num_passed := x\<rparr>) P = full_ok s P" for P using D by (simp add: full_ok_def)
  then show "picker_inv (s\<lparr>m_num_passed := x\<rparr>) = picker_inv s"
    using O(5,7) same_dl_core [OF d] by (simp add: picker_inv_def dl_ok_def)
  show "queue_of (s\<lparr>m_num_passed := x\<rparr>) = queue_of s" using O by simp
  show "dl_at (s\<lparr>m_num_passed := x\<rparr>) = dl_at s" by (simp add: dl_at_def fun_eq_iff)
  show "find_piece (s\<lparr>m_num_passed := x\<rparr>) = find_piece s" by (simp add: find_piece_def find_dl_piece_def fun_eq_iff)
  show "upd_dl it G (s\<lparr>m_num_passed := x\<rparr>) = (upd_dl it G s)\<lparr>m_num_passed := x\<rparr>"
    by (simp add: upd_dl_def set_queue_def dl_at_def)
qed

text \<open>The step of \<open>lock_piece\<close> and \<open>write_failed\<close>: the hash check is withdrawn and the piece locked.\<close>

definition unpass_lock :: "downloading_piece \<Rightarrow> downloading_piece" where
  "unpass_lock d = d\<lparr>dp_passed_hash_check := False, dp_locked := True\<rparr>"

lemma unpass_lock_step:
  "\<exists>n. upd_dl it (\<lambda>d. d\<lparr>dp_locked := True\<rparr>)
      (if dp_passed_hash_check (dl_at s it)
       then (upd_dl it (\<lambda>d. d\<lparr>dp_passed_hash_check := False\<rparr>) s)\<lparr>m_num_passed := m\<rparr> else s)
     = (upd_dl it unpass_lock s)\<lparr>m_num_passed := n\<rparr>"
proof (cases "dp_passed_hash_check (dl_at s it)")
  case True
  have "unpass_lock = (\<lambda>d. d\<lparr>dp_passed_hash_check := False, dp_locked := True\<rparr>)" by (simp add: unpass_lock_def fun_eq_iff)
  then show ?thesis using True by (intro exI [of _ m]) (simp add: upd_dl_comp)
next
  case False
  then have "upd_dl it (\<lambda>d. d\<lparr>dp_locked := True\<rparr>) s = upd_dl it unpass_lock s"
    by (cases "dl_at s it") (simp add: upd_dl_def unpass_lock_def)
  then show ?thesis using False by (intro exI [of _ "m_num_passed s"]) (simp add: upd_dl_def set_queue_def)
qed

lemma lock_piece_eq:
  assumes "queue_of s i \<noteq> piece_open" "snd (find_piece s i) < length (m_downloads s (queue_of s i))"
  shows "\<exists>n. lock_piece i s = (upd_dl (find_piece s i) unpass_lock s)\<lparr>m_num_passed := n\<rparr>"
proof -
  have ne: "find_dl_piece s (queue_of s i) i \<noteq> length (m_downloads s (queue_of s i))"
    using assms(2) by (simp add: find_piece_pair)
  have "lock_piece i s = upd_dl (find_piece s i) (\<lambda>d. d\<lparr>dp_locked := True\<rparr>)
      (if dp_passed_hash_check (dl_at s (find_piece s i))
       then (upd_dl (find_piece s i) (\<lambda>d. d\<lparr>dp_passed_hash_check := False\<rparr>) s)\<lparr>m_num_passed := m_num_passed s - 1\<rparr> else s)"
    using assms(1) ne unfolding lock_piece_def Let_def queue_of_def [symmetric] queue_find by simp
  then show ?thesis using unpass_lock_step by metis
qed

lemma lock_piece_ok:
  assumes inv: "picker_inv s" and i: "i < num_pieces s"
  shows "picker_inv (lock_piece i s) \<and> same_want s (lock_piece i s) \<and> (queue_of s i \<noteq> piece_open \<longrightarrow>
      dp_locked (dl_at (lock_piece i s) (find_piece (lock_piece i s) i)) \<and> \<not> (\<not> have_piece s i \<and> has_piece_passed (lock_piece i s) i))"
proof (cases "queue_of s i = piece_open")
  case True
  then show ?thesis using inv unfolding lock_piece_def Let_def queue_of_def [symmetric] by simp
next
  case False
  note F = find_piece_ok [OF picker_invD(2) [OF inv] i False]
  have l: "snd (find_piece s i) < length (m_downloads s (queue_of s i))" using F(1) by (simp add: find_piece_pair)
  note T = touch_piece_ok [where G = unpass_lock, OF inv i False]
  obtain n where n: "lock_piece i s = (upd_dl (find_piece s i) unpass_lock s)\<lparr>m_num_passed := n\<rparr>"
    using lock_piece_eq [OF False l] by blast
  have mp: "m_piece_map (lock_piece i s) = m_piece_map s" unfolding n by simp
  have d: "find_piece (lock_piece i s) i = find_piece s i" "dl_at (lock_piece i s) (find_piece s i) = unpass_lock (dl_at s (find_piece s i))"
    using T unfolding n by (simp_all add: counts_follow_def unpass_lock_def)
  have "picker_inv (lock_piece i s)" using T(1) unfolding n by (simp add: counts_follow_def unpass_lock_def)
  moreover have "same_want s (lock_piece i s)" unfolding n by (rule same_want_trans [OF frame_want(2,4)])
  ultimately show ?thesis using False d mp
    by (simp add: has_piece_passed_def have_iff Let_def queue_of_def unpass_lock_def)
qed

section \<open>The ways back keep the invariant\<close>

lemma mark_as_canceled_ok:
  assumes inv: "picker_inv s" and v: "valid_block s b"
  shows "picker_inv (mark_as_canceled b peer s) \<and> same_want s (mark_as_canceled b peer s)
    \<and> (bi_state (block_of s b) = state_writing \<longrightarrow> back_to_none (mark_as_canceled b peer s) b)"
proof (cases "queue_of s (piece_index b) = piece_open")
  case True
  then show ?thesis using inv unfolding mark_as_canceled_def Let_def queue_open_iff by (simp add: back_to_none_def)
next
  case op: False
  let ?i = "piece_index b" and ?it = "find_piece s (piece_index b)"
  let ?k = "slot s ?i (block_index b)" and ?P = "\<lambda>b :: block_info. b\<lparr>bi_peer := peer\<rparr>"
  note I = picker_invD [OF inv]
  have B: "block_of s b = m_block_info s ! ?k" using block_of_slot [OF I(2) v op] by auto
  show ?thesis
  proof (cases "bi_state (block_of s b)")
    case state_writing
    let ?F = "\<lambda>b. (?P b)\<lparr>bi_state := state_none\<rparr>"
    obtain it' s' where u: "update_piece_state ?it (upd_block ?k ?F (upd_dl ?it dec_writing s)) = (it', s')" by fastforce
    have c: "counts_follow (dl_at s ?it) (dec_writing (dl_at s ?it)) block_state.state_writing state_none"
      using counts_follow_step(7) [OF I(2) v op refl state_writing] by simp
    note T = step_back_ok [where F = ?F and G = dec_writing, OF inv v op state_writing _ c u]
    have e: "upd_block ?k (\<lambda>b. b\<lparr>bi_state := state_none\<rparr>) (upd_dl ?it dec_writing (upd_block ?k ?P s))
        = upd_block ?k ?F (upd_dl ?it dec_writing s)" by (simp add: modify_normal)
    have "mark_as_canceled b peer s =
        (if dl_empty (dl_at s' it') then erase_and_sync (priority_of s' ?i) ?i it' s' else s')"
      using op state_writing unfolding mark_as_canceled_def Let_def queue_open_iff slot_of B [symmetric] e u by simp
    then show ?thesis using T by simp
  next
    case state_finished
    then have "mark_as_canceled b peer s = s"
      using op unfolding mark_as_canceled_def Let_def queue_open_iff slot_of B [symmetric] by simp
    then show ?thesis using inv state_finished by simp
  qed (use op touch_block_ok [where F = ?P, OF inv v op] in
      \<open>simp_all add: mark_as_canceled_def Let_def queue_open_iff slot_of B [symmetric]\<close>)
qed

lemma num_passed_block [simp]:
  "slot (s\<lparr>m_num_passed := x\<rparr>) = slot s" "block_of (s\<lparr>m_num_passed := x\<rparr>) = block_of s"
  "valid_block (s\<lparr>m_num_passed := x\<rparr>) = valid_block s"
  "upd_block k F (s\<lparr>m_num_passed := x\<rparr>) = (upd_block k F s)\<lparr>m_num_passed := x\<rparr>"
proof -
  have "same_dl s (s\<lparr>m_num_passed := x\<rparr>)" by (simp add: same_dl_def num_pieces_def)
  note D = same_dl_fields [OF this]
  show "slot (s\<lparr>m_num_passed := x\<rparr>) = slot s" "block_of (s\<lparr>m_num_passed := x\<rparr>) = block_of s"
    "valid_block (s\<lparr>m_num_passed := x\<rparr>) = valid_block s"
    using D by (simp_all add: slot_def block_of_def valid_block_def fun_eq_iff)
  show "upd_block k F (s\<lparr>m_num_passed := x\<rparr>) = (upd_block k F s)\<lparr>m_num_passed := x\<rparr>" by (simp add: upd_block_def)
qed

lemma write_failed_ok:
  assumes inv: "picker_inv s" and v: "valid_block s b" and nr: "bi_state (block_of s b) \<noteq> state_requested"
  shows "picker_inv (write_failed b s) \<and> same_want s (write_failed b s)
    \<and> (bi_state (block_of s b) = state_writing \<longrightarrow> back_to_none (write_failed b s) b)"
proof (cases "queue_of s (piece_index b) = piece_open")
  case True
  then show ?thesis using inv unfolding write_failed_def Let_def queue_open_iff by (simp add: back_to_none_def)
next
  case op: False
  let ?i = "piece_index b" and ?it = "find_piece s (piece_index b)"
  let ?k = "slot s ?i (block_index b)"
  have i: "?i < num_pieces s" using v by (simp add: valid_block_def)
  note I = picker_invD [OF inv]
  have ne: "find_dl_piece s (queue_of s ?i) ?i \<noteq> length (m_downloads s (queue_of s ?i))"
    using find_piece_ok(1) [OF I(2) i op] by (simp add: find_piece_pair)
  have B: "block_of s b = m_block_info s ! ?k" using block_of_slot [OF I(2) v op] by auto
  show ?thesis
  proof (cases "bi_state (block_of s b) = state_finished")
    case True
    then have "write_failed b s = s"
      using op ne unfolding write_failed_def Let_def queue_of_def [symmetric] queue_find slot_of B [symmetric] by simp
    then show ?thesis using inv True by simp
  next
    case nf: False
    define st where "st = bi_state (block_of s b)"
    let ?F = "\<lambda>b. b\<lparr>bi_peer := None, bi_state := state_none\<rparr>"
    define W where "W = (\<lambda>d. if st = state_writing then dec_writing d else d)"
    define G where "G = (\<lambda>d. unpass_lock (W d))"
    define s2 where "s2 = upd_block ?k ?F (upd_dl ?it W s)"
    have e2: "upd_block ?k ?F (if bi_state (block_of s b) = state_writing then upd_dl ?it dec_writing s else s) = s2"
      by (simp add: s2_def W_def st_def)
    obtain n where n: "upd_dl ?it (\<lambda>d. d\<lparr>dp_locked := True\<rparr>)
      (if dp_passed_hash_check (dl_at s2 ?it)
       then (upd_dl ?it (\<lambda>d. d\<lparr>dp_passed_hash_check := False\<rparr>) s2)\<lparr>m_num_passed := m_num_passed s2 - 1\<rparr> else s2)
     = (upd_dl ?it unpass_lock s2)\<lparr>m_num_passed := n\<rparr>" using unpass_lock_step by blast
    let ?s = "s\<lparr>m_num_passed := n\<rparr>"
    have e: "(upd_dl ?it unpass_lock s2)\<lparr>m_num_passed := n\<rparr>
        = upd_block (slot ?s ?i (block_index b)) ?F (upd_dl (find_piece ?s ?i) G ?s)"
      by (simp add: s2_def G_def modify_normal)
    obtain it' s' where u: "update_piece_state (find_piece ?s ?i)
        (upd_block (slot ?s ?i (block_index b)) ?F (upd_dl (find_piece ?s ?i) G ?s)) = (it', s')" by fastforce
    have st: "st = state_writing \<or> st = state_none" using nf nr by (cases st) (auto simp: st_def)
    have "counts_follow (dl_at s ?it) (W (dl_at s ?it)) st state_none"
      using counts_follow_step(7) [OF I(2) v op refl st_def [symmetric]] st by (auto simp: W_def)
    then have c: "counts_follow (dl_at ?s (find_piece ?s ?i)) (G (dl_at ?s (find_piece ?s ?i))) st state_none"
      by (simp add: G_def unpass_lock_def counts_follow_def)
    have pre: "picker_inv ?s" "valid_block ?s b" "queue_of ?s ?i \<noteq> piece_open" "bi_state (block_of ?s b) = st"
      using inv v op by (simp_all add: st_def)
    note T = step_back_ok [where F = ?F and G = G, OF pre _ c u]
    have "write_failed b s =
        (if dl_empty (dl_at s' it') then erase_and_sync (priority_of s' ?i) ?i it' s' else s')"
      using op ne nf u unfolding write_failed_def Let_def queue_of_def [symmetric] queue_find slot_of B [symmetric] e2 n e
      by simp
    then show ?thesis using T(1,2) same_want_trans [OF frame_want(4) T(3)] by simp
  qed
qed

lemma is_requested_iff:
  "is_requested s b \<longleftrightarrow> queue_of s (piece_index b) \<noteq> piece_open \<and> bi_state (block_of s b) = state_requested"
  by (simp add: is_requested_def queue_of_def)

lemma num_peers_eq: "queue_of s (piece_index b) \<noteq> piece_open \<Longrightarrow> num_peers s b = bi_num_peers (block_of s b)"
  by (simp add: num_peers_def downloading_iff)

lemma priority_of_upd [simp]: "priority_of (upd_dl it G s) = priority_of s" "priority_of (upd_block k F s) = priority_of s"
  by (rule same_order_fields(3), simp)+

lemma erase_priority_ge:
  assumes inv: "order_inv s" and core: "dl_core (queue_of s) s" and full: "full_ok s (\<lambda>j. j \<noteq> i)"
    and i: "i < num_pieces s" and op: "queue_of s i \<noteq> piece_open"
  shows "-1 \<le> priority_of (erase_download_piece (find_piece s i) s) i"
proof -
  note O = same_order_fields [OF dropped_order [of s i]]
  have "picker_ok (upd_pos i (\<lambda>p. p\<lparr>pp_state := piece_open\<rparr>) (dropped i s))"
    using picker_ok_nth [OF order_inv_ok [OF inv] i] order_inv_ok [OF inv] O
    by (intro picker_ok_upd_pos) (simp_all add: pos_ok_def)
  then have "picker_ok (erase_download_piece (find_piece s i) s)" using erase_download_piece_eq [OF core i op] by simp
  moreover have "i < num_pieces (erase_download_piece (find_piece s i) s)"
    using erase_download_piece_ok(3) [OF core full i op] i by simp
  ultimately show ?thesis by (rule priority_of_ge)
qed

lemma step_block_of:
  assumes inv: "picker_inv s" and v: "valid_block s b" and op: "queue_of s (piece_index b) \<noteq> piece_open"
    and d: "d = dl_at s (find_piece s (piece_index b))" and st: "bi_state (block_of s b) = st"
    and F: "\<And>x. bi_state (F x) = st'" and c: "counts_follow d (G d) st st'"
    and u: "update_piece_state (find_piece s (piece_index b))
        (upd_block (slot s (piece_index b) (block_index b)) F (upd_dl (find_piece s (piece_index b)) G s)) = (it', s')"
  shows "block_of s' b = F (block_of s b)"
proof -
  let ?i = "piece_index b" and ?k = "slot s (piece_index b) (block_index b)"
  have i: "?i < num_pieces s" and bl: "block_index b < blocks_in_piece s ?i" using v by (auto simp: valid_block_def)
  note I = picker_invD [OF inv]
  have B: "block_of s b = m_block_info s ! ?k" using block_of_slot [OF I(2) v op] by simp
  have c': "counts_follow d (G d) (bi_state (m_block_info s ! ?k)) (bi_state (F (m_block_info s ! ?k)))"
    using c st B F by simp
  have k: "?k = block_pos s d (block_index b)" by (simp add: slot_def d)
  note M = modify_update_ok [where F = F and G = G, OF I(1) I(2) I(4) i op bl d k c' u]
  have "length (blocks_for_piece s d) = blocks_in_piece s ?i" by (rule counts_bound(6) [OF I(2) i op d])
  then have "blocks_for_piece s' (G d) ! block_index b = F (m_block_info s ! ?k)" using M(12) bl by simp
  then show ?thesis using M(5,6) B by (simp add: block_of_def)
qed

lemma touch_block_of:
  assumes inv: "picker_inv s" and v: "valid_block s b" and op: "queue_of s (piece_index b) \<noteq> piece_open"
    and F: "\<And>x. bi_state (F x) = bi_state x"
  defines "S \<equiv> upd_block (slot s (piece_index b) (block_index b)) F s"
  shows "block_of S b = F (block_of s b)"
proof -
  note T = touch_ok [where F = F and G = "\<lambda>d. d", OF inv v op F, simplified, folded S_def]
  have v': "valid_block S b" using v by (simp add: valid_block_def S_def)
  note B = block_of_slot [OF picker_invD(2) [OF inv] v op]
  have "block_of S b = m_block_info S ! slot S (piece_index b) (block_index b)"
    using block_of_slot(1) [OF picker_invD(2) [OF T(1)] v'] op by (simp add: S_def)
  moreover have "slot S = slot s" by (rule T(6))
  ultimately show ?thesis using B by (simp add: S_def upd_block_def)
qed

lemma num_peers_open: "queue_of s (piece_index b) = piece_open \<Longrightarrow> num_peers s b = 0"
  by (simp add: num_peers_def downloading_iff)

lemma get_downloader_iff:
  "get_downloader s b = (if queue_of s (piece_index b) = piece_open \<or> bi_state (block_of s b) = state_none then None else bi_peer (block_of s b))"
  by (simp add: get_downloader_def queue_of_def)

lemma abort_download_ok:
  assumes inv: "picker_inv s" and v: "valid_block s b"
  shows "picker_inv (abort_download b peer s) \<and> same_want s (abort_download b peer s)
    \<and> (is_requested (abort_download b peer s) b \<longleftrightarrow> is_requested s b \<and> 1 < num_peers s b)
    \<and> num_peers (abort_download b peer s) b = (if is_requested s b then num_peers s b - 1 else num_peers s b)
    \<and> get_downloader (abort_download b peer s) b
        = (if is_requested s b \<and> (num_peers s b \<le> 1 \<or> get_downloader s b = peer) then None else get_downloader s b)"
proof (cases "is_requested s b")
  case False
  have "abort_download b peer s = s"
  proof (cases "queue_of s (piece_index b) = piece_open")
    case True
    then show ?thesis unfolding abort_download_def Let_def queue_open_iff by simp
  next
    case op: False
    have "block_of s b = m_block_info s ! slot s (piece_index b) (block_index b)"
      using block_of_slot [OF picker_invD(2) [OF inv] v op] by auto
    then have "bi_state (m_block_info s ! slot s (piece_index b) (block_index b)) \<noteq> state_requested"
      using False op by (simp add: is_requested_iff)
    then show ?thesis using op unfolding abort_download_def Let_def queue_open_iff slot_of by simp
  qed
  then show ?thesis using inv False by simp
next
  case True': True
  then have op: "queue_of s (piece_index b) \<noteq> piece_open" and st: "bi_state (block_of s b) = state_requested"
    by (auto simp: is_requested_iff)
  let ?i = "piece_index b" and ?it = "find_piece s (piece_index b)"
  let ?k = "slot s ?i (block_index b)"
  have i: "?i < num_pieces s" and bl: "block_index b < blocks_in_piece s ?i" using v by (auto simp: valid_block_def)
  note I = picker_invD [OF inv]
  have B: "block_of s b = m_block_info s ! ?k" "?k < length (m_block_info s)" using block_of_slot [OF I(2) v op] by auto
  define P where "P = (\<lambda>b :: block_info. (\<lambda>b. if bi_peer b = peer then b\<lparr>bi_peer := None\<rparr> else b)
      (b\<lparr>bi_num_peers := (if bi_num_peers b > 0 then bi_num_peers b - 1 else 0)\<rparr>))"
  define s2 where "s2 = upd_block ?k P s"
  have e2: "upd_block ?k (\<lambda>b. if bi_peer b = peer then b\<lparr>bi_peer := None\<rparr> else b)
      (upd_block ?k (\<lambda>b. b\<lparr>bi_num_peers := (if bi_num_peers b > 0 then bi_num_peers b - 1 else 0)\<rparr>) s) = s2"
    by (simp add: s2_def P_def upd_block_comp)
  have np: "bi_num_peers (m_block_info s2 ! ?k) > 0 \<longleftrightarrow> 1 < num_peers s b"
    using B by (auto simp: s2_def P_def upd_block_def num_peers_eq [OF op])
  show ?thesis
  proof (cases "1 < num_peers s b")
    case many: True
    then have "abort_download b peer s = s2"
      using op st np unfolding abort_download_def Let_def queue_open_iff slot_of e2 B(1) by simp
    moreover have "picker_inv s2" "queue_of s2 = queue_of s" "bi_state (block_of s2 b) = bi_state (block_of s b)" "same_want s s2"
      unfolding s2_def using touch_block_ok [where F = P, OF inv v op] by (simp_all add: P_def)
    moreover have "block_of s2 b = P (block_of s b)" unfolding s2_def by (rule touch_block_of [OF inv v op]) (simp add: P_def)
    moreover have "bi_num_peers (P x) = bi_num_peers x - 1" "bi_peer (P x) = (if bi_peer x = peer then None else bi_peer x)" for x
      by (simp_all add: P_def)
    ultimately show ?thesis using many True' st op by (simp add: is_requested_iff num_peers_eq get_downloader_iff)
  next
    case few: False
    let ?F = "\<lambda>x. (P x)\<lparr>bi_peer := None, bi_state := state_none\<rparr>"
    define s4 where "s4 = upd_block ?k ?F (upd_dl ?it dec_requested s)"
    have e4: "upd_dl ?it dec_requested (upd_block ?k (\<lambda>b. b\<lparr>bi_peer := None, bi_state := state_none\<rparr>) s2) = s4"
      by (simp add: s2_def s4_def modify_normal)
    have c0: "counts_follow (dl_at s ?it) (dec_requested (dl_at s ?it)) state_requested state_none"
      using counts_follow_step(5) [OF I(2) v op refl st] by simp
    have c: "counts_follow (dl_at s ?it) (dec_requested (dl_at s ?it)) (bi_state (m_block_info s ! ?k))
        (bi_state (?F (m_block_info s ! ?k)))" using c0 st B by simp
    have k: "?k = block_pos s (dl_at s ?it) (block_index b)" by (simp add: slot_def)
    note M = modify_block_ok [where F = ?F and G = dec_requested, OF I(2) I(4) i op bl refl k c, folded s4_def]
    have o4: "order_inv s4" "queue_of s4 = queue_of s" "num_pieces s4 = num_pieces s" "priority_of s4 = priority_of s"
      using I(1) by (simp_all add: s4_def)
    obtain it' s' where u: "update_piece_state ?it s4 = (it', s')" by fastforce
    have eq: "abort_download b peer s = (if dl_empty (dl_at s4 ?it) then
          let s5 = erase_download_piece ?it s4; prio = priority_of s5 ?i
          in if \<not> m_dirty s5 then
               (if priority_of s ?i = -1 \<and> prio \<ge> 0 then picker_add ?i s5
                else if priority_of s ?i \<ge> 0 then update_at (nat (priority_of s ?i)) ?i s5
                else s5)
             else s5
        else s')"
      using op st np few unfolding abort_download_def Let_def queue_open_iff slot_of e2 B(1) [symmetric] e4 u by simp
    show ?thesis
    proof (cases "dl_empty (dl_at s4 ?it)")
      case True
      have i4: "?i < num_pieces s4" and op4: "queue_of s4 ?i \<noteq> piece_open" using i op o4 by simp_all
      note E = erase_resync_ok(1,2,5) [OF o4(1) M(1,2) i4 op4, unfolded M(3) o4(4)]
      have "same_want s s4" unfolding s4_def by (rule same_want_trans [OF frame_want(2,3)])
      note sw = same_want_trans [OF this E(3)]
      let ?s5 = "erase_download_piece ?it s4"
      have ge: "-1 \<le> priority_of ?s5 ?i" "-1 \<le> priority_of s ?i"
        using erase_priority_ge [OF o4(1) M(1,2) i4 op4] M(3) priority_of_ge [OF order_inv_ok [OF I(1)] i] by simp_all
      have "abort_download b peer s = resync_state (priority_of s ?i) ?i ?s5"
        using eq True ge unfolding resync_state_def Let_def by (auto simp: not_le)
      then show ?thesis using E sw few True' by (simp add: is_requested_iff num_peers_open get_downloader_iff)
    next
      case False
      then have ne: "\<not> dl_empty (dec_requested (dl_at s ?it))" using M(4) by simp
      note T = step_block_ok [where F = ?F and G = dec_requested and st' = state_none, OF inv v op refl st _ c0, simplified,
          OF u [unfolded s4_def]]
      have "block_of s' b = ?F (block_of s b)"
        by (rule step_block_of [where G = dec_requested and st' = state_none, OF inv v op refl st _ c0 u [unfolded s4_def]]) simp
      moreover have "bi_num_peers (P x) = bi_num_peers x - 1" for x by (simp add: P_def)
      ultimately show ?thesis using eq False T(4) [OF ne] T(7,9,13) few True' op by (simp add: is_requested_iff num_peers_eq get_downloader_iff)
    qed
  qed
qed

text \<open>
  \<open>restore_piece\<close> with a list of blocks: each of them goes back to \<open>state_none\<close>, except those that
  are requested.
\<close>

definition restored :: "nat list \<Rightarrow> block_state list \<Rightarrow> block_state list" where
  "restored ks sts = map (\<lambda>k. if k \<in> set ks \<and> sts ! k \<noteq> state_requested then state_none else sts ! k) [0..<length sts]"

lemma length_restored [simp]: "length (restored ks sts) = length sts"
  by (simp add: restored_def)

lemma restored_Nil [simp]: "restored [] sts = sts"
  by (simp add: restored_def map_nth)

lemma restored_Cons:
  assumes "k < length sts"
  shows "restored (k # ks) sts = restored ks (if sts ! k = state_requested then sts else sts[k := state_none])"
  using assms by (auto simp: restored_def nth_list_update)

lemma restore_step:
  assumes core: "dl_core (queue_of s) s" and full: "full_ok s (\<lambda>j. j \<noteq> i)" and i: "i < num_pieces s"
    and op: "queue_of s i \<noteq> piece_open" and b: "b < blocks_in_piece s i" and st: "st = bi_state (m_block_info s ! slot s i b)"
    and nr: "st \<noteq> state_requested"
  defines "G \<equiv> (\<lambda>d. if st = state_writing then dec_writing d else if st = state_finished then dec_finished d else d)"
    and "F \<equiv> (\<lambda>x. x\<lparr>bi_peer := None, bi_state := state_none\<rparr>)"
  defines "S \<equiv> upd_block (slot s i b) F (upd_dl (find_piece s i) G s)"
  shows "dl_core (queue_of S) S" "full_ok S (\<lambda>j. j \<noteq> i)" "find_piece S = find_piece s"
    "dp_hashing (dl_at S (find_piece s i)) = dp_hashing (dl_at s (find_piece s i))"
    "map bi_state (blocks_for_piece S (dl_at S (find_piece s i)))
       = (map bi_state (blocks_for_piece s (dl_at s (find_piece s i))))[b := state_none]"
proof -
  let ?b = "\<lparr>piece_index = i, block_index = b\<rparr>" and ?d = "dl_at s (find_piece s i)"
  have v: "valid_block s ?b" using i b by (simp add: valid_block_def)
  have op': "queue_of s (piece_index ?b) \<noteq> piece_open" using op by simp
  have bs: "bi_state (block_of s ?b) = st" using block_of_slot(1) [OF core v op'] st by simp
  have d': "?d = dl_at s (find_piece s (piece_index ?b))" by simp
  have "counts_follow ?d (G ?d) st state_none"
    using counts_follow_step(7,8) [OF core v op' d' bs] nr by (cases st) (auto simp: G_def)
  then have c: "counts_follow ?d (G ?d) (bi_state (m_block_info s ! slot s i b)) (bi_state (F (m_block_info s ! slot s i b)))"
    using st by (simp add: F_def)
  note M = modify_block_ok [where F = F and G = G, OF core full i op b refl slot_def c, folded S_def]
  show "dl_core (queue_of S) S" "full_ok S (\<lambda>j. j \<noteq> i)" "find_piece S = find_piece s" by (fact M(1-3))+
  show "dp_hashing (dl_at S (find_piece s i)) = dp_hashing ?d"
    using M(4) by (simp add: G_def dec_writing_def dec_finished_def)
  show "map bi_state (blocks_for_piece S (dl_at S (find_piece s i))) = (map bi_state (blocks_for_piece s ?d))[b := state_none]"
    using M(4,5) by (simp add: map_update F_def)
qed

lemma restore_blocks_ok:
  assumes "dl_core (queue_of s) s" "full_ok s (\<lambda>j. j \<noteq> i)" "i < num_pieces s"
    "queue_of s i \<noteq> piece_open" "\<forall>b \<in> set ks. b < blocks_in_piece s i"
  defines "S \<equiv> restore_blocks (find_piece s i) ks s"
  shows "dl_core (queue_of S) S \<and> full_ok S (\<lambda>j. j \<noteq> i) \<and> find_piece S = find_piece s \<and> same_order s S
    \<and> dp_hashing (dl_at S (find_piece s i)) = dp_hashing (dl_at s (find_piece s i))
    \<and> blocks_in_piece S = blocks_in_piece s \<and> same_want s S
    \<and> map bi_state (blocks_for_piece S (dl_at S (find_piece s i)))
       = restored ks (map bi_state (blocks_for_piece s (dl_at s (find_piece s i))))"
  using assms(1-5) unfolding S_def
proof (induction ks arbitrary: s)
  case Nil
  then show ?case by simp
next
  case (Cons b ks)
  let ?d = "dl_at s (find_piece s i)" and ?b = "\<lparr>piece_index = i, block_index = b\<rparr>"
  define st where "st = bi_state (m_block_info s ! slot s i b)"
  have b: "b < blocks_in_piece s i" using Cons.prems(5) by simp
  have v: "valid_block s ?b" "queue_of s (piece_index ?b) \<noteq> piece_open"
    using Cons.prems(3,4) b by (simp_all add: valid_block_def)
  have bs: "bi_state (blocks_for_piece s ?d ! b) = st"
    using block_of_slot(1) [OF Cons.prems(1) v] by (simp add: block_of_def st_def)
  have l: "b < length (blocks_for_piece s ?d)" using counts_bound(6) [OF Cons.prems(1,3,4) refl] b by simp
  note eq = restore_blocks.simps(2) [of "find_piece s i" b ks s, unfolded Let_def slot_of, folded st_def]
  show ?case
  proof (cases "st = state_requested")
    case True
    then show ?thesis using Cons.IH [OF Cons.prems(1-4)] Cons.prems(5) eq restored_Cons l bs by simp
  next
    case False
    let ?G = "\<lambda>d. if st = state_writing then dec_writing d else if st = state_finished then dec_finished d else d"
    let ?F = "\<lambda>x. x\<lparr>bi_peer := None, bi_state := state_none\<rparr>"
    define S where "S = upd_block (slot s i b) ?F (upd_dl (find_piece s i) ?G s)"
    note R = restore_step [OF Cons.prems(1-4) b st_def False, folded S_def]
    have S: "num_pieces S = num_pieces s" "queue_of S = queue_of s" "blocks_in_piece S = blocks_in_piece s" "same_order s S"
      "same_want s S"
      using same_order_trans [OF same_order_upd(2) same_order_upd(3)] same_want_trans [OF frame_want(2,3)] by (simp_all add: S_def)
    have "upd_block (slot s i b) ?F (if st = state_writing then upd_dl (find_piece s i) dec_writing s
        else if st = state_finished then upd_dl (find_piece s i) dec_finished s else s) = S"
      by (simp add: S_def)
    then have eq': "restore_blocks (find_piece s i) (b # ks) s = restore_blocks (find_piece S i) ks S"
      using eq False R(3) by simp
    have "i < num_pieces S" "queue_of S i \<noteq> piece_open" "\<forall>b \<in> set ks. b < blocks_in_piece S i"
      using Cons.prems(3-5) S by simp_all
    note IH = Cons.IH [OF R(1,2) this]
    show ?thesis unfolding eq' using IH R(3-5) S same_order_trans [OF S(4)] same_want_trans [OF S(5)] restored_Cons [of b] l bs False by simp
  qed
qed

lemma filtered_unlisted: "pos_filtered p \<Longrightarrow> pos_priority sd p = -1"
  by (simp add: pos_priority_def)

text \<open>A piece none of whose blocks is open keeps its priority, unless a hash job holds it.\<close>

lemma update_keeps_priority:
  assumes inv: "order_inv s" and core: "dl_core (queue_of s) s"
    and i: "i < num_pieces s" and op: "queue_of s i \<noteq> piece_open"
    and u: "update_piece_state (find_piece s i) s = (it', s')"
    and z: "dl_open (dl_at s (find_piece s i)) = 0" "dp_hashing (dl_at s (find_piece s i)) = 0"
  shows "priority_of s' i = priority_of s i"
proof -
  let ?it = "find_piece s i"
  have di: "dp_index (dl_at s ?it) = i" by (rule find_piece_ok(2) [OF core i op])
  have po: "pp_state (m_piece_map s ! i) \<noteq> piece_open" using op by (simp add: queue_of_def download_queue_def)
  show ?thesis
  proof (cases "pos_filtered (m_piece_map s ! i)")
    case True
    obtain X st where "reorders (upd_pos i (\<lambda>p. p\<lparr>pp_state := st\<rparr>) (s\<lparr>m_downloads := X\<rparr>)) s'"
      using update_piece_state_shape [OF inv core i op u] by blast
    note R = reorders_pos(3) [OF this, of i]
    have "i < num_pieces (s\<lparr>m_downloads := X\<rparr>)" using i by (simp add: num_pieces_def)
    then have "pp_priority (m_piece_map s' ! i) = pp_priority (m_piece_map s ! i)" using R by (simp add: upd_pos_nth)
    then show ?thesis using True filtered_unlisted by (simp add: priority_of_def pos_filtered_def)
  next
    case False
    then have "next_state s (dl_at s ?it) = piece_open"
      using z di by (auto simp: next_state_def Let_def dl_open_def)
    then have "s' = s" using u di po by (auto simp: update_piece_state_def Let_def)
    then show ?thesis by simp
  qed
qed

text \<open>The state of block \<open>k\<close> of piece \<open>i\<close>.\<close>

definition state_of_block :: "picker \<Rightarrow> nat \<Rightarrow> nat \<Rightarrow> block_state" where
  "state_of_block s i k =
     (if queue_of s i = piece_open then state_none else bi_state (blocks_for_piece s (dl_at s (find_piece s i)) ! k))"

lemma restored_nth:
  assumes "dl_core (queue_of s) s" "i < num_pieces s" "queue_of s i \<noteq> piece_open" "k < blocks_in_piece s i"
  shows "restored ks (map bi_state (blocks_for_piece s (dl_at s (find_piece s i)))) ! k
    = (if k \<in> set ks \<and> state_of_block s i k \<noteq> state_requested then state_none else state_of_block s i k)"
  using assms(3,4) counts_bound(6) [OF assms(1-3) refl] by (simp add: restored_def state_of_block_def)

lemma open_zero_none:
  assumes "dl_core (queue_of s) s" "i < num_pieces s" "queue_of s i \<noteq> piece_open" "dl_open (dl_at s (find_piece s i)) = 0"
  shows "set (map bi_state (blocks_for_piece s (dl_at s (find_piece s i)))) \<subseteq> {state_none}"
proof -
  note C = counts_bound(3-5) [OF assms(1-3) refl]
  have "bi_state x = state_none" if "x \<in> set (blocks_for_piece s (dl_at s (find_piece s i)))" for x
    using that C assms(4) by (cases "bi_state x") (auto simp: dl_open_def count_state_def filter_empty_conv)
  then show ?thesis by auto
qed

lemma restore_blocks_state:
  assumes inv: "picker_inv s" and i: "i < num_pieces s" and op: "queue_of s i \<noteq> piece_open"
    and ks: "\<forall>b \<in> set ks. b < blocks_in_piece s i" and h: "dp_hashing (dl_at s (find_piece s i)) = 0"
    and u: "update_piece_state (find_piece s i) (restore_blocks (find_piece s i) ks s) = (it', s2)"
  defines "s' \<equiv> if dl_open (dl_at s2 it') = 0 then erase_and_sync (priority_of s i) i it' s2 else s2"
  shows "picker_inv s' \<and> same_want s s' \<and> (\<forall>k < blocks_in_piece s i. state_of_block s' i k
    = (if k \<in> set ks \<and> state_of_block s i k \<noteq> state_requested then state_none else state_of_block s i k))"
proof -
  define S where "S = restore_blocks (find_piece s i) ks s"
  note I = picker_invD [OF inv]
  let ?old = "map bi_state (blocks_for_piece s (dl_at s (find_piece s i)))"
  have R: "dl_core (queue_of S) S" "full_ok S (\<lambda>j. j \<noteq> i)" "find_piece S = find_piece s" "same_order s S"
    "dp_hashing (dl_at S (find_piece s i)) = 0" "map bi_state (blocks_for_piece S (dl_at S (find_piece s i))) = restored ks ?old"
    "same_want s S"
    using restore_blocks_ok [OF I(2,4) i op ks, folded S_def] h by auto
  note O = same_order_fields [OF R(4)]
  have SS: "order_inv S" "i < num_pieces S" "queue_of S i \<noteq> piece_open" using O I(1) i op by simp_all
  have u': "update_piece_state (find_piece S i) S = (it', s2)" using u R(3) by (simp add: S_def)
  note mv = update_piece_state_ok [OF SS(1) R(1,2) SS(2,3) u']
  have M: "order_inv s2" "dl_core (queue_of s2) s2" "full_ok s2 (\<lambda>j. j \<noteq> i)" "it' = find_piece s2 i"
    "dl_at s2 it' = dl_at S (find_piece S i)" "same_blocks S s2" "queue_of s2 i \<noteq> piece_open"
    using mv unfolding moved_def by blast+
  note SB = same_blocks_fields [OF M(6)]
  have sw: "same_want s s2" using same_want_trans [OF R(7) update_piece_state_want [OF SS(1) R(1) SS(2,3) u']] .
  have len: "length ?old = blocks_in_piece s i" using counts_bound(6) [OF I(2) i op refl] by simp
  note target = restored_nth [OF I(2) i op, of _ ks]
  show ?thesis
  proof (cases "dl_open (dl_at s2 it') = 0")
    case True
    have "priority_of s2 i = priority_of S i" by (rule update_keeps_priority [OF SS(1) R(1) SS(2,3) u'])
       (use True M(5) R(3,5) in \<open>simp_all add: dl_open_def\<close>)
    then have s': "s' = erase_and_sync (priority_of s2 i) i (find_piece s2 i) s2" using O(3) True M(4) by (simp add: s'_def)
    have "i < num_pieces s2" using SB SS(2) by simp
    note E = erase_resync_ok(3,4,6) [OF M(1-3) this M(7), folded s']
    have "set (restored ks ?old) \<subseteq> {state_none}"
      using open_zero_none [OF R(1) SS(2,3)] True M(5) R(3,6) by simp
    moreover have "k < length (restored ks ?old)" if "k < blocks_in_piece s i" for k using that len by simp
    ultimately have "restored ks ?old ! k = state_none" if "k < blocks_in_piece s i" for k using that by (meson nth_mem singletonD subsetD)
    moreover have "state_of_block s' i k = state_none" for k using E(2) by (simp add: state_of_block_def)
    ultimately show ?thesis using E(1) same_want_trans [OF sw E(3)] target by simp
  next
    case False
    then have "next_state S (dl_at S (find_piece S i)) \<noteq> piece_open"
      using M(5) by (auto simp: next_state_def dl_open_def Let_def)
    then have "picker_inv s2" using mv by (simp add: picker_inv_def dl_ok_def moved_def)
    moreover have new: "map bi_state (blocks_for_piece s2 (dl_at s2 (find_piece s2 i))) = restored ks ?old"
      using R(3,6) M(4,5) SB by simp
    have "state_of_block s2 i k = restored ks ?old ! k" if "k < blocks_in_piece s i" for k
      unfolding new [symmetric] using that M(7) arg_cong [OF new, of length] len by (simp add: state_of_block_def)
    ultimately show ?thesis using False sw target by (simp add: s'_def)
  qed
qed

lemma restore_piece_ok:
  assumes inv: "picker_inv s" and i: "i < num_pieces s" and ks: "\<forall>b \<in> set ks. b < blocks_in_piece s i"
    and h: "\<not> is_hashing s i"
  defines "s' \<equiv> restore_piece i ks s"
  shows "picker_inv s' \<and> same_want s s' \<and> (\<forall>k < blocks_in_piece s i. state_of_block s' i k
    = (if ks = [] \<or> k \<in> set ks \<and> state_of_block s i k \<noteq> state_requested then state_none else state_of_block s i k))"
proof (cases "queue_of s i = piece_open")
  case True
  then have "s' = s" unfolding s'_def restore_piece_def Let_def queue_open_iff by simp
  then show ?thesis using inv True by (simp add: state_of_block_def)
next
  case op: False
  define s1 where "s1 = upd_dl (find_piece s i) (\<lambda>d. d\<lparr>dp_locked := False\<rparr>) s"
  note T = touch_piece_ok [where G = "\<lambda>d. d\<lparr>dp_locked := False\<rparr>", OF inv i op, folded s1_def]
  have S1: "picker_inv s1" "find_piece s1 = find_piece s" "queue_of s1 = queue_of s" "num_pieces s1 = num_pieces s"
    "dl_at s1 (find_piece s i) = (dl_at s (find_piece s i))\<lparr>dp_locked := False\<rparr>" "blocks_in_piece s1 = blocks_in_piece s"
    "same_want s s1"
    using T by (simp_all add: counts_follow_def) (simp_all add: s1_def)
  have "blocks_for_piece s1 (dl_at s1 (find_piece s i)) = blocks_for_piece s (dl_at s (find_piece s i))"
    using S1(5) by (simp add: s1_def) (simp add: blocks_for_piece_def)
  then have bs: "state_of_block s1 i = state_of_block s i" using S1(2,3) by (simp add: state_of_block_def fun_eq_iff)
  note I = picker_invD [OF S1(1)]
  have i1: "i < num_pieces s1" and op1: "queue_of s1 i \<noteq> piece_open" using i op S1 by simp_all
  show ?thesis
  proof (cases "ks = []")
    case True
    have "s' = erase_and_sync (priority_of s1 i) i (find_piece s1 i) s1"
      using op True S1(2) unfolding s'_def restore_piece_def Let_def queue_open_iff s1_def [symmetric] by simp
    then show ?thesis using erase_resync_ok(3,4) [OF I(1,2,4) i1 op1] same_want_trans [OF S1(7) erase_resync_ok(6) [OF I(1,2,4) i1 op1]] True
      by (simp add: state_of_block_def)
  next
    case ne: False
    obtain it' s2 where u: "update_piece_state (find_piece s1 i) (restore_blocks (find_piece s1 i) ks s1) = (it', s2)" by fastforce
    have "dp_hashing (dl_at s1 (find_piece s1 i)) = 0" using h op S1(2,5) unfolding is_hashing_def queue_open_iff by simp
    note R = restore_blocks_state [OF S1(1) i1 op1 _ this u, unfolded S1(6), OF ks]
    have "s' = (if dl_open (dl_at s2 it') = 0 then erase_and_sync (priority_of s1 i) i it' s2 else s2)"
      using op ne u S1(2) unfolding s'_def restore_piece_def Let_def queue_open_iff s1_def [symmetric] by simp
    then show ?thesis using R same_want_trans [OF S1(7)] ne unfolding bs by simp
  qed
qed

end
