(* ===== verification/Picker_Tally.thy ===== *)
theory Picker_Tally
  imports Picker_Requests
begin

text \<open>
  The counters and cursors that follow which pieces we have and want, the invariant that ties
  them to the piece map, and \<open>we_have\<close>, which every completed download ends in.
\<close>

section \<open>Cursors\<close>

definition cursor_ok :: "picker \<Rightarrow> bool" where
  "cursor_ok s \<longleftrightarrow> m_cursor s = advance_cursor (m_piece_map s) 0
     \<and> m_reverse_cursor s = retreat_cursor (m_piece_map s) (num_pieces s)"

lemma advance_cursor_spec:
  "c \<le> advance_cursor mp c \<and> (c \<le> length mp \<longrightarrow> advance_cursor mp c \<le> length mp)
   \<and> (\<forall>i. c \<le> i \<and> i < advance_cursor mp c \<longrightarrow> skip_piece (mp ! i))
   \<and> (advance_cursor mp c < length mp \<longrightarrow> \<not> skip_piece (mp ! advance_cursor mp c))"
proof (induction mp c rule: advance_cursor.induct)
  case (1 mp c)
  show ?case
  proof (cases "c < length mp \<and> skip_piece (mp ! c)")
    case True
    have "skip_piece (mp ! i)" if "c \<le> i" "i < advance_cursor mp (c + 1)" for i
      using that 1 [OF True] True by (cases "i = c") auto
    then show ?thesis using 1 [OF True] True by (subst (1 2 3 4 5) advance_cursor.simps) auto
  next
    case False
    then show ?thesis by (subst (1 2 3 4 5) advance_cursor.simps) auto
  qed
qed

lemma advance_cursor_eqI:
  assumes "c \<le> d" "d \<le> length mp" "\<And>i. c \<le> i \<Longrightarrow> i < d \<Longrightarrow> skip_piece (mp ! i)" "d < length mp \<Longrightarrow> \<not> skip_piece (mp ! d)"
  shows "advance_cursor mp c = d"
  using advance_cursor_spec [of c mp] assms by (metis dual_order.strict_trans2 linorder_neqE_nat order.trans order.order_iff_strict)

lemma retreat_cursor_spec:
  "retreat_cursor mp c \<le> c \<and> (\<forall>i. retreat_cursor mp c \<le> i \<and> i < c \<longrightarrow> skip_piece (mp ! i))
   \<and> (0 < retreat_cursor mp c \<longrightarrow> \<not> skip_piece (mp ! (retreat_cursor mp c - 1)))"
  by (induction mp c rule: retreat_cursor.induct) (auto simp: less_Suc_eq)

lemma retreat_cursor_eqI:
  assumes "d \<le> c" "\<And>i. d \<le> i \<Longrightarrow> i < c \<Longrightarrow> skip_piece (mp ! i)" "0 < d \<Longrightarrow> \<not> skip_piece (mp ! (d - 1))"
  shows "retreat_cursor mp c = d"
proof (rule ccontr)
  assume ne: "retreat_cursor mp c \<noteq> d"
  show False
  proof (cases "retreat_cursor mp c < d")
    case True
    then show False using retreat_cursor_spec [of mp c] assms(1,3) by (auto dest!: spec [of _ "d - 1"])
  next
    case False
    then have "d \<le> retreat_cursor mp c - 1" "0 < retreat_cursor mp c" using ne by linarith+
    moreover have "retreat_cursor mp c - 1 < c" using calculation(2) retreat_cursor_spec [of mp c] by linarith
    ultimately show False using retreat_cursor_spec [of mp c] assms(2) [of "retreat_cursor mp c - 1"] by blast
  qed
qed

text \<open>A wanted piece lies between the cursors.\<close>

lemma cursor_okD:
  assumes "cursor_ok s"
  shows "m_cursor s \<le> num_pieces s" "m_reverse_cursor s \<le> num_pieces s"
    "\<And>i. i < m_cursor s \<Longrightarrow> skip_piece (m_piece_map s ! i)" "\<And>i. m_reverse_cursor s \<le> i \<Longrightarrow> i < num_pieces s \<Longrightarrow> skip_piece (m_piece_map s ! i)"
    "m_cursor s < num_pieces s \<Longrightarrow> \<not> skip_piece (m_piece_map s ! m_cursor s)"
    "0 < m_reverse_cursor s \<Longrightarrow> \<not> skip_piece (m_piece_map s ! (m_reverse_cursor s - 1))"
  using assms advance_cursor_spec [of 0 "m_piece_map s"] retreat_cursor_spec [of "m_piece_map s" "num_pieces s"]
  by (auto simp: cursor_ok_def num_pieces_def)

lemma cursor_okI:
  assumes "m_cursor s \<le> num_pieces s" "m_reverse_cursor s \<le> num_pieces s"
    "\<And>i. i < m_cursor s \<Longrightarrow> skip_piece (m_piece_map s ! i)" "\<And>i. m_reverse_cursor s \<le> i \<Longrightarrow> i < num_pieces s \<Longrightarrow> skip_piece (m_piece_map s ! i)"
    "m_cursor s < num_pieces s \<Longrightarrow> \<not> skip_piece (m_piece_map s ! m_cursor s)"
    "0 < m_reverse_cursor s \<Longrightarrow> \<not> skip_piece (m_piece_map s ! (m_reverse_cursor s - 1))"
  shows "cursor_ok s"
  unfolding cursor_ok_def using assms
  by (auto simp: num_pieces_def intro!: advance_cursor_eqI [symmetric] retreat_cursor_eqI [symmetric])

text \<open>Piece \<open>i\<close> is not to be downloaded any more; the others are as before.\<close>

definition excludes :: "nat \<Rightarrow> piece_pos list \<Rightarrow> picker \<Rightarrow> bool" where
  "excludes i mp s \<longleftrightarrow> length mp = num_pieces s \<and> i < num_pieces s \<and> skip_piece (mp ! i)
     \<and> (\<forall>j < num_pieces s. j \<noteq> i \<longrightarrow> skip_piece (mp ! j) = skip_piece (m_piece_map s ! j))"

lemma excludes_advance:
  assumes "cursor_ok s" "excludes i mp s" "m_cursor s \<noteq> i"
  shows "advance_cursor mp 0 = m_cursor s"
proof (rule advance_cursor_eqI)
  note C = cursor_okD [OF assms(1)]
  show "skip_piece (mp ! j)" if "j < m_cursor s" for j
    using that C(1,3) assms(2) by (cases "j = i") (auto simp: excludes_def)
  show "m_cursor s \<le> length mp" "m_cursor s < length mp \<Longrightarrow> \<not> skip_piece (mp ! m_cursor s)"
    using C(1,5) assms(2,3) by (auto simp: excludes_def)
qed simp

lemma excludes_retreat:
  assumes "cursor_ok s" "excludes i mp s" "m_reverse_cursor s \<noteq> i + 1"
  shows "retreat_cursor mp (num_pieces s) = m_reverse_cursor s"
proof (rule retreat_cursor_eqI)
  note C = cursor_okD [OF assms(1)]
  show "\<not> skip_piece (mp ! (m_reverse_cursor s - 1))" if "0 < m_reverse_cursor s"
    using that C(2,6) assms(2,3) unfolding excludes_def by (auto dest!: spec [of _ "m_reverse_cursor s - 1"])
  show "skip_piece (mp ! j)" if "m_reverse_cursor s \<le> j" "j < num_pieces s" for j
    using that C(4) assms(2) by (cases "j = i") (auto simp: excludes_def)
  show "m_reverse_cursor s \<le> num_pieces s" by (rule C(2))
qed

lemma excludes_first:
  assumes ok: "cursor_ok s" and ex: "excludes i mp s" and c: "m_cursor s = i"
    and mp': "length mp' = num_pieces s" "\<And>j. j < num_pieces s \<Longrightarrow> j \<noteq> i \<Longrightarrow> mp' ! j = m_piece_map s ! j"
  shows "advance_cursor mp 0 = advance_cursor mp' (i + 1)"
proof (rule advance_cursor_eqI)
  note C = cursor_okD [OF ok] and A = advance_cursor_spec [of "i + 1" mp']
  have sk: "skip_piece (mp ! j) = skip_piece (mp' ! j)" if "j < num_pieces s" "j \<noteq> i" for j
    using that mp'(2) ex by (simp add: excludes_def)
  have l: "length mp = num_pieces s" "i < num_pieces s" using ex by (simp_all add: excludes_def)
  show "skip_piece (mp ! j)" if "j < advance_cursor mp' (i + 1)" for j
  proof (cases "j \<le> i")
    case True
    then show ?thesis using C(3) [of j] ex c by (cases "j = i") (auto simp: excludes_def)
  next
    case False
    then have "j < num_pieces s" using that A l mp'(1) by auto
    then show ?thesis using A that False sk by auto
  qed
  show "advance_cursor mp' (i + 1) \<le> length mp" "advance_cursor mp' (i + 1) < length mp \<Longrightarrow> \<not> skip_piece (mp ! advance_cursor mp' (i + 1))"
    using A l mp'(1) sk by auto
qed simp

lemma excludes_last:
  assumes ok: "cursor_ok s" and ex: "excludes i mp s" and r: "m_reverse_cursor s = i + 1"
    and mp': "\<And>j. j < num_pieces s \<Longrightarrow> j \<noteq> i \<Longrightarrow> mp' ! j = m_piece_map s ! j"
  shows "retreat_cursor mp (num_pieces s) = retreat_cursor mp' i"
proof (rule retreat_cursor_eqI)
  note C = cursor_okD [OF ok] and A = retreat_cursor_spec [of mp' i]
  have sk: "skip_piece (mp ! j) = skip_piece (mp' ! j)" if "j < num_pieces s" "j \<noteq> i" for j
    using that mp' ex by (simp add: excludes_def)
  have l: "i < num_pieces s" "skip_piece (mp ! i)" using ex by (simp_all add: excludes_def)
  show "skip_piece (mp ! j)" if "retreat_cursor mp' i \<le> j" "j < num_pieces s" for j
    using that A C(4) [of j] ex sk [of j] l r by (cases "j < i"; cases "j = i") (auto simp: excludes_def)
  show "retreat_cursor mp' i \<le> num_pieces s" "0 < retreat_cursor mp' i \<Longrightarrow> \<not> skip_piece (mp ! (retreat_cursor mp' i - 1))"
    using A l sk by auto
qed

lemma cursors_exclude_ok:
  assumes ok: "cursor_ok s" and ex: "excludes i mp s"
    and mp': "length mp' = num_pieces s" "\<And>j. j < num_pieces s \<Longrightarrow> j \<noteq> i \<Longrightarrow> mp' ! j = m_piece_map s ! j"
  defines "S \<equiv> cursors_exclude i (s\<lparr>m_piece_map := mp'\<rparr>)"
  shows "m_cursor S = advance_cursor mp 0 \<and> m_reverse_cursor S = retreat_cursor mp (num_pieces s)"
proof (cases "m_cursor s + 1 = m_reverse_cursor s \<and> m_cursor s = i")
  case True
  note C = cursor_okD [OF ok]
  have all: "skip_piece (mp ! j)" if "j < num_pieces s" for j
    using that C(3) [of j] C(4) [of j] ex True by (cases "j = i"; cases "j < i") (auto simp: excludes_def)
  have "advance_cursor mp 0 = num_pieces s" "retreat_cursor mp (num_pieces s) = 0"
    using all ex by (auto intro!: advance_cursor_eqI retreat_cursor_eqI simp: excludes_def)
  then show ?thesis using True mp'(1) by (simp add: S_def cursors_exclude_def num_pieces_def)
next
  case False
  then show ?thesis
    using excludes_advance [OF ok ex] excludes_retreat [OF ok ex] excludes_first [OF ok ex _ mp'] excludes_last [OF ok ex _ mp'(2)]
    by (auto simp: S_def cursors_exclude_def)
qed

lemma cursors_include_ok:
  assumes ok: "cursor_ok s" and n: "length mp = num_pieces s"
    and eq: "\<And>j. j < num_pieces s \<Longrightarrow> j \<noteq> i \<Longrightarrow> skip_piece (mp ! j) = skip_piece (m_piece_map s ! j)"
    and i: "i < num_pieces s" "\<not> skip_piece (mp ! i)"
  shows "m_cursor (cursors_include i s) = advance_cursor mp 0"
    "m_reverse_cursor (cursors_include i s) = retreat_cursor mp (num_pieces s)"
proof -
  note C = cursor_okD [OF ok]
  define c where "c = (if i < m_cursor s then i else m_cursor s)"
  define r where "r = (if i \<ge> m_reverse_cursor s then i + 1 else m_reverse_cursor s)"
  have lt: "c \<le> i" "i < r" using C(5) by (auto simp: c_def r_def)
  have "m_cursor (cursors_include i s) = c" "m_reverse_cursor (cursors_include i s) = r"
    using lt by (auto simp: cursors_include_def c_def r_def Let_def)
  moreover have "advance_cursor mp 0 = c"
  proof (rule advance_cursor_eqI)
    show "skip_piece (mp ! j)" if "j < c" for j
      using that C(1,3) eq [of j] lt i(1) by (auto simp: c_def split: if_splits)
    show "\<not> skip_piece (mp ! c)" using C(5) eq [of c] i lt by (cases "c = i") (auto simp: c_def split: if_splits)
  qed (use lt i n in auto)
  moreover have "retreat_cursor mp (num_pieces s) = r"
  proof (rule retreat_cursor_eqI)
    show "r \<le> num_pieces s" using C(2) i(1) by (auto simp: r_def)
    show "skip_piece (mp ! j)" if "r \<le> j" "j < num_pieces s" for j
      using that C(4) eq [of j] lt by (auto simp: r_def split: if_splits)
    show "\<not> skip_piece (mp ! (r - 1))"
      using C(2,6) eq [of "r - 1"] i(2) lt by (cases "r - 1 = i") (auto simp: r_def split: if_splits)
  qed
  ultimately show "m_cursor (cursors_include i s) = advance_cursor mp 0"
    "m_reverse_cursor (cursors_include i s) = retreat_cursor mp (num_pieces s)" by simp_all
qed

section \<open>Counters\<close>

text \<open>The weight of the pieces that satisfy a predicate: their number or their pad bytes.\<close>

definition tally :: "(nat \<Rightarrow> int) \<Rightarrow> (piece_pos \<Rightarrow> bool) \<Rightarrow> piece_pos list \<Rightarrow> int" where
  "tally w P mp = sum_list (map (\<lambda>i. if P (mp ! i) then w i else 0) [0..<length mp])"

abbreviation lacks :: "piece_pos \<Rightarrow> bool" where
  "lacks p \<equiv> pos_filtered p \<and> \<not> pos_have p"

abbreviation has_filtered :: "piece_pos \<Rightarrow> bool" where
  "has_filtered p \<equiv> pos_filtered p \<and> pos_have p"

abbreviation pads :: "picker \<Rightarrow> nat \<Rightarrow> int" where
  "pads s i \<equiv> int (pad_bytes_in_piece s i)"

definition tally_ok :: "picker \<Rightarrow> bool" where
  "tally_ok s \<longleftrightarrow>
     m_num_have s = tally (\<lambda>_. 1) pos_have (m_piece_map s)
     \<and> m_num_filtered s = tally (\<lambda>_. 1) lacks (m_piece_map s)
     \<and> m_num_have_filtered s = tally (\<lambda>_. 1) has_filtered (m_piece_map s)
     \<and> m_num_pad_bytes s = tally (pads s) (\<lambda>_. True) (m_piece_map s)
     \<and> m_have_pad_bytes s = tally (pads s) pos_have (m_piece_map s)
     \<and> m_filtered_pad_bytes s = tally (pads s) lacks (m_piece_map s)
     \<and> m_have_filtered_pad_bytes s = tally (pads s) has_filtered (m_piece_map s)"

lemma tally_sum: "tally w P mp = (\<Sum>i<length mp. if P (mp ! i) then w i else 0)"
  by (simp add: tally_def atLeast0LessThan [symmetric] interv_sum_list_conv_sum_set_nat)

lemma tally_cong:
  assumes "length mp' = length mp" "\<And>i. i < length mp \<Longrightarrow> P (mp' ! i) = P (mp ! i)" "\<And>i. i < length mp \<Longrightarrow> w' i = w i"
  shows "tally w' P mp' = tally w P mp"
  unfolding tally_sum assms(1) using assms(2,3) by (intro sum.cong) auto

lemma tally_upd:
  assumes "i < length mp"
  shows "tally w P (mp[i := p]) = tally w P mp - (if P (mp ! i) then w i else 0) + (if P p then w i else 0)"
proof -
  have r: "(\<Sum>j<length mp. f j) = f i + (\<Sum>j\<in>{..<length mp} - {i}. f j)" for f :: "nat \<Rightarrow> int"
    using assms by (intro sum.remove) auto
  have "(\<Sum>j\<in>{..<length mp} - {i}. if P (mp[i := p] ! j) then w j else 0) = (\<Sum>j\<in>{..<length mp} - {i}. if P (mp ! j) then w j else 0)"
    by (intro sum.cong) auto
  then show ?thesis unfolding tally_sum length_list_update using assms r by simp
qed

lemma same_want_tally:
  assumes "same_want s s'"
  shows "tally_ok s' = tally_ok s"
proof -
  have T: "tally w P (m_piece_map s') = tally w P (m_piece_map s)"
    if P: "\<And>p p'. pos_have p = pos_have p' \<Longrightarrow> pp_priority p = pp_priority p' \<Longrightarrow> P p = P p'" for w P
  proof (rule tally_cong)
    show "length (m_piece_map s') = length (m_piece_map s)" using assms by (simp add: same_want_def num_pieces_def)
    show "P (m_piece_map s' ! j) = P (m_piece_map s ! j)" if "j < length (m_piece_map s)" for j
      using that assms by (intro P) (simp_all add: same_want_def num_pieces_def)
  qed simp
  have "tally w pos_have (m_piece_map s') = tally w pos_have (m_piece_map s)"
    "tally w lacks (m_piece_map s') = tally w lacks (m_piece_map s)"
    "tally w has_filtered (m_piece_map s') = tally w has_filtered (m_piece_map s)"
    "tally w (\<lambda>_. True) (m_piece_map s') = tally w (\<lambda>_. True) (m_piece_map s)" for w
    by (rule T, simp add: pos_filtered_def)+
  moreover have "pads s' = pads s" using assms by (simp add: same_want_def pad_bytes_in_piece_def fun_eq_iff)
  ultimately show ?thesis using assms unfolding tally_ok_def same_want_def by simp
qed

lemma same_want_cursor:
  assumes "same_want s s'"
  shows "cursor_ok s' = cursor_ok s"
proof -
  have sk: "skip_piece (m_piece_map s' ! j) = skip_piece (m_piece_map s ! j)" if "j < num_pieces s" for j
    using that assms by (simp add: same_want_def skip_piece_def pos_filtered_def)
  have l: "length (m_piece_map s') = num_pieces s" "length (m_piece_map s) = num_pieces s"
    using assms by (simp_all add: same_want_def num_pieces_def)
  have a: "advance_cursor (m_piece_map s') 0 = advance_cursor (m_piece_map s) 0"
    using advance_cursor_spec [of 0 "m_piece_map s"] sk l by (intro advance_cursor_eqI) auto
  have r: "retreat_cursor (m_piece_map s') (num_pieces s) = retreat_cursor (m_piece_map s) (num_pieces s)"
  proof (rule retreat_cursor_eqI)
    note R = retreat_cursor_spec [of "m_piece_map s" "num_pieces s"]
    show "\<not> skip_piece (m_piece_map s' ! (retreat_cursor (m_piece_map s) (num_pieces s) - 1))"
      if "0 < retreat_cursor (m_piece_map s) (num_pieces s)"
    proof -
      have "retreat_cursor (m_piece_map s) (num_pieces s) - 1 < num_pieces s" using that R by linarith
      from sk [OF this] show ?thesis using that R by blast
    qed
  qed (use retreat_cursor_spec [of "m_piece_map s" "num_pieces s"] sk in auto)
  show ?thesis using assms a r by (simp add: cursor_ok_def same_want_def)
qed

section \<open>Taking a piece off the list\<close>

text \<open>A piece that is not in the list may change in any way; the list is then right but for it.\<close>

lemma unlisted_change:
  assumes inv: "order_inv s" and i: "i < num_pieces s" and S: "same_order (upd_pos i f s) S"
    and clean: "\<not> m_dirty s" and pr: "priority_of s i = -1"
  shows "pick_list_for ((priority_of S)(i := -1)) S"
proof -
  note O = same_order_fields [OF S]
  obtain bs where rep: "buckets_rep (m_piece_map s) (m_pieces S) (m_priority_boundaries S) (priority_of s) bs"
    using inv clean S by (auto simp: order_inv_iff pick_list_for_def same_order_def)
  have len: "length (m_piece_map S) = length (m_piece_map s)" using O(1) by (simp add: upd_pos_def)
  have nm: "i \<notin> set (m_pieces S)" using buckets_rep_mem [OF rep, of i] pr i by (simp add: num_pieces_def)
  have "m_piece_map S ! j = m_piece_map s ! j" if "j \<in> set (m_pieces S)" for j
    using that nm O(1) by (cases "j = i") (simp_all add: upd_pos_def)
  then have "indexed (m_piece_map S) 0 (m_pieces S)"
    using buckets_repD(5) [OF rep] len by (subst indexed_cong [of _ "m_piece_map s"]) auto
  then have "buckets_rep (m_piece_map S) (m_pieces S) (m_priority_boundaries S) (priority_of s) bs"
    using rep unfolding buckets_rep_def len by blast
  then have l: "pick_list_for (priority_of s) S" unfolding pick_list_for_def by blast
  have "priority_of s j = ((priority_of S)(i := -1)) j" if "j < num_pieces S" for j
    using that pr O(2,3) by (auto simp: priority_of_def upd_pos_nth)
  then show ?thesis using l pick_list_for_cong by blast
qed

lemma unlist_piece_ok:
  assumes inv: "order_inv s" and i: "i < num_pieces s" and S: "same_order (upd_pos i f s) S"
    and pr: "pos_priority (m_seeds s) (f (m_piece_map s ! i)) = -1" and ok: "pos_ok (f (m_piece_map s ! i))"
  defines "X \<equiv> (if priority_of s i = -1 then S else if m_dirty S then S
      else picker_remove (nat (priority_of s i)) (the (pp_index (m_piece_map s ! i))) S)"
  shows "order_inv X \<and> reorders S X"
proof -
  note O = same_order_fields [OF S]
  have okS: "picker_ok S" using O(4) picker_ok_upd_pos [of s i f] order_inv_ok [OF inv] ok by simp
  have nS: "num_pieces S = num_pieces s" "m_dirty S = m_dirty s" using O by simp_all
  have prS: "priority_of S i = -1" using O(3) pr i by (simp add: priority_of_def upd_pos_nth)
  define g where "g = (\<lambda>p. (f p)\<lparr>pp_index := pp_index (m_piece_map s ! i)\<rparr>)"
  have prj: "priority_of (upd_pos i g s) j = priority_of S j" if "j < num_pieces s" "j \<noteq> i" for j
    using that O(3) by (simp add: priority_of_def upd_pos_nth)
  show ?thesis
  proof (cases "m_dirty s")
    case True
    then show ?thesis using okS nS by (simp add: X_def order_inv_iff)
  next
    case clean: False
    then have "pick_list_for (priority_of s) s" using inv by (simp add: order_inv_iff)
    from pick_list_upd_pos [where f = g, OF this i]
    have "pick_list_for ((priority_of (upd_pos i g s))(i := priority_of s i)) (upd_pos i g s)" by (simp add: g_def)
    moreover have "((priority_of (upd_pos i g s))(i := priority_of s i)) j = ((priority_of S)(i := priority_of s i)) j"
      if "j < num_pieces (upd_pos i g s)" for j using prj that by auto
    ultimately have "pick_list_for ((priority_of S)(i := priority_of s i)) (upd_pos i g s)"
      by (subst pick_list_for_cong [of _ _ "(priority_of (upd_pos i g s))(i := priority_of s i)"]) simp_all
    then obtain bs where rep: "buckets_rep (m_piece_map (upd_pos i g s)) (m_pieces S) (m_priority_boundaries S)
        ((priority_of S)(i := priority_of s i)) bs"
      using S by (auto simp: pick_list_for_def same_order_def)
    have len: "length (m_piece_map S) = length (m_piece_map (upd_pos i g s))" using O(1) by (simp add: upd_pos_def)
    show ?thesis
    proof (cases "priority_of s i = -1")
      case True
      have "(priority_of S)(i := -1) = priority_of S" using prS by auto
      then have "pick_list_for (priority_of S) S" using unlisted_change [OF inv i S clean True] by simp
      then show ?thesis using True okS by (simp add: X_def order_inv_iff)
    next
      case listed: False
      then have ge: "0 \<le> priority_of s i" using priority_of_ge [OF order_inv_ok [OF inv] i] by simp
      have "i \<in> set (m_pieces S)" using buckets_rep_mem [OF rep, of i] ge i len nS by (simp add: num_pieces_def)
      then obtain e where e: "pp_index (m_piece_map (upd_pos i g s) ! i) = Some e"
        using buckets_repD(5) [OF rep] by (auto simp: indexed_nth in_set_conv_nth)
      then have e': "pp_index (m_piece_map s ! i) = Some e" using i by (simp add: upd_pos_nth g_def)
      have "m_piece_map (upd_pos i g s) = set_index (m_piece_map S) i e"
        using O(1) e' i by (simp add: set_index_def upd_pos_def g_def num_pieces_def)
      then have "pick_list_for (priority_of S) (picker_remove (nat (priority_of s i)) e S)
          \<and> reorders S (picker_remove (nat (priority_of s i)) e S)"
        using remove_ok [of S i e "nat (priority_of s i)" bs] rep ge i nS prS by simp
      moreover have "X = picker_remove (nat (priority_of s i)) e S" using listed clean e' nS by (simp add: X_def)
      ultimately show ?thesis unfolding order_inv_iff using okS reorders_picker_ok pick_list_reorders by blast
    qed
  qed
qed

lemma cursors_exclude_frame [simp]:
  "m_piece_map (cursors_exclude i s) = m_piece_map s" "m_pads_in_piece (cursors_exclude i s) = m_pads_in_piece s"
  "m_num_have (cursors_exclude i s) = m_num_have s" "m_num_filtered (cursors_exclude i s) = m_num_filtered s"
  "m_num_have_filtered (cursors_exclude i s) = m_num_have_filtered s" "m_num_pad_bytes (cursors_exclude i s) = m_num_pad_bytes s"
  "m_have_pad_bytes (cursors_exclude i s) = m_have_pad_bytes s" "m_filtered_pad_bytes (cursors_exclude i s) = m_filtered_pad_bytes s"
  "m_have_filtered_pad_bytes (cursors_exclude i s) = m_have_filtered_pad_bytes s" "m_num_passed (cursors_exclude i s) = m_num_passed s"
  "same_dl s (cursors_exclude i s)" "same_order s (cursors_exclude i s)"
  by (auto simp: cursors_exclude_def same_dl_def same_order_def num_pieces_def)

lemma cursors_include_frame [simp]:
  "m_piece_map (cursors_include i s) = m_piece_map s" "m_pads_in_piece (cursors_include i s) = m_pads_in_piece s"
  "m_num_have (cursors_include i s) = m_num_have s" "m_num_filtered (cursors_include i s) = m_num_filtered s"
  "m_num_have_filtered (cursors_include i s) = m_num_have_filtered s" "m_num_pad_bytes (cursors_include i s) = m_num_pad_bytes s"
  "m_have_pad_bytes (cursors_include i s) = m_have_pad_bytes s" "m_filtered_pad_bytes (cursors_include i s) = m_filtered_pad_bytes s"
  "m_have_filtered_pad_bytes (cursors_include i s) = m_have_filtered_pad_bytes s" "m_num_passed (cursors_include i s) = m_num_passed s"
  "same_dl s (cursors_include i s)" "same_order s (cursors_include i s)"
  by (auto simp: cursors_include_def same_dl_def same_order_def num_pieces_def Let_def)

lemma dl_ok_cong:
  assumes sd: "same_dl s S" and st: "\<And>j. j < num_pieces s \<Longrightarrow> pp_state (m_piece_map S ! j) = pp_state (m_piece_map s ! j)"
  shows "dl_ok S = dl_ok s"
proof -
  note D = same_dl_fields [OF sd]
  have "dl_core (queue_of S) S = dl_core (queue_of s) s"
    unfolding same_dl_core [OF sd] using st by (intro dl_core_queue_cong) (simp add: queue_of_def download_queue_def)
  moreover have "full_ok S (\<lambda>_. True) = full_ok s (\<lambda>_. True)" if "dl_core (queue_of s) s"
  proof -
    have "dp_index d < num_pieces s" if "d \<in> set (get_download_queue s)" for d
      using partial_index_lt that \<open>dl_core (queue_of s) s\<close> by (auto simp: dl_core_def)
    then show ?thesis using st D(10) by (auto simp: full_ok_def)
  qed
  ultimately show ?thesis by (auto simp: dl_ok_def)
qed

definition full_inv :: "picker \<Rightarrow> bool" where
  "full_inv s \<longleftrightarrow> picker_inv s \<and> tally_ok s \<and> cursor_ok s"

lemma full_invD:
  assumes "full_inv s"
  shows "picker_inv s" "tally_ok s" "cursor_ok s"
  using assms by (simp_all add: full_inv_def)

lemma same_want_full: "same_want s s' \<Longrightarrow> picker_inv s' \<Longrightarrow> full_inv s \<Longrightarrow> full_inv s'"
  by (simp add: full_inv_def same_want_tally same_want_cursor)

lemma gain_piece_shape:
  "m_piece_map (gain_piece i s) = (m_piece_map s)[i := set_have (m_piece_map s ! i)]"
  "same_dl s (gain_piece i s)" "same_order (upd_pos i set_have s) (gain_piece i s)"
  by (auto simp: gain_piece_def Let_def same_dl_def same_order_def num_pieces_def upd_pos_def cursors_exclude_def)

lemma gain_piece_tally:
  assumes ok: "tally_ok s" and i: "i < num_pieces s" and nh: "\<not> pos_have (m_piece_map s ! i)"
  shows "tally_ok (gain_piece i s)"
proof -
  have l: "i < length (m_piece_map s)" using i by (simp add: num_pieces_def)
  have p: "pads (gain_piece i s) = pads s" by (simp add: gain_piece_def Let_def pad_bytes_in_piece_def upd_pos_def)
  have h: "pos_have (set_have q)" "pos_filtered (set_have q) = pos_filtered q" for q
    by (simp_all add: pos_have_def set_have_def pos_filtered_def)
  show ?thesis unfolding tally_ok_def p gain_piece_shape(1) tally_upd [OF l] using ok nh h
    by (simp add: gain_piece_def Let_def upd_pos_def tally_ok_def)
qed

lemma gain_piece_cursor:
  assumes ok: "cursor_ok s" and i: "i < num_pieces s"
  shows "cursor_ok (gain_piece i s)"
proof -
  let ?mp = "(m_piece_map s)[i := set_have (m_piece_map s ! i)]"
  have ex: "excludes i ?mp s" using i by (auto simp: excludes_def num_pieces_def skip_piece_def set_have_def pos_have_def)
  have C: "m_cursor (cursors_exclude i (s\<lparr>m_piece_map := ?mp\<rparr>)) = advance_cursor ?mp 0
      \<and> m_reverse_cursor (cursors_exclude i (s\<lparr>m_piece_map := ?mp\<rparr>)) = retreat_cursor ?mp (num_pieces s)"
    by (rule cursors_exclude_ok [OF ok ex]) (auto simp: num_pieces_def)
  have "m_cursor (gain_piece i s) = m_cursor (cursors_exclude i (s\<lparr>m_piece_map := ?mp\<rparr>))"
    "m_reverse_cursor (gain_piece i s) = m_reverse_cursor (cursors_exclude i (s\<lparr>m_piece_map := ?mp\<rparr>))"
    by (auto simp: gain_piece_def Let_def upd_pos_def cursors_exclude_def num_pieces_def)
  moreover have "num_pieces (gain_piece i s) = num_pieces s" by (simp add: num_pieces_def gain_piece_shape(1))
  ultimately show ?thesis using C unfolding cursor_ok_def gain_piece_shape(1) by simp
qed

text \<open>The partial piece of \<open>i\<close>, if any, is gone.\<close>

lemma we_have_start:
  assumes inv: "picker_inv s" and i: "i < num_pieces s"
  defines "s1 \<equiv> (if queue_of s i \<noteq> piece_open then erase_download_piece (find_piece s i)
      (if dp_passed_hash_check (dl_at s (find_piece s i)) then s\<lparr>m_num_passed := m_num_passed s - 1\<rparr> else s) else s)"
  shows "dl_ok s1" "same_want s s1" "num_pieces s1 = num_pieces s"
    "\<exists>st T. same_order s T \<and> s1 = upd_pos i (\<lambda>p. p\<lparr>pp_state := st\<rparr>) T" "queue_of s1 i = piece_open"
proof -
  note I = picker_invD [OF inv]
  define s0 where "s0 = (if dp_passed_hash_check (dl_at s (find_piece s i)) then s\<lparr>m_num_passed := m_num_passed s - 1\<rparr> else s)"
  have S0: "picker_inv s0" "queue_of s0 = queue_of s" "find_piece s0 = find_piece s" "num_pieces s0 = num_pieces s" "same_want s s0"
    "same_order s s0" using inv by (simp_all add: s0_def num_pieces_def)
  note I0 = picker_invD [OF S0(1)]
  have "dl_ok s1 \<and> same_want s s1 \<and> num_pieces s1 = num_pieces s \<and> queue_of s1 i = piece_open
    \<and> (\<exists>st T. same_order s T \<and> s1 = upd_pos i (\<lambda>p. p\<lparr>pp_state := st\<rparr>) T)"
  proof (cases "queue_of s i = piece_open")
    case True
    have "s = upd_pos i (\<lambda>p. p\<lparr>pp_state := pp_state (m_piece_map s ! i)\<rparr>) s" by (simp add: upd_pos_def)
    moreover have "s1 = s" using True by (simp add: s1_def)
    ultimately show ?thesis using True inv same_order_refl same_want_refl unfolding picker_inv_def by metis
  next
    case False
    then have s1: "s1 = erase_download_piece (find_piece s0 i) s0" using S0(3) by (simp add: s1_def s0_def)
    have i0: "i < num_pieces s0" and op0: "queue_of s0 i \<noteq> piece_open" using i False S0 by simp_all
    note E = erase_download_piece_ok [OF I0(2,4) i0 op0, folded s1]
    have "s1 = upd_pos i (\<lambda>p. p\<lparr>pp_state := piece_open\<rparr>) (dropped i s0)"
      unfolding s1 by (rule erase_download_piece_eq [OF I0(2) i0 op0])
    moreover have "same_order s (dropped i s0)" using same_order_trans [OF S0(6) dropped_order] .
    moreover have "same_want s s1" unfolding s1 using same_want_trans [OF S0(5) erase_want] .
    moreover have "num_pieces s1 = num_pieces s" using E(3) S0(4) by simp
    ultimately show ?thesis using E(1,2) by blast
  qed
  then show "dl_ok s1" "same_want s s1" "num_pieces s1 = num_pieces s"
    "\<exists>st T. same_order s T \<and> s1 = upd_pos i (\<lambda>p. p\<lparr>pp_state := st\<rparr>) T" "queue_of s1 i = piece_open" by blast+
qed

lemma upd_pos_comp: "i < num_pieces s \<Longrightarrow> upd_pos i f (upd_pos i g s) = upd_pos i (\<lambda>p. f (g p)) s"
  by (simp add: upd_pos_def num_pieces_def)

lemma have_unlisted: "pos_priority sd (set_have p) = -1"
  by (simp add: pos_priority_def pos_have_def set_have_def)

lemma we_have_ok:
  assumes inv: "full_inv s" and i: "i < num_pieces s"
  shows "full_inv (we_have i s)" "num_pieces (we_have i s) = num_pieces s"
    "\<And>j. j < num_pieces s \<Longrightarrow> have_piece (we_have i s) j \<longleftrightarrow> have_piece s j \<or> j = i"
    "\<not> have_piece s i \<Longrightarrow> queue_of (we_have i s) i = piece_open" "m_pads_in_piece (we_have i s) = m_pads_in_piece s"
    "m_dirty (we_have i s) = m_dirty s"
proof -
  have "full_inv (we_have i s) \<and> num_pieces (we_have i s) = num_pieces s
    \<and> (\<forall>j < num_pieces s. have_piece (we_have i s) j \<longleftrightarrow> have_piece s j \<or> j = i)
    \<and> (\<not> have_piece s i \<longrightarrow> queue_of (we_have i s) i = piece_open) \<and> m_pads_in_piece (we_have i s) = m_pads_in_piece s
    \<and> m_dirty (we_have i s) = m_dirty s"
  proof (cases "have_piece s i")
    case True
    then have "we_have i s = s" by (simp add: we_have_def Let_def have_iff pos_have_def)
    then show ?thesis using inv True by auto
  next
    case nh: False
    then have nh': "\<not> pos_have (m_piece_map s ! i)" by (simp add: have_iff pos_have_def)
    note I = full_invD [OF inv]
    define s1 where "s1 = (if queue_of s i \<noteq> piece_open then erase_download_piece (find_piece s i)
      (if dp_passed_hash_check (dl_at s (find_piece s i)) then s\<lparr>m_num_passed := m_num_passed s - 1\<rparr> else s) else s)"
    define S where "S = gain_piece i s1"
    note W = we_have_start [OF I(1) i, folded s1_def]
    obtain st T where T: "same_order s T" "s1 = upd_pos i (\<lambda>p. p\<lparr>pp_state := st\<rparr>) T" using W(4) by blast
    let ?f = "\<lambda>p. set_have (p\<lparr>pp_state := st\<rparr>)"
    note O = same_order_fields [OF T(1)] and inv0 = picker_invD(1) [OF I(1)]
    have invT: "order_inv T" "i < num_pieces T" using O inv0 i by simp_all
    have SO: "same_order (upd_pos i ?f T) S" using gain_piece_shape(3) [of i s1] invT(2) by (simp add: S_def T(2) upd_pos_comp)
    have okf: "pos_ok (?f (m_piece_map T ! i))"
      using picker_ok_nth [OF order_inv_ok [OF invT(1)] invT(2)] by (simp add: pos_ok_def set_have_def)
    define X where "X = (if priority_of s i = -1 then S else if m_dirty S then S
        else picker_remove (nat (priority_of s i)) (the (pp_index (m_piece_map s ! i))) S)"
    have U: "order_inv X" "reorders S X"
      using unlist_piece_ok [OF invT SO have_unlisted okf] unfolding O(1,3) X_def [symmetric] by blast+
    have eq: "we_have i s = X"
      using nh' unfolding we_have_def Let_def queue_of_def [symmetric] queue_find s1_def [symmetric] S_def [symmetric] X_def
      by simp
    have i1: "i < num_pieces s1" "\<not> pos_have (m_piece_map s1 ! i)"
      using i nh W(2,3) by (auto simp: same_want_def have_iff pos_have_def)
    have mS: "m_piece_map S = (m_piece_map s1)[i := set_have (m_piece_map s1 ! i)]" by (simp add: S_def gain_piece_shape)
    have st: "pp_state (m_piece_map S ! j) = pp_state (m_piece_map s1 ! j)" for j
      unfolding mS by (cases "j = i"; cases "i < length (m_piece_map s1)") (auto simp: set_have_def list_update_beyond)
    have "dl_ok S" using dl_ok_cong [OF gain_piece_shape(2) [of s1 i]] st W(1) by (simp add: S_def)
    then have pX: "picker_inv X" using U reorders_dl_ok by (simp add: picker_inv_def)
    have "tally_ok S" "cursor_ok S" unfolding S_def
      using gain_piece_tally gain_piece_cursor i1 I same_want_tally [OF W(2)] same_want_cursor [OF W(2)] by simp_all
    then have "full_inv X"
      using pX same_want_tally [OF reorders_want [OF U(2)]] same_want_cursor [OF reorders_want [OF U(2)]] by (simp add: full_inv_def)
    moreover have nS: "num_pieces S = num_pieces s" using mS W(3) by (simp add: num_pieces_def)
    moreover have "have_piece X j \<longleftrightarrow> have_piece s j \<or> j = i" if "j < num_pieces s" for j
      using reorders_pos(4) [OF U(2), of j] that nS mS W(2,3) i1(1)
      by (auto simp: have_iff pos_have_def same_want_def num_pieces_def nth_list_update set_have_def)
    moreover have "queue_of X i = piece_open"
      using reorders_queue_of [OF U(2)] nS i W(5) st by (simp add: queue_of_def download_queue_def)
    moreover have "m_pads_in_piece X = m_pads_in_piece s"
      using W(2) reorders_want [OF U(2)] by (simp add: same_want_def S_def gain_piece_def Let_def upd_pos_def)
    moreover have "m_dirty X = m_dirty s"
      using reorders_fields(2) [OF U(2)] same_order_fields(6) [OF SO] O(6) by (simp add: upd_pos_def)
    ultimately show ?thesis using eq reorders_num_pieces [OF U(2)] by simp
  qed
  then show "full_inv (we_have i s)" "num_pieces (we_have i s) = num_pieces s"
    "\<And>j. j < num_pieces s \<Longrightarrow> have_piece (we_have i s) j \<longleftrightarrow> have_piece s j \<or> j = i"
    "\<not> have_piece s i \<Longrightarrow> queue_of (we_have i s) i = piece_open" "m_pads_in_piece (we_have i s) = m_pads_in_piece s"
    "m_dirty (we_have i s) = m_dirty s" by blast+
qed

end
