(* ===== verification/Picker_Complete.thy ===== *)
theory Picker_Complete
  imports Picker_Tally
begin

text \<open>
  The operations that change which pieces we have or want keep the full invariant:
  \<open>piece_passed\<close>, \<open>mark_as_finished\<close>, \<open>we_dont_have\<close> and \<open>set_piece_priority\<close>.
\<close>

section \<open>Passing the hash check\<close>

lemma has_piece_passed_have: "have_piece s i \<Longrightarrow> has_piece_passed s i"
  by (simp add: has_piece_passed_def have_iff Let_def)

lemma piece_passed_ok:
  assumes inv: "full_inv s" and i: "i < num_pieces s"
  defines "d \<equiv> dl_at s (find_piece s i)"
  shows "full_inv (piece_passed i s)"
    "queue_of s i \<noteq> piece_open \<Longrightarrow> \<not> dp_locked d \<Longrightarrow> has_piece_passed (piece_passed i s) i"
    "queue_of s i \<noteq> piece_open \<Longrightarrow> \<not> dp_locked d \<Longrightarrow> dp_finished d = blocks_in_piece s i \<Longrightarrow> have_piece (piece_passed i s) i"
proof -
  let ?G = "\<lambda>d. d\<lparr>dp_passed_hash_check := True\<rparr>"
  note I = full_invD [OF inv]
  have "full_inv (piece_passed i s) \<and> (queue_of s i \<noteq> piece_open \<and> \<not> dp_locked d \<longrightarrow> has_piece_passed (piece_passed i s) i
      \<and> (dp_finished d = blocks_in_piece s i \<longrightarrow> have_piece (piece_passed i s) i))"
  proof (cases "queue_of s i = piece_open \<or> dp_locked d")
    case True
    then have "piece_passed i s = s" unfolding piece_passed_def Let_def queue_of_def [symmetric] queue_find by (auto simp: d_def)
    then show ?thesis using inv True by auto
  next
    case False
    then have op: "queue_of s i \<noteq> piece_open" by blast
    note T = touch_piece_ok [where G = ?G, OF I(1) i op]
    define s1 where "s1 = upd_dl (find_piece s i) ?G s"
    define s2 where "s2 = s1\<lparr>m_num_passed := m_num_passed s1 + 1\<rparr>"
    have S: "picker_inv s2" "find_piece s2 = find_piece s" "dl_at s2 (find_piece s i) = ?G d" "queue_of s2 = queue_of s"
      using T unfolding s2_def s1_def by (simp_all add: counts_follow_def d_def)
    have sw: "same_want s s2" unfolding s2_def s1_def by (rule same_want_trans [OF frame_want(2,4)])
    have f2: "full_inv s2" by (rule same_want_full [OF sw S(1) inv])
    have i2: "i < num_pieces s2" "blocks_in_piece s2 i = blocks_in_piece s i" "m_piece_map s2 = m_piece_map s"
      using i by (simp_all add: s2_def s1_def num_pieces_def blocks_in_piece_def blocks_per_piece_def block_size_def upd_dl_def set_queue_def)
    have eq: "piece_passed i s = (if dp_finished d < blocks_in_piece s i then s2 else we_have i s2)"
      using False S(3) i2(2) unfolding piece_passed_def Let_def queue_of_def [symmetric] queue_find s1_def [symmetric] s2_def [symmetric]
      by (simp add: d_def)
    show ?thesis
    proof (cases "dp_finished d < blocks_in_piece s i")
      case True
      moreover have "has_piece_passed s2 i" using S op i2(3) by (simp add: has_piece_passed_def Let_def queue_of_def)
      ultimately show ?thesis using eq f2 by simp
    next
      case False
      then show ?thesis using eq we_have_ok [OF f2 i2(1)] i2(1) has_piece_passed_have by auto
    qed
  qed
  then show "full_inv (piece_passed i s)"
    "queue_of s i \<noteq> piece_open \<Longrightarrow> \<not> dp_locked d \<Longrightarrow> has_piece_passed (piece_passed i s) i"
    "queue_of s i \<noteq> piece_open \<Longrightarrow> \<not> dp_locked d \<Longrightarrow> dp_finished d = blocks_in_piece s i \<Longrightarrow> have_piece (piece_passed i s) i" by blast+
qed

section \<open>Finished blocks\<close>

lemma is_finished_block_have: "have_piece s (piece_index b) \<Longrightarrow> is_finished_block s b"
  by (simp add: is_finished_block_def have_iff Let_def)

lemma mark_as_finished_open_ok:
  assumes inv: "picker_inv s" and v: "valid_block s b" and room: "slots s < 2 ^ 16"
    and op: "queue_of s (piece_index b) = piece_open"
  shows "picker_inv (mark_as_finished b peer s) \<and> same_want s (mark_as_finished b peer s)
    \<and> is_finished_block (mark_as_finished b peer s) b"
proof (cases "have_piece s (piece_index b)")
  case True
  then have "mark_as_finished b peer s = s" using op unfolding mark_as_finished_def Let_def queue_open_iff by simp
  then show ?thesis using inv True is_finished_block_have by simp
next
  case nh: False
  let ?i = "piece_index b"
  define s1 where "s1 = change_state ?i (\<lambda>p. p\<lparr>pp_state := piece_downloading\<rparr>) s"
  obtain dp s2 where u: "add_download_piece ?i s1 = (dp, s2)" by fastforce
  note S = start_piece_ok [OF inv v op _ room _ _ _ u [unfolded s1_def], of piece_downloading, simplified]
  let ?k = "slot s2 ?i (block_index b)"
  note I = picker_invD [OF S(1)]
  have B: "block_of s2 b = m_block_info s2 ! ?k" using block_of_slot [OF I(2) S(4,3)] by simp
  let ?F = "\<lambda>b. (b\<lparr>bi_peer := peer\<rparr>)\<lparr>bi_state := state_finished\<rparr>"
  have eq: "mark_as_finished b peer s =
      (if bi_state (block_of s2 b) = state_finished then s2
       else snd (update_piece_state dp (upd_block ?k ?F (upd_dl dp inc_finished s2))))"
    using op nh unfolding mark_as_finished_def Let_def queue_open_iff s1_def [symmetric] u B slot_def S(2) [symmetric]
    by (simp add: modify_normal)
  show ?thesis
  proof (cases "bi_state (block_of s2 b) = state_finished")
    case True
    then show ?thesis using eq S(1,8) is_finished_blockI [OF S(3)] by simp
  next
    case False
    then have none: "bi_state (block_of s2 b) = state_none" using S(5) by simp
    have c: "counts_follow (dl_at s2 dp) (inc_finished (dl_at s2 dp)) state_none state_finished"
      using counts_follow_step(3) [OF I(2) S(4,3) refl none] S(2) by simp
    note T = step_counted_ok [where F = ?F and G = inc_finished and st' = state_finished, OF S(1) S(4,3) none _ c [unfolded S(2)], simplified]
    have "mark_as_finished b peer s
        = snd (update_piece_state (find_piece s2 ?i) (upd_block ?k ?F (upd_dl (find_piece s2 ?i) inc_finished s2)))"
      using eq False unfolding S(2) by simp
    then show ?thesis using T(1) is_finished_blockI [OF T(2,3)] same_want_trans [OF S(8) T(7)] by simp
  qed
qed

text \<open>
  Finishing block \<open>b\<close> completes its piece: the hash has passed, no hash job is under way and all the
  other blocks are finished.
\<close>

definition completes_piece :: "picker \<Rightarrow> piece_block \<Rightarrow> bool" where
  "completes_piece s b \<longleftrightarrow> queue_of s (piece_index b) \<noteq> piece_open \<and> bi_state (block_of s b) \<noteq> state_finished
     \<and> (let d = dl_at s (find_piece s (piece_index b))
        in dp_passed_hash_check d \<and> dp_hashing d = 0 \<and> dp_finished d + 1 = blocks_in_piece s (piece_index b))"

lemma completes_piece_iff:
  assumes core: "dl_core (queue_of s) s" and v: "valid_block s b" and op: "queue_of s (piece_index b) \<noteq> piece_open"
    and st: "bi_state (block_of s b) = st" "st \<noteq> state_finished"
    and d: "d = dl_at s (find_piece s (piece_index b))" and c: "counts_follow d d' st state_finished"
    and same: "dp_passed_hash_check d' = dp_passed_hash_check d" "dp_hashing d' = dp_hashing d"
  shows "completes_piece s b \<longleftrightarrow>
    \<not> dp_finished d' < blocks_in_piece s (piece_index b) \<and> dp_passed_hash_check d' \<and> dp_hashing d' = 0"
proof -
  have i: "piece_index b < num_pieces s" and k: "block_index b < blocks_in_piece s (piece_index b)"
    using v by (auto simp: valid_block_def)
  note C = counts_bound [OF core i op d]
  have "block_of s b \<in> set (blocks_for_piece s d)" using k C(6) by (simp add: block_of_def d [symmetric])
  then have "dp_finished d < blocks_in_piece s (piece_index b)"
    unfolding C(5) count_state_def C(6) [symmetric] using st by (intro length_filter_less) auto
  moreover have "dp_finished d' = dp_finished d + 1" using c st(2) by (simp add: counts_follow_def)
  ultimately show ?thesis using op st same by (auto simp: completes_piece_def Let_def d [symmetric])
qed

lemma mark_as_finished_partial_ok:
  assumes inv: "full_inv s" and v: "valid_block s b" and op: "queue_of s (piece_index b) \<noteq> piece_open"
    and nr: "\<not> is_requested s b"
  shows "full_inv (mark_as_finished b peer s) \<and> is_finished_block (mark_as_finished b peer s) b
    \<and> (have_piece (mark_as_finished b peer s) (piece_index b) \<longleftrightarrow> have_piece s (piece_index b) \<or> completes_piece s b)"
proof -
  let ?i = "piece_index b" and ?it = "find_piece s (piece_index b)"
  let ?k = "slot s ?i (block_index b)"
  note inv0 = full_invD(1) [OF inv]
  note I = picker_invD [OF inv0]
  have B: "block_of s b = m_block_info s ! ?k" using block_of_slot [OF I(2) v op] by auto
  show ?thesis
  proof (cases "bi_state (block_of s b) = state_finished")
    case True
    then have "mark_as_finished b peer s = s"
      using op unfolding mark_as_finished_def Let_def queue_open_iff slot_of B [symmetric] by simp
    then show ?thesis using inv True is_finished_blockI [OF op] by (simp add: completes_piece_def)
  next
    case nf: False
    define st where "st = bi_state (block_of s b)"
    define P where "P = (\<lambda>x :: block_info. if st \<noteq> state_writing \<or> peer \<noteq> None then x\<lparr>bi_peer := peer\<rparr> else x)"
    define W where "W = (\<lambda>d. if st = state_writing then dec_writing d else d)"
    let ?F = "\<lambda>b. (P b)\<lparr>bi_state := state_finished\<rparr>" and ?G = "\<lambda>d. W (inc_finished d)"
    have st: "st = state_none \<or> st = state_writing" using nf nr op by (cases st) (auto simp: st_def is_requested_iff)
    have c: "counts_follow (dl_at s ?it) (?G (dl_at s ?it)) st state_finished"
      using counts_follow_step(3,6) [OF I(2) v op refl st_def [symmetric]] st by (auto simp: W_def)
    obtain it' s5 where u: "update_piece_state ?it (upd_block ?k ?F (upd_dl ?it ?G s)) = (it', s5)" by fastforce
    note T = step_block_ok [where F = ?F and G = ?G and st' = state_finished, OF inv0 v op refl st_def [symmetric] _ c u, simplified]
    have "\<not> dl_empty (?G (dl_at s ?it))" by (rule not_empty_follow [OF c]) (use st in auto)
    then have p5: "picker_inv s5" using T(4) by simp
    have f5: "full_inv s5" by (rule same_want_full [OF T(13) p5 inv])
    have i5: "?i < num_pieces s5" using T(8) by (simp add: valid_block_def)
    have ix: "dp_index (dl_at s5 it') = ?i" using find_piece_ok(2) [OF T(2) i5 T(7)] T(5) by simp
    have e1: "upd_block ?k (\<lambda>b. b\<lparr>bi_state := state_finished\<rparr>) (if st = state_writing
         then upd_dl ?it dec_writing (upd_dl ?it inc_finished (if st \<noteq> state_writing \<or> peer \<noteq> None then upd_block ?k (\<lambda>b. b\<lparr>bi_peer := peer\<rparr>) s else s))
         else upd_dl ?it inc_finished (if st \<noteq> state_writing \<or> peer \<noteq> None then upd_block ?k (\<lambda>b. b\<lparr>bi_peer := peer\<rparr>) s else s))
        = upd_block ?k ?F (upd_dl ?it ?G s)"
      by (simp add: P_def W_def modify_normal)
    have "mark_as_finished b peer s = (let dp = dl_at s5 it' in
        if dp_finished dp < blocks_in_piece s5 (dp_index dp) then s5
        else if dp_passed_hash_check dp \<and> dp_hashing dp = 0 then we_have (dp_index dp) s5 else s5)"
      using op nf unfolding mark_as_finished_def Let_def queue_open_iff slot_of B [symmetric] st_def [symmetric] e1 u by simp
    moreover have "is_finished_block s5 b" using T(7,9) by (rule is_finished_blockI)
    moreover have "full_inv (we_have ?i s5)" "is_finished_block (we_have ?i s5) b"
      using we_have_ok [OF f5 i5] i5 is_finished_block_have by auto
    moreover have "have_piece (we_have ?i s5) ?i" using we_have_ok(3) [OF f5 i5] i5 by simp
    moreover have "have_piece s5 ?i = have_piece s ?i" using T(13) v by (simp add: same_want_def have_iff pos_have_def valid_block_def)
    moreover have "completes_piece s b \<longleftrightarrow> \<not> dp_finished (dl_at s5 it') < blocks_in_piece s5 ?i \<and> dp_passed_hash_check (dl_at s5 it') \<and> dp_hashing (dl_at s5 it') = 0"
      using completes_piece_iff [OF I(2) v op st_def [symmetric] nf [folded st_def] refl c] T(6,11)
      by (simp add: W_def inc_finished_def dec_writing_def)
    ultimately show ?thesis using f5 ix by (auto simp: Let_def)
  qed
qed

lemma mark_as_finished_ok:
  assumes "full_inv s" "valid_block s b" "slots s < 2 ^ 16" "\<not> is_requested s b"
  shows "full_inv (mark_as_finished b peer s) \<and> is_finished_block (mark_as_finished b peer s) b
    \<and> (have_piece (mark_as_finished b peer s) (piece_index b) \<longleftrightarrow> have_piece s (piece_index b) \<or> completes_piece s b)"
proof (cases "queue_of s (piece_index b) = piece_open")
  case True
  note O = mark_as_finished_open_ok [OF full_invD(1) [OF assms(1)] assms(2,3) True, of peer]
  then have "have_piece (mark_as_finished b peer s) (piece_index b) = have_piece s (piece_index b)"
    using assms(2) by (simp add: same_want_def have_iff pos_have_def valid_block_def)
  then show ?thesis using O same_want_full assms(1) True by (auto simp: completes_piece_def)
next
  case False
  then show ?thesis using mark_as_finished_partial_ok assms by blast
qed

section \<open>Losing a piece\<close>

lemma relist_piece_ok:
  assumes inv: "order_inv s" and i: "i < num_pieces s" and S: "same_order (upd_pos i f s) S"
    and pr: "priority_of s i = -1" and ok: "pos_ok (f (m_piece_map s ! i))"
  defines "X \<equiv> (if m_dirty S then S else if priority_of S i \<ge> 0 then picker_add i S else S)"
  shows "order_inv X \<and> reorders S X"
proof -
  note O = same_order_fields [OF S]
  have okS: "picker_ok S" using O(4) picker_ok_upd_pos [of s i f] order_inv_ok [OF inv] ok by simp
  have nS: "num_pieces S = num_pieces s" "m_dirty S = m_dirty s" using O by simp_all
  show ?thesis
  proof (cases "m_dirty s")
    case True
    then show ?thesis using okS nS by (simp add: X_def order_inv_iff)
  next
    case clean: False
    note l = unlisted_change [OF inv i S clean pr]
    show ?thesis
    proof (cases "priority_of S i \<ge> 0")
      case True
      have "pick_list_for (priority_of S) (picker_add i S) \<and> reorders S (picker_add i S)"
        by (rule po.insert_law [OF _ l]) (use i nS okS in \<open>simp add: piece_ready_def\<close>)
      moreover have "X = picker_add i S" using True clean nS by (simp add: X_def)
      ultimately show ?thesis unfolding order_inv_iff using okS reorders_picker_ok pick_list_reorders by blast
    next
      case False
      then have "priority_of S i = -1" using priority_of_ge [OF okS] i nS by force
      then have "(priority_of S)(i := -1) = priority_of S" by auto
      then show ?thesis using l okS False nS clean by (simp add: X_def order_inv_iff)
    qed
  qed
qed

lemma lose_piece_shape:
  "m_piece_map (lose_piece i s) = (m_piece_map s)[i := set_not_have (m_piece_map s ! i)]"
  "same_dl s (lose_piece i s)" "same_order (upd_pos i set_not_have s) (lose_piece i s)"
  by (auto simp: lose_piece_def Let_def same_dl_def same_order_def num_pieces_def upd_pos_def cursors_include_def)

lemma lose_piece_tally:
  assumes ok: "tally_ok s" and i: "i < num_pieces s" and h: "pos_have (m_piece_map s ! i)"
  shows "tally_ok (lose_piece i s)"
proof -
  have l: "i < length (m_piece_map s)" using i by (simp add: num_pieces_def)
  have p: "pads (lose_piece i s) = pads s" by (simp add: lose_piece_def Let_def pad_bytes_in_piece_def upd_pos_def)
  have h': "\<not> pos_have (set_not_have q)" "pos_filtered (set_not_have q) = pos_filtered q" for q
    by (simp_all add: pos_have_def set_not_have_def pos_filtered_def)
  show ?thesis unfolding tally_ok_def p lose_piece_shape(1) tally_upd [OF l] using ok h h'
    by (simp add: lose_piece_def Let_def upd_pos_def tally_ok_def)
qed

lemma lose_piece_cursor:
  assumes ok: "cursor_ok s" and i: "i < num_pieces s" and h: "pos_have (m_piece_map s ! i)"
  shows "cursor_ok (lose_piece i s)"
proof -
  let ?mp = "(m_piece_map s)[i := set_not_have (m_piece_map s ! i)]"
  have n: "num_pieces (lose_piece i s) = num_pieces s" by (simp add: num_pieces_def lose_piece_shape(1))
  have sk: "skip_piece (?mp ! j) = skip_piece (m_piece_map s ! j)" if "j \<noteq> i" for j using that by simp
  have si: "skip_piece (?mp ! i) = pos_filtered (m_piece_map s ! i)"
    using i by (simp add: skip_piece_def set_not_have_def pos_have_def pos_filtered_def num_pieces_def)
  show ?thesis
  proof (cases "pos_filtered (m_piece_map s ! i)")
    case True
    then have "skip_piece (?mp ! j) = skip_piece (m_piece_map s ! j)" for j
      using sk [of j] si by (cases "j = i") (auto simp: skip_piece_def)
    then have "advance_cursor ?mp 0 = m_cursor s \<and> retreat_cursor ?mp (num_pieces s) = m_reverse_cursor s"
      using cursor_okD [OF ok] by (auto intro!: advance_cursor_eqI retreat_cursor_eqI simp: num_pieces_def)
    moreover have "m_cursor (lose_piece i s) = m_cursor s" "m_reverse_cursor (lose_piece i s) = m_reverse_cursor s"
      using True by (simp_all add: lose_piece_def Let_def upd_pos_def)
    ultimately show ?thesis unfolding cursor_ok_def n lose_piece_shape(1) by simp
  next
    case False
    have "m_cursor (lose_piece i s) = m_cursor (cursors_include i s)"
      "m_reverse_cursor (lose_piece i s) = m_reverse_cursor (cursors_include i s)"
      using False by (simp_all add: lose_piece_def Let_def upd_pos_def cursors_include_def num_pieces_def)
    moreover have "m_cursor (cursors_include i s) = advance_cursor ?mp 0"
      "m_reverse_cursor (cursors_include i s) = retreat_cursor ?mp (num_pieces s)"
      using cursors_include_ok [OF ok, of ?mp i] sk si False i by (simp_all add: num_pieces_def)
    ultimately show ?thesis unfolding cursor_ok_def n lose_piece_shape(1) by simp
  qed
qed

lemma we_dont_have_ok:
  assumes inv: "full_inv s" and i: "i < num_pieces s" and h: "have_piece s i"
  shows "full_inv (we_dont_have i s)" "\<And>j. j < num_pieces s \<Longrightarrow> have_piece (we_dont_have i s) j \<longleftrightarrow> have_piece s j \<and> j \<noteq> i"
    "num_pieces (we_dont_have i s) = num_pieces s" "m_dirty (we_dont_have i s) = m_dirty s"
proof -
  have h': "pos_have (m_piece_map s ! i)" using h by (simp add: have_iff pos_have_def)
  note I = full_invD [OF inv]
  note inv0 = picker_invD(1) [OF I(1)]
  define S where "S = lose_piece i s"
  have okf: "pos_ok (set_not_have (m_piece_map s ! i))"
    using picker_ok_nth [OF order_inv_ok [OF inv0] i] by (simp add: pos_ok_def set_not_have_def)
  have pr: "priority_of s i = -1" using h' by (simp add: priority_of_def pos_priority_def)
  define X where "X = (if m_dirty S then S else if priority_of S i \<ge> 0 then picker_add i S else S)"
  have U: "order_inv X" "reorders S X"
    using relist_piece_ok [OF inv0 i lose_piece_shape(3) pr okf] unfolding S_def [symmetric] X_def [symmetric] by blast+
  have eq: "we_dont_have i s = X" using h' unfolding we_dont_have_def Let_def S_def [symmetric] X_def by simp
  have mS: "m_piece_map S = (m_piece_map s)[i := set_not_have (m_piece_map s ! i)]" by (simp add: S_def lose_piece_shape)
  have "pp_state (m_piece_map S ! j) = pp_state (m_piece_map s ! j)" if "j < num_pieces s" for j
    unfolding mS using that by (cases "j = i") (auto simp: set_not_have_def num_pieces_def)
  then have "dl_ok S" using dl_ok_cong [OF lose_piece_shape(2) [of s i]] I(1) by (simp add: S_def picker_inv_def)
  then have "picker_inv X" using U reorders_dl_ok by (simp add: picker_inv_def)
  then show "full_inv (we_dont_have i s)"
    using same_want_tally [OF reorders_want [OF U(2)]] same_want_cursor [OF reorders_want [OF U(2)]]
      lose_piece_tally [OF I(2) i h'] lose_piece_cursor [OF I(3) i h'] by (simp add: full_inv_def eq S_def)
  show "have_piece (we_dont_have i s) j \<longleftrightarrow> have_piece s j \<and> j \<noteq> i" if "j < num_pieces s" for j
    using reorders_pos(4) [OF U(2), of j] that mS i
    by (auto simp: eq have_iff pos_have_def num_pieces_def nth_list_update set_not_have_def)
  show "num_pieces (we_dont_have i s) = num_pieces s"
    using reorders_num_pieces [OF U(2)] mS by (simp add: eq num_pieces_def)
  show "m_dirty (we_dont_have i s) = m_dirty s"
    using reorders_fields(2) [OF U(2)] same_order_fields(6) [OF lose_piece_shape(3) [of i s]] by (simp add: eq S_def upd_pos_def)
qed

section \<open>Priorities\<close>

text \<open>The first half of \<open>set_piece_priority\<close>: the counters, then the new priority.\<close>

definition reprioritize :: "nat \<Rightarrow> nat \<Rightarrow> picker \<Rightarrow> picker" where
  "reprioritize i n s = upd_pos i (\<lambda>p. p\<lparr>pp_priority := n\<rparr>)
     (if n = dont_download \<and> pp_priority (m_piece_map s ! i) \<noteq> dont_download then filter_counts i s
      else if n \<noteq> dont_download \<and> pp_priority (m_piece_map s ! i) = dont_download then unfilter_counts i s
      else s)"

lemma filter_counts_frame:
  "same_order s (filter_counts i s)" "same_order s (unfilter_counts i s)" "same_dl s (filter_counts i s)" "same_dl s (unfilter_counts i s)"
  by (auto simp: filter_counts_def unfilter_counts_def Let_def same_order_def same_dl_def num_pieces_def
      cursors_exclude_def cursors_include_def)

lemma reprioritize_shape:
  "m_piece_map (reprioritize i n s) = (m_piece_map s)[i := (m_piece_map s ! i)\<lparr>pp_priority := n\<rparr>]"
  "same_dl s (reprioritize i n s)"
  "\<exists>T. same_order s T \<and> reprioritize i n s = upd_pos i (\<lambda>p. p\<lparr>pp_priority := n\<rparr>) T"
proof -
  let ?T = "if n = dont_download \<and> pp_priority (m_piece_map s ! i) \<noteq> dont_download then filter_counts i s
      else if n \<noteq> dont_download \<and> pp_priority (m_piece_map s ! i) = dont_download then unfilter_counts i s else s"
  have T: "same_order s ?T" "same_dl s ?T" using filter_counts_frame by simp_all
  have e: "reprioritize i n s = upd_pos i (\<lambda>p. p\<lparr>pp_priority := n\<rparr>) ?T" by (simp add: reprioritize_def)
  show "\<exists>T. same_order s T \<and> reprioritize i n s = upd_pos i (\<lambda>p. p\<lparr>pp_priority := n\<rparr>) T" using T(1) e by blast
  show "same_dl s (reprioritize i n s)" unfolding e using same_dl_trans [OF T(2) same_dl_upd_pos] .
  show "m_piece_map (reprioritize i n s) = (m_piece_map s)[i := (m_piece_map s ! i)\<lparr>pp_priority := n\<rparr>]"
    unfolding e using T(1) by (simp add: upd_pos_def same_order_def)
qed

lemma reprioritize_tally:
  assumes ok: "tally_ok s" and i: "i < num_pieces s"
  shows "tally_ok (reprioritize i n s)"
proof -
  have l: "i < length (m_piece_map s)" using i by (simp add: num_pieces_def)
  have p: "pads (reprioritize i n s) = pads s"
    by (simp add: reprioritize_def filter_counts_def unfilter_counts_def Let_def pad_bytes_in_piece_def upd_pos_def)
  have h: "pos_have (q\<lparr>pp_priority := n\<rparr>) = pos_have q" "pos_filtered (q\<lparr>pp_priority := n\<rparr>) = (n = 0)" for q :: piece_pos
    by (simp_all add: pos_have_def pos_filtered_def)
  have f: "pos_filtered (m_piece_map s ! i) = (pp_priority (m_piece_map s ! i) = 0)" by (simp add: pos_filtered_def)
  show ?thesis unfolding tally_ok_def p reprioritize_shape(1) tally_upd [OF l] h f
    using ok by (simp add: reprioritize_def filter_counts_def unfilter_counts_def Let_def upd_pos_def tally_ok_def)
qed

lemma reprioritize_cursor:
  assumes ok: "cursor_ok s" and i: "i < num_pieces s"
  shows "cursor_ok (reprioritize i n s)"
proof -
  let ?p = "m_piece_map s ! i" and ?mp = "(m_piece_map s)[i := (m_piece_map s ! i)\<lparr>pp_priority := n\<rparr>]"
  have l: "i < length (m_piece_map s)" using i by (simp add: num_pieces_def)
  have n: "num_pieces (reprioritize i n s) = num_pieces s" by (simp add: num_pieces_def reprioritize_shape(1))
  have si: "skip_piece (?mp ! i) = (pos_have ?p \<or> n = 0)" using l by (simp add: skip_piece_def pos_have_def pos_filtered_def)
  have sk: "skip_piece (?mp ! j) = skip_piece (m_piece_map s ! j)" if "j \<noteq> i" for j using that by simp
  have C: "cursor_ok (reprioritize i n s)" if "m_cursor (reprioritize i n s) = advance_cursor ?mp 0"
    "m_reverse_cursor (reprioritize i n s) = retreat_cursor ?mp (num_pieces s)"
    using that unfolding cursor_ok_def n reprioritize_shape(1) by simp
  have same: "advance_cursor ?mp 0 = m_cursor s \<and> retreat_cursor ?mp (num_pieces s) = m_reverse_cursor s"
    if "skip_piece (?mp ! i) = skip_piece ?p"
  proof -
    have "skip_piece (?mp ! j) = skip_piece (m_piece_map s ! j)" for j using sk [of j] that by (cases "j = i") simp_all
    then show ?thesis using cursor_okD [OF ok] by (auto intro!: advance_cursor_eqI retreat_cursor_eqI simp: num_pieces_def)
  qed
  consider (out) "n = 0" "pp_priority ?p \<noteq> 0" "\<not> pos_have ?p" | (again) "n \<noteq> 0" "pp_priority ?p = 0" "\<not> pos_have ?p"
    | (stay) "pos_have ?p \<or> (n = 0) = (pp_priority ?p = 0)" by (cases "n = 0"; cases "pp_priority ?p = 0"; cases "pos_have ?p") auto
  then show ?thesis
  proof cases
    case out
    have ex: "excludes i ?mp s" using i si out sk by (auto simp: excludes_def num_pieces_def)
    have "m_cursor (cursors_exclude i (s\<lparr>m_piece_map := m_piece_map s\<rparr>)) = advance_cursor ?mp 0
        \<and> m_reverse_cursor (cursors_exclude i (s\<lparr>m_piece_map := m_piece_map s\<rparr>)) = retreat_cursor ?mp (num_pieces s)"
      by (rule cursors_exclude_ok [OF ok ex]) (simp_all add: num_pieces_def)
    moreover have "m_cursor (reprioritize i n s) = m_cursor (cursors_exclude i s)"
      "m_reverse_cursor (reprioritize i n s) = m_reverse_cursor (cursors_exclude i s)"
      using out by (simp_all add: reprioritize_def filter_counts_def Let_def upd_pos_def cursors_exclude_def num_pieces_def)
    ultimately show ?thesis by (intro C) simp_all
  next
    case again
    have "m_cursor (reprioritize i n s) = m_cursor (cursors_include i s)"
      "m_reverse_cursor (reprioritize i n s) = m_reverse_cursor (cursors_include i s)"
      using again by (simp_all add: reprioritize_def unfilter_counts_def Let_def upd_pos_def cursors_include_def num_pieces_def)
    moreover have "m_cursor (cursors_include i s) = advance_cursor ?mp 0"
      "m_reverse_cursor (cursors_include i s) = retreat_cursor ?mp (num_pieces s)"
      using cursors_include_ok [OF ok, of ?mp i] sk si again i by (simp_all add: num_pieces_def)
    ultimately show ?thesis by (intro C) simp_all
  next
    case stay
    have "skip_piece (?mp ! i) = skip_piece ?p" using si stay by (auto simp: skip_piece_def pos_filtered_def)
    from same [OF this] show ?thesis using stay
      by (intro C) (auto simp: reprioritize_def filter_counts_def unfilter_counts_def Let_def upd_pos_def)
  qed
qed

text \<open>The update of the partial piece at the end.\<close>

lemma refresh_partial_ok:
  assumes inv: "picker_inv s" and i: "i < num_pieces s"
  defines "s' \<equiv> (if queue_of s i \<noteq> piece_open
      then (if find_dl_piece s (queue_of s i) i \<noteq> length (m_downloads s (queue_of s i))
            then snd (update_piece_state (find_piece s i) s) else s) else s)"
  shows "picker_inv s'" "same_want s s'"
proof -
  note I = picker_invD [OF inv]
  have "picker_inv s' \<and> same_want s s'"
  proof (cases "queue_of s i \<noteq> piece_open \<and> find_dl_piece s (queue_of s i) i \<noteq> length (m_downloads s (queue_of s i))")
    case True
    then have op: "queue_of s i \<noteq> piece_open" by blast
    have u: "update_piece_state (find_piece s i) s = (fst (update_piece_state (find_piece s i) s), s')"
      using True by (simp add: s'_def)
    note mv = update_piece_state_ok [OF I(1,2,4) i op u]
    have "next_state s (dl_at s (find_piece s i)) \<noteq> piece_open" if "pp_state (m_piece_map s ! i) = piece_full"
    proof -
      have "0 < dp_requested (dl_at s (find_piece s i))"
        using I(3) find_piece_ok(2,3) [OF I(2) i op] that by (simp add: full_ok_def)
      then show ?thesis by (auto simp: next_state_def Let_def)
    qed
    then have "picker_inv s'" using mv by (auto simp: moved_def picker_inv_def dl_ok_def)
    then show ?thesis using update_piece_state_want [OF I(1,2) i op u] by blast
  next
    case False
    then have "s' = s" by (auto simp: s'_def)
    then show ?thesis using inv by simp
  qed
  then show "picker_inv s'" "same_want s s'" by blast+
qed

lemma refresh_partial_dirty:
  assumes inv: "picker_inv s" and i: "i < num_pieces s"
  shows "m_dirty (if queue_of s i \<noteq> piece_open
      then (if find_dl_piece s (queue_of s i) i \<noteq> length (m_downloads s (queue_of s i))
            then snd (update_piece_state (find_piece s i) s) else s) else s) = m_dirty s"
proof (cases "queue_of s i = piece_open")
  case False
  obtain X st where "reorders (upd_pos i (\<lambda>p. p\<lparr>pp_state := st\<rparr>) (s\<lparr>m_downloads := X\<rparr>)) (snd (update_piece_state (find_piece s i) s))"
    using update_piece_state_shape [OF picker_invD(1,2) [OF inv] i False prod.collapse [symmetric]] by blast
  from reorders_fields(2) [OF this] show ?thesis by (simp add: upd_pos_def)
qed simp

lemma set_piece_priority_eq:
  assumes "n \<noteq> pp_priority (m_piece_map s ! i)" "n < 8"
  defines "s3 \<equiv> sync_piece (priority_of s i) i (reprioritize i n s)"
  shows "set_piece_priority i n s = ((n = 0) \<noteq> (pp_priority (m_piece_map s ! i) = 0),
    if queue_of s3 i \<noteq> piece_open
    then (if find_dl_piece s3 (queue_of s3 i) i \<noteq> length (m_downloads s3 (queue_of s3 i))
          then snd (update_piece_state (find_piece s3 i) s3) else s3) else s3)"
proof -
  let ?p = "pp_priority (m_piece_map s ! i)"
  define T where "T = (if n = dont_download \<and> ?p \<noteq> dont_download then filter_counts i s
      else if n \<noteq> dont_download \<and> ?p = dont_download then unfilter_counts i s else s)"
  have r: "(if n = dont_download \<and> ?p \<noteq> dont_download then (True, filter_counts i s)
      else if n \<noteq> dont_download \<and> ?p = dont_download then (True, unfilter_counts i s) else (False, s))
      = ((n = 0) \<noteq> (?p = 0), T)"
    by (auto simp: T_def)
  have m: "n mod 8 = n" using assms(2) by simp
  have sy: "(if a \<noteq> priority_of x i \<and> \<not> m_dirty x then if a = -1 then picker_add i x else update_at (nat a) i x else x) = sync_piece a i x"
    for a x by (auto simp: sync_piece_def)
  have e: "upd_pos i (\<lambda>p. p\<lparr>pp_priority := n\<rparr>) T = reprioritize i n s" by (simp add: reprioritize_def T_def)
  show ?thesis
    unfolding set_piece_priority_def Let_def r prod.case m e sy s3_def [symmetric] downloading_iff queue_of_def [symmetric] queue_find
    using assms(1) by simp
qed

lemma set_piece_priority_ok:
  assumes inv: "full_inv s" and i: "i < num_pieces s" and n: "n < 8"
  defines "r \<equiv> fst (set_piece_priority i n s)" and "s' \<equiv> snd (set_piece_priority i n s)"
  shows "full_inv s'" "num_pieces s' = num_pieces s" "r \<longleftrightarrow> (n = 0) \<noteq> (piece_priority s i = 0)"
    "\<And>j. j < num_pieces s \<Longrightarrow> piece_priority s' j = (if j = i then n else piece_priority s j)"
    "\<And>j. j < num_pieces s \<Longrightarrow> have_piece s' j = have_piece s j" "m_dirty s' = m_dirty s"
proof -
  have "full_inv s' \<and> num_pieces s' = num_pieces s \<and> (r \<longleftrightarrow> (n = 0) \<noteq> (piece_priority s i = 0))
    \<and> (\<forall>j < num_pieces s. piece_priority s' j = (if j = i then n else piece_priority s j) \<and> have_piece s' j = have_piece s j)
    \<and> m_dirty s' = m_dirty s"
  proof (cases "n = pp_priority (m_piece_map s ! i)")
    case True
    then show ?thesis using inv by (simp add: r_def s'_def set_piece_priority_def piece_priority_def)
  next
    case ne: False
    note I = full_invD [OF inv]
    note inv0 = picker_invD(1) [OF I(1)]
    define s2 where "s2 = reprioritize i n s"
    obtain T where T: "same_order s T" "s2 = upd_pos i (\<lambda>p. p\<lparr>pp_priority := n\<rparr>) T"
      unfolding s2_def using reprioritize_shape(3) by blast
    note O = same_order_fields [OF T(1)]
    define s3 where "s3 = sync_piece (priority_of s i) i s2"
    have iT: "order_inv T" "i < num_pieces T" using inv0 i O by simp_all
    have okT: "pos_ok ((m_piece_map T ! i)\<lparr>pp_priority := n\<rparr>)"
      using picker_ok_nth [OF order_inv_ok [OF iT(1)] iT(2)] n by (simp add: pos_ok_def)
    have S3: "order_inv s3" "reorders s2 s3"
      using sync_piece_ok [where f = "\<lambda>p. p\<lparr>pp_priority := n\<rparr>", OF iT] okT O(3) by (simp_all add: s3_def T(2))
    have m2: "m_piece_map s2 = (m_piece_map s)[i := (m_piece_map s ! i)\<lparr>pp_priority := n\<rparr>]"
      by (simp add: s2_def reprioritize_shape)
    have n2: "num_pieces s2 = num_pieces s" using m2 by (simp add: num_pieces_def)
    have "pp_state (m_piece_map s2 ! j) = pp_state (m_piece_map s ! j)" if "j < num_pieces s" for j
      unfolding m2 using that by (cases "j = i") (auto simp: num_pieces_def)
    then have "dl_ok s2" using dl_ok_cong [OF reprioritize_shape(2) [of s i n]] I(1) by (simp add: s2_def picker_inv_def)
    then have p3: "picker_inv s3" using S3 reorders_dl_ok by (simp add: picker_inv_def)
    have "tally_ok s2" "cursor_ok s2" unfolding s2_def using reprioritize_tally [OF I(2) i] reprioritize_cursor [OF I(3) i] by simp_all
    then have f3: "full_inv s3"
      using p3 same_want_tally [OF reorders_want [OF S3(2)]] same_want_cursor [OF reorders_want [OF S3(2)]] by (simp add: full_inv_def)
    define s4 where "s4 = (if queue_of s3 i \<noteq> piece_open
      then (if find_dl_piece s3 (queue_of s3 i) i \<noteq> length (m_downloads s3 (queue_of s3 i))
            then snd (update_piece_state (find_piece s3 i) s3) else s3) else s3)"
    have i3: "i < num_pieces s3" using i n2 reorders_num_pieces [OF S3(2)] by simp
    note R = refresh_partial_ok [OF p3 i3, folded s4_def]
    have eq: "set_piece_priority i n s = ((n = 0) \<noteq> (pp_priority (m_piece_map s ! i) = 0), s4)"
      using ne n unfolding set_piece_priority_eq [OF ne n] s2_def [symmetric] s3_def [symmetric] s4_def [symmetric] by simp
    have f4: "full_inv s4" by (rule same_want_full [OF R(2,1) f3])
    have "same_want s2 s4" using same_want_trans [OF reorders_want [OF S3(2)] R(2)] .
    then have "num_pieces s4 = num_pieces s" "\<And>j. j < num_pieces s \<Longrightarrow> pp_priority (m_piece_map s4 ! j) = pp_priority (m_piece_map s2 ! j)
        \<and> pos_have (m_piece_map s4 ! j) = pos_have (m_piece_map s2 ! j)"
      using n2 by (simp_all add: same_want_def)
    moreover have "m_dirty s4 = m_dirty s"
      using refresh_partial_dirty [OF p3 i3, folded s4_def] reorders_fields(2) [OF S3(2)] O(6) by (simp add: T(2) upd_pos_def)
    ultimately show ?thesis using f4 eq m2 i
      by (auto simp: r_def s'_def piece_priority_def have_iff pos_have_def num_pieces_def nth_list_update)
  qed
  then show "full_inv s'" "num_pieces s' = num_pieces s" "r \<longleftrightarrow> (n = 0) \<noteq> (piece_priority s i = 0)"
    "\<And>j. j < num_pieces s \<Longrightarrow> piece_priority s' j = (if j = i then n else piece_priority s j)"
    "\<And>j. j < num_pieces s \<Longrightarrow> have_piece s' j = have_piece s j" "m_dirty s' = m_dirty s" by simp_all
qed

end
