(* ===== verification/Bitfield.thy ===== *)
theory Bitfield
  imports Prelude
begin

text \<open>
  \<open>bitfield\<close> (include/libtorrent/bitfield.hpp, src/bitfield.cpp): a vector of bits in a heap
  array of 32 bit words, the first of which is the number of bits. Bit 0 is the most
  significant bit of the first byte, so that the buffer is the BitTorrent bitfield message;
  the words are therefore accessed through \<open>host_to_network\<close>, here that of a little-endian
  host. The operations are shown to refine operations on a \<^typ>\<open>bool list\<close>, and the queries
  other components use are collected in a locale.
\<close>

unbundle bit_operations_syntax

section \<open>Words in network order\<close>

definition host_to_network :: "32 word \<Rightarrow> 32 word" where
  "host_to_network x =
     drop_bit 24 (x AND 0xff000000) OR drop_bit 8 (x AND 0x00ff0000)
     OR push_bit 8 (x AND 0x0000ff00) OR push_bit 24 (x AND 0x000000ff)"

text \<open>The mask of bit \<open>k\<close> of a word, as the code writes it.\<close>

definition bit_mask :: "nat \<Rightarrow> 32 word" where
  "bit_mask k = host_to_network (drop_bit k 0x80000000)"

text \<open>Where bit \<open>k\<close> (counted from the first byte's top bit) is in a host word.\<close>

definition net_pos :: "nat \<Rightarrow> nat" where
  "net_pos k = 8 * (k div 8) + (7 - k mod 8)"

abbreviation wbit :: "32 word \<Rightarrow> nat \<Rightarrow> bool" where
  "wbit w k \<equiv> bit w (net_pos k)"

lemma all_less_32: "(\<forall>k < 32. P k) \<longleftrightarrow> (\<forall>k \<in> set [0..<32]. P k)"
  by auto

lemma bit_host_to_network:
  assumes "i < 32"
  shows "bit (host_to_network x) i \<longleftrightarrow> bit x (24 - 8 * (i div 8) + i mod 8)"
proof -
  have "\<forall>i < 32. bit (host_to_network x) i \<longleftrightarrow> bit x (24 - 8 * (i div 8) + i mod 8)"
    unfolding all_less_32
    by (simp add: upt_rec host_to_network_def bit_and_iff bit_or_iff bit_push_bit_iff bit_drop_bit_eq
        bit_numeral_rec) (simp add: eval_nat_numeral)
  then show ?thesis using assms by blast
qed

lemma net_pos_lt [simp]: "k < 32 \<Longrightarrow> net_pos k < 32"
  unfolding net_pos_def by presburger

lemma net_pos_net_pos [simp]: "k < 32 \<Longrightarrow> net_pos (net_pos k) = k"
proof -
  have "\<forall>k < 32. net_pos (net_pos k) = k"
    unfolding all_less_32 by (simp add: upt_rec net_pos_def)
  then show "k < 32 \<Longrightarrow> net_pos (net_pos k) = k" by blast
qed

lemma net_pos_swap: "k < 32 \<Longrightarrow> 24 - 8 * (net_pos k div 8) + net_pos k mod 8 = 31 - k"
proof -
  have "\<forall>k < 32. 24 - 8 * (net_pos k div 8) + net_pos k mod 8 = 31 - k"
    unfolding all_less_32 by (simp add: upt_rec net_pos_def)
  then show "k < 32 \<Longrightarrow> 24 - 8 * (net_pos k div 8) + net_pos k mod 8 = 31 - k" by blast
qed

lemma wbit_host_to_network: "k < 32 \<Longrightarrow> wbit (host_to_network x) k \<longleftrightarrow> bit x (31 - k)"
  by (simp add: bit_host_to_network net_pos_swap)

declare bit_numeral_word_iff [simp del]

lemma word_eq_wbit: "w = v \<longleftrightarrow> (\<forall>k < 32. wbit w k \<longleftrightarrow> wbit v k)" for w v :: "32 word"
proof
  assume *: "\<forall>k < 32. wbit w k \<longleftrightarrow> wbit v k"
  show "w = v"
  proof (rule bit_word_eqI)
    fix n assume "n < LENGTH(32)"
    then show "bit w n \<longleftrightarrow> bit v n" using * [rule_format, of "net_pos n"] by simp
  qed
qed simp

lemma bit_top: "bit (0x80000000 :: 32 word) n \<longleftrightarrow> n = 31"
proof -
  have "(0x80000000 :: 32 word) = 2 ^ 31" by simp
  then show ?thesis by (simp only: bit_exp_iff) auto
qed

lemma bit_ones: "bit (0xffffffff :: 32 word) n \<longleftrightarrow> n < 32"
proof -
  have "(0xffffffff :: 32 word) = - 1" by simp
  then show ?thesis by (simp only: bit_minus_1_iff) simp
qed

lemma wbit_ones [simp]: "k < 32 \<Longrightarrow> wbit 0xffffffff k"
  by (simp add: bit_ones)

lemma wbit_mask: "k < 32 \<Longrightarrow> j < 32 \<Longrightarrow> wbit (bit_mask k) j \<longleftrightarrow> j = k"
  by (auto simp: bit_mask_def bit_drop_bit_eq bit_top wbit_host_to_network)

lemma mask_test: "k < 32 \<Longrightarrow> (w AND bit_mask k \<noteq> 0) \<longleftrightarrow> wbit w k"
  by (auto simp: word_eq_wbit [of _ 0] bit_and_iff wbit_mask)

lemma not_shift_mask: "host_to_network (NOT x) = NOT (host_to_network x)"
  by (auto simp: word_eq_wbit bit_not_iff wbit_host_to_network)

lemma wbit_high:
  "k < 32 \<Longrightarrow> r \<le> 32 \<Longrightarrow> wbit (host_to_network (push_bit (32 - r) 0xffffffff)) k \<longleftrightarrow> k < r"
  by (auto simp: bit_push_bit_iff bit_ones wbit_host_to_network)

lemma wbit_low: "k < 32 \<Longrightarrow> wbit (host_to_network (drop_bit r 0xffffffff)) k \<longleftrightarrow> r \<le> k"
  by (auto simp: bit_drop_bit_eq bit_ones wbit_host_to_network)

section \<open>The operations\<close>

text \<open>A null \<open>m_buf\<close> is the empty list.\<close>

record bitfield =
  m_buf :: "32 word list"

definition bf_size :: "bitfield \<Rightarrow> nat" where
  "bf_size b = (if m_buf b = [] then 0 else unat (m_buf b ! 0))"

definition num_words :: "bitfield \<Rightarrow> nat" where
  "num_words b = (bf_size b + 31) div 32"

definition num_bytes :: "bitfield \<Rightarrow> nat" where
  "num_bytes b = (bf_size b + 7) div 8"

definition bf_empty :: "bitfield \<Rightarrow> bool" where
  "bf_empty b \<longleftrightarrow> bf_size b = 0"

definition buf :: "bitfield \<Rightarrow> 32 word list" where
  "buf b = tl (m_buf b)"

definition set_buf :: "32 word list \<Rightarrow> bitfield \<Rightarrow> bitfield" where
  "set_buf ws b = b\<lparr>m_buf := m_buf b ! 0 # ws\<rparr>"

definition get_bit :: "bitfield \<Rightarrow> nat \<Rightarrow> bool" where
  "get_bit b index \<longleftrightarrow>
     (buf b ! (index div 32) AND host_to_network (drop_bit (index mod 32) 0x80000000)) \<noteq> 0"

definition clear_bit :: "nat \<Rightarrow> bitfield \<Rightarrow> bitfield" where
  "clear_bit index b =
     set_buf ((buf b)[index div 32 :=
       buf b ! (index div 32) AND host_to_network (NOT (drop_bit (index mod 32) 0x80000000))]) b"

definition set_bit :: "nat \<Rightarrow> bitfield \<Rightarrow> bitfield" where
  "set_bit index b =
     set_buf ((buf b)[index div 32 :=
       buf b ! (index div 32) OR host_to_network (drop_bit (index mod 32) 0x80000000)]) b"

definition clear_trailing_bits :: "bitfield \<Rightarrow> bitfield" where
  "clear_trailing_bits b =
     (if bf_size b mod 32 \<noteq> 0
      then set_buf ((buf b)[num_words b - 1 :=
             buf b ! (num_words b - 1)
             AND host_to_network (push_bit (32 - bf_size b mod 32) 0xffffffff)]) b
      else b)"

definition bf_clear :: "bitfield \<Rightarrow> bitfield" where
  "bf_clear b = b\<lparr>m_buf := []\<rparr>"

text \<open>
  Rounding up to words is written over \<^typ>\<open>nat\<close>: it is the code's for sizes up to \<open>2^31 - 32\<close>, beyond
  which \<open>bits + 31\<close> is no \<open>int\<close>.
\<close>

definition resize :: "nat \<Rightarrow> bitfield \<Rightarrow> bitfield" where
  "resize bits b =
     (if bits = bf_size b then b
      else if bits = 0 then b\<lparr>m_buf := []\<rparr>
      else
        let new_size_words = (bits + 31) div 32; cur_size_words = num_words b
        in clear_trailing_bits
             (if cur_size_words \<noteq> new_size_words
              then b\<lparr>m_buf := word_of_nat bits # take (min new_size_words cur_size_words) (buf b)
                                @ replicate (new_size_words - cur_size_words) 0\<rparr>
              else b\<lparr>m_buf := (m_buf b)[0 := word_of_nat bits]\<rparr>))"

definition resize_val :: "nat \<Rightarrow> bool \<Rightarrow> bitfield \<Rightarrow> bitfield" where
  "resize_val bits val b =
     (if bits = bf_size b then b
      else
        let s = bf_size b; r = s mod 32; b1 = resize bits b
        in if s \<ge> bf_size b1 then b1
           else
             let old_size_words = (s + 31) div 32; new_size_words = num_words b1
             in if val then
                  let ws = (if old_size_words \<noteq> 0 \<and> r \<noteq> 0
                            then (buf b1)[old_size_words - 1 :=
                                   buf b1 ! (old_size_words - 1)
                                   OR host_to_network (drop_bit r 0xffffffff)]
                            else buf b1);
                      ws' = (if old_size_words < new_size_words
                             then take old_size_words ws
                                  @ replicate (new_size_words - old_size_words) 0xffffffff
                             else ws)
                  in clear_trailing_bits (set_buf ws' b1)
                else if old_size_words < new_size_words
                then set_buf (take old_size_words (buf b1)
                       @ replicate (new_size_words - old_size_words) 0) b1
                else b1)"

definition set_all :: "bitfield \<Rightarrow> bitfield" where
  "set_all b =
     (if bf_size b = 0 then b
      else clear_trailing_bits (set_buf (replicate (num_words b) 0xffffffff) b))"

definition clear_all :: "bitfield \<Rightarrow> bitfield" where
  "clear_all b = (if bf_size b = 0 then b else set_buf (replicate (num_words b) 0) b)"

definition all_set :: "bitfield \<Rightarrow> bool" where
  "all_set b =
     (if bf_size b = 0 then False
      else
        let words = bf_size b div 32
        in (\<forall>i \<in> set [1..<words + 1]. m_buf b ! i = 0xffffffff) \<and>
           (let rest = bf_size b mod 32;
                mask = host_to_network (push_bit (32 - rest) 0xffffffff)
            in rest > 0 \<longrightarrow> (m_buf b ! (words + 1) AND mask) = mask))"

definition none_set :: "bitfield \<Rightarrow> bool" where
  "none_set b = (if bf_size b = 0 then True else \<forall>i \<in> set [0..<num_words b]. buf b ! i = 0)"

text \<open>\<open>popcnt\<close>, or \<open>__builtin_popcountl\<close>.\<close>

definition popcount :: "32 word \<Rightarrow> nat" where
  "popcount w = length (filter (bit w) [0..<32])"

definition bf_count :: "bitfield \<Rightarrow> nat" where
  "bf_count b = sum_list (map (\<lambda>i. popcount (m_buf b ! i)) [1..<num_words b + 1])"

definition bf_equal :: "bitfield \<Rightarrow> bitfield \<Rightarrow> bool" where
  "bf_equal lhs rhs =
     (if bf_size lhs \<noteq> bf_size rhs then False
      else take (num_words lhs) (buf lhs) = take (num_words lhs) (buf rhs))"

text \<open>\<open>__builtin_clz\<close>, for a word that is not 0.\<close>

definition builtin_clz :: "32 word \<Rightarrow> nat" where
  "builtin_clz v = length (takeWhile (\<lambda>i. \<not> bit v (31 - i)) [0..<32])"

fun count_leading_zeros_hw :: "nat \<Rightarrow> 32 word list \<Rightarrow> nat" where
  "count_leading_zeros_hw i [] = i * 32"
| "count_leading_zeros_hw i (w # ws) =
     (if w = 0 then count_leading_zeros_hw (i + 1) ws
      else i * 32 + builtin_clz (host_to_network w))"

definition find_first_set :: "bitfield \<Rightarrow> int" where
  "find_first_set b =
     (let num = num_words b
      in if num = 0 then -1
         else let count = count_leading_zeros_hw 0 (take num (drop 1 (m_buf b)))
              in if count \<noteq> num * 32 then int count else -1)"

section \<open>Refinement to a list of bits\<close>

definition buf_bit :: "32 word list \<Rightarrow> nat \<Rightarrow> bool" where
  "buf_bit ws i \<longleftrightarrow> wbit (ws ! (i div 32)) (i mod 32)"

definition bits_of :: "bitfield \<Rightarrow> bool list" where
  "bits_of b = map (get_bit b) [0..<bf_size b]"

text \<open>The representation: the words the size asks for, with no bit set past the end.\<close>

definition bf_ok :: "bitfield \<Rightarrow> bool" where
  "bf_ok b \<longleftrightarrow> m_buf b = [] \<or>
     0 < bf_size b \<and> bf_size b < 2 ^ 31 \<and> length (m_buf b) = num_words b + 1
     \<and> (\<forall>i \<in> set [bf_size b..<32 * num_words b]. \<not> buf_bit (buf b) i)"

lemma get_bit_buf: "get_bit b i = buf_bit (buf b) i"
  by (simp add: get_bit_def buf_bit_def bit_mask_def [symmetric] mask_test)

lemma length_bits_of [simp]: "length (bits_of b) = bf_size b"
  by (simp add: bits_of_def)

lemma bits_of_nth [simp]: "i < bf_size b \<Longrightarrow> bits_of b ! i = get_bit b i"
  by (simp add: bits_of_def)

lemma size_set_buf [simp]: "m_buf b \<noteq> [] \<Longrightarrow> bf_size (set_buf ws b) = bf_size b"
  by (simp add: bf_size_def set_buf_def)

lemma buf_set_buf [simp]: "buf (set_buf ws b) = ws"
  by (simp add: buf_def set_buf_def)

lemma m_buf_set_buf [simp]: "m_buf (set_buf ws b) = m_buf b ! 0 # ws"
  by (simp add: set_buf_def)

lemma num_words_set_buf [simp]: "m_buf b \<noteq> [] \<Longrightarrow> num_words (set_buf ws b) = num_words b"
  by (simp add: num_words_def)

lemma m_buf_buf: "m_buf b \<noteq> [] \<Longrightarrow> m_buf b ! Suc i = buf b ! i"
  by (cases "m_buf b") (simp_all add: buf_def)

lemma size_pos_m_buf: "0 < bf_size b \<Longrightarrow> m_buf b \<noteq> []"
  by (auto simp: bf_size_def)

lemma bf_okD:
  assumes "bf_ok b" "0 < bf_size b"
  shows "m_buf b \<noteq> []" "bf_size b < 2 ^ 31" "length (buf b) = num_words b"
    "\<And>i. bf_size b \<le> i \<Longrightarrow> i < 32 * num_words b \<Longrightarrow> \<not> buf_bit (buf b) i"
  using assms by (auto simp: bf_ok_def buf_def bf_size_def)

lemma bf_okI:
  assumes "0 < bf_size b" "bf_size b < 2 ^ 31" "length (buf b) = num_words b"
    "\<And>i. bf_size b \<le> i \<Longrightarrow> i < 32 * num_words b \<Longrightarrow> \<not> buf_bit (buf b) i"
  shows "bf_ok b"
  using assms by (cases "m_buf b") (auto simp: bf_ok_def buf_def)

lemma buf_bit_upd:
  "i div 32 < length ws \<Longrightarrow> buf_bit (ws[i div 32 := w]) j = (if j div 32 = i div 32 then wbit w (j mod 32) else buf_bit ws j)"
  by (auto simp: buf_bit_def nth_list_update)

lemma size_words: "bf_size b \<le> 32 * num_words b" "i < bf_size b \<Longrightarrow> i div 32 < num_words b"
  by (auto simp: num_words_def)

lemma same_word: "j div 32 = i div 32 \<Longrightarrow> j mod 32 = i mod 32 \<longleftrightarrow> j = i" for i j :: nat
  by (metis div_mult_mod_eq)

lemma set_bit_bits:
  assumes "bf_ok b" "i < bf_size b"
  shows "bf_ok (set_bit i b) \<and> bits_of (set_bit i b) = (bits_of b)[i := True]"
proof -
  have ok: "0 < bf_size b" using assms by simp
  note D = bf_okD [OF assms(1) ok]
  have w: "i div 32 < length (buf b)" using assms size_words D by simp
  have sz: "bf_size (set_bit i b) = bf_size b" "num_words (set_bit i b) = num_words b"
    using D(1) by (simp_all add: set_bit_def)
  have bit: "buf_bit (buf (set_bit i b)) j = (j = i \<or> buf_bit (buf b) j)" for j
  proof -
    have "wbit (bit_mask (i mod 32)) (j mod 32) = (j mod 32 = i mod 32)" by (simp add: wbit_mask)
    then show ?thesis using w same_word [of j i]
      by (auto simp: set_bit_def buf_bit_upd bit_or_iff buf_bit_def [of "buf b"] bit_mask_def [symmetric])
  qed
  have "bf_ok (set_bit i b)"
    by (rule bf_okI) (use D sz bit assms w in \<open>auto simp: set_bit_def\<close>)
  then show ?thesis using sz bit assms(2)
    by (auto simp: list_eq_iff_nth_eq nth_list_update get_bit_buf)
qed

lemma clear_bit_bits:
  assumes "bf_ok b" "i < bf_size b"
  shows "bf_ok (clear_bit i b) \<and> bits_of (clear_bit i b) = (bits_of b)[i := False]"
proof -
  have ok: "0 < bf_size b" using assms by simp
  note D = bf_okD [OF assms(1) ok]
  have w: "i div 32 < length (buf b)" using assms size_words D by simp
  have sz: "bf_size (clear_bit i b) = bf_size b" "num_words (clear_bit i b) = num_words b"
    using D(1) by (simp_all add: clear_bit_def)
  have bit: "buf_bit (buf (clear_bit i b)) j = (j \<noteq> i \<and> buf_bit (buf b) j)" for j
  proof -
    have "wbit (NOT (bit_mask (i mod 32))) (j mod 32) = (j mod 32 \<noteq> i mod 32)"
      by (simp add: wbit_mask bit_not_iff)
    then show ?thesis using w same_word [of j i]
      by (auto simp: clear_bit_def buf_bit_upd bit_and_iff buf_bit_def [of "buf b"] bit_mask_def [symmetric] not_shift_mask)
  qed
  have "bf_ok (clear_bit i b)"
    by (rule bf_okI) (use D sz bit assms w in \<open>auto simp: clear_bit_def\<close>)
  then show ?thesis using sz bit assms(2)
    by (auto simp: list_eq_iff_nth_eq nth_list_update get_bit_buf)
qed

text \<open>\<open>clear_trailing_bits\<close> establishes the representation and keeps the bits in range.\<close>

lemma clear_trailing_bits_ok:
  assumes "0 < bf_size b" "bf_size b < 2 ^ 31" "length (buf b) = num_words b"
  shows "bf_ok (clear_trailing_bits b)" "bf_size (clear_trailing_bits b) = bf_size b"
    "\<And>i. i < bf_size b \<Longrightarrow> get_bit (clear_trailing_bits b) i = get_bit b i"
    "length (buf (clear_trailing_bits b)) = num_words b"
proof -
  let ?c = "clear_trailing_bits b"
  define r where "r = bf_size b mod 32"
  define q where "q = bf_size b div 32"
  have n: "bf_size b = 32 * q + r" "r < 32" by (simp_all add: q_def r_def)
  have nw: "num_words b = (if r = 0 then q else Suc q)"
    using n by (auto simp: num_words_def)
  have mb: "m_buf b \<noteq> []" using assms(1) by (rule size_pos_m_buf)
  show sz: "bf_size ?c = bf_size b" using mb by (simp add: clear_trailing_bits_def)
  show len: "length (buf ?c) = num_words b" using mb assms by (simp add: clear_trailing_bits_def)
  have bit: "buf_bit (buf ?c) i = (buf_bit (buf b) i \<and> i < bf_size b)" if "i < 32 * num_words b" for i
  proof (cases "r = 0")
    case True
    then have "?c = b" by (simp add: clear_trailing_bits_def r_def)
    then show ?thesis using that True n(1) nw by simp
  next
    case False
    then have q: "num_words b - 1 = q" "q < length (buf b)" using nw assms by auto
    have qd: "q = (32 * q) div 32" by simp
    let ?m = "host_to_network (push_bit (32 - r) 0xffffffff)"
    have "buf_bit (buf ?c) i = (if i div 32 = q then wbit (buf b ! q AND ?m) (i mod 32) else buf_bit (buf b) i)"
      using False q buf_bit_upd [of "32 * q" "buf b" "buf b ! q AND ?m" i]
      by (simp add: clear_trailing_bits_def r_def [symmetric])
    also have "\<dots> = (buf_bit (buf b) i \<and> i < bf_size b)"
    proof (cases "i div 32 = q")
      case True
      then have "i < bf_size b \<longleftrightarrow> i mod 32 < r" using n by (metis add_less_cancel_left div_mult_mod_eq mult.commute)
      then show ?thesis using True n wbit_high [of "i mod 32" r]
        by (simp add: bit_and_iff buf_bit_def)
    next
      case d: False
      have "i div 32 < Suc q" using that nw False by auto
      then have "i div 32 < q" using d by simp
      then have "i < bf_size b" using n by simp
      then show ?thesis using d by simp
    qed
    finally show ?thesis .
  qed
  show "bf_ok ?c"
    by (rule bf_okI) (use assms sz len bit in \<open>auto simp: num_words_def [of ?c] num_words_def [of b]\<close>)
  show "get_bit ?c i = get_bit b i" if "i < bf_size b" for i
    using bit [of i] that size_words(1) [of b] by (simp add: get_bit_buf)
qed

lemma size_cons [simp]: "n < 2 ^ 31 \<Longrightarrow> bf_size (b\<lparr>m_buf := word_of_nat n # ws\<rparr>) = n"
  by (simp add: bf_size_def unat_of_nat)

lemma buf_cons [simp]: "buf (b\<lparr>m_buf := w # ws\<rparr>) = ws"
  by (simp add: buf_def)

lemma bits_of_bf_clear [simp]: "bits_of (bf_clear b) = []" "bf_ok (bf_clear b)"
  by (simp_all add: bits_of_def bf_clear_def bf_size_def bf_ok_def)

lemma size_0_m_buf: "bf_ok b \<Longrightarrow> bf_size b = 0 \<longleftrightarrow> m_buf b = []"
  by (auto simp: bf_ok_def bf_size_def)

lemma length_buf: "bf_ok b \<Longrightarrow> length (buf b) = num_words b"
  by (auto simp: bf_ok_def buf_def num_words_def bf_size_def)

lemma buf_bit_clear_tail:
  "bf_ok b \<Longrightarrow> bf_size b \<le> i \<Longrightarrow> i < 32 * num_words b \<Longrightarrow> \<not> buf_bit (buf b) i"
  by (auto simp: bf_ok_def num_words_def bf_size_def)

lemma resize_bits:
  assumes ok: "bf_ok b" and n: "n < 2 ^ 31"
  shows "bf_ok (resize n b) \<and> bits_of (resize n b) = vec_resize n False (bits_of b)"
proof (cases "n = bf_size b \<or> n = 0")
  case True
  then show ?thesis using ok bits_of_bf_clear [of b]
    by (auto simp: resize_def vec_resize_def bf_clear_def)
next
  case False
  let ?nw = "(n + 31) div 32" and ?cw = "num_words b"
  let ?ws = "take (min ?nw ?cw) (buf b) @ replicate (?nw - ?cw) 0"
  define b' where "b' = b\<lparr>m_buf := word_of_nat n # ?ws\<rparr>"
  have "?cw = ?nw \<Longrightarrow> (m_buf b)[0 := word_of_nat n] = word_of_nat n # ?ws"
    using length_buf [OF ok] False by (cases "m_buf b") (auto simp: buf_def num_words_def bf_size_def)
  then have eq: "resize n b = clear_trailing_bits b'"
    using False by (auto simp: resize_def b'_def Let_def)
  have sz: "bf_size b' = n" "buf b' = ?ws" using n by (simp_all add: b'_def)
  have nw: "num_words b' = ?nw" using sz by (simp add: num_words_def)
  have len: "length (buf b') = num_words b'" using sz(2) nw length_buf [OF ok] by simp
  have c: "bf_ok (resize n b)" "bf_size (resize n b) = n" "\<And>i. i < n \<Longrightarrow> get_bit (resize n b) i = get_bit b' i"
    using clear_trailing_bits_ok [OF _ _ len] sz n False by (simp_all add: eq)
  have "get_bit b' i = (i < bf_size b \<and> get_bit b i)" if "i < n" for i
  proof (cases "i div 32 < ?cw")
    case True
    then have "buf_bit ?ws i = buf_bit (buf b) i"
      using that length_buf [OF ok] by (auto simp: buf_bit_def nth_append)
    moreover have "\<not> buf_bit (buf b) i" if "\<not> i < bf_size b"
      by (rule buf_bit_clear_tail [OF ok]) (use that True in auto)
    ultimately show ?thesis using sz by (auto simp: get_bit_buf)
  next
    case False
    then have "\<not> i < bf_size b" using size_words by blast
    then show ?thesis using False sz length_buf [OF ok] that by (auto simp: get_bit_buf buf_bit_def nth_append)
  qed
  then show ?thesis using c by (auto simp: list_eq_iff_nth_eq vec_resize_def nth_append)
qed

lemma bits_of_eqI:
  "bf_size b = length xs \<Longrightarrow> (\<And>i. i < length xs \<Longrightarrow> get_bit b i = xs ! i) \<Longrightarrow> bits_of b = xs"
  by (simp add: list_eq_iff_nth_eq)

lemma buf_bit_replicate: "i div 32 < n \<Longrightarrow> buf_bit (replicate n w) i = wbit w (i mod 32)"
  by (simp add: buf_bit_def)

lemma set_all_bits:
  assumes "bf_ok b"
  shows "bf_ok (set_all b) \<and> bits_of (set_all b) = replicate (bf_size b) True"
proof (cases "bf_size b = 0")
  case True
  then show ?thesis using assms by (simp add: set_all_def bits_of_def)
next
  case False
  then have D: "m_buf b \<noteq> []" "bf_size b < 2 ^ 31" using bf_okD [OF assms] by auto
  let ?b = "set_buf (replicate (num_words b) 0xffffffff) b"
  have c: "bf_ok (set_all b)" "bf_size (set_all b) = bf_size b"
    "\<And>i. i < bf_size b \<Longrightarrow> get_bit (set_all b) i = get_bit ?b i"
    using clear_trailing_bits_ok [of ?b] D False by (simp_all add: set_all_def)
  have "get_bit ?b i" if "i < bf_size b" for i
    using that size_words(2) [OF that] by (simp add: get_bit_buf buf_bit_replicate)
  then show ?thesis using c by (auto intro!: bits_of_eqI)
qed

lemma clear_all_bits:
  assumes "bf_ok b"
  shows "bf_ok (clear_all b) \<and> bits_of (clear_all b) = replicate (bf_size b) False"
proof (cases "bf_size b = 0")
  case True
  then show ?thesis using assms by (simp add: clear_all_def bits_of_def)
next
  case False
  then have D: "m_buf b \<noteq> []" "bf_size b < 2 ^ 31" using bf_okD [OF assms] by auto
  let ?b = "set_buf (replicate (num_words b) 0) b"
  have *: "\<not> buf_bit (buf ?b) i" if "i < 32 * num_words b" for i
    using that by (simp add: buf_bit_replicate)
  have "bf_ok ?b" by (rule bf_okI) (use D False * in auto)
  moreover have "\<not> get_bit ?b i" if "i < bf_size b" for i
    using that size_words(1) [of b] * [of i] by (simp add: get_bit_buf)
  moreover have "bf_size ?b = bf_size b" using D by simp
  moreover have "clear_all b = ?b" using False by (simp add: clear_all_def)
  ultimately show ?thesis by (auto intro!: bits_of_eqI)
qed

lemma words_partial:
  fixes s :: nat
  assumes "s mod 32 \<noteq> 0"
  shows "(s + 31) div 32 = s div 32 + 1"
proof -
  define q r where "q = s div 32" and "r = s mod 32 - 1"
  have "s mod 32 = r + 1" "r < 32" using assms by (simp_all add: r_def less_imp_diff_less)
  then have "s + 31 = r + (q + 1) * 32" using mult_div_mod_eq [of 32 s] by (simp add: q_def)
  then have "(s + 31) div 32 = (q + 1) + r div 32" by (metis div_mult_self1 zero_neq_numeral)
  then show ?thesis using \<open>r < 32\<close> by (simp add: q_def)
qed

lemma resize_val_bits:
  assumes ok: "bf_ok b" and n: "n < 2 ^ 31"
  shows "bf_ok (resize_val n v b) \<and> bits_of (resize_val n v b) = vec_resize n v (bits_of b)"
proof (cases "n \<le> bf_size b")
  case True
  have "bf_size (resize n b) = n" using resize_bits [OF ok n] by (metis length_bits_of length_vec_resize)
  then have "resize_val n v b = resize n b" using True
    by (simp add: resize_val_def resize_def [of "bf_size b"])
  then show ?thesis using resize_bits [OF ok n] True by (simp add: vec_resize_def)
next
  case False
  define s where "s = bf_size b"
  define b1 where "b1 = resize n b"
  have R: "bf_ok b1" "bits_of b1 = vec_resize n False (bits_of b)"
    using resize_bits [OF ok n] by (simp_all add: b1_def)
  have sz: "bf_size b1 = n" using R(2) by (metis length_bits_of length_vec_resize)
  have bit1: "get_bit b1 i = (i < s \<and> get_bit b i)" if "i < n" for i
  proof -
    have "get_bit b1 i = bits_of b1 ! i" using that sz by simp
    then show ?thesis using R(2) that by (simp add: vec_resize_def nth_append s_def)
  qed
  have D: "m_buf b1 \<noteq> []" "length (buf b1) = num_words b1"
    using bf_okD [OF R(1)] sz False by auto
  define ow where "ow = (s + 31) div 32"
  define nw where "nw = num_words b1"
  have now: "ow \<le> nw" using False sz by (simp add: ow_def nw_def num_words_def s_def div_le_mono)
  define ws where "ws = (if ow \<noteq> 0 \<and> s mod 32 \<noteq> 0
      then (buf b1)[ow - 1 := buf b1 ! (ow - 1) OR host_to_network (drop_bit (s mod 32) 0xffffffff)] else buf b1)"
  define ws' where "ws' = take ow ws @ replicate (nw - ow) (0xffffffff :: 32 word)"
  have lw: "length ws = nw" using D by (simp add: ws_def nw_def)
  have eqT: "resize_val n True b = clear_trailing_bits (set_buf ws' b1)"
  proof -
    have "ws' = (if ow < nw then take ow ws @ replicate (nw - ow) 0xffffffff else ws)"
      using lw now by (simp add: ws'_def)
    then show ?thesis using False sz
      unfolding resize_val_def Let_def b1_def [symmetric] s_def [symmetric] ow_def [symmetric] nw_def [symmetric]
        ws_def [symmetric] by (simp add: s_def)
  qed
  have bitT: "get_bit (set_buf ws' b1) i = (i < s \<longrightarrow> get_bit b i)" if i: "i < n" for i
  proof -
    have b1i: "buf_bit (buf b1) i = (i < s \<and> get_bit b i)" using bit1 [OF i] by (simp add: get_bit_buf)
    have inw: "i div 32 < nw" using i sz size_words(2) by (metis nw_def)
    show ?thesis
    proof (cases "i div 32 < ow")
      case False
      then have "\<not> i < s" by (auto simp: ow_def)
      then show ?thesis using False inw now lw
        by (simp add: get_bit_buf buf_bit_def ws'_def nth_append)
    next
      case True
      then have e: "buf_bit ws' i = buf_bit ws i" using lw now by (simp add: buf_bit_def ws'_def nth_append)
      show ?thesis
      proof (cases "i div 32 = ow - 1 \<and> s mod 32 \<noteq> 0")
        case False
        then have "i < s" using True by (auto simp: ow_def)
        moreover have "buf_bit ws i = buf_bit (buf b1) i"
          using False by (auto simp: ws_def buf_bit_def nth_list_update)
        ultimately show ?thesis using e b1i by (simp add: get_bit_buf)
      next
        case c: True
        have "ow = s div 32 + 1" using c words_partial by (simp add: ow_def)
        then have "s div 32 = i div 32" using c by simp
        then have lt: "i < s \<longleftrightarrow> i mod 32 < s mod 32" by (metis add_less_cancel_left mult_div_mod_eq)
        have "buf_bit ws i = (buf_bit (buf b1) i \<or> s mod 32 \<le> i mod 32)"
          using c True now D inw by (auto simp: ws_def buf_bit_def nw_def bit_or_iff wbit_low)
        then show ?thesis using e b1i lt by (auto simp: get_bit_buf)
      qed
    qed
  qed
  show ?thesis
  proof (cases v)
    case True
    have c: "bf_ok (resize_val n v b)" "bf_size (resize_val n v b) = n"
       "\<And>i. i < n \<Longrightarrow> get_bit (resize_val n v b) i = get_bit (set_buf ws' b1) i"
      using clear_trailing_bits_ok [of "set_buf ws' b1"] D sz n False True lw now
      by (simp_all add: eqT ws'_def nw_def)
    then show ?thesis using True bitT
      by (auto intro!: bits_of_eqI simp: nth_vec_resize s_def)
  next
    case v: False
    have "take ow (buf b1) @ replicate (nw - ow) 0 = buf b1"
    proof (rule nth_equalityI)
      fix j assume j: "j < length (take ow (buf b1) @ replicate (nw - ow) 0)"
      have "buf b1 ! j = 0" if "ow \<le> j" "j < nw"
        unfolding word_eq_wbit
      proof (intro allI impI)
        fix k :: nat assume k: "k < 32"
        have "\<not> buf_bit (buf b1) (32 * j + k)"
        proof (cases "32 * j + k < n")
          case True
          moreover have "\<not> 32 * j + k < s" using that by (auto simp: ow_def)
          ultimately show ?thesis using bit1 by (simp add: get_bit_buf)
        next
          case False
          then show ?thesis using buf_bit_clear_tail [OF R(1)] that k sz by (simp add: nw_def)
        qed
        then show "wbit (buf b1 ! j) k = wbit 0 k" using k by (simp add: buf_bit_def)
      qed
      then show "(take ow (buf b1) @ replicate (nw - ow) 0) ! j = buf b1 ! j"
        using j now D by (simp add: nth_append nw_def)
    qed (use now D in \<open>simp add: nw_def\<close>)
    moreover have "set_buf (buf b1) b1 = b1" using D by (cases "m_buf b1") (simp_all add: set_buf_def buf_def)
    ultimately have "resize_val n v b = b1"
      using v False sz unfolding resize_val_def Let_def b1_def [symmetric] s_def [symmetric] ow_def [symmetric] nw_def [symmetric]
      by (simp add: s_def)
    then show ?thesis using R v by simp
  qed
qed

section \<open>Queries\<close>

lemma word_zero_wbit: "w = 0 \<longleftrightarrow> (\<forall>k < 32. \<not> wbit w k)"
  by (simp add: word_eq_wbit)

lemma all_less_add: "(\<forall>i < a + r. P i) \<longleftrightarrow> (\<forall>i < a. P i) \<and> (\<forall>k < r. P (a + k))" for a r :: nat
proof -
  have "P i" if "\<forall>i < a. P i" "\<forall>k < r. P (a + k)" "i < a + r" for i
    using that(1,2) spec [OF that(2), of "i - a"] that(3) by (cases "i < a") auto
  then show ?thesis by auto
qed

lemma all_words:
  "(\<forall>j < n. \<forall>k < 32. P (32 * j + k)) \<longleftrightarrow> (\<forall>i < 32 * n. P i)" for n :: nat
proof
  assume *: "\<forall>j < n. \<forall>k < 32. P (32 * j + k)"
  show "\<forall>i < 32 * n. P i"
  proof (intro allI impI)
    fix i assume "i < 32 * n"
    then have "i div 32 < n" by auto
    with * have "P (32 * (i div 32) + i mod 32)" by (meson mod_less_divisor zero_less_numeral)
    then show "P i" by simp
  qed
qed auto

lemma buf_bit_word: "k < 32 \<Longrightarrow> buf_bit ws (32 * j + k) = wbit (ws ! j) k"
  by (simp add: buf_bit_def)

lemma none_set_bits:
  assumes ok: "bf_ok b"
  shows "none_set b \<longleftrightarrow> (\<forall>i < bf_size b. \<not> get_bit b i)"
proof (cases "bf_size b = 0")
  case False
  have "none_set b \<longleftrightarrow> (\<forall>j < num_words b. \<forall>k < 32. \<not> buf_bit (buf b) (32 * j + k))"
    using False by (auto simp: none_set_def word_zero_wbit buf_bit_word)
  also have "\<dots> \<longleftrightarrow> (\<forall>i < 32 * num_words b. \<not> buf_bit (buf b) i)" by (rule all_words)
  also have "\<dots> \<longleftrightarrow> (\<forall>i < bf_size b. \<not> get_bit b i)"
    using buf_bit_clear_tail [OF ok] size_words(1) [of b]
    by (metis get_bit_buf linorder_not_le order_less_le_trans)
  finally show ?thesis .
qed (simp add: none_set_def)

lemma all_set_bits:
  assumes ok: "bf_ok b"
  shows "all_set b \<longleftrightarrow> 0 < bf_size b \<and> (\<forall>i < bf_size b. get_bit b i)"
proof (cases "bf_size b = 0")
  case False
  then have mb: "m_buf b \<noteq> []" using size_pos_m_buf by blast
  define q r where "q = bf_size b div 32" and "r = bf_size b mod 32"
  have n: "bf_size b = 32 * q + r" "r < 32" by (simp_all add: q_def r_def)
  have full: "m_buf b ! Suc j = 0xffffffff \<longleftrightarrow> (\<forall>k < 32. buf_bit (buf b) (32 * j + k))" for j
    using mb by (auto simp: m_buf_buf word_eq_wbit buf_bit_word)
  have "set [1..<q + 1] = Suc ` {..<q}"
    by (simp only: set_upt image_Suc_lessThan) auto
  then have "(\<forall>i \<in> set [1..<q + 1]. m_buf b ! i = 0xffffffff) \<longleftrightarrow> (\<forall>j < q. m_buf b ! Suc j = 0xffffffff)"
    by (simp only: ball_simps lessThan_iff Ball_def) blast
  also have "\<dots> \<longleftrightarrow> (\<forall>i < 32 * q. buf_bit (buf b) i)"
    unfolding full by (rule all_words)
  finally have A: "(\<forall>i \<in> set [1..<q + 1]. m_buf b ! i = 0xffffffff) \<longleftrightarrow> (\<forall>i < 32 * q. buf_bit (buf b) i)" .
  let ?m = "host_to_network (push_bit (32 - r) 0xffffffff)"
  have "(m_buf b ! (q + 1) AND ?m) = ?m \<longleftrightarrow> (\<forall>k < 32. k < r \<longrightarrow> wbit (buf b ! q) k)"
  proof -
    have "wbit (buf b ! q AND ?m) k = wbit ?m k \<longleftrightarrow> (k < r \<longrightarrow> wbit (buf b ! q) k)" if "k < 32" for k
      using wbit_high [OF that, of r] n(2) by (auto simp only: bit_and_iff)
    then have "(buf b ! q AND ?m) = ?m \<longleftrightarrow> (\<forall>k < 32. k < r \<longrightarrow> wbit (buf b ! q) k)"
      unfolding word_eq_wbit by blast
    then show ?thesis using m_buf_buf [OF mb, of q] by simp
  qed
  also have "\<dots> \<longleftrightarrow> (\<forall>k < r. buf_bit (buf b) (32 * q + k))"
    using n(2) by (auto simp: buf_bit_word)
  finally have B: "(m_buf b ! (q + 1) AND ?m) = ?m \<longleftrightarrow> (\<forall>k < r. buf_bit (buf b) (32 * q + k))" .
  have C: "(\<forall>i < bf_size b. get_bit b i) \<longleftrightarrow>
      (\<forall>i < 32 * q. buf_bit (buf b) i) \<and> (\<forall>k < r. buf_bit (buf b) (32 * q + k))"
    unfolding get_bit_buf n(1) by (rule all_less_add)
  have "all_set b \<longleftrightarrow> (\<forall>i \<in> set [1..<q + 1]. m_buf b ! i = 0xffffffff) \<and> (r > 0 \<longrightarrow> (m_buf b ! (q + 1) AND ?m) = ?m)"
    using False unfolding all_set_def Let_def q_def [symmetric] r_def [symmetric] by simp
  then show ?thesis using A B C False by auto
qed (simp add: all_set_def)

text \<open>The bits of the whole buffer, the padding of the last word included.\<close>

definition word_bits :: "32 word list \<Rightarrow> bool list" where
  "word_bits ws = concat (map (\<lambda>w. map (wbit w) [0..<32]) ws)"

lemma length_word_bits [simp]: "length (word_bits ws) = 32 * length ws"
  by (induction ws) (simp_all add: word_bits_def)

lemma word_bits_nth: "i < 32 * length ws \<Longrightarrow> word_bits ws ! i = buf_bit ws i"
proof (induction ws arbitrary: i)
  case (Cons w ws)
  show ?case
  proof (cases "i < 32")
    case True
    then show ?thesis by (simp add: word_bits_def buf_bit_def nth_append)
  next
    case False
    then have "(i - 32) div 32 = i div 32 - 1" "(i - 32) mod 32 = i mod 32" "i div 32 \<noteq> 0"
      by (simp_all add: le_mod_geq le_div_geq)
    then have "buf_bit (w # ws) i = buf_bit ws (i - 32)"
      by (cases "i div 32") (simp_all add: buf_bit_def)
    then show ?thesis using Cons.IH [of "i - 32"] Cons.prems False
      by (simp add: word_bits_def nth_append)
  qed
qed simp

lemma word_bits_pad:
  assumes "bf_ok b"
  shows "word_bits (buf b) = bits_of b @ replicate (32 * num_words b - bf_size b) False"
proof (rule nth_equalityI)
  show "length (word_bits (buf b)) = length (bits_of b @ replicate (32 * num_words b - bf_size b) False)"
    using length_buf [OF assms] size_words(1) [of b] by simp
next
  fix i assume "i < length (word_bits (buf b))"
  then have i: "i < 32 * num_words b" using length_buf [OF assms] by simp
  then have "word_bits (buf b) ! i = buf_bit (buf b) i" using length_buf [OF assms] by (simp add: word_bits_nth)
  then show "word_bits (buf b) ! i = (bits_of b @ replicate (32 * num_words b - bf_size b) False) ! i"
    using buf_bit_clear_tail [OF assms _ i] i by (cases "i < bf_size b") (auto simp: nth_append get_bit_buf)
qed

lemma popcount_wbit: "popcount w = length (filter (wbit w) [0..<32])"
proof -
  have "bij_betw net_pos {k. k < 32 \<and> wbit w k} {i. i < 32 \<and> bit w i}"
    by (rule bij_betw_byWitness [of _ net_pos]) auto
  then have "card {k. k < 32 \<and> wbit w k} = card {i. i < 32 \<and> bit w i}" by (rule bij_betw_same_card)
  moreover have "length (filter P [0..<32]) = card {i. i < 32 \<and> P i}" for P :: "nat \<Rightarrow> bool"
  proof -
    have "length (filter P [0..<32]) = card (set (filter P [0..<32]))"
      by (rule distinct_card [symmetric]) simp
    also have "set (filter P [0..<32]) = {i. i < 32 \<and> P i}" by auto
    finally show ?thesis .
  qed
  ultimately show ?thesis by (simp add: popcount_def)
qed

lemma length_filter_map_id: "length (filter id (map f xs)) = length (filter f xs)"
  by (induction xs) auto

lemma count_bits:
  assumes ok: "bf_ok b"
  shows "bf_count b = length (filter id (bits_of b))"
proof (cases "m_buf b = []")
  case False
  have "map (\<lambda>i. popcount (m_buf b ! i)) [1..<num_words b + 1] = map (\<lambda>i. popcount (buf b ! i)) [0..<num_words b]"
    using m_buf_buf [OF False] by (simp add: map_Suc_upt [symmetric] comp_def del: upt_Suc)
  also have "\<dots> = map popcount (buf b)"
    using length_buf [OF ok] by (intro nth_equalityI) simp_all
  finally have "bf_count b = sum_list (map popcount (buf b))" by (simp only: bf_count_def)
  also have "map popcount (buf b) = map (\<lambda>w. length (filter (wbit w) [0..<32])) (buf b)"
    by (simp add: popcount_wbit)
  also have "sum_list \<dots> = length (filter id (word_bits (buf b)))"
    by (simp add: word_bits_def filter_concat length_concat length_filter_map_id comp_def)
  finally show ?thesis by (simp add: word_bits_pad [OF ok])
qed (simp add: bf_count_def bits_of_def num_words_def bf_size_def)

lemma equal_bits:
  assumes "bf_ok a" "bf_ok b"
  shows "bf_equal a b \<longleftrightarrow> bits_of a = bits_of b"
proof (cases "bf_size a = bf_size b")
  case True
  then have nw: "num_words a = num_words b" by (simp add: num_words_def)
  have "bf_equal a b \<longleftrightarrow> buf a = buf b"
    using True nw length_buf [OF assms(1)] length_buf [OF assms(2)] by (simp add: bf_equal_def)
  also have "\<dots> \<longleftrightarrow> word_bits (buf a) = word_bits (buf b)"
  proof
    assume *: "word_bits (buf a) = word_bits (buf b)"
    show "buf a = buf b"
    proof (rule nth_equalityI)
      fix j assume j: "j < length (buf a)"
      show "buf a ! j = buf b ! j" unfolding word_eq_wbit
      proof (intro allI impI)
        fix k :: nat assume k: "k < 32"
        have "word_bits (buf a) ! (32 * j + k) = word_bits (buf b) ! (32 * j + k)" using * by simp
        then show "wbit (buf a ! j) k = wbit (buf b ! j) k"
          using j k nw length_buf [OF assms(1)] length_buf [OF assms(2)] by (simp add: word_bits_nth buf_bit_word)
      qed
    qed (use nw length_buf [OF assms(1)] length_buf [OF assms(2)] in simp)
  qed simp
  also have "\<dots> \<longleftrightarrow> bits_of a = bits_of b" using True nw by (simp add: word_bits_pad assms)
  finally show ?thesis .
next
  case False
  then have "bits_of a \<noteq> bits_of b" by (metis length_bits_of)
  then show ?thesis using False by (simp add: bf_equal_def)
qed

lemma bit_host_to_network_rev:
  assumes "k < 32"
  shows "bit (host_to_network w) (31 - k) = wbit w k"
proof -
  have "\<forall>k < 32. 24 - 8 * ((31 - k) div 8) + (31 - k) mod 8 = net_pos k"
    unfolding all_less_32 by (simp add: upt_rec net_pos_def)
  then show ?thesis using assms by (simp add: bit_host_to_network)
qed

lemma clz_word: "builtin_clz (host_to_network w) = length (takeWhile Not (map (wbit w) [0..<32]))"
proof -
  have "takeWhile (\<lambda>i. \<not> bit (host_to_network w) (31 - i)) [0..<32] = takeWhile (\<lambda>i. \<not> wbit w i) [0..<32]"
    by (rule takeWhile_cong) (auto simp: bit_host_to_network_rev)
  then show ?thesis by (simp add: builtin_clz_def takeWhile_map comp_def)
qed

lemma count_leading_zeros_bits:
  "count_leading_zeros_hw i ws = 32 * i + length (takeWhile Not (word_bits ws))"
proof (induction ws arbitrary: i)
  case (Cons w ws)
  have split: "word_bits (w # ws) = map (wbit w) [0..<32] @ word_bits ws" by (simp add: word_bits_def)
  show ?case
  proof (cases "w = 0")
    case True
    then have "takeWhile Not (word_bits (w # ws)) = map (wbit w) [0..<32] @ takeWhile Not (word_bits ws)"
      unfolding split by (intro takeWhile_append2) auto
    then show ?thesis using True Cons.IH [of "Suc i"] by simp
  next
    case False
    then obtain k where "k < 32" "wbit w k" by (auto simp: word_zero_wbit)
    then have "takeWhile Not (word_bits (w # ws)) = takeWhile Not (map (wbit w) [0..<32])"
      unfolding split by (intro takeWhile_append1 [of True]) auto
    then show ?thesis using False by (simp add: clz_word)
  qed
qed (simp add: word_bits_def)

lemma find_first_set_bits:
  assumes ok: "bf_ok b"
  shows "find_first_set b = (if True \<in> set (bits_of b) then int (length (takeWhile Not (bits_of b))) else -1)"
proof (cases "num_words b = 0")
  case True
  then have "bf_size b = 0" by (simp add: num_words_def)
  then show ?thesis using True by (simp add: find_first_set_def bits_of_def)
next
  case False
  have buf: "take (num_words b) (drop 1 (m_buf b)) = buf b"
    using length_buf [OF ok] by (simp add: buf_def drop_Suc)
  let ?pad = "replicate (32 * num_words b - bf_size b) False"
  have len: "length (word_bits (buf b)) = 32 * num_words b" using length_buf [OF ok] by simp
  show ?thesis
  proof (cases "True \<in> set (bits_of b)")
    case True
    then have "takeWhile Not (word_bits (buf b)) = takeWhile Not (bits_of b)"
      unfolding word_bits_pad [OF ok] by (intro takeWhile_append1 [of True]) auto
    moreover have "length (takeWhile Not (bits_of b)) < bf_size b"
      using True length_takeWhile_le [of Not "bits_of b"] takeWhile_eq_all_conv [of Not "bits_of b"]
        takeWhile_eq_take [of Not "bits_of b"] by (metis (full_types) le_neq_implies_less length_bits_of take_all_iff order_refl)
    ultimately show ?thesis using True False size_words(1) [of b] buf
      by (simp add: find_first_set_def Let_def count_leading_zeros_bits)
  next
    case n: False
    then have "takeWhile Not (word_bits (buf b)) = word_bits (buf b)"
      unfolding word_bits_pad [OF ok] takeWhile_eq_all_conv by auto
    then have "length (takeWhile Not (word_bits (buf b))) = num_words b * 32"
      using len by (metis mult.commute)
    then show ?thesis using n False buf by (simp add: find_first_set_def Let_def count_leading_zeros_bits)
  qed
qed

section \<open>Bytes\<close>

text \<open>Byte \<open>j\<close> of a word in memory, and \<open>memcpy\<close> into the buffer.\<close>

definition set_byte :: "32 word \<Rightarrow> nat \<Rightarrow> 8 word \<Rightarrow> 32 word" where
  "set_byte w j c = (w AND NOT (push_bit (8 * j) 0xff)) OR push_bit (8 * j) (ucast c)"

fun store_bytes :: "nat \<Rightarrow> 8 word list \<Rightarrow> 32 word list \<Rightarrow> 32 word list" where
  "store_bytes i [] ws = ws"
| "store_bytes i (c # cs) ws =
     store_bytes (i + 1) cs (ws[i div 4 := set_byte (ws ! (i div 4)) (i mod 4) c])"

definition assign :: "8 word list \<Rightarrow> nat \<Rightarrow> bitfield \<Rightarrow> bitfield" where
  "assign cs bits b =
     (let b1 = resize bits b
      in if bits > 0
         then clear_trailing_bits (set_buf (store_bytes 0 (take ((bits + 7) div 8) cs) (buf b1)) b1)
         else b1)"

definition data :: "bitfield \<Rightarrow> 8 word list" where
  "data b = map (\<lambda>i. ucast (drop_bit (8 * (i mod 4)) (buf b ! (i div 4)))) [0..<num_bytes b]"

lemma bit_set_byte:
  assumes "n < 32" "j < 4"
  shows "bit (set_byte w j c) n = (if n div 8 = j then bit c (n mod 8) else bit w n)"
proof -
  have ff: "bit (0xff :: 32 word) m \<longleftrightarrow> m < 8" for m
  proof -
    have "(0xff :: 32 word) = mask 8" by (simp add: mask_eq_exp_minus_1)
    then show ?thesis by (simp only: bit_mask_iff) auto
  qed
  have "n div 8 = j \<longleftrightarrow> 8 * j \<le> n \<and> n - 8 * j < 8" by auto
  moreover have "n div 8 = j \<Longrightarrow> n - 8 * j = n mod 8" by (auto simp: minus_mult_div_eq_mod)
  ultimately show ?thesis using assms bit_imp_le_length [of c]
    by (auto simp: set_byte_def bit_or_iff bit_and_iff bit_not_iff bit_push_bit_iff ff bit_ucast_iff)
qed

lemma length_store_bytes [simp]: "length (store_bytes i cs ws) = length ws"
  by (induction cs arbitrary: i ws) simp_all

text \<open>Bit \<open>k\<close> of the buffer is bit \<open>7 - k mod 8\<close> of byte \<open>k div 8\<close>: most significant first.\<close>

lemma net_pos_byte: "m < 32 \<Longrightarrow> net_pos m div 8 = m div 8" "m < 32 \<Longrightarrow> net_pos m mod 8 = 7 - m mod 8"
proof -
  have "\<forall>m < 32. net_pos m div 8 = m div 8 \<and> net_pos m mod 8 = 7 - m mod 8"
    unfolding all_less_32 by (simp add: upt_rec net_pos_def)
  then show "m < 32 \<Longrightarrow> net_pos m div 8 = m div 8" "m < 32 \<Longrightarrow> net_pos m mod 8 = 7 - m mod 8" by blast+
qed

lemma byte_in_word: "k mod 32 div 8 = k div 8 mod 4" "k div 32 = k div 8 div 4" for k :: nat
  using mod_mult2_eq [of k 8 4] by (simp_all add: div_mult2_eq [symmetric])

lemma buf_bit_set_byte:
  assumes "i div 4 < length ws"
  shows "buf_bit (ws[i div 4 := set_byte (ws ! (i div 4)) (i mod 4) c]) k
       = (if k div 8 = i then bit c (7 - k mod 8) else buf_bit ws k)"
proof -
  have np: "net_pos (k mod 32) div 8 = k mod 32 div 8" "net_pos (k mod 32) mod 8 = 7 - k mod 8"
    using net_pos_byte [of "k mod 32"] by (simp_all add: mod_mod_cancel)
  have eq: "k div 8 = i \<longleftrightarrow> k div 32 = i div 4 \<and> k mod 32 div 8 = i mod 4"
    unfolding byte_in_word by (metis div_mult_mod_eq)
  show ?thesis
  proof (cases "k div 32 = i div 4")
    case True
    then show ?thesis using assms np eq by (simp add: buf_bit_def bit_set_byte)
  next
    case False
    then show ?thesis using eq by (simp add: buf_bit_def)
  qed
qed

lemma store_bytes_bit:
  assumes "(i + length cs + 3) div 4 \<le> length ws"
  shows "buf_bit (store_bytes i cs ws) k
       = (if i \<le> k div 8 \<and> k div 8 < i + length cs then bit (cs ! (k div 8 - i)) (7 - k mod 8) else buf_bit ws k)"
  using assms
proof (induction cs arbitrary: i ws)
  case (Cons c cs)
  have i: "i div 4 < length ws" using Cons.prems by simp
  let ?ws = "ws[i div 4 := set_byte (ws ! (i div 4)) (i mod 4) c]"
  have "buf_bit (store_bytes i (c # cs) ws) k = buf_bit (store_bytes (Suc i) cs ?ws) k" by simp
  also have "\<dots> = (if Suc i \<le> k div 8 \<and> k div 8 < Suc i + length cs
      then bit (cs ! (k div 8 - Suc i)) (7 - k mod 8) else buf_bit ?ws k)"
    using Cons.IH [of "Suc i" ?ws] Cons.prems by simp
  also have "buf_bit ?ws k = (if k div 8 = i then bit c (7 - k mod 8) else buf_bit ws k)"
    using i by (rule buf_bit_set_byte)
  finally show ?case by (auto simp: nth_Cons')
qed auto

lemma assign_bits:
  assumes ok: "bf_ok b" and n: "n < 2 ^ 31" and cs: "(n + 7) div 8 \<le> length cs"
  shows "bf_ok (assign cs n b) \<and> bits_of (assign cs n b) = map (\<lambda>i. bit (cs ! (i div 8)) (7 - i mod 8)) [0..<n]"
proof -
  define b1 where "b1 = resize n b"
  have R: "bf_ok b1" "bf_size b1 = n"
    using resize_bits [OF ok n] by (auto simp: b1_def) (metis length_bits_of length_vec_resize)
  show ?thesis
  proof (cases "n = 0")
    case True
    then show ?thesis using R by (simp add: assign_def b1_def bits_of_def)
  next
    case False
    have D: "m_buf b1 \<noteq> []" "length (buf b1) = num_words b1" using bf_okD [OF R(1)] R(2) False by auto
    let ?ws = "store_bytes 0 (take ((n + 7) div 8) cs) (buf b1)"
    have eq: "assign cs n b = clear_trailing_bits (set_buf ?ws b1)"
      using False by (simp add: assign_def b1_def [symmetric])
    have c: "bf_ok (assign cs n b)" "bf_size (assign cs n b) = n"
      "\<And>i. i < n \<Longrightarrow> get_bit (assign cs n b) i = buf_bit ?ws i"
      using clear_trailing_bits_ok [of "set_buf ?ws b1"] D R(2) n False by (simp_all add: eq get_bit_buf)
    have "buf_bit ?ws i = bit (cs ! (i div 8)) (7 - i mod 8)" if "i < n" for i
    proof -
      have "(0 + length (take ((n + 7) div 8) cs) + 3) div 4 \<le> length (buf b1)"
        using D(2) R(2) cs by (simp add: num_words_def)
      moreover have "i div 8 < (n + 7) div 8" using that by auto
      ultimately show ?thesis using cs store_bytes_bit [of 0 "take ((n + 7) div 8) cs" "buf b1" i] by simp
    qed
    then show ?thesis using c by (auto intro!: bits_of_eqI)
  qed
qed

lemma data_bit:
  assumes "i < bf_size b"
  shows "bit (data b ! (i div 8)) (7 - i mod 8) = get_bit b i"
proof -
  have "i div 8 < num_bytes b" using assms by (auto simp: num_bytes_def)
  then have "bit (data b ! (i div 8)) (7 - i mod 8)
      = bit (buf b ! (i div 8 div 4)) (8 * (i div 8 mod 4) + (7 - i mod 8))"
    using diff_less_Suc [of 7 "i mod 8"] by (simp add: data_def bit_ucast_iff bit_drop_bit_eq)
  also have "8 * (i div 8 mod 4) + (7 - i mod 8) = net_pos (i mod 32)"
    by (simp add: net_pos_def mod_mod_cancel byte_in_word(1))
  finally show ?thesis by (simp add: get_bit_buf buf_bit_def byte_in_word(2) [symmetric])
qed

text \<open>Copying a bitfield through its bytes.\<close>

lemma assign_data:
  assumes "bf_ok a" "bf_ok b"
  shows "bf_equal (assign (data b) (bf_size b) a) b"
proof -
  have sz: "bf_size b < 2 ^ 31" using bf_okD(2) [OF assms(2)] by (cases "bf_size b = 0") auto
  have "length (data b) = (bf_size b + 7) div 8" by (simp add: data_def num_bytes_def)
  then have A: "bf_ok (assign (data b) (bf_size b) a)"
    "bits_of (assign (data b) (bf_size b) a) = map (\<lambda>i. bit (data b ! (i div 8)) (7 - i mod 8)) [0..<bf_size b]"
    using assign_bits [OF assms(1) sz, of "data b"] by auto
  have "bits_of (assign (data b) (bf_size b) a) = bits_of b"
    unfolding A(2) by (auto simp: bits_of_def data_bit)
  then show ?thesis using equal_bits A(1) assms(2) by blast
qed

section \<open>Iteration\<close>

text \<open>\<open>const_iterator\<close>: a word of the buffer (by its index) and a mask of one bit.\<close>

record const_iterator =
  it_buf :: nat
  it_bit :: "32 word"

definition iter_at :: "nat \<Rightarrow> nat \<Rightarrow> const_iterator" where
  "iter_at ptr offset = \<lparr>it_buf = ptr, it_bit = drop_bit offset 0x80000000\<rparr>"

definition iter_begin :: "bitfield \<Rightarrow> const_iterator" where
  "iter_begin b = iter_at 0 0"

definition iter_end :: "bitfield \<Rightarrow> const_iterator" where
  "iter_end b =
     (if m_buf b \<noteq> []
      then iter_at (num_words b - (if bf_size b mod 32 = 0 then 0 else 1)) (bf_size b mod 32)
      else iter_at 0 (bf_size b mod 32))"

definition iter_deref :: "bitfield \<Rightarrow> const_iterator \<Rightarrow> bool" where
  "iter_deref b it \<longleftrightarrow> (buf b ! it_buf it AND host_to_network (it_bit it)) \<noteq> 0"

definition iter_inc :: "const_iterator \<Rightarrow> const_iterator" where
  "iter_inc it =
     (if it_bit it = 1 then \<lparr>it_buf = it_buf it + 1, it_bit = 0x80000000\<rparr>
      else it\<lparr>it_bit := drop_bit 1 (it_bit it)\<rparr>)"

text \<open>\<open>for (auto i = begin(), end = end(); i != end; ++i)\<close>: the bits it reads, with fuel.\<close>

fun iter_read :: "nat \<Rightarrow> bitfield \<Rightarrow> const_iterator \<Rightarrow> bool list option" where
  "iter_read 0 b it = (if it = iter_end b then Some [] else None)"
| "iter_read (Suc fuel) b it =
     (if it = iter_end b then Some []
      else map_option (Cons (iter_deref b it)) (iter_read fuel b (iter_inc it)))"

lemma iter_inc_at:
  assumes "k < 32"
  shows "iter_inc (iter_at p k) = (if k = 31 then iter_at (p + 1) 0 else iter_at p (k + 1))"
proof -
  have "drop_bit k (0x80000000 :: 32 word) = 1 \<longleftrightarrow> k = 31"
  proof
    assume *: "drop_bit k (0x80000000 :: 32 word) = 1"
    have "bit (drop_bit k (0x80000000 :: 32 word)) (31 - k)" using assms by (simp add: bit_drop_bit_eq bit_top)
    then show "k = 31" using * assms by (simp add: bit_1_iff)
  qed simp
  then show ?thesis by (simp add: iter_inc_def iter_at_def drop_bit_drop_bit add.commute)
qed

lemma iter_at_eq:
  assumes "k < 32" "l < 32"
  shows "iter_at p k = iter_at q l \<longleftrightarrow> p = q \<and> k = l"
proof -
  have "k = l" if "drop_bit k (0x80000000 :: 32 word) = drop_bit l 0x80000000"
  proof -
    have "bit (drop_bit k (0x80000000 :: 32 word)) (31 - k)" using assms by (simp add: bit_drop_bit_eq bit_top)
    then have "bit (drop_bit l (0x80000000 :: 32 word)) (31 - k)" using that by simp
    then show ?thesis using assms by (auto simp: bit_drop_bit_eq bit_top)
  qed
  then show ?thesis by (auto simp: iter_at_def)
qed

lemma iter_end_at: "iter_end b = iter_at (bf_size b div 32) (bf_size b mod 32)"
proof (cases "bf_size b mod 32 = 0")
  case True
  then have "num_words b = bf_size b div 32" by (auto simp: num_words_def)
  then show ?thesis using True by (auto simp: iter_end_def bf_size_def)
next
  case False
  then have "num_words b - 1 = bf_size b div 32" using words_partial [OF False] by (simp add: num_words_def)
  then show ?thesis using False by (auto simp: iter_end_def bf_size_def)
qed

lemma iter_step: "iter_inc (iter_at (i div 32) (i mod 32)) = iter_at (Suc i div 32) (Suc i mod 32)"
  by (simp add: iter_inc_at div_Suc mod_Suc)

lemma iter_read_from:
  assumes "i \<le> bf_size b" "bf_size b - i \<le> fuel"
  shows "iter_read fuel b (iter_at (i div 32) (i mod 32)) = Some (map (get_bit b) [i..<bf_size b])"
  using assms
proof (induction fuel arbitrary: i)
  case 0
  then show ?case by (simp add: iter_end_at)
next
  case (Suc fuel)
  show ?case
  proof (cases "i = bf_size b")
    case True
    then show ?thesis by (simp add: iter_end_at)
  next
    case False
    have ne: "iter_at (i div 32) (i mod 32) \<noteq> iter_end b"
      using False same_word [of i "bf_size b"] by (auto simp: iter_end_at iter_at_eq)
    have "iter_deref b (iter_at (i div 32) (i mod 32)) = get_bit b i"
      by (simp add: iter_deref_def iter_at_def get_bit_def)
    then show ?thesis using ne Suc.IH [of "Suc i"] Suc.prems False
      by (simp add: iter_step upt_conv_Cons)
  qed
qed

text \<open>The loop ends after as many steps as there are bits, having read them in order.\<close>

lemma iteration_reads_bits: "iter_read (bf_size b) b (iter_begin b) = Some (bits_of b)"
  using iter_read_from [of 0 b "bf_size b"] by (simp add: iter_begin_def bits_of_def)

section \<open>The interface\<close>

text \<open>
  What the piece picker relies on in a \<open>typed_bitfield<piece_index_t>\<close>: its queries, over an
  abstraction function to a list of bits.
\<close>

locale bit_vector =
  fixes bits :: "'b \<Rightarrow> bool list"
    and valid :: "'b \<Rightarrow> bool"
    and get :: "'b \<Rightarrow> nat \<Rightarrow> bool"
    and size_of :: "'b \<Rightarrow> nat"
    and none :: "'b \<Rightarrow> bool"
    and every :: "'b \<Rightarrow> bool"
    and upd :: "bool \<Rightarrow> nat \<Rightarrow> 'b \<Rightarrow> 'b"
  assumes size_bits: "size_of b = length (bits b)"
    and get_bits: "i < size_of b \<Longrightarrow> get b i = bits b ! i"
    and none_law: "valid b \<Longrightarrow> none b \<longleftrightarrow> (\<forall>i < size_of b. \<not> get b i)"
    and every_law: "valid b \<Longrightarrow> every b \<longleftrightarrow> 0 < size_of b \<and> (\<forall>i < size_of b. get b i)"
    and upd_law: "valid b \<Longrightarrow> i < size_of b \<Longrightarrow> valid (upd v i b) \<and> bits (upd v i b) = (bits b)[i := v]"
begin

lemma get_upd:
  assumes "valid b" "i < size_of b" "j < size_of b"
  shows "get (upd v i b) j = (if j = i then v else get b j)"
  using assms upd_law [of b i v] get_bits [of j b] get_bits [of j "upd v i b"]
  by (simp add: size_bits nth_list_update)

lemma none_every: "valid b \<Longrightarrow> none b \<Longrightarrow> \<not> every b"
  using none_law every_law by blast

lemma upd_every:
  assumes "valid b" "i < size_of b" "\<And>j. j < size_of b \<Longrightarrow> j \<noteq> i \<Longrightarrow> get b j"
  shows "every (upd True i b)"
proof -
  have U: "valid (upd True i b)" "size_of (upd True i b) = size_of b"
    using upd_law [OF assms(1,2), of True] by (simp_all add: size_bits)
  show ?thesis unfolding every_law [OF U(1)] U(2)
    using assms by (auto simp: get_upd)
qed

end

definition upd_bit :: "bool \<Rightarrow> nat \<Rightarrow> bitfield \<Rightarrow> bitfield" where
  "upd_bit v i b = (if v then set_bit i b else clear_bit i b)"

interpretation bf: bit_vector bits_of bf_ok get_bit bf_size none_set all_set upd_bit
proof unfold_locales
  show "none_set b \<longleftrightarrow> (\<forall>i < bf_size b. \<not> get_bit b i)" if "bf_ok b" for b
    using that by (rule none_set_bits)
  show "all_set b \<longleftrightarrow> 0 < bf_size b \<and> (\<forall>i < bf_size b. get_bit b i)" if "bf_ok b" for b
    using that by (rule all_set_bits)
  show "bf_ok (upd_bit v i b) \<and> bits_of (upd_bit v i b) = (bits_of b)[i := v]"
    if "bf_ok b" "i < bf_size b" for v i b
    using that set_bit_bits clear_bit_bits by (auto simp: upd_bit_def)
qed simp_all

end
