(* ===== verification/Picker_Refcount.thy ===== *)
theory Picker_Refcount
  imports Picker_Frame Bitfield
begin

text \<open>
  The availability of the pieces: \<open>inc_refcount\<close>, \<open>dec_refcount\<close>, their versions for a whole
  bitfield and for a seed (\<open>inc_refcount_all\<close>, \<open>dec_refcount_all\<close>) and \<open>break_one_seed\<close>.
  A seed is counted once in \<open>m_seeds\<close> instead of on every piece; the bitfield versions update
  few pieces in place and otherwise leave the pick list to be rebuilt. Whatever path is taken,
  the availability of each piece changes by one exactly where the peer has the piece, and the
  pick list stays right or is marked dirty.
\<close>

section \<open>The operations\<close>

definition inc_peer_count :: "piece_pos \<Rightarrow> piece_pos" where
  "inc_peer_count p = p\<lparr>pp_peer_count := inc_bits peer_count_bits (pp_peer_count p)\<rparr>"

definition dec_peer_count :: "piece_pos \<Rightarrow> piece_pos" where
  "dec_peer_count p = p\<lparr>pp_peer_count := dec_bits peer_count_bits (pp_peer_count p)\<rparr>"

definition inc_refcount_all :: "picker \<Rightarrow> picker" where
  "inc_refcount_all s =
     (let s1 = s\<lparr>m_seeds := m_seeds s + 1\<rparr>
      in if m_seeds s1 = 1 then s1\<lparr>m_dirty := True\<rparr> else s1)"

definition dec_refcount_all :: "picker \<Rightarrow> picker" where
  "dec_refcount_all s =
     (if m_seeds s > 0 then
        let s1 = s\<lparr>m_seeds := m_seeds s - 1\<rparr>
        in if m_seeds s1 = 0 then s1\<lparr>m_dirty := True\<rparr> else s1
      else s\<lparr>m_piece_map := map dec_peer_count (m_piece_map s), m_dirty := True\<rparr>)"

definition inc_refcount :: "nat \<Rightarrow> picker \<Rightarrow> picker" where
  "inc_refcount index s =
     (let prev_priority = priority_of s index
      in sync_piece prev_priority index (upd_pos index inc_peer_count s))"

definition break_one_seed :: "picker \<Rightarrow> picker" where
  "break_one_seed s =
     s\<lparr>m_seeds := m_seeds s - 1, m_piece_map := map inc_peer_count (m_piece_map s), m_dirty := True\<rparr>"

definition dec_refcount :: "nat \<Rightarrow> picker \<Rightarrow> picker" where
  "dec_refcount index s =
     (let s1 = (if pp_peer_count (m_piece_map s ! index) = 0 then break_one_seed s else s);
          prev_priority = priority_of s1 index;
          s2 = upd_pos index dec_peer_count s1
      in if m_dirty s2 then s2
         else if prev_priority \<ge> 0 then update_at (nat prev_priority) index s2
         else s2)"

text \<open>
  The scan that decides whether few pieces change: the indices of the set bits, until there
  are \<open>sz\<close> of them.
\<close>

fun scan_bits :: "nat \<Rightarrow> nat \<Rightarrow> nat \<Rightarrow> nat list \<Rightarrow> bool list \<Rightarrow> nat \<times> nat list" where
  "scan_bits sz index num acc [] = (num, acc)"
| "scan_bits sz index num acc (b # bs) =
     (if \<not> b then scan_bits sz (index + 1) num acc bs
      else
        let acc' = (if num < sz then acc @ [index] else acc); num' = num + 1
        in if num' \<ge> sz then (num', acc') else scan_bits sz (index + 1) num' acc' bs)"

definition inc_one :: "nat \<Rightarrow> picker \<Rightarrow> picker" where
  "inc_one piece s =
     (let prev_priority = priority_of s piece;
          s1 = upd_pos piece inc_peer_count s;
          new_priority = priority_of s1 piece
      in if prev_priority = new_priority then s1
         else if prev_priority \<ge> 0 then update_at (nat prev_priority) piece s1
         else picker_add piece s1)"

definition dec_one :: "nat \<Rightarrow> picker \<Rightarrow> picker" where
  "dec_one piece s =
     (let prev_priority = priority_of s piece;
          s1 = (if pp_peer_count (m_piece_map s ! piece) = 0 then break_one_seed s else s);
          s2 = upd_pos piece dec_peer_count s1
      in if \<not> m_dirty s2 \<and> prev_priority \<ge> 0 then update_at (nat prev_priority) piece s2 else s2)"

text \<open>The loops over the whole bitfield; the flag is \<open>updated\<close>.\<close>

fun inc_bits_from :: "nat \<Rightarrow> bool list \<Rightarrow> bool \<Rightarrow> picker \<Rightarrow> bool \<times> picker" where
  "inc_bits_from index [] updated s = (updated, s)"
| "inc_bits_from index (b # bs) updated s =
     (if b then inc_bits_from (index + 1) bs True (upd_pos index inc_peer_count s)
      else inc_bits_from (index + 1) bs updated s)"

fun dec_bits_from :: "nat \<Rightarrow> bool list \<Rightarrow> bool \<Rightarrow> picker \<Rightarrow> bool \<times> picker" where
  "dec_bits_from index [] updated s = (updated, s)"
| "dec_bits_from index (b # bs) updated s =
     (if b then
        let s1 = (if pp_peer_count (m_piece_map s ! index) = 0 then break_one_seed s else s)
        in dec_bits_from (index + 1) bs True (upd_pos index dec_peer_count s1)
      else dec_bits_from (index + 1) bs updated s)"

definition inc_refcount_bits :: "bitfield \<Rightarrow> picker \<Rightarrow> picker" where
  "inc_refcount_bits bitmask s =
     (if none_set bitmask then s
      else if all_set bitmask \<and> bf_size bitmask = num_pieces s then inc_refcount_all s
      else
        let sz = min 50 (bf_size bitmask div 2);
            (num_inc, incremented) = scan_bits sz 0 0 [] (bits_of bitmask)
        in if \<not> m_dirty s \<and> num_inc < sz then fold inc_one incremented s
           else
             let (updated, s1) = inc_bits_from 0 (bits_of bitmask) False s
             in if m_dirty s1 then s1 else if updated then s1\<lparr>m_dirty := True\<rparr> else s1)"

definition dec_refcount_bits :: "bitfield \<Rightarrow> picker \<Rightarrow> picker" where
  "dec_refcount_bits bitmask s =
     (if none_set bitmask then s
      else if all_set bitmask \<and> bf_size bitmask = num_pieces s then dec_refcount_all s
      else
        let sz = min 50 (bf_size bitmask div 2);
            (num_dec, decremented) = scan_bits sz 0 0 [] (bits_of bitmask)
        in if \<not> m_dirty s \<and> num_dec < sz then fold dec_one decremented s
           else
             let (updated, s1) = dec_bits_from 0 (bits_of bitmask) False s
             in if m_dirty s1 then s1 else if updated then s1\<lparr>m_dirty := True\<rparr> else s1)"

section \<open>Availability\<close>

text \<open>No piece's availability exceeds what the 26 bits of \<open>peer_count\<close> can hold.\<close>

definition avail_ok :: "picker \<Rightarrow> bool" where
  "avail_ok s \<longleftrightarrow> (\<forall>a \<in> set (get_availability_all s). a < 2 ^ peer_count_bits)"

lemma length_availability [simp]: "length (get_availability_all s) = num_pieces s"
  by (simp add: get_availability_all_def num_pieces_def)

lemma availability_nth [simp]: "i < num_pieces s \<Longrightarrow> get_availability_all s ! i = get_availability s i"
  by (simp add: get_availability_all_def get_availability_def num_pieces_def)

lemma reorders_availability: "reorders s s' \<Longrightarrow> get_availability_all s' = get_availability_all s"
  by (rule nth_equalityI)
     (simp_all add: reorders_num_pieces get_availability_def reorders_pos reorders_fields)

lemma pos_ok_inc: "pos_ok p \<Longrightarrow> pos_ok (inc_peer_count p)"
  by (simp add: pos_ok_def inc_peer_count_def inc_bits_def)

lemma pos_ok_dec: "pos_ok p \<Longrightarrow> pos_ok (dec_peer_count p)"
  by (simp add: pos_ok_def dec_peer_count_def dec_bits_def)

lemma avail_okD: "avail_ok s \<Longrightarrow> i < num_pieces s \<Longrightarrow> get_availability s i < 2 ^ peer_count_bits"
  unfolding avail_ok_def by (metis availability_nth length_availability nth_mem)

lemma peer_count_le: "picker_ok s \<Longrightarrow> int (pp_peer_count (m_piece_map s ! i)) \<le> get_availability s i"
  using picker_okD(2) by (simp add: get_availability_def)

lemma availability_upd_inc:
  assumes "i < num_pieces s" "get_availability s i + 1 < 2 ^ peer_count_bits" "picker_ok s"
  shows "get_availability_all (upd_pos i inc_peer_count s) = (get_availability_all s)[i := get_availability s i + 1]"
proof (rule nth_equalityI)
  fix j assume "j < length (get_availability_all (upd_pos i inc_peer_count s))"
  moreover have "pp_peer_count (m_piece_map s ! i) + 1 < 2 ^ peer_count_bits"
    using assms(2) peer_count_le [OF assms(3), of i] by simp
  ultimately show "get_availability_all (upd_pos i inc_peer_count s) ! j
      = (get_availability_all s)[i := get_availability s i + 1] ! j"
    using assms(1) by (auto simp: get_availability_def upd_pos_nth inc_peer_count_def inc_bits_eq nth_list_update)
qed simp

lemma availability_upd_dec:
  assumes "i < num_pieces s" "pp_peer_count (m_piece_map s ! i) \<noteq> 0" "picker_ok s"
  shows "get_availability_all (upd_pos i dec_peer_count s) = (get_availability_all s)[i := get_availability s i - 1]"
proof (rule nth_equalityI)
  fix j assume "j < length (get_availability_all (upd_pos i dec_peer_count s))"
  moreover have "dec_bits peer_count_bits (pp_peer_count (m_piece_map s ! i)) = pp_peer_count (m_piece_map s ! i) - 1"
    using assms picker_okD(4) [OF assms(3,1)] by (intro dec_bits_eq) simp_all
  ultimately show "get_availability_all (upd_pos i dec_peer_count s) ! j
      = (get_availability_all s)[i := get_availability s i - 1] ! j"
    using assms(1,2) by (auto simp: get_availability_def upd_pos_nth dec_peer_count_def nth_list_update)
qed simp

text \<open>Breaking a seed up moves one from \<open>m_seeds\<close> to every piece.\<close>

lemma break_one_seed_ok:
  assumes "picker_ok s" "avail_ok s" "0 < m_seeds s"
  shows "picker_ok (break_one_seed s) \<and> get_availability_all (break_one_seed s) = get_availability_all s
     \<and> m_dirty (break_one_seed s) \<and> num_pieces (break_one_seed s) = num_pieces s
     \<and> (\<forall>i < num_pieces s. 0 < pp_peer_count (m_piece_map (break_one_seed s) ! i))"
proof -
  have c: "pp_peer_count (inc_peer_count (m_piece_map s ! i)) = pp_peer_count (m_piece_map s ! i) + 1"
    if "i < num_pieces s" for i
    using avail_okD [OF assms(2) that] assms(3) by (simp add: inc_peer_count_def get_availability_def inc_bits_eq)
  have "picker_ok (break_one_seed s)"
    using assms(1,3) pos_ok_inc by (auto simp: picker_ok_def break_one_seed_def num_pieces_def)
  moreover have "get_availability_all (break_one_seed s) = get_availability_all s"
    using c by (intro nth_equalityI) (auto simp: break_one_seed_def get_availability_all_def num_pieces_def)
  ultimately show ?thesis using c by (simp add: break_one_seed_def num_pieces_def)
qed

section \<open>One piece\<close>

lemma inc_dec_peers [simp]:
  "peers_only s (upd_pos i inc_peer_count s)" "peers_only s (upd_pos i dec_peer_count s)"
  by (rule peers_only_upd_pos; auto simp: inc_peer_count_def dec_peer_count_def)+

lemma break_peers [simp]: "peers_only s (break_one_seed s)"
proof -
  let ?s = "s\<lparr>m_piece_map := map inc_peer_count (m_piece_map s)\<rparr>"
  have "peers_only s ?s" by (rule peers_only_map) (auto simp: inc_peer_count_def)
  moreover have "break_one_seed s = ?s\<lparr>m_seeds := m_seeds s - 1, m_dirty := True\<rparr>" by (simp add: break_one_seed_def)
  ultimately show ?thesis by (metis peers_only_fields peers_only_trans)
qed

lemma index_inc [simp]: "pp_index (inc_peer_count p) = pp_index p"
  by (simp add: inc_peer_count_def)

lemma index_dec [simp]: "pp_index (dec_peer_count p) = pp_index p"
  by (simp add: dec_peer_count_def)

lemma inc_refcount_ok:
  assumes inv: "order_inv s" and i: "i < num_pieces s" and b: "get_availability s i + 1 < 2 ^ peer_count_bits"
  shows "order_inv (inc_refcount i s) \<and> peers_only s (inc_refcount i s)
     \<and> get_availability_all (inc_refcount i s) = (get_availability_all s)[i := get_availability s i + 1]"
proof -
  have ok: "picker_ok s" using inv by (rule order_inv_ok)
  have "order_inv (inc_refcount i s) \<and> reorders (upd_pos i inc_peer_count s) (inc_refcount i s)"
    unfolding inc_refcount_def Let_def
    by (rule sync_piece_ok [OF inv i]) (simp_all add: pos_ok_inc picker_ok_nth [OF ok i])
  then show ?thesis using reorders_availability availability_upd_inc [OF i b ok]
      peers_only_trans [OF inc_dec_peers(1) reorders_peers] by metis
qed

text \<open>Losing a peer never brings a piece into the list.\<close>

lemma priority_dec_unlisted:
  assumes "pos_priority sd p = -1" "pp_peer_count p \<noteq> 0" "0 \<le> sd" "pp_priority p < 8"
  shows "pos_priority sd (dec_peer_count p) = -1"
proof -
  define x where "x = (int (pp_peer_count p) + 1) * (8 - int (pp_priority p))"
  have "1 \<le> x"
    using assms(4) mult_mono [of 1 "int (pp_peer_count p) + 1" 1 "8 - int (pp_priority p)"] by (simp add: x_def)
  then have "pos_filtered p \<or> pos_have p \<or> pp_state p = piece_full \<or> pp_state p = piece_finished"
    using assms unfolding pos_priority_def Let_def x_def [symmetric] by (auto split: if_splits) presburger+
  then show ?thesis by (auto simp: pos_priority_def pos_filtered_def pos_have_def dec_peer_count_def)
qed

definition dec_step :: "nat \<Rightarrow> picker \<Rightarrow> picker" where
  "dec_step i s =
     (let s2 = upd_pos i dec_peer_count s
      in if \<not> m_dirty s2 \<and> priority_of s i \<ge> 0 then update_at (nat (priority_of s i)) i s2 else s2)"

lemma dec_step_ok:
  assumes inv: "order_inv s" and i: "i < num_pieces s" and pc: "pp_peer_count (m_piece_map s ! i) \<noteq> 0"
  shows "order_inv (dec_step i s) \<and> peers_only s (dec_step i s)
     \<and> get_availability_all (dec_step i s) = (get_availability_all s)[i := get_availability s i - 1]"
proof -
  let ?s = "upd_pos i dec_peer_count s"
  have ok: "picker_ok s" using inv by (rule order_inv_ok)
  then have ok': "picker_ok ?s" by (rule picker_ok_upd_pos) (rule pos_ok_dec, rule picker_ok_nth [OF ok])
  have av: "get_availability_all ?s = (get_availability_all s)[i := get_availability s i - 1]"
    by (rule availability_upd_dec [OF i pc ok])
  show ?thesis
  proof (cases "m_dirty s")
    case True
    then show ?thesis using ok' av by (simp add: dec_step_def order_inv_dirty)
  next
    case False
    then have "pick_list_for (priority_of s) s" using inv by (simp add: order_inv_iff)
    then have l: "pick_list_for ((priority_of ?s)(i := priority_of s i)) ?s"
      by (rule pick_list_upd_pos) (simp_all add: i)
    show ?thesis
    proof (cases "0 \<le> priority_of s i")
      case True
      have r: "piece_ready ?s i" using i ok' by (simp add: piece_ready_def)
      have "pick_list_for (priority_of ?s) (dec_step i s) \<and> reorders ?s (dec_step i s)"
        using po.move_law_int [OF r True l] True False by (simp add: dec_step_def)
      then show ?thesis using av ok' reorders_availability reorders_picker_ok pick_list_reorders order_inv_iff
          peers_only_trans [OF inc_dec_peers(2) reorders_peers] by metis
    next
      case unl: False
      then have "priority_of s i = -1" using priority_of_ge [OF ok i] by simp
      moreover from this have "priority_of ?s i = -1"
        using priority_dec_unlisted [OF _ pc picker_okD(2) [OF ok] picker_okD(3) [OF ok i]] i
        by (simp add: priority_of_def upd_pos_nth)
      ultimately have "(priority_of ?s)(i := priority_of s i) = priority_of ?s" by auto
      then show ?thesis using l unl False av ok' by (simp add: dec_step_def order_inv_iff)
    qed
  qed
qed

text \<open>A piece nobody has announced individually: a seed is broken up first.\<close>

lemma break_if_needed_ok:
  assumes inv: "order_inv s" and av: "avail_ok s" and i: "i < num_pieces s" and pos: "0 < get_availability s i"
  defines "s1 \<equiv> (if pp_peer_count (m_piece_map s ! i) = 0 then break_one_seed s else s)"
  shows "order_inv s1 \<and> get_availability_all s1 = get_availability_all s \<and> num_pieces s1 = num_pieces s
     \<and> pp_peer_count (m_piece_map s1 ! i) \<noteq> 0 \<and> (s1 = s \<or> m_dirty s1) \<and> peers_only s s1"
proof (cases "pp_peer_count (m_piece_map s ! i) = 0")
  case True
  then have "0 < m_seeds s" using pos by (simp add: get_availability_def)
  from break_one_seed_ok [OF order_inv_ok [OF inv] av this] i True
  show ?thesis by (auto simp: s1_def order_inv_dirty)
next
  case False
  then show ?thesis using inv by (simp add: s1_def)
qed

lemma availability_eq:
  "get_availability_all s' = get_availability_all s \<Longrightarrow> i < num_pieces s \<Longrightarrow> get_availability s' i = get_availability s i"
  by (metis availability_nth length_availability)

lemma dec_refcount_ok:
  assumes inv: "order_inv s" and av: "avail_ok s" and i: "i < num_pieces s" and pos: "0 < get_availability s i"
  shows "order_inv (dec_refcount i s) \<and> peers_only s (dec_refcount i s)
     \<and> get_availability_all (dec_refcount i s) = (get_availability_all s)[i := get_availability s i - 1]"
proof -
  define s1 where "s1 = (if pp_peer_count (m_piece_map s ! i) = 0 then break_one_seed s else s)"
  note B = break_if_needed_ok [OF inv av i pos, folded s1_def]
  have "dec_refcount i s = dec_step i s1"
    by (simp add: dec_refcount_def dec_step_def s1_def [symmetric] Let_def)
  then show ?thesis using dec_step_ok [of s1 i] B i availability_eq [of s1 s i] peers_only_trans [of s s1] by simp
qed

lemma dec_one_ok:
  assumes inv: "order_inv s" and av: "avail_ok s" and i: "i < num_pieces s" and pos: "0 < get_availability s i"
  shows "order_inv (dec_one i s) \<and> peers_only s (dec_one i s)
     \<and> get_availability_all (dec_one i s) = (get_availability_all s)[i := get_availability s i - 1]"
proof -
  define s1 where "s1 = (if pp_peer_count (m_piece_map s ! i) = 0 then break_one_seed s else s)"
  note B = break_if_needed_ok [OF inv av i pos, folded s1_def]
  have "dec_one i s = dec_step i s1"
    using B by (auto simp: dec_one_def dec_step_def s1_def [symmetric] Let_def)
  then show ?thesis using dec_step_ok [of s1 i] B i availability_eq [of s1 s i] peers_only_trans [of s s1] by simp
qed

lemma inc_one_sync: "\<not> m_dirty s \<Longrightarrow> -1 \<le> priority_of s i \<Longrightarrow> inc_one i s = inc_refcount i s"
  by (auto simp: inc_one_def inc_refcount_def sync_piece_def Let_def)

section \<open>Seeds\<close>

lemma priority_seed_irrelevant:
  "0 < sd \<Longrightarrow> 0 < sd' \<Longrightarrow> pos_priority sd p = pos_priority sd' p"
  by (simp add: pos_priority_def)

lemma order_inv_seeds:
  assumes inv: "order_inv s" and sd: "0 < m_seeds s" "0 < sd"
  shows "order_inv (s\<lparr>m_seeds := sd\<rparr>)"
proof -
  have "priority_of (s\<lparr>m_seeds := sd\<rparr>) = priority_of s"
    using priority_seed_irrelevant [OF sd] by (simp add: priority_of_def fun_eq_iff)
  then show ?thesis using inv sd by (auto simp: order_inv_iff picker_ok_def num_pieces_def pick_list_for_def)
qed

lemma inc_refcount_all_ok:
  assumes inv: "order_inv s"
  shows "order_inv (inc_refcount_all s) \<and> peers_only s (inc_refcount_all s)
     \<and> get_availability_all (inc_refcount_all s) = map (\<lambda>a. a + 1) (get_availability_all s)"
proof (intro conjI)
  show "peers_only s (inc_refcount_all s)"
    using peers_only_trans [OF peers_only_fields(2) peers_only_fields(1)] by (simp add: inc_refcount_all_def Let_def)
  have "0 \<le> m_seeds s" using picker_okD(2) [OF order_inv_ok [OF inv]] .
  then show "order_inv (inc_refcount_all s)"
    using order_inv_seeds [OF inv, of "m_seeds s + 1"] order_inv_ok [OF inv]
    by (cases "m_seeds s = 0")
       (auto simp: inc_refcount_all_def Let_def picker_ok_def num_pieces_def intro!: order_inv_dirty)
  show "get_availability_all (inc_refcount_all s) = map (\<lambda>a. a + 1) (get_availability_all s)"
    by (simp add: inc_refcount_all_def get_availability_all_def Let_def)
qed

lemma dec_refcount_all_ok:
  assumes inv: "order_inv s" and pos: "\<forall>a \<in> set (get_availability_all s). 0 < a"
  shows "order_inv (dec_refcount_all s) \<and> peers_only s (dec_refcount_all s)
     \<and> get_availability_all (dec_refcount_all s) = map (\<lambda>a. a - 1) (get_availability_all s)"
proof (cases "0 < m_seeds s")
  case True
  then show ?thesis using order_inv_seeds [OF inv True, of "m_seeds s - 1"] order_inv_ok [OF inv]
      peers_only_trans [OF peers_only_fields(2) [of s "m_seeds s - 1"] peers_only_fields(1) [of _ True]]
    by (cases "m_seeds s = 1")
       (auto simp: dec_refcount_all_def get_availability_all_def Let_def picker_ok_def num_pieces_def intro!: order_inv_dirty)
next
  case False
  have ok: "picker_ok s" using inv by (rule order_inv_ok)
  then have sd: "m_seeds s = 0" using False picker_okD(2) [OF ok] by simp
  let ?s = "s\<lparr>m_piece_map := map dec_peer_count (m_piece_map s), m_dirty := True\<rparr>"
  have "int (pp_peer_count (dec_peer_count p)) = int (pp_peer_count p) - 1" if "p \<in> set (m_piece_map s)" for p
  proof -
    have "0 < pp_peer_count p" using pos that sd by (auto simp: get_availability_all_def)
    moreover have "pp_peer_count p < 2 ^ peer_count_bits" using ok that by (simp add: picker_ok_def pos_ok_def)
    ultimately show ?thesis by (simp add: dec_peer_count_def dec_bits_eq)
  qed
  then have "get_availability_all ?s = map (\<lambda>a. a - 1) (get_availability_all s)"
    by (simp add: get_availability_all_def)
  moreover have "order_inv ?s" using ok pos_ok_dec
    by (intro order_inv_dirty) (auto simp: picker_ok_def num_pieces_def)
  moreover have "peers_only s (s\<lparr>m_piece_map := map dec_peer_count (m_piece_map s)\<rparr>)"
    by (rule peers_only_map) (auto simp: dec_peer_count_def)
  ultimately show ?thesis using False peers_only_trans [OF _ peers_only_fields(1)] by (simp add: dec_refcount_all_def)
qed

section \<open>Bitfields\<close>

fun positions :: "nat \<Rightarrow> bool list \<Rightarrow> nat list" where
  "positions index [] = []"
| "positions index (b # bs) = (if b then index # positions (index + 1) bs else positions (index + 1) bs)"

lemma set_positions: "set (positions index bs) = {i. index \<le> i \<and> i < index + length bs \<and> bs ! (i - index)}"
proof (induction bs arbitrary: index)
  case (Cons b bs)
  have "i \<in> set (positions index (b # bs)) \<longleftrightarrow>
      index \<le> i \<and> i < index + length (b # bs) \<and> (b # bs) ! (i - index)" for i
  proof (cases "i = index")
    case False
    then have le: "index \<le> i \<longleftrightarrow> Suc index \<le> i" by auto
    have "(b # bs) ! (i - index) = bs ! (i - Suc index)" if "Suc index \<le> i" using that by (simp add: nth_Cons')
    moreover have "i \<in> set (positions index (b # bs)) \<longleftrightarrow> i \<in> set (positions (Suc index) bs)" using False by simp
    ultimately show ?thesis unfolding Cons.IH le by auto
  next
    case True
    then show ?thesis using Cons.IH [of "Suc index"] by (cases b) auto
  qed
  then show ?case by blast
qed simp

lemma positions_ge: "i \<in> set (positions index bs) \<Longrightarrow> index \<le> i"
  by (simp add: set_positions)

lemma distinct_positions [simp]: "distinct (positions index bs)"
  by (induction bs arbitrary: index) (auto dest: positions_ge)

lemma scan_bits_positions:
  "scan_bits sz index num acc bs = (n, xs) \<Longrightarrow> n < sz \<Longrightarrow> num \<le> n \<and> xs = acc @ positions index bs"
proof (induction bs arbitrary: index num acc)
  case (Cons b bs)
  show ?case
  proof (cases b)
    case True
    show ?thesis
    proof (cases "num + 1 \<ge> sz")
      case False
      then show ?thesis using Cons.IH [of "index + 1" "num + 1" "acc @ [index]"] Cons.prems True
        by (auto simp: Let_def)
    qed (use Cons.prems True in \<open>auto simp: Let_def\<close>)
  next
    case False
    then show ?thesis using Cons.IH [of "index + 1" num acc] Cons.prems by simp
  qed
qed simp

lemma inc_bits_from_fold:
  "inc_bits_from index bs updated s
     = (updated \<or> positions index bs \<noteq> [], fold (\<lambda>i. upd_pos i inc_peer_count) (positions index bs) s)"
  by (induction bs arbitrary: index updated s) simp_all

definition dec_raw :: "nat \<Rightarrow> picker \<Rightarrow> picker" where
  "dec_raw i s =
     upd_pos i dec_peer_count (if pp_peer_count (m_piece_map s ! i) = 0 then break_one_seed s else s)"

lemma dec_bits_from_fold:
  "dec_bits_from index bs updated s
     = (updated \<or> positions index bs \<noteq> [], fold dec_raw (positions index bs) s)"
  by (induction bs arbitrary: index updated s) (simp_all add: dec_raw_def Let_def)

text \<open>The availability after the pieces \<open>is\<close> have each changed by \<open>d\<close>.\<close>

definition shift_avail :: "int \<Rightarrow> nat list \<Rightarrow> int list \<Rightarrow> int list" where
  "shift_avail d is av = map (\<lambda>j. av ! j + (if j \<in> set is then d else 0)) [0..<length av]"

lemma shift_avail_Nil [simp]: "shift_avail d [] av = av"
  by (simp add: shift_avail_def map_nth)

lemma length_shift_avail [simp]: "length (shift_avail d is av) = length av"
  by (simp add: shift_avail_def)

lemma shift_avail_Cons:
  "i \<notin> set is \<Longrightarrow> i < length av \<Longrightarrow> shift_avail d is (av[i := av ! i + d]) = shift_avail d (i # is) av"
  by (rule nth_equalityI) (auto simp: shift_avail_def nth_list_update)

text \<open>A fold of steps that each shift one piece shifts them all.\<close>

lemma fold_shift:
  assumes step: "\<And>i s. P s \<Longrightarrow> i < num_pieces s \<Longrightarrow> ok (get_availability s i) \<Longrightarrow>
      P (f i s) \<and> get_availability_all (f i s) = (get_availability_all s)[i := get_availability s i + d]"
    and "P s" "distinct is" "\<forall>i \<in> set is. i < num_pieces s \<and> ok (get_availability s i)"
  shows "P (fold f is s) \<and> get_availability_all (fold f is s) = shift_avail d is (get_availability_all s)"
  using assms(2-)
proof (induction "is" arbitrary: s)
  case (Cons i "is")
  have i: "i < num_pieces s" "ok (get_availability s i)" using Cons.prems by auto
  have st: "P (f i s)" "get_availability_all (f i s) = (get_availability_all s)[i := get_availability s i + d]"
    using step [OF Cons.prems(1) i] by auto
  have n: "num_pieces (f i s) = num_pieces s" using st(2) by (metis length_availability length_list_update)
  have "j < num_pieces (f i s) \<and> ok (get_availability (f i s) j)" if "j \<in> set is" for j
  proof -
    have j: "j < num_pieces s" "j \<noteq> i" "ok (get_availability s j)" using Cons.prems that by auto
    then have "get_availability (f i s) j = get_availability s j"
      using st(2) n availability_nth [of j "f i s"] by (simp add: nth_list_update)
    then show ?thesis using j n by simp
  qed
  then have "P (fold f is (f i s))
      \<and> get_availability_all (fold f is (f i s)) = shift_avail d is (get_availability_all (f i s))"
    using Cons.prems by (intro Cons.IH [OF st(1)]) auto
  then show ?case using st(2) shift_avail_Cons [of i "is" "get_availability_all s" d] i Cons.prems by simp
qed simp

lemma inc_refcount_dirty:
  assumes inv: "order_inv s" and i: "i < num_pieces s"
  shows "m_dirty (inc_refcount i s) = m_dirty s"
proof -
  have "reorders (upd_pos i inc_peer_count s) (inc_refcount i s)"
    unfolding inc_refcount_def Let_def
    using sync_piece_ok [OF inv i, of inc_peer_count] pos_ok_inc picker_ok_nth [OF order_inv_ok [OF inv] i] by simp
  then show ?thesis using reorders_fields(2) by fastforce
qed

lemma dec_refcount_dirty:
  assumes inv: "order_inv s" and i: "i < num_pieces s" and pc: "pp_peer_count (m_piece_map s ! i) \<noteq> 0" and c: "\<not> m_dirty s"
  shows "\<not> m_dirty (dec_refcount i s)"
proof (cases "0 \<le> priority_of s i")
  case True
  let ?s = "upd_pos i dec_peer_count s"
  have ok: "picker_ok s" using inv by (rule order_inv_ok)
  then have "picker_ok ?s" by (rule picker_ok_upd_pos) (rule pos_ok_dec, rule picker_ok_nth [OF ok])
  then have r: "piece_ready ?s i" using i by (simp add: piece_ready_def)
  have "pick_list_for (priority_of s) s" using inv c by (simp add: order_inv_iff)
  then have "pick_list_for ((priority_of ?s)(i := priority_of s i)) ?s" by (rule pick_list_upd_pos) (simp_all add: i)
  from po.move_law_int [OF r True this] have "reorders ?s (dec_refcount i s)"
    using c True pc by (simp add: dec_refcount_def Let_def)
  then show ?thesis using reorders_fields(2) c by fastforce
next
  case False
  then show ?thesis using c pc by (simp add: dec_refcount_def Let_def)
qed

lemma positions_bits: "set (positions 0 (bits_of b)) = {i. i < bf_size b \<and> get_bit b i}"
  by (auto simp: set_positions)

lemma avail_ok_dec:
  "avail_ok s \<Longrightarrow> i < num_pieces s \<Longrightarrow>
   get_availability_all s' = (get_availability_all s)[i := get_availability s i - 1] \<Longrightarrow> avail_ok s'"
  using avail_okD [of s i] set_update_subset_insert [of "get_availability_all s" i "get_availability s i - 1"]
  unfolding avail_ok_def by fastforce

lemma dec_raw_ok:
  assumes ok: "picker_ok s" and av: "avail_ok s" and i: "i < num_pieces s" and pos: "0 < get_availability s i"
  shows "picker_ok (dec_raw i s) \<and> peers_only s (dec_raw i s)
     \<and> get_availability_all (dec_raw i s) = (get_availability_all s)[i := get_availability s i - 1]"
proof -
  define s1 where "s1 = (if pp_peer_count (m_piece_map s ! i) = 0 then break_one_seed s else s)"
  have B: "picker_ok s1" "get_availability_all s1 = get_availability_all s" "num_pieces s1 = num_pieces s"
    "pp_peer_count (m_piece_map s1 ! i) \<noteq> 0"
  proof -
    have "0 < m_seeds s" if "pp_peer_count (m_piece_map s ! i) = 0"
      using pos that by (simp add: get_availability_def)
    then show "picker_ok s1" "get_availability_all s1 = get_availability_all s" "num_pieces s1 = num_pieces s"
      "pp_peer_count (m_piece_map s1 ! i) \<noteq> 0"
      using break_one_seed_ok [OF ok av] ok i by (auto simp: s1_def)
  qed
  have "picker_ok (dec_raw i s)"
    unfolding dec_raw_def s1_def [symmetric]
    by (rule picker_ok_upd_pos [OF B(1)]) (rule pos_ok_dec, rule picker_ok_nth [OF B(1)])
  moreover have "peers_only s (dec_raw i s)"
    unfolding dec_raw_def using peers_only_trans [OF break_peers inc_dec_peers(2)] by simp
  ultimately show ?thesis using availability_upd_dec [of i s1] B i availability_eq [OF B(2) i]
    by (simp add: dec_raw_def s1_def [symmetric])
qed

text \<open>What the bitfield adds to the availability of each piece.\<close>

definition add_bits :: "int \<Rightarrow> bitfield \<Rightarrow> int list \<Rightarrow> int list" where
  "add_bits d b av = map (\<lambda>j. av ! j + (if j < bf_size b \<and> get_bit b j then d else 0)) [0..<length av]"

lemma shift_positions: "shift_avail d (positions 0 (bits_of b)) av = add_bits d b av"
  by (simp add: shift_avail_def add_bits_def positions_bits)

lemma add_bits_none:
  assumes "bf_ok b" "none_set b"
  shows "add_bits d b av = av"
  using bf.none_law [OF assms(1)] assms(2) by (intro nth_equalityI) (auto simp: add_bits_def)

lemma add_bits_all:
  assumes "bf_ok b" "all_set b" "bf_size b = length av"
  shows "add_bits d b av = map (\<lambda>a. a + d) av"
  using bf.every_law [OF assms(1)] assms(2,3) by (intro nth_equalityI) (auto simp: add_bits_def)

lemma mark_dirty_ok:
  assumes "picker_ok s" "u \<longrightarrow> order_inv s"
  shows "order_inv (if m_dirty s then s else if \<not> u then s\<lparr>m_dirty := True\<rparr> else s)
     \<and> peers_only s (if m_dirty s then s else if \<not> u then s\<lparr>m_dirty := True\<rparr> else s)
     \<and> get_availability_all (if m_dirty s then s else if \<not> u then s\<lparr>m_dirty := True\<rparr> else s) = get_availability_all s"
  using assms order_inv_dirty [of s] order_inv_dirty [of "s\<lparr>m_dirty := True\<rparr>"]
  by (auto simp: get_availability_all_def picker_ok_def num_pieces_def)

lemma inc_refcount_bits_ok:
  assumes inv: "order_inv s" and b: "bf_ok b" "bf_size b \<le> num_pieces s"
    and room: "\<forall>a \<in> set (get_availability_all s). a + 1 < 2 ^ peer_count_bits"
  shows "order_inv (inc_refcount_bits b s) \<and> peers_only s (inc_refcount_bits b s)
     \<and> get_availability_all (inc_refcount_bits b s) = add_bits 1 b (get_availability_all s)"
proof -
  let ?ps = "positions 0 (bits_of b)"
  consider "none_set b" | "all_set b" "bf_size b = num_pieces s" "\<not> none_set b"
    | "\<not> none_set b" "\<not> (all_set b \<and> bf_size b = num_pieces s)" by blast
  then show ?thesis
  proof cases
    case 1
    then show ?thesis using inv add_bits_none [OF b(1)] by (simp add: inc_refcount_bits_def)
  next
    case 2
    then show ?thesis using inc_refcount_all_ok [OF inv] add_bits_all [OF b(1)] by (simp add: inc_refcount_bits_def)
  next
    case 3
    have ps: "\<forall>i \<in> set ?ps. i < num_pieces s \<and> get_availability s i + 1 < 2 ^ peer_count_bits"
      using b(2) room by (fastforce simp: positions_bits all_set_conv_all_nth)
    obtain n xs where sc: "scan_bits (min 50 (bf_size b div 2)) 0 0 [] (bits_of b) = (n, xs)" by fastforce
    show ?thesis
    proof (cases "\<not> m_dirty s \<and> n < min 50 (bf_size b div 2)")
      case True
      then have "xs = ?ps" using scan_bits_positions [OF sc] by simp
      then have eq: "inc_refcount_bits b s = fold inc_one ?ps s" using 3 True sc by (auto simp: inc_refcount_bits_def)
      have "(order_inv (fold inc_one ?ps s) \<and> \<not> m_dirty (fold inc_one ?ps s) \<and> peers_only s (fold inc_one ?ps s))
         \<and> get_availability_all (fold inc_one ?ps s) = shift_avail 1 ?ps (get_availability_all s)"
      proof (rule fold_shift [where ok = "\<lambda>a. a + 1 < 2 ^ peer_count_bits"])
        fix i s' assume *: "order_inv s' \<and> \<not> m_dirty s' \<and> peers_only s s'" "i < num_pieces s'"
          "get_availability s' i + 1 < 2 ^ peer_count_bits"
        then have "inc_one i s' = inc_refcount i s'"
          using inc_one_sync priority_of_ge order_inv_ok by blast
        then show "(order_inv (inc_one i s') \<and> \<not> m_dirty (inc_one i s') \<and> peers_only s (inc_one i s')) \<and>
            get_availability_all (inc_one i s') = (get_availability_all s')[i := get_availability s' i + 1]"
          using inc_refcount_ok [of s' i] inc_refcount_dirty [of s' i] * peers_only_trans [of s s'] by simp
      qed (use inv True ps in auto)
      then show ?thesis by (simp add: eq shift_positions)
    next
      case False
      let ?s = "fold (\<lambda>i. upd_pos i inc_peer_count) ?ps s"
      have "(picker_ok ?s \<and> peers_only s ?s) \<and> get_availability_all ?s = shift_avail 1 ?ps (get_availability_all s)"
      proof (rule fold_shift [where ok = "\<lambda>a. a + 1 < 2 ^ peer_count_bits"])
        fix i s' assume *: "picker_ok s' \<and> peers_only s s'" "i < num_pieces s'" "get_availability s' i + 1 < 2 ^ peer_count_bits"
        then show "(picker_ok (upd_pos i inc_peer_count s') \<and> peers_only s (upd_pos i inc_peer_count s')) \<and> get_availability_all (upd_pos i inc_peer_count s')
            = (get_availability_all s')[i := get_availability s' i + 1]"
          using availability_upd_inc picker_ok_upd_pos pos_ok_inc picker_ok_nth peers_only_trans inc_dec_peers(1) by metis
      qed (use order_inv_ok [OF inv] ps in auto)
      moreover have "inc_refcount_bits b s = (if m_dirty ?s then ?s else if \<not> ?ps = [] then ?s\<lparr>m_dirty := True\<rparr> else ?s)"
        using 3 False sc by (auto simp: inc_refcount_bits_def inc_bits_from_fold)
      ultimately show ?thesis using mark_dirty_ok [of ?s "?ps = []"] inv peers_only_trans [of s ?s]
        by (auto simp: shift_positions)
    qed
  qed
qed

lemma dec_refcount_bits_ok:
  assumes inv: "order_inv s" and b: "bf_ok b" "bf_size b \<le> num_pieces s" and av: "avail_ok s"
    and has: "\<forall>i < bf_size b. get_bit b i \<longrightarrow> 0 < get_availability s i"
  shows "order_inv (dec_refcount_bits b s) \<and> peers_only s (dec_refcount_bits b s)
     \<and> get_availability_all (dec_refcount_bits b s) = add_bits (-1) b (get_availability_all s)"
proof -
  let ?ps = "positions 0 (bits_of b)"
  consider "none_set b" | "all_set b" "bf_size b = num_pieces s" "\<not> none_set b"
    | "\<not> none_set b" "\<not> (all_set b \<and> bf_size b = num_pieces s)" by blast
  then show ?thesis
  proof cases
    case 1
    then show ?thesis using inv add_bits_none [OF b(1)] by (simp add: dec_refcount_bits_def)
  next
    case 2
    then have "\<forall>a \<in> set (get_availability_all s). 0 < a"
      using has bf.every_law [OF b(1)] by (auto simp: in_set_conv_nth)
    then show ?thesis using dec_refcount_all_ok [OF inv] add_bits_all [OF b(1), of "get_availability_all s" "-1"] 2
      by (simp add: dec_refcount_bits_def)
  next
    case 3
    have ps: "\<forall>i \<in> set ?ps. i < num_pieces s \<and> 0 < get_availability s i"
      using b(2) has by (auto simp: positions_bits)
    obtain n xs where sc: "scan_bits (min 50 (bf_size b div 2)) 0 0 [] (bits_of b) = (n, xs)" by fastforce
    show ?thesis
    proof (cases "\<not> m_dirty s \<and> n < min 50 (bf_size b div 2)")
      case True
      then have "xs = ?ps" using scan_bits_positions [OF sc] by simp
      then have eq: "dec_refcount_bits b s = fold dec_one ?ps s" using 3 True sc by (auto simp: dec_refcount_bits_def)
      have "(order_inv (fold dec_one ?ps s) \<and> avail_ok (fold dec_one ?ps s) \<and> peers_only s (fold dec_one ?ps s))
         \<and> get_availability_all (fold dec_one ?ps s) = shift_avail (-1) ?ps (get_availability_all s)"
      proof (rule fold_shift [where ok = "\<lambda>a. 0 < a"])
        fix i s' assume *: "order_inv s' \<and> avail_ok s' \<and> peers_only s s'" "i < num_pieces s'" "0 < get_availability s' i"
        then show "(order_inv (dec_one i s') \<and> avail_ok (dec_one i s') \<and> peers_only s (dec_one i s')) \<and>
            get_availability_all (dec_one i s') = (get_availability_all s')[i := get_availability s' i + -1]"
          using dec_one_ok [of s' i] avail_ok_dec [of s' i "dec_one i s'"] peers_only_trans [of s s'] by simp
      qed (use inv av ps in auto)
      then show ?thesis by (simp add: eq shift_positions)
    next
      case False
      let ?s = "fold dec_raw ?ps s"
      have "(picker_ok ?s \<and> avail_ok ?s \<and> peers_only s ?s) \<and> get_availability_all ?s = shift_avail (-1) ?ps (get_availability_all s)"
      proof (rule fold_shift [where ok = "\<lambda>a. 0 < a"])
        fix i s' assume *: "picker_ok s' \<and> avail_ok s' \<and> peers_only s s'" "i < num_pieces s'" "0 < get_availability s' i"
        then show "(picker_ok (dec_raw i s') \<and> avail_ok (dec_raw i s') \<and> peers_only s (dec_raw i s')) \<and>
            get_availability_all (dec_raw i s') = (get_availability_all s')[i := get_availability s' i + -1]"
          using dec_raw_ok [of s' i] avail_ok_dec [of s' i "dec_raw i s'"] peers_only_trans [of s s'] by simp
      qed (use order_inv_ok [OF inv] av ps in auto)
      moreover have "dec_refcount_bits b s = (if m_dirty ?s then ?s else if \<not> ?ps = [] then ?s\<lparr>m_dirty := True\<rparr> else ?s)"
        using 3 False sc by (auto simp: dec_refcount_bits_def dec_bits_from_fold)
      ultimately show ?thesis using mark_dirty_ok [of ?s "?ps = []"] inv peers_only_trans [of s ?s]
        by (auto simp: shift_positions)
    qed
  qed
qed

lemma inc_dec_refcount_bits:
  assumes inv: "order_inv s" and b: "bf_ok b" "bf_size b \<le> num_pieces s"
    and room: "\<forall>a \<in> set (get_availability_all s). 0 \<le> a \<and> a + 1 < 2 ^ peer_count_bits"
  shows "get_availability_all (dec_refcount_bits b (inc_refcount_bits b s)) = get_availability_all s"
proof -
  let ?s = "inc_refcount_bits b s" and ?av = "get_availability_all s"
  have I: "order_inv ?s" "num_pieces ?s = num_pieces s" "get_availability_all ?s = add_bits 1 b ?av"
    using inc_refcount_bits_ok [OF inv b] room by (auto simp: peers_only_def same_want_def)
  have a: "0 \<le> ?av ! j" "?av ! j + 1 < 2 ^ peer_count_bits" if "j < num_pieces s" for j
    using room that by (auto simp: all_set_conv_all_nth)
  have g: "get_availability ?s j = ?av ! j + (if j < bf_size b \<and> get_bit b j then 1 else 0)" if "j < num_pieces s" for j
    using availability_nth [of j ?s] I(2,3) that by (simp add: add_bits_def)
  have "get_availability ?s j < 2 ^ peer_count_bits" if "j < num_pieces s" for j
    using a [OF that] g [OF that] by (auto split: if_splits)
  then have "avail_ok ?s" using I(2) by (simp add: avail_ok_def all_set_conv_all_nth)
  moreover have "\<forall>j < bf_size b. get_bit b j \<longrightarrow> 0 < get_availability ?s j" using a g b(2) by (auto simp: add_pos_pos)
  ultimately have "get_availability_all (dec_refcount_bits b ?s) = add_bits (-1) b (add_bits 1 b ?av)"
    using dec_refcount_bits_ok [OF I(1) b(1)] b(2) I by auto
  also have "\<dots> = ?av" by (rule nth_equalityI) (simp_all add: add_bits_def)
  finally show ?thesis .
qed

end
