(* ===== verification/Picker_Setup.thy ===== *)
theory Picker_Setup
  imports Picker_Complete Picker_Refcount "HOL-Library.Multiset"
begin

text \<open>
  The constructor and \<open>resize\<close>, \<open>set_pad_bytes\<close>, \<open>we_have_all\<close>, the availability operations and the
  rebuilt pick list on the full invariant, and what the counts of the picker mean.
\<close>

section \<open>Construction\<close>

lemma tally_none: "(\<And>i. i < length mp \<Longrightarrow> \<not> P (mp ! i)) \<Longrightarrow> tally w P mp = 0"
  by (simp add: tally_sum)

definition blank_pos :: piece_pos where
  "blank_pos = \<lparr>pp_peer_count = 0, pp_state = piece_open, pp_priority = default_priority, pp_index = Some 0\<rparr>"

lemma tally_split: "tally w P mp = tally w (\<lambda>p. P p \<and> \<not> Q p) mp + tally w (\<lambda>p. P p \<and> Q p) mp"
  unfolding tally_sum sum.distrib [symmetric] by (intro sum.cong) auto

text \<open>The sizes for which the computations of \<open>resize\<close> stay within \<open>int\<close>.\<close>

definition sizes_fit :: "nat \<Rightarrow> nat \<Rightarrow> bool" where
  "sizes_fit tot sz \<longleftrightarrow> 0 < sz \<and> sz + min sz default_block_size \<le> 2 ^ 31 \<and> (tot + sz - 1) div sz < 2 ^ 31"

lemma last_blocks_bounds:
  fixes tot sz :: nat
  assumes "0 < sz"
  defines "bs \<equiv> min sz default_block_size"
  shows "0 < (sz + bs - 1) div bs" "(tot mod sz + bs - 1) div bs \<le> (sz + bs - 1) div bs"
proof -
  have bs: "0 < bs" using assms by (simp add: bs_def default_block_size_def)
  then show "0 < (sz + bs - 1) div bs" using assms(1) by (simp add: div_greater_zero_iff)
  have "tot mod sz + bs - 1 \<le> sz + bs - 1" using mod_less_divisor [OF assms(1), of tot] by linarith
  then show "(tot mod sz + bs - 1) div bs \<le> (sz + bs - 1) div bs" by (rule div_le_mono)
qed

lemma uint16_blocks:
  fixes b l :: nat
  assumes "b < 2 ^ 16" "l < 2 ^ 16"
  shows "(if l mod 2 ^ 16 = 0 then nat (int b mod 2 ^ 16) else l mod 2 ^ 16) = (let c = l in if c = 0 then b else c)"
  using assms by simp

lemma resize_picker_cases:
  assumes "sizes_fit tot sz"
  defines "bs \<equiv> min sz default_block_size" and "n \<equiv> (tot + sz - 1) div sz"
  shows "resize_picker tot sz s =
    (if (sz + bs - 1) div bs > max_blocks_per_piece then Inl invalid_piece_size
     else Inr ((reset_pieces n (s\<lparr>m_total_size := tot, m_piece_size := sz\<rparr>))\<lparr>m_blocks_in_last_piece :=
            (let b = (tot mod sz + bs - 1) div bs in if b = 0 then (sz + bs - 1) div bs else b)\<rparr>))"
proof -
  have sz: "0 < sz" and fit: "sz + bs \<le> 2 ^ 31" "n < 2 ^ 31" using assms(1) by (simp_all add: sizes_fit_def bs_def n_def)
  have bs: "0 < bs" using sz by (simp add: bs_def default_block_size_def)
  have "int32 (int sz + int bs - 1) = int (sz + bs - 1)" using fit(1) sz by (subst int32_id) auto
  then have b: "int32 (int sz + int bs - 1) sdiv int bs = int ((sz + bs - 1) div bs)"
    by (simp add: nonneg_sdiv zdiv_int)
  have p: "int32 (int n) = int n" using fit(2) by (intro int32_id) auto
  note B = last_blocks_bounds(1) [OF sz, folded bs_def] last_blocks_bounds(2) [OF sz, of tot, folded bs_def]
  let ?b = "(sz + bs - 1) div bs" and ?l = "(tot mod sz + bs - 1) div bs"
  have e: "(if ?l mod 2 ^ 16 = 0 then nat (int ?b mod 2 ^ 16) else ?l mod 2 ^ 16) = (let b = ?l in if b = 0 then ?b else b)"
    if "\<not> max_blocks_per_piece < ?b"
  proof -
    have "?b < 2 ^ 16" "?l < 2 ^ 16" using that B(2) by (auto simp: max_blocks_per_piece_def)
    then show ?thesis by (rule uint16_blocks)
  qed
  have s: "block_size (s\<lparr>m_total_size := tot, m_piece_size := sz\<rparr>) = bs" by (simp add: block_size_def bs_def)
  show ?thesis
  proof (cases "max_blocks_per_piece < ?b")
    case False
    then show ?thesis unfolding resize_picker_def Let_def s b n_def [symmetric] p e [OF False, unfolded Let_def] by simp
  qed (simp add: resize_picker_def Let_def s b)
qed


lemma tally_prefix:
  assumes "length mp \<le> length mp'" "\<And>j. j < length mp \<Longrightarrow> Q (mp' ! j) = P (mp ! j)"
    "\<And>j. length mp \<le> j \<Longrightarrow> j < length mp' \<Longrightarrow> Q (mp' ! j) \<Longrightarrow> w j = 0"
  shows "tally w Q mp' = tally w P mp"
proof -
  have "(\<Sum>j<length mp'. if Q (mp' ! j) then w j else 0) = (\<Sum>j<length mp. if Q (mp' ! j) then w j else 0)"
    using assms(1,3) by (intro sum.mono_neutral_right) auto
  then show ?thesis using assms(2) by (simp add: tally_sum)
qed

lemma resize_picker_ok:
  assumes fit: "sizes_fit tot sz" and ok: "picker_ok s" and ta: "tally_ok s"
    and grow: "num_pieces s \<le> (tot + sz - 1) div sz" and pad: "\<forall>j \<ge> num_pieces s. pad_bytes_in_piece s j = 0"
    and p: "resize_picker tot sz s = Inr s'"
  shows "full_inv s'" "num_pieces s' = (tot + sz - 1) div sz"
    "\<And>i. i < num_pieces s' \<Longrightarrow> \<not> have_piece s' i \<and> get_availability s' i = m_seeds s
       \<and> piece_priority s' i = (if i < num_pieces s then piece_priority s i else default_priority)"
proof -
  let ?n = "(tot + sz - 1) div sz" and ?bs = "min sz default_block_size"
  let ?f = "\<lambda>p. p\<lparr>pp_peer_count := 0, pp_state := piece_open, pp_index := Some 0\<rparr>"
  let ?v = "vec_resize ?n (new_piece_pos 0 0) (m_piece_map s)" and ?mp = "m_piece_map s'"
  have sz: "0 < sz" using fit by (simp add: sizes_fit_def)
  have small: "(sz + ?bs - 1) div ?bs \<le> max_blocks_per_piece"
    and s': "s' = (reset_pieces ?n (s\<lparr>m_total_size := tot, m_piece_size := sz\<rparr>))\<lparr>m_blocks_in_last_piece :=
            (let b = (tot mod sz + ?bs - 1) div ?bs in if b = 0 then (sz + ?bs - 1) div ?bs else b)\<rparr>"
    using p unfolding resize_picker_cases [OF fit] by (auto split: if_splits)
  have F: "?mp = map ?f ?v" "m_downloads s' = (\<lambda>_. [])" "m_block_info s' = []" "m_free_block_infos s' = []" "m_piece_size s' = sz"
    "m_dirty s'" "m_seeds s' = m_seeds s" "m_cursor s' = advance_cursor ?mp 0" "m_reverse_cursor s' = retreat_cursor ?mp (length ?mp)"
    "m_pads_in_piece s' = m_pads_in_piece s" by (simp_all add: s' reset_pieces_def Let_def)
  have len: "length ?v = ?n" using grow by (simp add: vec_resize_def num_pieces_def)
  show np: "num_pieces s' = ?n" by (simp add: num_pieces_def F(1) len)
  have nth: "?mp ! i = ?f (if i < num_pieces s then m_piece_map s ! i else new_piece_pos 0 0)" if "i < ?n" for i
    using that len grow by (simp add: F(1)) (simp add: vec_resize_def nth_append num_pieces_def)
  have bpp: "blocks_per_piece s' = (sz + ?bs - 1) div ?bs" by (simp add: blocks_per_piece_def block_size_def F)
  have pok: "pos_ok (?mp ! i)" if "i < ?n" for i
    using nth [OF that] ok by (auto simp: picker_ok_def pos_ok_def num_pieces_def new_piece_pos_def)
  have "?n \<le> no_piece" using fit by (simp add: sizes_fit_def no_piece_def)
  then have "picker_ok s'" using ok pok np F(7) by (auto simp: picker_ok_def in_set_conv_nth num_pieces_def)
  then have "order_inv s'" using F(6) by (simp add: order_inv_dirty)
  moreover have "geom_ok s'" using sz small last_blocks_bounds [OF sz]
    by (simp add: geom_ok_def F bpp max_blocks_per_piece_def) (simp add: s' Let_def)
  then have "dl_ok s'" using np nth
    by (auto simp: dl_ok_def dl_core_def queues_for_def alloc_ok_def counts_ok_def full_ok_def get_download_queue_def F slots_def
        queue_of_def download_queue_def in_categories filter_empty_conv download_categories_def)
  moreover have "tally_ok s'"
  proof -
    have z: "\<not> pos_have (?mp ! i)" if "i < length ?mp" for i using nth that np by (simp add: pos_have_def num_pieces_def)
    have l: "length (m_piece_map s) \<le> length ?mp" using np grow by (simp add: num_pieces_def)
    have pd: "pads s' = pads s" by (simp add: pad_bytes_in_piece_def F)
    have "tally w lacks ?mp = tally w pos_filtered (m_piece_map s)" for w
      by (rule tally_prefix [OF l]) (use nth np grow in \<open>auto simp: num_pieces_def pos_filtered_def pos_have_def new_piece_pos_def\<close>)
    then have f: "tally w lacks ?mp = tally w lacks (m_piece_map s) + tally w has_filtered (m_piece_map s)" for w
      using tally_split [of w pos_filtered "m_piece_map s" pos_have] by simp
    have "tally (pads s) (\<lambda>_. True) ?mp = tally (pads s) (\<lambda>_. True) (m_piece_map s)"
      by (rule tally_prefix [OF l]) (use pad in \<open>auto simp: num_pieces_def\<close>)
    moreover have "tally w pos_have ?mp = 0" "tally w has_filtered ?mp = 0" for w using z by (simp_all add: tally_none)
    ultimately show ?thesis using ta unfolding tally_ok_def pd f by (simp add: s' reset_pieces_def Let_def)
  qed
  moreover have "cursor_ok s'" using np by (simp add: cursor_ok_def F num_pieces_def)
  ultimately show "full_inv s'" by (simp add: full_inv_def picker_inv_def)
  show "\<not> have_piece s' i \<and> get_availability s' i = m_seeds s
      \<and> piece_priority s' i = (if i < num_pieces s then piece_priority s i else default_priority)" if "i < num_pieces s'" for i
    using nth [of i] that np F(7) by (simp add: have_iff get_availability_def piece_priority_def new_piece_pos_def)
qed

lemma new_picker_ok:
  assumes fit: "sizes_fit tot sz" and p: "new_picker tot sz draws = Inr s"
  shows "full_inv s" "num_pieces s = (tot + sz - 1) div sz"
    "\<And>i. i < num_pieces s \<Longrightarrow> \<not> have_piece s i \<and> get_availability s i = 0 \<and> piece_priority s i = default_priority"
proof -
  have e: "picker_ok (empty_picker draws)" "tally_ok (empty_picker draws)" "num_pieces (empty_picker draws) = 0"
    "pad_bytes_in_piece (empty_picker draws) j = 0" "m_seeds (empty_picker draws) = 0" for j
    by (simp_all add: picker_ok_def tally_ok_def tally_sum empty_picker_def num_pieces_def pad_bytes_in_piece_def)
  note R = resize_picker_ok [OF fit e(1,2) _ _ p [unfolded new_picker_def], unfolded e, simplified]
  show "full_inv s" "num_pieces s = (tot + sz - 1) div sz"
    "\<And>i. i < num_pieces s \<Longrightarrow> \<not> have_piece s i \<and> get_availability s i = 0 \<and> piece_priority s i = default_priority"
    using R by simp_all
qed

lemma new_picker_error:
  assumes "sizes_fit tot sz"
  shows "new_picker tot sz draws = Inl e \<longleftrightarrow>
     e = invalid_piece_size \<and> (sz + min sz default_block_size - 1) div min sz default_block_size > max_blocks_per_piece"
  unfolding new_picker_def resize_picker_cases [OF assms] by auto

section \<open>Forgetting a peer\<close>

lemma clear_peer_ok:
  assumes "picker_inv s"
  shows "picker_inv (clear_peer peer s)" "same_want s (clear_peer peer s)"
proof -
  let ?s = "clear_peer peer s" and ?g = "\<lambda>b. if bi_peer b = peer then b\<lparr>bi_peer := None\<rparr> else b"
  have F: "m_downloads ?s = m_downloads s" "length (m_block_info ?s) = length (m_block_info s)" "m_free_block_infos ?s = m_free_block_infos s"
    "blocks_per_piece ?s = blocks_per_piece s" "blocks_in_piece ?s = blocks_in_piece s" "num_pieces ?s = num_pieces s"
    "get_download_queue ?s = get_download_queue s" "queue_of ?s = queue_of s" "slots ?s = slots s" "geom_ok ?s = geom_ok s"
    "m_piece_map ?s = m_piece_map s" "find_piece ?s = find_piece s" "dl_at ?s = dl_at s"
    by (simp_all add: clear_peer_def blocks_per_piece_def block_size_def blocks_in_piece_def num_pieces_def get_download_queue_def
        queue_of_def slots_def geom_ok_def find_piece_def find_dl_piece_def dl_at_def fun_eq_iff)
  have b: "blocks_for_piece ?s d = map ?g (blocks_for_piece s d)" for d
    unfolding blocks_for_piece_def F(4,5) by (simp add: clear_peer_def take_map drop_map)
  have c: "count_state st (blocks_for_piece ?s d) = count_state st (blocks_for_piece s d)" for st d
    unfolding b count_state_def by (simp add: filter_map o_def if_distrib cong: if_cong)
  have o: "same_order s ?s" by (simp add: same_order_def clear_peer_def)
  have "dl_ok ?s = dl_ok s" by (simp add: dl_ok_def dl_core_def queues_for_def alloc_ok_def counts_ok_def counts_match_def full_ok_def F c)
  then show "picker_inv ?s" using assms same_order_fields(5) [OF o] by (simp add: picker_inv_def)
  show "same_want s ?s" by (simp add: same_want_def clear_peer_def num_pieces_def)
qed

section \<open>Padding\<close>

lemma tally_weight:
  assumes "i < length mp" "w i = 0"
  shows "tally (w(i := x)) P mp = tally w P mp + (if P (mp ! i) then x else 0)"
proof -
  have "(\<Sum>j<length mp. if P (mp ! j) then (w(i := x)) j else 0)
      = (\<Sum>j<length mp. (if P (mp ! j) then w j else 0) + (if j = i then (if P (mp ! i) then x else 0) else 0))"
    using assms(2) by (intro sum.cong) auto
  then show ?thesis using assms(1) by (simp add: tally_sum sum.distrib sum.delta)
qed

lemma set_pad_bytes_ok:
  assumes inv: "full_inv s" and i: "i < num_pieces s" and fresh: "m_pads_in_piece s i = None"
  shows "full_inv (set_pad_bytes i n s)" "pad_bytes_in_piece (set_pad_bytes i n s) i = n"
    "\<And>j. j < num_pieces s \<Longrightarrow> have_piece (set_pad_bytes i n s) j \<longleftrightarrow> have_piece s j \<or> (j = i \<and> piece_size s i = int n)"
proof -
  let ?p = "m_piece_map s ! i"
  define s1 where "s1 = s\<lparr>m_num_pad_bytes := m_num_pad_bytes s + int n, m_pads_in_piece := (m_pads_in_piece s)(i \<mapsto> n)\<rparr>"
  define S where "S = (if pos_have ?p then
       let s' = s1\<lparr>m_have_pad_bytes := m_have_pad_bytes s1 + int n\<rparr>
       in if pos_filtered ?p then s'\<lparr>m_have_filtered_pad_bytes := m_have_filtered_pad_bytes s' + int n\<rparr> else s'
     else if pos_filtered ?p then s1\<lparr>m_filtered_pad_bytes := m_filtered_pad_bytes s1 + int n\<rparr> else s1)"
  have m1: "m_piece_map s1 = m_piece_map s" by (simp add: s1_def)
  have ps: "piece_size S i = piece_size s i" by (simp add: S_def s1_def Let_def piece_size_def num_pieces_def)
  have eq: "set_pad_bytes i n s = (if piece_size s i = int n then we_have i S else S)"
    unfolding set_pad_bytes_def Let_def s1_def [symmetric] m1 S_def [unfolded Let_def, symmetric] ps by simp
  note I = full_invD [OF inv]
  have z: "pads s i = 0" using fresh by (simp add: pad_bytes_in_piece_def)
  have pw: "pads S = (pads s)(i := int n)" by (auto simp: S_def s1_def Let_def pad_bytes_in_piece_def)
  have l: "i < length (m_piece_map s)" "m_piece_map S = m_piece_map s" using i by (simp_all add: num_pieces_def S_def s1_def Let_def)
  have nS: "num_pieces S = num_pieces s" using l by (simp add: num_pieces_def)
  have "tally_ok S" unfolding tally_ok_def pw l(2) tally_weight [where w = "pads s", OF l(1) z] using I(2)
    by (cases "pos_have ?p"; cases "pos_filtered ?p") (simp_all add: S_def s1_def Let_def tally_ok_def)
  moreover have "cursor_ok S" using I(3) nS by (simp add: cursor_ok_def l) (simp add: S_def s1_def Let_def)
  moreover have "picker_inv S"
  proof -
    have d: "same_dl s S" and o: "same_order s S" by (simp_all add: S_def s1_def Let_def same_dl_def same_order_def num_pieces_def)
    have "dl_ok S = dl_ok s" using dl_ok_cong [OF d] l(2) by simp
    then show ?thesis using I(1) same_order_fields(5) [OF o] by (simp add: picker_inv_def)
  qed
  ultimately have fS: "full_inv S" by (simp add: full_inv_def)
  note W = we_have_ok [OF fS, of i]
  show "full_inv (set_pad_bytes i n s)" using eq fS W i nS by simp
  show "have_piece (set_pad_bytes i n s) j \<longleftrightarrow> have_piece s j \<or> (j = i \<and> piece_size s i = int n)" if "j < num_pieces s" for j
    using eq W(3) that i nS l(2) by (auto simp: have_iff)
  show "pad_bytes_in_piece (set_pad_bytes i n s) i = n"
  proof -
    have "m_pads_in_piece S = (m_pads_in_piece s)(i \<mapsto> n)" by (simp add: S_def s1_def Let_def)
    then show ?thesis using eq W(5) i nS by (simp add: pad_bytes_in_piece_def)
  qed
qed

section \<open>All pieces at once\<close>

text \<open>
  \<open>we_have_all\<close> keeps every part of the invariant but one: \<open>m_have_pad_bytes\<close> is not updated.
\<close>

lemma tally_all: "(\<And>i. i < length mp \<Longrightarrow> P (mp ! i)) \<Longrightarrow> tally w P mp = tally w (\<lambda>_. True) mp"
  by (simp add: tally_sum)

lemma we_have_all_ok:
  assumes inv: "full_inv s"
  shows "picker_inv (we_have_all s)" "cursor_ok (we_have_all s)"
    "tally_ok (we_have_all s) \<longleftrightarrow> m_have_pad_bytes s = m_num_pad_bytes s"
    "\<And>i. i < num_pieces s \<Longrightarrow> have_piece (we_have_all s) i"
proof -
  note I = full_invD [OF inv]
  let ?f = "\<lambda>p. (set_have p)\<lparr>pp_state := piece_open\<rparr>" and ?s = "we_have_all s"
  have mp: "m_piece_map ?s = map ?f (m_piece_map s)" "num_pieces ?s = num_pieces s"
    by (simp_all add: we_have_all_def num_pieces_def)
  have h: "pos_have (?f p)" "pos_filtered (?f p) = pos_filtered p" "pp_state (?f p) = piece_open" for p
    by (simp_all add: pos_have_def set_have_def pos_filtered_def)
  have pr: "priority_of ?s i = -1" if "i < num_pieces s" for i
    using that h(1) by (simp add: priority_of_def mp(1) num_pieces_def pos_priority_def)
  show "have_piece ?s i" if "i < num_pieces s" for i
    using that by (simp add: have_iff mp(1) num_pieces_def set_have_def)
  have ok: "picker_ok ?s"
    using order_inv_ok [OF picker_invD(1) [OF I(1)]] mp by (auto simp: picker_ok_def pos_ok_def set_have_def we_have_all_def)
  have "buckets_rep (m_piece_map ?s) [] [0] (priority_of ?s) [[]]"
    using pr mp(2) by (auto simp: buckets_rep_def num_pieces_def)
  then have "pick_list_for (priority_of ?s) ?s" unfolding pick_list_for_def by (auto simp: we_have_all_def)
  then have "order_inv ?s" using ok by (simp add: order_inv_iff)
  moreover have "geom_ok ?s"
    using picker_invD(2) [OF I(1)] by (simp add: dl_core_def geom_ok_def blocks_per_piece_def block_size_def we_have_all_def)
  then have "dl_ok ?s" using h(3) mp(2)
    by (auto simp: dl_ok_def dl_core_def queues_for_def alloc_ok_def counts_ok_def full_ok_def get_download_queue_def slots_def
        queue_of_def download_queue_def mp(1) num_pieces_def in_categories filter_empty_conv download_categories_def)
      (simp_all add: we_have_all_def)
  ultimately show "picker_inv ?s" by (simp add: picker_inv_def)
  have "advance_cursor (m_piece_map ?s) 0 = num_pieces s" "retreat_cursor (m_piece_map ?s) (num_pieces s) = 0"
    using h(1) by (auto intro!: advance_cursor_eqI retreat_cursor_eqI simp: mp(1) num_pieces_def skip_piece_def)
  then show "cursor_ok ?s" using mp(2) by (simp add: cursor_ok_def) (simp add: we_have_all_def)
  have pd: "pads ?s = pads s" by (simp add: we_have_all_def pad_bytes_in_piece_def)
  have t1: "tally w pos_have (m_piece_map ?s) = tally w (\<lambda>_. True) (m_piece_map s)" for w
    unfolding tally_sum by (simp add: mp(1) h(1))
  have t2: "tally w lacks (m_piece_map ?s) = 0" for w by (rule tally_none) (simp add: mp(1) h(1))
  have t3: "tally w has_filtered (m_piece_map ?s) = tally w has_filtered (m_piece_map s) + tally w lacks (m_piece_map s)" for w
  proof -
    have "tally w has_filtered (m_piece_map ?s) = tally w pos_filtered (m_piece_map s)"
      unfolding tally_sum by (simp add: mp(1) h(1,2))
    then show ?thesis using tally_split [of w pos_filtered "m_piece_map s" pos_have] by simp
  qed
  have t4: "tally w (\<lambda>_. True) (m_piece_map ?s) = tally w (\<lambda>_. True) (m_piece_map s)" for w
    by (simp add: tally_sum mp(1))
  have t5: "tally (\<lambda>_. 1) (\<lambda>_. True) (m_piece_map s) = int (num_pieces s)" by (simp add: tally_sum num_pieces_def)
  show "tally_ok ?s \<longleftrightarrow> m_have_pad_bytes s = m_num_pad_bytes s"
    unfolding tally_ok_def pd t1 t2 t3 t4 t5 using I(2) by (auto simp: tally_ok_def we_have_all_def)
qed

lemma we_have_all_full:
  assumes "full_inv s" "m_have_pad_bytes s = m_num_pad_bytes s"
  shows "full_inv (we_have_all s)"
  using we_have_all_ok(1-3) [OF assms(1)] assms(2) by (simp add: full_inv_def)

section \<open>Availability and the rebuilt list\<close>

lemma peers_only_full:
  assumes "peers_only s s'" "order_inv s'" "full_inv s"
  shows "full_inv s'"
proof -
  have "same_dl s s'" using assms(1) by (simp add: peers_only_def same_want_def same_dl_def)
  then have "dl_ok s' = dl_ok s" using dl_ok_cong assms(1) by (simp add: peers_only_def)
  then have "picker_inv s'" using assms by (simp add: full_inv_def picker_inv_def)
  moreover have "same_want s s'" using assms(1) by (simp add: peers_only_def)
  ultimately show ?thesis using same_want_full assms(3) by blast
qed

lemma update_pieces_full:
  assumes inv: "full_inv s"
  shows "full_inv (update_pieces s)" "\<not> m_dirty (update_pieces s)" "reorders (s\<lparr>m_dirty := False\<rparr>) (update_pieces s)"
proof -
  have oi: "order_inv s" using picker_invD(1) [OF full_invD(1) [OF inv]] .
  then have "\<forall>p\<in>set (m_piece_map s). pp_priority p < 8" using order_inv_ok by (auto simp: picker_ok_def pos_ok_def)
  from update_pieces_ok [OF this]
  have U: "pick_list_for (priority_of s) (update_pieces s)" "\<not> m_dirty (update_pieces s)"
    "reorders (s\<lparr>m_dirty := False\<rparr>) (update_pieces s)" by auto
  then show "\<not> m_dirty (update_pieces s)" "reorders (s\<lparr>m_dirty := False\<rparr>) (update_pieces s)" by blast+
  have p: "priority_of (s\<lparr>m_dirty := False\<rparr>) = priority_of s" by (simp add: priority_of_def fun_eq_iff)
  have "picker_ok (s\<lparr>m_dirty := False\<rparr>)" using order_inv_ok [OF oi] by (simp add: picker_ok_def num_pieces_def)
  then have "order_inv (update_pieces s)"
    using U(3) reorders_picker_ok pick_list_reorders [of "s\<lparr>m_dirty := False\<rparr>", unfolded p, OF U(1)] by (simp add: order_inv_iff)
  then show "full_inv (update_pieces s)"
    using peers_only_full [OF peers_only_trans [OF peers_only_fields(1) reorders_peers [OF U(3)]]] inv by blast
qed

lemma tally_count: "tally (\<lambda>_. 1) P mp = int (card {i. i < length mp \<and> P (mp ! i)})"
proof -
  have "{i. i < length mp \<and> P (mp ! i)} = {i \<in> {..<length mp}. P (mp ! i)}" by auto
  then show ?thesis unfolding tally_sum by (simp add: sum.If_cases Int_def)
qed

section \<open>Counts\<close>

lemma tally_unfiltered:
  "int (length mp) - tally (\<lambda>_. 1) lacks mp - tally (\<lambda>_. 1) has_filtered mp = tally (\<lambda>_. 1) (\<lambda>p. \<not> pos_filtered p) mp"
proof -
  have "int (length mp) = tally (\<lambda>_. 1) (\<lambda>_. True) mp" by (simp add: tally_sum)
  then show ?thesis using tally_split [of "\<lambda>_. 1" "\<lambda>_. True" mp pos_filtered] tally_split [of "\<lambda>_. 1" pos_filtered mp pos_have] by simp
qed

text \<open>The pieces that are wanted, and those of them that we have.\<close>

definition wanted :: "picker \<Rightarrow> nat set" where
  "wanted s = {i. i < num_pieces s \<and> piece_priority s i \<noteq> dont_download}"

definition owned :: "picker \<Rightarrow> nat set" where
  "owned s = {i. i < num_pieces s \<and> have_piece s i}"

lemma finite_wanted [simp]: "finite (wanted s)" "finite (owned s)"
  by (simp_all add: wanted_def owned_def)

lemma counts_mean:
  assumes "full_inv s"
  shows "pc_num_pieces (want s) = int (card (wanted s))"
    "pc_num_pieces (have_want s) = int (card (wanted s \<inter> owned s))"
    "pc_num_pieces (have_count s) = int (card (owned s))"
    "num_want_left s = int (card (wanted s - owned s)) + m_num_have_filtered s"
    "m_num_have_filtered s = int (card (owned s - wanted s))"
proof -
  let ?mp = "m_piece_map s"
  have T: "m_num_have s = tally (\<lambda>_. 1) pos_have ?mp" "m_num_filtered s = tally (\<lambda>_. 1) lacks ?mp"
    "m_num_have_filtered s = tally (\<lambda>_. 1) has_filtered ?mp" using full_invD(2) [OF assms] by (simp_all add: tally_ok_def)
  have n: "num_pieces s = length ?mp" by (simp add: num_pieces_def)
  have w: "tally (\<lambda>_. 1) (\<lambda>p. \<not> pos_filtered p) ?mp = int (card (wanted s))"
    "tally (\<lambda>_. 1) (\<lambda>p. pos_have p \<and> \<not> pos_filtered p) ?mp = int (card (wanted s \<inter> owned s))"
    "tally (\<lambda>_. 1) pos_have ?mp = int (card (owned s))"
    "tally (\<lambda>_. 1) (\<lambda>p. \<not> pos_filtered p \<and> \<not> pos_have p) ?mp = int (card (wanted s - owned s))"
    "tally (\<lambda>_. 1) has_filtered ?mp = int (card (owned s - wanted s))"
    unfolding tally_count
    by (intro arg_cong [of _ _ int] arg_cong [of _ _ card],
        auto simp: wanted_def owned_def n piece_priority_def have_piece_def pos_filtered_def pos_have_def)+
  note sp = tally_split [of "\<lambda>_. 1" pos_have ?mp pos_filtered] tally_split [of "\<lambda>_. 1" "\<lambda>p. \<not> pos_filtered p" ?mp pos_have]
  have c: "(\<lambda>p. pos_have p \<and> pos_filtered p) = (\<lambda>p. has_filtered p)" "(\<lambda>p. \<not> pos_filtered p \<and> pos_have p) = (\<lambda>p. pos_have p \<and> \<not> pos_filtered p)"
    by auto
  show "pc_num_pieces (want s) = int (card (wanted s))" using T tally_unfiltered [of ?mp] w n by (simp add: want_def)
  show "pc_num_pieces (have_want s) = int (card (wanted s \<inter> owned s))" using T sp(1) w c by (simp add: have_want_def)
  show "pc_num_pieces (have_count s) = int (card (owned s))" using T w by (simp add: have_count_def)
  show "m_num_have_filtered s = int (card (owned s - wanted s))" using T w by simp
  show "num_want_left s = int (card (wanted s - owned s)) + m_num_have_filtered s"
    using T tally_unfiltered [of ?mp] sp c w n by (simp add: num_want_left_def)
qed

lemma is_seeding_iff:
  assumes "full_inv s"
  shows "is_seeding s \<longleftrightarrow> (\<forall>i < num_pieces s. have_piece s i)"
proof -
  have "m_num_have s = int (card (owned s))" using counts_mean(3) [OF assms] by (simp add: have_count_def)
  moreover have "owned s \<subseteq> {..<num_pieces s}" by (auto simp: owned_def)
  then have "card (owned s) = num_pieces s \<longleftrightarrow> owned s = {..<num_pieces s}"
    by (metis card_lessThan card_subset_eq finite_lessThan)
  ultimately show ?thesis by (auto simp: is_seeding_def owned_def)
qed

section \<open>Distributed copies\<close>

definition copies :: "piece_pos \<Rightarrow> int" where
  "copies p = int (pp_peer_count p) + (if pos_have p then 1 else 0)"

lemma copies_loop_Cons:
  "copies_loop (m, k, f) (p # ps) =
     (if m > copies p then copies_loop (copies p, 1, f + k) ps
      else if copies p = m then copies_loop (m, k + 1, f) ps
      else copies_loop (m, k, f + 1) ps)"
  by (simp add: copies_def Let_def)

lemma Min_insert_absorb:
  fixes a b :: int
  assumes "finite A" "b < a"
  shows "Min (insert a (insert b A)) = Min (insert b A)"
  using assms by (cases "A = {}") (auto simp: min_def)

lemma copies_loop_spec:
  assumes "copies_loop (m, k, f) ps = (m', k', f')"
  shows "k' + f' = k + f + length ps" "m' = Min (insert m (copies ` set ps))"
    "k' = (if m' = m then k else 0) + length (filter (\<lambda>p. copies p = m') ps)"
proof -
  have "k' + f' = k + f + length ps \<and> m' = Min (insert m (copies ` set ps))
    \<and> k' = (if m' = m then k else 0) + length (filter (\<lambda>p. copies p = m') ps)"
    using assms
  proof (induction ps arbitrary: m k f)
    case (Cons p ps)
    consider "m > copies p" | "copies p = m" | "m < copies p" by linarith
    then show ?case
    proof cases
      case 1
      then have "copies_loop (copies p, 1, f + k) ps = (m', k', f')" using Cons.prems by (simp add: copies_loop_Cons del: copies_loop.simps(2))
      from Cons.IH [OF this] have IH: "k' + f' = 1 + (f + k) + length ps" "m' = Min (insert (copies p) (copies ` set ps))"
        "k' = (if m' = copies p then 1 else 0) + length (filter (\<lambda>q. copies q = m') ps)" by auto
      have "Min (insert m (copies ` set (p # ps))) = m'"
        using Min_insert_absorb [of "copies ` set ps" "copies p" m] 1 IH(2) by simp
      moreover have "m' \<le> copies p" using IH(2) by simp
      then have "m' \<noteq> m" using 1 by linarith
      ultimately show ?thesis using IH by auto
    next
      case 2
      then have "copies_loop (m, k + 1, f) ps = (m', k', f')" using Cons.prems by (simp add: copies_loop_Cons del: copies_loop.simps(2))
      from Cons.IH [OF this] show ?thesis using 2 by auto
    next
      case 3
      then have "copies_loop (m, k, f + 1) ps = (m', k', f')" using Cons.prems by (simp add: copies_loop_Cons del: copies_loop.simps(2))
      from Cons.IH [OF this] have IH: "k' + f' = k + (f + 1) + length ps" "m' = Min (insert m (copies ` set ps))"
        "k' = (if m' = m then k else 0) + length (filter (\<lambda>q. copies q = m') ps)" by auto
      have "Min (insert m (copies ` set (p # ps))) = m'"
        using Min_insert_absorb [of "copies ` set ps" m "copies p"] 3 IH(2) by (simp add: insert_commute)
      moreover have "m' \<le> m" using IH(2) by simp
      then have "m' \<noteq> copies p" using 3 by linarith
      ultimately show ?thesis using IH by auto
    qed
  qed auto
  then show "k' + f' = k + f + length ps" "m' = Min (insert m (copies ` set ps))"
    "k' = (if m' = m then k else 0) + length (filter (\<lambda>p. copies p = m') ps)" by blast+
qed

lemma distributed_copies_spec:
  assumes "\<exists>p \<in> set (m_piece_map s). copies p \<le> 0xffff" and fit: "num_pieces s * 1000 < 2 ^ 31"
  defines "lo \<equiv> Min (copies ` set (m_piece_map s))"
  shows "distributed_copies s =
    (lo + m_seeds s,
     int (length (filter (\<lambda>p. copies p \<noteq> lo) (m_piece_map s)) * 1000 div num_pieces s))"
proof -
  let ?ps = "m_piece_map s"
  obtain m k f where c: "copies_loop (0xffff, 0, 0) ?ps = (m, k, f)" by (cases "copies_loop (0xffff, 0, 0) ?ps") auto
  note C = copies_loop_spec [OF c]
  have ne: "copies ` set ?ps \<noteq> {}" using assms(1) by auto
  have "lo \<le> 0xffff" unfolding lo_def using assms(1) by (metis (no_types, lifting) Min_le finite_imageI finite_set image_eqI order_trans)
  then have m: "m = lo" using C(2) ne by (simp add: lo_def Min_insert)
  have "length ?ps = length (filter (\<lambda>p. copies p = lo) ?ps) + length (filter (\<lambda>p. copies p \<noteq> lo) ?ps)"
    by (simp add: sum_length_filter_compl)
  then have f: "f = length (filter (\<lambda>p. copies p \<noteq> lo) ?ps)" using C(1,3) m by (simp split: if_splits)
  moreover have "f \<le> num_pieces s" unfolding f num_pieces_def by (rule length_filter_le)
  then have "int32 (int f * 1000) = int (f * 1000)" using fit by (subst int32_id) auto
  then have "int32 (int f * 1000) sdiv int (num_pieces s) = int (f * 1000 div num_pieces s)"
    by (simp add: nonneg_sdiv zdiv_int)
  moreover have "num_pieces s \<noteq> 0" using assms(1) by (auto simp: num_pieces_def)
  ultimately show ?thesis using c m by (simp add: distributed_copies_def Let_def)
qed

lemma update_pieces_order:
  assumes "full_inv s"
  shows "check_pick_list (update_pieces s) \<and> distinct (m_pieces (update_pieces s))
    \<and> set (m_pieces (update_pieces s)) = {i. i < num_pieces s \<and> 0 \<le> priority_of s i}
    \<and> sorted (map (priority_of s) (m_pieces (update_pieces s)))
    \<and> reorders (s\<lparr>m_dirty := False\<rparr>) (update_pieces s)"
proof -
  note U = update_pieces_full [OF assms]
  let ?u = "update_pieces s"
  have p: "priority_of ?u j = priority_of s j" if "j < num_pieces s" for j
    using reorders_pos(5) [OF U(3), of j] that by (simp add: priority_of_def num_pieces_def)
  have n: "num_pieces ?u = num_pieces s" using reorders_num_pieces [OF U(3)] by (simp add: num_pieces_def)
  have o: "order_inv ?u" using picker_invD(1) [OF full_invD(1) [OF U(1)]] .
  then have "pick_list_for (priority_of ?u) ?u" using U(2) by (simp add: order_inv_iff)
  note S = pick_list_sorted [OF this]
  then have m: "set (m_pieces ?u) = {i. i < num_pieces s \<and> 0 \<le> priority_of s i}" using n p by auto
  then have "map (priority_of ?u) (m_pieces ?u) = map (priority_of s) (m_pieces ?u)"
    using p by (intro map_cong) auto
  then have "sorted (map (priority_of s) (m_pieces ?u))" using S by metis
  then show ?thesis using S m U(2,3) o by (simp add: order_inv_def)
qed

section \<open>Updates in place\<close>

text \<open>
  The order of the pieces is that of a list built anew, up to the order of pieces of equal priority.
\<close>

definition like_rebuilt :: "picker \<Rightarrow> bool" where
  "like_rebuilt s \<longleftrightarrow> \<not> m_dirty s \<and> distinct (m_pieces s) \<and> set (m_pieces s) = set (m_pieces (update_pieces s))
     \<and> map (priority_of s) (m_pieces s) = map (priority_of s) (m_pieces (update_pieces s))"

lemma clean_like_rebuilt:
  assumes "full_inv s" "\<not> m_dirty s"
  shows "like_rebuilt s"
proof -
  note U = update_pieces_order [OF assms(1)]
  have "pick_list_for (priority_of s) s" using assms picker_invD(1) [OF full_invD(1)] by (auto simp: order_inv_iff)
  note S = pick_list_sorted [OF this]
  then have "mset (m_pieces s) = mset (m_pieces (update_pieces s))" using U by (simp add: set_eq_iff_mset_eq_distinct [symmetric])
  then have "mset (map (priority_of s) (m_pieces s)) = mset (map (priority_of s) (m_pieces (update_pieces s)))" by simp
  then have "map (priority_of s) (m_pieces s) = map (priority_of s) (m_pieces (update_pieces s))"
    using S U by (metis properties_for_sort sorted_sort_id)
  then show ?thesis using S U assms(2) by (simp add: like_rebuilt_def)
qed

lemma inc_like_rebuilt:
  assumes "full_inv s" "\<not> m_dirty s" "i < num_pieces s" "get_availability s i + 1 < 2 ^ peer_count_bits"
  shows "like_rebuilt (inc_refcount i s)"
  using assms inc_refcount_ok [of s i] peers_only_full [of s] inc_refcount_dirty [of s i] full_invD(1) picker_invD(1)
  by (intro clean_like_rebuilt) blast+

lemma dec_like_rebuilt:
  assumes "full_inv s" "\<not> m_dirty s" "i < num_pieces s" "pp_peer_count (m_piece_map s ! i) \<noteq> 0"
  shows "like_rebuilt (dec_refcount i s)"
proof -
  have o: "order_inv s" using picker_invD(1) [OF full_invD(1) [OF assms(1)]] .
  have "dec_refcount i s = dec_step i s" using assms(4) by (simp add: dec_refcount_def dec_step_def Let_def)
  then have "full_inv (dec_refcount i s)" using dec_step_ok [OF o assms(3,4)] peers_only_full [OF _ _ assms(1)] by simp
  then show ?thesis using dec_refcount_dirty [OF o assms(3,4,2)] by (rule clean_like_rebuilt)
qed

lemma have_like_rebuilt:
  assumes "full_inv s" "\<not> m_dirty s" "i < num_pieces s"
  shows "like_rebuilt (we_have i s)" "have_piece s i \<Longrightarrow> like_rebuilt (we_dont_have i s)"
  using we_have_ok(1,6) [OF assms(1,3)] we_dont_have_ok(1,4) [OF assms(1,3)] assms(2) by (simp_all add: clean_like_rebuilt)

lemma priority_like_rebuilt:
  assumes "full_inv s" "\<not> m_dirty s" "i < num_pieces s" "n < 8"
  shows "like_rebuilt (snd (set_piece_priority i n s))"
  using set_piece_priority_ok(1,6) [OF assms(1,3,4)] assms(2) by (simp add: clean_like_rebuilt)

lemma piece_priority_nth: "i < num_pieces s \<Longrightarrow> piece_priority s i = piece_priorities s ! i"
  by (simp add: piece_priority_def piece_priorities_def num_pieces_def)

lemma have_lose_owned:
  assumes "full_inv s" "i < num_pieces s"
  shows "full_inv (we_have i s) \<and> owned (we_have i s) = insert i (owned s)
    \<and> full_inv (we_dont_have i (we_have i s)) \<and> owned (we_dont_have i (we_have i s)) = owned s - {i}"
proof -
  note H = we_have_ok [OF assms]
  have i: "i < num_pieces (we_have i s)" "have_piece (we_have i s) i" using H(2,3) assms(2) by auto
  note D = we_dont_have_ok [OF H(1) i]
  show ?thesis using H(1-3) D assms(2) by (auto simp: owned_def)
qed

lemma set_priority_all:
  assumes "full_inv s" "i < num_pieces s" "n < 8"
  shows "full_inv (snd (set_piece_priority i n s))
    \<and> piece_priorities (snd (set_piece_priority i n s)) = (piece_priorities s)[i := n]
    \<and> owned (snd (set_piece_priority i n s)) = owned s
    \<and> fst (set_piece_priority i n s) = ((n = 0) \<noteq> (piece_priority s i = 0))"
proof -
  note P = set_piece_priority_ok [OF assms]
  have l: "length (piece_priorities t) = num_pieces t" for t by (simp add: piece_priorities_def num_pieces_def)
  have "piece_priorities (snd (set_piece_priority i n s)) = (piece_priorities s)[i := n]"
    using P(2,4) by (intro nth_equalityI) (simp_all add: l piece_priority_nth [symmetric] nth_list_update)
  then show ?thesis using P by (auto simp: owned_def)
qed

lemma have_all_owned:
  assumes "full_inv s"
  shows "owned (we_have_all s) = {..<num_pieces s}"
proof -
  have "num_pieces (we_have_all s) = num_pieces s" by (simp add: we_have_all_def num_pieces_def Let_def)
  then show ?thesis using we_have_all_ok(4) [OF assms] by (auto simp: owned_def)
qed

end
