(* ===== verification/Picker_Pick.thy ===== *)
theory Picker_Pick
  imports Picker_Setup
begin

text \<open>
  \<open>pick_pieces\<close> and its helpers: which blocks to request from a peer that has the pieces of a
  bitfield. The picks, the backup picks, the pieces to ignore and the number of blocks still
  wanted are threaded as a record; \<open>num_blocks\<close> and \<open>prefer_contiguous_blocks\<close> are signed.
  \<open>pa_trap\<close> records a division by zero. The statistics counters of the original are left out.
\<close>

section \<open>The state of a pick\<close>

datatype picker_flag =
    partial_ratio | prioritize_partials_flag | rarest_first_partials | rarest_first_flag
  | reverse_rarest_first | suggested_pieces_flag | prio_sequential_pieces | sequential_pieces
  | reverse_sequential | random_pieces | prefer_contiguous | extent_affinity | backup1 | backup2 | end_game

record pick_acc =
  pa_interesting :: "piece_block list"
  pa_backup :: "piece_block list"
  pa_backup2 :: "piece_block list"
  pa_ignored :: "nat list"
  pa_num :: int
  pa_flags :: "picker_flag set"
  pa_trap :: bool

definition mk_block :: "nat \<Rightarrow> nat \<Rightarrow> piece_block" where
  "mk_block p b = \<lparr>piece_index = p, block_index = b\<rparr>"

definition add_pick :: "piece_block \<Rightarrow> pick_acc \<Rightarrow> pick_acc" where
  "add_pick b a = a\<lparr>pa_interesting := pa_interesting a @ [b], pa_num := pa_num a - 1\<rparr>"

definition set_flag :: "picker_flag \<Rightarrow> pick_acc \<Rightarrow> pick_acc" where
  "set_flag f a = a\<lparr>pa_flags := insert f (pa_flags a)\<rparr>"

text \<open>\<open>append_blocks(interesting, backup, num)\<close> for the two lists of backups.\<close>

definition append_backup :: "pick_acc \<Rightarrow> pick_acc" where
  "append_backup a =
     (if pa_backup a = [] then a
      else
        let to_copy = nat (min (int (length (pa_backup a))) (pa_num a))
        in a\<lparr>pa_interesting := pa_interesting a @ take to_copy (pa_backup a),
             pa_backup := drop to_copy (pa_backup a), pa_num := pa_num a - int to_copy\<rparr>)"

definition append_backup2 :: "pick_acc \<Rightarrow> pick_acc" where
  "append_backup2 a =
     (if pa_backup2 a = [] then a
      else
        let to_copy = nat (min (int (length (pa_backup2 a))) (pa_num a))
        in a\<lparr>pa_interesting := pa_interesting a @ take to_copy (pa_backup2 a),
             pa_backup2 := drop to_copy (pa_backup2 a), pa_num := pa_num a - int to_copy\<rparr>)"

section \<open>Eligible pieces\<close>

definition is_piece_free :: "picker \<Rightarrow> bitfield \<Rightarrow> nat \<Rightarrow> bool" where
  "is_piece_free s bitmask piece \<longleftrightarrow>
     get_bit bitmask piece \<and> \<not> pos_have (m_piece_map s ! piece) \<and> \<not> pos_filtered (m_piece_map s ! piece)"

definition can_pick :: "picker \<Rightarrow> bitfield \<Rightarrow> nat \<Rightarrow> bool" where
  "can_pick s bitmask piece \<longleftrightarrow>
     get_bit bitmask piece \<and> \<not> pos_have (m_piece_map s ! piece)
     \<and> \<not> pos_downloading (m_piece_map s ! piece) \<and> \<not> pos_filtered (m_piece_map s ! piece)"

fun expand_down :: "picker \<Rightarrow> bitfield \<Rightarrow> nat \<Rightarrow> nat \<Rightarrow> nat" where
  "expand_down s have lower_limit 0 = 0"
| "expand_down s have lower_limit (Suc start) =
     (if Suc start > lower_limit \<and> can_pick s have start then expand_down s have lower_limit start else Suc start)"

function expand_up :: "picker \<Rightarrow> bitfield \<Rightarrow> nat \<Rightarrow> nat \<Rightarrow> nat" where
  "expand_up s have upper_limit e =
     (if e < upper_limit \<and> can_pick s have e then expand_up s have upper_limit (e + 1) else e)"
  by pat_completeness auto
termination
  by (relation "measure (\<lambda>(s, have, u, e). u - e)") auto

declare expand_up.simps [simp del]

text \<open>Integer division of C++ rounds towards zero.\<close>

definition trunc_div :: "int \<Rightarrow> int \<Rightarrow> int" where
  "trunc_div a b = (if a < 0 then - ((- a) div b) else a div b)"

text \<open>\<open>None\<close> is the division by zero of \<open>piece % whole_pieces\<close>.\<close>

definition expand_piece :: "picker \<Rightarrow> nat \<Rightarrow> int \<Rightarrow> bitfield \<Rightarrow> picker_option set \<Rightarrow> (nat \<times> nat) option" where
  "expand_piece s piece contiguous_blocks have options =
     (if contiguous_blocks = 0 then Some (piece, piece + 1)
      else
        let blocks = int (blocks_per_piece s);
            whole_pieces = trunc_div (contiguous_blocks + blocks - 1) blocks;
            aligned = (align_expanded_pieces \<in> options)
        in if aligned \<and> whole_pieces = 0 then None
           else
             let lower_limit = (if aligned then int piece - int piece mod \<bar>whole_pieces\<bar>
                                else max 0 (int piece - whole_pieces + 1));
                 start = expand_down s have (nat lower_limit) piece;
                 upper_limit = min (if aligned then lower_limit + whole_pieces else int start + whole_pieces)
                                 (int (bf_size have))
             in Some (start, expand_up s have (nat upper_limit) (piece + 1)))"

section \<open>Blocks of partial pieces\<close>

text \<open>
  The loop of \<open>requested_from\<close>: exclusive, exclusive and active, the current run of free
  blocks, the longest one and where it starts.
\<close>

fun requested_scan ::
    "nat option \<Rightarrow> nat \<Rightarrow> block_info list \<Rightarrow> bool \<times> bool \<times> nat \<times> nat \<times> nat \<Rightarrow> bool \<times> bool \<times> nat \<times> nat \<times> nat" where
  "requested_scan peer idx [] acc = acc"
| "requested_scan peer idx (info # bs) (exclusive, exclusive_active, contiguous_blocks, max_contiguous, first_block) =
     (if bi_state info = state_none
      then requested_scan peer (idx + 1) bs (exclusive, exclusive_active, contiguous_blocks + 1, max_contiguous, first_block)
      else
        let (mx, fb) = (if contiguous_blocks > max_contiguous then (contiguous_blocks, idx - contiguous_blocks)
                        else (max_contiguous, first_block));
            other = (bi_peer info \<noteq> peer)
        in requested_scan peer (idx + 1) bs
             (exclusive \<and> \<not> other,
              exclusive_active \<and> \<not> (other \<and> bi_state info = state_requested \<and> bi_peer info \<noteq> None),
              0, mx, fb))"

definition requested_from ::
    "picker \<Rightarrow> downloading_piece \<Rightarrow> nat \<Rightarrow> nat option \<Rightarrow> bool \<times> bool \<times> nat \<times> nat" where
  "requested_from s p num_blocks_in_piece peer =
     (let (exclusive, exclusive_active, contiguous_blocks, max_contiguous, first_block) =
            requested_scan peer 0 (blocks_for_piece s p) (True, True, 0, 0, 0)
      in if contiguous_blocks > max_contiguous
         then (exclusive, exclusive_active, contiguous_blocks, num_blocks_in_piece - contiguous_blocks)
         else (exclusive, exclusive_active, max_contiguous, first_block))"

text \<open>The free blocks of a partial piece, in the order of the loop, until enough are picked.\<close>

fun pick_free :: "nat \<Rightarrow> block_info list \<Rightarrow> nat list \<Rightarrow> int \<Rightarrow> pick_acc \<Rightarrow> pick_acc" where
  "pick_free index binfo [] prefer a = a"
| "pick_free index binfo (block_idx # bs) prefer a =
     (if bi_state (binfo ! block_idx) \<noteq> state_none then pick_free index binfo bs prefer a
      else
        let a1 = add_pick (mk_block index block_idx) a
        in if prefer > 0 then pick_free index binfo bs (prefer - 1) a1
           else if pa_num a1 \<le> 0 then a1
           else pick_free index binfo bs prefer a1)"

definition add_blocks_downloading ::
    "picker \<Rightarrow> downloading_piece \<Rightarrow> bitfield \<Rightarrow> int \<Rightarrow> nat option \<Rightarrow> picker_option set \<Rightarrow> pick_acc \<Rightarrow> pick_acc" where
  "add_blocks_downloading s dp pieces prefer peer options a =
     (if \<not> get_bit pieces (dp_index dp) then a
      else if dp_locked dp then a
      else
        let num_blocks_in_piece = blocks_in_piece s (dp_index dp);
            (exclusive, exclusive_active, contiguous_blocks, first) = requested_from s dp num_blocks_in_piece peer;
            first_block = (if prefer = 0 then 0 else first);
            binfo = blocks_for_piece s dp;
            order = map (\<lambda>j. (j + first_block) mod num_blocks_in_piece) [0..<num_blocks_in_piece]
        in if on_parole \<in> options \<and> \<not> exclusive then a
           else if prefer > int contiguous_blocks \<and> \<not> exclusive_active \<and> on_parole \<notin> options then
             (if int (length (pa_backup2 a)) \<ge> pa_num a then a
              else a\<lparr>pa_backup2 := pa_backup2 a @
                       map (mk_block (dp_index dp)) (filter (\<lambda>k. bi_state (binfo ! k) = state_none) order)\<rparr>)
           else
             let a1 = pick_free (dp_index dp) binfo order prefer a
             in a1\<lparr>pa_num := max 0 (pa_num a1)\<rparr>)"

section \<open>Blocks of new pieces\<close>

definition pick_payload :: "picker \<Rightarrow> nat \<Rightarrow> int" where
  "pick_payload s piece = int (blocks_in_piece s piece) - int (pad_bytes_in_piece s piece div block_size s)"

fun add_run :: "nat \<Rightarrow> nat list \<Rightarrow> int \<Rightarrow> pick_acc \<Rightarrow> int \<times> pick_acc" where
  "add_run k [] prefer a = (prefer, a)"
| "add_run k (j # js) prefer a =
     (let a1 = add_pick (mk_block k j) a
      in if prefer - 1 = 0 \<and> pa_num a1 \<le> 0 then (prefer - 1, a1) else add_run k js (prefer - 1) a1)"

fun add_range :: "picker \<Rightarrow> nat list \<Rightarrow> int \<Rightarrow> pick_acc \<Rightarrow> pick_acc" where
  "add_range s [] prefer a = a"
| "add_range s (k # ks) prefer a =
     (if k \<in> set (pa_ignored a) then
        (if prefer - 1 = 0 \<and> pa_num a \<le> 0 then a else add_range s ks (prefer - 1) a)
      else
        let (prefer', a1) = add_run k [0..<nat (pick_payload s k)] prefer (a\<lparr>pa_ignored := pa_ignored a @ [k]\<rparr>)
        in add_range s ks prefer' a1)"

definition add_blocks ::
    "picker \<Rightarrow> nat \<Rightarrow> bitfield \<Rightarrow> int \<Rightarrow> nat option \<Rightarrow> picker_option set \<Rightarrow> pick_acc \<Rightarrow> pick_acc" where
  "add_blocks s piece pieces prefer peer options a =
     (let state = download_queue (m_piece_map s ! piece)
      in if piece \<in> set (pa_ignored a) then a
         else if state \<noteq> piece_open \<and> state \<noteq> piece_downloading then a
         else if state = piece_downloading then
           (if prioritize_partials \<in> options then a
            else add_blocks_downloading s (dl_at s (piece_downloading, find_dl_piece s piece_downloading piece))
                   pieces prefer peer options a)
         else if prefer = 0 then
           let payload_blocks = min (pick_payload s piece) (pa_num a)
           in a\<lparr>pa_interesting := pa_interesting a @ map (mk_block piece) [0..<nat payload_blocks],
                pa_num := max 0 (pa_num a - payload_blocks)\<rparr>
         else
           (case expand_piece s piece prefer pieces options of
              None \<Rightarrow> a\<lparr>pa_trap := True, pa_num := 0\<rparr>
            | Some (start, e) \<Rightarrow>
                let a1 = add_range s [start..<e] prefer a in a1\<lparr>pa_num := max 0 (pa_num a1)\<rparr>))"

section \<open>The phases\<close>

definition partial_compare_rarest_first :: "picker \<Rightarrow> downloading_piece \<Rightarrow> downloading_piece \<Rightarrow> bool" where
  "partial_compare_rarest_first s lhs rhs =
     (let lhs_availability = pp_peer_count (m_piece_map s ! dp_index lhs);
          rhs_availability = pp_peer_count (m_piece_map s ! dp_index rhs);
          lhs_blocks = dp_finished lhs + dp_writing lhs + dp_requested lhs;
          rhs_blocks = dp_finished rhs + dp_writing rhs + dp_requested rhs
      in if lhs_availability \<noteq> rhs_availability then lhs_availability < rhs_availability
         else lhs_blocks > rhs_blocks)"

text \<open>\<open>std::sort\<close>; the order of equivalent elements, unspecified there, is theirs in the input.\<close>

fun insert_by :: "('a \<Rightarrow> 'a \<Rightarrow> bool) \<Rightarrow> 'a \<Rightarrow> 'a list \<Rightarrow> 'a list" where
  "insert_by lt x [] = [x]"
| "insert_by lt x (y # ys) = (if lt y x then y # insert_by lt x ys else x # y # ys)"

definition sort_by :: "('a \<Rightarrow> 'a \<Rightarrow> bool) \<Rightarrow> 'a list \<Rightarrow> 'a list" where
  "sort_by lt xs = foldr (insert_by lt) xs []"

fun pick_partials ::
    "picker \<Rightarrow> bitfield \<Rightarrow> int \<Rightarrow> nat option \<Rightarrow> picker_option set \<Rightarrow> downloading_piece list \<Rightarrow> pick_acc \<Rightarrow> pick_acc" where
  "pick_partials s pieces prefer peer options [] a = a"
| "pick_partials s pieces prefer peer options (dp # dps) a =
     (let a1 = add_blocks_downloading s dp pieces prefer peer options (set_flag prioritize_partials_flag a)
      in if pa_num a1 \<le> 0 then a1
         else if int (length (pa_backup a1)) \<ge> pa_num a1 \<and> int (length (pa_backup2 a1)) \<ge> pa_num a1 then a1
         else pick_partials s pieces prefer peer options dps a1)"

definition partials_phase ::
    "picker \<Rightarrow> bitfield \<Rightarrow> int \<Rightarrow> nat option \<Rightarrow> picker_option set \<Rightarrow> pick_acc \<Rightarrow> pick_acc" where
  "partials_phase s pieces prefer peer options a =
     (let partials = filter (\<lambda>dp. is_piece_free s pieces (dp_index dp)) (m_downloads s piece_downloading);
          (ordered, a1) = (if rarest_first \<in> options
                           then (sort_by (partial_compare_rarest_first s) partials, set_flag rarest_first_partials a)
                           else (partials, a));
          a2 = pick_partials s pieces prefer peer options ordered a1
      in if pa_num a2 \<le> 0 then a2
         else
           let a3 = append_backup a2
           in if pa_num a3 \<le> 0 then a3 else append_backup2 a3)"

fun pick_suggested ::
    "picker \<Rightarrow> bitfield \<Rightarrow> int \<Rightarrow> nat option \<Rightarrow> picker_option set \<Rightarrow> nat list \<Rightarrow> pick_acc \<Rightarrow> pick_acc" where
  "pick_suggested s pieces prefer peer options [] a = a"
| "pick_suggested s pieces prefer peer options (i # is) a =
     (if \<not> is_piece_free s pieces i then pick_suggested s pieces prefer peer options is a
      else
        let a1 = add_blocks s i pieces prefer peer options (set_flag suggested_pieces_flag a);
            a2 = a1\<lparr>pa_ignored := pa_ignored a1 @ [i]\<rparr>
        in if pa_num a2 \<le> 0 then a2 else pick_suggested s pieces prefer peer options is a2)"

text \<open>The loop over a list of pieces that the sequential and rarest-first modes share.\<close>

fun pick_each ::
    "picker \<Rightarrow> bitfield \<Rightarrow> int \<Rightarrow> nat option \<Rightarrow> picker_option set \<Rightarrow> picker_flag \<Rightarrow> (nat \<Rightarrow> bool) \<Rightarrow> nat list \<Rightarrow> pick_acc \<Rightarrow> pick_acc" where
  "pick_each s pieces prefer peer options flag skip [] a = a"
| "pick_each s pieces prefer peer options flag skip (i # is) a =
     (if \<not> is_piece_free s pieces i \<or> skip i then pick_each s pieces prefer peer options flag skip is a
      else
        let a1 = add_blocks s i pieces prefer peer options (set_flag flag a)
        in if pa_num a1 \<le> 0 then a1 else pick_each s pieces prefer peer options flag skip is a1)"

definition sequential_phase ::
    "picker \<Rightarrow> bitfield \<Rightarrow> int \<Rightarrow> nat option \<Rightarrow> picker_option set \<Rightarrow> pick_acc \<Rightarrow> pick_acc" where
  "sequential_phase s pieces prefer peer options a =
     (let a1 = pick_each s pieces prefer peer options prio_sequential_pieces (\<lambda>_. False)
                 (takeWhile (\<lambda>i. piece_priority s i = top_priority) (m_pieces s)) a;
          top = (\<lambda>i. piece_priority s i = top_priority)
      in if pa_num a1 \<le> 0 then a1
         else if reverse \<in> options
         then pick_each s pieces prefer peer options reverse_sequential top (rev [m_cursor s..<m_reverse_cursor s]) a1
         else pick_each s pieces prefer peer options sequential_pieces top [m_cursor s..<m_reverse_cursor s] a1)"

text \<open>The pieces of one extent: whether the pick is complete, and whether we have all of them.\<close>

fun pick_extent ::
    "picker \<Rightarrow> bitfield \<Rightarrow> int \<Rightarrow> nat option \<Rightarrow> picker_option set \<Rightarrow> nat list \<Rightarrow> bool \<Rightarrow> pick_acc \<Rightarrow> bool \<times> bool \<times> pick_acc" where
  "pick_extent s pieces prefer peer options [] have_all a = (False, have_all, a)"
| "pick_extent s pieces prefer peer options (p # ps) have_all a =
     (let have_all' = (have_all \<and> pos_have (m_piece_map s ! p))
      in if \<not> is_piece_free s pieces p then pick_extent s pieces prefer peer options ps have_all' a
         else
           let a1 = add_blocks s p pieces prefer peer options (set_flag extent_affinity a)
           in if pa_num a1 \<le> 0 then (True, have_all', a1)
              else pick_extent s pieces prefer peer options ps have_all' a1)"

fun pick_extents ::
    "picker \<Rightarrow> bitfield \<Rightarrow> int \<Rightarrow> nat option \<Rightarrow> picker_option set \<Rightarrow> nat \<Rightarrow> nat option \<Rightarrow> nat list \<Rightarrow> pick_acc \<Rightarrow> nat option \<times> pick_acc" where
  "pick_extents s pieces prefer peer options idx to_erase [] a = (to_erase, a)"
| "pick_extents s pieces prefer peer options idx to_erase (e # es) a =
     (let (fin, have_all, a1) = pick_extent s pieces prefer peer options (extent_for s e) True a
      in if fin then (to_erase, a1)
         else pick_extents s pieces prefer peer options (idx + 1) (if have_all then Some idx else to_erase) es a1)"

definition rarest_phase ::
    "picker \<Rightarrow> bitfield \<Rightarrow> int \<Rightarrow> nat option \<Rightarrow> picker_option set \<Rightarrow> pick_acc \<Rightarrow> pick_acc \<times> picker" where
  "rarest_phase s pieces prefer peer options a =
     (if reverse \<in> options then
        let bnd = m_priority_boundaries s;
            order = concat (map (\<lambda>i. map ((!) (m_pieces s)) (rev [priority_begin bnd i..<priority_end bnd i]))
                      (rev [0..<length bnd]))
        in (pick_each s pieces prefer peer options reverse_rarest_first (\<lambda>_. False) order a, s)
      else
        let (to_erase, a1) = (if piece_extent_affinity \<in> options
                              then pick_extents s pieces prefer peer options 0 None (m_recent_extents s) a
                              else (None, a));
            s1 = (case to_erase of None \<Rightarrow> s
                  | Some k \<Rightarrow> s\<lparr>m_recent_extents := remove_at k (m_recent_extents s)\<rparr>)
        in if pa_num a1 \<le> 0 then (a1, s1)
           else (pick_each s1 pieces prefer peer options rarest_first_flag (\<lambda>_. False) (m_pieces s1) a1, s1))"

section \<open>Random order\<close>

text \<open>\<open>++piece; if (piece == end_index()) piece = 0\<close>.\<close>

definition next_piece :: "picker \<Rightarrow> nat \<Rightarrow> nat" where
  "next_piece s piece = (if piece + 1 = num_pieces s then 0 else piece + 1)"

text \<open>How far \<open>piece\<close> is from the piece the round started at.\<close>

definition to_start :: "nat \<Rightarrow> nat \<Rightarrow> nat \<Rightarrow> nat" where
  "to_start n start piece = (if piece < start then start - piece else start + n - piece)"

text \<open>
  The inner loop; \<open>None\<close> is the jump to \<open>get_out\<close>. Both indices are below the number of
  pieces in \<open>pick_pieces\<close>, so the first test only makes the function total.
\<close>

function skip_pieces :: "picker \<Rightarrow> bitfield \<Rightarrow> nat list \<Rightarrow> nat \<Rightarrow> nat \<Rightarrow> nat option" where
  "skip_pieces s pieces ignored start piece =
     (if num_pieces s \<le> piece \<or> num_pieces s \<le> start then None
      else if is_piece_free s pieces piece \<and> piece \<notin> set ignored then Some piece
      else if next_piece s piece = start then None
      else skip_pieces s pieces ignored start (next_piece s piece))"
  by pat_completeness auto
termination
  by (relation "measure (\<lambda>(s, pieces, ignored, start, piece). to_start (num_pieces s) start piece)")
     (auto simp: to_start_def next_piece_def split: if_splits)

declare skip_pieces.simps [simp del]

lemma skip_pieces_Some:
  "skip_pieces s pieces ignored start piece = Some p \<Longrightarrow>
   p < num_pieces s \<and> start < num_pieces s \<and> is_piece_free s pieces p \<and> p \<notin> set ignored
   \<and> to_start (num_pieces s) start p \<le> to_start (num_pieces s) start piece"
proof (induction s pieces ignored start piece rule: skip_pieces.induct)
  case (1 s pieces ignored start piece)
  show ?case
  proof (cases "num_pieces s \<le> piece \<or> num_pieces s \<le> start \<or> is_piece_free s pieces piece \<and> piece \<notin> set ignored \<or> next_piece s piece = start")
    case True
    then show ?thesis using "1.prems" by (subst (asm) skip_pieces.simps) (auto split: if_splits)
  next
    case False
    then have "skip_pieces s pieces ignored start (next_piece s piece) = Some p"
      using "1.prems" by (subst (asm) skip_pieces.simps) (auto split: if_splits)
    moreover have "to_start (num_pieces s) start (next_piece s piece) \<le> to_start (num_pieces s) start piece"
      using False by (auto simp: to_start_def next_piece_def)
    ultimately show ?thesis using "1.IH" False by force
  qed
qed

text \<open>The blocks of a piece, all of them, until both counts are used up.\<close>

fun random_run :: "nat \<Rightarrow> nat list \<Rightarrow> int \<Rightarrow> pick_acc \<Rightarrow> int \<times> pick_acc" where
  "random_run k [] prefer a = (prefer, a)"
| "random_run k (j # js) prefer a =
     (let a1 = add_pick (mk_block k j) a
      in if prefer - 1 \<le> 0 \<and> pa_num a1 \<le> 0 then (prefer - 1, a1) else random_run k js (prefer - 1) a1)"

fun random_range :: "picker \<Rightarrow> nat list \<Rightarrow> int \<Rightarrow> pick_acc \<Rightarrow> int \<times> pick_acc" where
  "random_range s [] prefer a = (prefer, a)"
| "random_range s (k # ks) prefer a =
     (if k \<in> set (pa_ignored a) then
        (if prefer - 1 = 0 \<and> pa_num a \<le> 0 then (prefer - 1, a) else random_range s ks (prefer - 1) a)
      else
        let (prefer', a1) = random_run k [0..<blocks_in_piece s k] prefer
              (set_flag random_pieces (a\<lparr>pa_ignored := pa_ignored a @ [k]\<rparr>))
        in random_range s ks prefer' a1)"

lemma ignored_add_pick [simp]: "pa_ignored (add_pick b a) = pa_ignored a"
  by (simp add: add_pick_def)

lemma ignored_set_flag [simp]: "pa_ignored (set_flag f a) = pa_ignored a"
  by (simp add: set_flag_def)

lemma ignored_random_run_snd: "pa_ignored (snd (random_run k js prefer a)) = pa_ignored a"
  by (induction k js "prefer" a rule: random_run.induct) (simp_all add: Let_def)

lemma ignored_random_run: "random_run k js prefer a = (p', a') \<Longrightarrow> pa_ignored a' = pa_ignored a"
  using ignored_random_run_snd [of k js "prefer" a] by simp

lemma ignored_random_range:
  "random_range s ks prefer a = (p', a') \<Longrightarrow>
   set (pa_ignored a) \<subseteq> set (pa_ignored a') \<and> (0 < pa_num a' \<longrightarrow> set ks \<subseteq> set (pa_ignored a'))"
proof (induction s ks "prefer" a arbitrary: p' a' rule: random_range.induct)
  case (2 s k ks pr a)
  show ?case
  proof (cases "k \<in> set (pa_ignored a)")
    case True
    then show ?thesis using 2 by (auto split: if_splits)
  next
    case False
    obtain p1 a1 where r: "random_run k [0..<blocks_in_piece s k] pr
        (set_flag random_pieces (a\<lparr>pa_ignored := pa_ignored a @ [k]\<rparr>)) = (p1, a1)" by fastforce
    have "pa_ignored a1 = pa_ignored a @ [k]" using ignored_random_run [OF r] by simp
    then show ?thesis using "2.IH"(2) [OF False r [symmetric] refl, of p' a'] "2.prems" False r by auto
  qed
qed simp

lemma ignored_pick_free: "pa_ignored (pick_free index binfo bs prefer a) = pa_ignored a"
  by (induction index binfo bs "prefer" a rule: pick_free.induct) (simp_all add: Let_def)

lemma ignored_add_blocks_downloading: "pa_ignored (add_blocks_downloading s dp pieces prefer peer options a) = pa_ignored a"
  by (auto simp: add_blocks_downloading_def Let_def ignored_pick_free split: prod.splits)

lemma ignored_add_run_snd: "pa_ignored (snd (add_run k js prefer a)) = pa_ignored a"
  by (induction k js "prefer" a rule: add_run.induct) (simp_all add: Let_def)

lemma ignored_add_run: "add_run k js prefer a = (p', a') \<Longrightarrow> pa_ignored a' = pa_ignored a"
  using ignored_add_run_snd [of k js "prefer" a] by simp

lemma ignored_add_range: "set (pa_ignored a) \<subseteq> set (pa_ignored (add_range s ks prefer a))"
proof (induction s ks "prefer" a rule: add_range.induct)
  case (2 s k ks pr a)
  show ?case
  proof (cases "k \<in> set (pa_ignored a)")
    case False
    obtain p1 a1 where r: "add_run k [0..<nat (pick_payload s k)] pr (a\<lparr>pa_ignored := pa_ignored a @ [k]\<rparr>) = (p1, a1)"
      by fastforce
    show ?thesis using "2.IH"(2) [OF False r [symmetric] refl] ignored_add_run [OF r] False r by auto
  qed (use 2 in auto)
qed simp

lemma ignored_add_blocks: "set (pa_ignored a) \<subseteq> set (pa_ignored (add_blocks s piece pieces prefer peer options a))"
  using ignored_add_range by (auto simp: add_blocks_def Let_def ignored_add_blocks_downloading split: option.splits prod.splits)

lemma expand_down_le: "expand_down s bits l p \<le> p"
  by (induction s bits l p rule: expand_down.induct) auto

lemma expand_up_ge: "e \<le> expand_up s bits u e"
proof (induction s bits u e rule: expand_up.induct)
  case (1 s bits u e)
  then show ?case by (subst expand_up.simps) auto
qed

lemma expand_piece_mem: "expand_piece s piece c bits options = Some (st, e) \<Longrightarrow> st \<le> piece \<and> piece < e"
  using expand_down_le [of s bits _ piece] expand_up_ge [of "piece + 1" s bits]
  by (auto simp: expand_piece_def Let_def Suc_le_eq split: if_splits)

function random_loop ::
    "picker \<Rightarrow> bitfield \<Rightarrow> nat option \<Rightarrow> picker_option set \<Rightarrow> nat \<Rightarrow> int \<Rightarrow> nat \<Rightarrow> pick_acc \<Rightarrow> pick_acc" where
  "random_loop s pieces peer options start prefer piece a =
     (if pa_num a \<le> 0 then a
      else
        case skip_pieces s pieces (pa_ignored a) start piece of
          None \<Rightarrow> a
        | Some p \<Rightarrow>
            if prefer > 1 \<and> \<not> pos_downloading (m_piece_map s ! p) then
              (case expand_piece s p prefer pieces options of
                 None \<Rightarrow> a\<lparr>pa_trap := True, pa_num := 0\<rparr>
               | Some (st, e) \<Rightarrow>
                   (case random_range s [st..<e] prefer a of
                      (prefer', a1) \<Rightarrow>
                        let piece' = (if e = num_pieces s then 0 else e)
                        in if piece' = start \<or> pa_num a1 \<le> 0 then a1
                           else random_loop s pieces peer options start prefer' piece' a1))
            else
              let a1 = add_blocks s p pieces prefer peer options (set_flag random_pieces a);
                  piece' = next_piece s p
              in if piece' = start then a1
                 else random_loop s pieces peer options start prefer piece' a1)"
  by pat_completeness auto
termination
proof (relation "measures [\<lambda>(s, pieces, peer, options, start, prefer, piece, a). card ({..<num_pieces s} - set (pa_ignored a)),
    \<lambda>(s, pieces, peer, options, start, prefer, piece, a). to_start (num_pieces s) start piece]", goal_cases)
  case (2 s pieces peer options start pr piece a p se st e pr' a1 piece')
  then have p: "p < num_pieces s" "p \<notin> set (pa_ignored a)" and r: "random_range s [st..<e] pr a = (pr', a1)"
    and m: "st \<le> p" "p < e" "0 < pa_num a1" using skip_pieces_Some expand_piece_mem by auto
  from ignored_random_range [OF r] m have i: "set (pa_ignored a) \<subseteq> set (pa_ignored a1)" "p \<in> set (pa_ignored a1)" by auto
  have "card ({..<num_pieces s} - set (pa_ignored a1)) < card ({..<num_pieces s} - set (pa_ignored a))"
    by (rule psubset_card_mono) (use i p in auto)
  then show ?case by simp
next
  case (3 s pieces peer options start pr piece a p a1 piece')
  note S = skip_pieces_Some [OF 3(2)]
  have le: "card ({..<num_pieces s} - set (pa_ignored a1)) \<le> card ({..<num_pieces s} - set (pa_ignored a))"
    using ignored_add_blocks [of "set_flag random_pieces a" s p pieces pr peer options] 3 by (intro card_mono) auto
  have "to_start (num_pieces s) start piece' < to_start (num_pieces s) start p"
    using S 3 by (auto simp: to_start_def next_piece_def split: if_splits)
  then show ?case using le S by (auto simp: le_less)
qed simp

declare random_loop.simps [simp del]

definition random_phase ::
    "picker \<Rightarrow> bitfield \<Rightarrow> int \<Rightarrow> nat option \<Rightarrow> picker_option set \<Rightarrow> pick_acc \<Rightarrow> pick_acc \<times> picker" where
  "random_phase s pieces prefer peer options a =
     (let (start_piece, s1) = random (num_pieces s - 1) s
      in (random_loop s1 pieces peer options start_piece prefer start_piece a, s1))"

section \<open>End game\<close>

definition busy_blocks :: "picker \<Rightarrow> nat option \<Rightarrow> downloading_piece \<Rightarrow> piece_block list" where
  "busy_blocks s peer dp =
     (let binfo = blocks_for_piece s dp
      in map (mk_block (dp_index dp))
           (filter (\<lambda>k. bi_state (binfo ! k) = state_requested \<and> bi_peer (binfo ! k) \<noteq> peer) [0..<length binfo]))"

text \<open>A piece whose blocks are all requested from this peer is replaced by the last one.\<close>

function end_game_loop :: "nat option \<Rightarrow> downloading_piece list \<Rightarrow> pick_acc \<Rightarrow> picker \<Rightarrow> pick_acc \<times> picker" where
  "end_game_loop peer partials a s =
     (if partials = [] then (a, s)
      else
        let (piece, s1) = random (length partials - 1) s;
            temp = busy_blocks s1 peer (partials ! piece)
        in if temp \<noteq> [] then
             let (r, s2) = random (length temp - 1) s1
             in (add_pick (temp ! r) (set_flag end_game a), s2)
           else end_game_loop peer (butlast (partials[piece := last partials])) a s1)"
  by pat_completeness auto
termination
  by (relation "measure (\<lambda>(peer, partials, a, s). length partials)") auto

declare end_game_loop.simps [simp del]

definition end_game_phase :: "picker \<Rightarrow> bitfield \<Rightarrow> nat option \<Rightarrow> pick_acc \<Rightarrow> pick_acc \<times> picker" where
  "end_game_phase s pieces peer a =
     (let partials_size = min 200 (length (m_downloads s piece_downloading) + length (m_downloads s piece_full))
      in if partials_size = 0 then (a, s)
         else end_game_loop peer
                (take partials_size (filter (\<lambda>dp. get_bit pieces (dp_index dp)) (m_downloads s piece_full))) a s)"

section \<open>pick\_pieces\<close>

definition too_many_partials :: "picker \<Rightarrow> nat \<Rightarrow> bool" where
  "too_many_partials s peers =
     (let num_partials = length (m_downloads s piece_downloading)
      in num_partials > peers * 3 div 2 \<or> num_partials * blocks_per_piece s > 2048)"

definition initial_picks :: "int \<Rightarrow> picker_flag set \<Rightarrow> pick_acc" where
  "initial_picks num_blocks ret =
     \<lparr>pa_interesting = [], pa_backup = [], pa_backup2 = [], pa_ignored = [], pa_num = num_blocks,
      pa_flags = ret, pa_trap = False\<rparr>"

text \<open>The main mode: sequential, rarest first or random.\<close>

definition pick_mode ::
    "picker \<Rightarrow> bitfield \<Rightarrow> int \<Rightarrow> nat option \<Rightarrow> picker_option set \<Rightarrow> pick_acc \<Rightarrow> pick_acc \<times> picker" where
  "pick_mode s pieces prefer peer options a =
     (if sequential \<in> options then
        let s1 = (if m_dirty s then update_pieces s else s)
        in (sequential_phase s1 pieces prefer peer options a, s1)
      else if rarest_first \<in> options then
        let s1 = (if m_dirty s then update_pieces s else s)
        in rarest_phase s1 pieces prefer peer options a
      else random_phase s pieces prefer peer options a)"

text \<open>After the main mode: the backups, then a block requested from someone else.\<close>

definition pick_rest :: "picker \<Rightarrow> bitfield \<Rightarrow> nat option \<Rightarrow> picker_option set \<Rightarrow> pick_acc \<Rightarrow> pick_acc \<times> picker" where
  "pick_rest s pieces peer options a =
     (if pa_num a \<le> 0 then (a, s)
      else
        let a1 = append_backup (set_flag backup1 a)
        in if pa_num a1 \<le> 0 then (a1, s)
           else
             let a2 = append_backup2 (set_flag backup2 a1)
             in if pa_num a2 \<le> 0 then (a2, s)
                else if on_parole \<in> options then (a2, s)
                else end_game_phase s pieces peer a2)"

definition pick_acc_of ::
    "bitfield \<Rightarrow> int \<Rightarrow> int \<Rightarrow> nat option \<Rightarrow> picker_option set \<Rightarrow> nat list \<Rightarrow> nat \<Rightarrow> picker \<Rightarrow> pick_acc \<times> picker" where
  "pick_acc_of pieces num_blocks prefer0 peer options0 suggested_pieces peers s =
     (let crowded = too_many_partials s peers;
          options = (if crowded then insert prioritize_partials options0 else options0);
          prefer = (if crowded then 0 else prefer0);
          ret = (if crowded then {partial_ratio} else {}) \<union> (if prefer \<noteq> 0 then {prefer_contiguous} else {});
          a1 = (if prioritize_partials \<in> options
                then partials_phase s pieces prefer peer options (initial_picks num_blocks ret)
                else initial_picks num_blocks ret)
      in if prioritize_partials \<in> options \<and> pa_num a1 \<le> 0 then (a1, s)
         else
           let a2 = pick_suggested s pieces prefer peer options suggested_pieces a1
           in if suggested_pieces \<noteq> [] \<and> pa_num a2 \<le> 0 then (a2, s)
              else
                let (a3, s1) = pick_mode s pieces prefer peer options a2
                in pick_rest s1 pieces peer options a3)"

text \<open>
  \<open>pick_pieces\<close>: the flags and the blocks, \<open>None\<close> after a division by zero. The method is
  \<open>const\<close>, but the pick list, the recent extents and the random engine it uses are mutable.
  As the assertion demands, \<open>num_blocks\<close> is positive.
\<close>

definition pick_pieces ::
    "bitfield \<Rightarrow> int \<Rightarrow> int \<Rightarrow> nat option \<Rightarrow> picker_option set \<Rightarrow> nat list \<Rightarrow> nat \<Rightarrow> picker
     \<Rightarrow> (picker_flag set \<times> piece_block list) option \<times> picker" where
  "pick_pieces pieces num_blocks prefer peer options suggested_pieces peers s =
     (let (a, s1) = pick_acc_of pieces num_blocks prefer peer options suggested_pieces peers s
      in (if pa_trap a then None else Some (pa_flags a, pa_interesting a), s1))"

end
