(* ===== verification/Picker_Select.thy ===== *)
theory Picker_Select
  imports Picker_Pick
begin

text \<open>
  What \<open>pick_pieces\<close> promises: in a picker that satisfies its invariant every block it returns is
  a block of a wanted, missing piece the peer has, neither downloaded nor requested, except
  at most one block of a full piece that was requested from another peer (end game); only the
  order of the pieces and the caches of the picker change; and no division by zero occurs unless
  \<open>align_expanded_pieces\<close> is set.
\<close>

section \<open>Blocks that may be picked\<close>

definition free_block :: "picker \<Rightarrow> bitfield \<Rightarrow> piece_block \<Rightarrow> bool" where
  "free_block s pieces b \<longleftrightarrow> valid_block s b \<and> is_piece_free s pieces (piece_index b)
     \<and> \<not> is_requested s b \<and> \<not> is_downloaded s b"

text \<open>What every list of the pick holds, and when the pick can have divided by zero.\<close>

definition picks_ok :: "bool \<Rightarrow> (piece_block \<Rightarrow> bool) \<Rightarrow> pick_acc \<Rightarrow> bool" where
  "picks_ok T P a \<longleftrightarrow> (\<forall>b \<in> set (pa_interesting a @ pa_backup a @ pa_backup2 a). P b) \<and> (pa_trap a \<longrightarrow> T)"

lemma picks_ok_simps [simp]:
  "picks_ok T P (set_flag f a) = picks_ok T P a" "picks_ok T P (a\<lparr>pa_num := n\<rparr>) = picks_ok T P a"
  "picks_ok T P (a\<lparr>pa_ignored := l\<rparr>) = picks_ok T P a" "T \<Longrightarrow> picks_ok T P (a\<lparr>pa_trap := t\<rparr>) = picks_ok T P a"
  "picks_ok T P (add_pick b a) \<longleftrightarrow> P b \<and> picks_ok T P a"
  "picks_ok T P (a\<lparr>pa_interesting := pa_interesting a @ bs\<rparr>) \<longleftrightarrow> (\<forall>b \<in> set bs. P b) \<and> picks_ok T P a"
  "picks_ok T P (a\<lparr>pa_backup2 := pa_backup2 a @ bs\<rparr>) \<longleftrightarrow> (\<forall>b \<in> set bs. P b) \<and> picks_ok T P a"
  by (auto simp: picks_ok_def set_flag_def add_pick_def)

lemma picks_ok_initial [simp]: "picks_ok T P (initial_picks n ret)"
  by (simp add: picks_ok_def initial_picks_def)

lemma picks_ok_backup:
  "picks_ok T P a \<Longrightarrow> picks_ok T P (append_backup a)" "picks_ok T P a \<Longrightarrow> picks_ok T P (append_backup2 a)"
  by (auto simp: picks_ok_def append_backup_def append_backup2_def Let_def dest!: in_set_takeD in_set_dropD)

lemma piece_free_simps [simp]:
  "piece_index (mk_block p b) = p" "block_index (mk_block p b) = b"
  by (simp_all add: mk_block_def)

lemma can_pick_iff: "can_pick s bits p \<longleftrightarrow> is_piece_free s bits p \<and> pp_state (m_piece_map s ! p) = piece_open"
  by (auto simp: can_pick_def is_piece_free_def pos_downloading_def)

lemma free_block_open:
  assumes "can_pick s pieces p" "p < num_pieces s" "k < blocks_in_piece s p"
  shows "free_block s pieces (mk_block p k)"
  using assms by (auto simp: free_block_def can_pick_iff valid_block_def block_queries
    is_piece_free_def download_queue_def pos_have_def)

lemma partial_found:
  assumes "picker_inv s" "q \<in> set download_categories" "dp \<in> set (m_downloads s q)"
  shows "dp_index dp < num_pieces s" "find_piece s (dp_index dp) = (q, find_dl_piece s q (dp_index dp))"
    "dl_at s (find_piece s (dp_index dp)) = dp" "download_queue (m_piece_map s ! dp_index dp) = q"
    "length (blocks_for_piece s dp) = blocks_in_piece s (dp_index dp)"
proof -
  have core: "dl_core (queue_of s) s" using picker_invD(2) [OF assms(1)] .
  then have Q: "queues_for (queue_of s) s" by (simp add: dl_core_def)
  have d: "dp \<in> set (get_download_queue s)" using assms(2,3) by (auto simp: get_download_queue_def)
  show lt: "dp_index dp < num_pieces s" by (rule partial_index_lt [OF Q d])
  have "dp_index dp \<in> set (filter (\<lambda>i. queue_of s i = q) [0..<num_pieces s])"
    using Q assms(2,3) by (metis imageI list.set_map queues_for_def)
  then have q: "queue_of s (dp_index dp) = q" by simp
  then show dq: "download_queue (m_piece_map s ! dp_index dp) = q" by (simp add: queue_of_def)
  then show f: "find_piece s (dp_index dp) = (q, find_dl_piece s q (dp_index dp))"
    by (simp add: find_piece_def)
  note F = find_dl_piece_ok [OF Q lt q assms(2)]
  have di: "distinct (map dp_index (m_downloads s q))"
    using Q assms(2) by (simp add: queues_for_def)
  obtain k where k: "k < length (m_downloads s q)" "dp = m_downloads s q ! k"
    using assms(3) by (auto simp: in_set_conv_nth)
  then have "k = find_dl_piece s q (dp_index dp)"
    using F(1,2) di by (metis distinct_conv_nth length_map nth_map)
  then show "dl_at s (find_piece s (dp_index dp)) = dp" using k f by (simp add: dl_at_def)
  have "dp_info_idx dp < slots s"
    using core d alloc_okD by (auto simp: dl_core_def)
  then show "length (blocks_for_piece s dp) = blocks_in_piece s (dp_index dp)"
    using length_blocks_for_piece core by (auto simp: dl_core_def)
qed

lemma free_block_partial:
  assumes "picker_inv s" "dp \<in> set (m_downloads s piece_downloading)" "is_piece_free s pieces (dp_index dp)"
    "k < blocks_in_piece s (dp_index dp)" "bi_state (blocks_for_piece s dp ! k) = state_none"
  shows "free_block s pieces (mk_block (dp_index dp) k)"
  using partial_found [OF assms(1) _ assms(2)] assms(3-5)
  by (simp add: in_categories free_block_def valid_block_def block_queries
    is_piece_free_def pos_have_def)

lemma pick_free_ok:
  assumes "picks_ok T P a" "\<And>k. k \<in> set ks \<Longrightarrow> bi_state (binfo ! k) = state_none \<Longrightarrow> P (mk_block ix k)"
  shows "picks_ok T P (pick_free ix binfo ks pf a)"
  using assms by (induction ix binfo ks pf a rule: pick_free.induct) (simp_all add: Let_def)

lemma add_blocks_downloading_ok:
  assumes "picker_inv s" "dp \<in> set (m_downloads s piece_downloading)" "is_piece_free s pieces (dp_index dp)"
    "picks_ok (align_expanded_pieces \<in> options) (free_block s pieces) a"
  shows "picks_ok (align_expanded_pieces \<in> options) (free_block s pieces) (add_blocks_downloading s dp pieces pf peer options a)"
proof -
  have "0 < blocks_in_piece s (dp_index dp)"
    using geom_okD(4) picker_invD(2) [OF assms(1)] by (simp add: dl_core_def)
  then show ?thesis
    using free_block_partial [OF assms(1-3)] assms(4)
    by (auto simp: add_blocks_downloading_def Let_def intro!: pick_free_ok split: prod.splits)
qed

section \<open>New pieces\<close>

lemma expand_down_can:
  "expand_down s bits l p \<le> k \<Longrightarrow> k < p \<Longrightarrow> can_pick s bits k"
proof (induction s bits l p rule: expand_down.induct)
  case (2 s bits l st)
  then show ?case by (cases "k = st") (auto split: if_splits)
qed simp

lemma expand_up_can:
  "e \<le> k \<Longrightarrow> k < expand_up s bits u e \<Longrightarrow> can_pick s bits k \<and> k < u"
proof (induction s bits u e rule: expand_up.induct)
  case (1 s bits u e)
  show ?case
  proof (cases "e < u \<and> can_pick s bits e")
    case True
    then have "expand_up s bits u e = expand_up s bits u (e + 1)" by (subst expand_up.simps) simp
    then show ?thesis using 1 True by (cases "k = e") auto
  next
    case False
    then have "expand_up s bits u e = e" by (subst expand_up.simps) auto
    then show ?thesis using 1 by simp
  qed
qed

lemma expand_piece_can:
  assumes "expand_piece s piece c bits options = Some (st, e)" "can_pick s bits piece" "st \<le> k" "k < e"
    "piece < bf_size bits"
  shows "can_pick s bits k \<and> k < bf_size bits"
proof (cases "k \<le> piece")
  case True
  then have "can_pick s bits k"
    using assms expand_down_can [of s bits _ piece k] by (cases "k = piece") (auto simp: expand_piece_def Let_def split: if_splits)
  then show ?thesis using True assms(5) by simp
next
  case False
  obtain u where u: "e = expand_up s bits (nat (min u (int (bf_size bits)))) (piece + 1) \<or> e = piece + 1"
    using assms(1) by (auto simp: expand_piece_def Let_def split: if_splits)
  then show ?thesis
    using False assms(4) expand_up_can [of "piece + 1" k s bits "nat (min u (int (bf_size bits)))"] by auto
qed

lemma expand_piece_None: "expand_piece s piece c bits options = None \<Longrightarrow> align_expanded_pieces \<in> options"
  by (auto simp: expand_piece_def Let_def split: if_splits)

lemma add_run_ok:
  "picks_ok T P a \<Longrightarrow> (\<And>j. j \<in> set js \<Longrightarrow> P (mk_block k j)) \<Longrightarrow> picks_ok T P (snd (add_run k js pf a))"
  by (induction k js pf a rule: add_run.induct) (simp_all add: Let_def)

lemma add_range_ok:
  assumes "picks_ok T P a" "\<And>k j. k \<in> set ks \<Longrightarrow> int j < pick_payload s k \<Longrightarrow> P (mk_block k j)"
  shows "picks_ok T P (add_range s ks pf a)"
  using assms
proof (induction s ks pf a rule: add_range.induct)
  case (2 s k ks pf a)
  show ?case
  proof (cases "k \<in> set (pa_ignored a)")
    case False
    obtain p1 a1 where r: "add_run k [0..<nat (pick_payload s k)] pf (a\<lparr>pa_ignored := pa_ignored a @ [k]\<rparr>) = (p1, a1)"
      by fastforce
    have "picks_ok T P a1"
      using add_run_ok [of T P "a\<lparr>pa_ignored := pa_ignored a @ [k]\<rparr>" "[0..<nat (pick_payload s k)]" k pf] r "2.prems" by simp
    then show ?thesis using "2.IH"(2) [OF False r [symmetric] refl] "2.prems"(2) False r by simp
  qed (use 2 in simp)
qed simp

lemma pick_payload_le: "int j < pick_payload s k \<Longrightarrow> j < blocks_in_piece s k"
  by (simp add: pick_payload_def)

lemma add_blocks_ok:
  assumes inv: "picker_inv s" and p: "is_piece_free s pieces piece" "piece < num_pieces s" "bf_size pieces = num_pieces s"
    and a: "picks_ok (align_expanded_pieces \<in> options) (free_block s pieces) a"
  shows "picks_ok (align_expanded_pieces \<in> options) (free_block s pieces) (add_blocks s piece pieces pf peer options a)"
proof -
  have part: "picks_ok (align_expanded_pieces \<in> options) (free_block s pieces) (add_blocks_downloading s
      (dl_at s (piece_downloading, find_dl_piece s piece_downloading piece)) pieces pf peer options a)"
    if "download_queue (m_piece_map s ! piece) = piece_downloading"
  proof -
    have "queues_for (queue_of s) s" using picker_invD(2) [OF inv] by (simp add: dl_core_def)
    note F = find_dl_piece_ok [OF this p(2), of piece_downloading]
    show ?thesis using F that p(1)
      by (intro add_blocks_downloading_ok [OF inv _ _ a]) (auto simp: queue_of_def in_categories dl_at_def)
  qed
  have new: "free_block s pieces (mk_block k j)"
    if "can_pick s pieces k" "k < num_pieces s" "int j < pick_payload s k" for k j
    using that free_block_open pick_payload_le by blast
  have c: "can_pick s pieces piece" if "download_queue (m_piece_map s ! piece) = piece_open"
    using that p(1) by (simp add: can_pick_iff download_queue_def)
  show ?thesis
  proof (cases "download_queue (m_piece_map s ! piece) = piece_open \<and> piece \<notin> set (pa_ignored a)")
    case True
    show ?thesis
    proof (cases "pf = 0 \<or> expand_piece s piece pf pieces options = None")
      case True
      then show ?thesis using \<open>_ \<and> _\<close> a new [OF c p(2)] expand_piece_None [of s piece pf pieces options]
        by (auto simp: add_blocks_def Let_def)
    next
      case False
      then obtain st e where e: "expand_piece s piece pf pieces options = Some (st, e)" by auto
      have "picks_ok (align_expanded_pieces \<in> options) (free_block s pieces) (add_range s [st..<e] pf a)"
        using a expand_piece_can [OF e c] True p(2,3) by (intro add_range_ok) (auto intro!: new)
      then show ?thesis using True False e by (simp add: add_blocks_def Let_def)
    qed
  next
    case False
    then show ?thesis using a part by (simp add: add_blocks_def Let_def)
  qed
qed

section \<open>The phases\<close>

lemma set_insert_by [simp]: "set (insert_by lt x xs) = insert x (set xs)"
  by (induction lt x xs rule: insert_by.induct) auto

lemma set_sort_by [simp]: "set (sort_by lt xs) = set xs"
  by (induction xs) (simp_all add: sort_by_def)

lemma pick_partials_ok:
  assumes "picker_inv s" "\<forall>dp \<in> set dps. dp \<in> set (m_downloads s piece_downloading) \<and> is_piece_free s pieces (dp_index dp)"
    "picks_ok (align_expanded_pieces \<in> options) (free_block s pieces) a"
  shows "picks_ok (align_expanded_pieces \<in> options) (free_block s pieces) (pick_partials s pieces pf peer options dps a)"
  using assms
  by (induction s pieces pf peer options dps a rule: pick_partials.induct)
    (simp_all add: Let_def add_blocks_downloading_ok)

lemma partials_phase_ok:
  assumes "picker_inv s" "picks_ok (align_expanded_pieces \<in> options) (free_block s pieces) a"
  shows "picks_ok (align_expanded_pieces \<in> options) (free_block s pieces) (partials_phase s pieces pf peer options a)"
  using assms by (simp add: partials_phase_def Let_def pick_partials_ok picks_ok_backup)

lemma pick_suggested_ok:
  assumes "picker_inv s" "bf_size pieces = num_pieces s" "\<forall>i \<in> set is. i < num_pieces s"
    "picks_ok (align_expanded_pieces \<in> options) (free_block s pieces) a"
  shows "picks_ok (align_expanded_pieces \<in> options) (free_block s pieces) (pick_suggested s pieces pf peer options is a)"
  using assms
  by (induction s pieces pf peer options "is" a rule: pick_suggested.induct) (simp_all add: Let_def add_blocks_ok)

lemma pick_each_ok:
  assumes "picker_inv s" "bf_size pieces = num_pieces s" "\<forall>i \<in> set is. i < num_pieces s"
    "picks_ok (align_expanded_pieces \<in> options) (free_block s pieces) a"
  shows "picks_ok (align_expanded_pieces \<in> options) (free_block s pieces) (pick_each s pieces pf peer options fl skp is a)"
  using assms
  by (induction s pieces pf peer options fl skp "is" a rule: pick_each.induct) (simp_all add: Let_def add_blocks_ok)

lemma pick_extent_ok:
  assumes "picker_inv s" "bf_size pieces = num_pieces s" "\<forall>i \<in> set is. i < num_pieces s"
    "picks_ok (align_expanded_pieces \<in> options) (free_block s pieces) a"
  shows "picks_ok (align_expanded_pieces \<in> options) (free_block s pieces) (snd (snd (pick_extent s pieces pf peer options is h a)))"
  using assms
  by (induction s pieces pf peer options "is" h a rule: pick_extent.induct) (simp_all add: Let_def add_blocks_ok)

lemma pick_extents_ok:
  assumes "picker_inv s" "bf_size pieces = num_pieces s"
    "picks_ok (align_expanded_pieces \<in> options) (free_block s pieces) a"
  shows "picks_ok (align_expanded_pieces \<in> options) (free_block s pieces) (snd (pick_extents s pieces pf peer options i te es a))"
  using assms
proof (induction s pieces pf peer options i te es a rule: pick_extents.induct)
  case (2 s pieces pf peer options i te e es a)
  obtain fin h a1 where r: "pick_extent s pieces pf peer options (extent_for s e) True a = (fin, h, a1)" by (metis prod_cases3)
  have "picks_ok (align_expanded_pieces \<in> options) (free_block s pieces) a1"
    using pick_extent_ok [OF "2.prems"(1,2) _ "2.prems"(3), of "extent_for s e" pf peer True] r
    by (simp add: extent_for_def Let_def)
  then show ?case using 2 r by simp
qed simp

lemma m_pieces_lt:
  assumes "order_inv s" "\<not> m_dirty s"
  shows "\<forall>i \<in> set (m_pieces s). i < num_pieces s"
    "\<And>k. k < length (m_priority_boundaries s) \<Longrightarrow> priority_end (m_priority_boundaries s) k \<le> length (m_pieces s)"
proof -
  obtain bs where rep: "buckets_rep (m_piece_map s) (m_pieces s) (m_priority_boundaries s) (priority_of s) bs"
    using assms by (auto simp: order_inv_iff pick_list_for_def)
  show "\<forall>i \<in> set (m_pieces s). i < num_pieces s" using buckets_rep_mem [OF rep] by (auto simp: num_pieces_def)
  show "priority_end (m_priority_boundaries s) k \<le> length (m_pieces s)" if k: "k < length (m_priority_boundaries s)" for k
  proof -
    obtain bs1 b bs2 where "bs = bs1 @ b # bs2" "priority_end (m_priority_boundaries s) k = length (concat bs1) + length b"
      using buckets_rep_split [OF rep k] by metis
    then show ?thesis using buckets_repD(2) [OF rep] by simp
  qed
qed

lemma sequential_phase_ok:
  assumes "full_inv s" "\<not> m_dirty s" "bf_size pieces = num_pieces s"
    "picks_ok (align_expanded_pieces \<in> options) (free_block s pieces) a"
  shows "picks_ok (align_expanded_pieces \<in> options) (free_block s pieces) (sequential_phase s pieces pf peer options a)"
proof -
  have "\<forall>i \<in> set (m_pieces s). i < num_pieces s"
    using m_pieces_lt(1) [OF picker_invD(1) [OF full_invD(1) [OF assms(1)]] assms(2)] .
  moreover have "m_reverse_cursor s \<le> num_pieces s"
    using full_invD(3) [OF assms(1)] retreat_cursor_spec by (simp add: cursor_ok_def)
  ultimately show ?thesis
    using full_invD(1) [OF assms(1)] assms(3,4)
    by (auto simp: sequential_phase_def Let_def intro!: pick_each_ok dest: set_takeWhileD)
qed

text \<open>What \<open>pick_pieces\<close> leaves alone: everything but the order of the pieces and its caches.\<close>

definition keeps_blocks :: "picker \<Rightarrow> picker \<Rightarrow> bool" where
  "keeps_blocks s s' \<longleftrightarrow> same_dl s s' \<and> same_want s s'
     \<and> (\<forall>j < num_pieces s. pp_state (m_piece_map s' ! j) = pp_state (m_piece_map s ! j))"

lemma keeps_blocksD:
  assumes "keeps_blocks s s'"
  shows "same_dl s s'" "same_want s s'" "num_pieces s' = num_pieces s"
    "\<And>j. j < num_pieces s \<Longrightarrow> pp_state (m_piece_map s' ! j) = pp_state (m_piece_map s ! j)"
    "\<And>j. j < num_pieces s \<Longrightarrow> pp_priority (m_piece_map s' ! j) = pp_priority (m_piece_map s ! j)"
    "\<And>j. j < num_pieces s \<Longrightarrow> pos_have (m_piece_map s' ! j) = pos_have (m_piece_map s ! j)"
  using assms same_dl_fields(1) by (auto simp: keeps_blocks_def same_want_def)

lemma keeps_blocks_refl [simp]: "keeps_blocks s s"
  by (simp add: keeps_blocks_def)

lemma keeps_blocks_trans [trans]: "keeps_blocks s s' \<Longrightarrow> keeps_blocks s' s'' \<Longrightarrow> keeps_blocks s s''"
  using same_dl_trans same_want_trans same_dl_fields(1) unfolding keeps_blocks_def by (metis (no_types, lifting))

lemma keeps_blocks_caches [simp]:
  "keeps_blocks s (s\<lparr>m_recent_extents := r\<rparr>)" "keeps_blocks s (s\<lparr>rng_draws := ds\<rparr>)" "keeps_blocks s (s\<lparr>m_dirty := b\<rparr>)"
  by (simp_all add: keeps_blocks_def same_dl_def same_want_def num_pieces_def)

lemma keeps_blocks_reorders: "reorders s s' \<Longrightarrow> keeps_blocks s s'"
  by (simp add: keeps_blocks_def reorders_same_dl reorders_want reorders_pos)

lemma keeps_blocks_query:
  assumes "keeps_blocks s s'"
  shows "valid_block s' b = valid_block s b"
    "piece_index b < num_pieces s \<Longrightarrow> is_piece_free s' pieces (piece_index b) = is_piece_free s pieces (piece_index b)"
    "piece_index b < num_pieces s \<Longrightarrow> block_of s' b = block_of s b"
    "piece_index b < num_pieces s \<Longrightarrow> is_requested s' b = is_requested s b"
    "piece_index b < num_pieces s \<Longrightarrow> is_downloaded s' b = is_downloaded s b"
    "piece_index b < num_pieces s \<Longrightarrow> get_downloader s' b = get_downloader s b"
proof -
  note S = keeps_blocksD [OF assms] and D = same_dl_fields [OF keeps_blocksD(1) [OF assms]]
  show "valid_block s' b = valid_block s b" using D by (simp add: valid_block_def)
  assume i: "piece_index b < num_pieces s"
  have q: "download_queue (m_piece_map s' ! piece_index b) = download_queue (m_piece_map s ! piece_index b)"
    using S(4) [OF i] by (simp add: download_queue_def)
  have h: "pp_index (m_piece_map s' ! piece_index b) = None \<longleftrightarrow> pp_index (m_piece_map s ! piece_index b) = None"
    using S(6) [OF i] by (simp add: pos_have_def)
  show "is_piece_free s' pieces (piece_index b) = is_piece_free s pieces (piece_index b)"
    using S i by (simp add: is_piece_free_def pos_filtered_def)
  show bo: "block_of s' b = block_of s b"
    using D q by (simp add: block_of_def blocks_for_piece_def find_piece_def find_dl_piece_def)
  show "is_requested s' b = is_requested s b" "is_downloaded s' b = is_downloaded s b"
    "get_downloader s' b = get_downloader s b"
    using q h bo by (simp_all add: block_queries)
qed

lemma keeps_blocks_free:
  assumes "keeps_blocks s s'"
  shows "free_block s' pieces = free_block s pieces"
  using keeps_blocks_query [OF assms] by (auto simp: fun_eq_iff free_block_def valid_block_def)

lemma keeps_blocks_full: "keeps_blocks s s' \<Longrightarrow> order_inv s' \<Longrightarrow> full_inv s \<Longrightarrow> full_inv s'"
  using dl_ok_cong [OF keeps_blocksD(1,4)] same_want_full [OF keeps_blocksD(2)]
  by (auto simp: picker_inv_def full_inv_def)

lemma caches_full [simp]:
  assumes "full_inv s"
  shows "full_inv (s\<lparr>m_recent_extents := r\<rparr>)" "full_inv (s\<lparr>rng_draws := ds\<rparr>)"
proof -
  have o: "order_inv s" using picker_invD(1) [OF full_invD(1) [OF assms]] .
  then have "order_inv (s\<lparr>rng_draws := ds\<rparr>)"
    by (simp add: order_inv_iff picker_ok_def pick_list_for_def num_pieces_def priority_of_def [abs_def])
  then show "full_inv (s\<lparr>m_recent_extents := r\<rparr>)" "full_inv (s\<lparr>rng_draws := ds\<rparr>)"
    using o keeps_blocks_full [OF _ _ assms] by simp_all
qed

lemma rarest_phase_ok:
  assumes fi: "full_inv s" and d: "\<not> m_dirty s" and sz: "bf_size pieces = num_pieces s"
    and a: "picks_ok (align_expanded_pieces \<in> options) (free_block s pieces) a"
    and r: "rarest_phase s pieces pf peer options a = (a', s')"
  shows "picks_ok (align_expanded_pieces \<in> options) (free_block s pieces) a' \<and> (\<exists>r. s' = s\<lparr>m_recent_extents := r\<rparr>)"
proof -
  have inv: "picker_inv s" using full_invD(1) [OF fi] .
  show ?thesis
  proof (cases "reverse \<in> options")
  case True
  have "\<forall>i \<in> set (concat (map (\<lambda>i. map ((!) (m_pieces s))
      (rev [priority_begin (m_priority_boundaries s) i..<priority_end (m_priority_boundaries s) i]))
      (rev [0..<length (m_priority_boundaries s)]))). i < num_pieces s"
    using m_pieces_lt [OF picker_invD(1) [OF inv] d] by (fastforce simp: less_le_trans)
  then show ?thesis
    using True r pick_each_ok [OF inv sz _ a] by (auto simp: rarest_phase_def Let_def intro: exI [of _ "m_recent_extents s"])
next
  case False
  obtain te a1 where te: "(if piece_extent_affinity \<in> options
      then pick_extents s pieces pf peer options 0 None (m_recent_extents s) a else (None, a)) = (te, a1)" by fastforce
  define s1 where "s1 = (case te of None \<Rightarrow> s | Some k \<Rightarrow> s\<lparr>m_recent_extents := remove_at k (m_recent_extents s)\<rparr>)"
  obtain rc where s1: "s1 = s\<lparr>m_recent_extents := rc\<rparr>"
    by (cases te) (auto simp: s1_def intro: that [of "m_recent_extents s"])
  have a1: "picks_ok (align_expanded_pieces \<in> options) (free_block s pieces) a1"
    using te a pick_extents_ok [OF inv sz a, of pf peer 0 None "m_recent_extents s"] by (auto split: if_splits)
  have res: "rarest_phase s pieces pf peer options a = (if pa_num a1 \<le> 0 then (a1, s1)
      else (pick_each s1 pieces pf peer options rarest_first_flag (\<lambda>_. False) (m_pieces s1) a1, s1))"
    unfolding rarest_phase_def Let_def te s1_def using False by simp
  have inv1: "picker_inv s1"
    using full_invD(1) [of s1] fi by (simp add: s1)
  have "picks_ok (align_expanded_pieces \<in> options) (free_block s1 pieces)
      (pick_each s1 pieces pf peer options rarest_first_flag (\<lambda>_. False) (m_pieces s1) a1)"
    using a1 sz m_pieces_lt(1) [OF picker_invD(1) [OF inv] d]
    by (intro pick_each_ok [OF inv1]) (simp_all add: s1 num_pieces_def keeps_blocks_free [OF keeps_blocks_caches(1)])
  then have "picks_ok (align_expanded_pieces \<in> options) (free_block s pieces)
      (pick_each s1 pieces pf peer options rarest_first_flag (\<lambda>_. False) (m_pieces s1) a1)"
    using keeps_blocks_free [of s s1 pieces] by (simp add: s1)
  then show ?thesis using res r a1 s1 by (auto split: if_splits)
qed
qed

section \<open>Random order\<close>

lemma random_run_ok:
  "picks_ok T P a \<Longrightarrow> (\<And>j. j \<in> set js \<Longrightarrow> P (mk_block k j)) \<Longrightarrow> picks_ok T P (snd (random_run k js pf a))"
  by (induction k js pf a rule: random_run.induct) (simp_all add: Let_def)

lemma random_range_ok:
  assumes "picks_ok T P a" "\<And>k j. k \<in> set ks \<Longrightarrow> j < blocks_in_piece s k \<Longrightarrow> P (mk_block k j)"
  shows "picks_ok T P (snd (random_range s ks pf a))"
  using assms
proof (induction s ks pf a rule: random_range.induct)
  case (2 s k ks pf a)
  show ?case
  proof (cases "k \<in> set (pa_ignored a)")
    case False
    obtain p1 a1 where r: "random_run k [0..<blocks_in_piece s k] pf
        (set_flag random_pieces (a\<lparr>pa_ignored := pa_ignored a @ [k]\<rparr>)) = (p1, a1)" by fastforce
    have "picks_ok T P a1"
      using random_run_ok [of T P "set_flag random_pieces (a\<lparr>pa_ignored := pa_ignored a @ [k]\<rparr>)"
          "[0..<blocks_in_piece s k]" k pf] r "2.prems" by simp
    then show ?thesis using "2.IH"(2) [OF False r [symmetric] refl] "2.prems"(2) False r by simp
  qed (use 2 in simp)
qed simp

lemma random_loop_ok:
  assumes "picker_inv s" "bf_size pieces = num_pieces s" "picks_ok (align_expanded_pieces \<in> options) (free_block s pieces) a"
  shows "picks_ok (align_expanded_pieces \<in> options) (free_block s pieces) (random_loop s pieces peer options start pf piece a)"
  using assms
proof (induction s pieces peer options start pf piece a rule: random_loop.induct)
  case (1 s pieces peer options start pf piece a)
  let ?ok = "picks_ok (align_expanded_pieces \<in> options) (free_block s pieces)"
  note un = random_loop.simps [of s pieces peer options start pf piece a]
  show ?case
  proof (cases "pa_num a \<le> 0 \<or> skip_pieces s pieces (pa_ignored a) start piece = None")
    case True
    then show ?thesis unfolding un using "1.prems"(3) by auto
  next
    case False
    then obtain p where n: "\<not> pa_num a \<le> 0" and p: "skip_pieces s pieces (pa_ignored a) start piece = Some p" by auto
    note S = skip_pieces_Some [OF p]
    show ?thesis
    proof (cases "1 < pf \<and> \<not> pos_downloading (m_piece_map s ! p)")
      case True
      then have c: "can_pick s pieces p" using S by (simp add: can_pick_iff pos_downloading_def)
      show ?thesis
      proof (cases "expand_piece s p pf pieces options")
        case None
        then show ?thesis unfolding un using "1.prems"(3) n p True expand_piece_None [OF None] by simp
      next
        case (Some se)
        obtain st e where se: "se = (st, e)" by fastforce
        obtain pf' a1 where r: "random_range s [st..<e] pf a = (pf', a1)" by fastforce
        have "?ok (snd (random_range s [st..<e] pf a))"
          using "1.prems" S expand_piece_can [OF Some [unfolded se] c]
          by (intro random_range_ok) (auto intro!: free_block_open)
        then have "?ok a1" using r by simp
        moreover have "random_loop s pieces peer options start pf piece a =
            (if (if e = num_pieces s then 0 else e) = start \<or> pa_num a1 \<le> 0 then a1
             else random_loop s pieces peer options start pf' (if e = num_pieces s then 0 else e) a1)"
          unfolding un Let_def using n p True Some se r by simp
        ultimately show ?thesis
          using "1.IH"(1) [OF n p True Some se [symmetric] r [symmetric] refl] "1.prems" by simp
      qed
    next
      case dl: False
      define a1 where "a1 = add_blocks s p pieces pf peer options (set_flag random_pieces a)"
      have "?ok a1" using "1.prems" S by (auto simp: a1_def intro!: add_blocks_ok)
      moreover have "random_loop s pieces peer options start pf piece a =
          (if next_piece s p = start then a1 else random_loop s pieces peer options start pf (next_piece s p) a1)"
        unfolding un Let_def a1_def p option.case if_not_P [OF n] if_not_P [OF dl] ..
      ultimately show ?thesis
        using "1.IH"(2) [OF n p dl a1_def refl] "1.prems" by simp
    qed
  qed
qed

section \<open>End game\<close>

text \<open>A block of a full piece that another peer has been asked for.\<close>

definition busy_block :: "picker \<Rightarrow> bitfield \<Rightarrow> nat option \<Rightarrow> piece_block \<Rightarrow> bool" where
  "busy_block s pieces peer b \<longleftrightarrow> valid_block s b \<and> get_bit pieces (piece_index b)
     \<and> download_queue (m_piece_map s ! piece_index b) = piece_full
     \<and> is_requested s b \<and> get_downloader s b \<noteq> peer"

lemma busy_blocks_ok:
  assumes "picker_inv s" "dp \<in> set (m_downloads s piece_full)" "get_bit pieces (dp_index dp)" "b \<in> set (busy_blocks s peer dp)"
  shows "busy_block s pieces peer b"
  using partial_found [OF assms(1) _ assms(2)] assms(3,4)
  by (auto simp: in_categories busy_blocks_def Let_def busy_block_def valid_block_def block_queries)

lemma keeps_blocks_busy:
  assumes "keeps_blocks s s'"
  shows "busy_block s' pieces peer = busy_block s pieces peer"
  using keeps_blocks_query [OF assms] keeps_blocksD(4) [OF assms]
  by (auto simp: fun_eq_iff busy_block_def valid_block_def download_queue_def)

text \<open>At most one block is added, and it is busy.\<close>

definition adds_one :: "(piece_block \<Rightarrow> bool) \<Rightarrow> pick_acc \<Rightarrow> pick_acc \<Rightarrow> bool" where
  "adds_one P a a' \<longleftrightarrow> a' = a \<or> (\<exists>b. P b \<and> a' = add_pick b (set_flag end_game a))"

lemma set_butlast_update: "set (butlast (xs[i := last xs])) \<subseteq> set xs"
proof (cases "xs = []")
  case False
  then have "set (xs[i := last xs]) \<subseteq> set xs" using set_update_subset_insert [of xs i "last xs"] by auto
  then show ?thesis by (meson in_set_butlastD subset_iff)
qed simp

lemma end_game_loop_ok:
  assumes "full_inv s" "\<forall>dp \<in> set ps. dp \<in> set (m_downloads s piece_full) \<and> get_bit pieces (dp_index dp)"
    "end_game_loop peer ps a s = (a', s')"
  shows "adds_one (busy_block s pieces peer) a a' \<and> (\<exists>ds. s' = s\<lparr>rng_draws := ds\<rparr>)"
  using assms
proof (induction peer ps a s rule: end_game_loop.induct)
  case (1 peer ps a s)
  show ?case
  proof (cases "ps = []")
    case True
    then show ?thesis using "1.prems"(3)
      by (subst (asm) end_game_loop.simps) (auto simp: adds_one_def intro: exI [of _ "rng_draws s"])
  next
    case False
    obtain i s1 where i: "random (length ps - 1) s = (i, s1)" by fastforce
    then have il: "i < length ps" using random_le [OF i] False by (cases ps) auto
    obtain ds where s1: "s1 = s\<lparr>rng_draws := ds\<rparr>" using i by (rule random_frame)
    define temp where "temp = busy_blocks s1 peer (ps ! i)"
    have un: "end_game_loop peer ps a s = (if temp \<noteq> [] then let (r, s2) = random (length temp - 1) s1
             in (add_pick (temp ! r) (set_flag end_game a), s2)
           else end_game_loop peer (butlast (ps[i := last ps])) a s1)"
      unfolding end_game_loop.simps [of peer ps a s] if_not_P [OF False] i temp_def by (simp add: Let_def)
    have B: "busy_block s1 pieces peer = busy_block s pieces peer"
      by (rule keeps_blocks_busy) (simp add: s1)
    have f1: "full_inv s1" using "1.prems"(1) by (simp add: s1)
    have dp: "\<forall>dp \<in> set ps. dp \<in> set (m_downloads s1 piece_full) \<and> get_bit pieces (dp_index dp)"
      using "1.prems"(2) by (simp add: s1)
    show ?thesis
    proof (cases "temp = []")
      case True
      have "adds_one (busy_block s1 pieces peer) a a' \<and> (\<exists>ds. s' = s1\<lparr>rng_draws := ds\<rparr>)"
        using "1.IH" [OF False i [symmetric] refl temp_def] True f1 dp set_butlast_update [of ps i] "1.prems"(3) un by auto
      then show ?thesis using B s1 by auto
    next
      case False
      obtain r s2 where r: "random (length temp - 1) s1 = (r, s2)" by fastforce
      have "r < length temp" using random_le [OF r] False by (cases temp) auto
      then have "busy_block s1 pieces peer (temp ! r)"
        using busy_blocks_ok [OF full_invD(1) [OF f1], of "ps ! i" pieces _ peer] dp il by (simp add: temp_def)
      moreover obtain ds' where "s2 = s1\<lparr>rng_draws := ds'\<rparr>" using r by (rule random_frame)
      moreover have "a' = add_pick (temp ! r) (set_flag end_game a)" "s' = s2" using un False r "1.prems"(3) by auto
      ultimately show ?thesis using B s1 by (auto simp: adds_one_def)
    qed
  qed
qed

lemma end_game_phase_ok:
  assumes "full_inv s" "end_game_phase s pieces peer a = (a', s')"
  shows "adds_one (busy_block s pieces peer) a a' \<and> (\<exists>ds. s' = s\<lparr>rng_draws := ds\<rparr>)"
proof (cases "min 200 (length (m_downloads s piece_downloading) + length (m_downloads s piece_full)) = 0")
  case True
  then show ?thesis using assms(2) by (auto simp: end_game_phase_def adds_one_def intro: exI [of _ "rng_draws s"])
next
  case False
  have "end_game_loop peer (take (min 200 (length (m_downloads s piece_downloading) + length (m_downloads s piece_full)))
      (filter (\<lambda>dp. get_bit pieces (dp_index dp)) (m_downloads s piece_full))) a s = (a', s')"
    using assms(2) unfolding end_game_phase_def Let_def if_not_P [OF False] .
  from end_game_loop_ok [OF assms(1) _ this, of pieces] show ?thesis by (fastforce dest: in_set_takeD)
qed

section \<open>pick\_pieces\<close>

lemma pick_mode_ok:
  assumes inv: "full_inv s" and sz: "bf_size pieces = num_pieces s"
    and a: "picks_ok (align_expanded_pieces \<in> options) (free_block s pieces) a"
    and r: "pick_mode s pieces pf peer options a = (a', s')"
  shows "full_inv s' \<and> keeps_blocks s s' \<and> picks_ok (align_expanded_pieces \<in> options) (free_block s pieces) a'"
proof -
  define s1 where "s1 = (if m_dirty s then update_pieces s else s)"
  have s1: "full_inv s1" "\<not> m_dirty s1"
    using inv update_pieces_full [OF inv] by (simp_all add: s1_def)
  have sb: "keeps_blocks s s1"
    using keeps_blocks_trans [OF keeps_blocks_caches(3) keeps_blocks_reorders [OF update_pieces_full(3) [OF inv]]]
    by (simp add: s1_def)
  have sz1: "bf_size pieces = num_pieces s1" using sz keeps_blocksD(3) [OF sb] by simp
  have F: "free_block s1 pieces = free_block s pieces" by (rule keeps_blocks_free [OF sb])
  consider "sequential \<in> options" | "sequential \<notin> options" "rarest_first \<in> options"
    | "sequential \<notin> options" "rarest_first \<notin> options" by blast
  then show ?thesis
  proof cases
    case 1
    then have "pick_mode s pieces pf peer options a = (sequential_phase s1 pieces pf peer options a, s1)"
      unfolding pick_mode_def Let_def s1_def [symmetric] by simp
    then have "a' = sequential_phase s1 pieces pf peer options a" "s' = s1" using r by simp_all
    then show ?thesis using s1 sb sequential_phase_ok [OF s1 sz1, of options a pf peer] a F by simp
  next
    case 2
    then have "rarest_phase s1 pieces pf peer options a = (a', s')" using r by (simp add: pick_mode_def s1_def Let_def)
    from rarest_phase_ok [OF s1 sz1 _ this] a F obtain rc where
      "picks_ok (align_expanded_pieces \<in> options) (free_block s pieces) a'" "s' = s1\<lparr>m_recent_extents := rc\<rparr>" by auto
    then show ?thesis using s1 keeps_blocks_trans [OF sb keeps_blocks_caches(1)] by simp
  next
    case 3
    obtain st s2 where st: "random (num_pieces s - 1) s = (st, s2)" by fastforce
    then obtain ds where s2: "s2 = s\<lparr>rng_draws := ds\<rparr>" by (rule random_frame)
    have f2: "full_inv s2" and b2: "keeps_blocks s s2" using inv by (simp_all add: s2)
    have "a' = random_loop s2 pieces peer options st pf st a" "s' = s2"
      using 3 r st by (auto simp: pick_mode_def random_phase_def)
    then show ?thesis
      using random_loop_ok [OF full_invD(1) [OF f2], of pieces options a peer st pf st] keeps_blocks_free [OF b2] a sz f2 b2
        keeps_blocksD(3) [OF b2] by simp
  qed
qed

text \<open>The blocks of a pick: free ones, then at most one that is busy.\<close>

definition good_picks :: "picker \<Rightarrow> bitfield \<Rightarrow> nat option \<Rightarrow> picker_option set \<Rightarrow> pick_acc \<Rightarrow> bool" where
  "good_picks s pieces peer options a \<longleftrightarrow>
     (\<forall>b \<in> set (pa_interesting a). free_block s pieces b)
     \<or> on_parole \<notin> options \<and> end_game \<in> pa_flags a \<and> (\<exists>bs b. pa_interesting a = bs @ [b]
          \<and> (\<forall>b \<in> set bs. free_block s pieces b) \<and> busy_block s pieces peer b)"

lemma picks_ok_good: "picks_ok T (free_block s pieces) a \<Longrightarrow> good_picks s pieces peer options a \<and> (pa_trap a \<longrightarrow> T)"
  by (simp add: picks_ok_def good_picks_def)

lemma adds_one_good:
  assumes "adds_one (busy_block s pieces peer) a a'" "picks_ok T (free_block s pieces) a" "on_parole \<notin> options"
  shows "good_picks s pieces peer options a' \<and> (pa_trap a' \<longrightarrow> T)"
  using assms by (auto simp: adds_one_def good_picks_def picks_ok_def add_pick_def set_flag_def)

lemma pick_rest_ok:
  assumes "full_inv s" "picks_ok T (free_block s pieces) a" "pick_rest s pieces peer options a = (a', s')"
  shows "full_inv s' \<and> keeps_blocks s s' \<and> good_picks s pieces peer options a' \<and> (pa_trap a' \<longrightarrow> T)"
proof -
  define a1 where "a1 = append_backup (set_flag backup1 a)"
  define a2 where "a2 = append_backup2 (set_flag backup2 a1)"
  have a1: "picks_ok T (free_block s pieces) a1" using assms(2) by (simp add: a1_def picks_ok_backup)
  then have a2: "picks_ok T (free_block s pieces) a2" by (simp add: a2_def picks_ok_backup)
  have res: "(a', s') = (if pa_num a \<le> 0 then (a, s) else if pa_num a1 \<le> 0 then (a1, s)
      else if pa_num a2 \<le> 0 then (a2, s) else if on_parole \<in> options then (a2, s) else end_game_phase s pieces peer a2)"
    using assms(3) unfolding pick_rest_def Let_def a1_def [symmetric] a2_def [symmetric] by simp
  consider "(a', s') = (a, s)" | "(a', s') = (a1, s)" | "(a', s') = (a2, s)"
    | "on_parole \<notin> options" "end_game_phase s pieces peer a2 = (a', s')"
    using res by (auto split: if_splits)
  moreover note G = picks_ok_good [OF assms(2), of peer options] picks_ok_good [OF a1, of peer options]
    picks_ok_good [OF a2, of peer options]
  ultimately show ?thesis
  proof cases
    case 4
    from end_game_phase_ok [OF assms(1) 4(2)] obtain ds where
      "adds_one (busy_block s pieces peer) a2 a'" "s' = s\<lparr>rng_draws := ds\<rparr>" by blast
    then show ?thesis using adds_one_good [OF _ a2 4(1)] assms(1) by simp
  qed (use assms(1) G in auto)
qed

lemma pick_acc_of_unfold:
  assumes opt: "opt = (if too_many_partials s peers then insert prioritize_partials options else options)"
    and pf: "pf = (if too_many_partials s peers then 0 else prefer0)"
    and ret: "ret = (if too_many_partials s peers then {partial_ratio} else {}) \<union> (if pf \<noteq> 0 then {prefer_contiguous} else {})"
    and a1: "a1 = (if prioritize_partials \<in> opt then partials_phase s pieces pf peer opt (initial_picks n ret) else initial_picks n ret)"
    and a2: "a2 = pick_suggested s pieces pf peer opt suggested a1"
    and m: "pick_mode s pieces pf peer opt a2 = (a3, s1)"
  shows "pick_acc_of pieces n prefer0 peer options suggested peers s =
      (if prioritize_partials \<in> opt \<and> pa_num a1 \<le> 0 then (a1, s)
       else if suggested \<noteq> [] \<and> pa_num a2 \<le> 0 then (a2, s) else pick_rest s1 pieces peer opt a3)"
  unfolding pick_acc_of_def Let_def opt [symmetric] pf [symmetric] ret [symmetric] a1 [symmetric] a2 [symmetric] m by simp

lemma pick_acc_of_ok:
  assumes inv: "full_inv s" and sz: "bf_size pieces = num_pieces s" and sg: "\<forall>i \<in> set suggested. i < num_pieces s"
    and r: "pick_acc_of pieces n prefer0 peer options suggested peers s = (a, s')"
  shows "full_inv s' \<and> keeps_blocks s s' \<and> good_picks s pieces peer options a
    \<and> (pa_trap a \<longrightarrow> align_expanded_pieces \<in> options)"
proof -
  define opt where "opt = (if too_many_partials s peers then insert prioritize_partials options else options)"
  define pf where "pf = (if too_many_partials s peers then 0 else prefer0)"
  define ret where "ret = (if too_many_partials s peers then {partial_ratio} else {}) \<union> (if pf \<noteq> 0 then {prefer_contiguous} else {})"
  define a1 where "a1 = (if prioritize_partials \<in> opt then partials_phase s pieces pf peer opt (initial_picks n ret)
    else initial_picks n ret)"
  define a2 where "a2 = pick_suggested s pieces pf peer opt suggested a1"
  have o: "align_expanded_pieces \<in> opt \<longleftrightarrow> align_expanded_pieces \<in> options" "on_parole \<in> opt \<longleftrightarrow> on_parole \<in> options"
    by (simp_all add: opt_def)
  then have g': "good_picks S pieces peer opt = good_picks S pieces peer options" for S by (simp add: good_picks_def fun_eq_iff)
  let ?ok = "picks_ok (align_expanded_pieces \<in> opt) (free_block s pieces)"
  have pi: "picker_inv s" using full_invD(1) [OF inv] .
  have a1: "?ok a1" using partials_phase_ok [OF pi] by (simp add: a1_def)
  have a2: "?ok a2" unfolding a2_def by (rule pick_suggested_ok [OF pi sz sg a1])
  obtain a3 s1 where m: "pick_mode s pieces pf peer opt a2 = (a3, s1)" by fastforce
  note M = pick_mode_ok [OF inv sz a2 m]
  note res = pick_acc_of_unfold [OF opt_def pf_def ret_def a1_def a2_def m]
  consider "(a, s') = (a1, s)" | "(a, s') = (a2, s)" | "pick_rest s1 pieces peer opt a3 = (a, s')"
    using r unfolding res by metis
  then show ?thesis
  proof cases
    case 3
    have "picks_ok (align_expanded_pieces \<in> opt) (free_block s1 pieces) a3" using M keeps_blocks_free [of s s1] by simp
    note R = pick_rest_ok [OF _ this 3]
    have "good_picks s1 pieces peer options = good_picks s pieces peer options"
      using M keeps_blocks_free [of s s1] keeps_blocks_busy [of s s1] by (simp add: good_picks_def fun_eq_iff)
    then show ?thesis using R M keeps_blocks_trans [of s s1 s'] o g' by simp
  qed (use inv picks_ok_good [OF a1, of peer opt] picks_ok_good [OF a2, of peer opt] o g' in auto)
qed

text \<open>The picks themselves, for the callers.\<close>

definition picked_ok :: "picker \<Rightarrow> bitfield \<Rightarrow> nat option \<Rightarrow> picker_option set \<Rightarrow> picker_flag set \<times> piece_block list \<Rightarrow> bool" where
  "picked_ok s pieces peer options r \<longleftrightarrow>
     (\<forall>b \<in> set (snd r). free_block s pieces b)
     \<or> on_parole \<notin> options \<and> end_game \<in> fst r \<and> snd r \<noteq> []
       \<and> (\<forall>b \<in> set (butlast (snd r)). free_block s pieces b) \<and> busy_block s pieces peer (last (snd r))"

lemma pick_pieces_ok:
  assumes "full_inv s" "bf_size pieces = num_pieces s" "\<forall>i \<in> set suggested. i < num_pieces s"
    and r: "pick_pieces pieces n pf peer options suggested peers s = (res, s')"
  shows "full_inv s' \<and> keeps_blocks s s' \<and> (\<forall>r. res = Some r \<longrightarrow> picked_ok s pieces peer options r)
    \<and> (align_expanded_pieces \<notin> options \<longrightarrow> res \<noteq> None)"
proof -
  obtain a s1 where a: "pick_acc_of pieces n pf peer options suggested peers s = (a, s1)" by fastforce
  have G: "picked_ok s pieces peer options (pa_flags a, pa_interesting a)" if "good_picks s pieces peer options a"
    using that by (auto simp: good_picks_def picked_ok_def)
  show ?thesis using pick_acc_of_ok [OF assms(1-3) a] r a G by (auto simp: pick_pieces_def split: if_splits)
qed

section \<open>How many blocks are picked\<close>

text \<open>When contiguous blocks are not asked for, a pick never exceeds the number of blocks wanted.\<close>

definition within :: "int \<Rightarrow> pick_acc \<Rightarrow> bool" where
  "within n a \<longleftrightarrow> 0 \<le> pa_num a \<and> int (length (pa_interesting a)) + pa_num a \<le> n"

lemma within_simps [simp]:
  "within n (set_flag f a) = within n a" "within n (a\<lparr>pa_ignored := l\<rparr>) = within n a"
  "within n (a\<lparr>pa_backup2 := l2\<rparr>) = within n a"
  "0 < pa_num a \<Longrightarrow> within n (add_pick b a) = within n a"
  by (auto simp: within_def set_flag_def add_pick_def)

lemma num_set_flag [simp]: "pa_num (set_flag f a) = pa_num a"
  by (simp add: set_flag_def)

lemma within_backup:
  "within n a \<Longrightarrow> within n (append_backup a)" "within n a \<Longrightarrow> within n (append_backup2 a)"
  by (auto simp: within_def append_backup_def append_backup2_def Let_def)

lemma within_pick_free: "within n a \<Longrightarrow> 0 < pa_num a \<Longrightarrow> within n (pick_free ix binfo ks 0 a)"
  by (induction ix binfo ks "0 :: int" a rule: pick_free.induct) (auto simp: Let_def)

lemma within_partial:
  assumes "within n a" "0 < pa_num a"
  shows "within n (add_blocks_downloading s dp pieces 0 peer options a)"
proof -
  have "within n (a1\<lparr>pa_num := max 0 (pa_num a1)\<rparr>)" if "within n a1" for a1
    using that by (simp add: within_def)
  then show ?thesis
    using assms within_pick_free [OF assms] by (auto simp: add_blocks_downloading_def Let_def split: prod.splits)
qed

text \<open>The padding of a piece is part of the piece.\<close>

definition pads_fit :: "picker \<Rightarrow> bool" where
  "pads_fit s \<longleftrightarrow> (\<forall>i < num_pieces s. pad_bytes_in_piece s i div block_size s \<le> blocks_in_piece s i)"

lemma within_add_blocks:
  assumes "within n a" "0 < pa_num a" "pads_fit s" "p < num_pieces s"
  shows "within n (add_blocks s p pieces 0 peer options a)"
proof -
  have "0 \<le> pick_payload s p" using assms(3,4) by (simp add: pads_fit_def pick_payload_def)
  then have "within n (a\<lparr>pa_interesting := pa_interesting a @ map (mk_block p) [0..<nat (min (pick_payload s p) (pa_num a))],
      pa_num := max 0 (pa_num a - min (pick_payload s p) (pa_num a))\<rparr>)"
    using assms(1,2) by (auto simp: within_def)
  then show ?thesis using assms(1) within_partial [OF assms(1,2)] by (simp add: add_blocks_def Let_def)
qed

lemma within_pos: "within n a \<Longrightarrow> \<not> pa_num a \<le> 0 \<Longrightarrow> 0 < pa_num a"
  by simp

lemma within_pick_partials:
  "within n a \<Longrightarrow> 0 < pa_num a \<Longrightarrow> within n (pick_partials s pieces 0 peer options dps a)"
  by (induction s pieces "0 :: int" peer options dps a rule: pick_partials.induct)
    (simp_all add: Let_def within_partial)

lemma within_partials_phase:
  "within n a \<Longrightarrow> 0 < pa_num a \<Longrightarrow> within n (partials_phase s pieces 0 peer options a)"
  by (simp add: partials_phase_def Let_def within_pick_partials within_backup)

lemma within_pick_suggested:
  "pads_fit s \<Longrightarrow> \<forall>i \<in> set is. i < num_pieces s \<Longrightarrow> within n a \<Longrightarrow> 0 < pa_num a
   \<Longrightarrow> within n (pick_suggested s pieces 0 peer options is a)"
  by (induction s pieces "0 :: int" peer options "is" a rule: pick_suggested.induct)
    (simp_all add: Let_def within_add_blocks)

lemma within_pick_each:
  "pads_fit s \<Longrightarrow> \<forall>i \<in> set is. i < num_pieces s \<Longrightarrow> within n a \<Longrightarrow> 0 < pa_num a
   \<Longrightarrow> within n (pick_each s pieces 0 peer options fl skp is a)"
  by (induction s pieces "0 :: int" peer options fl skp "is" a rule: pick_each.induct)
    (simp_all add: Let_def within_add_blocks)

lemma within_pick_extent:
  "pads_fit s \<Longrightarrow> \<forall>i \<in> set is. i < num_pieces s \<Longrightarrow> within n a \<Longrightarrow> 0 < pa_num a
   \<Longrightarrow> pick_extent s pieces 0 peer options is h a = (fin, h', a') \<Longrightarrow> within n a' \<and> (\<not> fin \<longrightarrow> 0 < pa_num a')"
proof (induction s pieces "0 :: int" peer options "is" h a rule: pick_extent.induct)
  case (2 s pieces peer options p ps h a)
  show ?case
  proof (cases "is_piece_free s pieces p")
    case True
    define a1 where "a1 = add_blocks s p pieces 0 peer options (set_flag extent_affinity a)"
    have "within n a1" using 2 by (simp add: a1_def within_add_blocks)
    then show ?thesis using 2 True a1_def by (auto simp: Let_def split: if_splits)
  qed (use 2 in simp)
qed simp

lemma within_pick_extents:
  "pads_fit s \<Longrightarrow> within n a \<Longrightarrow> 0 < pa_num a \<Longrightarrow> within n (snd (pick_extents s pieces 0 peer options i te es a))"
proof (induction s pieces "0 :: int" peer options i te es a rule: pick_extents.induct)
  case (2 s pieces peer options i te e es a)
  obtain fin h a1 where r: "pick_extent s pieces 0 peer options (extent_for s e) True a = (fin, h, a1)" by (metis prod_cases3)
  have "\<forall>i \<in> set (extent_for s e). i < num_pieces s" by (simp add: extent_for_def Let_def)
  note W = within_pick_extent [OF "2.prems"(1) this "2.prems"(2,3) r]
  show ?case
  proof (cases fin)
    case False
    then show ?thesis using "2.hyps" [OF r [symmetric] refl refl False] W "2.prems"(1) r by simp
  qed (use W r in simp)
qed simp

lemma keeps_blocks_fit:
  assumes "keeps_blocks s s'"
  shows "pads_fit s' = pads_fit s"
proof -
  have "m_pads_in_piece s' = m_pads_in_piece s" using keeps_blocksD(2) [OF assms] by (simp add: same_want_def)
  then show ?thesis
    using same_dl_fields [OF keeps_blocksD(1) [OF assms]] by (simp add: pads_fit_def pad_bytes_in_piece_def)
qed

lemma within_sequential:
  assumes "full_inv s" "\<not> m_dirty s" "pads_fit s" "within n a" "0 < pa_num a"
  shows "within n (sequential_phase s pieces 0 peer options a)"
proof -
  have m: "\<forall>i \<in> set (m_pieces s). i < num_pieces s"
    using m_pieces_lt(1) [OF picker_invD(1) [OF full_invD(1) [OF assms(1)]] assms(2)] .
  have c: "m_reverse_cursor s \<le> num_pieces s"
    using full_invD(3) [OF assms(1)] retreat_cursor_spec by (simp add: cursor_ok_def)
  let ?a1 = "pick_each s pieces 0 peer options prio_sequential_pieces (\<lambda>_. False)
    (takeWhile (\<lambda>i. piece_priority s i = top_priority) (m_pieces s)) a"
  have "within n ?a1" using m assms(3-5) by (intro within_pick_each) (auto dest: set_takeWhileD)
  then show ?thesis
    using assms(3) c by (auto simp: sequential_phase_def Let_def intro!: within_pick_each)
qed

lemma within_rarest:
  assumes fi: "full_inv s" and d: "\<not> m_dirty s" and w: "pads_fit s" "within n a" "0 < pa_num a"
  shows "within n (fst (rarest_phase s pieces 0 peer options a))"
proof (cases "reverse \<in> options")
  case True
  have "\<forall>i \<in> set (concat (map (\<lambda>i. map ((!) (m_pieces s))
      (rev [priority_begin (m_priority_boundaries s) i..<priority_end (m_priority_boundaries s) i]))
      (rev [0..<length (m_priority_boundaries s)]))). i < num_pieces s"
    using m_pieces_lt [OF picker_invD(1) [OF full_invD(1) [OF fi]] d] by (fastforce simp: less_le_trans)
  then show ?thesis
    using True w by (simp add: rarest_phase_def Let_def within_pick_each)
next
  case False
  obtain te a1 where te: "(if piece_extent_affinity \<in> options
      then pick_extents s pieces 0 peer options 0 None (m_recent_extents s) a else (None, a)) = (te, a1)" by fastforce
  define s1 where "s1 = (case te of None \<Rightarrow> s | Some k \<Rightarrow> s\<lparr>m_recent_extents := remove_at k (m_recent_extents s)\<rparr>)"
  have s1: "num_pieces s1 = num_pieces s" "m_pieces s1 = m_pieces s" "pads_fit s1"
    using w(1) by (auto simp: s1_def num_pieces_def keeps_blocks_fit [OF keeps_blocks_caches(1)] split: option.splits)
  have a1: "within n a1"
    using te w within_pick_extents [OF w, of pieces peer options 0 None "m_recent_extents s"] by (auto split: if_splits)
  have res: "rarest_phase s pieces 0 peer options a = (if pa_num a1 \<le> 0 then (a1, s1)
      else (pick_each s1 pieces 0 peer options rarest_first_flag (\<lambda>_. False) (m_pieces s1) a1, s1))"
    unfolding rarest_phase_def Let_def te s1_def using False by simp
  show ?thesis
    unfolding res using a1 s1 m_pieces_lt(1) [OF picker_invD(1) [OF full_invD(1) [OF fi]] d]
    by (auto intro: within_pick_each)
qed

lemma within_random_loop:
  "pads_fit s \<Longrightarrow> within n a \<Longrightarrow> within n (random_loop s pieces peer options start 0 piece a)"
proof (induction s pieces peer options start "0 :: int" piece a rule: random_loop.induct)
  case (1 s pieces peer options start piece a)
  note un = random_loop.simps [of s pieces peer options start 0 piece a]
  show ?case
  proof (cases "pa_num a \<le> 0 \<or> skip_pieces s pieces (pa_ignored a) start piece = None")
    case True
    then show ?thesis unfolding un using "1.prems"(2) by auto
  next
    case False
    then obtain p where n: "\<not> pa_num a \<le> 0" and p: "skip_pieces s pieces (pa_ignored a) start piece = Some p" by auto
    have dl: "\<not> (1 < (0 :: int) \<and> \<not> pos_downloading (m_piece_map s ! p))" by simp
    define a1 where "a1 = add_blocks s p pieces 0 peer options (set_flag random_pieces a)"
    have "within n a1" using "1.prems" n skip_pieces_Some [OF p] by (simp add: a1_def within_add_blocks)
    moreover have "random_loop s pieces peer options start 0 piece a =
        (if next_piece s p = start then a1 else random_loop s pieces peer options start 0 (next_piece s p) a1)"
      unfolding un Let_def a1_def p option.case if_not_P [OF n] if_not_P [OF dl] ..
    ultimately show ?thesis using "1.hyps"(2) [OF n p dl a1_def refl] "1.prems"(1) by simp
  qed
qed

lemma within_mode:
  assumes inv: "full_inv s" and w: "pads_fit s" "within n a" "0 < pa_num a"
  shows "within n (fst (pick_mode s pieces 0 peer options a))"
proof -
  define s1 where "s1 = (if m_dirty s then update_pieces s else s)"
  have s1: "full_inv s1" "\<not> m_dirty s1" using inv update_pieces_full [OF inv] by (simp_all add: s1_def)
  have "keeps_blocks s s1"
    using keeps_blocks_trans [OF keeps_blocks_caches(3) keeps_blocks_reorders [OF update_pieces_full(3) [OF inv]]]
    by (simp add: s1_def)
  then have f: "pads_fit s1" using w(1) keeps_blocks_fit by blast
  obtain st s2 where st: "random (num_pieces s - 1) s = (st, s2)" by fastforce
  then obtain ds where "s2 = s\<lparr>rng_draws := ds\<rparr>" by (rule random_frame)
  then have f2: "pads_fit s2" using w(1) by (simp add: keeps_blocks_fit [OF keeps_blocks_caches(2)])
  have "fst (pick_mode s pieces 0 peer options a) =
      (if sequential \<in> options then sequential_phase s1 pieces 0 peer options a
       else if rarest_first \<in> options then fst (rarest_phase s1 pieces 0 peer options a)
       else random_loop s2 pieces peer options st 0 st a)"
    unfolding pick_mode_def Let_def s1_def [symmetric] random_phase_def st by simp
  then show ?thesis
    using within_sequential [OF s1 f w(2,3)] within_rarest [OF s1 f w(2,3)] within_random_loop [OF f2 w(2)] by simp
qed

lemma within_rest:
  assumes "full_inv s" "within n a"
  shows "within n (fst (pick_rest s pieces peer options a))"
proof -
  define a1 where "a1 = append_backup (set_flag backup1 a)"
  define a2 where "a2 = append_backup2 (set_flag backup2 a1)"
  have a: "within n a1" "within n a2" using assms(2) by (simp_all add: a1_def a2_def within_backup)
  obtain a3 s3 where e: "end_game_phase s pieces peer a2 = (a3, s3)" by fastforce
  have a3: "within n a3" if "0 < pa_num a2"
    using end_game_phase_ok [OF assms(1) e] a(2) that by (auto simp: adds_one_def)
  have "fst (pick_rest s pieces peer options a) = (if pa_num a \<le> 0 then a else if pa_num a1 \<le> 0 then a1
      else if pa_num a2 \<le> 0 then a2 else if on_parole \<in> options then a2 else a3)"
    unfolding pick_rest_def Let_def a1_def [symmetric] a2_def [symmetric] e by simp
  then show ?thesis using assms(2) a a3 by simp
qed

lemma pick_mode_inv:
  assumes inv: "full_inv s"
  shows "full_inv (snd (pick_mode s pieces pf peer options a))"
proof -
  have u: "full_inv (if m_dirty s then update_pieces s else s)" using inv update_pieces_full(1) by simp
  have r: "\<exists>e. snd (rarest_phase s1 pieces pf peer options a) = s1\<lparr>m_recent_extents := e\<rparr>" for s1
    by (auto simp: rarest_phase_def Let_def split: prod.splits option.splits intro: exI [of _ "m_recent_extents s1"])
  obtain st s2 where st: "random (num_pieces s - 1) s = (st, s2)" by fastforce
  then obtain ds where "s2 = s\<lparr>rng_draws := ds\<rparr>" by (rule random_frame)
  then show ?thesis
    using u r [of "if m_dirty s then update_pieces s else s"] st inv by (auto simp: pick_mode_def Let_def random_phase_def)
qed

lemma pick_pieces_within:
  assumes inv: "full_inv s" and sg: "\<forall>i \<in> set suggested. i < num_pieces s" and fit: "pads_fit s" and n: "0 < n"
    and r: "pick_pieces pieces n 0 peer options suggested peers s = (Some (flags, blocks), s')"
  shows "int (length blocks) \<le> n"
proof -
  define opt where "opt = (if too_many_partials s peers then insert prioritize_partials options else options)"
  define pf :: int where "pf = (if too_many_partials s peers then 0 else 0)"
  define ret where "ret = (if too_many_partials s peers then {partial_ratio} else {}) \<union> (if pf \<noteq> 0 then {prefer_contiguous} else {})"
  define a1 where "a1 = (if prioritize_partials \<in> opt then partials_phase s pieces pf peer opt (initial_picks n ret)
    else initial_picks n ret)"
  define a2 where "a2 = pick_suggested s pieces pf peer opt suggested a1"
  obtain a3 s1 where m: "pick_mode s pieces pf peer opt a2 = (a3, s1)" by fastforce
  note res = pick_acc_of_unfold [OF opt_def pf_def ret_def a1_def a2_def m]
  have pf: "pf = 0" by (simp add: pf_def)
  have i: "within n (initial_picks n ret)" "0 < pa_num (initial_picks n ret)" using n by (simp_all add: within_def initial_picks_def)
  have a1: "within n a1" using within_partials_phase [OF i] i by (simp add: a1_def pf)
  have "within n (fst (pick_acc_of pieces n 0 peer options suggested peers s))"
  proof (cases "prioritize_partials \<in> opt \<and> pa_num a1 \<le> 0")
    case False
    then have p1: "0 < pa_num a1" using i by (auto simp: a1_def split: if_splits)
    have a2: "within n a2" unfolding a2_def pf by (rule within_pick_suggested [OF fit sg a1 p1])
    show ?thesis
    proof (cases "suggested \<noteq> [] \<and> pa_num a2 \<le> 0")
      case False
      then have "0 < pa_num a2" using p1 by (auto simp: a2_def)
      then have "within n a3" using within_mode [OF inv fit a2, of pieces peer opt] m pf by simp
      moreover have "full_inv s1" using pick_mode_inv [OF inv, of pieces pf peer opt a2] m by simp
      ultimately show ?thesis unfolding res using False \<open>\<not> (_ \<and> pa_num a1 \<le> 0)\<close> within_rest by auto
    qed (use a2 res False in auto)
  qed (use a1 res in auto)
  then show ?thesis using r by (auto simp: pick_pieces_def within_def split: prod.splits if_splits)
qed

end
