(* ===== verification/Picker_Steps.thy ===== *)
theory Picker_Steps
  imports Picker_Select
begin

text \<open>
  The picker as a state machine: its public operations as steps, with the obligations of their
  callers, and the invariant of every reachable picker.
\<close>

section \<open>The picker as a transition system\<close>

text \<open>
  A step is a call of one public member that changes the picker, with what its callers have to
  respect: blocks and pieces in range and priorities below 8; at most \<open>2^16\<close> partial pieces; a peer
  count below \<open>2^26\<close>, and only peers that were counted leave; no hash job under way when a piece
  is restored; a block that is not on request when it is finished or its write fails;
  \<open>we_dont_have\<close> not for a partial piece; the padding of a piece set once; \<open>we_have_all\<close> only when
  the padding of every piece is counted as had; \<open>resize\<close> to sizes that fit in an \<open>int\<close>, to no fewer
  pieces than before and without padding in the new ones.
\<close>

definition picker_init :: "picker \<Rightarrow> bool" where
  "picker_init s \<longleftrightarrow> (\<exists>tot sz draws. sizes_fit tot sz \<and> new_picker tot sz draws = Inr s)"

inductive picker_step :: "picker \<Rightarrow> picker \<Rightarrow> bool" where
  request: "valid_block s b \<Longrightarrow> slots s < 2 ^ 16 \<Longrightarrow> picker_step s (snd (mark_as_downloading b peer opts s))"
| writing: "valid_block s b \<Longrightarrow> slots s < 2 ^ 16 \<Longrightarrow> picker_step s (snd (mark_as_writing b peer s))"
| finished: "valid_block s b \<Longrightarrow> slots s < 2 ^ 16 \<Longrightarrow> \<not> is_requested s b \<Longrightarrow> picker_step s (mark_as_finished b peer s)"
| canceled: "valid_block s b \<Longrightarrow> picker_step s (mark_as_canceled b peer s)"
| aborted: "valid_block s b \<Longrightarrow> picker_step s (abort_download b peer s)"
| failed: "valid_block s b \<Longrightarrow> bi_state (block_of s b) \<noteq> state_requested \<Longrightarrow> picker_step s (write_failed b s)"
| restored: "i < num_pieces s \<Longrightarrow> \<forall>b \<in> set bs. b < blocks_in_piece s i \<Longrightarrow> \<not> is_hashing s i \<Longrightarrow> picker_step s (restore_piece i bs s)"
| locked: "i < num_pieces s \<Longrightarrow> picker_step s (lock_piece i s)"
| hashing: "i < num_pieces s \<Longrightarrow> picker_step s (started_hash_job i s)"
| hashed: "i < num_pieces s \<Longrightarrow> picker_step s (completed_hash_job i s)"
| passed: "i < num_pieces s \<Longrightarrow> picker_step s (piece_passed i s)"
| gained: "i < num_pieces s \<Longrightarrow> picker_step s (we_have i s)"
| lost: "i < num_pieces s \<Longrightarrow> have_piece s i \<or> queue_of s i = piece_open \<Longrightarrow> picker_step s (we_dont_have i s)"
| gained_all: "m_have_pad_bytes s = m_num_pad_bytes s \<Longrightarrow> picker_step s (we_have_all s)"
| resized: "sizes_fit tot sz \<Longrightarrow> num_pieces s \<le> (tot + sz - 1) div sz \<Longrightarrow> \<forall>j \<ge> num_pieces s. pad_bytes_in_piece s j = 0
    \<Longrightarrow> resize_picker tot sz s = Inr s' \<Longrightarrow> picker_step s s'"
| cleared: "picker_step s (clear_peer peer s)"
| priority: "i < num_pieces s \<Longrightarrow> n < 8 \<Longrightarrow> picker_step s (snd (set_piece_priority i n s))"
| pad: "i < num_pieces s \<Longrightarrow> m_pads_in_piece s i = None \<Longrightarrow> picker_step s (set_pad_bytes i n s)"
| inc: "i < num_pieces s \<Longrightarrow> get_availability s i + 1 < 2 ^ peer_count_bits \<Longrightarrow> picker_step s (inc_refcount i s)"
| dec: "i < num_pieces s \<Longrightarrow> avail_ok s \<Longrightarrow> 0 < get_availability s i \<Longrightarrow> picker_step s (dec_refcount i s)"
| inc_all: "picker_step s (inc_refcount_all s)"
| dec_all: "\<forall>a \<in> set (get_availability_all s). 0 < a \<Longrightarrow> picker_step s (dec_refcount_all s)"
| inc_bits: "bf_ok b \<Longrightarrow> bf_size b \<le> num_pieces s \<Longrightarrow> \<forall>a \<in> set (get_availability_all s). a + 1 < 2 ^ peer_count_bits
    \<Longrightarrow> picker_step s (inc_refcount_bits b s)"
| dec_bits: "bf_ok b \<Longrightarrow> bf_size b \<le> num_pieces s \<Longrightarrow> avail_ok s \<Longrightarrow> \<forall>i < bf_size b. get_bit b i \<longrightarrow> 0 < get_availability s i
    \<Longrightarrow> picker_step s (dec_refcount_bits b s)"
| rebuild: "picker_step s (update_pieces s)"
| picked: "bf_size b = num_pieces s \<Longrightarrow> \<forall>i \<in> set suggested. i < num_pieces s
    \<Longrightarrow> picker_step s (snd (pick_pieces b n pf peer opts suggested peers s))"

lemma want_step: "full_inv s \<Longrightarrow> picker_inv s' \<and> same_want s s' \<Longrightarrow> full_inv s'"
  using same_want_full by blast

lemma we_dont_have_open: "\<not> have_piece s i \<Longrightarrow> queue_of s i = piece_open \<Longrightarrow> we_dont_have i s = s"
  by (simp add: we_dont_have_def queue_of_def Let_def have_iff pos_have_def)

lemma picker_step_inv:
  assumes "full_inv s" "picker_step s s'"
  shows "full_inv s'"
  using assms(2,1)
proof (induction rule: picker_step.induct)
  case (request s b peer opts)
  then show ?case using mark_as_downloading_result [of s b peer opts] full_invD(1) want_step by (metis prod.collapse)
next
  case (writing s b peer)
  then show ?case using mark_as_writing_result [of s b peer] full_invD(1) want_step by blast
next
  case (finished s b peer)
  then show ?case using mark_as_finished_ok by blast
next
  case (canceled s b peer)
  then show ?case using mark_as_canceled_ok [of s b peer] full_invD(1) want_step by blast
next
  case (aborted s b peer)
  then show ?case using abort_download_ok [of s b peer] full_invD(1) want_step by blast
next
  case (failed s b)
  then show ?case using write_failed_ok [of s b] full_invD(1) want_step by blast
next
  case (restored i s bs)
  then show ?case using restore_piece_ok [of s i bs] full_invD(1) want_step by blast
next
  case (locked i s)
  then show ?case using lock_piece_ok [of s i] full_invD(1) want_step by blast
next
  case (hashing i s)
  then show ?case using started_hash_job_ok [of s i] full_invD(1) want_step by blast
next
  case (hashed i s)
  then show ?case using completed_hash_job_ok [of s i] full_invD(1) want_step by blast
next
  case (passed i s)
  then show ?case using piece_passed_ok(1) by blast
next
  case (gained i s)
  then show ?case using we_have_ok(1) by blast
next
  case (lost i s)
  then show ?case using we_dont_have_ok(1) we_dont_have_open [of s i] by metis
next
  case (gained_all s)
  then show ?case by (simp add: we_have_all_full)
next
  case (resized tot sz s s')
  then show ?case using resize_picker_ok(1) [of tot sz s] full_invD order_inv_ok picker_invD(1) by blast
next
  case (cleared s peer)
  then show ?case using clear_peer_ok [of s peer] full_invD(1) want_step by blast
next
  case (priority i s n)
  then show ?case using set_piece_priority_ok(1) by blast
next
  case (pad i s n)
  then show ?case using set_pad_bytes_ok(1) by blast
next
  case (inc i s)
  then show ?case using inc_refcount_ok [of s i] peers_only_full full_invD(1) picker_invD(1) by blast
next
  case (dec i s)
  then show ?case using dec_refcount_ok [of s i] peers_only_full full_invD(1) picker_invD(1) by blast
next
  case (inc_all s)
  then show ?case using inc_refcount_all_ok [of s] peers_only_full full_invD(1) picker_invD(1) by blast
next
  case (dec_all s)
  then show ?case using dec_refcount_all_ok [of s] peers_only_full full_invD(1) picker_invD(1) by blast
next
  case (inc_bits b s)
  then show ?case using inc_refcount_bits_ok [of s b] peers_only_full full_invD(1) picker_invD(1) by blast
next
  case (dec_bits b s)
  then show ?case using dec_refcount_bits_ok [of s b] peers_only_full full_invD(1) picker_invD(1) by blast
next
  case (rebuild s)
  then show ?case using update_pieces_full(1) by blast
next
  case (picked b s suggested n pf peer opts peers)
  then show ?case using pick_pieces_ok [of s b suggested n pf peer opts peers] by (metis prod.collapse)
qed

interpretation ps: guarded_steps picker_init picker_step full_inv
  by unfold_locales (auto simp: picker_init_def intro: new_picker_ok(1) picker_step_inv)

end
