(* ===== verification/Picker_Demo.thy ===== *)
theory Picker_Demo
  imports Picker_Steps "HOL-Library.Code_Target_Numeral"
begin

text \<open>
  A small torrent on which the properties of the picker are instantiated: 163840 bytes in
  three pieces of four blocks (the last one has two), and the pickers reached from its
  initial one by a few calls.
\<close>

definition demo :: picker where
  "demo = (empty_picker [3, 5, 2])
     \<lparr>m_total_size := 0x28000, m_piece_size := 0x10000, m_piece_map := [blank_pos, blank_pos, blank_pos],
      m_dirty := True, m_reverse_cursor := 3, m_blocks_in_last_piece := 2\<rparr>"

definition demo_block :: piece_block where "demo_block = mk_block 0 1"

definition demo_requested :: picker where
  "demo_requested = snd (mark_as_downloading demo_block (Some 7) {} demo)"

definition demo_writing :: picker where
  "demo_writing = snd (mark_as_writing demo_block (Some 7) demo_requested)"

definition demo_bits :: bitfield where
  "demo_bits = \<lparr>m_buf = [3, 0xe0]\<rparr>"

lemma demo_fit: "sizes_fit 0x28000 0x10000"
  by (simp add: sizes_fit_def default_block_size_def)

lemma demo_new: "new_picker 0x28000 0x10000 [3, 5, 2] = Inr demo"
proof -
  have v: "vec_resize 3 (new_piece_pos 0 0) [] = [blank_pos, blank_pos, blank_pos]"
    by (simp add: vec_resize_def numeral_3_eq_3 new_piece_pos_def blank_pos_def)
  have m: "blank_pos\<lparr>pp_peer_count := 0, pp_state := piece_open, pp_index := Some 0\<rparr> = blank_pos" by (simp add: blank_pos_def)
  have k: "\<not> skip_piece blank_pos" by (simp add: skip_piece_def blank_pos_def pos_have_def pos_filtered_def)
  then have a: "advance_cursor [blank_pos, blank_pos, blank_pos] 0 = 0" by (subst advance_cursor.simps) simp
  show ?thesis
    by (simp add: new_picker_def resize_picker_cases [OF demo_fit] reset_pieces_def Let_def v m demo_def
      empty_picker_def default_block_size_def max_blocks_per_piece_def a k)
qed

lemma demo_init: "picker_init demo"
  unfolding picker_init_def
  by (rule exI [of _ "0x28000"], rule exI [of _ "0x10000"], rule exI [of _ "[3, 5, 2]"])
    (simp add: demo_new demo_fit)

lemma demo_inv: "full_inv demo"
  by (rule ps.init_inv [OF demo_init])

lemma demo_facts:
  "num_pieces demo = 3" "valid_block demo demo_block" "slots demo = 0" "\<not> is_requested demo demo_block"
  "\<not> have_piece demo 0" "get_availability demo 0 = 0" "blocks_in_piece demo 0 = 4" "m_pads_in_piece demo = Map.empty"
  "m_dirty demo" "blocks_per_piece demo = 4" "get_availability_all demo = [0, 0, 0]"
  by (simp_all add: demo_def empty_picker_def num_pieces_def valid_block_def demo_block_def blocks_in_piece_def
    slots_def blocks_per_piece_def block_size_def default_block_size_def is_requested_def download_queue_def
    have_piece_def blank_pos_def get_availability_def get_availability_all_def)

definition demo_state :: "block_state \<Rightarrow> picker \<Rightarrow> bool" where
  "demo_state st s \<longleftrightarrow> num_pieces s = 3 \<and> valid_block s demo_block \<and> slots s = 1 \<and> \<not> is_hashing s 0 \<and> \<not> have_piece s 0
     \<and> queue_of s 0 \<noteq> piece_open \<and> bi_state (block_of s demo_block) = st"

lemma demo_requested_state: "demo_state state_requested demo_requested"
  by code_simp

lemma demo_writing_state: "demo_state state_writing demo_writing"
  by code_simp

lemma demo_stateD:
  assumes "demo_state st s"
  shows "num_pieces s = 3" "valid_block s demo_block" "slots s = 1" "\<not> is_hashing s 0" "\<not> have_piece s 0"
    "queue_of s 0 \<noteq> piece_open" "bi_state (block_of s demo_block) = st" "is_requested s demo_block \<longleftrightarrow> st = state_requested"
  using assms by (auto simp: demo_state_def is_requested_def queue_of_def demo_block_def mk_block_def)

lemmas demo_requested_facts = demo_stateD [OF demo_requested_state]
lemmas demo_writing_facts = demo_stateD [OF demo_writing_state]

lemma demo_requested_step: "picker_step demo demo_requested"
  unfolding demo_requested_def by (rule request) (simp_all add: demo_facts)

lemma demo_requested_inv: "full_inv demo_requested"
  by (rule ps.step_inv [OF demo_inv demo_requested_step])

lemma demo_writing_step: "picker_step demo_requested demo_writing"
  unfolding demo_writing_def by (rule writing) (simp_all add: demo_requested_facts)

lemma demo_writing_inv: "full_inv demo_writing"
  by (rule ps.step_inv [OF demo_requested_inv demo_writing_step])

lemma demo_bits_facts: "bf_size demo_bits = 3" "bf_ok demo_bits" "bits_of demo_bits = [True, True, True]"
  by code_simp+

lemma demo_owned: "owned demo = {}"
  using new_picker_ok(3) [OF demo_fit demo_new] by (auto simp: owned_def)

text \<open>The last piece, of two blocks: the hash passes while the first block is being written, then that block is finished.\<close>

definition demo_last :: picker where
  "demo_last = snd (mark_as_writing (mk_block 2 0) (Some 7) demo)"

definition demo_passed :: picker where
  "demo_passed = piece_passed 2 demo_last"

definition demo_half :: picker where
  "demo_half = mark_as_finished (mk_block 2 0) None demo_passed"

definition demo_ready :: "nat \<Rightarrow> bool \<Rightarrow> picker \<Rightarrow> bool" where
  "demo_ready k c s \<longleftrightarrow> num_pieces s = 3 \<and> valid_block s (mk_block 2 k) \<and> slots s = 1 \<and> \<not> is_requested s (mk_block 2 k)
     \<and> \<not> have_piece s 2 \<and> completes_piece s (mk_block 2 k) = c"

lemma demo_passed_ready: "demo_ready 0 False demo_passed"
  by code_simp

lemma demo_half_ready: "demo_ready 1 True demo_half"
  by code_simp

lemma demo_readyD:
  assumes "demo_ready k c s"
  shows "num_pieces s = 3" "valid_block s (mk_block 2 k)" "slots s < 2 ^ 16" "\<not> is_requested s (mk_block 2 k)"
    "\<not> have_piece s 2" "completes_piece s (mk_block 2 k) = c"
  using assms by (auto simp: demo_ready_def)

lemma demo_passed_inv: "full_inv demo_passed"
proof -
  have "valid_block demo (mk_block 2 0)" by code_simp
  then have "picker_step demo demo_last" unfolding demo_last_def by (intro writing) (simp_all add: demo_facts)
  then have "full_inv demo_last" by (rule ps.step_inv [OF demo_inv])
  moreover have "num_pieces demo_last = 3" by code_simp
  ultimately show ?thesis unfolding demo_passed_def by (intro piece_passed_ok(1)) simp_all
qed

end
