(* ===== verification/Spec2Isabelle.thy ===== *)
theory Spec2Isabelle
  imports Ip_Filter Tail_Queue Disk_Fence Packet_Buffer Bencode_Entries Bandwidth_Limits File_Paths Receive_Buffer Picker_Demo
begin

text \<open>
  Verification of libtorrentSN: the piece picker first, then components around it (paths are relative
  to the repository).

  The program. A BitTorrent client keeps, per torrent, a \<open>piece_picker\<close>
  (src/piece_picker.cpp, include/libtorrent/piece_picker.hpp) that decides which blocks to
  request from which peer. Peers announce the pieces they have as a \<open>bitfield\<close>
  (src/bitfield.cpp, include/libtorrent/bitfield.hpp); the torrent and its peer connections call
  the picker when a block is requested, written, finished, cancelled or fails, when a piece passes
  or fails its hash check, and when priorities change.

  The theories.
  \<^item> \<open>Prelude\<close>: counters of a fixed width, the conversion to \<open>int\<close>, division, vectors, and the locale \<open>guarded_steps\<close> of state machines
    with an invariant.
  \<^item> \<open>Bitfield\<close>: \<open>bitfield\<close> over its 32-bit words in network byte order, refined to lists of bits;
    its interface is the locale \<open>bit_vector\<close>.
  \<^item> \<open>Picker_Base\<close>: \<open>piece_pos\<close>, \<open>downloading_piece\<close>, \<open>block_info\<close> and the picker as records, the
    priority of a piece, the geometry of pieces and blocks.
  \<^item> \<open>Picker_Buckets\<close>, \<open>Picker_Order\<close>, \<open>Picker_Rebuild\<close>: \<open>m_pieces\<close> with its priority boundaries;
    \<open>add\<close>, \<open>remove\<close>, \<open>update\<close>, \<open>shuffle\<close> and \<open>update_pieces\<close> keep it a list of buckets by priority.
  \<^item> \<open>Picker_Sync\<close>: the checks \<open>check_invariant\<close> makes of the pick list, and the interface of the
    list as the locale \<open>pick_order\<close>.
  \<^item> \<open>Picker_Downloads\<close>, \<open>Picker_Frame\<close>, \<open>Picker_Partial\<close>, \<open>Picker_Moves\<close>: the partial pieces
    \<open>m_downloads\<close>, their block states in \<open>m_block_info\<close>, how they are created, moved between queues
    and erased, and what each of these leaves alone.
  \<^item> \<open>Picker_Refcount\<close>: the availability counters, one by one, for all pieces, and for a bitfield.
  \<^item> \<open>Picker_Blocks\<close>, \<open>Picker_Requests\<close>: the life of a block (\<open>mark_as_downloading\<close>,
    \<open>mark_as_writing\<close>, \<open>mark_as_finished\<close>, \<open>mark_as_canceled\<close>, \<open>write_failed\<close>, \<open>abort_download\<close>,
    \<open>lock_piece\<close>, \<open>restore_piece\<close>, the hash jobs).
  \<^item> \<open>Picker_Have\<close>, \<open>Picker_Tally\<close>, \<open>Picker_Complete\<close>, \<open>Picker_Setup\<close>: the constructor and \<open>resize\<close>,
    the pieces we have, priorities, padding, counters and cursors.
  \<^item> \<open>Picker_Pick\<close>, \<open>Picker_Select\<close>: \<open>pick_pieces\<close> with every mode, and what it may return.
  \<^item> \<open>Picker_Steps\<close>: the picker as a transition system and its invariant \<open>full_inv\<close>.
  \<^item> \<open>Picker_Demo\<close>: a small torrent for the instances below.

  State and effects. The picker is a record threaded through its operations; a C++ reference into
  a container is an index into the list that models it, and an iterator into \<open>m_downloads\<close> a queue and
  a position. The random engine is the list of the numbers it will produce, so every theorem holds for
  every outcome. Bit-fields wrap around at their width. Assertions have no effect, as in a release
  build; what they state is proved where it follows from the invariant.

  Termination. All functions of the picker are total. The loops of \<open>pick_pieces\<close> in random order and in end game
  end by the measures given with them: pieces not yet ignored and the distance to the start, and the
  number of candidates left.

  Hypotheses. Indices are in range, at most \<open>2^16\<close> partial pieces exist at a time, availabilities stay
  below \<open>2^26\<close> and only counted peers leave, \<open>restore_piece\<close> is not called while a hash job of the piece is
  outstanding, a block is not on request when it is finished or its write fails, \<open>we_dont_have\<close> is not
  called for a partial piece, the padding of a piece is set once, \<open>we_have_all\<close> is called only when the padding
  of all pieces is counted as had, and the sizes given to the constructor and to \<open>resize\<close> fit in an \<open>int\<close>. Each
  is stated where it is used and listed with the steps of \<open>Picker_Steps\<close>. Those that
  the code does not ensure, and that were found to fail, are the padding of \<open>we_have_all\<close>, whose counters are compared with
  the right ones below, and the sizes of \<open>resize\<close>.

  Other components, each over \<open>Prelude\<close> alone.
  \<^item> \<open>Ip_Filter\<close>: \<open>filter_impl\<close> of src/ip_filter.cpp, whose access list is kept sorted and with no two
    neighbours alike; what it needs of addresses is the locale \<open>address_space\<close>, interpreted for four
    bytes, sixteen bytes and ports. The list answers with the last rule that covers an address, and its
    export is the shortest one.
  \<^item> \<open>Tail_Queue\<close>: the intrusive queue of include/libtorrent/tailqueue.hpp over a heap of \<open>next\<close>
    pointers, refined to lists.
  \<^item> \<open>Disk_Fence\<close>: src/disk_job_fence.cpp, and a storage with its jobs as a transition system over
    it: fences exclude and keep the order of submission, and when all running jobs completed
    nothing is left blocked, except after the completion of a fence with another one behind it in a batch that
    had unblocked jobs before: then the storage is stuck for good.
  \<^item> \<open>Packet_Buffer\<close>: src/packet_buffer.cpp, refined to a map from sequence numbers; the locale
    \<open>packet_map\<close> is its interface. The loop that doubles the capacity may run forever in the code and is
    a partial function; it is shown to end for the sizes in use. The case in which the buffer confuses
    two sequence numbers is shown as well.
  \<^item> \<open>Bencode\<close>, \<open>Bencode_Values\<close>, \<open>Bencode_Nodes\<close>, \<open>Bencode_Entries\<close>: \<open>bdecode\<close> and \<open>bdecode_node\<close> of
    src/bdecode.cpp and the encoder of include/libtorrent/bencode.hpp and src/entry.cpp. The decoder is a stack
    machine over a flat list of tokens; it accepts exactly the values of the format that keep to its limits, its
    nodes stand for the parts of the value, and it inverts the encoder. The interface of encoder and decoder is the locale
    \<open>codec\<close>. The loops over tokens that end only at an \<open>end\<close> token are partial functions, shown to return on
    every accepted buffer; the fuel of \<open>entry_of\<close> is the depth of the recursion, and the depth of the value is enough.
  \<^item> \<open>Bandwidth\<close>, \<open>Bandwidth_Limits\<close>: \<open>bandwidth_channel\<close>, \<open>bw_request\<close> and \<open>bandwidth_manager\<close> of
    src/bandwidth_limit.cpp, src/bandwidth_queue_entry.cpp and src/bandwidth_manager.cpp. Requests share channels by
    pointer: the channels are a heap. A round of \<open>update_quotas\<close> is brought into closed form; limits hold over time when requests
    have at most five channels, which is all a round looks at; no request is lost; and the rounding of shares can starve requests.
    A request for more than ten channels, for which the code writes past the end of an array, has no result. The callbacks of a round
    come after its changes of state and are its output; counters are unbounded integers.
  \<^item> \<open>File_Storage\<close>, \<open>File_Paths\<close>: \<open>file_storage\<close> of src/file_storage.cpp with the functions on paths it uses of
    src/path.cpp, in a build for POSIX. Names are pointers, owned or borrowed; the value None stands for a read through
    the null pointer, and for the loop of \<open>map_block\<close> running past the last file. Adding and renaming files is a transition system; in
    the storages it reaches, blocks of pieces are the right slices of files and files are at the
    paths they were given. Offsets and sizes are kept in 48 bits as in the code and indexes of pieces are cut to an \<open>int\<close>; positions in the torrent are unbounded integers.
  \<^item> \<open>Receive_Buffer\<close>: src/receive_buffer.cpp with \<open>sliding_average\<close> and \<open>buffer\<close> from the headers. The allocator is a
    parameter: what it returns for a size is at least that long and has any content. The buffer is refined to the list of the
    bytes in it, and over any run of a connection that keeps to what the code asserts of its callers no byte is lost, repeated or reordered.

  Not modelled. Statistics counters and logging of \<open>pick_pieces\<close>; \<open>check_invariant\<close> beyond the
  pick list; \<open>bitfield::find_last_clear\<close>, which shifts by 32 for some sizes and has no caller; the CRC of paths; sessions,
  torrents and their metadata, peer connections beyond their receive buffer, the disk threads and files, trackers, the uTP socket, the GUI and the third-party libraries, which are input
  and output, callbacks or code of others.
\<close>

section \<open>The piece picker\<close>

text \<open>
  C1. Every picker reached from a new one by any sequence of calls of the public members that change
  it satisfies the whole invariant: the pick list is in order unless it is marked dirty, the queues
  of partial pieces are sorted and complete, each slice of block states belongs to one partial
  piece, the block counters match the block states, and the piece counters and cursors match the
  pieces. The calls are the steps of \<open>picker_step\<close>; their callers have to respect: blocks, pieces and
  priorities are in range; there are less than \<open>2^16\<close> slices when a block is requested, written or
  finished; a block is not on request when it is finished or its write fails; no hash job of a piece
  is under way when it is restored; \<open>we_dont_have\<close> is not called for a partial piece; the padding of
  a piece is set once; the number of peers of a piece stays below \<open>2^26\<close> and only peers that were
  counted leave; \<open>we_have_all\<close> is called only when the padding of all pieces is counted as had;
  the sizes given to the constructor and to \<open>resize\<close> do not overflow an \<open>int\<close>, and \<open>resize\<close> does not
  drop pieces or find padding for new ones.
\<close>

theorem reachable_picker_inv:
  assumes "picker_init s" "picker_step\<^sup>*\<^sup>* s s'"
  shows "full_inv s'"
  using assms by (rule ps.reached_inv)

theorem reachable_picker_inv_witness: "full_inv (clear_peer (Some 7) (we_have_all (clear_peer (Some 7) demo_writing)))"
proof (rule reachable_picker_inv [OF demo_init])
  let ?s = "clear_peer (Some 7) demo_writing"
  have "m_have_pad_bytes ?s = m_num_pad_bytes ?s" by code_simp
  then show "picker_step\<^sup>*\<^sup>* demo (clear_peer (Some 7) (we_have_all ?s))"
    using demo_requested_step demo_writing_step cleared [of demo_writing "Some 7"] gained_all [of ?s] cleared [of "we_have_all ?s" "Some 7"]
    by (meson rtranclp.rtrancl_into_rtrancl rtranclp.rtrancl_refl)
qed

text \<open>
  C2. \<open>pick_pieces\<close> returns only blocks of wanted pieces that are missing here and that the peer
  has, none of them downloaded or requested, except that outside parole its last block may be,
  in end game, one of a full piece that another peer was asked for. It changes nothing but the
  order of the pieces and its caches. It fails to return only by dividing by zero, for which
  \<open>align_expanded_pieces\<close> must be set.
\<close>

theorem pick_pieces_picks_free_blocks:
  assumes "full_inv s" "bf_size pieces = num_pieces s" "\<forall>i \<in> set suggested. i < num_pieces s"
  shows "full_inv (snd (pick_pieces pieces n pf peer options suggested peers s))
    \<and> keeps_blocks s (snd (pick_pieces pieces n pf peer options suggested peers s))
    \<and> (case fst (pick_pieces pieces n pf peer options suggested peers s) of
        None \<Rightarrow> align_expanded_pieces \<in> options
      | Some r \<Rightarrow> picked_ok s pieces peer options r)"
  using pick_pieces_ok [OF assms prod.collapse [symmetric], of n pf peer options peers] by (auto split: option.splits)

theorem pick_pieces_picks_free_blocks_witness:
  "case fst (pick_pieces demo_bits 4 0 (Some 1) {rarest_first} [2] 10 demo_requested) of
     None \<Rightarrow> False | Some r \<Rightarrow> picked_ok demo_requested demo_bits (Some 1) {rarest_first} r"
  using pick_pieces_picks_free_blocks [of demo_requested demo_bits "[2]" 4 0 "Some 1" "{rarest_first}" 10]
  by (auto simp: demo_requested_inv demo_requested_facts demo_bits_facts split: option.splits)

text \<open>
  C3. When no contiguous blocks are preferred, \<open>pick_pieces\<close> returns at most as many blocks as it
  was asked for, provided that the padding of a piece is not larger than the piece.
\<close>

theorem pick_pieces_at_most:
  assumes "full_inv s" "\<forall>i \<in> set suggested. i < num_pieces s" "pads_fit s" "0 < n"
    "pick_pieces pieces n 0 peer options suggested peers s = (Some (flags, blocks), s')"
  shows "int (length blocks) \<le> n"
  using assms by (rule pick_pieces_within)

theorem pick_pieces_at_most_witness:
  "case fst (pick_pieces demo_bits 4 0 (Some 1) {} [2] 10 demo) of
     None \<Rightarrow> False | Some (flags, blocks) \<Rightarrow> int (length blocks) \<le> 4"
proof -
  have "fst (pick_pieces demo_bits 4 0 (Some 1) {} [2] 10 demo) \<noteq> None"
    using pick_pieces_ok [OF demo_inv _ _ prod.collapse [symmetric], of demo_bits "[2]" 4 0 "Some 1" "{}" 10]
    by (simp add: demo_facts demo_bits_facts)
  moreover have "pads_fit demo" by (simp add: pads_fit_def pad_bytes_in_piece_def demo_facts)
  ultimately show ?thesis
    using pick_pieces_at_most [OF demo_inv, of "[2]" 4 demo_bits "Some 1" "{}" 10] demo_facts(1)
    by (cases "pick_pieces demo_bits 4 0 (Some 1) {} [2] 10 demo") auto
qed

text \<open>
  C4. \<open>update_pieces\<close> rebuilds the pick list: afterwards it holds, without repetition, exactly the
  pieces that can be picked, ordered by priority; the check the code has for it passes; and
  nothing else changes.
\<close>

theorem update_pieces_sorts:
  assumes "full_inv s"
  shows "check_pick_list (update_pieces s) \<and> distinct (m_pieces (update_pieces s))
    \<and> set (m_pieces (update_pieces s)) = {i. i < num_pieces s \<and> 0 \<le> priority_of s i}
    \<and> sorted (map (priority_of s) (m_pieces (update_pieces s)))
    \<and> reorders (s\<lparr>m_dirty := False\<rparr>) (update_pieces s)"
  using update_pieces_order [OF assms] .

theorem update_pieces_sorts_witness:
  "set (m_pieces (update_pieces demo_requested)) = {i. i < 3 \<and> 0 \<le> priority_of demo_requested i}"
  using update_pieces_sorts [OF demo_requested_inv] by (simp add: demo_requested_facts)

text \<open>
  C5. The operations that update the pick list in place do what a rebuild would do. When the list is
  not marked dirty, counting a peer of one piece, uncounting one that was counted for the piece
  itself, gaining or losing a piece and changing a priority leave it not dirty, without repetition,
  with the same pieces as the list \<open>update_pieces\<close> would build from scratch, and with the same
  sequence of priority values: the two differ at most in the order of pieces of equal priority.
\<close>

theorem updates_in_place_match_rebuild:
  assumes "full_inv s" "\<not> m_dirty s" "i < num_pieces s"
  shows "(get_availability s i + 1 < 2 ^ peer_count_bits \<longrightarrow> like_rebuilt (inc_refcount i s))
    \<and> (pp_peer_count (m_piece_map s ! i) \<noteq> 0 \<longrightarrow> like_rebuilt (dec_refcount i s))
    \<and> like_rebuilt (we_have i s) \<and> (have_piece s i \<longrightarrow> like_rebuilt (we_dont_have i s))
    \<and> (n < 8 \<longrightarrow> like_rebuilt (snd (set_piece_priority i n s)))"
  using inc_like_rebuilt [OF assms] dec_like_rebuilt [OF assms] have_like_rebuilt [OF assms] priority_like_rebuilt [OF assms]
  by blast

theorem updates_in_place_match_rebuild_witness:
  "like_rebuilt (inc_refcount 1 (update_pieces demo)) \<and> like_rebuilt (snd (set_piece_priority 1 7 (update_pieces demo)))"
proof -
  note U = update_pieces_full [OF demo_inv]
  have n: "num_pieces (update_pieces demo) = 3" using reorders_num_pieces [OF U(3)] by (simp add: num_pieces_def) (simp add: demo_def)
  have "get_availability (update_pieces demo) 1 = 0" by code_simp
  then show ?thesis using updates_in_place_match_rebuild [OF U(1,2), of 1 7] n by simp
qed

text \<open>
  C6. When a peer announces its bitfield, the availability of exactly the pieces in it grows by
  one, whichever of its two strategies \<open>inc_refcount\<close> chooses (moving pieces one by one, or marking
  the list dirty), and the order of the pieces stays right. When the peer leaves again, every
  availability is what it was.
\<close>

theorem inc_refcount_counts_bitfield:
  assumes "full_inv s" "bf_ok b" "bf_size b \<le> num_pieces s" "\<forall>a \<in> set (get_availability_all s). a + 1 < 2 ^ peer_count_bits"
  shows "full_inv (inc_refcount_bits b s)
    \<and> get_availability_all (inc_refcount_bits b s) = add_bits 1 b (get_availability_all s)
    \<and> ((\<forall>a \<in> set (get_availability_all s). 0 \<le> a) \<longrightarrow>
         get_availability_all (dec_refcount_bits b (inc_refcount_bits b s)) = get_availability_all s)"
  using inc_refcount_bits_ok [OF picker_invD(1) [OF full_invD(1) [OF assms(1)]] assms(2-4)] peers_only_full [OF _ _ assms(1)]
    inc_dec_refcount_bits [OF picker_invD(1) [OF full_invD(1) [OF assms(1)]] assms(2,3)] assms(4)
  by blast

theorem inc_refcount_counts_bitfield_witness:
  "get_availability_all (inc_refcount_bits demo_bits demo) = [1, 1, 1]
    \<and> get_availability_all (dec_refcount_bits demo_bits (inc_refcount_bits demo_bits demo)) = [0, 0, 0]"
proof -
  have "add_bits 1 demo_bits [0, 0, 0] = [1, 1, 1]" by code_simp
  then show ?thesis
    using inc_refcount_counts_bitfield [OF demo_inv, of demo_bits] by (simp add: demo_facts demo_bits_facts)
qed

text \<open>
  C7. When a peer that was counted leaves, the availability of exactly the pieces of its bitfield
  drops by one, also when that needs a seed to be broken up, and the order of the pieces stays right.
\<close>

theorem dec_refcount_counts_bitfield:
  assumes "full_inv s" "bf_ok b" "bf_size b \<le> num_pieces s" "avail_ok s"
    "\<forall>i < bf_size b. get_bit b i \<longrightarrow> 0 < get_availability s i"
  shows "full_inv (dec_refcount_bits b s)
    \<and> get_availability_all (dec_refcount_bits b s) = add_bits (-1) b (get_availability_all s)"
  using dec_refcount_bits_ok [OF picker_invD(1) [OF full_invD(1) [OF assms(1)]] assms(2-5)] peers_only_full [OF _ _ assms(1)]
  by blast

theorem dec_refcount_counts_bitfield_witness:
  "get_availability_all (dec_refcount_bits demo_bits (inc_refcount_all demo)) = [0, 0, 0]"
proof -
  note A = inc_refcount_all_ok [OF picker_invD(1) [OF full_invD(1) [OF demo_inv]]]
  let ?s = "inc_refcount_all demo"
  have i: "full_inv ?s" using A peers_only_full [OF _ _ demo_inv] by blast
  have n: "num_pieces ?s = 3" "get_availability_all ?s = [1, 1, 1]"
    using A by (auto simp: demo_facts peers_only_def same_want_def)
  have "get_availability ?s j = 1" if "j < 3" for j
    using that n(2) availability_nth [of j ?s] n(1) by (auto simp: numeral_3_eq_3 less_Suc_eq)
  moreover have "add_bits (- 1) demo_bits [1, 1, 1] = [0, 0, 0]" by code_simp
  ultimately show ?thesis
    using dec_refcount_counts_bitfield [OF i, of demo_bits] n by (simp add: demo_bits_facts avail_ok_def)
qed

text \<open>
  C8. Requesting a block leaves it requested when the call succeeds; it fails only for a block
  that is being written or is finished. What we have and want is untouched.
\<close>

theorem mark_as_downloading_requests:
  assumes "full_inv s" "valid_block s b" "slots s < 2 ^ 16" "mark_as_downloading b peer opts s = (r, s')"
  shows "full_inv s' \<and> same_want s s' \<and> (if r then is_requested s' b else is_downloaded s' b)"
  using mark_as_downloading_result [OF full_invD(1) [OF assms(1)] assms(2-4)] same_want_full [OF _ _ assms(1)] by blast

theorem mark_as_downloading_requests_witness:
  "(if fst (mark_as_downloading demo_block (Some 7) {} demo) then is_requested demo_requested demo_block
    else is_downloaded demo_requested demo_block)"
  using mark_as_downloading_requests [OF demo_inv demo_facts(2) _ prod.collapse [symmetric]]
  by (simp add: demo_facts demo_requested_def)

text \<open>
  C9. A block handed to the disk counts as downloaded from then on, so that no peer is asked for
  it again.
\<close>

theorem mark_as_writing_downloads:
  assumes "full_inv s" "valid_block s b" "slots s < 2 ^ 16"
  shows "full_inv (snd (mark_as_writing b peer s)) \<and> same_want s (snd (mark_as_writing b peer s))
    \<and> is_downloaded (snd (mark_as_writing b peer s)) b"
  using mark_as_writing_result [OF full_invD(1) [OF assms(1)] assms(2,3)] same_want_full [OF _ _ assms(1)] by blast

theorem mark_as_writing_downloads_witness: "is_downloaded demo_writing demo_block"
  using mark_as_writing_downloads [OF demo_requested_inv demo_requested_facts(2), of "Some 7"]
  by (simp add: demo_requested_facts demo_writing_def)

text \<open>
  C10. A block that is written to disk is finished. Its piece is taken over as had exactly when this
  completes it: it was a partial piece whose hash has passed, with no hash job under way, of which
  this block was the last one that was not finished.
\<close>

theorem mark_as_finished_finishes:
  assumes "full_inv s" "valid_block s b" "slots s < 2 ^ 16" "\<not> is_requested s b"
  shows "full_inv (mark_as_finished b peer s) \<and> is_finished_block (mark_as_finished b peer s) b
    \<and> (have_piece (mark_as_finished b peer s) (piece_index b) \<longleftrightarrow> have_piece s (piece_index b) \<or> completes_piece s b)"
  using assms by (rule mark_as_finished_ok)

theorem mark_as_finished_finishes_witness:
  "\<not> have_piece demo_half 2 \<and> have_piece (mark_as_finished (mk_block 2 1) None demo_half) 2"
proof -
  note P = demo_readyD [OF demo_passed_ready] and H = demo_readyD [OF demo_half_ready]
  have "full_inv demo_half" "\<not> have_piece demo_half 2"
    using mark_as_finished_finishes [OF demo_passed_inv P(2-4), of None] P(5,6) by (simp_all add: demo_half_def mk_block_def)
  then show ?thesis using mark_as_finished_finishes [OF _ H(2-4), of None] H(6) by (simp add: mk_block_def)
qed

text \<open>
  C11. Aborting a request withdraws this peer from the block: of a requested block the number of
  peers asked for it drops by one, the block stays requested exactly when more peers than this one
  were asked for it, and it has no downloader any more if it is freed or the downloader was this
  peer. A block that is not on request is left alone.
\<close>

theorem abort_download_withdraws:
  assumes "full_inv s" "valid_block s b"
  shows "full_inv (abort_download b peer s) \<and> same_want s (abort_download b peer s)
    \<and> (is_requested (abort_download b peer s) b \<longleftrightarrow> is_requested s b \<and> 1 < num_peers s b)
    \<and> num_peers (abort_download b peer s) b = (if is_requested s b then num_peers s b - 1 else num_peers s b)
    \<and> get_downloader (abort_download b peer s) b
        = (if is_requested s b \<and> (num_peers s b \<le> 1 \<or> get_downloader s b = peer) then None else get_downloader s b)"
  using abort_download_ok [OF full_invD(1) [OF assms(1)] assms(2)] same_want_full [OF _ _ assms(1)] by blast

theorem abort_download_withdraws_witness:
  "is_requested demo_requested demo_block \<and> \<not> is_requested (abort_download demo_block (Some 7) demo_requested) demo_block
    \<and> get_downloader (abort_download demo_block (Some 7) demo_requested) demo_block = None"
proof -
  have "num_peers demo_requested demo_block = 1" by code_simp
  then show ?thesis
    using abort_download_withdraws [OF demo_requested_inv demo_requested_facts(2), of "Some 7"] by (simp add: demo_requested_facts)
qed

text \<open>
  C12. When the write of a block fails, the block goes back to being free, so that it is
  downloaded again.
\<close>

theorem write_failed_frees:
  assumes "full_inv s" "valid_block s b" "bi_state (block_of s b) = state_writing"
  shows "full_inv (write_failed b s) \<and> same_want s (write_failed b s) \<and> back_to_none (write_failed b s) b"
  using write_failed_ok [OF full_invD(1) [OF assms(1)] assms(2)] assms(3) same_want_full [OF _ _ assms(1)] by auto

theorem write_failed_frees_witness: "back_to_none (write_failed demo_block demo_writing) demo_block"
  using write_failed_frees [OF demo_writing_inv demo_writing_facts(2)] by (simp add: demo_writing_facts)

text \<open>
  C13. Restoring a piece that failed its hash check frees all its blocks when no blocks are given;
  otherwise exactly the given blocks become free, except those that are on request, and every other
  block keeps its state. The invariant is kept, as long as no hash job of the piece is outstanding.
\<close>

theorem restore_piece_frees:
  assumes "full_inv s" "i < num_pieces s" "\<forall>b \<in> set ks. b < blocks_in_piece s i" "\<not> is_hashing s i"
  shows "full_inv (restore_piece i ks s) \<and> same_want s (restore_piece i ks s)
    \<and> (\<forall>k < blocks_in_piece s i. state_of_block (restore_piece i ks s) i k
         = (if ks = [] \<or> k \<in> set ks \<and> state_of_block s i k \<noteq> state_requested then state_none else state_of_block s i k))"
  using restore_piece_ok [OF full_invD(1) [OF assms(1)] assms(2-4)] same_want_full [OF _ _ assms(1)] by blast

theorem restore_piece_frees_witness:
  "state_of_block (restore_piece 0 [0] demo_writing) 0 1 = state_writing
    \<and> state_of_block (restore_piece 0 [1] demo_writing) 0 1 = state_none"
proof -
  have "blocks_in_piece demo_writing 0 = 4" "state_of_block demo_writing 0 1 = state_writing" by code_simp+
  then show ?thesis
    using restore_piece_frees [OF demo_writing_inv, of 0 "[0]"] restore_piece_frees [OF demo_writing_inv, of 0 "[1]"]
    by (simp add: demo_writing_facts)
qed

text \<open>
  C14. A piece that passes its hash check is recorded as passed; if all its blocks are on disk it
  is had at once.
\<close>

theorem piece_passed_completes:
  assumes "full_inv s" "i < num_pieces s" "queue_of s i \<noteq> piece_open" "\<not> dp_locked (dl_at s (find_piece s i))"
  shows "full_inv (piece_passed i s) \<and> has_piece_passed (piece_passed i s) i
    \<and> (dp_finished (dl_at s (find_piece s i)) = blocks_in_piece s i \<longrightarrow> have_piece (piece_passed i s) i)"
  using piece_passed_ok [OF assms(1,2)] assms(3,4) by blast

theorem piece_passed_completes_witness: "has_piece_passed (piece_passed 0 demo_writing) 0"
proof -
  have "\<not> dp_locked (dl_at demo_writing (find_piece demo_writing 0))" by code_simp
  then show ?thesis using piece_passed_completes [OF demo_writing_inv, of 0] by (simp add: demo_writing_facts)
qed



text \<open>
  C16. Setting the priority of a piece sets that one, reports whether the piece changed between
  wanted and filtered, and keeps counters, cursors, queues and the order of the pieces right.
\<close>

theorem set_piece_priority_sets:
  assumes "full_inv s" "i < num_pieces s" "n < 8"
  shows "full_inv (snd (set_piece_priority i n s))
    \<and> piece_priorities (snd (set_piece_priority i n s)) = (piece_priorities s)[i := n]
    \<and> owned (snd (set_piece_priority i n s)) = owned s
    \<and> fst (set_piece_priority i n s) = ((n = 0) \<noteq> (piece_priority s i = 0))"
  using set_priority_all [OF assms] .

theorem set_piece_priority_sets_witness: "piece_priorities (snd (set_piece_priority 1 0 demo)) = [4, 0, 4]"
proof -
  have "piece_priorities demo = [4, 4, 4]" by code_simp
  then show ?thesis using set_piece_priority_sets [OF demo_inv, of 1 0] by (simp add: demo_facts)
qed

text \<open>
  C17. The counters the picker reports are the numbers of wanted pieces, of wanted pieces we have,
  and of pieces we have; a torrent is seeding exactly when it has every piece.
  \<open>num_want_left\<close> is documented as the number of pieces we want and do not have; it exceeds that
  number by the number of filtered pieces we have.
\<close>

theorem counters_count:
  assumes "full_inv s"
  shows "pc_num_pieces (want s) = int (card (wanted s))
    \<and> pc_num_pieces (have_want s) = int (card (wanted s \<inter> owned s))
    \<and> pc_num_pieces (have_count s) = int (card (owned s))
    \<and> (is_seeding s \<longleftrightarrow> owned s = {..<num_pieces s})
    \<and> num_want_left s = int (card (wanted s - owned s)) + int (card (owned s - wanted s))"
  using counts_mean [OF assms] is_seeding_iff [OF assms] by (auto simp: owned_def)

theorem counters_count_witness:
  "\<exists>s. full_inv s \<and> num_want_left s = int (card (wanted s - owned s)) + 1"
proof -
  define s where "s = we_have 1 demo"
  define t where "t = snd (set_piece_priority 1 0 s)"
  have o: "1 < num_pieces demo" by (simp add: demo_facts)
  have s: "full_inv s" "num_pieces s = num_pieces demo" "owned s = insert 1 (owned demo)"
    using we_have_ok(2) [OF demo_inv o] have_lose_owned [OF demo_inv o] unfolding s_def by blast+
  have i: "1 < num_pieces s" and z: "(0 :: nat) < 8" using s(2) o by simp_all
  have t: "full_inv t" "owned t = owned s" using set_priority_all [OF s(1) i z] unfolding t_def by blast+
  have "piece_priority t 1 = 0" unfolding t_def using set_piece_priority_ok(4) [OF s(1) i z i] by simp
  then have "owned t - wanted t = {1}" using t(2) s(3) demo_owned by (auto simp: wanted_def)
  then show ?thesis using counters_count [OF t(1)] t(1) by auto
qed

text \<open>
  C18. \<open>we_have_all\<close> makes every piece had and keeps order, queues and cursors right, but it
  leaves \<open>m_have_pad_bytes\<close> alone: the counters match the pieces afterwards exactly when the padding
  of every piece was counted as had before.
\<close>

theorem we_have_all_counters:
  assumes "full_inv s"
  shows "owned (we_have_all s) = {..<num_pieces s} \<and> picker_inv (we_have_all s) \<and> cursor_ok (we_have_all s)
    \<and> (tally_ok (we_have_all s) \<longleftrightarrow> m_have_pad_bytes s = m_num_pad_bytes s)"
  using have_all_owned [OF assms] we_have_all_ok(1-3) [OF assms] by blast

theorem we_have_all_counters_witness: "\<not> tally_ok (we_have_all (set_pad_bytes 1 5 demo))"
proof -
  let ?s = "set_pad_bytes 1 5 demo"
  have "full_inv ?s" using set_pad_bytes_ok(1) [OF demo_inv, of 1 5] by (simp add: demo_facts)
  moreover have "m_have_pad_bytes ?s \<noteq> m_num_pad_bytes ?s" by code_simp
  ultimately show ?thesis using we_have_all_counters [of ?s] by blast
qed

text \<open>
  C19. \<open>distributed_copies\<close> returns the least number of copies of a piece in the swarm, and how
  many thousandths of the pieces have more, when a thousand times the number of pieces fits in an
  \<open>int\<close> and some piece has at most \<open>0xffff\<close> copies, counting our own, besides those of the seeds (the
  value the search for the minimum starts with).
\<close>

theorem distributed_copies_counts:
  assumes "\<exists>p \<in> set (m_piece_map s). copies p \<le> 0xffff" "num_pieces s * 1000 < 2 ^ 31"
  shows "distributed_copies s =
    (Min (copies ` set (m_piece_map s)) + m_seeds s,
     int (length (filter (\<lambda>p. copies p \<noteq> Min (copies ` set (m_piece_map s))) (m_piece_map s)) * 1000 div num_pieces s))"
  using assms by (rule distributed_copies_spec)

theorem distributed_copies_counts_witness: "distributed_copies demo = (0, 0)"
  using distributed_copies_counts [of demo] by (simp add: demo_facts(1)) (simp add: demo_def empty_picker_def blank_pos_def copies_def pos_have_def)

text \<open>
  C20. For sizes that do not overflow an \<open>int\<close> (piece size plus block size at most \<open>2^31\<close>, less than
  \<open>2^31\<close> pieces), a picker is refused, with an error, exactly when its pieces have more than the
  maximum number of blocks; otherwise it starts with every piece missing, of availability 0 and of
  default priority.
\<close>

theorem new_picker_result:
  assumes "0 < sz" "sz + min sz default_block_size \<le> 2 ^ 31" "(tot + sz - 1) div sz < 2 ^ 31"
  shows "case new_picker tot sz draws of
      Inl e \<Rightarrow> e = invalid_piece_size \<and> (sz + min sz default_block_size - 1) div min sz default_block_size > max_blocks_per_piece
    | Inr s \<Rightarrow> (sz + min sz default_block_size - 1) div min sz default_block_size \<le> max_blocks_per_piece
        \<and> full_inv s \<and> num_pieces s = (tot + sz - 1) div sz \<and> owned s = {}
        \<and> (\<forall>i < num_pieces s. get_availability s i = 0 \<and> piece_priority s i = default_priority)"
proof -
  have fit: "sizes_fit tot sz" using assms by (simp add: sizes_fit_def)
  show ?thesis
  proof (cases "new_picker tot sz draws")
    case (Inl e)
    then show ?thesis using new_picker_error [OF fit, of draws e] by simp
  next
    case (Inr s)
    have "(sz + min sz default_block_size - 1) div min sz default_block_size \<le> max_blocks_per_piece"
      using new_picker_error [OF fit, of draws invalid_piece_size] Inr by (metis not_le sum.distinct(1))
    then show ?thesis using new_picker_ok [OF fit Inr] by (simp add: Inr owned_def)
  qed
qed

theorem new_picker_result_witness: "case new_picker 0x28000 0x10000 [3, 5, 2] of Inl e \<Rightarrow> False | Inr s \<Rightarrow> num_pieces s = 3"
  using new_picker_result [of "0x10000" "0x28000" "[3, 5, 2]"] demo_new by (simp add: default_block_size_def)

section \<open>Bitfields\<close>

text \<open>
  C21. A bitfield behaves like the list of its bits: setting and clearing a bit in range and
  resizing it, with either fill value and from any size, empty ones included, keep the
  representation, in particular that no bit is set past the end, and act on the bits as the list
  operations do. New sizes are at most \<open>2^31 - 32\<close>, so that rounding up to words stays within an \<open>int\<close>.
\<close>

theorem bitfield_refines_list:
  assumes "bf_ok b"
  shows "(i < bf_size b \<longrightarrow> bf_ok (set_bit i b) \<and> bits_of (set_bit i b) = (bits_of b)[i := True])
    \<and> (i < bf_size b \<longrightarrow> bf_ok (clear_bit i b) \<and> bits_of (clear_bit i b) = (bits_of b)[i := False])
    \<and> (n + 31 < 2 ^ 31 \<longrightarrow> bf_ok (resize n b) \<and> bits_of (resize n b) = vec_resize n False (bits_of b))
    \<and> (n + 31 < 2 ^ 31 \<longrightarrow> bf_ok (resize_val n v b) \<and> bits_of (resize_val n v b) = vec_resize n v (bits_of b))"
  using set_bit_bits [OF assms] clear_bit_bits [OF assms] resize_bits [OF assms] resize_val_bits [OF assms] by simp

theorem bitfield_refines_list_witness:
  "bits_of (set_bit 1 demo_bits) = [True, True, True] \<and> bits_of (resize_val 2 True \<lparr>m_buf = []\<rparr>) = [True, True]"
proof -
  have e: "bf_ok \<lparr>m_buf = []\<rparr>" "bits_of \<lparr>m_buf = []\<rparr> = []" by (simp_all add: bf_ok_def bits_of_def bf_size_def)
  have r: "replicate 2 True = [True, True]" by (simp add: numeral_2_eq_2)
  show ?thesis
    using bitfield_refines_list [OF demo_bits_facts(2), of 1 0 True] bitfield_refines_list [OF e(1), of 0 2 True]
    by (simp add: demo_bits_facts e r vec_resize_def)
qed

text \<open>
  C22. The word-wise queries agree with the bits: the count, whether all or none are set, the
  index of the first set bit (-1 if there is none), equality, and
  iteration: from \<open>begin()\<close> it reaches \<open>end()\<close> after exactly as many increments as there are bits and reads them in order.
\<close>

theorem bitfield_queries_count_bits:
  assumes "bf_ok b" "bf_ok c"
  shows "bf_count b = length (filter id (bits_of b))
    \<and> (all_set b \<longleftrightarrow> bits_of b \<noteq> [] \<and> False \<notin> set (bits_of b)) \<and> (none_set b \<longleftrightarrow> True \<notin> set (bits_of b))
    \<and> find_first_set b = (if True \<in> set (bits_of b) then int (length (takeWhile Not (bits_of b))) else -1)
    \<and> (bf_equal b c \<longleftrightarrow> bits_of b = bits_of c)
    \<and> iter_read (bf_size b) b (iter_begin b) = Some (bits_of b)"
proof -
  have "True \<notin> set (bits_of b) \<longleftrightarrow> (\<forall>i < bf_size b. \<not> get_bit b i)"
    "False \<notin> set (bits_of b) \<longleftrightarrow> (\<forall>i < bf_size b. get_bit b i)" "bits_of b \<noteq> [] \<longleftrightarrow> 0 < bf_size b"
    by (auto simp: bits_of_def)
  then show ?thesis
    by (simp only: count_bits [OF assms(1)] all_set_bits [OF assms(1)] none_set_bits [OF assms(1)]
      find_first_set_bits [OF assms(1)] equal_bits [OF assms] iteration_reads_bits simp_thms)
qed

theorem bitfield_queries_count_bits_witness: "bf_count demo_bits = 3 \<and> all_set demo_bits \<and> find_first_set demo_bits = 0"
  using bitfield_queries_count_bits [OF demo_bits_facts(2) demo_bits_facts(2)] by (simp add: demo_bits_facts(3))

text \<open>
  C23. The bytes a bitfield is sent as, assigned to any other bitfield, give an equal bitfield;
  and assigning bytes reads bit \<open>i\<close> from byte \<open>i / 8\<close>, most significant bit first.
\<close>

theorem bitfield_bytes_round_trip:
  assumes "bf_ok a" "bf_ok b" "n < 2 ^ 31" "(n + 7) div 8 \<le> length cs"
  shows "bf_equal (assign (data b) (bf_size b) a) b
    \<and> bits_of (assign cs n a) = map (\<lambda>i. bit (cs ! (i div 8)) (7 - i mod 8)) [0..<n]"
  using assign_data [OF assms(1,2)] assign_bits [OF assms(1,3,4)] by blast

theorem bitfield_bytes_round_trip_witness: "bf_equal (assign (data demo_bits) 3 \<lparr>m_buf = []\<rparr>) demo_bits"
proof -
  have "bf_ok \<lparr>m_buf = []\<rparr>" by (simp add: bf_ok_def)
  from bitfield_bytes_round_trip [OF this demo_bits_facts(2), of 0 "[]"] show ?thesis by (simp add: demo_bits_facts(1))
qed

section \<open>The IP filter\<close>

text \<open>
  C24. After any sequence of rules, each over two addresses of one kind in order, the IP filter
  holds them (no rule throws) and answers every address with the flags of the last rule that covers
  it, or 0 when none does; its access lists stay sorted from the lowest address with no two
  neighbouring ranges of equal flags.
\<close>

theorem ip_filter_last_rule_decides:
  assumes "\<forall>r \<in> set rs. rule_ok r"
  shows "\<exists>f. add_rules rs new_ip_filter = Some f \<and> ip_filter_ok f
    \<and> (\<forall>a. address_ok a \<longrightarrow> ip_filter_access f a = (case last_rule rs a of Some flags \<Rightarrow> flags | None \<Rightarrow> 0))"
  using add_rules_ok [OF new_ip_filter_ok(1) assms] by (auto simp: new_ip_filter_ok(2) split: option.splits)

theorem ip_filter_last_rule_decides_witness:
  "\<exists>f. add_rules [(V4 [10, 0, 0, 0], V4 [10, 255, 255, 255], 1), (V4 [10, 1, 0, 0], V4 [10, 1, 255, 255], 0)] new_ip_filter = Some f
    \<and> ip_filter_access f (V4 [10, 1, 2, 3]) = 0 \<and> ip_filter_access f (V4 [10, 2, 2, 3]) = 1"
proof -
  let ?rs = "[(V4 [10, 0, 0, 0], V4 [10, 255, 255, 255], 1), (V4 [10, 1, 0, 0], V4 [10, 1, 255, 255], 0)] :: (address \<times> address \<times> 32 word) list"
  have "\<forall>r \<in> set ?rs. rule_ok r" by (simp add: rule_ok_def)
  from ip_filter_last_rule_decides [OF this] obtain f where f: "add_rules ?rs new_ip_filter = Some f"
    and a: "\<And>a. address_ok a \<Longrightarrow> ip_filter_access f a = (case last_rule ?rs a of Some flags \<Rightarrow> flags | None \<Rightarrow> 0)" by blast
  have "ip_filter_access f (V4 [10, 1, 2, 3]) = 0" "ip_filter_access f (V4 [10, 2, 2, 3]) = 1"
    by (simp_all add: a last_rule_def)
  with f show ?thesis by blast
qed

text \<open>
  C25. The export of a filter over addresses of \<open>n\<close> bytes: every address is in exactly one of its
  ranges, whose flags are those \<open>access\<close> gives, and no list of ranges that describes the same filter
  is shorter.
\<close>

theorem export_filter_minimal:
  assumes "list_ok (\<lambda>a. length a = n) be_val l" "length a = n"
    "\<forall>a. length a = n \<longrightarrow> (\<exists>r \<in> set rs. be_val (ir_first r) \<le> be_val a \<and> be_val a \<le> be_val (ir_last r))"
    "\<forall>r \<in> set rs. \<forall>a. length a = n \<and> be_val (ir_first r) \<le> be_val a \<and> be_val a \<le> be_val (ir_last r)
       \<longrightarrow> ir_flags r = access (bytes_ops n) l a"
  shows "(\<exists>!r. r \<in> set (export_filter (bytes_ops n) l) \<and> be_val (ir_first r) \<le> be_val a \<and> be_val a \<le> be_val (ir_last r))
    \<and> (\<forall>r \<in> set (export_filter (bytes_ops n) l). be_val (ir_first r) \<le> be_val a \<and> be_val a \<le> be_val (ir_last r)
         \<longrightarrow> ir_flags r = access (bytes_ops n) l a)
    \<and> length (export_filter (bytes_ops n) l) \<le> length rs"
  using address_space.export_ok [OF bytes_space assms(1,2)] address_space.export_minimal [OF bytes_space assms(1,3,4)] by blast

theorem export_filter_minimal_witness:
  "\<exists>!r. r \<in> set (export_filter (bytes_ops 4) (new_filter (bytes_ops 4))) \<and> be_val (ir_first r) \<le> be_val [1, 2, 3, 4] \<and> be_val [1, 2, 3, 4] \<le> be_val (ir_last r)"
proof -
  let ?l = "new_filter (bytes_ops 4)" and ?rs = "[\<lparr>ir_first = [0, 0, 0, 0], ir_last = [255, 255, 255, 255], ir_flags = 0\<rparr>] :: 8 word list ip_range list"
  have cover: "\<forall>a. length a = 4 \<longrightarrow> (\<exists>r \<in> set ?rs. be_val (ir_first r) \<le> be_val a \<and> be_val a \<le> be_val (ir_last r))"
    using v4.val_le by auto
  have agree: "\<forall>r \<in> set ?rs. \<forall>a. length a = 4 \<and> be_val (ir_first r) \<le> be_val a \<and> be_val a \<le> be_val (ir_last r)
       \<longrightarrow> ir_flags r = access (bytes_ops 4) ?l a"
    using v4.new_filter_ok(2) by auto
  have len: "length [1, 2, 3, 4 :: 8 word] = 4" by simp
  from export_filter_minimal [OF v4.new_filter_ok(1) len cover agree] show ?thesis by blast
qed

section \<open>The fence of the disk jobs\<close>

text \<open>
  C26. Whatever jobs and fences are submitted to a storage and in whatever order running jobs
  complete, also when jobs of other storages were unblocked before in the same batch: a running fence job runs alone; of two jobs of which one is a fence, the one submitted
  first is done before the other starts; the count of outstanding jobs is the number of running
  jobs, and the fence is up exactly while a fence job runs or waits.
\<close>

theorem fence_excludes:
  assumes "fence_init s0" "fence_step\<^sup>*\<^sup>* s0 s"
  shows "(\<forall>j \<in> fs_running s. jf_fence (fs_flags s j) \<longrightarrow> fs_running s = {j})
    \<and> (\<forall>i k. i < k \<and> k < length (fs_submitted s) \<and> (jf_fence (fs_flags s (fs_submitted s ! i)) \<or> jf_fence (fs_flags s (fs_submitted s ! k)))
         \<and> fs_submitted s ! k \<in> fs_running s \<union> fs_done s \<longrightarrow> fs_submitted s ! i \<in> fs_done s)
    \<and> m_outstanding_jobs (fs_fence s) = int (card (fs_running s))
    \<and> (has_fence (fs_fence s) \<longleftrightarrow> (\<exists>j \<in> fs_running s \<union> set (m_blocked_jobs (fs_fence s)). jf_fence (fs_flags s j)))"
proof -
  have inv: "fence_inv s" using fence.reached_inv assms by blast
  note i = fence_invD [OF inv]
  show ?thesis using i(6,8) fence_order [OF inv] has_fence_iff [OF inv] unfolding is_fence_def by blast
qed

theorem fence_excludes_witness:
  "fs_running (complete 4 [] busy_storage) = {5} \<and> 4 \<in> fs_done (complete 4 [] busy_storage) \<and> has_fence (fs_fence (complete 4 [] busy_storage))"
proof -
  note e = fence_excludes [OF busy_storage_reached(1,3)]
  have "[4, 5, 6] ! 0 \<in> fs_done (complete 4 [] busy_storage)"
    using e busy_storage_facts(3,5,6) by (metis (no_types, lifting) Un_iff insertI1 length_Cons less_Suc_eq_0_disj list.size(3) nth_Cons_0 nth_Cons_Suc One_nat_def zero_less_Suc)
  moreover have "has_fence (fs_fence (complete 4 [] busy_storage))" using e busy_storage_facts(3,6) by blast
  ultimately show ?thesis by (simp add: busy_storage_facts)
qed

text \<open>
  C27. When jobs of a storage wait, a job of it is running, or else it is stuck for good: no later
  call starts a job of it. Completing a running job always leaves fewer jobs not done; it leaves the
  storage stuck exactly when that job is a fence, the next job in line is another fence, and earlier
  completions of the same batch have unblocked jobs (of other storages). As long as that does not happen, the
  jobs drain: they can all be completed, and when none runs any more, in whatever order they
  completed, all jobs that were submitted are done.
\<close>

theorem fence_drains:
  assumes "fence_init s0" "fence_step\<^sup>*\<^sup>* s0 s"
  shows "(\<not> fs_stuck s \<longrightarrow> (\<exists>t. completes\<^sup>*\<^sup>* s t \<and> fs_done t = set (fs_submitted s)))
    \<and> (\<not> fs_stuck s \<longrightarrow> (\<forall>t. completes\<^sup>*\<^sup>* s t \<and> fs_running t = {} \<longrightarrow> fs_done t = set (fs_submitted s)))
    \<and> (\<forall>j js. j \<in> fs_running s \<and> set js \<inter> set (m_blocked_jobs (fs_fence s)) = {} \<longrightarrow>
        card (set (fs_submitted s) - fs_done (complete j js s)) < card (set (fs_submitted s) - fs_done s)
        \<and> (fs_stuck (complete j js s) \<longleftrightarrow> jf_fence (fs_flags s j) \<and> js \<noteq> []
             \<and> m_blocked_jobs (fs_fence s) \<noteq> [] \<and> jf_fence (fs_flags s (hd (m_blocked_jobs (fs_fence s))))))
    \<and> (fs_stuck s \<longrightarrow> (\<forall>t. fence_step\<^sup>*\<^sup>* s t \<longrightarrow> fs_stuck t))"
proof -
  have inv: "fence_inv s" using fence.reached_inv assms by blast
  have "fs_done t = set (fs_submitted s)" if "\<not> fs_stuck s" "completes\<^sup>*\<^sup>* s t" "fs_running t = {}" for t
    using completes_run [OF that(2) inv that(1)] nothing_running [of t] that(3) by simp
  moreover have "fs_stuck (complete j js s) \<longleftrightarrow> jf_fence (fs_flags s j) \<and> js \<noteq> []
      \<and> m_blocked_jobs (fs_fence s) \<noteq> [] \<and> jf_fence (fs_flags s (hd (m_blocked_jobs (fs_fence s))))"
    if "j \<in> fs_running s" "set js \<inter> set (m_blocked_jobs (fs_fence s)) = {}" for j js
    using stuck_iff [OF inv that [folded fs_blocked_def]] by (auto simp: is_fence_def fs_blocked_def)
  ultimately show ?thesis using drains [OF inv] complete_shrinks [OF inv] stuck_forever [OF _ inv] by blast
qed

theorem fence_drains_witness:
  "(\<exists>t. completes\<^sup>*\<^sup>* busy_storage t \<and> fs_done t = {4, 5, 6}) \<and> fs_stuck (complete 5 [9] fenced_storage)"
proof
  have n: "\<not> fs_stuck busy_storage" by (simp add: fs_stuck_def busy_storage_facts)
  have "\<not> fs_stuck busy_storage \<longrightarrow> (\<exists>t. completes\<^sup>*\<^sup>* busy_storage t \<and> fs_done t = set (fs_submitted busy_storage))"
    using fence_drains [OF busy_storage_reached(1,2)] by (rule conjunct1)
  with n show "\<exists>t. completes\<^sup>*\<^sup>* busy_storage t \<and> fs_done t = {4, 5, 6}" by (simp add: busy_storage_facts)
  have "5 \<in> fs_running fenced_storage \<and> set [9] \<inter> set (m_blocked_jobs (fs_fence fenced_storage)) = {}"
    by (simp add: fenced_storage_facts)
  with fence_drains [OF busy_storage_reached(1) fenced_storage_reached]
  have "fs_stuck (complete 5 [9] fenced_storage) \<longleftrightarrow> jf_fence (fs_flags fenced_storage 5) \<and> [9] \<noteq> ([] :: nat list)
      \<and> m_blocked_jobs (fs_fence fenced_storage) \<noteq> [] \<and> jf_fence (fs_flags fenced_storage (hd (m_blocked_jobs (fs_fence fenced_storage))))"
    by blast
  then show "fs_stuck (complete 5 [9] fenced_storage)" by (simp add: fenced_storage_facts)
qed

text \<open>
  C28. The intrusive queue behaves as a list: pushing at either end, popping, appending and
  prepending another queue give the list one expects, and nodes of no queue involved keep their
  \<open>next\<close> pointer.
\<close>

theorem tailqueue_refines_list:
  assumes "tq_ok h q xs" "tq_ok h r ys" "set xs \<inter> set ys = {}" "e \<notin> set xs"
  shows "tq_ok (fst (push_front e h q)) (snd (push_front e h q)) (e # xs)
    \<and> tq_ok (fst (push_back e h q)) (snd (push_back e h q)) (xs @ [e])
    \<and> tq_ok (fst (tq_append r h q)) (snd (tq_append r h q)) (xs @ ys)
    \<and> tq_ok (fst (tq_prepend r h q)) (snd (tq_prepend r h q)) (ys @ xs)
    \<and> (case xs of [] \<Rightarrow> pop_front h q = None
        | x # xs' \<Rightarrow> (\<exists>q'. pop_front h q = Some (x, h(x := None), q') \<and> tq_ok (h(x := None)) q' xs'))
    \<and> (\<forall>z. z \<notin> set xs \<and> z \<noteq> e \<longrightarrow> fst (push_front e h q) z = h z \<and> fst (push_back e h q) z = h z \<and> fst (tq_append r h q) z = h z)"
  using push_front_ok [OF assms(1,4)] push_back_ok [OF assms(1,4)] tq_append_ok [OF assms(1-3)] tq_prepend_ok [OF assms(1-3)]
    pop_front_ok [of h q] pop_front_empty [of h q] tq_frame [OF assms(1)] assms(1)
  by (auto split: list.splits)

theorem tailqueue_refines_list_witness:
  "tq_ok (fst (push_back 2 (\<lambda>n. None) \<lparr>m_first = Some 1, m_last = Some 1, m_size = 1\<rparr>))
     (snd (push_back 2 (\<lambda>n. None) \<lparr>m_first = Some 1, m_last = Some 1, m_size = 1\<rparr>)) [1, 2]"
proof -
  have "tq_ok (\<lambda>n. None) \<lparr>m_first = Some 1, m_last = Some 1, m_size = 1\<rparr> [1]" by (simp add: tq_ok_def)
  from tailqueue_refines_list [OF this new_tailqueue_ok, of 2] show ?thesis by simp
qed

section \<open>The packet buffer of uTP\<close>

text \<open>Two numbers that are too far apart after a wrap-around share a slot.\<close>

lemma wrapped_numbers_alias:
  "case pb_insert 0xff00 (Some (1 :: nat)) new_packet_buffer of None \<Rightarrow> False | Some (p, b1) \<Rightarrow>
     (case pb_insert 0xff05 (Some 2) b1 of None \<Rightarrow> False | Some (q, b2) \<Rightarrow>
       pb_at 5 b2 = Some 2 \<and> pb_at 0xff05 b2 = Some 2
       \<and> (case pb_insert 5 (Some 3) b2 of None \<Rightarrow> False | Some (r, b3) \<Rightarrow> r = Some 2 \<and> pb_at 0xff05 b3 = Some 3 \<and> pb_size b3 = 2))"
  by code_simp

text \<open>
  C29. The packet buffer is a map from 16 bit sequence numbers to packets. \<open>insert\<close> returns the packet
  it replaces, if any, and adds the new one, growing the buffer as needed and across the wrap-around of the
  numbers; removing it again gives it back and leaves the other packets. \<open>at\<close> and \<open>remove\<close> find exactly
  the packet of the number. The invariant is kept: the size is the number of packets and the cursor is the number of
  the first. For \<open>insert\<close> into a buffer with packets the number has to be \<open>insertable\<close>: one before the first packet is so near that the
  window, with the capacity, stays within 32768 numbers; one after it is less than 32768 numbers away, and if it
  wrapped around (is below the first number) then so does the window. For \<open>at\<close> and \<open>remove\<close> it has to be \<open>distinct_idx\<close>: one that wrapped around
  lies within the window. This is needed: with packets 0xff00 and 0xff05 in a buffer of 16 slots, \<open>at\<close> answers for number 5,
  which was never inserted, with packet 0xff05, and inserting packet 5 makes no room and replaces packet 0xff05,
  although the two are 256 numbers apart.
\<close>

theorem packet_buffer_refines_map:
  assumes "pb_ok b"
  shows "(insertable i b \<longrightarrow> (\<exists>b'. pb_insert i (Some v) b = Some (packets b i, b') \<and> pb_ok b' \<and> packets b' = (packets b)(i \<mapsto> v)
        \<and> pb_at i b' = Some v
        \<and> (\<exists>b''. pb_remove i b' = (Some v, b'') \<and> pb_ok b'' \<and> packets b'' = (packets b)(i := None))))
    \<and> (distinct_idx j b \<longrightarrow> pb_at j b = packets b j)
    \<and> (distinct_idx j b \<longrightarrow> (\<exists>b'. pb_remove j b = (packets b j, b') \<and> pb_ok b' \<and> packets b' = (packets b)(j := None)))
    \<and> (case pb_insert 0xff00 (Some (1 :: nat)) new_packet_buffer of None \<Rightarrow> False | Some (p, b1) \<Rightarrow>
         (case pb_insert 0xff05 (Some 2) b1 of None \<Rightarrow> False | Some (q, b2) \<Rightarrow>
           pb_at 5 b2 = Some 2 \<and> pb_at 0xff05 b2 = Some 2
           \<and> (case pb_insert 5 (Some 3) b2 of None \<Rightarrow> False | Some (r, b3) \<Rightarrow> r = Some 2 \<and> pb_at 0xff05 b3 = Some 3 \<and> pb_size b3 = 2)))"
proof -
  have "\<exists>b'. pb_insert i (Some v) b = Some (packets b i, b') \<and> pb_ok b' \<and> packets b' = (packets b)(i \<mapsto> v) \<and> pb_at i b' = Some v
        \<and> (\<exists>b''. pb_remove i b' = (Some v, b'') \<and> pb_ok b'' \<and> packets b'' = (packets b)(i := None))" if i: "insertable i b"
    using pb.put_law [OF assms i, of v] pb.put_look [OF assms i, of v] pb.put_take [OF assms i, of v] by auto
  then show ?thesis using pb.look_law [OF assms] pb.take_law [OF assms] wrapped_numbers_alias by blast
qed

theorem packet_buffer_refines_map_witness:
  "\<exists>b' b''. pb_insert 65535 (Some (7 :: nat)) new_packet_buffer = Some (None, b') \<and> pb_at 65535 b' = Some 7
     \<and> pb_insert 65535 (Some 8) b' = Some (Some 7, b'') \<and> pb_at 65535 b'' = Some 8"
proof -
  have "insertable 65535 (new_packet_buffer :: nat packet_buffer)" by (rule new_packet_buffer_ok(3)) simp
  with packet_buffer_refines_map [OF new_packet_buffer_ok(1), of 65535 "7 :: nat" 0]
  obtain b' where b': "pb_insert 65535 (Some 7) new_packet_buffer = Some (None, b')" "pb_ok b'" "packets b' 65535 = Some (7 :: nat)" "pb_at 65535 b' = Some 7"
    by (auto simp: new_packet_buffer_ok(2))
  have "insertable 65535 (snd (the (pb_insert 65535 (Some (7 :: nat)) new_packet_buffer)))" by code_simp
  then have "insertable 65535 b'" using b'(1) by simp
  with packet_buffer_refines_map [OF b'(2), of 65535 8 0] obtain b'' where "pb_insert 65535 (Some 8) b' = Some (Some 7, b'')" "pb_at 65535 b'' = Some 8"
    using b'(3) by auto
  with b' show ?thesis by blast
qed

section \<open>Bencoding\<close>

text \<open>
  C30. \<open>bdecode\<close> accepts a buffer exactly when it starts with a bencoded value within the limits: the
  integers have at most 20 digits, the length prefixes of strings fit in a token and are the lengths
  of the strings, dictionaries have a string for every key and a value for it, the nesting is below the depth limit
  and there are no more tokens than the token limit. The tokens are then those of the value, and the
  text of the value is what was read.
\<close>

theorem bdecode_accepts_exactly:
  "(br_error (bdecode input d limit) = None \<longleftrightarrow> (\<exists>v rest. input = btext v @ rest \<and> fits v d limit) \<and> length input \<le> max_offset)
   \<and> (\<forall>v rest. input = btext v @ rest \<and> fits v d limit \<and> length input \<le> max_offset \<longrightarrow>
        bdecode input d limit = \<lparr>br_tokens = toks 0 v @ [mk_token (length (btext v)) 0 t_end 0], br_idx = 0,
          br_size = length (btext v), br_error = None\<rparr>)"
proof (intro conjI allI impI)
  show "br_error (bdecode input d limit) = None \<longleftrightarrow> (\<exists>v rest. input = btext v @ rest \<and> fits v d limit) \<and> length input \<le> max_offset"
    by (rule bdecode_accepts)
qed (auto simp: fits_def intro!: bdecode_text)

theorem bdecode_accepts_exactly_witness:
  "br_size (bdecode ''l2:xyi-7eejunk'' 3 10) = 10 \<and> br_error (bdecode ''l2:xyi-7eejunk'' 2 10) = None
    \<and> br_error (bdecode ''li5'' 3 10) = Some (unexpected_eof, 3)"
proof -
  let ?v = "BCont False [BStr ''2'' ''xy'', BInt ''-7'']"
  have v: "''l2:xyi-7eejunk'' = btext ?v @ ''junk''" "fits ?v 3 10" "fits ?v 2 10"
    by (simp_all add: fits_def str_text_def int_text_def numeric_def dec_val_def digit_of_def long_string_max_header_def)
  have len: "length ''l2:xyi-7eejunk'' \<le> max_offset" by (simp add: max_offset_def)
  have "bdecode ''l2:xyi-7eejunk'' 3 10 = \<lparr>br_tokens = toks 0 ?v @ [mk_token (length (btext ?v)) 0 t_end 0], br_idx = 0,
          br_size = length (btext ?v), br_error = None\<rparr>"
    using bdecode_accepts_exactly [of "''l2:xyi-7eejunk''" 3 10] v(1,2) len by blast
  moreover have "br_error (bdecode ''l2:xyi-7eejunk'' 2 10) = None"
    using bdecode_accepts_exactly [of "''l2:xyi-7eejunk''" 2 10] v(1,3) len by blast
  moreover have "br_error (bdecode ''li5'' 3 10) = Some (unexpected_eof, 3)" by code_simp
  ultimately show ?thesis by simp
qed

text \<open>
  C31. The nodes of a decoded dictionary, an empty one included, answer for its pairs: its type and its text are right,
  \<open>dict_size\<close> is the number of pairs, \<open>dict_find\<close> gives the value of the first pair with the key and
  no node when there is none, and \<open>dict_at\<close> gives, for every index below the size, the key with its value. After a
  size and a lookup by index, which leave cached positions in the node, the same holds of the node.
\<close>

theorem dictionary_nodes:
  assumes "node_of n i p (BCont True vs)"
  shows "node_type n = dict_t \<and> data_section n = btext (BCont True vs)
    \<and> found (dict_find n key) (map_of (dict_items vs) key)
    \<and> (\<exists>n1. dict_size n = Some (int (length (dict_items vs)), n1) \<and> node_of n1 i p (BCont True vs))
    \<and> (\<forall>j < length (dict_items vs). \<exists>c n2 k q. dict_at n (int j) = ((fst (dict_items vs ! j), c), n2)
         \<and> node_of c k q (snd (dict_items vs ! j)) \<and> node_of n2 i p (BCont True vs))"
proof -
  have l: "length (dict_items vs) = length vs div 2" using dict_items_nth(1) [OF dict_shape(1) [OF assms(1)]] .
  have "\<exists>c n2 k q. dict_at n (int j) = ((fst (dict_items vs ! j), c), n2) \<and> node_of c k q (snd (dict_items vs ! j))
      \<and> node_of n2 i p (BCont True vs)" if "j < length (dict_items vs)" for j
  proof -
    have j: "2 * j < length vs" using that l by simp
    have "dict_items vs ! j = (key_text (vs ! (2 * j)), vs ! Suc (2 * j))" using dict_items_nth(2) [OF dict_shape(1) [OF assms(1)] j] .
    then show ?thesis using dict_at_ok [OF assms(1) j] by fastforce
  qed
  then show ?thesis using node_type_ok [OF assms(1)] data_section_ok(1) [OF assms(1)] dict_find_ok [OF assms(1)] dict_size_ok [OF assms(1)] l
    by (simp add: type_of_def)
qed

theorem dictionary_nodes_witness:
  "fst (fst (dict_at (root_node ''d1:ai7ee'' (bdecode ''d1:ai7ee'' 9 9)) 0)) = ''a''
    \<and> (\<exists>n1. dict_size (root_node ''de'' (bdecode ''de'' 9 9)) = Some (0, n1))"
proof
  let ?vs = "[BStr ''1'' ''a'', BInt ''7'']"
  have "fits (BCont True ?vs) 9 9"
    by (simp add: fits_def str_text_def int_text_def numeric_def dec_val_def digit_of_def long_string_max_header_def)
  then have "node_of (root_node (btext (BCont True ?vs) @ []) (bdecode (btext (BCont True ?vs) @ []) 9 9)) 0 0 (BCont True ?vs)"
    by (rule root_ok) (simp add: max_offset_def)
  then have "node_of (root_node ''d1:ai7ee'' (bdecode ''d1:ai7ee'' 9 9)) 0 0 (BCont True ?vs)" by simp
  from dictionary_nodes [OF this] have "\<exists>c n2. dict_at (root_node ''d1:ai7ee'' (bdecode ''d1:ai7ee'' 9 9)) (int 0) = ((''a'', c), n2)"
    by (fastforce simp: dict_items_def)
  then show "fst (fst (dict_at (root_node ''d1:ai7ee'' (bdecode ''d1:ai7ee'' 9 9)) 0)) = ''a''" by auto
  have "fits (BCont True []) 9 9" by (simp add: fits_def)
  then have "node_of (root_node (btext (BCont True []) @ []) (bdecode (btext (BCont True []) @ []) 9 9)) 0 0 (BCont True [])"
    by (rule root_ok) (simp add: max_offset_def)
  then have "node_of (root_node ''de'' (bdecode ''de'' 9 9)) 0 0 (BCont True [])" by simp
  from dictionary_nodes [OF this] show "\<exists>n1. dict_size (root_node ''de'' (bdecode ''de'' 9 9)) = Some (0, n1)"
    by (auto simp: dict_items_def)
qed

text \<open>
  C32. Take an entry of integers in the range of 64 bits, strings, lists and dictionaries with their keys in
  order, without undefined or preformatted entries anywhere in it (\<open>storable\<close>), whose nesting and number of tokens are within the limits
  given to \<open>bdecode\<close>, in a buffer within its length limit. What \<open>bencode\<close> writes for it, whatever follows
  it in the buffer, \<open>bdecode\<close> accepts, and converting the root node gives the entry back; the root
  node covers exactly the text written. The one exception among these entries is the smallest 64
  bit integer, which is written and accepted but read as 0. On the entries without it
  \<open>bencode\<close> is a prefix code: another such entry whose encoding starts the same buffer is the same
  entry. It is not one beyond them: an undefined entry is written like the empty string.
\<close>

theorem bencode_bdecode_round_trip:
  assumes "storable e" "bdepth (to_bval e) \<le> d" "int (ntok (to_bval e)) \<le> limit" "length (bencode e @ rest) \<le> max_offset"
  shows "(let r = bdecode (bencode e @ rest) d limit; n = root_node (bencode e @ rest) r
      in br_error r = None \<and> entry_of d n = Some (read_back e) \<and> data_section n = bencode e) \<and> (no_min e \<longrightarrow> read_back e = e)
    \<and> (\<forall>e' s. no_min e \<and> storable e' \<and> no_min e' \<and> bencode e @ rest = bencode e' @ s \<longrightarrow> e' = e \<and> s = rest)
    \<and> bencode EUndef = bencode (EStr [])"
proof -
  have "e' = e \<and> s = rest" if "no_min e" "storable e'" "no_min e'" "bencode e @ rest = bencode e' @ s" for e' s
    using bencoding.prefix_free [of e e' rest s] assms(1,4) that by simp
  moreover have "bencode EUndef = bencode (EStr [])" by code_simp
  ultimately show ?thesis using bencode_bdecode [OF assms] read_back_same by (auto simp: Let_def)
qed

theorem bencode_bdecode_round_trip_witness:
  "entry_of 9 (root_node (bencode (EInt (- int64_max - 1))) (bdecode (bencode (EInt (- int64_max - 1))) 9 9)) = Some (EInt 0)"
proof -
  have "bencode (EInt (- int64_max - 1)) = ''i-9223372036854775808e''" by code_simp
  then show ?thesis using bencode_bdecode_round_trip [of "EInt (- int64_max - 1)" 9 9 "[]"]
    by (simp add: Let_def int64_def int64_max_def max_offset_def)
qed

section \<open>Rate limits\<close>

text \<open>
  C33. A rate limit holds over time, as long as no request has more than five channels (a round
  only looks at the first five of each): over any run of requests, each for distinct channels, and rounds, the bytes given
  out on a channel, to all peers that have it and less what disconnecting peers gave back, are at
  most the quota it had and what the rounds add to it, the limit times the time of each round (at most
  three seconds of it), rounded. The quota of the channel never becomes negative, if it was not to begin with.
\<close>

theorem bandwidth_rate_limit:
  assumes "bw_inv (m, h)" "\<forall>e \<in> set es. event_ok e" "ledger c (ch_limit (h c)) es (m, h) = Some ((m', h'), given, added)"
    "0 < ch_limit (h c)" "0 \<le> ch_quota_left (h c)" "\<forall>r \<in> set (bm_queue m). length (rq_channel r) \<le> 5"
  shows "given \<le> ch_quota_left (h c) + added \<and> 0 \<le> ch_quota_left (h' c)"
  using ledger_balance [OF assms(3,1,2) refl assms(4,5)] assms(6) by (auto simp: few_channels_def)

theorem bandwidth_rate_limit_witness:
  "\<exists>m' h' given. ledger 0 1 [Request 9 50 1 [0], Round 2000 nobody] (slow_manager, slow_channels) = Some ((m', h'), given, 2)
    \<and> given \<le> 2 \<and> 0 \<le> ch_quota_left (h' 0)"
proof -
  have inv: "bw_inv (slow_manager, slow_channels)" using slow_starved by (simp add: starved_def)
  have c0: "ch_limit (slow_channels 0) = 1" "ch_quota_left (slow_channels 0) = 0" by (simp_all add: slow_channels_def throttle_def new_channel_def)
  obtain m1 h1 where r: "request_bandwidth 9 50 1 [0] slow_manager slow_channels = Some (0, m1, h1)"
    using c0 by (simp add: request_bandwidth_def need_queueing_def max_bandwidth_channels_def slow_manager_def new_manager_def)
  obtain m2 h2 calls where u: "update_quotas 2000 nobody m1 h1 = (m2, h2, calls)" by (metis prod_cases3)
  obtain given where l: "ledger 0 1 [Request 9 50 1 [0], Round 2000 nobody] (slow_manager, slow_channels) = Some ((m2, h2), given, 2)"
    by (simp add: r u)
  have "given \<le> ch_quota_left (slow_channels 0) + 2 \<and> 0 \<le> ch_quota_left (h2 0)" by (rule bandwidth_rate_limit [OF inv, of "[Request 9 50 1 [0], Round 2000 nobody]"]) (use l c0 in \<open>auto simp: slow_manager_def new_manager_def new_request_def\<close>)
  then show ?thesis using l c0(2) by auto
qed

text \<open>
  C34. Suppose that every request is for a positive number of bytes with a positive priority and names distinct channels, of which at most ten need
  queueing. (The code does not check the last: it would write past the end of the array of channels of the request, and the
  model has no result then.) Whatever such requests are made, limits set, rounds run and overhead charged, the
  manager counts the bytes still owed to the requests in its queue, as its own invariant check asks; a request in the
  queue is owed something, and when its twenty rounds are over it was given nothing. A
  round answers or keeps every request, never both; a peer that stays connected is answered with at
  least one byte and at most what it asked for, a disconnecting one with none.
\<close>

theorem bandwidth_invariant:
  assumes "bw_init s0" "bw_step\<^sup>*\<^sup>* s0 (m, h)"
  shows "bm_queued_bytes m = (\<Sum>r\<leftarrow>bm_queue m. rq_size r - rq_assigned r)
    \<and> (\<forall>r \<in> set (bm_queue m). 0 \<le> rq_assigned r \<and> rq_assigned r < rq_size r \<and> length (rq_channel r) \<le> max_bandwidth_channels
         \<and> (rq_ttl r \<le> 0 \<longrightarrow> rq_assigned r = 0))
    \<and> (\<forall>dt disc m' h' calls. \<not> bm_abort m \<and> update_quotas dt disc m h = (m', h', calls) \<longrightarrow>
         mset (map rq_peer (bm_queue m)) = mset (map rq_peer (bm_queue m')) + mset (map fst calls)
         \<and> (\<forall>(p, d, b) \<in> set calls. (if disc p then b = 0 else 0 < b) \<and> (\<exists>r \<in> set (bm_queue m). rq_peer r = p \<and> b \<le> rq_size r)))"
proof -
  have inv: "bw_inv (m, h)" using bandwidth.reached_inv assms by blast
  then have "bm_queued_bytes m = owed (bm_queue m)" "\<forall>r \<in> set (bm_queue m). bw_request_ok r" by (auto simp: bw_inv_def)
  then show ?thesis using round_answers [OF inv] unfolding owed_def bw_request_ok_def by blast
qed

theorem bandwidth_invariant_witness:
  "bm_queued_bytes (fst (snd (the (request_bandwidth 7 100 1 [0] (new_manager 1) slow_channels)))) = 100"
proof -
  let ?h0 = "\<lambda>_. new_channel" and ?r = "the (request_bandwidth 7 100 1 [0] (new_manager 1) slow_channels)"
  have hs: "(?h0(0 := throttle 1 (?h0 0))) = slow_channels" by (auto simp: slow_channels_def)
  have "bw_step (new_manager 1, ?h0) (new_manager 1, ?h0(0 := throttle 1 (?h0 0)))" by (rule bw_step.limit) simp
  then have s1: "bw_step (new_manager 1, ?h0) (new_manager 1, slow_channels)" unfolding hs .
  have rq: "request_bandwidth 7 100 1 [0] (new_manager 1) slow_channels = Some (0, fst (snd ?r), snd (snd ?r))"
    by (simp add: request_bandwidth_def new_manager_def need_queueing_def slow_channels_def throttle_def new_channel_def max_bandwidth_channels_def)
  have "bw_step (new_manager 1, slow_channels) (fst (snd ?r), snd (snd ?r))" by (rule bw_step.request [OF rq]) simp_all
  then have run: "bw_step\<^sup>*\<^sup>* (new_manager 1, ?h0) (fst (snd ?r), snd (snd ?r))" using s1 by (meson converse_rtranclp_into_rtranclp rtranclp.rtrancl_refl)
  have "bm_queue (fst (snd ?r)) = [new_request 7 100 1 [0]]"
    by (simp add: request_bandwidth_def new_manager_def need_queueing_def slow_channels_def throttle_def new_channel_def max_bandwidth_channels_def)
  moreover have "bw_init (new_manager 1, ?h0)" by (auto simp: bw_init_def)
  ultimately show ?thesis using bandwidth_invariant [OF _ run] by (simp add: new_request_def)
qed

text \<open>
  C35. A request may wait forever, although a request is meant to be answered after twenty rounds even
  at very low limits. Suppose that all requests in the queue have a channel among their first five, were given
  nothing so far, and that for each of them the most the channel can save up, three times its limit and two bytes, times its
  priority is less than the sum of the priorities of all of them (and the channel has saved no more than that). Then every share is rounded down to 0: as
  long as no peer disconnects, no round, however many there are and however long, answers any of
  them.
\<close>

theorem bandwidth_starvation:
  assumes "bw_inv (m, h)" "\<not> bm_abort m" "0 < ch_limit (h c)" "6 * ch_limit (h c) + 3 \<le> bw_inf" "ch_quota_left (h c) \<le> 3 * ch_limit (h c) + 2"
    "\<forall>r \<in> set (bm_queue m). rq_assigned r = 0 \<and> c \<in> set (take 5 (rq_channel r))
       \<and> (3 * ch_limit (h c) + 2) * rq_priority r < (\<Sum>r\<leftarrow>bm_queue m. rq_priority r)" "\<forall>dt \<in> set dts. 0 \<le> dt"
  shows "\<exists>m' h'. rounds dts m h = (m', h', []) \<and> map rq_peer (bm_queue m') = map rq_peer (bm_queue m)
    \<and> (\<forall>r \<in> set (bm_queue m'). rq_assigned r = 0)"
proof -
  have "weight (bm_queue m) c = (\<Sum>r\<leftarrow>bm_queue m. rq_priority r)"
    unfolding weight_def using assms(6) by (intro arg_cong [of _ _ sum_list] map_cong) (auto dest: in_set_takeD)
  then have "starved c (ch_limit (h c)) (m, h)" using assms(1-6) by (simp add: starved_def)
  then show ?thesis using starved_rounds assms(7) by (fastforce simp: starved_def)
qed

theorem bandwidth_starvation_witness:
  "\<exists>m' h'. rounds (replicate 1000 3000) slow_manager slow_channels = (m', h', []) \<and> map rq_peer (bm_queue m') = [0, 1, 2, 3, 4, 5]"
proof -
  have q: "bm_queue slow_manager = map (\<lambda>p. new_request p 100 1 [0]) [0, 1, 2, 3, 4, 5]" by (simp add: slow_manager_def)
  have c: "ch_limit (slow_channels 0) = 1" "ch_quota_left (slow_channels 0) = 0" by (simp_all add: slow_channels_def throttle_def new_channel_def)
  have inv: "bw_inv (slow_manager, slow_channels)" using slow_starved by (simp add: starved_def)
  have "map rq_peer (bm_queue slow_manager) = [0, 1, 2, 3, 4, 5]" by (simp add: q new_request_def)
  moreover have "\<not> bm_abort slow_manager" by (simp add: slow_manager_def new_manager_def)
  ultimately show ?thesis using bandwidth_starvation [OF inv, of 0 "replicate 1000 3000"] by (auto simp: c q new_request_def bw_inf_def)
qed

section \<open>The files of a torrent\<close>

text \<open>
  C36. In every storage that can be built by adding and renaming files, a block within the torrent is
  mapped to slices that, read one after the other, are exactly its range of the concatenated files:
  none is empty or leaves its file, and no file comes twice. A range of one file, turned into a request
  by \<open>map_file\<close>, is mapped back to that range, when the piece length is positive and the piece length and the
  number of pieces (less than \<open>2^31 - 1\<close>) are values of \<open>int\<close>.
\<close>

theorem blocks_read_files:
  assumes "fs_step\<^sup>*\<^sup>* new_file_storage fs" "contents_ok cs (fs_files fs)" "fs_files fs \<noteq> []"
    "0 \<le> piece * fs_piece_length fs + offset" "0 \<le> sz" "piece * fs_piece_length fs + offset + sz \<le> fs_total_size fs"
  shows "(\<exists>sl. map_block piece offset sz fs = Some sl
      \<and> concat (map (read_slice cs) sl) = take (nat sz) (drop (nat (piece * fs_piece_length fs + offset)) (concat cs))
      \<and> (\<forall>s \<in> set sl. slice_ok (fs_files fs) s) \<and> sorted_wrt (<) (map sl_file sl))
    \<and> (\<forall>i off n. 0 < fs_piece_length fs \<and> fs_piece_length fs < 2 ^ 31
        \<and> fs_total_size fs < (2 ^ 31 - 1) * fs_piece_length fs \<and> i < length (fs_files fs) \<and> 0 \<le> off \<and> 0 < n \<and> off + n \<le> fe_size (fs_files fs ! i) \<longrightarrow>
        (let r = map_file i off n fs in map_block (pr_piece r) (pr_start r) (pr_length r) fs = Some [\<lparr>sl_file = i, sl_offset = off, sl_size = n\<rparr>]))"
proof -
  note ok = storage.reached_inv [OF refl assms(1)]
  show ?thesis using map_block_reads [OF ok assms(2,3) refl assms(4-6)] map_block_map_file [OF ok]
    by (auto simp: slices_read_def Let_def pieces_fit_def)
qed

theorem blocks_read_files_witness:
  "\<exists>sl. map_block 0 2 4 demo_storage = Some sl \<and> concat (map (read_slice [''abc'', ''defgh'']) sl) = ''cdef''"
proof -
  have "contents_ok [''abc'', ''defgh''] (fs_files demo_storage)" "fs_files demo_storage \<noteq> []" by code_simp+
  then show ?thesis using blocks_read_files [OF demo_storage_reachable, of "[''abc'', ''defgh'']" 0 2 4]
    by (auto simp: demo_storage_facts numeral_eq_Suc)
qed

text \<open>
  C37. Adding a file is refused for exactly three reasons: it is too large, the torrent would be, or its name
  is too long (4096 characters or more). A file added under a path of at least two elements (or of one, as the first file), its name
  copied from the path, or borrowed and shorter than 4095 characters, is found at that path under the directory it is saved in, and so is a
  file that is renamed; an absolute new name is taken as it is. In both cases the other files stay where
  they were. A borrowed name of 4095 characters, which is not refused, is cut to its last character.
\<close>

theorem files_at_their_paths:
  assumes "fs_step\<^sup>*\<^sup>* new_file_storage fs" "path_ok cs"
  shows "(add_file_borrow filename (join_path cs) len hid ex hash mt fs = Inl err \<longleftrightarrow>
      (if len > max_file_size then err = file_too_large
       else if len > max_file_offset - fs_total_size fs then err = torrent_invalid_length
       else length (if filename \<noteq> [] then filename else path_filename (join_path cs)) \<ge> 4096 \<and> err = filename_too_long))
    \<and> (add_file_borrow filename (join_path cs) len hid ex hash mt fs = Inr fs' \<and> (2 \<le> length cs \<or> fs_files fs = [])
        \<and> (filename = [] \<or> filename = last cs \<and> length filename < name_is_owned) \<longrightarrow>
        file_path (length (fs_files fs)) save_path fs' = Some (append_path save_path (join_path cs))
        \<and> (\<forall>j < length (fs_files fs). file_path j save_path fs' = file_path j save_path fs))
    \<and> (add_file_borrow filename (join_path cs) len hid ex hash mt fs = Inr fs' \<and> length filename = 4095 \<longrightarrow>
        entry_filename (fs_files fs' ! length (fs_files fs)) = Some [last filename])
    \<and> (i < length (fs_files fs) \<longrightarrow>
        file_path i save_path (rename_file i (join_path cs) fs) = Some (append_path save_path (join_path cs))
        \<and> (is_complete new \<and> CHR 0x00 \<notin> set new \<longrightarrow> file_path i save_path (rename_file i new fs) = Some new)
        \<and> (\<forall>j < length (fs_files fs). j \<noteq> i \<longrightarrow> file_path j save_path (rename_file i new fs) = file_path j save_path fs))"
proof -
  note ok = storage.reached_inv [OF refl assms(1)]
  have "entry_filename (fs_files fs' ! length (fs_files fs)) = Some [last filename]"
    if "add_file_borrow filename (join_path cs) len hid ex hash mt fs = Inr fs'" "length filename = 4095"
    using add_borrowed_cut [OF that(1)] that(2) by (simp add: name_is_owned_def)
  moreover have "i < length (fs_files fs) \<longrightarrow>
        file_path i save_path (rename_file i (join_path cs) fs) = Some (append_path save_path (join_path cs))
        \<and> (is_complete new \<and> CHR 0x00 \<notin> set new \<longrightarrow> file_path i save_path (rename_file i new fs) = Some new)
        \<and> (\<forall>j < length (fs_files fs). j \<noteq> i \<longrightarrow> file_path j save_path (rename_file i new fs) = file_path j save_path fs)"
    using rename_file_paths(2) [OF ok _ assms(2)] rename_file_paths(3,4) [OF ok] by blast
  ultimately show ?thesis
    using add_file_borrow_error [of filename "join_path cs" len hid ex hash mt fs err] add_file_borrow_paths [OF ok assms(2), of filename len hid ex hash mt fs']
    by blast
qed

theorem files_at_their_paths_witness:
  "file_path 1 ''/tmp'' (rename_file 1 ''x/y'' demo_storage) = Some ''/tmp/x/y''
    \<and> file_path 0 ''/tmp'' (rename_file 1 ''x/y'' demo_storage) = file_path 0 ''/tmp'' demo_storage"
proof -
  have "path_ok [''x'', ''y'']" "join_path [''x'', ''y''] = ''x/y''" "append_path ''/tmp'' ''x/y'' = ''/tmp/x/y''" by code_simp+
  moreover have "length (fs_files demo_storage) = 2" by code_simp
  ultimately show ?thesis using files_at_their_paths [OF demo_storage_reachable, of "[''x'', ''y'']" _ _ _ _ _ _ _ _ "''/tmp''" 1 "''x/y''"] by simp
qed

text \<open>
  C38. When the piece length is positive and it and the number of pieces (less than \<open>2^31 - 1\<close>) are values of \<open>int\<close>: for a file that
  is not empty, the inclusive range of pieces holds exactly the pieces with bytes of
  the file. The exclusive range of the last file holds the pieces from the first one that starts in it; that of another file
  should hold the pieces with bytes of this file only, but holds one more when the byte after the file is the last of a piece.
\<close>

theorem file_piece_ranges:
  assumes "fs_step\<^sup>*\<^sup>* new_file_storage fs" "0 < fs_piece_length fs" "fs_piece_length fs < 2 ^ 31"
    "fs_total_size fs < (2 ^ 31 - 1) * fs_piece_length fs" "i < length (fs_files fs)" "0 < fe_size (fs_files fs ! i)"
  shows "(case file_piece_range_inclusive fs i of (a, b) \<Rightarrow> a \<le> p \<and> p < b \<longleftrightarrow> piece_overlaps fs i p)
    \<and> (case file_piece_range_exclusive fs i of (a, b) \<Rightarrow> a \<le> p \<and> p < b \<longleftrightarrow>
        (if i + 1 = length (fs_files fs) then fe_offset (fs_files fs ! i) \<le> p * fs_piece_length fs \<and> p < fs_num_pieces fs
         else piece_inside fs i p \<or> fe_offset (fs_files fs ! i) \<le> p * fs_piece_length fs
           \<and> (p + 1) * fs_piece_length fs = fe_offset (fs_files fs ! i) + fe_size (fs_files fs ! i) + 1))"
proof -
  note ok = storage.reached_inv [OF refl assms(1)]
  obtain a b c d where r: "file_piece_range_inclusive fs i = (a, b)" "file_piece_range_exclusive fs i = (c, d)" by fastforce
  have fit: "pieces_fit fs" using assms(2-4) by (simp add: pieces_fit_def)
  show ?thesis using inclusive_range [OF ok fit assms(5,6) r(1), of p] exclusive_range [OF ok fit assms(5,6) r(2), of p] assms(5) r by (auto simp: not_less_eq)
qed

theorem file_piece_ranges_witness:
  "case file_piece_range_exclusive demo_storage 0 of (a, b) \<Rightarrow> a \<le> 0 \<and> 0 < b \<and> \<not> piece_inside demo_storage 0 0"
proof -
  have "0 < fs_piece_length demo_storage" "0 < length (fs_files demo_storage)" "0 < fe_size (fs_files demo_storage ! 0)"
    "length (fs_files demo_storage) = 2" "fe_offset (fs_files demo_storage ! 0) = 0" "fe_size (fs_files demo_storage ! 0) = 3" by code_simp+
  then show ?thesis using file_piece_ranges [OF demo_storage_reachable, of 0 0]
    by (auto simp: demo_storage_facts piece_inside_def split: prod.splits)
qed

section \<open>The receive buffer of a connection\<close>

text \<open>
  C39. Over any sequence of calls by a connection of its receive buffer, with an allocator that returns at least the
  bytes it is asked for, the bytes received are those handed over followed by those still in the
  buffer, in order; the current packet is a prefix of the latter, of the length the position says, and the code's own invariant check
  holds. The calls are those of \<open>rb_step\<close>: more is received only with a packet size set and after \<open>normalize\<close> (nothing cut
  off at the front), as the code asserts; no more is read than was received; bytes that were read are cut off at the front; \<open>reset\<close> is called when the
  current packet was read, and hands that over; \<open>grow\<close> is called with a limit not below the bytes held, or when the buffer is
  smaller than the packet.
\<close>

theorem receive_buffer_stream:
  assumes "allocator_ok alloc" "(rb_step alloc)\<^sup>*\<^sup>* ([], [], new_receive_buffer) (received, handed_over, b)"
  shows "received = handed_over @ pending b \<and> rb_get b = take (nat (rb_pos b)) (pending b) \<and> int (length (rb_get b)) = rb_pos b
    \<and> rb_check_invariant b"
proof -
  note R = receive_buffer_reached [OF assms]
  have "rb_pos b \<le> int (length (pending b))" "0 \<le> rb_pos b" using R(1) length_pending [OF R(1)] by (auto simp: rb_ok_def)
  then show ?thesis using R rb_get_pending [OF R(1)] rb_ok_check [OF R(1)] by simp
qed

theorem receive_buffer_stream_witness:
  "\<exists>b. (rb_step (\<lambda>n. replicate n CHR ''?''))\<^sup>*\<^sup>* ([], [], new_receive_buffer) (''abc'', [], b) \<and> pending b = ''abc''"
proof -
  let ?al = "\<lambda>n. replicate n CHR ''?''" and ?n = "rb_reset 20 (new_receive_buffer :: char receive_buffer)"
  have n: "rb_start ?n = 0" "rb_packet_size ?n = 20" by (simp_all add: rb_reset_def new_receive_buffer_def)
  have "rb_step ?al ([], [], new_receive_buffer) ([], [], ?n)"
    using step_reset [of new_receive_buffer 20 ?al "[]" "[]"] by (simp add: new_receive_buffer_def)
  moreover obtain b where "rb_step ?al ([], [], ?n) (''abc'', [], b)"
    using step_receive [of "''abc''" 3 ?n ?al "[]" "[]"] n by auto
  ultimately have "(rb_step ?al)\<^sup>*\<^sup>* ([], [], new_receive_buffer) (''abc'', [], b)" by simp
  moreover have "allocator_ok ?al" by (simp add: allocator_ok_def)
  ultimately show ?thesis using receive_buffer_stream [of ?al "''abc''" "[]" b] by auto
qed

text \<open>
  C40. The operations of the receive buffer on the bytes in it, of any buffer, also an empty or a fully read one. Receiving
  appends; \<open>cut\<close> takes bytes that were read out at an offset; \<open>reset\<close>, after the packet was read, takes the packet
  out, which leaves nothing when nothing else was received, and sets the size of the next one; \<open>reserve\<close>, \<open>normalize\<close> and, unless its limit is
  below the bytes held, \<open>grow\<close>, whichever buffer they allocate, keep the bytes, and \<open>normalize\<close> moves them to the front. \<open>advance_pos\<close> does not read more than it was
  told nor past the end of a packet, and makes progress when there is something to read. All keep the invariant.
\<close>

theorem receive_buffer_refines_list:
  assumes "rb_ok b" "allocator_ok alloc"
  shows "(int (length ds) \<le> sz \<longrightarrow> (let b' = rb_received (int (length ds)) (write_span ds (rb_reserve alloc sz b))
          in rb_ok b' \<and> pending b' = pending b @ ds))
    \<and> (0 \<le> n \<and> 0 \<le> offset \<and> n + offset \<le> rb_pos b \<and> 0 < ps \<longrightarrow> rb_ok (rb_cut n ps offset b)
          \<and> pending (rb_cut n ps offset b) = take (nat offset) (pending b) @ drop (nat offset + nat n) (pending b)
          \<and> rb_pos (rb_cut n ps offset b) = rb_pos b - n \<and> rb_packet_size (rb_cut n ps offset b) = ps)
    \<and> (rb_packet_size b \<le> rb_pos b \<and> 0 < ps \<longrightarrow> rb_ok (rb_reset ps b)
          \<and> pending (rb_reset ps b) = drop (nat (rb_packet_size b)) (pending b)
          \<and> rb_pos (rb_reset ps b) = rb_pos b - rb_packet_size b \<and> rb_packet_size (rb_reset ps b) = ps)
    \<and> (0 \<le> force \<longrightarrow> rb_ok (rb_normalize alloc force b) \<and> pending (rb_normalize alloc force b) = pending b
          \<and> rb_start (rb_normalize alloc force b) = 0)
    \<and> (rb_capacity b < rb_packet_size b \<or> rb_end b \<le> limit \<longrightarrow> rb_ok (rb_grow alloc limit b) \<and> pending (rb_grow alloc limit b) = pending b)
    \<and> (0 \<le> k \<and> rb_start b + rb_pos b + k \<le> rb_end b \<longrightarrow> (case advance_pos k b of (m, b') \<Rightarrow>
          rb_ok b' \<and> 0 \<le> m \<and> m \<le> k \<and> pending b' = pending b \<and> rb_pos b' = rb_pos b + m
          \<and> (0 < k \<and> 0 < rb_packet_size b \<longrightarrow> 0 < m) \<and> (rb_pos b < rb_packet_size b \<longrightarrow> rb_pos b' \<le> rb_packet_size b)))"
proof (intro conjI impI)
  assume d: "int (length ds) \<le> sz"
  then have "0 \<le> sz" by simp
  note v = rb_reserve_ok [OF assms this]
  from d v(3) have "int (length ds) \<le> max_receive (rb_reserve alloc sz b)" by linarith
  from received_ok [OF v(1) this] v(2) show "let b' = rb_received (int (length ds)) (write_span ds (rb_reserve alloc sz b)) in rb_ok b' \<and> pending b' = pending b @ ds"
    by simp
next
  assume k: "0 \<le> k \<and> rb_start b + rb_pos b + k \<le> rb_end b"
  obtain m b' where a: "advance_pos k b = (m, b')" by fastforce
  show "case advance_pos k b of (m, b') \<Rightarrow> rb_ok b' \<and> 0 \<le> m \<and> m \<le> k \<and> pending b' = pending b \<and> rb_pos b' = rb_pos b + m
          \<and> (0 < k \<and> 0 < rb_packet_size b \<longrightarrow> 0 < m) \<and> (rb_pos b < rb_packet_size b \<longrightarrow> rb_pos b' \<le> rb_packet_size b)"
    using advance_pos_ok [OF assms(1) a] k by (simp add: a)
qed (use rb_cut_ok [OF assms(1), of n offset ps] rb_reset_ok [OF assms(1), of ps] rb_normalize_ok [OF assms, of force] rb_grow_ok [OF assms, of limit] in auto)

theorem receive_buffer_refines_list_witness:
  "pending (rb_cut 1 5 1 \<lparr>rb_start = 1, rb_end = 6, rb_pos = 4, rb_packet_size = 5, rb_watermark = new_sliding_average, rb_bytes = ''xabcdez''\<rparr>) = ''acde''
    \<and> pending (rb_reset 5 \<lparr>rb_start = 0, rb_end = 2, rb_pos = 2, rb_packet_size = 2, rb_watermark = new_sliding_average, rb_bytes = ''abz''\<rparr>) = []"
proof
  let ?b = "\<lparr>rb_start = 1, rb_end = 6, rb_pos = 4, rb_packet_size = 5, rb_watermark = new_sliding_average, rb_bytes = ''xabcdez''\<rparr>"
  let ?c = "\<lparr>rb_start = 0, rb_end = 2, rb_pos = 2, rb_packet_size = 2, rb_watermark = new_sliding_average, rb_bytes = ''abz''\<rparr>"
  have al: "allocator_ok (\<lambda>n. replicate n CHR ''?'')" by (simp add: allocator_ok_def)
  have "rb_ok ?b" "pending ?b = ''abcde''" by code_simp+
  then show "pending (rb_cut 1 5 1 ?b) = ''acde''" using receive_buffer_refines_list [OF _ al, of ?b "[]" 0 1 1 5] by simp
  have "rb_ok ?c" "pending ?c = ''ab''" by code_simp+
  then show "pending (rb_reset 5 ?c) = []" using receive_buffer_refines_list [OF _ al, of ?c "[]" 0 1 1 5] by simp
qed

end
